(* ===== verification/Lain_Prelude.thy ===== *)
theory Lain_Prelude
  imports Main "HOL-Library.AList" "HOL-Library.List_Lexorder" "HOL-Library.Char_ord"
begin

text \<open>
  Shared vocabulary of the development.

  JavaScript strings are lists of characters (one character per UTF-16 code unit; the
  character type has 256 values, so code units above 255 are not representable, and no
  operation modelled here treats them differently). The string methods the program uses
  (\<open>startsWith\<close>, \<open>endsWith\<close>, \<open>includes\<close>, \<open>indexOf\<close>, \<open>split\<close>, \<open>join\<close>, \<open>slice\<close>) are
  defined on them.

  A JavaScript \<open>Map\<close> and a plain object used as a dictionary are association lists in
  iteration order. A \<open>Map\<close> iterates in insertion order. A plain object iterates its
  array-index keys first, in ascending order, then the other keys in insertion order;
  assigning to \<open>__proto__\<close> creates no entry. The two are instances of one interface, the
  locale \<open>kv_store\<close>, in which the lemmas about bulk updates are proved once.
\<close>

named_theorems js_simps \<open>rewrite rules for JavaScript strings, maps and objects\<close>

section \<open>Strings\<close>

type_synonym jstring = string

definition starts_with :: "jstring \<Rightarrow> jstring \<Rightarrow> bool" where
  "starts_with s p \<longleftrightarrow> take (length p) s = p"

definition ends_with :: "jstring \<Rightarrow> jstring \<Rightarrow> bool" where
  "ends_with s p \<longleftrightarrow> length p \<le> length s \<and> drop (length s - length p) s = p"

text \<open>\<open>indexOf\<close>: the first position where the pattern starts.\<close>

fun index_of :: "jstring \<Rightarrow> jstring \<Rightarrow> nat option" where
  "index_of p [] = (if p = [] then Some 0 else None)"
| "index_of p (c # s) = (if starts_with (c # s) p then Some 0 else map_option Suc (index_of p s))"

definition str_includes :: "jstring \<Rightarrow> jstring \<Rightarrow> bool" where
  "str_includes s p \<longleftrightarrow> index_of p s \<noteq> None"

text \<open>\<open>slice(0, -n)\<close>.\<close>

definition drop_right :: "nat \<Rightarrow> jstring \<Rightarrow> jstring" where
  "drop_right n s = take (length s - n) s"

text \<open>
  \<open>split(sep)\<close> for a separator that is not empty: the pieces between the leftmost
  non-overlapping occurrences of the separator. \<open>split_aux\<close> takes the piece read so far.
\<close>

function split_aux :: "jstring \<Rightarrow> jstring \<Rightarrow> jstring \<Rightarrow> jstring list" where
  "split_aux sep acc [] = [acc]"
| "split_aux sep acc (c # s) =
     (if sep \<noteq> [] \<and> starts_with (c # s) sep
      then acc # split_aux sep [] (drop (length sep) (c # s))
      else split_aux sep (acc @ [c]) s)"
  by pat_completeness auto
termination
proof (relation "measure (\<lambda>(sep, acc, s). length s)", goal_cases)
  case (2 sep acc c s)
  then show ?case by (cases sep) auto
qed auto

declare split_aux.simps(2) [simp del]

definition split_on :: "jstring \<Rightarrow> jstring \<Rightarrow> jstring list" where
  "split_on sep s = split_aux sep [] s"

fun join_with :: "jstring \<Rightarrow> jstring list \<Rightarrow> jstring" where
  "join_with sep [] = []"
| "join_with sep [s] = s"
| "join_with sep (s # t # ts) = s @ sep @ join_with sep (t # ts)"

lemma starts_with_append: "starts_with (p @ s) p"
  by (simp add: starts_with_def)

lemma starts_with_iff: "starts_with s p \<longleftrightarrow> (\<exists>t. s = p @ t)"
  by (metis append_take_drop_id append_eq_conv_conj starts_with_def)

lemma ends_with_iff: "ends_with s p \<longleftrightarrow> (\<exists>t. s = t @ p)"
proof
  assume "ends_with s p"
  then have "s = take (length s - length p) s @ p"
    by (metis append_take_drop_id ends_with_def)
  then show "\<exists>t. s = t @ p" ..
next
  assume "\<exists>t. s = t @ p"
  then show "ends_with s p" by (auto simp: ends_with_def)
qed

lemma ends_with_append [simp]: "ends_with (s @ p) p"
  by (auto simp: ends_with_iff)

lemma drop_right_append [simp]: "n = length p \<Longrightarrow> drop_right n (s @ p) = s"
  by (simp add: drop_right_def)

lemma index_of_Some:
  "index_of p s = Some i \<Longrightarrow> i + length p \<le> length s \<and> starts_with (drop i s) p"
proof (induction s arbitrary: i)
  case Nil
  then show ?case by (auto simp: starts_with_def split: if_splits)
next
  case (Cons c s)
  show ?case
  proof (cases "starts_with (c # s) p")
    case True
    with Cons.prems have "i = 0" by simp
    moreover have "length p \<le> length (c # s)"
      using True by (metis length_take min.cobounded2 min.commute starts_with_def)
    ultimately show ?thesis using True by simp
  next
    case False
    with Cons show ?thesis by auto
  qed
qed

lemma index_of_split: "index_of p s = Some i \<Longrightarrow> s = take i s @ p @ drop (i + length p) s"
  by (metis add.commute append_take_drop_id drop_drop index_of_Some starts_with_def)

lemma index_of_prefix: "index_of p s = Some i \<Longrightarrow> index_of p (s @ t) = Some i"
proof (induction s arbitrary: i)
  case Nil
  then show ?case by (cases t) (auto simp: starts_with_def split: if_splits)
next
  case (Cons c s)
  show ?case
  proof (cases "starts_with (c # s) p")
    case True
    then obtain u where "c # s = p @ u" by (auto simp: starts_with_iff)
    then have "c # s @ t = p @ u @ t" by (metis append_Cons append_assoc)
    then have "starts_with (c # s @ t) p" by (metis starts_with_append)
    with True Cons.prems show ?thesis by simp
  next
    case False
    with Cons.prems obtain j where j: "index_of p s = Some j" "i = Suc j" by auto
    then have "length p \<le> length (c # s)" using index_of_Some [OF j(1)] by simp
    then have "take (length p) (c # s @ t) = take (length p) (c # s)"
      using take_append [of "length p" "c # s" t] by simp
    with False have "\<not> starts_with (c # s @ t) p" by (metis starts_with_def)
    with j Cons.IH show ?thesis by simp
  qed
qed

text \<open>
  \<open>clear_before p c\<close>: in \<open>c\<close> followed by the separator \<open>p\<close>, the first occurrence of the
  separator is the one that was appended. A string that merely does not contain the
  separator need not have this property: the tail of \<open>c\<close> and the head of \<open>p\<close> can form it.
\<close>

definition clear_before :: "jstring \<Rightarrow> jstring \<Rightarrow> bool" where
  "clear_before p c \<longleftrightarrow> index_of p (c @ p) = Some (length c)"

lemma index_of_clear: "clear_before p c \<Longrightarrow> index_of p (c @ p @ t) = Some (length c)"
  using index_of_prefix [of p "c @ p" "length c" t] by (simp add: clear_before_def)

lemma index_of_append_Some: "\<exists>i. index_of p (c @ p @ t) = Some i \<and> i \<le> length c"
proof (induction c)
  case Nil
  show ?case
  proof (cases "p @ t")
    case (Cons a list)
    then show ?thesis using starts_with_append [of p t] by simp
  qed simp
next
  case (Cons a c)
  then show ?case by auto
qed

lemma index_of_clear_iff: "index_of p (c @ p @ t) = Some (length c) \<longleftrightarrow> clear_before p c"
proof
  assume *: "index_of p (c @ p @ t) = Some (length c)"
  obtain i where i: "index_of p (c @ p @ []) = Some i" "i \<le> length c"
    using index_of_append_Some by blast
  then have "index_of p (c @ p @ t) = Some i"
    using index_of_prefix [of p "c @ p" i t] by simp
  with * i show "clear_before p c" by (simp add: clear_before_def)
qed (rule index_of_clear)

lemma split_aux_nonempty: "split_aux sep acc s \<noteq> []"
  by (induction sep acc s rule: split_aux.induct) (auto simp: split_aux.simps(2))

lemma join_with_Cons: "ts \<noteq> [] \<Longrightarrow> join_with sep (t # ts) = t @ sep @ join_with sep ts"
  by (cases ts) auto

lemma join_split_aux: "join_with sep (split_aux sep acc s) = acc @ s"
proof (induction sep acc s rule: split_aux.induct)
  case (1 sep acc)
  then show ?case by simp
next
  case (2 sep acc c s)
  show ?case
  proof (cases "sep \<noteq> [] \<and> starts_with (c # s) sep")
    case True
    then obtain t where t: "c # s = sep @ t" by (auto simp: starts_with_iff)
    from True 2 have "join_with sep (split_aux sep [] (drop (length sep) (c # s))) = t"
      by (simp add: t)
    moreover from True have "split_aux sep acc (c # s) = acc # split_aux sep [] (drop (length sep) (c # s))"
      by (simp add: split_aux.simps(2))
    ultimately show ?thesis
      using t by (simp add: join_with_Cons split_aux_nonempty)
  next
    case False
    with 2 show ?thesis by (auto simp: split_aux.simps(2))
  qed
qed

lemma join_split [simp]: "join_with sep (split_on sep s) = s"
  by (simp add: split_on_def join_split_aux)

text \<open>The first piece ends where the separator first occurs.\<close>

lemma split_aux_index:
  assumes "sep \<noteq> []"
  shows "split_aux sep acc s =
    (case index_of sep s of None \<Rightarrow> [acc @ s]
     | Some i \<Rightarrow> (acc @ take i s) # split_aux sep [] (drop (i + length sep) s))"
  using assms
proof (induction s arbitrary: acc)
  case Nil
  then show ?case by simp
next
  case (Cons c s)
  then show ?case
    by (auto simp: split_aux.simps(2) [of sep acc c s] split: option.splits)
qed

lemma split_on_index:
  assumes "sep \<noteq> []"
  shows "split_on sep s =
    (case index_of sep s of None \<Rightarrow> [s]
     | Some i \<Rightarrow> take i s # split_on sep (drop (i + length sep) s))"
  using split_aux_index [OF assms, of "[]" s] by (simp add: split_on_def split: option.splits)

section \<open>Maps and plain objects\<close>

text \<open>
  The interface both dictionaries offer their clients: reading a key, setting it, deleting
  it and listing the entries. \<open>storable\<close> are the keys an assignment creates an entry for.
\<close>

locale kv_store =
  fixes get :: "'m \<Rightarrow> 'k \<Rightarrow> 'v option"
    and put :: "'k \<Rightarrow> 'v \<Rightarrow> 'm \<Rightarrow> 'm"
    and del :: "'k \<Rightarrow> 'm \<Rightarrow> 'm"
    and entries :: "'m \<Rightarrow> ('k \<times> 'v) list"
    and inv :: "'m \<Rightarrow> bool"
    and storable :: "'k \<Rightarrow> bool"
  assumes get_put: "inv m \<Longrightarrow> get (put k v m) = (if storable k then (get m)(k \<mapsto> v) else get m)"
    and get_del: "inv m \<Longrightarrow> get (del k m) = (get m)(k := None)"
    and inv_put: "inv m \<Longrightarrow> inv (put k v m)"
    and inv_del: "inv m \<Longrightarrow> inv (del k m)"
    and entries_get: "inv m \<Longrightarrow> map_of (entries m) = get m"
    and entries_distinct: "inv m \<Longrightarrow> distinct (map fst (entries m))"
begin

lemma inv_puts: "inv m \<Longrightarrow> inv (fold (\<lambda>(k, v). put k v) kvs m)"
  by (induction kvs arbitrary: m) (auto simp: inv_put)

lemma inv_dels: "inv m \<Longrightarrow> inv (fold del ks m)"
  by (induction ks arbitrary: m) (auto simp: inv_del)

lemma get_dels: "inv m \<Longrightarrow> get (fold del ks m) = (\<lambda>k. if k \<in> set ks then None else get m k)"
  by (induction ks arbitrary: m) (auto simp: inv_del get_del)

lemma get_puts:
  "inv m \<Longrightarrow> get (fold (\<lambda>(k, v). put k v) kvs m) k =
    (if storable k then (case map_of (rev kvs) k of None \<Rightarrow> get m k | Some v \<Rightarrow> Some v) else get m k)"
proof (induction kvs arbitrary: m)
  case Nil
  then show ?case by simp
next
  case (Cons kv kvs)
  obtain k' v where kv: "kv = (k', v)" by force
  have "get (fold (\<lambda>(k, v). put k v) kvs (put k' v m)) k =
      (if storable k then (case map_of (rev kvs) k of None \<Rightarrow> get (put k' v m) k | Some v \<Rightarrow> Some v)
       else get (put k' v m) k)"
    by (rule Cons.IH) (simp add: inv_put Cons.prems)
  with Cons.prems show ?case
    by (auto simp: kv get_put map_add_def split: option.splits)
qed

lemma entries_iff: "inv m \<Longrightarrow> (k, v) \<in> set (entries m) \<longleftrightarrow> get m k = Some v"
  by (metis entries_distinct entries_get map_of_eq_Some_iff)

lemma keys_iff: "inv m \<Longrightarrow> k \<in> fst ` set (entries m) \<longleftrightarrow> get m k \<noteq> None"
  by (metis entries_get map_of_eq_None_iff)

end

type_synonym ('k, 'v) jmap = "('k \<times> 'v) list"

text \<open>
  \<open>Map\<close>: \<open>set\<close> replaces the value of a key that is present and appends a new key, which is
  what \<open>AList.update\<close> does.
\<close>

interpretation jmap: kv_store map_of AList.update AList.delete "\<lambda>m. m" "\<lambda>m. distinct (map fst m)" "\<lambda>_. True"
  by unfold_locales (auto simp: update_conv' delete_conv' distinct_update distinct_delete restrict_map_def fun_eq_iff)

text \<open>Array-index keys: the canonical decimal numerals below $2^{32} - 1$.\<close>

definition is_digit :: "char \<Rightarrow> bool" where
  "is_digit c \<longleftrightarrow> c \<in> set ''0123456789''"

definition digit_value :: "char \<Rightarrow> int" where
  "digit_value c = of_char c - 48"

definition int_of_digits :: "jstring \<Rightarrow> int" where
  "int_of_digits s = foldl (\<lambda>n c. n * 10 + digit_value c) 0 s"

definition is_index_key :: "jstring \<Rightarrow> bool" where
  "is_index_key s \<longleftrightarrow> s \<noteq> [] \<and> list_all is_digit s \<and> (s = ''0'' \<or> hd s \<noteq> CHR ''0'')
     \<and> int_of_digits s < 4294967295"

fun insert_index :: "jstring \<Rightarrow> 'v \<Rightarrow> (jstring, 'v) jmap \<Rightarrow> (jstring, 'v) jmap" where
  "insert_index k v [] = [(k, v)]"
| "insert_index k v ((k', v') # m) =
     (if is_index_key k' \<and> int_of_digits k' < int_of_digits k then (k', v') # insert_index k v m
      else (k, v) # (k', v') # m)"

definition proto_key :: jstring where
  "proto_key = ''__proto__''"

text \<open>The assignment \<open>o[k] = v\<close> on the own entries of a plain object.\<close>

definition obj_set :: "jstring \<Rightarrow> 'v \<Rightarrow> (jstring, 'v) jmap \<Rightarrow> (jstring, 'v) jmap" where
  "obj_set k v m =
     (if k = proto_key then m
      else if map_of m k \<noteq> None then AList.update k v m
      else if is_index_key k then insert_index k v m
      else m @ [(k, v)])"

lemma map_of_insert_index:
  "map_of m k = None \<Longrightarrow> map_of (insert_index k v m) = (map_of m)(k \<mapsto> v)"
  by (induction m) (auto split: if_splits)

lemma set_insert_index: "set (insert_index k v m) = insert (k, v) (set m)"
proof (induction m)
  case Nil
  then show ?case by simp
next
  case (Cons kv m)
  then show ?case by (cases kv) (simp add: insert_commute)
qed

lemma keys_insert_index: "fst ` set (insert_index k v m) = insert k (fst ` set m)"
  by (simp add: set_insert_index)

lemma distinct_insert_index:
  "distinct (map fst m) \<Longrightarrow> k \<notin> fst ` set m \<Longrightarrow> distinct (map fst (insert_index k v m))"
  by (induction m) (auto simp: keys_insert_index)

lemma map_of_obj_set:
  "map_of (obj_set k v m) = (if k \<noteq> proto_key then (map_of m)(k \<mapsto> v) else map_of m)"
  by (auto simp: obj_set_def map_of_insert_index update_conv' map_add_def fun_eq_iff split: option.splits)

lemma distinct_obj_set:
  "distinct (map fst m) \<Longrightarrow> distinct (map fst (obj_set k v m))"
  by (auto simp: obj_set_def distinct_update distinct_insert_index map_of_eq_None_iff)

interpretation jobj: kv_store map_of obj_set AList.delete "\<lambda>m. m" "\<lambda>m. distinct (map fst m)" "\<lambda>k. k \<noteq> proto_key"
  by unfold_locales (auto simp: map_of_obj_set distinct_obj_set delete_conv' distinct_delete restrict_map_def fun_eq_iff)

lemma map_of_rev: "distinct (map fst kvs) \<Longrightarrow> map_of (rev kvs) = map_of kvs"
  by (subst map_of_inject_set) (auto simp: rev_map [symmetric])

section \<open>Sets in insertion order\<close>

definition set_add :: "'a \<Rightarrow> 'a list \<Rightarrow> 'a list" where
  "set_add x xs = (if x \<in> set xs then xs else xs @ [x])"

definition set_delete :: "'a \<Rightarrow> 'a list \<Rightarrow> 'a list" where
  "set_delete x xs = filter (\<lambda>y. y \<noteq> x) xs"

lemma set_set_add [simp]: "set (set_add x xs) = insert x (set xs)"
  by (auto simp: set_add_def)

lemma distinct_set_add [simp]: "distinct (set_add x xs) = distinct xs"
  by (auto simp: set_add_def)

lemma set_set_delete [simp]: "set (set_delete x xs) = set xs - {x}"
  by (auto simp: set_delete_def)

lemma distinct_set_delete [simp]: "distinct xs \<Longrightarrow> distinct (set_delete x xs)"
  by (simp add: set_delete_def)

lemma distinct_fold_set_add [simp]: "distinct acc \<Longrightarrow> distinct (fold set_add xs acc)"
  by (induction xs arbitrary: acc) auto

lemma set_fold_set_add [simp]: "set (fold set_add xs acc) = set acc \<union> set xs"
  by (induction xs arbitrary: acc) auto

end
