(* ===== verification/Js_Value.thy ===== *)
theory Js_Value
  imports Lain_Prelude
begin

text \<open>
  The JSON-like values a card slot can hold (\<open>unknown\<close> in the code, filled by
  \<open>JSON.parse\<close>) and the operations of the language the program applies to them:
  \<open>typeof\<close>, \<open>Number(s)\<close>, \<open>String(v)\<close>, \<open>JSON.stringify(v)\<close> and \<open>trim\<close>.

  A number is \<open>NaN\<close>, an infinity, negative zero, or an exact decimal $m \cdot 10^e$
  with $m$ free of trailing zeros. A decimal of at most 15 significant digits in the
  normal range of binary64 is read and printed by JavaScript without change, so on those
  the model agrees with the code; rounding of longer numerals is not modelled.
\<close>

section \<open>Numbers\<close>

datatype jsnum = NaN | PosInf | NegInf | NegZero | Dec int int

function strip_zeros :: "int \<Rightarrow> int \<Rightarrow> int \<times> int" where
  "strip_zeros m e = (if m \<noteq> 0 \<and> m mod 10 = 0 then strip_zeros (m div 10) (e + 1) else (m, e))"
  by pat_completeness auto
termination
  by (relation "measure (\<lambda>(m, e). nat \<bar>m\<bar>)") auto

declare strip_zeros.simps [simp del]

definition mk_dec :: "int \<Rightarrow> int \<Rightarrow> jsnum" where
  "mk_dec m e = (if m = 0 then Dec 0 0 else (case strip_zeros m e of (m', e') \<Rightarrow> Dec m' e'))"

definition num_of_int :: "int \<Rightarrow> jsnum" where
  "num_of_int i = mk_dec i 0"

fun num_neg :: "jsnum \<Rightarrow> jsnum" where
  "num_neg NaN = NaN"
| "num_neg PosInf = NegInf"
| "num_neg NegInf = PosInf"
| "num_neg NegZero = Dec 0 0"
| "num_neg (Dec m e) = (if m = 0 then NegZero else Dec (- m) e)"

subsection \<open>\<open>Number(s)\<close>\<close>

definition is_space :: "char \<Rightarrow> bool" where
  "is_space c \<longleftrightarrow> (of_char c :: int) \<in> {9, 10, 11, 12, 13, 32, 160}"

definition js_trim :: "jstring \<Rightarrow> jstring" where
  "js_trim s = rev (dropWhile is_space (rev (dropWhile is_space s)))"

definition signed_exponent :: "jstring \<Rightarrow> int option" where
  "signed_exponent s =
     (case s of
        [] \<Rightarrow> None
      | c # ds \<Rightarrow>
          if c = CHR ''-'' then (if ds \<noteq> [] \<and> list_all is_digit ds then Some (- int_of_digits ds) else None)
          else if c = CHR ''+'' then (if ds \<noteq> [] \<and> list_all is_digit ds then Some (int_of_digits ds) else None)
          else if list_all is_digit s then Some (int_of_digits s) else None)"

definition exponent_part :: "jstring \<Rightarrow> int option" where
  "exponent_part s =
     (case s of
        [] \<Rightarrow> Some 0
      | c # r \<Rightarrow> if c = CHR ''e'' \<or> c = CHR ''E'' then signed_exponent r else None)"

definition unsigned_decimal :: "jstring \<Rightarrow> jsnum" where
  "unsigned_decimal s =
     (if s = ''Infinity'' then PosInf
      else
        let ip = takeWhile is_digit s;
            r = dropWhile is_digit s;
            dot = (r \<noteq> [] \<and> hd r = CHR ''.'');
            fp = (if dot then takeWhile is_digit (tl r) else []);
            r' = (if dot then dropWhile is_digit (tl r) else r)
        in if ip = [] \<and> fp = [] then NaN
           else (case exponent_part r' of
                   None \<Rightarrow> NaN
                 | Some x \<Rightarrow> mk_dec (int_of_digits (ip @ fp)) (x - int (length fp))))"

definition hex_value :: "char \<Rightarrow> int option" where
  "hex_value c =
     (let n = of_char c :: int in
      if 48 \<le> n \<and> n \<le> 57 then Some (n - 48)
      else if 97 \<le> n \<and> n \<le> 102 then Some (n - 87)
      else if 65 \<le> n \<and> n \<le> 70 then Some (n - 55)
      else None)"

fun radix_value :: "int \<Rightarrow> int \<Rightarrow> jstring \<Rightarrow> int option" where
  "radix_value b acc [] = Some acc"
| "radix_value b acc (c # s) =
     (case hex_value c of
        None \<Rightarrow> None
      | Some d \<Rightarrow> if d < b then radix_value b (acc * b + d) s else None)"

definition radix_literal :: "int \<Rightarrow> jstring \<Rightarrow> jsnum" where
  "radix_literal b s =
     (if s = [] then NaN
      else (case radix_value b 0 s of None \<Rightarrow> NaN | Some n \<Rightarrow> num_of_int n))"

definition js_Number :: "jstring \<Rightarrow> jsnum" where
  "js_Number s0 =
     (let s = js_trim s0; p = take 2 s in
      if s = [] then Dec 0 0
      else if p = ''0x'' \<or> p = ''0X'' then radix_literal 16 (drop 2 s)
      else if p = ''0o'' \<or> p = ''0O'' then radix_literal 8 (drop 2 s)
      else if p = ''0b'' \<or> p = ''0B'' then radix_literal 2 (drop 2 s)
      else if hd s = CHR ''-'' then num_neg (unsigned_decimal (tl s))
      else if hd s = CHR ''+'' then unsigned_decimal (tl s)
      else unsigned_decimal s)"

subsection \<open>\<open>String(n)\<close>\<close>

definition digit_char :: "int \<Rightarrow> char" where
  "digit_char n = ''0123456789'' ! nat n"

function digits_of_int :: "int \<Rightarrow> jstring" where
  "digits_of_int n = (if n < 10 then [digit_char n] else digits_of_int (n div 10) @ [digit_char (n mod 10)])"
  by pat_completeness auto
termination
  by (relation "measure nat") auto

declare digits_of_int.simps [simp del]

definition zeros :: "nat \<Rightarrow> jstring" where
  "zeros n = replicate n CHR ''0''"

text \<open>
  The layout rules of \<open>Number::toString\<close>, for the digits \<open>ds\<close> of a positive number
  whose decimal point stands after position \<open>n\<close>.
\<close>

definition layout_digits :: "jstring \<Rightarrow> int \<Rightarrow> jstring" where
  "layout_digits ds n =
     (let k = int (length ds) in
      if k \<le> n \<and> n \<le> 21 then ds @ zeros (nat (n - k))
      else if 0 < n \<and> n \<le> 21 then take (nat n) ds @ ''.'' @ drop (nat n) ds
      else if - 6 < n \<and> n \<le> 0 then ''0.'' @ zeros (nat (- n)) @ ds
      else
        let x = (if n - 1 < 0 then ''-'' else ''+'') @ digits_of_int \<bar>n - 1\<bar>
        in if k = 1 then ds @ ''e'' @ x
           else take 1 ds @ ''.'' @ drop 1 ds @ ''e'' @ x)"

fun num_to_string :: "jsnum \<Rightarrow> jstring" where
  "num_to_string NaN = ''NaN''"
| "num_to_string PosInf = ''Infinity''"
| "num_to_string NegInf = ''-Infinity''"
| "num_to_string NegZero = ''0''"
| "num_to_string (Dec m e) =
     (if m = 0 then ''0''
      else let ds = digits_of_int \<bar>m\<bar> in
        (if m < 0 then ''-'' else []) @ layout_digits ds (int (length ds) + e))"

section \<open>Values\<close>

datatype jsval =
    JUndef
  | JNull
  | JBool bool
  | JNum jsnum
  | JStr jstring
  | JArr "jsval list"
  | JObj "(jstring \<times> jsval) list"

definition js_typeof :: "jsval \<Rightarrow> jstring" where
  "js_typeof v =
     (case v of JUndef \<Rightarrow> ''undefined'' | JNull \<Rightarrow> ''object'' | JBool _ \<Rightarrow> ''boolean''
      | JNum _ \<Rightarrow> ''number'' | JStr _ \<Rightarrow> ''string'' | JArr _ \<Rightarrow> ''object'' | JObj _ \<Rightarrow> ''object'')"

text \<open>\<open>String(v)\<close> of a value that is not an object.\<close>

definition prim_to_string :: "jsval \<Rightarrow> jstring" where
  "prim_to_string v =
     (case v of JUndef \<Rightarrow> ''undefined'' | JNull \<Rightarrow> ''null''
      | JBool b \<Rightarrow> (if b then ''true'' else ''false'')
      | JNum n \<Rightarrow> num_to_string n | JStr s \<Rightarrow> s | JArr _ \<Rightarrow> [] | JObj _ \<Rightarrow> [])"

text \<open>Reading a property; an array, like a primitive, has none of the names the program reads.\<close>

definition js_prop :: "jsval \<Rightarrow> jstring \<Rightarrow> jsval" where
  "js_prop v k = (case v of JObj kvs \<Rightarrow> (case map_of kvs k of Some x \<Rightarrow> x | None \<Rightarrow> JUndef) | _ \<Rightarrow> JUndef)"

text \<open>The operator \<open>a ?? b\<close>.\<close>

definition coalesce :: "jsval \<Rightarrow> jsval \<Rightarrow> jsval" where
  "coalesce a b = (if a = JUndef \<or> a = JNull then b else a)"

subsection \<open>\<open>JSON.stringify\<close>\<close>

definition hex_digit :: "int \<Rightarrow> char" where
  "hex_digit n = (if n < 10 then char_of (n + 48) else char_of (n + 87))"

definition json_escape :: "char \<Rightarrow> jstring" where
  "json_escape c =
     (let n = of_char c :: int; bs = char_of (92 :: int) in
      if n = 8 then [bs, CHR ''b'']
      else if n = 9 then [bs, CHR ''t'']
      else if n = 10 then [bs, CHR ''n'']
      else if n = 12 then [bs, CHR ''f'']
      else if n = 13 then [bs, CHR ''r'']
      else if n = 34 then [bs, char_of (34 :: int)]
      else if n = 92 then [bs, bs]
      else if n < 32 then [bs, CHR ''u'', CHR ''0'', CHR ''0'', hex_digit (n div 16), hex_digit (n mod 16)]
      else [c])"

definition json_quote :: "jstring \<Rightarrow> jstring" where
  "json_quote s = [char_of (34 :: int)] @ concat (map json_escape s) @ [char_of (34 :: int)]"

definition json_num :: "jsnum \<Rightarrow> jstring" where
  "json_num n = (if n = NaN \<or> n = PosInf \<or> n = NegInf then ''null'' else num_to_string n)"

text \<open>
  \<open>None\<close> is the \<open>undefined\<close> that \<open>JSON.stringify(undefined)\<close> returns; such a value is
  printed as \<open>null\<close> in an array and left out of an object.
\<close>

fun json_stringify :: "jsval \<Rightarrow> jstring option"
  and json_elems :: "jsval list \<Rightarrow> jstring list"
  and json_members :: "(jstring \<times> jsval) list \<Rightarrow> jstring list" where
  "json_stringify JUndef = None"
| "json_stringify JNull = Some ''null''"
| "json_stringify (JBool b) = Some (if b then ''true'' else ''false'')"
| "json_stringify (JNum n) = Some (json_num n)"
| "json_stringify (JStr s) = Some (json_quote s)"
| "json_stringify (JArr vs) = Some (''['' @ join_with '','' (json_elems vs) @ '']'')"
| "json_stringify (JObj kvs) = Some (''{'' @ join_with '','' (json_members kvs) @ ''}'')"
| "json_elems [] = []"
| "json_elems (v # vs) = (case json_stringify v of None \<Rightarrow> ''null'' | Some s \<Rightarrow> s) # json_elems vs"
| "json_members [] = []"
| "json_members ((k, v) # kvs) =
     (case json_stringify v of
        None \<Rightarrow> json_members kvs
      | Some s \<Rightarrow> (json_quote k @ '':'' @ s) # json_members kvs)"

end
