(* ===== verification/Json_Text.thy ===== *)
theory Json_Text
  imports Js_Value
begin

text \<open>
  \<open>JSON.parse\<close> as a recursive-descent parser, and its agreement with \<open>JSON.stringify\<close>: a
  JSON value is read back from its text, so two JSON values with the same text are equal.
  Failure (\<open>None\<close>) is the \<open>SyntaxError\<close> the language throws. The parser's fuel bounds the
  number of nested calls; \<open>json_parse\<close> starts it with twice the length of the text plus two,
  and \<open>parse_value_stable\<close> shows that no larger amount changes a result.
\<close>

section \<open>The parser\<close>

definition json_space :: "char \<Rightarrow> bool" where
  "json_space c \<longleftrightarrow> (of_char c :: int) \<in> {9, 10, 13, 32}"

definition skip_ws :: "jstring \<Rightarrow> jstring" where
  "skip_ws s = dropWhile json_space s"

text \<open>The characters of a string literal, after its opening quote.\<close>

fun parse_chars :: "jstring \<Rightarrow> (jstring \<times> jstring) option"
  and parse_escape :: "jstring \<Rightarrow> (jstring \<times> jstring) option" where
  "parse_chars [] = None"
| "parse_chars (c # s) =
     (let n = of_char c :: int in
      if n = 34 then Some ([], s)
      else if n = 92 then parse_escape s
      else if n < 32 then None
      else map_option (apfst ((#) c)) (parse_chars s))"
| "parse_escape [] = None"
| "parse_escape (e # s) =
     (let n = of_char e :: int in
      if n = 34 \<or> n = 92 \<or> n = 47 then map_option (apfst ((#) e)) (parse_chars s)
      else if n = 98 then map_option (apfst ((#) (char_of (8 :: int)))) (parse_chars s)
      else if n = 116 then map_option (apfst ((#) (char_of (9 :: int)))) (parse_chars s)
      else if n = 110 then map_option (apfst ((#) (char_of (10 :: int)))) (parse_chars s)
      else if n = 102 then map_option (apfst ((#) (char_of (12 :: int)))) (parse_chars s)
      else if n = 114 then map_option (apfst ((#) (char_of (13 :: int)))) (parse_chars s)
      else if n = 117 then
        (case s of
           a # b # h # l # s' \<Rightarrow>
             (case (hex_value a, hex_value b, hex_value h, hex_value l) of
                (Some x, Some y, Some z, Some w) \<Rightarrow>
                  if x = 0 \<and> y = 0 then map_option (apfst ((#) (char_of (z * 16 + w)))) (parse_chars s')
                  else None
              | _ \<Rightarrow> None)
         | _ \<Rightarrow> None)
      else None)"

definition number_exponent :: "jstring \<Rightarrow> (int \<times> jstring) option" where
  "number_exponent s =
     (if s \<noteq> [] \<and> (hd s = CHR ''e'' \<or> hd s = CHR ''E'') then
        (let t = tl s;
             signed = (t \<noteq> [] \<and> (hd t = CHR ''-'' \<or> hd t = CHR ''+''));
             u = (if signed then tl t else t);
             ds = takeWhile is_digit u
         in if ds = [] then None
            else Some ((if signed \<and> hd t = CHR ''-'' then - int_of_digits ds else int_of_digits ds),
                       dropWhile is_digit u))
      else Some (0, s))"

definition unsigned_number :: "jstring \<Rightarrow> (jsnum \<times> jstring) option" where
  "unsigned_number s =
     (let ip = takeWhile is_digit s;
          r = dropWhile is_digit s;
          dot = (r \<noteq> [] \<and> hd r = CHR ''.'');
          fp = (if dot then takeWhile is_digit (tl r) else []);
          r' = (if dot then dropWhile is_digit (tl r) else r)
      in if ip = [] \<or> (hd ip = CHR ''0'' \<and> tl ip \<noteq> []) \<or> (dot \<and> fp = []) then None
         else (case number_exponent r' of
                 None \<Rightarrow> None
               | Some (x, r'') \<Rightarrow> Some (mk_dec (int_of_digits (ip @ fp)) (x - int (length fp)), r'')))"

definition parse_number :: "jstring \<Rightarrow> (jsnum \<times> jstring) option" where
  "parse_number s =
     (if s \<noteq> [] \<and> hd s = CHR ''-'' then map_option (apfst num_neg) (unsigned_number (tl s))
      else unsigned_number s)"

text \<open>Objects are built property by property; here \<open>__proto__\<close> is a property like any other.\<close>

definition json_put :: "jstring \<Rightarrow> 'v \<Rightarrow> (jstring, 'v) jmap \<Rightarrow> (jstring, 'v) jmap" where
  "json_put k v m =
     (if map_of m k \<noteq> None then AList.update k v m
      else if is_index_key k then insert_index k v m
      else m @ [(k, v)])"

definition json_object :: "(jstring \<times> 'v) list \<Rightarrow> (jstring, 'v) jmap" where
  "json_object kvs = fold (\<lambda>(k, v). json_put k v) kvs []"

fun parse_value :: "nat \<Rightarrow> jstring \<Rightarrow> (jsval \<times> jstring) option"
  and parse_elems :: "nat \<Rightarrow> jstring \<Rightarrow> (jsval list \<times> jstring) option"
  and parse_members :: "nat \<Rightarrow> jstring \<Rightarrow> ((jstring \<times> jsval) list \<times> jstring) option" where
  "parse_value 0 s = None"
| "parse_value (Suc f) s =
     (case s of
        [] \<Rightarrow> None
      | c # r \<Rightarrow>
          let n = of_char c :: int in
          if n = 34 then map_option (apfst JStr) (parse_chars r)
          else if n = 91 then
            (case skip_ws r of
               [] \<Rightarrow> None
             | d # r' \<Rightarrow> if d = CHR '']'' then Some (JArr [], r')
                         else map_option (apfst JArr) (parse_elems f (d # r')))
          else if n = 123 then
            (case skip_ws r of
               [] \<Rightarrow> None
             | d # r' \<Rightarrow> if d = CHR ''}'' then Some (JObj [], r')
                         else map_option (apfst (JObj \<circ> json_object)) (parse_members f (d # r')))
          else if starts_with s ''null'' then Some (JNull, drop 4 s)
          else if starts_with s ''true'' then Some (JBool True, drop 4 s)
          else if starts_with s ''false'' then Some (JBool False, drop 5 s)
          else map_option (apfst JNum) (parse_number s))"
| "parse_elems 0 s = None"
| "parse_elems (Suc f) s =
     (case parse_value f s of
        None \<Rightarrow> None
      | Some (v, r) \<Rightarrow>
          (case skip_ws r of
             [] \<Rightarrow> None
           | d # r' \<Rightarrow>
               if d = CHR '','' then map_option (apfst ((#) v)) (parse_elems f (skip_ws r'))
               else if d = CHR '']'' then Some ([v], r')
               else None))"
| "parse_members 0 s = None"
| "parse_members (Suc f) s =
     (case s of
        [] \<Rightarrow> None
      | q # r0 \<Rightarrow>
          if (of_char q :: int) \<noteq> 34 then None
          else
            (case parse_chars r0 of
               None \<Rightarrow> None
             | Some (k, r1) \<Rightarrow>
                 (case skip_ws r1 of
                    [] \<Rightarrow> None
                  | c # r2 \<Rightarrow>
                      if c \<noteq> CHR '':'' then None
                      else
                        (case parse_value f (skip_ws r2) of
                           None \<Rightarrow> None
                         | Some (v, r) \<Rightarrow>
                             (case skip_ws r of
                                [] \<Rightarrow> None
                              | d # r' \<Rightarrow>
                                  if d = CHR '','' then map_option (apfst ((#) (k, v))) (parse_members f (skip_ws r'))
                                  else if d = CHR ''}'' then Some ([(k, v)], r')
                                  else None)))))"

definition json_parse :: "jstring \<Rightarrow> jsval option" where
  "json_parse s =
     (case parse_value (2 * length s + 2) (skip_ws s) of
        None \<Rightarrow> None
      | Some (v, r) \<Rightarrow> if skip_ws r = [] then Some v else None)"

section \<open>Digits\<close>

lemma digit_cases: "0 \<le> d \<Longrightarrow> d < 10 \<Longrightarrow> d \<in> {0, 1, 2, 3, 4, 5, 6, 7, 8, 9 :: int}"
  by (simp; presburger)

lemma digit_char [simp]:
  assumes "0 \<le> d" and "d < 10"
  shows "is_digit (digit_char d)" and "digit_value (digit_char d) = d"
    and "digit_char d = CHR ''0'' \<longleftrightarrow> d = 0"
  using digit_cases [OF assms] by (auto simp: is_digit_def digit_value_def digit_char_def)

lemma int_of_digits_append:
  "int_of_digits (xs @ ys) = int_of_digits xs * 10 ^ length ys + int_of_digits ys"
proof (induction ys rule: rev_induct)
  case Nil
  then show ?case by (simp add: int_of_digits_def)
next
  case (snoc y ys)
  then show ?case by (simp add: int_of_digits_def algebra_simps)
qed

lemma int_of_digits_Nil [simp]: "int_of_digits [] = 0"
  by (simp add: int_of_digits_def)

lemma int_of_digits_snoc [simp]: "int_of_digits (xs @ [c]) = int_of_digits xs * 10 + digit_value c"
  by (simp add: int_of_digits_def)

lemma int_of_digits_one: "int_of_digits [c] = digit_value c"
  by (simp add: int_of_digits_def)

lemma int_of_digits_zeros [simp]: "int_of_digits (zeros n) = 0"
proof (induction n)
  case 0
  then show ?case by (simp add: zeros_def)
next
  case (Suc n)
  have "zeros (Suc n) = zeros n @ [CHR ''0'']"
    by (simp add: zeros_def replicate_append_same)
  with Suc show ?case by (simp add: digit_value_def)
qed

lemma digits_zeros [simp]: "list_all is_digit (zeros n)" "length (zeros n) = n"
  by (auto simp: zeros_def list_all_iff is_digit_def)

lemma digits_of_int [simp]:
  assumes "0 \<le> n"
  shows "list_all is_digit (digits_of_int n)" and "int_of_digits (digits_of_int n) = n"
    and "digits_of_int n \<noteq> []"
  using assms
proof (induction n rule: digits_of_int.induct)
  case (1 n)
  {
    case 1
    with "1.IH" show ?case by (subst digits_of_int.simps) auto
  next
    case 2
    with "1.IH" show ?case
      by (subst digits_of_int.simps) (auto simp: int_of_digits_def)
  next
    case 3
    then show ?case by (subst digits_of_int.simps) auto
  }
qed

lemma hd_digits_of_int [simp]: "0 < n \<Longrightarrow> hd (digits_of_int n) \<noteq> CHR ''0''"
proof (induction n rule: digits_of_int.induct)
  case (1 n)
  show ?case
  proof (cases "n < 10")
    case True
    with 1 show ?thesis by (subst digits_of_int.simps) auto
  next
    case False
    with 1 show ?thesis by (subst digits_of_int.simps) (auto simp: hd_append)
  qed
qed

section \<open>Decimals\<close>

fun wf_num :: "jsnum \<Rightarrow> bool" where
  "wf_num (Dec m e) \<longleftrightarrow> (if m = 0 then e = 0 else m mod 10 \<noteq> 0)"
| "wf_num _ \<longleftrightarrow> True"

definition finite_num :: "jsnum \<Rightarrow> bool" where
  "finite_num n \<longleftrightarrow> wf_num n \<and> (\<exists>m e. n = Dec m e)"

lemma strip_zeros_shift:
  "m mod 10 \<noteq> 0 \<Longrightarrow> strip_zeros (m * 10 ^ j) e = (m, e + int j)"
proof (induction j arbitrary: e)
  case 0
  then show ?case by (simp add: strip_zeros.simps)
next
  case (Suc j)
  then have "m * 10 ^ Suc j \<noteq> 0" "m * 10 ^ Suc j mod 10 = 0" "m * 10 ^ Suc j div 10 = m * 10 ^ j"
    by auto
  then show ?case using Suc by (subst strip_zeros.simps) simp
qed

lemma mk_dec_shift: "m mod 10 \<noteq> 0 \<Longrightarrow> mk_dec (m * 10 ^ j) e = Dec m (e + int j)"
  by (auto simp: mk_dec_def strip_zeros_shift)

lemma mk_dec_same: "m mod 10 \<noteq> 0 \<Longrightarrow> mk_dec m e = Dec m e"
  using mk_dec_shift [of m 0 e] by simp

lemma wf_strip_zeros: "m \<noteq> 0 \<Longrightarrow> fst (strip_zeros m e) mod 10 \<noteq> 0"
proof (induction m e rule: strip_zeros.induct)
  case (1 m e)
  show ?case
  proof (cases "m mod 10 = 0")
    case True
    with 1 have "m div 10 \<noteq> 0" by auto
    with True 1 show ?thesis by (subst strip_zeros.simps) simp
  next
    case False
    then show ?thesis by (subst strip_zeros.simps) simp
  qed
qed

lemma wf_mk_dec [simp]: "wf_num (mk_dec m e)"
  using wf_strip_zeros [of m e] by (auto simp: mk_dec_def split: prod.splits)

section \<open>Numbers are read back\<close>

definition delim :: "jstring \<Rightarrow> bool" where
  "delim r \<longleftrightarrow> (r = [] \<or> (\<not> is_digit (hd r) \<and> hd r \<notin> {CHR ''.'', CHR ''e'', CHR ''E''}))"

definition nondigit_start :: "jstring \<Rightarrow> bool" where
  "nondigit_start r \<longleftrightarrow> (r = [] \<or> \<not> is_digit (hd r))"

lemma takeWhile_digits [simp]:
  "list_all is_digit ds \<Longrightarrow> nondigit_start r \<Longrightarrow> takeWhile is_digit (ds @ r) = ds"
  "list_all is_digit ds \<Longrightarrow> nondigit_start r \<Longrightarrow> dropWhile is_digit (ds @ r) = r"
  by (induction ds; cases r; auto simp: nondigit_start_def)+

lemma delim_nondigit [simp]: "delim r \<Longrightarrow> nondigit_start r"
  by (auto simp: delim_def nondigit_start_def)

lemma number_exponent_none: "delim r \<Longrightarrow> number_exponent r = Some (0, r)"
  by (auto simp: number_exponent_def delim_def)

lemma number_exponent_some:
  assumes "list_all is_digit ds" "ds \<noteq> []" "nondigit_start r" "c = CHR ''-'' \<or> c = CHR ''+''"
  shows "number_exponent (CHR ''e'' # c # ds @ r) =
     Some ((if c = CHR ''-'' then - int_of_digits ds else int_of_digits ds), r)"
  using assms by (auto simp: number_exponent_def)

lemma nondigit_chars [simp]: "nondigit_start (CHR ''.'' # s)" "nondigit_start (CHR ''e'' # s)"
  by (simp_all add: nondigit_start_def is_digit_def)

lemma unsigned_number_int:
  assumes "list_all is_digit ip" "ip \<noteq> []" "hd ip \<noteq> CHR ''0'' \<or> tl ip = []"
    and "nondigit_start r" "r = [] \<or> hd r \<noteq> CHR ''.''" "number_exponent r = Some (x, r')"
  shows "unsigned_number (ip @ r) = Some (mk_dec (int_of_digits ip) x, r')"
  using assms by (auto simp: unsigned_number_def)

lemma unsigned_number_frac:
  assumes "list_all is_digit ip" "ip \<noteq> []" "hd ip \<noteq> CHR ''0'' \<or> tl ip = []"
    and "list_all is_digit fp" "fp \<noteq> []" "nondigit_start r" "number_exponent r = Some (x, r')"
  shows "unsigned_number (ip @ CHR ''.'' # fp @ r) =
     Some (mk_dec (int_of_digits (ip @ fp)) (x - int (length fp)), r')"
  using assms by (auto simp: unsigned_number_def Let_def)

lemma list_all_take_drop [simp]:
  "list_all P xs \<Longrightarrow> list_all P (take n xs)" "list_all P xs \<Longrightarrow> list_all P (drop n xs)"
  by (auto simp: list_all_iff dest: in_set_takeD in_set_dropD)

lemma unsigned_number_layout:
  assumes m: "0 < m" "m mod 10 \<noteq> 0" and r: "delim r"
    and ds: "ds = digits_of_int m" and n: "n = int (length ds) + e"
  shows "unsigned_number (layout_digits ds n @ r) = Some (Dec m e, r)"
proof -
  have d [simp]: "list_all is_digit ds" "ds \<noteq> []" "int_of_digits ds = m" "hd ds \<noteq> CHR ''0''"
    using m ds by simp_all
  let ?k = "int (length ds)"
  have k: "1 \<le> ?k" using d(2) by (cases ds) auto
  consider (int) "?k \<le> n \<and> n \<le> 21" | (mid) "\<not> (?k \<le> n \<and> n \<le> 21)" "0 < n \<and> n \<le> 21"
    | (small) "\<not> 0 < n" "- 6 < n" | (exp) "21 < n \<or> n \<le> - 6"
    by linarith
  then show ?thesis
  proof cases
    case int
    let ?z = "nat (n - ?k)"
    have "unsigned_number ((ds @ zeros ?z) @ r) = Some (mk_dec (int_of_digits (ds @ zeros ?z)) 0, r)"
      by (rule unsigned_number_int)
        (use r in \<open>auto simp: delim_def number_exponent_none\<close>)
    with int m show ?thesis
      by (simp add: layout_digits_def int_of_digits_append mk_dec_shift n)
  next
    case mid
    let ?n = "nat n"
    have "?n < length ds" "0 < ?n" using mid by auto
    then have "unsigned_number (take ?n ds @ CHR ''.'' # drop ?n ds @ r) =
        Some (mk_dec (int_of_digits (take ?n ds @ drop ?n ds)) (0 - int (length (drop ?n ds))), r)"
      by (intro unsigned_number_frac) (use r in \<open>auto simp: number_exponent_none\<close>)
    with mid m show ?thesis
      by (auto simp: layout_digits_def mk_dec_same n Let_def)
  next
    case small
    let ?fp = "zeros (nat (- n)) @ ds"
    have "unsigned_number (''0'' @ CHR ''.'' # ?fp @ r) =
        Some (mk_dec (int_of_digits (''0'' @ ?fp)) (0 - int (length ?fp)), r)"
      by (intro unsigned_number_frac) (use r in \<open>auto simp: number_exponent_none is_digit_def\<close>)
    moreover have "int_of_digits (''0'' @ ?fp) = m"
      by (simp only: int_of_digits_append) (simp add: int_of_digits_one digit_value_def)
    ultimately show ?thesis
      using small m k by (simp add: layout_digits_def mk_dec_same n)
  next
    case exp
    let ?c = "if n - 1 < 0 then CHR ''-'' else CHR ''+''"
    let ?x = "digits_of_int \<bar>n - 1\<bar>"
    have ne: "number_exponent (CHR ''e'' # ?c # ?x @ r) = Some (n - 1, r)"
      using r by (subst number_exponent_some) auto
    have lay: "layout_digits ds n =
        (if ?k = 1 then ds @ CHR ''e'' # ?c # ?x else take 1 ds @ CHR ''.'' # drop 1 ds @ CHR ''e'' # ?c # ?x)"
      using exp k by (auto simp: layout_digits_def Let_def)
    show ?thesis
    proof (cases "?k = 1")
      case True
      have "unsigned_number (ds @ CHR ''e'' # ?c # ?x @ r) = Some (mk_dec (int_of_digits ds) (n - 1), r)"
        by (rule unsigned_number_int) (use ne in auto)
      with True m show ?thesis unfolding lay by (simp add: mk_dec_same n)
    next
      case False
      then have "drop 1 ds \<noteq> []" using k by auto
      then have "unsigned_number (take 1 ds @ CHR ''.'' # drop 1 ds @ CHR ''e'' # ?c # ?x @ r) =
          Some (mk_dec (int_of_digits (take 1 ds @ drop 1 ds)) (n - 1 - int (length (drop 1 ds))), r)"
        by (intro unsigned_number_frac) (use ne in auto)
      with False m k show ?thesis unfolding lay by (simp add: mk_dec_same n)
    qed
  qed
qed

lemma layout_hd:
  assumes "0 < m" and "ds = digits_of_int m"
  shows "layout_digits ds n \<noteq> []" and "is_digit (hd (layout_digits ds n))"
proof -
  obtain d ds' where ds: "ds = d # ds'" "is_digit d"
    using digits_of_int(1,3) [of m] assms by (cases "digits_of_int m") auto
  then show "layout_digits ds n \<noteq> []" and "is_digit (hd (layout_digits ds n))"
    by (auto simp: layout_digits_def Let_def is_digit_def hd_append take_Cons' split: if_splits)
qed

lemma parse_number_roundtrip:
  assumes "finite_num n" and "delim r"
  shows "parse_number (num_to_string n @ r) = Some (n, r)"
proof -
  obtain m e where n: "n = Dec m e" and wf: "wf_num (Dec m e)"
    using assms(1) by (auto simp: finite_num_def)
  consider "m = 0" | "0 < m" | "m < 0" by linarith
  then show ?thesis
  proof cases
    case 1
    have "unsigned_number (''0'' @ r) = Some (mk_dec (int_of_digits ''0'') 0, r)"
      by (rule unsigned_number_int) (use assms(2) in \<open>auto simp: delim_def number_exponent_none is_digit_def\<close>)
    with 1 wf show ?thesis by (simp add: n parse_number_def mk_dec_def int_of_digits_def digit_value_def)
  next
    case 2
    let ?ds = "digits_of_int m"
    have "hd (layout_digits ?ds (int (length ?ds) + e)) \<noteq> CHR ''-''"
      using layout_hd(2) [OF 2 refl, of "int (length ?ds) + e"] by (auto simp: is_digit_def)
    with 2 wf assms(2) layout_hd(1) [OF 2 refl] show ?thesis
      by (simp add: n parse_number_def unsigned_number_layout Let_def)
  next
    case 3
    then have m: "0 < - m" "(- m) mod 10 \<noteq> 0" using wf by (auto simp: zmod_zminus1_eq_if)
    have "unsigned_number (layout_digits (digits_of_int (- m)) (int (length (digits_of_int (- m))) + e) @ r)
        = Some (Dec (- m) e, r)"
      by (rule unsigned_number_layout) (use m assms(2) in auto)
    with 3 show ?thesis by (simp add: n parse_number_def Let_def)
  qed
qed

section \<open>Strings are read back\<close>

lemma hex_digit_cases: "0 \<le> d \<Longrightarrow> d < 16 \<Longrightarrow>
    d \<in> {0, 1, 2, 3, 4, 5, 6, 7, 8, 9, 10, 11, 12, 13, 14, 15 :: int}"
  by (simp; presburger)

lemma hex_value_digit [simp]: "0 \<le> d \<Longrightarrow> d < 16 \<Longrightarrow> hex_value (hex_digit d) = Some d"
  using hex_digit_cases [of d] by (auto simp: hex_value_def hex_digit_def Let_def)

lemma char_of_eqI: "(of_char c :: int) = n \<Longrightarrow> char_of n = c"
  by auto

lemma parse_escaped:
  "parse_chars (json_escape c @ s) = map_option (apfst ((#) c)) (parse_chars s)"
proof -
  let ?n = "of_char c :: int"
  have n: "0 \<le> ?n" "?n < 256"
    by (auto simp: of_char_def)
  consider "?n \<in> {8, 9, 10, 12, 13, 34, 92}"
    | (control) "?n < 32" "?n \<notin> {8, 9, 10, 12, 13}" | (plain) "32 \<le> ?n" "?n \<noteq> 34" "?n \<noteq> 92"
    by fastforce
  then show ?thesis
  proof cases
    case 1
    then show ?thesis by (auto simp: json_escape_def Let_def char_of_eqI)
  next
    case control
    have "?n div 16 * 16 + ?n mod 16 = ?n" by simp
    moreover have "0 \<le> ?n div 16" "?n div 16 < 16" "0 \<le> ?n mod 16" "?n mod 16 < 16"
      using n by auto
    moreover have "hex_value CHR ''0'' = Some 0"
      by (simp add: hex_value_def)
    ultimately show ?thesis
      using control by (simp add: json_escape_def Let_def char_of_eqI)
  next
    case plain
    then show ?thesis by (simp add: json_escape_def Let_def)
  qed
qed

lemma parse_chars_quoted:
  "parse_chars (concat (map json_escape s) @ char_of (34 :: int) # r) = Some (s, r)"
  by (induction s) (simp_all add: parse_escaped)

section \<open>Values are read back\<close>

text \<open>
  The values \<open>JSON.parse\<close> produces: no \<open>undefined\<close>, finite numbers, and objects in the
  property order of the language without repeated names.
\<close>

fun wf_json :: "jsval \<Rightarrow> bool"
  and wf_elems :: "jsval list \<Rightarrow> bool"
  and wf_members :: "(jstring \<times> jsval) list \<Rightarrow> bool" where
  "wf_json JUndef = False"
| "wf_json JNull = True"
| "wf_json (JBool b) = True"
| "wf_json (JNum n) = finite_num n"
| "wf_json (JStr s) = True"
| "wf_json (JArr vs) = wf_elems vs"
| "wf_json (JObj kvs) = (json_object kvs = kvs \<and> wf_members kvs)"
| "wf_elems [] = True"
| "wf_elems (v # vs) = (wf_json v \<and> wf_elems vs)"
| "wf_members [] = True"
| "wf_members ((k, v) # kvs) = (wf_json v \<and> wf_members kvs)"

text \<open>The first character of a printed value: no white space and no closing bracket.\<close>

definition opens :: "jstring \<Rightarrow> bool" where
  "opens s \<longleftrightarrow> s \<noteq> [] \<and> \<not> json_space (hd s) \<and> hd s \<noteq> CHR '']'' \<and> hd s \<noteq> CHR ''}''"

lemma opens_skip [simp]: "opens s \<Longrightarrow> skip_ws (s @ r) = s @ r"
  by (cases s) (auto simp: opens_def skip_ws_def)

lemma opens_append [simp]: "opens s \<Longrightarrow> opens (s @ r)"
  by (cases s) (auto simp: opens_def)

lemma skip_ws_punct [simp]: "c \<in> set '',:]}'' \<Longrightarrow> skip_ws (c # s) = c # s"
  by (auto simp: skip_ws_def json_space_def)

lemma delim_punct [simp]: "c \<in> set '',]}'' \<Longrightarrow> delim (c # s)"
  by (auto simp: delim_def is_digit_def)

definition reads_value :: "jsval \<Rightarrow> jstring \<Rightarrow> bool" where
  "reads_value v s \<longleftrightarrow> opens s \<and>
     (\<forall>f r. 2 * length s + 1 \<le> f \<longrightarrow> delim r \<longrightarrow> parse_value f (s @ r) = Some (v, r))"

definition reads_elems :: "jsval list \<Rightarrow> jstring \<Rightarrow> bool" where
  "reads_elems vs s \<longleftrightarrow> opens s \<and>
     (\<forall>f r. 2 * length s + 2 \<le> f \<longrightarrow> parse_elems f (s @ CHR '']'' # r) = Some (vs, r))"

definition reads_members :: "(jstring \<times> jsval) list \<Rightarrow> jstring \<Rightarrow> bool" where
  "reads_members kvs s \<longleftrightarrow> opens s \<and>
     (\<forall>f r. 2 * length s + 2 \<le> f \<longrightarrow> parse_members f (s @ CHR ''}'' # r) = Some (kvs, r))"

lemma reads_valueI:
  assumes "opens s" and "\<And>f r. 2 * length s \<le> f \<Longrightarrow> delim r \<Longrightarrow> parse_value (Suc f) (s @ r) = Some (v, r)"
  shows "reads_value v s"
  unfolding reads_value_def
proof (intro conjI allI impI assms(1))
  fix f r assume "2 * length s + 1 \<le> f" "delim r"
  then show "parse_value f (s @ r) = Some (v, r)" using assms(2) by (cases f) auto
qed

lemma char_of_34: "char_of (34 :: int) = CHR 0x22"
  by (rule char_of_eqI) simp

lemma opens_quote: "opens (json_quote s)"
  by (simp add: opens_def json_quote_def json_space_def char_of_34)

lemma reads_literal:
  "reads_value JNull ''null''" "reads_value (JBool True) ''true''" "reads_value (JBool False) ''false''"
  by (auto intro!: reads_valueI simp: opens_def json_space_def starts_with_def)

lemma reads_string: "reads_value (JStr s) (json_quote s)"
  by (rule reads_valueI [OF opens_quote]) (simp add: json_quote_def parse_chars_quoted)

lemma num_start: "finite_num n \<Longrightarrow> num_to_string n \<noteq> [] \<and> (is_digit (hd (num_to_string n)) \<or> hd (num_to_string n) = CHR ''-'')"
proof -
  assume "finite_num n"
  then obtain m e where n: "n = Dec m e" by (auto simp: finite_num_def)
  consider "m = 0" | "0 < m" | "m < 0" by linarith
  then show ?thesis
    by cases (auto simp: n Let_def is_digit_def [of "CHR ''0''"] layout_hd)
qed

lemma reads_number:
  assumes "finite_num n"
  shows "reads_value (JNum n) (num_to_string n)"
proof (rule reads_valueI)
  obtain c s where s: "num_to_string n = c # s" and c: "is_digit c \<or> c = CHR ''-''"
    using num_start [OF assms] by (cases "num_to_string n") auto
  have c': "c \<in> set ''-0123456789''" using c by (auto simp: is_digit_def)
  then show "opens (num_to_string n)" by (auto simp: s opens_def json_space_def)
  fix f r assume "delim r"
  then have p: "parse_number (c # s @ r) = Some (n, r)"
    using parse_number_roundtrip [OF assms, of r] by (simp add: s)
  have "(of_char c :: int) \<notin> {34, 91, 123}" and "\<not> starts_with (c # s @ r) ''null''"
    and "\<not> starts_with (c # s @ r) ''true''" and "\<not> starts_with (c # s @ r) ''false''"
    using c' by (auto simp: starts_with_def)
  then show "parse_value (Suc f) (num_to_string n @ r) = Some (JNum n, r)"
    by (simp add: s p)
qed

lemma reads_elems_one: "reads_value v s \<Longrightarrow> reads_elems [v] s"
  unfolding reads_elems_def
proof (intro conjI allI impI)
  assume v: "reads_value v s"
  then show "opens s" by (simp add: reads_value_def)
  fix f r assume "2 * length s + 2 \<le> f"
  then obtain f' where "f = Suc f'" "2 * length s + 1 \<le> f'" by (cases f) auto
  with v show "parse_elems f (s @ CHR '']'' # r) = Some ([v], r)"
    by (simp add: reads_value_def)
qed

lemma reads_elems_Cons:
  "reads_value v s \<Longrightarrow> reads_elems vs t \<Longrightarrow> reads_elems (v # vs) (s @ '','' @ t)"
  unfolding reads_elems_def [of "v # vs"]
proof (intro conjI allI impI)
  assume v: "reads_value v s" and vs: "reads_elems vs t"
  then show "opens (s @ '','' @ t)" by (simp add: reads_value_def)
  fix f r assume "2 * length (s @ '','' @ t) + 2 \<le> f"
  then obtain f' where f': "f = Suc f'" "2 * length s + 1 \<le> f'" "2 * length t + 2 \<le> f'"
    by (cases f) auto
  moreover have "skip_ws (t @ CHR '']'' # r) = t @ CHR '']'' # r"
    using vs by (simp add: reads_elems_def)
  ultimately show "parse_elems f ((s @ '','' @ t) @ CHR '']'' # r) = Some (v # vs, r)"
    using v vs by (simp add: reads_value_def reads_elems_def)
qed

lemma reads_member:
  assumes v: "reads_value v s" and f: "2 * length s + 1 \<le> f" and r: "c \<in> set '',}''"
  shows "parse_members (Suc f) (json_quote k @ '':'' @ s @ c # r) =
    (if c = CHR '','' then map_option (apfst ((#) (k, v))) (parse_members f (skip_ws r))
     else Some ([(k, v)], r))"
proof -
  have "parse_value f (s @ c # r) = Some (v, c # r)"
    using v f r by (auto simp: reads_value_def)
  moreover have "skip_ws (c # r) = c # r" using r by auto
  moreover have "skip_ws (s @ c # r) = s @ c # r" using v by (simp add: reads_value_def)
  ultimately show ?thesis
    using r by (auto simp: json_quote_def parse_chars_quoted)
qed

lemma opens_member: "opens (json_quote k @ t)"
  using opens_quote by simp

lemma reads_members_one: "reads_value v s \<Longrightarrow> reads_members [(k, v)] (json_quote k @ '':'' @ s)"
  unfolding reads_members_def
proof (intro conjI allI impI opens_member)
  assume v: "reads_value v s"
  fix f r assume "2 * length (json_quote k @ '':'' @ s) + 2 \<le> f"
  then obtain f' where "f = Suc f'" "2 * length s + 1 \<le> f'" by (cases f) auto
  with reads_member [OF v, of f' "CHR ''}''" k r]
  show "parse_members f ((json_quote k @ '':'' @ s) @ CHR ''}'' # r) = Some ([(k, v)], r)"
    by (simp del: parse_members.simps)
qed

lemma reads_members_Cons:
  "reads_value v s \<Longrightarrow> reads_members kvs t \<Longrightarrow>
    reads_members ((k, v) # kvs) ((json_quote k @ '':'' @ s) @ '','' @ t)"
  unfolding reads_members_def [of "(k, v) # kvs"]
proof (intro conjI allI impI)
  assume v: "reads_value v s" and kvs: "reads_members kvs t"
  show "opens ((json_quote k @ '':'' @ s) @ '','' @ t)" using opens_member by simp
  fix f r assume "2 * length ((json_quote k @ '':'' @ s) @ '','' @ t) + 2 \<le> f"
  then obtain f' where f': "f = Suc f'" "2 * length s + 1 \<le> f'" "2 * length t + 2 \<le> f'"
    by (cases f) auto
  have "skip_ws (t @ CHR ''}'' # r) = t @ CHR ''}'' # r"
    using kvs by (simp add: reads_members_def)
  moreover have "parse_members f' (t @ CHR ''}'' # r) = Some (kvs, r)"
    using kvs f' by (simp add: reads_members_def)
  ultimately show "parse_members f (((json_quote k @ '':'' @ s) @ '','' @ t) @ CHR ''}'' # r) =
      Some ((k, v) # kvs, r)"
    using reads_member [OF v f'(2), of "CHR '',''" k "t @ CHR ''}'' # r"] f'(1)
    by (simp del: parse_members.simps)
qed

lemma reads_array: "reads_elems vs t \<Longrightarrow> reads_value (JArr vs) (''['' @ t @ '']'')"
proof (rule reads_valueI)
  assume vs: "reads_elems vs t"
  show "opens (''['' @ t @ '']'')" by (simp add: opens_def json_space_def)
  fix f r assume f: "2 * length (''['' @ t @ '']'') \<le> f"
  obtain c t' where t: "t = c # t'" "c \<noteq> CHR '']''"
    using vs by (cases t) (auto simp: reads_elems_def opens_def)
  have "parse_elems f (t @ CHR '']'' # r) = Some (vs, r)"
    using vs f by (simp add: reads_elems_def)
  moreover have "skip_ws (t @ CHR '']'' # r) = t @ CHR '']'' # r"
    using vs by (simp add: reads_elems_def)
  ultimately show "parse_value (Suc f) ((''['' @ t @ '']'') @ r) = Some (JArr vs, r)"
    using t by simp
qed

lemma reads_object:
  "reads_members kvs t \<Longrightarrow> json_object kvs = kvs \<Longrightarrow> reads_value (JObj kvs) (''{'' @ t @ ''}'')"
proof (rule reads_valueI)
  assume kvs: "reads_members kvs t" and obj: "json_object kvs = kvs"
  show "opens (''{'' @ t @ ''}'')" by (simp add: opens_def json_space_def)
  fix f r assume f: "2 * length (''{'' @ t @ ''}'') \<le> f"
  obtain c t' where t: "t = c # t'" "c \<noteq> CHR ''}''"
    using kvs by (cases t) (auto simp: reads_members_def opens_def)
  have "parse_members f (t @ CHR ''}'' # r) = Some (kvs, r)"
    using kvs f by (simp add: reads_members_def)
  moreover have "skip_ws (t @ CHR ''}'' # r) = t @ CHR ''}'' # r"
    using kvs by (simp add: reads_members_def)
  ultimately show "parse_value (Suc f) ((''{'' @ t @ ''}'') @ r) = Some (JObj kvs, r)"
    using t obj by simp
qed

lemma reads_empty: "reads_value (JArr []) ''[]''" "reads_value (JObj []) ''{}''"
  by (auto intro!: reads_valueI simp: opens_def json_space_def)

lemma stringify_reads:
  "wf_json v \<Longrightarrow> \<exists>s. json_stringify v = Some s \<and> reads_value v s"
  "wf_elems vs \<Longrightarrow> vs \<noteq> [] \<Longrightarrow> reads_elems vs (join_with '','' (json_elems vs))"
  "wf_members kvs \<Longrightarrow> kvs \<noteq> [] \<Longrightarrow>
     json_members kvs \<noteq> [] \<and> reads_members kvs (join_with '','' (json_members kvs))"
proof (induction v and vs and kvs rule: json_stringify_json_elems_json_members.induct)
  case 1 then show ?case by simp
next
  case 2 then show ?case by (simp add: reads_literal)
next
  case (3 b) then show ?case using reads_literal by simp
next
  case (4 n)
  then show ?case using reads_number by (auto simp: json_num_def finite_num_def)
next
  case (5 s) then show ?case by (simp add: reads_string)
next
  case (6 vs)
  then show ?case using reads_array reads_empty(1) by (cases "vs = []") auto
next
  case (7 kvs)
  then show ?case using reads_object reads_empty(2) by (cases "kvs = []") auto
next
  case 8 then show ?case by simp
next
  case (9 v vs)
  then obtain s where s: "json_stringify v = Some s" "reads_value v s" by auto
  show ?case
  proof (cases vs)
    case Nil
    with s show ?thesis by (simp add: reads_elems_one)
  next
    case (Cons u us)
    with 9 s show ?thesis by (simp add: reads_elems_Cons [OF s(2), simplified])
  qed
next
  case 10 then show ?case by simp
next
  case (11 k v kvs)
  then obtain s where s: "json_stringify v = Some s" "reads_value v s" by auto
  show ?case
  proof (cases kvs)
    case Nil
    with s reads_members_one [OF s(2), of k] show ?thesis by simp
  next
    case (Cons u us)
    with 11 s reads_members_Cons [OF s(2), of kvs] show ?thesis
      by (simp add: join_with_Cons)
  qed
qed

lemma json_parse_stringify:
  assumes "wf_json v"
  obtains s where "json_stringify v = Some s" and "json_parse s = Some v"
proof -
  obtain s where s: "json_stringify v = Some s" "reads_value v s"
    using stringify_reads(1) [OF assms] by blast
  have "parse_value (2 * length s + 2) (s @ []) = Some (v, [])"
    using s(2) by (simp add: reads_value_def delim_def del: parse_value.simps append_Nil2)
  moreover have "skip_ws (s @ []) = s @ []"
    using s(2) by (simp add: reads_value_def del: append_Nil2)
  moreover have "skip_ws [] = []" by (simp add: skip_ws_def)
  ultimately have "json_parse s = Some v" by (simp add: json_parse_def)
  with s(1) show ?thesis by (rule that)
qed

lemma json_stringify_inj:
  "wf_json v \<Longrightarrow> wf_json w \<Longrightarrow> json_stringify v = json_stringify w \<longleftrightarrow> v = w"
  by (metis json_parse_stringify option.inject)

text \<open>Members with distinct names that are no array indices keep their order.\<close>

lemma json_put_new: "\<not> is_index_key k \<Longrightarrow> k \<notin> fst ` set m \<Longrightarrow> json_put k v m = m @ [(k, v)]"
  by (simp add: json_put_def map_of_eq_None_iff)

lemma json_object_id:
  assumes "distinct (map fst kvs)" and "\<forall>k \<in> fst ` set kvs. \<not> is_index_key k"
  shows "json_object kvs = kvs"
proof -
  have "fold (\<lambda>(k, v). json_put k v) kvs m = m @ kvs" if "distinct (map fst (m @ kvs))" for m
    using that assms(2)
  proof (induction kvs arbitrary: m)
    case (Cons kv kvs)
    obtain k v where kv: "kv = (k, v)" by force
    have "json_put k v m = m @ [(k, v)]" using Cons.prems kv by (intro json_put_new) auto
    then show ?case using Cons.IH [of "m @ [(k, v)]"] Cons.prems kv by auto
  qed simp
  then show ?thesis using assms(1) by (simp add: json_object_def)
qed

lemma wf_members_iff: "wf_members kvs \<longleftrightarrow> (\<forall>(k, v) \<in> set kvs. wf_json v)"
  by (induction kvs) auto

section \<open>The fuel is enough\<close>

lemma length_dropWhile_le: "length (dropWhile P xs) \<le> length xs"
  by (induction xs) auto

lemma length_skip_ws: "length (skip_ws s) \<le> length s"
  by (simp add: skip_ws_def length_dropWhile_le)

lemma skip_ws_Cons_length: "skip_ws s = c # r \<Longrightarrow> length r < length s"
  using length_skip_ws [of s] by simp

lemma less_skip_ws: "n < length (skip_ws s) \<Longrightarrow> n < length s"
  using length_skip_ws [of s] by simp

lemma parse_chars_length:
  "parse_chars s = Some (t, r) \<Longrightarrow> length r < length s"
  "parse_escape s = Some (t, r) \<Longrightarrow> length r < length s"
proof (induction s and s arbitrary: t and t rule: parse_chars_parse_escape.induct)
  case (4 e s)
  then show ?case
    by (auto simp: Let_def split: if_splits list.splits option.splits) (force+)?
qed (auto simp: Let_def split: if_splits, fastforce+)

lemma number_exponent_length: "number_exponent s = Some (x, r) \<Longrightarrow> length r \<le> length s"
  using length_dropWhile_le [of is_digit "tl s"] length_dropWhile_le [of is_digit "tl (tl s)"]
  by (auto simp: number_exponent_def Let_def split: if_splits)

lemma dropWhile_shorter: "takeWhile P s \<noteq> [] \<Longrightarrow> length (dropWhile P s) < length s"
  by (cases s) (auto simp: length_dropWhile_le less_Suc_eq_le split: if_splits)

lemma unsigned_number_length:
  assumes "unsigned_number s = Some (x, r)"
  shows "length r < length s"
proof -
  let ?r = "dropWhile is_digit s"
  define r' where "r' = (if ?r \<noteq> [] \<and> hd ?r = CHR ''.'' then dropWhile is_digit (tl ?r) else ?r)"
  have "takeWhile is_digit s \<noteq> []" and "\<exists>y. number_exponent r' = Some (y, r)"
    using assms by (auto simp: unsigned_number_def Let_def r'_def split: if_splits option.splits)
  then have "length ?r < length s" and "length r \<le> length r'"
    using dropWhile_shorter number_exponent_length by blast+
  moreover have "length r' \<le> length ?r"
    using length_dropWhile_le [of is_digit "tl ?r"] by (auto simp: r'_def)
  ultimately show ?thesis by simp
qed

lemma parse_number_length: "parse_number s = Some (x, r) \<Longrightarrow> length r < length s"
  using unsigned_number_length [of "tl s"] unsigned_number_length [of s]
  by (auto simp: parse_number_def split: if_splits)

lemma starts_with_drop_length: "starts_with s p \<Longrightarrow> p \<noteq> [] \<Longrightarrow> length (drop (length p) s) < length s"
  by (auto simp: starts_with_iff)

lemma parse_length:
  "(parse_value f s = Some (v, r) \<longrightarrow> length r < length s) \<and>
   (parse_elems f s = Some (vs, r) \<longrightarrow> length r < length s) \<and>
   (parse_members f s = Some (kvs, r) \<longrightarrow> length r < length s)"
proof (induction f arbitrary: s v vs kvs r)
  case 0
  then show ?case by simp
next
  case (Suc f)
  have V: "length r < length s" if "parse_value f s = Some (v, r)" for s v r using Suc that by blast
  have E: "length r < length s" if "parse_elems f s = Some (v, r)" for s v r using Suc that by blast
  have M: "length r < length s" if "parse_members f s = Some (v, r)" for s v r using Suc that by blast
  have "length r < length s" if "parse_value (Suc f) s = Some (v, r)"
    using that
    by (auto simp: Let_def split: list.splits if_splits
        dest!: skip_ws_Cons_length E M parse_chars_length(1) parse_number_length)
  moreover have "length r < length s" if "parse_elems (Suc f) s = Some (vs, r)"
    using that
    by (auto split: list.splits if_splits option.splits dest!: V E skip_ws_Cons_length less_skip_ws)
  moreover have "length r < length s" if "parse_members (Suc f) s = Some (kvs, r)"
    using that
    by (auto split: list.splits if_splits option.splits
        dest!: V M skip_ws_Cons_length parse_chars_length(1) less_skip_ws)
  ultimately show ?case by blast
qed

lemma parse_stable:
  "(2 * length s < f \<longrightarrow> parse_value g s = parse_value f s) \<and>
   (2 * length s + 1 < f \<longrightarrow> parse_elems g s = parse_elems f s \<and> parse_members g s = parse_members f s)"
  if "f \<le> g"
  using that
proof (induction f arbitrary: g s)
  case 0
  then show ?case by simp
next
  case (Suc f)
  then obtain g' where g: "g = Suc g'" "f \<le> g'" by (cases g) auto
  have V: "2 * length s < f \<Longrightarrow> parse_value g' s = parse_value f s" for s
    using Suc.IH [OF g(2)] by blast
  have EM: "2 * length s + 1 < f \<Longrightarrow> parse_elems g' s = parse_elems f s"
    "2 * length s + 1 < f \<Longrightarrow> parse_members g' s = parse_members f s" for s
    using Suc.IH [OF g(2)] by blast+
  have L: "length r < length s" if "parse_value f s = Some (v, r)" for s v r
    using parse_length that by blast
  have skip: "2 * length (skip_ws r) + 1 < f" if "2 * length r + 1 < f" for r
    using length_skip_ws [of r] that by linarith
  have "parse_value (Suc g') s = parse_value (Suc f) s" if "2 * length s < Suc f"
    using that by (auto simp: EM Let_def split: list.splits dest!: skip_ws_Cons_length)
  moreover have "parse_elems (Suc g') s = parse_elems (Suc f) s" if "2 * length s + 1 < Suc f"
    using that by (auto simp: V EM skip [simplified] split: option.splits list.splits dest!: skip_ws_Cons_length L)
  moreover have "parse_members (Suc g') s = parse_members (Suc f) s" if "2 * length s + 1 < Suc f"
  proof (cases s)
    case (Cons q r0)
    show ?thesis
    proof (cases "parse_chars r0")
      case (Some kr)
      then obtain k r1 where k: "parse_chars r0 = Some (k, r1)" "length r1 < length r0"
        using parse_chars_length(1) [of r0] by (cases kr) auto
      show ?thesis
      proof (cases "skip_ws r1")
        case (Cons c r2)
        then have "2 * length (skip_ws r2) + 1 < f"
          using that k \<open>s = q # r0\<close> length_skip_ws [of r2] by (auto dest!: skip_ws_Cons_length)
        then show ?thesis
          using k Cons \<open>s = q # r0\<close>
          by (auto simp: V EM skip [simplified] split: option.splits list.splits dest!: skip_ws_Cons_length L)
      qed (simp add: k Cons)
    qed (simp add: Cons)
  qed simp
  ultimately show ?case by (simp add: g del: parse_value.simps parse_elems.simps parse_members.simps)
qed

text \<open>No amount of fuel above \<open>2 * length s + 2\<close> changes the result of the parser.\<close>

lemma parse_value_stable:
  assumes "2 * length s + 2 \<le> f"
  shows "parse_value f (skip_ws s) = parse_value (2 * length s + 2) (skip_ws s)"
  using parse_stable [OF assms, of "skip_ws s"] length_skip_ws [of s] by linarith

end
