(* ===== verification/Slot_Keys.thy ===== *)
theory Slot_Keys
  imports Js_Value
begin

text \<open>
  The names of card slots and the keys built from them: \<open>card/schema.ts\<close> (the slot
  constants), \<open>codec/session_encode.ts\<close> (\<open>key_to_card_and_slot\<close>), \<open>card/graph.ts\<close> and
  \<open>card/connector_key.ts\<close> (keys of pairs of cards, and their parsers).
\<close>

section \<open>Slots\<close>

definition slot_left :: jstring where "slot_left = ''::left''"
definition slot_right :: jstring where "slot_right = ''::right''"
definition slot_above :: jstring where "slot_above = ''::above''"
definition slot_below :: jstring where "slot_below = ''::below''"
definition slot_this :: jstring where "slot_this = ''::this''"

lemmas slot_defs = slot_left_def slot_right_def slot_above_def slot_below_def slot_this_def

definition all_slots :: "jstring list" where
  "all_slots = [slot_this, slot_left, slot_right, slot_above, slot_below]"

definition is_native_slot :: "jsval \<Rightarrow> bool" where
  "is_native_slot v = (case v of JStr s \<Rightarrow> s \<in> set all_slots | _ \<Rightarrow> False)"

definition is_slot_name :: "jsval \<Rightarrow> bool" where
  "is_slot_name v = (case v of JStr s \<Rightarrow> s \<in> set all_slots | _ \<Rightarrow> False)"

section \<open>Slot keys\<close>

definition key_to_card_and_slot :: "jstring \<Rightarrow> jstring \<times> jstring" where
  "key_to_card_and_slot key =
     (if ends_with key ''code'' then (drop_right 4 key, ''code'')
      else (case index_of ''::'' key of
              Some i \<Rightarrow> (take i key, drop i key)
            | None \<Rightarrow> (key, [])))"

lemma key_concat: "key_to_card_and_slot key = (c, s) \<Longrightarrow> c @ s = key"
  by (auto simp: key_to_card_and_slot_def ends_with_iff split: if_splits option.splits)

lemma key_code: "key_to_card_and_slot (c @ ''code'') = (c, ''code'')"
  by (simp add: key_to_card_and_slot_def)

lemma key_slot:
  assumes "clear_before ''::'' c" and "starts_with s ''::''" and "\<not> ends_with (c @ s) ''code''"
  shows "key_to_card_and_slot (c @ s) = (c, s)"
proof -
  obtain t where s: "s = ''::'' @ t" using assms(2) by (auto simp: starts_with_iff)
  have "index_of ''::'' (c @ s) = Some (length c)"
    unfolding s using assms(1) by (rule index_of_clear)
  with assms(3) show ?thesis by (simp add: key_to_card_and_slot_def)
qed

text \<open>The slot part of a key says of itself which case of the parser produced it.\<close>

lemma key_slot_code_iff: "snd (key_to_card_and_slot key) = ''code'' \<longleftrightarrow> ends_with key ''code''"
proof (cases "ends_with key ''code''")
  case True
  then show ?thesis by (simp add: key_to_card_and_slot_def)
next
  case False
  have "drop i key \<noteq> ''code''" for i
    using False by (metis append_take_drop_id ends_with_append)
  with False show ?thesis
    by (auto simp: key_to_card_and_slot_def split: option.splits)
qed

lemma key_inj:
  "key_to_card_and_slot k = key_to_card_and_slot k' \<Longrightarrow> k = k'"
  by (metis key_concat surj_pair)

section \<open>Keys of pairs of cards\<close>

definition edge_key_separator :: jstring where
  "edge_key_separator = ''!!*!!''"

definition pair_key :: "jstring \<Rightarrow> jstring \<Rightarrow> jstring" where
  "pair_key from_id to_id = from_id @ edge_key_separator @ to_id"

definition make_connector_key_from_ids :: "jstring \<Rightarrow> jstring \<Rightarrow> jstring" where
  "make_connector_key_from_ids cardA_id cardB_id = pair_key cardA_id cardB_id"

text \<open>\<open>parts[0] ?? ""\<close> and \<open>parts.slice(1).join(sep) || ""\<close>.\<close>

definition parse_edge_key :: "jstring \<Rightarrow> jstring \<times> jstring" where
  "parse_edge_key key =
     (let parts = split_on edge_key_separator key in
      (case parts of [] \<Rightarrow> [] | p # _ \<Rightarrow> p,
       join_with edge_key_separator (drop 1 parts)))"

definition parse_connector_key :: "jstring \<Rightarrow> jstring \<times> jstring" where
  "parse_connector_key key =
     (let parts = split_on edge_key_separator key in
      (case parts of [] \<Rightarrow> [] | p # _ \<Rightarrow> p,
       join_with edge_key_separator (drop 1 parts)))"

lemma parse_connector_key_eq: "parse_connector_key = parse_edge_key"
  by (simp add: fun_eq_iff parse_connector_key_def parse_edge_key_def)

lemma separator_length [simp]: "length edge_key_separator = 5" "edge_key_separator \<noteq> []"
  by (simp_all add: edge_key_separator_def)

lemma parse_edge_key_index:
  "parse_edge_key key =
     (case index_of edge_key_separator key of
        None \<Rightarrow> (key, [])
      | Some i \<Rightarrow> (take i key, drop (i + 5) key))"
proof -
  have "split_on edge_key_separator key =
     (case index_of edge_key_separator key of None \<Rightarrow> [key]
      | Some i \<Rightarrow> take i key # split_on edge_key_separator (drop (i + 5) key))"
    using split_on_index [of edge_key_separator key] by (simp split: option.splits)
  then show ?thesis
    by (simp add: parse_edge_key_def Let_def split: option.splits)
qed

lemma parse_pair_key_iff:
  "parse_edge_key (pair_key a b) = (a, b) \<longleftrightarrow> clear_before edge_key_separator a"
proof -
  obtain i where i: "index_of edge_key_separator (pair_key a b) = Some i" "i \<le> length a"
    unfolding pair_key_def using index_of_append_Some by blast
  have "fst (parse_edge_key (pair_key a b)) = take i (pair_key a b)"
    by (simp add: parse_edge_key_index i)
  moreover have "take i (pair_key a b) = a \<longleftrightarrow> i = length a"
    using i(2) by (auto simp: pair_key_def)
  ultimately have "parse_edge_key (pair_key a b) = (a, b) \<Longrightarrow> i = length a" by simp
  moreover have "i = length a \<Longrightarrow> parse_edge_key (pair_key a b) = (a, b)"
    using i by (simp add: parse_edge_key_index) (simp add: pair_key_def edge_key_separator_def)
  ultimately show ?thesis
    using i index_of_clear_iff [of edge_key_separator a b] unfolding pair_key_def by auto
qed

lemma pair_key_inj:
  assumes "clear_before edge_key_separator a" and "clear_before edge_key_separator a'"
  shows "pair_key a b = pair_key a' b' \<longleftrightarrow> a = a' \<and> b = b'"
  using assms by (metis parse_pair_key_iff prod.inject)

lemma slot_not_code: "s \<in> set all_slots \<Longrightarrow> \<not> ends_with (c @ s) ''code''"
  by (auto simp: ends_with_def all_slots_def slot_defs)

section \<open>Properties\<close>

text \<open>
  A slot key splits back into the card and the slot it was made of, for the code slot of
  any card and for the five native slots of a card whose id is not confused with the \<open>::\<close>
  separator.
\<close>

lemma slot_key_roundtrip:
  assumes "s = ''code'' \<or> (s \<in> set all_slots \<and> clear_before ''::'' c)"
  shows "key_to_card_and_slot (c @ s) = (c, s)"
proof (cases "s = ''code''")
  case True
  then show ?thesis by (simp add: key_code)
next
  case False
  with assms have s: "s \<in> set all_slots" "clear_before ''::'' c" by auto
  then have "starts_with s ''::''" by (auto simp: all_slots_def slot_defs starts_with_def)
  with s show ?thesis by (intro key_slot slot_not_code)
qed

lemma connector_key_roundtrip_parts:
  shows "parse_connector_key (make_connector_key_from_ids a b) = (a, b) \<longleftrightarrow>
      clear_before edge_key_separator a"
    and "clear_before edge_key_separator a \<Longrightarrow> clear_before edge_key_separator c \<Longrightarrow>
      make_connector_key_from_ids a b = make_connector_key_from_ids c d \<longleftrightarrow> a = c \<and> b = d"
  by (simp_all add: parse_connector_key_eq make_connector_key_from_ids_def parse_pair_key_iff pair_key_inj)

text \<open>
  The key of a pair of cards is parsed back into the two ids exactly when the separator
  does not already occur in the first id or across its end; under that condition different
  pairs have different keys.
\<close>

lemma connector_key_roundtrip:
  shows "(parse_connector_key (make_connector_key_from_ids a b) = (a, b) \<longleftrightarrow>
      clear_before edge_key_separator a) \<and>
    (clear_before edge_key_separator a \<longrightarrow> clear_before edge_key_separator c \<longrightarrow>
      make_connector_key_from_ids a b = make_connector_key_from_ids c d \<longleftrightarrow> a = c \<and> b = d)"
  by (intro conjI impI; rule connector_key_roundtrip_parts; assumption?)

end
