(* ===== verification/Codec.thy ===== *)
theory Codec
  imports Json_Text Slot_Keys
begin

text \<open>
  The wire codec: \<open>codec/decode.ts\<close>, \<open>codec/session_encode.ts\<close> and \<open>codec/encode.ts\<close>.

  A slot value travels as the bytes of its JSON text. The bytes are modelled by that text,
  one character per byte, which is what the text decoder returns for ASCII. A request is the
  record of its optional fields; a map field is an object, whose entries may be null.
  \<open>JSON.parse\<close> throws on a bad text, so every decoder returns an error or a value.

  \<open>encode_value\<close> asks the layer library whether a value is a layered object and how to print
  one; these are its first two arguments. A graphology graph is no JSON value, so the branch
  for graphs is \<open>encode_graph\<close>.
\<close>

section \<open>Decoding\<close>

record card_ref =
  ref_id :: jstring
  ref_value :: jsval

type_synonym slot_map = "(jstring, card_ref) jmap"

record cards_delta =
  delta_slots :: slot_map
  delta_remove :: "jstring list"

record wire_ref =
  wire_id :: "jstring option"
  wire_value :: "jstring option"

type_synonym wire_map = "(jstring, wire_ref option) jmap"

datatype decode_error = SyntaxError jstring

definition lain_true :: jstring where "lain_true = ''#t''"
definition lain_false :: jstring where "lain_false = ''#f''"

definition normalize_decoded_value :: "jsval \<Rightarrow> jsval" where
  "normalize_decoded_value v =
     (case v of
        JStr s \<Rightarrow>
          if s = lain_true then JBool True
          else if s = lain_false then JBool False
          else let n = js_Number s in
            if js_trim s \<noteq> [] \<and> n \<noteq> NaN then JNum n else v
      | JObj kvs \<Rightarrow>
          (case map_of kvs ''base'' of
             None \<Rightarrow> v
           | Some b \<Rightarrow>
               if b = JStr lain_true then JObj (AList.update ''base'' (JBool True) kvs)
               else if b = JStr lain_false then JObj (AList.update ''base'' (JBool False) kvs)
               else v)
      | _ \<Rightarrow> v)"

definition decode_card_ref_value :: "jstring \<Rightarrow> decode_error + jsval" where
  "decode_card_ref_value bytes =
     (if bytes = [] then Inr JUndef
      else (case json_parse bytes of
              None \<Rightarrow> Inl (SyntaxError bytes)
            | Some parsed \<Rightarrow> Inr (normalize_decoded_value parsed)))"

text \<open>\<open>a ?? b\<close> on an optional field.\<close>

definition or_default :: "'a option \<Rightarrow> 'a \<Rightarrow> 'a" where
  "or_default a b = (case a of Some x \<Rightarrow> x | None \<Rightarrow> b)"

definition decode_ref :: "wire_ref \<Rightarrow> decode_error + card_ref" where
  "decode_ref w =
     (case decode_card_ref_value (or_default (wire_value w) []) of
        Inl e \<Rightarrow> Inl e
      | Inr x \<Rightarrow> Inr \<lparr>ref_id = or_default (wire_id w) [], ref_value = x\<rparr>)"

text \<open>The loop the two map decoders share: the first value that does not parse ends it.\<close>

fun decode_entries :: "wire_map \<Rightarrow> slot_map \<Rightarrow> decode_error + slot_map" where
  "decode_entries [] out = Inr out"
| "decode_entries ((k, None) # kvs) out = decode_entries kvs out"
| "decode_entries ((k, Some w) # kvs) out =
     (case decode_ref w of
        Inl e \<Rightarrow> Inl e
      | Inr r \<Rightarrow> decode_entries kvs (obj_set k r out))"

record compile_request =
  req_data :: "wire_map option"

definition to_compile_request_data :: "compile_request \<Rightarrow> decode_error + slot_map" where
  "to_compile_request_data request = decode_entries (or_default (req_data request) []) []"

definition decode_compile_request :: "compile_request \<Rightarrow> decode_error + slot_map" where
  "decode_compile_request pb = to_compile_request_data pb"

record wire_delta =
  pb_slots :: "wire_map option"
  pb_remove :: "jstring list option"

definition to_cards_delta_data :: "wire_delta \<Rightarrow> decode_error + cards_delta" where
  "to_cards_delta_data pb =
     (case decode_entries (or_default (pb_slots pb) []) [] of
        Inl e \<Rightarrow> Inl e
      | Inr out \<Rightarrow> Inr \<lparr>delta_slots = out, delta_remove = or_default (pb_remove pb) []\<rparr>)"

record open_session_request =
  open_session_id :: "jstring option"
  open_initial_data :: "compile_request option"

definition to_open_session_data :: "open_session_request \<Rightarrow> decode_error + (jstring \<times> slot_map)" where
  "to_open_session_data req =
     (case (case open_initial_data req of
              Some d \<Rightarrow> to_compile_request_data d
            | None \<Rightarrow> Inr []) of
        Inl e \<Rightarrow> Inl e
      | Inr initial \<Rightarrow> Inr (or_default (open_session_id req) [], initial))"

record push_deltas_request =
  push_session_id :: "jstring option"
  push_delta :: "wire_delta option"

definition to_push_deltas_data :: "push_deltas_request \<Rightarrow> decode_error + (jstring \<times> cards_delta)" where
  "to_push_deltas_data req =
     (case (case push_delta req of
              Some d \<Rightarrow> to_cards_delta_data d
            | None \<Rightarrow> Inr \<lparr>delta_slots = [], delta_remove = []\<rparr>) of
        Inl e \<Rightarrow> Inl e
      | Inr delta \<Rightarrow> Inr (or_default (push_session_id req) [], delta))"

record card_build_request =
  build_session_id :: "jstring option"
  build_card_id :: "jstring option"

definition to_card_build_data :: "card_build_request \<Rightarrow> jstring \<times> jstring" where
  "to_card_build_data req = (or_default (build_session_id req) [], or_default (build_card_id req) [])"

section \<open>Encoding\<close>

definition encode_value :: "(jsval \<Rightarrow> bool) \<Rightarrow> (jsval \<Rightarrow> jstring) \<Rightarrow> jsval \<Rightarrow> jstring" where
  "encode_value is_layered layered_text v =
     (if is_layered v then layered_text v
      else (case json_stringify v of Some s \<Rightarrow> s | None \<Rightarrow> []))"

text \<open>
  A graph as its enumeration of nodes (key and optional label) and edges (source and target).
\<close>

record graphology_like =
  each_node :: "(jstring \<times> jstring option) list"
  each_edge :: "(jstring \<times> jstring) list"

definition graphology_graph_to_graph_data :: "graphology_like \<Rightarrow> jsval" where
  "graphology_graph_to_graph_data g =
     JObj [(''nodes'', JArr (map (\<lambda>(n, l). JObj [(''id'', JStr n), (''label'', JStr (or_default l n))]) (each_node g))),
           (''links'', JArr (map (\<lambda>(s, t). JObj [(''source'', JStr s), (''target'', JStr t)]) (each_edge g)))]"

definition encode_graph :: "graphology_like \<Rightarrow> jstring" where
  "encode_graph g =
     (case json_stringify (graphology_graph_to_graph_data g) of Some s \<Rightarrow> s | None \<Rightarrow> [])"

record card_ref_message =
  msg_ref_id :: jstring
  msg_ref_value :: jstring

datatype server_message =
    Heartbeat
  | CardUpdate (upd_card: jstring) (upd_slot: jstring) (upd_ref: "card_ref_message option")

definition card_ref_data_to_proto ::
    "(jsval \<Rightarrow> bool) \<Rightarrow> (jsval \<Rightarrow> jstring) \<Rightarrow> card_ref \<Rightarrow> card_ref_message" where
  "card_ref_data_to_proto lay ltxt ref =
     \<lparr>msg_ref_id = ref_id ref, msg_ref_value = encode_value lay ltxt (ref_value ref)\<rparr>"

definition to_heartbeat_message :: server_message where
  "to_heartbeat_message = Heartbeat"

definition to_card_update_message ::
    "(jsval \<Rightarrow> bool) \<Rightarrow> (jsval \<Rightarrow> jstring) \<Rightarrow> jstring \<Rightarrow> card_ref option \<Rightarrow> server_message" where
  "to_card_update_message lay ltxt key ref =
     (case key_to_card_and_slot key of
        (card_id, slot) \<Rightarrow> CardUpdate card_id slot (map_option (card_ref_data_to_proto lay ltxt) ref))"

record network_update =
  nu_cell_id :: jstring
  nu_name :: jstring
  nu_value :: jsval
  nu_timestamp :: jsnum
  nu_source_id :: "jstring option"

record pb_network_update =
  pbu_cell_id :: jstring
  pbu_name :: jstring
  pbu_value :: jstring
  pbu_timestamp :: jsnum
  pbu_source_id :: jstring

definition encode_network_update ::
    "(jsval \<Rightarrow> bool) \<Rightarrow> (jsval \<Rightarrow> jstring) \<Rightarrow> network_update \<Rightarrow> pb_network_update" where
  "encode_network_update lay ltxt u =
     \<lparr>pbu_cell_id = nu_cell_id u, pbu_name = nu_name u,
      pbu_value = encode_value lay ltxt (nu_value u),
      pbu_timestamp = nu_timestamp u, pbu_source_id = or_default (nu_source_id u) []\<rparr>"

section \<open>Lemmas\<close>

text \<open>The values an entry list decodes to, when every text parses.\<close>

definition decoded :: "wire_map \<Rightarrow> slot_map" where
  "decoded kvs = concat (map (\<lambda>(k, w). case w of None \<Rightarrow> []
     | Some x \<Rightarrow> (case decode_ref x of Inl e \<Rightarrow> [] | Inr r \<Rightarrow> [(k, r)])) kvs)"

definition all_decode :: "wire_map \<Rightarrow> bool" where
  "all_decode kvs \<longleftrightarrow> (\<forall>(k, w) \<in> set kvs. \<forall>x. w = Some x \<longrightarrow> (\<exists>r. decode_ref x = Inr r))"

lemma decode_entries_ok:
  "all_decode kvs \<Longrightarrow> decode_entries kvs out = Inr (fold (\<lambda>(k, v). obj_set k v) (decoded kvs) out)"
proof (induction kvs out rule: decode_entries.induct)
  case (3 k w kvs out)
  then obtain r where "decode_ref w = Inr r" by (auto simp: all_decode_def)
  with 3 show ?case by (simp add: all_decode_def decoded_def)
qed (auto simp: all_decode_def decoded_def)

lemma decode_entries_fails:
  "\<not> all_decode kvs \<Longrightarrow> \<exists>e. decode_entries kvs out = Inl e"
proof (induction kvs out rule: decode_entries.induct)
  case (3 k w kvs out)
  then show ?case by (cases "decode_ref w") (auto simp: all_decode_def)
qed (auto simp: all_decode_def)

lemma decode_entries_inv:
  "decode_entries kvs out = Inr m \<Longrightarrow> distinct (map fst out) \<Longrightarrow> distinct (map fst m)"
  by (induction kvs out rule: decode_entries.induct) (auto simp: distinct_obj_set split: sum.splits)

lemma decoded_Nil [simp]: "decoded [] = []"
  by (simp add: decoded_def)

lemma decoded_Cons [simp]:
  "decoded ((k, w) # kvs) =
     (case w of None \<Rightarrow> decoded kvs
      | Some x \<Rightarrow> (case decode_ref x of Inl e \<Rightarrow> decoded kvs | Inr r \<Rightarrow> (k, r) # decoded kvs))"
  by (simp add: decoded_def split: option.splits sum.splits)

lemma decoded_keys: "k \<notin> fst ` set kvs \<Longrightarrow> k \<notin> fst ` set (decoded kvs)"
  by (induction kvs) (auto split: option.splits sum.splits)

lemma distinct_decoded: "distinct (map fst kvs) \<Longrightarrow> distinct (map fst (decoded kvs))"
  by (induction kvs) (auto split: option.splits sum.splits dest: decoded_keys)

lemma map_of_decoded:
  "distinct (map fst kvs) \<Longrightarrow> all_decode kvs \<Longrightarrow> map_of (decoded kvs) k =
    (case map_of kvs k of Some (Some w) \<Rightarrow> Some (projr (decode_ref w)) | _ \<Rightarrow> None)"
proof (induction kvs)
  case (Cons kv kvs)
  obtain k' w where kv: "kv = (k', w)" by force
  have fresh: "map_of (decoded kvs) k' = None"
    using Cons.prems(1) decoded_keys [of k' kvs] by (simp add: kv map_of_eq_None_iff)
  have IH: "map_of (decoded kvs) k =
      (case map_of kvs k of Some (Some w) \<Rightarrow> Some (projr (decode_ref w)) | _ \<Rightarrow> None)"
    using Cons by (simp add: all_decode_def)
  show ?case
  proof (cases w)
    case None
    with IH fresh show ?thesis by (auto simp: kv)
  next
    case (Some x)
    then obtain r where "decode_ref x = Inr r"
      using Cons.prems(2) by (auto simp: all_decode_def kv)
    with Some IH show ?thesis by (simp add: kv)
  qed
qed simp

lemma normalize_scalar [simp]:
  "normalize_decoded_value (JBool b) = JBool b" "normalize_decoded_value (JNum n) = JNum n"
  "normalize_decoded_value JNull = JNull" "normalize_decoded_value JUndef = JUndef"
  "normalize_decoded_value (JArr vs) = JArr vs"
  by (simp_all add: normalize_decoded_value_def)

lemma map_of_update_same: "map_of (AList.update k v m) k = Some v"
  by (simp add: update_conv')

lemma normalize_base:
  "map_of kvs ''base'' = Some (JBool b) \<Longrightarrow> normalize_decoded_value (JObj kvs) = JObj kvs"
  by (simp add: normalize_decoded_value_def)

lemma normalize_normalize: "normalize_decoded_value (normalize_decoded_value v) = normalize_decoded_value v"
proof (cases v)
  case (JStr s)
  then show ?thesis by (auto simp: normalize_decoded_value_def Let_def)
next
  case (JObj kvs)
  show ?thesis
  proof (cases "map_of kvs ''base'' \<in> {Some (JStr lain_true), Some (JStr lain_false)}")
    case True
    then obtain b where "normalize_decoded_value v = JObj (AList.update ''base'' (JBool b) kvs)"
      by (auto simp: JObj normalize_decoded_value_def lain_true_def lain_false_def)
    then show ?thesis by (simp add: normalize_base map_of_update_same)
  next
    case False
    then have "normalize_decoded_value v = v"
      by (auto simp: JObj normalize_decoded_value_def split: option.splits)
    then show ?thesis by simp
  qed
qed simp_all

lemma encode_decode_value:
  assumes "wf_json v" and "\<not> lay v"
  shows "decode_card_ref_value (encode_value lay ltxt v) = Inr (normalize_decoded_value v)"
proof -
  obtain s where s: "json_stringify v = Some s" "json_parse s = Some v"
    using json_parse_stringify [OF assms(1)] by blast
  then have "s \<noteq> []" by (auto simp: json_parse_def skip_ws_def)
  with s assms(2) show ?thesis by (simp add: encode_value_def decode_card_ref_value_def)
qed

section \<open>Properties\<close>



lemma compile_request_decodes_parts:
  assumes "distinct (map fst (or_default (req_data req) []))"
  shows "(\<exists>m. to_compile_request_data req = Inr m) \<longleftrightarrow> all_decode (or_default (req_data req) [])"
    and "to_compile_request_data req = Inr m \<Longrightarrow> map_of m k =
      (if k = proto_key then None
       else case map_of (or_default (req_data req) []) k of
              Some (Some w) \<Rightarrow> Some (projr (decode_ref w)) | _ \<Rightarrow> None)"
proof -
  let ?kvs = "or_default (req_data req) []"
  show iff: "(\<exists>m. to_compile_request_data req = Inr m) \<longleftrightarrow> all_decode ?kvs"
    using decode_entries_ok [of ?kvs "[]"] decode_entries_fails [of ?kvs "[]"]
    by (cases "all_decode ?kvs") (auto simp: to_compile_request_data_def)
  assume m: "to_compile_request_data req = Inr m"
  then have all: "all_decode ?kvs" using iff by blast
  then have "m = fold (\<lambda>(k, v). obj_set k v) (decoded ?kvs) []"
    using m decode_entries_ok [OF all, of "[]"] by (simp add: to_compile_request_data_def)
  then show "map_of m k = (if k = proto_key then None
       else case map_of ?kvs k of Some (Some w) \<Rightarrow> Some (projr (decode_ref w)) | _ \<Rightarrow> None)"
    using map_of_decoded [OF assms all, of k] map_of_rev [OF distinct_decoded [OF assms]]
    by (auto simp: jobj.get_puts split: option.splits)
qed

text \<open>
  A compile request decodes exactly when every value it carries is JSON text; the
  decoded slot map then holds, under each key of the request with a value, its decoded
  reference, and nothing else (an entry for \<open>__proto__\<close> cannot be stored).
\<close>

lemma compile_request_decodes:
  assumes "distinct (map fst (or_default (req_data req) []))"
  shows "((\<exists>m. to_compile_request_data req = Inr m) \<longleftrightarrow> all_decode (or_default (req_data req) [])) \<and>
    (to_compile_request_data req = Inr m \<longrightarrow> map_of m k =
      (if k = proto_key then None
       else case map_of (or_default (req_data req) []) k of
              Some (Some w) \<Rightarrow> Some (projr (decode_ref w)) | _ \<Rightarrow> None))"
  by (intro conjI impI; rule compile_request_decodes_parts [OF assms]; assumption?)

end
