(* ===== verification/Slot_Delta.thy ===== *)
theory Slot_Delta
  imports Codec
begin

text \<open>
  Deltas of a session's slot map: \<open>delta/cards_delta_apply.ts\<close> and the pure helpers of
  \<open>session/connect_session_helpers.ts\<close>. A slot map is a plain object from slot keys to card
  references; the lemmas of the dictionary interface give what a delta does to a key.
\<close>

definition apply_cards_delta_to_slot_map :: "cards_delta \<Rightarrow> slot_map \<Rightarrow> slot_map" where
  "apply_cards_delta_to_slot_map delta m =
     (let m' = fold (\<lambda>k next. AList.delete k next) (delta_remove delta) m
      in fold (\<lambda>(k, v) next. obj_set k v next) (delta_slots delta) m')"

definition open_session_initial_slot_map :: "slot_map \<Rightarrow> slot_map" where
  "open_session_initial_slot_map initial =
     (if initial = [] then []
      else apply_cards_delta_to_slot_map \<lparr>delta_slots = initial, delta_remove = []\<rparr> [])"

definition delta_to_server_messages ::
    "(jsval \<Rightarrow> bool) \<Rightarrow> (jsval \<Rightarrow> jstring) \<Rightarrow> cards_delta \<Rightarrow> server_message list" where
  "delta_to_server_messages lay ltxt d =
     to_heartbeat_message
     # map (\<lambda>(key, ref). to_card_update_message lay ltxt key (Some ref)) (delta_slots d)
     @ map (\<lambda>key. to_card_update_message lay ltxt key None) (delta_remove d)"

section \<open>Lemmas\<close>

abbreviation slot_map_inv :: "slot_map \<Rightarrow> bool" where
  "slot_map_inv m \<equiv> distinct (map fst m)"

definition delta_inv :: "cards_delta \<Rightarrow> bool" where
  "delta_inv d \<longleftrightarrow> slot_map_inv (delta_slots d) \<and> proto_key \<notin> fst ` set (delta_slots d)"

lemma apply_delta_eq:
  "apply_cards_delta_to_slot_map d m =
     fold (\<lambda>(k, v). obj_set k v) (delta_slots d) (fold AList.delete (delta_remove d) m)"
  by (simp add: apply_cards_delta_to_slot_map_def Let_def)

lemma apply_delta_inv: "slot_map_inv m \<Longrightarrow> slot_map_inv (apply_cards_delta_to_slot_map d m)"
  unfolding apply_delta_eq by (intro jobj.inv_puts jobj.inv_dels)

lemma apply_delta_get:
  assumes "slot_map_inv m" and "delta_inv d"
  shows "map_of (apply_cards_delta_to_slot_map d m) k =
    (case map_of (delta_slots d) k of
       Some r \<Rightarrow> Some r
     | None \<Rightarrow> if k \<in> set (delta_remove d) then None else map_of m k)"
proof -
  have "distinct (map fst (delta_slots d))" and p: "map_of (delta_slots d) proto_key = None"
    using assms(2) by (auto simp: delta_inv_def map_of_eq_None_iff)
  then have r: "map_of (rev (delta_slots d)) = map_of (delta_slots d)"
    by (simp add: map_of_rev)
  show ?thesis
    unfolding apply_delta_eq
    using p by (auto simp: jobj.get_puts [OF jobj.inv_dels [OF assms(1)]] jobj.get_dels [OF assms(1)] r
        split: option.splits)
qed

text \<open>The delta that does what two deltas in sequence do.\<close>

definition compose_delta :: "cards_delta \<Rightarrow> cards_delta \<Rightarrow> cards_delta" where
  "compose_delta d e =
     \<lparr>delta_slots = apply_cards_delta_to_slot_map e (delta_slots d),
      delta_remove = delta_remove d @ delta_remove e\<rparr>"

lemma compose_delta_inv: "delta_inv d \<Longrightarrow> delta_inv e \<Longrightarrow> delta_inv (compose_delta d e)"
  using apply_delta_get [of "delta_slots d" e proto_key]
  by (auto simp: delta_inv_def compose_delta_def apply_delta_inv map_of_eq_None_iff [symmetric]
      split: option.splits)

lemma compose_delta_get:
  assumes "slot_map_inv m" and "delta_inv d" and "delta_inv e"
  shows "map_of (apply_cards_delta_to_slot_map (compose_delta d e) m) =
    map_of (apply_cards_delta_to_slot_map e (apply_cards_delta_to_slot_map d m))"
proof
  fix k
  have "slot_map_inv (delta_slots d)" using assms(2) by (simp add: delta_inv_def)
  then show "map_of (apply_cards_delta_to_slot_map (compose_delta d e) m) k =
      map_of (apply_cards_delta_to_slot_map e (apply_cards_delta_to_slot_map d m)) k"
    using assms
    by (simp add: apply_delta_get apply_delta_inv compose_delta_inv)
      (auto simp: compose_delta_def apply_delta_get split: option.splits)
qed

text \<open>
  What a client that mirrors the slot map does with the messages: it stores the reference it
  receives under the card and the slot, and drops an entry whose reference is missing.
\<close>

definition mirror_message ::
    "server_message \<Rightarrow> (jstring \<Rightarrow> card_ref_message option) \<Rightarrow> jstring \<Rightarrow> card_ref_message option" where
  "mirror_message msg v =
     (case msg of Heartbeat \<Rightarrow> v | CardUpdate c s ref \<Rightarrow> v(c @ s := ref))"

definition mirror_view ::
    "(jsval \<Rightarrow> bool) \<Rightarrow> (jsval \<Rightarrow> jstring) \<Rightarrow> slot_map \<Rightarrow> jstring \<Rightarrow> card_ref_message option" where
  "mirror_view lay ltxt m k = map_option (card_ref_data_to_proto lay ltxt) (map_of m k)"

lemma mirror_update:
  "mirror_message (to_card_update_message lay ltxt k r) v =
     v(k := map_option (card_ref_data_to_proto lay ltxt) r)"
proof -
  obtain c s where "key_to_card_and_slot k = (c, s)" by force
  then show ?thesis
    using key_concat [of k c s] by (simp add: to_card_update_message_def mirror_message_def)
qed

lemma mirror_slots:
  "fold mirror_message (map (\<lambda>(k, r). to_card_update_message lay ltxt k (Some r)) kvs) v k =
     (case map_of (rev kvs) k of Some r \<Rightarrow> Some (card_ref_data_to_proto lay ltxt r) | None \<Rightarrow> v k)"
  by (induction kvs arbitrary: v) (auto simp: mirror_update map_add_def split: option.splits)

lemma mirror_removes:
  "fold mirror_message (map (\<lambda>k. to_card_update_message lay ltxt k None) ks) v k =
     (if k \<in> set ks then None else v k)"
  by (induction ks arbitrary: v) (auto simp: mirror_update)

lemma mirror_delta:
  assumes "slot_map_inv m" and "delta_inv d"
  shows "fold mirror_message (delta_to_server_messages lay ltxt d) (mirror_view lay ltxt m) k =
    (if k \<in> set (delta_remove d) then None
     else mirror_view lay ltxt (apply_cards_delta_to_slot_map d m) k)"
proof -
  have "map_of (rev (delta_slots d)) = map_of (delta_slots d)"
    using assms(2) by (simp add: delta_inv_def map_of_rev)
  then show ?thesis
    using assms
    by (auto simp: delta_to_server_messages_def to_heartbeat_message_def mirror_message_def [of Heartbeat]
        mirror_slots mirror_removes mirror_view_def apply_delta_get split: option.splits)
qed

section \<open>Properties\<close>

lemma apply_delta_lookup_parts:
  assumes "slot_map_inv m" and "delta_inv d"
  shows "map_of (apply_cards_delta_to_slot_map d m) k =
      (case map_of (delta_slots d) k of
         Some r \<Rightarrow> Some r
       | None \<Rightarrow> if k \<in> set (delta_remove d) then None else map_of m k)"
    and "slot_map_inv (apply_cards_delta_to_slot_map d m)"
  using apply_delta_get [OF assms] apply_delta_inv [OF assms(1)] by blast+

text \<open>
  C27: What a delta does to every key: a key it sets holds the new reference, a key it only
  removes is gone, and any other key keeps its reference. Setting wins over removing.
\<close>

theorem apply_delta_lookup:
  assumes "slot_map_inv m" and "delta_inv d"
  shows "(map_of (apply_cards_delta_to_slot_map d m) k =
      (case map_of (delta_slots d) k of
         Some r \<Rightarrow> Some r
       | None \<Rightarrow> if k \<in> set (delta_remove d) then None else map_of m k)) \<and>
    (slot_map_inv (apply_cards_delta_to_slot_map d m))"
  by (intro conjI impI; rule apply_delta_lookup_parts [OF assms]; assumption?)

definition ref1 :: card_ref where "ref1 = \<lparr>ref_id = ''c2'', ref_value = JUndef\<rparr>"

definition delta1 :: cards_delta where
  "delta1 = \<lparr>delta_slots = [(''c1::right'', ref1), (''c1code'', ref1)], delta_remove = [''c3code'', ''c1code'']\<rparr>"

theorem apply_delta_lookup_witness:
  "map_of (apply_cards_delta_to_slot_map delta1 [(''c3code'', ref1)]) ''c3code'' = None \<and>
   map_of (apply_cards_delta_to_slot_map delta1 [(''c3code'', ref1)]) ''c1code'' = Some ref1"
  using apply_delta_lookup [of "[(''c3code'', ref1)]" delta1]
  by (simp add: delta1_def delta_inv_def proto_key_def)

text \<open>
  Two deltas pushed one after the other act as one: their composition, computed on the
  deltas alone, gives every key the same reference.
\<close>

lemma compose_delta_correct:
  assumes "slot_map_inv m" and "delta_inv d" and "delta_inv e"
  shows "map_of (apply_cards_delta_to_slot_map (compose_delta d e) m) =
    map_of (apply_cards_delta_to_slot_map e (apply_cards_delta_to_slot_map d m))"
  using assms by (rule compose_delta_get)

text \<open>
  A client that mirrors the slot map from the update messages of a delta agrees with the
  server's slot map exactly on the keys that the delta does not both set and remove: the
  messages list the removals last, whereas the slot map applies them first.
\<close>

lemma delta_messages_mirror:
  assumes "slot_map_inv m" and "delta_inv d"
  shows "fold mirror_message (delta_to_server_messages lay ltxt d) (mirror_view lay ltxt m) k =
      mirror_view lay ltxt (apply_cards_delta_to_slot_map d m) k
    \<longleftrightarrow> \<not> (k \<in> set (delta_remove d) \<and> k \<in> fst ` set (delta_slots d))"
  using mirror_delta [OF assms, of lay ltxt k] apply_delta_get [OF assms, of k]
  by (auto simp: mirror_view_def map_of_eq_None_iff [symmetric] split: option.splits)

end
