(* ===== verification/Slot_Sync.thy ===== *)
theory Slot_Sync
  imports Slot_Delta
begin

text \<open>
  From slot maps to card events: the pure half of \<open>delta/card_slot_sync.ts\<close>. A slot map names
  the cards, the connections between neighbouring cards and the code of each card; the
  difference of two slot maps is a list of events, in the order detach, remove, add,
  connect, update, that the card runtime is then driven with (theory \<open>Card_Sync\<close>).

  Strings are compared by code units, the lexicographic order on character lists.
\<close>

section \<open>Edges\<close>

record structural_edge =
  from_id :: jstring
  from_slot :: jstring
  to_id :: jstring
  to_slot :: jstring

datatype card_api_event =
    CardDetach jstring jstring
  | CardRemove jstring
  | CardAdd jstring
  | CardConnect jstring jstring jstring jstring
  | CardUpdateValue jstring jsval

definition directional_slots :: "jstring list" where
  "directional_slots = [slot_left, slot_right, slot_above, slot_below]"

definition inverse_slot :: "jstring \<Rightarrow> jstring option" where
  "inverse_slot slot =
     (if slot = slot_left then Some slot_right
      else if slot = slot_right then Some slot_left
      else if slot = slot_above then Some slot_below
      else if slot = slot_below then Some slot_above
      else None)"

definition extract_card_id_ref :: "card_ref \<Rightarrow> jstring option" where
  "extract_card_id_ref ref =
     (let v = ref_value ref;
          nonempty = (\<lambda>x. case x of JStr s \<Rightarrow> (if s \<noteq> [] then Some s else None) | _ \<Rightarrow> None);
          own = (if ref_id ref \<noteq> [] then Some (ref_id ref) else None);
          ids = (\<lambda>obj. coalesce (coalesce (coalesce (js_prop obj ''card_id'') (js_prop obj ''cardId''))
                   (js_prop obj ''target_id'')) (js_prop obj ''targetId''))
      in case v of
           JArr (JStr t # JStr s # _) \<Rightarrow> (if t = ''CardIdRef'' then Some s else own)
         | JObj _ \<Rightarrow>
             (let tag = coalesce (coalesce (js_prop v ''kind'') (js_prop v ''type'')) (js_prop v ''tag'');
                  by_tag = (if tag = JStr ''CardIdRef'' then coalesce (ids v) (js_prop v ''id'') else JUndef)
              in case nonempty by_tag of
                   Some s \<Rightarrow> Some s
                 | None \<Rightarrow>
                     (case nonempty (ids v) of
                        Some s \<Rightarrow> Some s
                      | None \<Rightarrow> own))
         | _ \<Rightarrow> own)"

definition collect_card_ids :: "slot_map \<Rightarrow> jstring list" where
  "collect_card_ids m =
     fold (\<lambda>(key, _) out.
             let card_id = fst (key_to_card_and_slot key)
             in if card_id \<noteq> [] then set_add card_id out else out) m []"

definition edge_string :: "structural_edge \<Rightarrow> jstring" where
  "edge_string e = from_id e @ ''|'' @ from_slot e @ ''|'' @ to_id e @ ''|'' @ to_slot e"

definition reverse_edge :: "structural_edge \<Rightarrow> structural_edge" where
  "reverse_edge e = \<lparr>from_id = to_id e, from_slot = to_slot e, to_id = from_id e, to_slot = from_slot e\<rparr>"

definition canonical_edge :: "structural_edge \<Rightarrow> structural_edge" where
  "canonical_edge e = (if edge_string e \<le> edge_string (reverse_edge e) then e else reverse_edge e)"

text \<open>The edge one entry of the slot map declares, if it declares one.\<close>

definition declared_edge :: "jstring \<Rightarrow> card_ref \<Rightarrow> structural_edge option" where
  "declared_edge key ref =
     (let (card_id, slot) = key_to_card_and_slot key in
      if slot \<notin> set directional_slots then None
      else (case extract_card_id_ref ref of
              None \<Rightarrow> None
            | Some t \<Rightarrow>
                if t = [] then None
                else (case inverse_slot slot of
                        None \<Rightarrow> None
                      | Some s' \<Rightarrow> Some \<lparr>from_id = card_id, from_slot = slot, to_id = t, to_slot = s'\<rparr>)))"

definition collect_edges :: "slot_map \<Rightarrow> (jstring, structural_edge) jmap" where
  "collect_edges m =
     fold (\<lambda>(key, ref) out.
             case declared_edge key ref of
               None \<Rightarrow> out
             | Some direct \<Rightarrow> AList.update (edge_string (canonical_edge direct)) (canonical_edge direct) out) m []"

section \<open>Changed values\<close>

definition value_signature :: "jsval \<Rightarrow> jstring" where
  "value_signature v =
     (case v of
        JNull \<Rightarrow> js_typeof v @ '':'' @ prim_to_string v
      | JStr _ \<Rightarrow> js_typeof v @ '':'' @ prim_to_string v
      | JNum _ \<Rightarrow> js_typeof v @ '':'' @ prim_to_string v
      | JBool _ \<Rightarrow> js_typeof v @ '':'' @ prim_to_string v
      | _ \<Rightarrow> ''json:'' @ (case json_stringify v of Some s \<Rightarrow> s | None \<Rightarrow> ''undefined''))"

text \<open>
  The loop of \<open>sync_this_slots\<close> and \<open>sync_code_slots\<close>, which differ in the slot they select;
  the call of the first is commented out in the code.
\<close>

definition sync_entry :: "jstring \<Rightarrow> slot_map \<Rightarrow> jstring \<Rightarrow> card_ref \<Rightarrow> card_api_event list" where
  "sync_entry slot prev_map key ref =
     (let (card_id, s) = key_to_card_and_slot key in
      if s \<noteq> slot then []
      else (case map_of prev_map key of
              None \<Rightarrow> [CardUpdateValue card_id (ref_value ref)]
            | Some prev \<Rightarrow>
                if value_signature (ref_value prev) = value_signature (ref_value ref) then []
                else [CardUpdateValue card_id (ref_value ref)]))"

definition sync_slots :: "jstring \<Rightarrow> slot_map \<Rightarrow> slot_map \<Rightarrow> card_api_event list" where
  "sync_slots slot prev_map next_map =
     concat (map (\<lambda>(key, ref). sync_entry slot prev_map key ref) next_map)"

definition sync_this_slots :: "slot_map \<Rightarrow> slot_map \<Rightarrow> card_api_event list" where
  "sync_this_slots prev_map next_map = sync_slots slot_this prev_map next_map"

definition sync_code_slots :: "slot_map \<Rightarrow> slot_map \<Rightarrow> card_api_event list" where
  "sync_code_slots prev_map next_map = sync_slots ''code'' prev_map next_map"

section \<open>The difference of two slot maps\<close>

definition detach_events :: "slot_map \<Rightarrow> slot_map \<Rightarrow> card_api_event list" where
  "detach_events prev_map next_map =
     concat (map (\<lambda>(key, edge).
       if map_of (collect_edges next_map) key = None then [CardDetach (from_id edge) (to_id edge)] else [])
       (collect_edges prev_map))"

definition remove_events :: "slot_map \<Rightarrow> slot_map \<Rightarrow> card_api_event list" where
  "remove_events prev_map next_map =
     map CardRemove (filter (\<lambda>c. c \<notin> set (collect_card_ids next_map)) (collect_card_ids prev_map))"

definition add_events :: "slot_map \<Rightarrow> slot_map \<Rightarrow> card_api_event list" where
  "add_events prev_map next_map =
     map CardAdd (sort (filter (\<lambda>c. c \<notin> set (collect_card_ids prev_map)) (collect_card_ids next_map)))"

definition connect_events :: "slot_map \<Rightarrow> slot_map \<Rightarrow> card_api_event list" where
  "connect_events prev_map next_map =
     concat (map (\<lambda>(key, edge).
       if map_of (collect_edges prev_map) key \<noteq> None then []
       else [CardConnect (from_id edge) (from_slot edge) (to_id edge) (to_slot edge)])
       (collect_edges next_map))"

definition diff_slot_maps_to_card_api_events :: "slot_map \<Rightarrow> slot_map \<Rightarrow> card_api_event list" where
  "diff_slot_maps_to_card_api_events prev_map next_map =
     detach_events prev_map next_map @ remove_events prev_map next_map @ add_events prev_map next_map
     @ connect_events prev_map next_map @ sync_code_slots prev_map next_map"

section \<open>Lemmas on edges\<close>

lemma inverse_slot_sym: "inverse_slot s = Some t \<Longrightarrow> inverse_slot t = Some s"
  by (auto simp: inverse_slot_def slot_defs split: if_splits)

lemma inverse_slot_directional: "inverse_slot s = Some t \<Longrightarrow> s \<in> set directional_slots \<and> t \<in> set directional_slots"
  by (auto simp: inverse_slot_def directional_slots_def split: if_splits)

lemma reverse_reverse [simp]: "reverse_edge (reverse_edge e) = e"
  by (simp add: reverse_edge_def)

text \<open>
  The canonical form does not depend on the side that declares the edge. When the two strings
  are equal the edge is its own reverse only if its ids are not confused by the separator.
\<close>

lemma canonical_string_reverse: "edge_string (canonical_edge (reverse_edge e)) = edge_string (canonical_edge e)"
  by (auto simp: canonical_edge_def)

lemma canonical_reverse:
  "edge_string e \<noteq> edge_string (reverse_edge e) \<Longrightarrow> canonical_edge (reverse_edge e) = canonical_edge e"
  by (auto simp: canonical_edge_def)

definition edge_entries :: "slot_map \<Rightarrow> (jstring \<times> structural_edge) list" where
  "edge_entries m =
     concat (map (\<lambda>(key, ref). case declared_edge key ref of None \<Rightarrow> []
       | Some d \<Rightarrow> [(edge_string (canonical_edge d), canonical_edge d)]) m)"

definition declares :: "slot_map \<Rightarrow> structural_edge \<Rightarrow> bool" where
  "declares m e \<longleftrightarrow> (\<exists>(key, ref) \<in> set m. declared_edge key ref = Some e)"

lemma edge_entries_iff:
  "(k, e) \<in> set (edge_entries m) \<longleftrightarrow>
     (\<exists>d. declares m d \<and> k = edge_string (canonical_edge d) \<and> e = canonical_edge d)"
proof (induction m)
  case Nil
  then show ?case by (simp add: edge_entries_def declares_def)
next
  case (Cons kr m)
  obtain key ref where kr: "kr = (key, ref)" by force
  have "edge_entries (kr # m) = (case declared_edge key ref of None \<Rightarrow> []
       | Some d \<Rightarrow> [(edge_string (canonical_edge d), canonical_edge d)]) @ edge_entries m"
    by (simp add: edge_entries_def kr)
  moreover have "declares (kr # m) d \<longleftrightarrow> declared_edge key ref = Some d \<or> declares m d" for d
    by (auto simp: declares_def kr)
  ultimately show ?case using Cons by (cases "declared_edge key ref") auto
qed

lemma collect_edges_put: "collect_edges m = fold (\<lambda>(k, v). AList.update k v) (edge_entries m) []"
proof -
  have "fold (\<lambda>(key, ref) out. case declared_edge key ref of None \<Rightarrow> out
          | Some d \<Rightarrow> AList.update (edge_string (canonical_edge d)) (canonical_edge d) out) m out =
        fold (\<lambda>(k, v). AList.update k v) (edge_entries m) out" for out
    by (induction m arbitrary: out) (auto simp: edge_entries_def split: option.splits)
  then show ?thesis by (simp add: collect_edges_def)
qed

lemma collect_edges_distinct: "distinct (map fst (collect_edges m))"
  unfolding collect_edges_put by (rule jmap.inv_puts) simp

lemma collect_edges_get: "map_of (collect_edges m) k = map_of (rev (edge_entries m)) k"
  unfolding collect_edges_put by (subst jmap.get_puts) (auto split: option.splits)

lemma collect_edges_value:
  "map_of (collect_edges m) k = Some e \<Longrightarrow> k = edge_string e \<and> (\<exists>d. declares m d \<and> e = canonical_edge d)"
  by (auto simp: collect_edges_get edge_entries_iff dest!: map_of_SomeD)

lemma collect_edges_key:
  "map_of (collect_edges m) k \<noteq> None \<longleftrightarrow> (\<exists>d. declares m d \<and> k = edge_string (canonical_edge d))"
proof -
  have "map_of (collect_edges m) k \<noteq> None \<longleftrightarrow> k \<in> fst ` set (edge_entries m)"
    by (simp add: collect_edges_get map_of_eq_None_iff)
  also have "\<dots> \<longleftrightarrow> (\<exists>d. declares m d \<and> k = edge_string (canonical_edge d))"
    by (auto simp: edge_entries_iff image_iff Bex_def)
  finally show ?thesis .
qed

lemma collect_edges_set: "(k, e) \<in> set (collect_edges m) \<longleftrightarrow> map_of (collect_edges m) k = Some e"
  using collect_edges_distinct by simp

section \<open>Lemmas on cards\<close>

lemma collect_card_ids_adds:
  "collect_card_ids m = fold set_add (filter (\<lambda>c. c \<noteq> []) (map (fst \<circ> key_to_card_and_slot \<circ> fst) m)) []"
proof -
  have "fold (\<lambda>(key, _) out. let card_id = fst (key_to_card_and_slot key)
             in if card_id \<noteq> [] then set_add card_id out else out) m out =
     fold set_add (filter (\<lambda>c. c \<noteq> []) (map (fst \<circ> key_to_card_and_slot \<circ> fst) m)) out" for out
    by (induction m arbitrary: out) (auto simp: Let_def)
  then show ?thesis by (simp add: collect_card_ids_def)
qed

lemma collect_card_ids:
  "c \<in> set (collect_card_ids m) \<longleftrightarrow> c \<noteq> [] \<and> (\<exists>key \<in> fst ` set m. c = fst (key_to_card_and_slot key))"
  by (auto simp: collect_card_ids_adds)

lemma collect_card_ids_distinct: "distinct (collect_card_ids m)"
  by (simp add: collect_card_ids_adds)

section \<open>Lemmas on values\<close>

text \<open>A slot value, after decoding: absent, or a JSON value.\<close>

definition slot_value :: "jsval \<Rightarrow> bool" where
  "slot_value v \<longleftrightarrow> v = JUndef \<or> wf_json v"

lemma num_to_string_inj:
  assumes "finite_num a" and "finite_num b" and "num_to_string a = num_to_string b"
  shows "a = b"
proof -
  have "delim []" by (simp add: delim_def)
  then show ?thesis
    using parse_number_roundtrip [of a "[]"] parse_number_roundtrip [of b "[]"] assms by simp
qed

lemma sig_heads:
  "value_signature JNull = ''object:null''" "value_signature (JStr s) = ''string:'' @ s"
  "value_signature (JNum n) = ''number:'' @ num_to_string n"
  "value_signature (JBool b) = ''boolean:'' @ (if b then ''true'' else ''false'')"
  "value_signature JUndef = ''json:undefined''"
  "value_signature (JArr vs) = ''json:'' @ the (json_stringify (JArr vs))"
  "value_signature (JObj kvs) = ''json:'' @ the (json_stringify (JObj kvs))"
  by (simp_all add: value_signature_def js_typeof_def prim_to_string_def)

lemma value_signature_eq:
  assumes "slot_value v" and "slot_value w" and "value_signature v = value_signature w"
  shows "v = w"
proof -
  have inj: "wf_json v \<Longrightarrow> wf_json w \<Longrightarrow> the (json_stringify v) = the (json_stringify w) \<Longrightarrow> v = w"
    by (metis json_parse_stringify option.sel option.inject)
  show ?thesis
    using assms inj
    by (cases v; cases w; auto simp: slot_value_def sig_heads num_to_string_inj split: if_splits)
qed

section \<open>Lemmas on events\<close>

lemma detach_events_map:
  "detach_events p n = map (\<lambda>(_, e). CardDetach (from_id e) (to_id e))
     (filter (\<lambda>(k, _). map_of (collect_edges n) k = None) (collect_edges p))"
proof -
  have "concat (map (\<lambda>(key, edge). if map_of (collect_edges n) key = None
         then [CardDetach (from_id edge) (to_id edge)] else []) kes) =
     map (\<lambda>(_, e). CardDetach (from_id e) (to_id e)) (filter (\<lambda>(k, _). map_of (collect_edges n) k = None) kes)"
    for kes by (induction kes) auto
  then show ?thesis by (simp add: detach_events_def)
qed

lemma connect_events_map:
  "connect_events p n = map (\<lambda>(_, e). CardConnect (from_id e) (from_slot e) (to_id e) (to_slot e))
     (filter (\<lambda>(k, _). map_of (collect_edges p) k = None) (collect_edges n))"
proof -
  have "concat (map (\<lambda>(key, edge). if map_of (collect_edges p) key \<noteq> None then []
         else [CardConnect (from_id edge) (from_slot edge) (to_id edge) (to_slot edge)]) kes) =
     map (\<lambda>(_, e). CardConnect (from_id e) (from_slot e) (to_id e) (to_slot e))
       (filter (\<lambda>(k, _). map_of (collect_edges p) k = None) kes)"
    for kes by (induction kes) auto
  then show ?thesis by (simp add: connect_events_def)
qed

lemma detach_events_iff:
  "e \<in> set (detach_events p n) \<longleftrightarrow>
     (\<exists>k d. map_of (collect_edges p) k = Some d \<and> map_of (collect_edges n) k = None
        \<and> e = CardDetach (from_id d) (to_id d))"
  unfolding detach_events_map collect_edges_set [symmetric] by auto

lemma connect_events_iff:
  "e \<in> set (connect_events p n) \<longleftrightarrow>
     (\<exists>k d. map_of (collect_edges n) k = Some d \<and> map_of (collect_edges p) k = None
        \<and> e = CardConnect (from_id d) (from_slot d) (to_id d) (to_slot d))"
  unfolding connect_events_map collect_edges_set [symmetric] by auto

lemma remove_events_iff:
  "CardRemove c \<in> set (remove_events p n) \<longleftrightarrow> c \<in> set (collect_card_ids p) \<and> c \<notin> set (collect_card_ids n)"
  by (auto simp: remove_events_def)

lemma add_events_iff:
  "CardAdd c \<in> set (add_events p n) \<longleftrightarrow> c \<in> set (collect_card_ids n) \<and> c \<notin> set (collect_card_ids p)"
  by (auto simp: add_events_def)

lemma sync_slots_iff:
  assumes "distinct (map fst n)"
  shows "CardUpdateValue c v \<in> set (sync_slots slot p n) \<longleftrightarrow>
     (\<exists>key ref. map_of n key = Some ref \<and> key_to_card_and_slot key = (c, slot) \<and> v = ref_value ref \<and>
        (case map_of p key of None \<Rightarrow> True
         | Some prev \<Rightarrow> value_signature (ref_value prev) \<noteq> value_signature (ref_value ref)))"
proof -
  let ?P = "\<lambda>key ref. key_to_card_and_slot key = (c, slot) \<and> v = ref_value ref \<and>
        (case map_of p key of None \<Rightarrow> True
         | Some prev \<Rightarrow> value_signature (ref_value prev) \<noteq> value_signature (ref_value ref))"
  have "CardUpdateValue c v \<in> set (sync_entry slot p key ref) \<longleftrightarrow> ?P key ref" for key ref
    by (cases "key_to_card_and_slot key") (auto simp: sync_entry_def split: option.splits)
  then have "CardUpdateValue c v \<in> set (sync_slots slot p n) \<longleftrightarrow> (\<exists>(key, ref) \<in> set n. ?P key ref)"
    by (simp add: sync_slots_def split_beta)
  moreover have "(\<exists>(key, ref) \<in> set n. ?P key ref) \<longleftrightarrow> (\<exists>key ref. map_of n key = Some ref \<and> ?P key ref)"
  proof -
    have "(\<exists>(key, ref) \<in> set n. ?P key ref) \<longleftrightarrow> (\<exists>key ref. (key, ref) \<in> set n \<and> ?P key ref)"
      by blast
    then show ?thesis by (simp only: map_of_eq_Some_iff [OF assms])
  qed
  ultimately show ?thesis by simp
qed

text \<open>The kinds of events, in the order they are listed.\<close>

fun event_phase :: "card_api_event \<Rightarrow> nat" where
  "event_phase (CardDetach a b) = 0"
| "event_phase (CardRemove a) = 1"
| "event_phase (CardAdd a) = 2"
| "event_phase (CardConnect a s b t) = 3"
| "event_phase (CardUpdateValue c v) = 4"

lemma sync_entry_phase: "e \<in> set (sync_entry slot p k r) \<Longrightarrow> event_phase e = 4"
  by (cases "key_to_card_and_slot k") (auto simp: sync_entry_def split: if_splits option.splits)

lemma phases:
  "\<forall>e \<in> set (detach_events p n). event_phase e = 0"
  "\<forall>e \<in> set (remove_events p n). event_phase e = 1"
  "\<forall>e \<in> set (add_events p n). event_phase e = 2"
  "\<forall>e \<in> set (connect_events p n). event_phase e = 3"
  "\<forall>e \<in> set (sync_code_slots p n). event_phase e = 4"
proof -
  show "\<forall>e \<in> set (sync_code_slots p n). event_phase e = 4"
    by (auto simp: sync_code_slots_def sync_slots_def dest: sync_entry_phase)
qed (auto simp: detach_events_iff connect_events_iff remove_events_def add_events_def)

lemmas phase_of = bspec [OF phases(1)] bspec [OF phases(2)] bspec [OF phases(3)]
  bspec [OF phases(4)] bspec [OF phases(5)]

lemma in_diff_phase:
  "e \<in> set (diff_slot_maps_to_card_api_events p n) \<longleftrightarrow>
     (e \<in> set (detach_events p n) \<and> event_phase e = 0) \<or> (e \<in> set (remove_events p n) \<and> event_phase e = 1) \<or>
     (e \<in> set (add_events p n) \<and> event_phase e = 2) \<or> (e \<in> set (connect_events p n) \<and> event_phase e = 3) \<or>
     (e \<in> set (sync_code_slots p n) \<and> event_phase e = 4)"
proof -
  have ph: "e \<in> set (detach_events p n) \<Longrightarrow> event_phase e = 0"
    "e \<in> set (remove_events p n) \<Longrightarrow> event_phase e = 1"
    "e \<in> set (add_events p n) \<Longrightarrow> event_phase e = 2"
    "e \<in> set (connect_events p n) \<Longrightarrow> event_phase e = 3"
    "e \<in> set (sync_code_slots p n) \<Longrightarrow> event_phase e = 4"
    by (rule phase_of, assumption)+
  show ?thesis
    unfolding diff_slot_maps_to_card_api_events_def set_append Un_iff using ph by argo
qed

lemma in_diff:
  "CardDetach a b \<in> set (diff_slot_maps_to_card_api_events p n) \<longleftrightarrow> CardDetach a b \<in> set (detach_events p n)"
  "CardRemove a \<in> set (diff_slot_maps_to_card_api_events p n) \<longleftrightarrow> CardRemove a \<in> set (remove_events p n)"
  "CardAdd a \<in> set (diff_slot_maps_to_card_api_events p n) \<longleftrightarrow> CardAdd a \<in> set (add_events p n)"
  "CardConnect a s b t \<in> set (diff_slot_maps_to_card_api_events p n) \<longleftrightarrow>
     CardConnect a s b t \<in> set (connect_events p n)"
  "CardUpdateValue a v \<in> set (diff_slot_maps_to_card_api_events p n) \<longleftrightarrow>
     CardUpdateValue a v \<in> set (sync_code_slots p n)"
  unfolding in_diff_phase by simp_all

lemma sorted_const: "(\<forall>x \<in> set xs. f x = (k :: nat)) \<Longrightarrow> sorted (map f xs)"
  by (induction xs) auto

lemma sync_slots_self: "distinct (map fst m) \<Longrightarrow> sync_slots slot m m = []"
  by (auto simp: sync_slots_def sync_entry_def Let_def split: prod.splits option.splits dest: eq_key_imp_eq_value)

lemma edges_unchanged:
  assumes "\<And>k. map_of (collect_edges n) k = None \<longleftrightarrow> map_of (collect_edges p) k = None"
  shows "detach_events p n = []" and "connect_events p n = []"
proof -
  have "map_of (collect_edges n) k \<noteq> None" if "(k, e) \<in> set (collect_edges p)" for k e
    using that assms [of k] by (simp add: collect_edges_set)
  then show "detach_events p n = []" by (auto simp: detach_events_map filter_empty_conv)
  have "map_of (collect_edges p) k \<noteq> None" if "(k, e) \<in> set (collect_edges n)" for k e
    using that assms [of k] by (simp add: collect_edges_set)
  then show "connect_events p n = []" by (auto simp: connect_events_map filter_empty_conv)
qed

lemma declares_obj_set:
  assumes "k \<notin> fst ` set m"
  shows "declares (obj_set k r m) e \<longleftrightarrow> declares m e \<or> (k \<noteq> proto_key \<and> declared_edge k r = Some e)"
  using assms by (auto simp: obj_set_def declares_def set_insert_index map_of_eq_None_iff)

section \<open>Properties\<close>

text \<open>The events of a difference come in five phases: detach, remove, add, connect, update.\<close>

lemma diff_phases_sorted: "sorted (map event_phase (diff_slot_maps_to_card_api_events p n))"
  using phases [of p n]
  by (auto simp: diff_slot_maps_to_card_api_events_def sorted_append
      sorted_const [OF phases(1)] sorted_const [OF phases(2)] sorted_const [OF phases(3)]
      sorted_const [OF phases(4)] sorted_const [OF phases(5)])

text \<open>A slot map compared with itself gives no event.\<close>

lemma diff_self:
  assumes "slot_map_inv m"
  shows "diff_slot_maps_to_card_api_events m m = []"
  using edges_unchanged [of m m] sync_slots_self [OF assms]
  by (simp add: diff_slot_maps_to_card_api_events_def remove_events_def add_events_def sync_code_slots_def)

definition sample_map :: slot_map where
  "sample_map = [(''c1code'', \<lparr>ref_id = [], ref_value = JStr ''(+ 1 2)''\<rparr>),
     (''c1::right'', \<lparr>ref_id = ''c2'', ref_value = JUndef\<rparr>)]"

definition sample_map2 :: slot_map where
  "sample_map2 = [(''c1code'', \<lparr>ref_id = [], ref_value = JStr ''(+ 1 3)''\<rparr>),
     (''c1::right'', \<lparr>ref_id = ''c2'', ref_value = JUndef\<rparr>),
     (''c2code'', \<lparr>ref_id = [], ref_value = JNum (Dec 4 0)\<rparr>)]"

lemma diff_card_set_parts:
  "set (collect_card_ids n) =
      (set (collect_card_ids p) - {c. CardRemove c \<in> set (diff_slot_maps_to_card_api_events p n)}) \<union> {c. CardAdd c \<in> set (diff_slot_maps_to_card_api_events p n)}"
  "{c. CardRemove c \<in> set (diff_slot_maps_to_card_api_events p n)} \<subseteq> set (collect_card_ids p)"
  "{c. CardAdd c \<in> set (diff_slot_maps_to_card_api_events p n)} \<inter> set (collect_card_ids p) = {}"
  "\<exists>cs. sorted cs \<and> distinct cs \<and> filter (\<lambda>e. event_phase e = 2) (diff_slot_maps_to_card_api_events p n) = map CardAdd cs"
proof -
  have "filter (\<lambda>e. event_phase e = 2) (diff_slot_maps_to_card_api_events p n) = add_events p n"
    unfolding diff_slot_maps_to_card_api_events_def
    by (simp add: filter_id_conv filter_empty_conv phase_of)
  then show "\<exists>cs. sorted cs \<and> distinct cs \<and> filter (\<lambda>e. event_phase e = 2) (diff_slot_maps_to_card_api_events p n) = map CardAdd cs"
    unfolding add_events_def using collect_card_ids_distinct [of n]
    by (intro exI [of _ "sort (filter (\<lambda>c. c \<notin> set (collect_card_ids p)) (collect_card_ids n))"]) simp
qed (auto simp: in_diff remove_events_iff add_events_iff)

text \<open>
  The add and remove events account for the cards exactly: the cards of the old map,
  without the removed ones and with the added ones, are the cards of the new map; a removed
  card was there, an added one was not, and added cards are listed once, in order.
\<close>

lemma diff_card_set:
  "(set (collect_card_ids n) =
      (set (collect_card_ids p) - {c. CardRemove c \<in> set (diff_slot_maps_to_card_api_events p n)}) \<union> {c. CardAdd c \<in> set (diff_slot_maps_to_card_api_events p n)}) \<and>
    ({c. CardRemove c \<in> set (diff_slot_maps_to_card_api_events p n)} \<subseteq> set (collect_card_ids p)) \<and>
    ({c. CardAdd c \<in> set (diff_slot_maps_to_card_api_events p n)} \<inter> set (collect_card_ids p) = {}) \<and>
    (\<exists>cs. sorted cs \<and> distinct cs \<and> filter (\<lambda>e. event_phase e = 2) (diff_slot_maps_to_card_api_events p n) = map CardAdd cs)"
  by (intro conjI; rule diff_card_set_parts)

text \<open>
  C23: A card's code is sent to the runtime exactly when its slot is new or its value differs
  from the old one: the textual comparison of the code decides equality of slot values.
\<close>

theorem diff_updates_iff:
  assumes "slot_map_inv n" and "slot_map_inv p"
    and "\<forall>r \<in> snd ` set n \<union> snd ` set p. slot_value (ref_value r)"
  shows "CardUpdateValue c v \<in> set (diff_slot_maps_to_card_api_events p n) \<longleftrightarrow>
    (\<exists>ref. map_of n (c @ ''code'') = Some ref \<and> v = ref_value ref \<and>
       (\<forall>prev. map_of p (c @ ''code'') = Some prev \<longrightarrow> ref_value prev \<noteq> ref_value ref))"
proof -
  have key: "key_to_card_and_slot key = (c, ''code'') \<longleftrightarrow> key = c @ ''code''" for key
    using key_concat [of key c "''code''"] key_code by auto
  have sig: "value_signature (ref_value a) = value_signature (ref_value b) \<longleftrightarrow> ref_value a = ref_value b"
    if "map_of p k = Some a" "map_of n k = Some b" for a b k
  proof -
    have "a \<in> snd ` set p" and "b \<in> snd ` set n"
      using imageI [OF map_of_SomeD [OF that(1)], of snd] imageI [OF map_of_SomeD [OF that(2)], of snd]
      by simp_all
    then have "slot_value (ref_value a)" and "slot_value (ref_value b)" using assms(3) by auto
    then show ?thesis using value_signature_eq [of "ref_value a" "ref_value b"] by auto
  qed
  have changed: "(case map_of p k of None \<Rightarrow> True
         | Some prev \<Rightarrow> value_signature (ref_value prev) \<noteq> value_signature (ref_value ref)) \<longleftrightarrow>
       (\<forall>prev. map_of p k = Some prev \<longrightarrow> ref_value prev \<noteq> ref_value ref)"
    if "map_of n k = Some ref" for k ref
    by (cases "map_of p k") (simp_all add: sig [OF _ that])
  show ?thesis
    unfolding in_diff sync_code_slots_def sync_slots_iff [OF assms(1)]
    by (simp add: key changed cong: conj_cong)
qed

theorem diff_updates_iff_witness:
  "CardUpdateValue ''c1'' (JStr ''(+ 1 3)'') \<in> set (diff_slot_maps_to_card_api_events sample_map sample_map2)"
proof -
  have "\<forall>r \<in> snd ` set sample_map2 \<union> snd ` set sample_map. slot_value (ref_value r)"
    by (simp add: sample_map_def sample_map2_def slot_value_def finite_num_def)
  from diff_updates_iff [OF _ _ this] show ?thesis
    by (simp add: sample_map_def sample_map2_def)
qed

lemma diff_mirrored_declaration_parts:
  assumes "declares m e" and "declared_edge k r = Some (reverse_edge e)" and "k \<notin> fst ` set m"
  shows "detach_events m (obj_set k r m) = []" and "connect_events m (obj_set k r m) = []"
proof -
  have "map_of (collect_edges (obj_set k r m)) j = None \<longleftrightarrow> map_of (collect_edges m) j = None" for j
    using collect_edges_key [of "obj_set k r m" j] collect_edges_key [of m j] assms
    by (auto simp: declares_obj_set canonical_string_reverse)
  then show "detach_events m (obj_set k r m) = []" and "connect_events m (obj_set k r m) = []"
    by (rule edges_unchanged)+
qed

text \<open>
  A connection may be declared from either card or from both: adding the mirrored
  declaration of an edge that is already declared neither connects nor detaches anything.
\<close>

lemma diff_mirrored_declaration:
  assumes "declares m e" and "declared_edge k r = Some (reverse_edge e)" and "k \<notin> fst ` set m"
  shows "(detach_events m (obj_set k r m) = []) \<and>
    (connect_events m (obj_set k r m) = [])"
  by (intro conjI impI; rule diff_mirrored_declaration_parts [OF assms]; assumption?)

end
