(* ===== verification/Exec.thy ===== *)
theory Exec
  imports Lain_Prelude
begin

text \<open>
  Imperative code as actions on a state. An action returns a value or throws an error and
  always leaves a state: what the code changed before it threw stays changed. \<open>keeps\<close> is the
  Hoare-style statement that an action keeps an invariant whether it returns or throws, and
  \<open>relates\<close> that the state before and the state after are related; the locale
  \<open>frame_relation\<close> derives the rules for composed actions from a preorder on states.
\<close>

type_synonym ('s, 'e, 'a) act = "'s \<Rightarrow> ('e + 'a) \<times> 's"

definition ret :: "'a \<Rightarrow> ('s, 'e, 'a) act" where
  "ret x s = (Inr x, s)"

definition throw :: "'e \<Rightarrow> ('s, 'e, 'a) act" where
  "throw e s = (Inl e, s)"

definition andthen :: "('s, 'e, 'a) act \<Rightarrow> ('a \<Rightarrow> ('s, 'e, 'b) act) \<Rightarrow> ('s, 'e, 'b) act" where
  "andthen m f s = (case m s of (Inl e, s') \<Rightarrow> (Inl e, s') | (Inr x, s') \<Rightarrow> f x s')"

definition reads :: "('s \<Rightarrow> 'a) \<Rightarrow> ('s, 'e, 'a) act" where
  "reads f s = (Inr (f s), s)"

definition changes :: "('s \<Rightarrow> 's) \<Rightarrow> ('s, 'e, unit) act" where
  "changes f s = (Inr (), f s)"

fun for_each :: "('x \<Rightarrow> ('s, 'e, unit) act) \<Rightarrow> 'x list \<Rightarrow> ('s, 'e, unit) act" where
  "for_each f [] = ret ()"
| "for_each f (x # xs) = andthen (f x) (\<lambda>_. for_each f xs)"

lemmas exec_defs = ret_def throw_def andthen_def reads_def changes_def

lemma run_simps [simp]:
  "ret x s = (Inr x, s)" "throw e s = (Inl e, s)" "reads f s = (Inr (f s), s)" "changes h s = (Inr (), h s)"
  by (simp_all add: exec_defs)

lemma andthen_run:
  "m s = (Inr x, s') \<Longrightarrow> andthen m f s = f x s'" "m s = (Inl e, s') \<Longrightarrow> andthen m f s = (Inl e, s')"
  by (simp_all add: andthen_def)

lemma andthen_ret [simp]: "andthen (ret x) f s = f x s"
  and andthen_throw [simp]: "andthen (throw e) f' s = (Inl e, s)"
  and andthen_reads [simp]: "andthen (reads g) f s = f (g s) s"
  and andthen_changes [simp]: "andthen (changes h) k s = k () (h s)"
  by (simp_all add: exec_defs)

lemma andthen_assoc [simp]: "andthen (andthen m k) f s = andthen m (\<lambda>x. andthen (k x) f) s"
  by (simp add: andthen_def split: sum.splits prod.splits)

lemma andthen_if: "andthen (if b then m else m') f s = (if b then andthen m f s else andthen m' f s)"
  by simp

lemma andthen_cases:
  assumes "andthen m f s = (r, s'')"
  obtains e where "m s = (Inl e, s'')" "r = Inl e"
  | x s' where "m s = (Inr x, s')" "f x s' = (r, s'')"
  using assms by (cases "m s") (auto simp: andthen_def split: sum.splits)

lemma andthen_Inr:
  "andthen m f s = (Inr y, s'') \<longleftrightarrow> (\<exists>x s'. m s = (Inr x, s') \<and> f x s' = (Inr y, s''))"
  by (cases "m s") (auto simp: andthen_def split: sum.splits)

named_theorems keeps_rules \<open>rules for the preservation of an invariant by an action\<close>

definition keeps :: "('s \<Rightarrow> bool) \<Rightarrow> ('s, 'e, 'a) act \<Rightarrow> bool" where
  "keeps P m \<longleftrightarrow> (\<forall>s. P s \<longrightarrow> P (snd (m s)))"

lemma keepsI: "(\<And>s. P s \<Longrightarrow> P (snd (m s))) \<Longrightarrow> keeps P m"
  by (simp add: keeps_def)

lemma keepsD: "keeps P m \<Longrightarrow> P s \<Longrightarrow> P (snd (m s))"
  by (simp add: keeps_def)

lemma keeps_ret [keeps_rules]: "keeps P (ret x)"
  by (simp add: keeps_def)

lemma keeps_throw [keeps_rules]: "keeps P (throw e)"
  by (simp add: keeps_def)

lemma keeps_reads [keeps_rules]: "keeps P (reads f)"
  by (simp add: keeps_def)

lemma keeps_andthen [keeps_rules]:
  assumes "keeps P m" and "\<And>x. keeps P (f x)"
  shows "keeps P (andthen m f)"
proof (rule keepsI)
  fix s assume "P s"
  obtain r s' where m: "m s = (r, s')" by force
  have "P s'" using keepsD [OF assms(1) \<open>P s\<close>] by (simp add: m)
  then show "P (snd (andthen m f s))"
    using keepsD [OF assms(2)] by (cases r) (auto simp: andthen_def m)
qed

lemma keeps_for_each [keeps_rules]: "(\<And>x. keeps P (f x)) \<Longrightarrow> keeps P (for_each f xs)"
  by (induction xs) (auto intro: keeps_rules)

lemma keeps_if [keeps_rules]: "keeps P m \<Longrightarrow> keeps P m' \<Longrightarrow> keeps P (if b then m else m')"
  by simp

lemma keeps_option [keeps_rules]:
  "keeps P m \<Longrightarrow> (\<And>x. keeps P (f x)) \<Longrightarrow> keeps P (case z of None \<Rightarrow> m | Some x \<Rightarrow> f x)"
  by (cases z) auto

text \<open>Actions that only move along a preorder on states.\<close>

locale frame_relation =
  fixes rel :: "'s \<Rightarrow> 's \<Rightarrow> bool"
  assumes refl: "rel s s"
    and trans: "rel s t \<Longrightarrow> rel t u \<Longrightarrow> rel s u"
begin

definition along :: "('s, 'e, 'a) act \<Rightarrow> bool" where
  "along m \<longleftrightarrow> (\<forall>s. rel s (snd (m s)))"

lemma alongD: "along m \<Longrightarrow> m s = (r, s') \<Longrightarrow> rel s s'"
  by (metis along_def snd_conv)

lemma along_ret: "along (ret x)" and along_throw: "along (throw e)" and along_reads: "along (reads f)"
  by (simp_all add: along_def refl)

lemma along_changes: "(\<And>s. rel s (h s)) \<Longrightarrow> along (changes h)"
  by (simp add: along_def)

lemma along_andthen:
  assumes "along m" and "\<And>x. along (f x)"
  shows "along (andthen m f)"
  unfolding along_def
proof
  fix s
  obtain r s' where m: "m s = (r, s')" by force
  have "rel s s'" using alongD [OF assms(1) m] .
  then show "rel s (snd (andthen m f s))"
    using assms(2) by (cases r) (auto simp: andthen_def m along_def intro: trans)
qed

lemma along_for_each: "(\<And>x. along (f x)) \<Longrightarrow> along (for_each f xs)"
  by (induction xs) (auto intro: along_ret along_andthen)

lemma along_if: "along m \<Longrightarrow> along m' \<Longrightarrow> along (if b then m else m')"
  by simp

lemma along_option: "along m \<Longrightarrow> (\<And>x. along (f x)) \<Longrightarrow> along (case z of None \<Rightarrow> m | Some x \<Rightarrow> f x)"
  by (cases z) auto

lemmas along_rules = along_ret along_throw along_reads along_andthen along_for_each along_if along_option

end

end
