(* ===== verification/Naming.thy ===== *)
theory Naming
  imports Slot_Keys Json_Text
begin

text \<open>
  Names: \<open>compiler/naming/cell_naming.ts\<close> (the names and labels of cells, propagators and
  card slots, joined and parsed with \<open>|\<close>) and \<open>compiler/naming_chain.ts\<close> (absolute names
  joined with dots, relative names as distances).
\<close>

section \<open>Cell names\<close>

definition SEP :: jstring where "SEP = ''|''"
definition card_header :: jstring where "card_header = ''CARD''"
definition CELL_HEADER :: jstring where "CELL_HEADER = ''CELL''"
definition PROPAGATOR_HEADER :: jstring where "PROPAGATOR_HEADER = ''PROPAGATOR''"
definition CARD_HEADER :: jstring where "CARD_HEADER = ''CARD''"

definition make_name :: "jstring list \<Rightarrow> jstring" where
  "make_name parts = join_with SEP parts"

text \<open>The labels take the name the library gives a cell or a propagator.\<close>

definition create_cell_label :: "jstring \<Rightarrow> jstring" where
  "create_cell_label cell_name = make_name [CELL_HEADER, cell_name]"

definition create_propagator_label :: "jstring \<Rightarrow> jstring" where
  "create_propagator_label propagator_name = make_name [PROPAGATOR_HEADER, propagator_name]"

definition core_accessor_name :: "jstring \<Rightarrow> jstring" where
  "core_accessor_name key = make_name [''Core'', ''accessor'', key]"

definition core_constant_name :: jstring where
  "core_constant_name = make_name [''Core'', ''Constant'']"

definition core_constant_value_name :: "jsval \<Rightarrow> jstring" where
  "core_constant_value_name v = make_name [''Core'', ''Constant'', prim_to_string v]"

definition core_env_name :: "jstring \<Rightarrow> jstring" where
  "core_env_name key = make_name [''Core'', ''Env'', key]"

definition create_card_cell_name :: "jstring \<Rightarrow> jstring \<Rightarrow> jstring" where
  "create_card_cell_name card_id slot = make_name [CARD_HEADER, card_id, slot]"

definition parse_cell_label :: "jstring \<Rightarrow> jstring \<times> jstring list" where
  "parse_cell_label label =
     (let parts = split_on SEP label in (case parts of [] \<Rightarrow> [] | p # _ \<Rightarrow> p, parts))"

definition TRACED_GRAPH_LABEL_PREFIX_CARD_CELLS :: jstring where
  "TRACED_GRAPH_LABEL_PREFIX_CARD_CELLS = make_name [CELL_HEADER, CARD_HEADER, []]"

section \<open>Naming chains\<close>

definition is_absolute_naming :: "jstring list \<Rightarrow> bool" where
  "is_absolute_naming naming \<longleftrightarrow> naming \<noteq> [] \<and> hd naming = ''absolute''"

definition compile_absolute_naming_to_string :: "jstring list \<Rightarrow> jstring" where
  "compile_absolute_naming_to_string naming = join_with ''.'' naming"

definition get_absolute_naming_from_string :: "jstring \<Rightarrow> jstring list" where
  "get_absolute_naming_from_string naming = ''abs'' # split_on ''.'' naming"

definition make_absolute_naming :: "jstring list \<Rightarrow> jstring list" where
  "make_absolute_naming naming = ''abs'' # naming"

definition make_absolute_naming_string :: "jstring list \<Rightarrow> jstring" where
  "make_absolute_naming_string naming = compile_absolute_naming_to_string (make_absolute_naming naming)"

definition is_absolute_naming_string :: "jstring \<Rightarrow> bool" where
  "is_absolute_naming_string naming \<longleftrightarrow> starts_with naming ''abs.''"

text \<open>\<open>parseInt(s)\<close>; \<open>None\<close> is \<open>NaN\<close>.\<close>

definition parse_int_digits :: "jstring \<Rightarrow> int option" where
  "parse_int_digits s =
     (if take 2 s = ''0x'' \<or> take 2 s = ''0X'' then
        (let ds = takeWhile (\<lambda>c. hex_value c \<noteq> None) (drop 2 s)
         in if ds = [] then None else radix_value 16 0 ds)
      else
        (let ds = takeWhile is_digit s in if ds = [] then None else Some (int_of_digits ds)))"

definition parse_int :: "jstring \<Rightarrow> int option" where
  "parse_int s0 =
     (let s = dropWhile is_space s0 in
      if s \<noteq> [] \<and> hd s = CHR ''-'' then map_option uminus (parse_int_digits (tl s))
      else if s \<noteq> [] \<and> hd s = CHR ''+'' then parse_int_digits (tl s)
      else parse_int_digits s)"

text \<open>A relative name is a number; the program builds them from integer distances.\<close>

definition is_relative_naming :: "int \<Rightarrow> bool" where
  "is_relative_naming naming \<longleftrightarrow> 0 \<le> naming"

definition compile_relative_naming_to_string :: "int \<Rightarrow> jstring" where
  "compile_relative_naming_to_string naming =
     (if naming < 0 then ''-'' @ digits_of_int (- naming) else digits_of_int naming)"

definition get_relative_naming_from_string :: "jstring \<Rightarrow> int option" where
  "get_relative_naming_from_string naming = parse_int naming"

definition make_relative_naming :: "int \<Rightarrow> int" where
  "make_relative_naming distance = distance"

definition is_relative_naming_string :: "jstring \<Rightarrow> bool" where
  "is_relative_naming_string naming \<longleftrightarrow> parse_int naming \<noteq> None"

definition relative_naming_get_distance :: "int \<Rightarrow> int" where
  "relative_naming_get_distance chain = chain"

definition construct_relative_naming_array :: "int list \<Rightarrow> int list" where
  "construct_relative_naming_array namings = namings"

definition relative_naming_array_join :: "int list \<Rightarrow> int \<Rightarrow> int list" where
  "relative_naming_array_join a b = a @ [b]"

definition combine_relative_naming_array :: "int list \<Rightarrow> int list \<Rightarrow> int list" where
  "combine_relative_naming_array a b = a @ b"

definition naming_equal :: "int \<Rightarrow> int \<Rightarrow> bool" where
  "naming_equal a b \<longleftrightarrow> compile_relative_naming_to_string a = compile_relative_naming_to_string b"

section \<open>Lemmas\<close>

lemma index_of_char: "c \<notin> set s \<Longrightarrow> index_of [c] (s @ c # t) = Some (length s)"
  by (induction s) (auto simp: starts_with_def)

lemma index_of_char_None: "c \<notin> set s \<Longrightarrow> index_of [c] s = None"
  by (induction s) (auto simp: starts_with_def)

lemma split_join_char:
  assumes "parts \<noteq> []" and "\<forall>p \<in> set parts. c \<notin> set p"
  shows "split_on [c] (join_with [c] parts) = parts"
  using assms
proof (induction parts rule: list_nonempty_induct)
  case (single s)
  then show ?case by (simp add: split_on_index index_of_char_None)
next
  case (cons s ts)
  then show ?case
    by (simp add: join_with_Cons split_on_index [of "[c]" "s @ _"] index_of_char)
qed

lemma takeWhile_all: "list_all P xs \<Longrightarrow> takeWhile P xs = xs"
  by (induction xs) auto

lemma digits_not_hex: "0 \<le> n \<Longrightarrow> take 2 (digits_of_int n) \<noteq> ''0x'' \<and> take 2 (digits_of_int n) \<noteq> ''0X''"
proof -
  assume "0 \<le> n"
  then have "list_all is_digit (take 2 (digits_of_int n))" by simp
  then show ?thesis by (auto simp: is_digit_def)
qed

lemma digits_start:
  assumes "0 \<le> n"
  shows "dropWhile is_space (digits_of_int n) = digits_of_int n"
    and "hd (digits_of_int n) \<noteq> CHR ''-''" and "hd (digits_of_int n) \<noteq> CHR ''+''"
proof -
  obtain d ds where d: "digits_of_int n = d # ds" "is_digit d"
    using digits_of_int(1,3) [OF assms] by (cases "digits_of_int n") auto
  then have "\<not> is_space d" by (auto simp: is_digit_def is_space_def)
  with d show "dropWhile is_space (digits_of_int n) = digits_of_int n"
    "hd (digits_of_int n) \<noteq> CHR ''-''" "hd (digits_of_int n) \<noteq> CHR ''+''"
    by (auto simp: is_digit_def)
qed

lemma parse_int_digits_of_int: "0 \<le> n \<Longrightarrow> parse_int_digits (digits_of_int n) = Some n"
  by (simp add: parse_int_digits_def digits_not_hex takeWhile_all)

lemma parse_compile_relative: "parse_int (compile_relative_naming_to_string n) = Some n"
proof (cases "n < 0")
  case True
  then show ?thesis
    using parse_int_digits_of_int [of "- n"]
    by (simp add: parse_int_def compile_relative_naming_to_string_def is_space_def)
next
  case False
  then show ?thesis
    by (simp add: parse_int_def compile_relative_naming_to_string_def Let_def digits_start parse_int_digits_of_int)
qed

section \<open>Properties\<close>

lemma card_cell_label_roundtrip_parts:
  assumes "CHR ''|'' \<notin> set card_id" and "CHR ''|'' \<notin> set slot"
  shows "parse_cell_label (create_cell_label (create_card_cell_name card_id slot)) =
      (CELL_HEADER, [CELL_HEADER, CARD_HEADER, card_id, slot])"
    and "starts_with (create_cell_label (create_card_cell_name card_id slot)) TRACED_GRAPH_LABEL_PREFIX_CARD_CELLS"
    and "\<not> starts_with (create_cell_label (create_card_cell_name card_id slot)) ''CARD|''"
proof -
  let ?parts = "[CELL_HEADER, CARD_HEADER, card_id, slot]"
  have label: "create_cell_label (create_card_cell_name card_id slot) = join_with ''|'' ?parts"
    by (simp add: create_cell_label_def create_card_cell_name_def make_name_def SEP_def)
  have "split_on ''|'' (join_with ''|'' ?parts) = ?parts"
    by (rule split_join_char) (use assms in \<open>auto simp: CELL_HEADER_def CARD_HEADER_def\<close>)
  then show "parse_cell_label (create_cell_label (create_card_cell_name card_id slot)) = (CELL_HEADER, ?parts)"
    unfolding label parse_cell_label_def SEP_def by (simp add: Let_def)
  show "starts_with (create_cell_label (create_card_cell_name card_id slot)) TRACED_GRAPH_LABEL_PREFIX_CARD_CELLS"
    "\<not> starts_with (create_cell_label (create_card_cell_name card_id slot)) ''CARD|''"
    unfolding label
    by (simp_all add: TRACED_GRAPH_LABEL_PREFIX_CARD_CELLS_def make_name_def SEP_def starts_with_def
        CELL_HEADER_def CARD_HEADER_def)
qed

text \<open>
  C28: The label of a card's slot cell in the traced graph is parsed back into its parts, and it
  starts with the label prefix published for card cells; the bare prefix \<open>CARD|\<close> never matches it.
\<close>

theorem card_cell_label_roundtrip:
  assumes "CHR ''|'' \<notin> set card_id" and "CHR ''|'' \<notin> set slot"
  shows "(parse_cell_label (create_cell_label (create_card_cell_name card_id slot)) =
      (CELL_HEADER, [CELL_HEADER, CARD_HEADER, card_id, slot])) \<and>
    (starts_with (create_cell_label (create_card_cell_name card_id slot)) TRACED_GRAPH_LABEL_PREFIX_CARD_CELLS) \<and>
    (\<not> starts_with (create_cell_label (create_card_cell_name card_id slot)) ''CARD|'')"
  by (intro conjI impI; rule card_cell_label_roundtrip_parts [OF assms]; assumption?)

theorem card_cell_label_roundtrip_witness:
  "parse_cell_label (create_cell_label (create_card_cell_name ''c1'' ''::this'')) =
     (''CELL'', [''CELL'', ''CARD'', ''c1'', ''::this''])"
  using card_cell_label_roundtrip [of "''c1''" "''::this''"]
  by (simp add: CELL_HEADER_def CARD_HEADER_def)

lemma naming_chain_roundtrips_parts:
  shows "get_relative_naming_from_string (compile_relative_naming_to_string n) = Some n"
    and "naming_equal a b \<longleftrightarrow> a = b"
    and "\<not> is_absolute_naming (make_absolute_naming parts)"
    and "\<forall>p \<in> set parts. CHR ''.'' \<notin> set p \<Longrightarrow>
      get_absolute_naming_from_string (make_absolute_naming_string parts) = ''abs'' # make_absolute_naming parts"
proof -
  show "get_relative_naming_from_string (compile_relative_naming_to_string n) = Some n"
    by (simp add: get_relative_naming_from_string_def parse_compile_relative)
  show "naming_equal a b \<longleftrightarrow> a = b"
    by (metis naming_equal_def option.inject parse_compile_relative)
  show "\<not> is_absolute_naming (make_absolute_naming parts)"
    by (simp add: is_absolute_naming_def make_absolute_naming_def)
  assume "\<forall>p \<in> set parts. CHR ''.'' \<notin> set p"
  then have "split_on ''.'' (join_with ''.'' (''abs'' # parts)) = ''abs'' # parts"
    by (intro split_join_char) auto
  then show "get_absolute_naming_from_string (make_absolute_naming_string parts) = ''abs'' # make_absolute_naming parts"
    by (simp add: get_absolute_naming_from_string_def make_absolute_naming_string_def
        compile_absolute_naming_to_string_def make_absolute_naming_def)
qed

text \<open>
  Naming chains. A relative name survives its string form, so equal strings mean equal
  distances. An absolute name does not: no name that \<open>make_absolute_naming\<close> builds passes
  \<open>is_absolute_naming\<close>, and reading back the string of a name puts \<open>abs\<close> in front of it again.
\<close>

lemma naming_chain_roundtrips:
  shows "(get_relative_naming_from_string (compile_relative_naming_to_string n) = Some n) \<and>
    (naming_equal a b \<longleftrightarrow> a = b) \<and>
    (\<not> is_absolute_naming (make_absolute_naming parts)) \<and>
    ((\<forall>p \<in> set parts. CHR ''.'' \<notin> set p) \<longrightarrow>
      get_absolute_naming_from_string (make_absolute_naming_string parts) = ''abs'' # make_absolute_naming parts)"
  by (intro conjI impI; rule naming_chain_roundtrips_parts; assumption?)

end
