(* ===== verification/Card_Metadata.thy ===== *)
theory Card_Metadata
  imports Exec Naming
begin

text \<open>
  The card runtime: \<open>card/card_metadata.ts\<close> and \<open>card/card_lifecycle.ts\<close>, with the parts of
  \<open>card/schema.ts\<close> and \<open>better_runtime\<close> they call.

  The propagator library is outside the repository. What the code does to it is recorded as
  a log of effects (newest first), in which the cells and propagators it creates are numbered
  handles; what the code asks it (the base value of a cell's strongest content, equality of
  values, the neighbours of an environment cell, whether a cell's vector clock has a channel)
  is a field of the parameter \<open>library\<close>, a function of the log. The state is the log, the next
  free handle and the storage of card metadata. A thrown \<open>Error\<close> is a value of \<open>card_error\<close>;
  the changes made before the throw remain.
\<close>

section \<open>State\<close>

type_synonym handle = nat

datatype effect =
    ConstructCell handle jstring "jstring option"
  | InitMap handle
  | SourceCell handle jstring
  | Unfold handle "handle list"
  | CardIO handle handle handle handle
  | EmitToRuntime handle jstring handle
  | DictAccessor handle jstring handle
  | ExtendEnv handle handle "(jstring \<times> handle) list"
  | SelectiveSync handle handle
  | CompileNetwork handle handle handle handle int
  | SyncToLink handle handle
  | PointLink handle handle
  | Dispose handle
  | ExecuteAll
  | ReactiveUpdate handle jsval jstring bool
  | DictCarrier handle "(jstring \<times> handle) list" handle
  | Connector handle handle handle handle handle

record card_metadata =
  md_id :: jstring
  md_card :: handle
  md_cells :: "(jstring, handle) jmap"
  md_propagators :: "(jstring, handle) jmap"
  md_links :: "(jstring, handle list) jmap"
  md_source :: handle
  md_timestamp :: int
  md_local_env :: "handle option"

record card_world =
  next_handle :: handle
  effects :: "effect list"
  cards :: "(jstring, card_metadata) jmap"

record library =
  lib_base_value :: "effect list \<Rightarrow> handle \<Rightarrow> jsval"
  lib_get_base :: "jsval \<Rightarrow> jsval"
  lib_is_equal :: "jsval \<Rightarrow> jsval \<Rightarrow> bool"
  lib_neighbors :: "effect list \<Rightarrow> handle \<Rightarrow> handle option list"
  lib_has_channel :: "effect list \<Rightarrow> handle \<Rightarrow> jstring \<Rightarrow> bool"

datatype card_error =
    CardNotFound jstring
  | KeyNotFound jstring
  | ConnectorNotFound jstring jstring

type_synonym 'a card_act = "(card_world, card_error, 'a) act"

section \<open>Library calls\<close>

definition emit :: "effect \<Rightarrow> unit card_act" where
  "emit e = changes (\<lambda>w. w\<lparr>effects := e # effects w\<rparr>)"

definition create :: "(handle \<Rightarrow> effect) \<Rightarrow> handle card_act" where
  "create mk w = (Inr (next_handle w),
     w\<lparr>next_handle := next_handle w + 1, effects := mk (next_handle w) # effects w\<rparr>)"

definition construct_cell :: "jstring \<Rightarrow> jstring option \<Rightarrow> handle card_act" where
  "construct_cell name cid = create (\<lambda>h. ConstructCell h name cid)"

definition execute_all_tasks_sequential :: "unit card_act" where
  "execute_all_tasks_sequential = emit ExecuteAll"

definition update_specialized_reactive_value :: "library \<Rightarrow> handle \<Rightarrow> jstring \<Rightarrow> jsval \<Rightarrow> unit card_act" where
  "update_specialized_reactive_value L cell identifier v =
     andthen (reads (\<lambda>w. lib_has_channel L (effects w) cell identifier))
       (\<lambda>forward. emit (ReactiveUpdate cell v identifier forward))"

section \<open>Storage\<close>

definition remove_card_metadata :: "jstring \<Rightarrow> unit card_act" where
  "remove_card_metadata cid = changes (\<lambda>w. w\<lparr>cards := AList.delete cid (cards w)\<rparr>)"

definition get_card_metadata :: "jstring \<Rightarrow> card_metadata option card_act" where
  "get_card_metadata cid = reads (\<lambda>w. map_of (cards w) cid)"

definition guarantee_get_card_metadata :: "jstring \<Rightarrow> card_metadata card_act" where
  "guarantee_get_card_metadata cid =
     andthen (get_card_metadata cid)
       (\<lambda>md. case md of None \<Rightarrow> throw (CardNotFound cid) | Some m \<Rightarrow> ret m)"

definition set_card_metadata :: "jstring \<Rightarrow> card_metadata \<Rightarrow> unit card_act" where
  "set_card_metadata cid md = changes (\<lambda>w. w\<lparr>cards := AList.update cid md (cards w)\<rparr>)"

definition clear_card_metadata :: "unit card_act" where
  "clear_card_metadata = changes (\<lambda>w. w\<lparr>cards := []\<rparr>)"

text \<open>A change of the stored metadata object of a card.\<close>

definition change_stored :: "jstring \<Rightarrow> (card_metadata \<Rightarrow> card_metadata) \<Rightarrow> card_world \<Rightarrow> card_world" where
  "change_stored cid f w =
     (case map_of (cards w) cid of
        None \<Rightarrow> w
      | Some md \<Rightarrow> w\<lparr>cards := AList.update cid (f md) (cards w)\<rparr>)"

definition change_metadata :: "jstring \<Rightarrow> (card_metadata \<Rightarrow> card_metadata) \<Rightarrow> unit card_act" where
  "change_metadata cid f = changes (change_stored cid f)"

definition guarantee_get :: "(jstring, handle) jmap \<Rightarrow> jstring \<Rightarrow> handle card_act" where
  "guarantee_get tracker key =
     (case map_of tracker key of Some h \<Rightarrow> ret h | None \<Rightarrow> throw (KeyNotFound key))"

text \<open>The tracked cell of a stored card.\<close>

definition tracked_cell :: "jstring \<Rightarrow> jstring \<Rightarrow> handle card_act" where
  "tracked_cell cid key =
     andthen (guarantee_get_card_metadata cid) (\<lambda>md. guarantee_get (md_cells md) key)"

section \<open>Construction\<close>

definition construct_card_metadata :: "jstring \<Rightarrow> card_metadata card_act" where
  "construct_card_metadata cid =
     andthen (construct_cell (make_name [card_header, cid]) (Some cid)) (\<lambda>card_cell.
     andthen (emit (InitMap card_cell)) (\<lambda>_.
     andthen (create (\<lambda>h. SourceCell h (''card-compile:'' @ cid))) (\<lambda>compile_source.
     andthen (construct_cell (create_card_cell_name cid slot_this) None) (\<lambda>card_this.
     andthen (construct_cell (create_card_cell_name cid slot_left) None) (\<lambda>card_left.
     andthen (construct_cell (create_card_cell_name cid slot_right) None) (\<lambda>card_right.
     andthen (construct_cell (create_card_cell_name cid slot_above) None) (\<lambda>card_above.
     andthen (construct_cell (create_card_cell_name cid slot_below) None) (\<lambda>card_below.
     andthen (create (\<lambda>h. Unfold h [card_cell, card_this, card_left, card_right, card_above, card_below])) (\<lambda>unfolder.
     andthen execute_all_tasks_sequential (\<lambda>_.
     andthen (construct_cell (''updater'' @ cid) None) (\<lambda>updater.
     andthen (construct_cell (''emitter'' @ cid) None) (\<lambda>emitter.
     andthen (create (\<lambda>h. CardIO h card_this updater emitter)) (\<lambda>io.
     andthen (create (\<lambda>h. EmitToRuntime h cid card_this)) (\<lambda>emitter_propagator.
     andthen execute_all_tasks_sequential (\<lambda>_.
     let md = \<lparr>md_id = cid, md_card = card_cell,
          md_cells = [(slot_this, card_this), (slot_left, card_left), (slot_right, card_right),
            (slot_above, card_above), (slot_below, card_below), (''updater'', updater), (''emitter'', emitter)],
          md_propagators = [(''unfolder'', unfolder), (''io_propagator'', io),
            (''emitter_propagator'', emitter_propagator)],
          md_links = [], md_source = compile_source, md_timestamp = 0, md_local_env = None\<rparr>
     in andthen (set_card_metadata cid md) (\<lambda>_. ret md))))))))))))))))"

section \<open>Building\<close>

definition card_metadata_compiled :: "card_metadata \<Rightarrow> bool" where
  "card_metadata_compiled md \<longleftrightarrow> map_of (md_propagators md) ''compiled_network'' \<noteq> None"

definition extends_local_environment :: "handle \<Rightarrow> (jstring \<times> handle) list \<Rightarrow> handle card_act" where
  "extends_local_environment env pairs =
     andthen (create (\<lambda>h. ExtendEnv h env pairs)) (\<lambda>local_env.
     andthen (emit (SelectiveSync local_env env)) (\<lambda>_.
     ret local_env))"

definition internal_cell_getter :: "jstring \<Rightarrow> handle \<Rightarrow> handle card_act" where
  "internal_cell_getter key card_cell = create (\<lambda>h. DictAccessor h key card_cell)"

definition get_local_env :: "handle \<Rightarrow> handle \<Rightarrow> handle card_act" where
  "get_local_env env card_cell =
     andthen (internal_cell_getter slot_this card_cell) (\<lambda>this_cell.
     andthen (internal_cell_getter slot_left card_cell) (\<lambda>left_cell.
     andthen (internal_cell_getter slot_right card_cell) (\<lambda>right_cell.
     andthen (internal_cell_getter slot_above card_cell) (\<lambda>above_cell.
     andthen (internal_cell_getter slot_below card_cell) (\<lambda>below_cell.
     extends_local_environment env
       [(slot_this, this_cell), (slot_left, left_cell), (slot_right, right_cell),
        (slot_above, above_cell), (slot_below, below_cell)])))))"

definition dispose_propagator :: "handle \<Rightarrow> unit card_act" where
  "dispose_propagator p = emit (Dispose p)"

definition dispose_compiled :: "jstring \<Rightarrow> unit card_act" where
  "dispose_compiled cid =
     andthen (guarantee_get_card_metadata cid) (\<lambda>md.
       case map_of (md_propagators md) ''compiled_network'' of
         None \<Rightarrow> ret ()
       | Some network \<Rightarrow>
           andthen (dispose_propagator network) (\<lambda>_. execute_all_tasks_sequential))"

definition dispose_local_env :: "library \<Rightarrow> jstring \<Rightarrow> unit card_act" where
  "dispose_local_env L cid =
     andthen (guarantee_get_card_metadata cid) (\<lambda>md.
       case md_local_env md of
         None \<Rightarrow> ret ()
       | Some old_local_env \<Rightarrow>
           andthen (reads (\<lambda>w. lib_neighbors L (effects w) old_local_env)) (\<lambda>neighbors.
           andthen (for_each (\<lambda>p. case p of None \<Rightarrow> ret () | Some q \<Rightarrow> dispose_propagator q) neighbors) (\<lambda>_.
           change_metadata cid (\<lambda>md. md\<lparr>md_local_env := None\<rparr>))))"

definition card_metadata_build :: "library \<Rightarrow> handle \<Rightarrow> jstring \<Rightarrow> unit card_act" where
  "card_metadata_build L env cid =
     andthen (dispose_compiled cid) (\<lambda>_.
     andthen (dispose_local_env L cid) (\<lambda>_.
     andthen (guarantee_get_card_metadata cid) (\<lambda>md.
     let ts = md_timestamp md in
     andthen (get_local_env env (md_card md)) (\<lambda>local_env.
     andthen (change_metadata cid (\<lambda>md. md\<lparr>md_local_env := Some local_env\<rparr>)) (\<lambda>_.
     andthen (guarantee_get (md_cells md) slot_this) (\<lambda>this_cell.
     andthen (create (\<lambda>h. CompileNetwork h this_cell local_env (md_source md) ts)) (\<lambda>compiled_network.
     andthen (change_metadata cid (\<lambda>md. md\<lparr>
        md_propagators := AList.update ''compiled_network'' compiled_network (md_propagators md),
        md_timestamp := ts + 1\<rparr>)) (\<lambda>_.
     execute_all_tasks_sequential))))))))"

section \<open>Updating\<close>

definition card_metadata_update :: "library \<Rightarrow> jstring \<Rightarrow> jsval \<Rightarrow> bool card_act" where
  "card_metadata_update L cid current =
     andthen (tracked_cell cid slot_this) (\<lambda>this_cell.
     andthen (tracked_cell cid ''updater'') (\<lambda>updater.
     andthen (reads (\<lambda>w. lib_base_value L (effects w) this_cell)) (\<lambda>previous.
     if lib_is_equal L previous (lib_get_base L current) then ret False
     else andthen (update_specialized_reactive_value L updater cid current) (\<lambda>_. ret True))))"

section \<open>Connecting\<close>

definition disconnected :: "jstring \<Rightarrow> jstring" where
  "disconnected key = ''disconnected:'' @ key"

definition link_key :: "jstring \<Rightarrow> jstring \<Rightarrow> jstring" where
  "link_key a b = a @ ''->'' @ b"

definition point_all :: "handle list \<Rightarrow> handle \<Rightarrow> unit card_act" where
  "point_all links target = for_each (\<lambda>link. emit (PointLink link target)) links"

definition delete_link :: "jstring \<Rightarrow> jstring \<Rightarrow> unit card_act" where
  "delete_link cid key = change_metadata cid (\<lambda>md. md\<lparr>md_links := AList.delete key (md_links md)\<rparr>)"

definition set_link :: "jstring \<Rightarrow> jstring \<Rightarrow> handle list \<Rightarrow> unit card_act" where
  "set_link cid key links = change_metadata cid (\<lambda>md. md\<lparr>md_links := AList.update key links (md_links md)\<rparr>)"

definition clear_previous :: "jstring \<Rightarrow> jstring \<Rightarrow> unit card_act" where
  "clear_previous a b =
     andthen (guarantee_get_card_metadata a) (\<lambda>mdA.
       case map_of (md_links mdA) (link_key a b) of
         None \<Rightarrow> ret ()
       | Some existing \<Rightarrow>
           andthen (construct_cell (disconnected (link_key a b @ '':prev'')) None) (\<lambda>dummy.
           andthen (point_all existing dummy) (\<lambda>_.
           andthen (delete_link a (link_key a b)) (\<lambda>_.
           delete_link b (link_key b a)))))"

definition link_source :: "jstring \<Rightarrow> jstring \<Rightarrow> handle card_act" where
  "link_source key direction = create (\<lambda>h. SourceCell h (''link:'' @ key @ '':'' @ direction))"

text \<open>
  The four links of a connection: the source cells, the permanent propagators that follow
  them, their targets, and their registration with both cards.
\<close>

definition activate_links ::
    "jstring \<Rightarrow> jstring \<Rightarrow> handle \<Rightarrow> handle \<Rightarrow> handle \<Rightarrow> handle \<Rightarrow> unit card_act" where
  "activate_links a b kA kB Athis Bthis =
     andthen (link_source (link_key a b) ''kA->Bthis'') (\<lambda>kA_Bthis.
     andthen (link_source (link_key a b) ''Bthis->kA'') (\<lambda>Bthis_kA.
     andthen (link_source (link_key a b) ''kB->Athis'') (\<lambda>kB_Athis.
     andthen (link_source (link_key a b) ''Athis->kB'') (\<lambda>Athis_kB.
     andthen (emit (SyncToLink kA kA_Bthis)) (\<lambda>_.
     andthen (emit (SyncToLink Bthis Bthis_kA)) (\<lambda>_.
     andthen (emit (SyncToLink kB kB_Athis)) (\<lambda>_.
     andthen (emit (SyncToLink Athis Athis_kB)) (\<lambda>_.
     andthen (emit (PointLink kA_Bthis Bthis)) (\<lambda>_.
     andthen (emit (PointLink Bthis_kA kA)) (\<lambda>_.
     andthen (emit (PointLink kB_Athis Athis)) (\<lambda>_.
     andthen (emit (PointLink Athis_kB kB)) (\<lambda>_.
     let links = [kA_Bthis, Bthis_kA, kB_Athis, Athis_kB] in
     andthen (set_link a (link_key a b) links) (\<lambda>_.
     set_link b (link_key b a) links)))))))))))))"

definition card_metadata_connect :: "jstring \<Rightarrow> jstring \<Rightarrow> jstring \<Rightarrow> jstring \<Rightarrow> unit card_act" where
  "card_metadata_connect a b connector_keyA connector_keyB =
     andthen (clear_previous a b) (\<lambda>_.
     andthen (tracked_cell a connector_keyA) (\<lambda>kA.
     andthen (tracked_cell b connector_keyB) (\<lambda>kB.
     andthen (tracked_cell a slot_this) (\<lambda>Athis.
     andthen (tracked_cell b slot_this) (\<lambda>Bthis.
     activate_links a b kA kB Athis Bthis)))))"

definition card_metadata_remove :: "jstring \<Rightarrow> unit card_act" where
  "card_metadata_remove cid =
     andthen (guarantee_get_card_metadata cid) (\<lambda>md.
     andthen (for_each (\<lambda>(_, p). dispose_propagator p) (md_propagators md)) (\<lambda>_.
     andthen (for_each (\<lambda>(key, links).
        andthen (construct_cell (disconnected key) None) (\<lambda>dummy. point_all links dummy)) (md_links md)) (\<lambda>_.
     andthen (change_metadata cid (\<lambda>md. md\<lparr>md_links := []\<rparr>)) (\<lambda>_.
     remove_card_metadata (md_id md)))))"

definition card_metadata_detach :: "jstring \<Rightarrow> jstring \<Rightarrow> unit card_act" where
  "card_metadata_detach a b =
     andthen (guarantee_get_card_metadata a) (\<lambda>mdA.
       case map_of (md_links mdA) (link_key a b) of
         None \<Rightarrow> throw (ConnectorNotFound a b)
       | Some links \<Rightarrow>
           andthen (construct_cell (disconnected (link_key a b)) None) (\<lambda>dummy.
           andthen (point_all links dummy) (\<lambda>_.
           andthen (delete_link a (link_key a b)) (\<lambda>_.
           delete_link b (link_key b a)))))"

section \<open>Lifecycle\<close>

definition add_card :: "jstring \<Rightarrow> jstring card_act" where
  "add_card cid = andthen (construct_card_metadata cid) (\<lambda>_. ret cid)"

definition build_card :: "library \<Rightarrow> handle \<Rightarrow> jstring \<Rightarrow> jstring card_act" where
  "build_card L env cid =
     andthen (guarantee_get_card_metadata cid) (\<lambda>_.
     andthen (card_metadata_build L env cid) (\<lambda>_. ret cid))"

definition update_card :: "library \<Rightarrow> jstring \<Rightarrow> jsval \<Rightarrow> bool card_act" where
  "update_card L cid v =
     andthen (guarantee_get_card_metadata cid) (\<lambda>_. card_metadata_update L cid v)"

definition remove_card :: "jstring \<Rightarrow> unit card_act" where
  "remove_card cid = andthen (guarantee_get_card_metadata cid) (\<lambda>_. card_metadata_remove cid)"

definition connect_cards :: "jstring \<Rightarrow> jstring \<Rightarrow> jstring \<Rightarrow> jstring \<Rightarrow> unit card_act" where
  "connect_cards a b connector_keyA connector_keyB =
     andthen (guarantee_get_card_metadata a) (\<lambda>_.
     andthen (guarantee_get_card_metadata b) (\<lambda>_.
     card_metadata_connect a b connector_keyA connector_keyB))"

definition detach_cards_by_key :: "jstring \<Rightarrow> jstring \<Rightarrow> unit card_act" where
  "detach_cards_by_key a b =
     andthen (guarantee_get_card_metadata a) (\<lambda>_.
     andthen (guarantee_get_card_metadata b) (\<lambda>_.
     card_metadata_detach a b))"

definition detach_cards :: "jstring \<Rightarrow> jstring \<Rightarrow> unit card_act" where
  "detach_cards a b = detach_cards_by_key a b"

end
