(* ===== verification/Card_Links.thy ===== *)
theory Card_Links
  imports Card_Metadata
begin

text \<open>
  The card runtime is correct: what the operations of \<open>Card_Metadata\<close> do to the links between
  cards and to the networks they compile. \<open>links_of\<close> and \<open>live_links\<close> read the connection
  tables and the effect log; \<open>table_ok\<close> is the abstract contract between them, and each
  operation is shown to act on the tables as an abstract cut, join or drop that keeps it.
  \<open>card_reach\<close> are the states the lifecycle reaches.
\<close>

section \<open>Reading the log\<close>

text \<open>
  The cell a link currently points at, the name a cell was constructed with, and the links
  that are live: pointed at a cell other than a placeholder for a cut connection.
\<close>

fun link_target :: "effect list \<Rightarrow> handle \<Rightarrow> handle option" where
  "link_target [] l = None"
| "link_target (PointLink l' c # es) l = (if l = l' then Some c else link_target es l)"
| "link_target (_ # es) l = link_target es l"

fun cell_name_of :: "effect list \<Rightarrow> handle \<Rightarrow> jstring option" where
  "cell_name_of [] c = None"
| "cell_name_of (ConstructCell c' name ident # es) c = (if c = c' then Some name else cell_name_of es c)"
| "cell_name_of (_ # es) c = cell_name_of es c"

definition is_placeholder :: "effect list \<Rightarrow> handle \<Rightarrow> bool" where
  "is_placeholder es c =
     (case cell_name_of es c of None \<Rightarrow> False | Some name \<Rightarrow> starts_with name ''disconnected:'')"

definition live_link :: "effect list \<Rightarrow> handle \<Rightarrow> bool" where
  "live_link es l = (case link_target es l of None \<Rightarrow> False | Some c \<Rightarrow> \<not> is_placeholder es c)"

definition links_of :: "card_world \<Rightarrow> jstring \<Rightarrow> jstring \<Rightarrow> handle list option" where
  "links_of w a k = (case map_of (cards w) a of None \<Rightarrow> None | Some md \<Rightarrow> map_of (md_links md) k)"

definition live_links :: "card_world \<Rightarrow> handle set" where
  "live_links w = {l. live_link (effects w) l}"

definition has_card :: "card_world \<Rightarrow> jstring \<Rightarrow> bool" where
  "has_card w a \<longleftrightarrow> map_of (cards w) a \<noteq> None"

definition world_ok :: "card_world \<Rightarrow> bool" where
  "world_ok w \<longleftrightarrow> distinct (map fst (cards w))
     \<and> (\<forall>a md. map_of (cards w) a = Some md \<longrightarrow> md_id md = a \<and> (\<forall>h \<in> snd ` set (md_cells md). h < next_handle w)
          \<and> (\<forall>h \<in> snd ` set (md_cells md). \<not> is_placeholder (effects w) h)
          \<and> map fst (md_cells md) = all_slots @ [''updater'', ''emitter''])
     \<and> (\<forall>l c. link_target (effects w) l = Some c \<longrightarrow> c < next_handle w)
     \<and> (\<forall>a k ls. links_of w a k = Some ls \<longrightarrow> (\<forall>l \<in> set ls. l < next_handle w))"

section \<open>The abstract connection table\<close>

text \<open>
  \<open>table_ok\<close>: every entry of a card's table is either dead or recorded by the partner too, and
  every live link is recorded by both partners.
\<close>

type_synonym link_table = "jstring \<Rightarrow> jstring \<Rightarrow> handle list option"

definition table_ok :: "link_table \<Rightarrow> handle set \<Rightarrow> bool" where
  "table_ok t live \<longleftrightarrow>
     (\<forall>a k ls. t a k = Some ls \<longrightarrow> (\<exists>b. k = link_key a b \<and> (set ls \<inter> live = {} \<or> t b (link_key b a) = Some ls)))
     \<and> (\<forall>l \<in> live. \<exists>a b ls. l \<in> set ls \<and> t a (link_key a b) = Some ls \<and> t b (link_key b a) = Some ls)"

definition table_set :: "link_table \<Rightarrow> jstring \<Rightarrow> jstring \<Rightarrow> handle list option \<Rightarrow> link_table" where
  "table_set t a k v = (\<lambda>x y. if x = a \<and> y = k then v else t x y)"

lemma link_key_inj [simp]: "link_key a b = link_key a c \<longleftrightarrow> b = c"
  by (simp add: link_key_def)

lemma table_cut:
  assumes ok: "table_ok t live" and ls: "t a (link_key a b) = Some ls"
  shows "table_ok (table_set (table_set t a (link_key a b) None) b (link_key b a) None) (live - set ls)"
    (is "table_ok ?t ?l")
  unfolding table_ok_def
proof (intro conjI allI impI ballI)
  fix x k ks assume "?t x k = Some ks"
  then have x: "t x k = Some ks" "\<not> (x = a \<and> k = link_key a b)" "\<not> (x = b \<and> k = link_key b a)"
    by (auto simp: table_set_def split: if_splits)
  then obtain y where y: "k = link_key x y" "set ks \<inter> live = {} \<or> t y (link_key y x) = Some ks"
    using ok unfolding table_ok_def by metis
  then show "\<exists>y. k = link_key x y \<and> (set ks \<inter> ?l = {} \<or> ?t y (link_key y x) = Some ks)"
    using x by (intro exI [of _ y]) (auto simp: table_set_def)
next
  fix l assume l: "l \<in> ?l"
  then obtain x y ks where *: "l \<in> set ks" "t x (link_key x y) = Some ks" "t y (link_key y x) = Some ks"
    using ok unfolding table_ok_def by blast
  then have "\<not> (x = a \<and> y = b)" "\<not> (x = b \<and> y = a)" using l ls by auto
  with * show "\<exists>x y ks. l \<in> set ks \<and> ?t x (link_key x y) = Some ks \<and> ?t y (link_key y x) = Some ks"
    by (intro exI [of _ x] exI [of _ y] exI [of _ ks]) (auto simp: table_set_def)
qed

lemma table_join:
  assumes ok: "table_ok t live" and none: "t a (link_key a b) = None"
    and live': "live' \<subseteq> live \<union> set ls" and dead: "\<And>x k ks. t x k = Some ks \<Longrightarrow> set ks \<inter> set ls = {}"
  shows "table_ok (table_set (table_set t a (link_key a b) (Some ls)) b (link_key b a) (Some ls)) live'"
    (is "table_ok ?t _")
  unfolding table_ok_def
proof (intro conjI allI impI ballI)
  fix x k ks assume x: "?t x k = Some ks"
  show "\<exists>y. k = link_key x y \<and> (set ks \<inter> live' = {} \<or> ?t y (link_key y x) = Some ks)"
  proof (cases "(x = a \<and> k = link_key a b) \<or> (x = b \<and> k = link_key b a)")
    case True
    with x show ?thesis by (auto simp: table_set_def split: if_splits)
  next
    case False
    with x have t: "t x k = Some ks" by (auto simp: table_set_def split: if_splits)
    then obtain y where y: "k = link_key x y" "set ks \<inter> live = {} \<or> t y (link_key y x) = Some ks"
      using ok unfolding table_ok_def by metis
    with False dead [OF t] live' show ?thesis
      by (intro exI [of _ y]) (auto simp: table_set_def)
  qed
next
  fix l assume l: "l \<in> live'"
  show "\<exists>x y ks. l \<in> set ks \<and> ?t x (link_key x y) = Some ks \<and> ?t y (link_key y x) = Some ks"
  proof (cases "l \<in> set ls")
    case True
    then show ?thesis by (intro exI [of _ a] exI [of _ b] exI [of _ ls]) (auto simp: table_set_def)
  next
    case False
    then obtain x y ks where *: "l \<in> set ks" "t x (link_key x y) = Some ks" "t y (link_key y x) = Some ks"
      using l live' ok unfolding table_ok_def by blast
    then have "\<not> (x = a \<and> y = b)" "\<not> (x = b \<and> y = a)" using none by auto
    with * show ?thesis
      by (intro exI [of _ x] exI [of _ y] exI [of _ ks]) (auto simp: table_set_def)
  qed
qed

lemma table_drop:
  assumes ok: "table_ok t live"
    and dead: "\<And>k ls. t a k = Some ls \<Longrightarrow> set ls \<inter> live' = {}" and live': "live' \<subseteq> live"
  shows "table_ok (\<lambda>x k. if x = a then None else t x k) live'" (is "table_ok ?t _")
  unfolding table_ok_def
proof (intro conjI allI impI ballI)
  fix x k ks assume "?t x k = Some ks"
  then have x: "x \<noteq> a" "t x k = Some ks" by (auto split: if_splits)
  then obtain y where y: "k = link_key x y" "set ks \<inter> live = {} \<or> t y (link_key y x) = Some ks"
    using ok unfolding table_ok_def by metis
  then show "\<exists>y. k = link_key x y \<and> (set ks \<inter> live' = {} \<or> ?t y (link_key y x) = Some ks)"
    using dead live' by (intro exI [of _ y]) auto
next
  fix l assume l: "l \<in> live'"
  then obtain x y ks where *: "l \<in> set ks" "t x (link_key x y) = Some ks" "t y (link_key y x) = Some ks"
    using ok live' unfolding table_ok_def by blast
  then have "x \<noteq> a" "y \<noteq> a" using dead l by blast+
  with * show "\<exists>x y ks. l \<in> set ks \<and> ?t x (link_key x y) = Some ks \<and> ?t y (link_key y x) = Some ks"
    by (intro exI [of _ x] exI [of _ y] exI [of _ ks]) auto
qed

section \<open>Running the operations\<close>

lemma create_run [simp]: "create mk w =
    (Inr (next_handle w), w\<lparr>next_handle := next_handle w + 1, effects := mk (next_handle w) # effects w\<rparr>)"
  by (simp add: create_def)

lemma andthen_create [simp]: "andthen (create mk) f w =
    f (next_handle w) (w\<lparr>next_handle := next_handle w + 1, effects := mk (next_handle w) # effects w\<rparr>)"
  by (simp add: andthen_def)

lemma andthen_construct [simp]: "andthen (construct_cell name ident) f w =
    f (next_handle w) (w\<lparr>next_handle := next_handle w + 1,
      effects := ConstructCell (next_handle w) name ident # effects w\<rparr>)"
  by (simp add: construct_cell_def)

lemma emit_run [simp]: "emit e w = (Inr (), w\<lparr>effects := e # effects w\<rparr>)"
  by (simp add: emit_def)

lemma andthen_emit [simp]: "andthen (emit e) f w = f () (w\<lparr>effects := e # effects w\<rparr>)"
  by (simp add: emit_def)

lemma point_all_run [simp]:
  "point_all ls d w = (Inr (), w\<lparr>effects := map (\<lambda>l. PointLink l d) (rev ls) @ effects w\<rparr>)"
  unfolding point_all_def by (induction ls arbitrary: w) auto

lemma andthen_point_all [simp]:
  "andthen (point_all ls d) f w = f () (w\<lparr>effects := map (\<lambda>l. PointLink l d) (rev ls) @ effects w\<rparr>)"
  by (simp add: andthen_def)

lemma guarantee_run:
  "guarantee_get_card_metadata a w =
     (case map_of (cards w) a of None \<Rightarrow> (Inl (CardNotFound a), w) | Some md \<Rightarrow> (Inr md, w))"
  by (simp add: guarantee_get_card_metadata_def get_card_metadata_def split: option.splits)

lemma andthen_guarantee:
  "andthen (guarantee_get_card_metadata a) f w =
     (case map_of (cards w) a of None \<Rightarrow> (Inl (CardNotFound a), w) | Some md \<Rightarrow> f md w)"
  by (simp add: andthen_def guarantee_run split: option.splits)

lemma tracked_run:
  "tracked_cell a k w =
     (case map_of (cards w) a of None \<Rightarrow> (Inl (CardNotFound a), w)
      | Some md \<Rightarrow> (case map_of (md_cells md) k of None \<Rightarrow> (Inl (KeyNotFound k), w) | Some h \<Rightarrow> (Inr h, w)))"
  by (simp add: tracked_cell_def andthen_guarantee guarantee_get_def split: option.splits)

lemma link_changes [simp]:
  "delete_link a k w = (Inr (), change_stored a (\<lambda>md. md\<lparr>md_links := AList.delete k (md_links md)\<rparr>) w)"
  "andthen (delete_link a k) f w = f () (change_stored a (\<lambda>md. md\<lparr>md_links := AList.delete k (md_links md)\<rparr>) w)"
  "set_link a k ls w = (Inr (), change_stored a (\<lambda>md. md\<lparr>md_links := AList.update k ls (md_links md)\<rparr>) w)"
  "andthen (set_link a k ls) f w = f () (change_stored a (\<lambda>md. md\<lparr>md_links := AList.update k ls (md_links md)\<rparr>) w)"
  by (simp_all add: delete_link_def set_link_def change_metadata_def)

section \<open>Effects on the table and on the links\<close>

lemma change_stored_simps [simp]:
  "next_handle (change_stored a f w) = next_handle w" "effects (change_stored a f w) = effects w"
  by (simp_all add: change_stored_def split: option.splits)

lemma map_of_change_stored:
  "map_of (cards (change_stored a f w)) = (map_of (cards w))(a := map_option f (map_of (cards w) a))"
  by (auto simp: change_stored_def update_conv' fun_eq_iff split: option.splits)

lemma links_delete [simp]:
  "links_of (change_stored a (\<lambda>md. md\<lparr>md_links := AList.delete k (md_links md)\<rparr>) w) =
     table_set (links_of w) a k None"
  by (auto simp: fun_eq_iff links_of_def map_of_change_stored table_set_def delete_conv' split: option.splits)

lemma links_update [simp]:
  "has_card w a \<Longrightarrow>
   links_of (change_stored a (\<lambda>md. md\<lparr>md_links := AList.update k ls (md_links md)\<rparr>) w) =
     table_set (links_of w) a k (Some ls)"
  by (auto simp: fun_eq_iff links_of_def map_of_change_stored table_set_def update_conv' has_card_def
      split: option.splits)

lemma has_card_change [simp]: "has_card (change_stored a f w) = has_card w"
  by (auto simp: fun_eq_iff has_card_def map_of_change_stored)

lemma links_of_effects [simp]: "links_of (w\<lparr>next_handle := n, effects := es\<rparr>) = links_of w"
  "links_of (w\<lparr>effects := es\<rparr>) = links_of w"
  "links_of (w\<lparr>next_handle := n\<rparr>) = links_of w" "has_card (w\<lparr>next_handle := n\<rparr>) = has_card w"
  "has_card (w\<lparr>next_handle := n, effects := es\<rparr>) = has_card w" "has_card (w\<lparr>effects := es\<rparr>) = has_card w"
  by (simp_all add: fun_eq_iff links_of_def has_card_def)

lemma world_ok_change:
  assumes "world_ok w" and "\<And>md. md_id (f md) = md_id md \<and> md_cells (f md) = md_cells md"
    and "\<And>x k ls. links_of (change_stored a f w) x k = Some ls \<Longrightarrow> \<forall>l \<in> set ls. l < next_handle w"
  shows "world_ok (change_stored a f w)"
proof -
  have "distinct (map fst (cards (change_stored a f w)))"
    using assms(1) by (auto simp: world_ok_def change_stored_def distinct_update split: option.splits)
  moreover have "\<exists>md'. map_of (cards w) x = Some md' \<and> md_id md = md_id md' \<and> md_cells md = md_cells md'"
    if "map_of (cards (change_stored a f w)) x = Some md" for x md
    using that assms(2) by (auto simp: map_of_change_stored split: if_splits)
  ultimately show ?thesis
    using assms(1,3) unfolding world_ok_def by (fastforce split: option.splits)
qed

lemma world_ok_delete [simp]:
  "world_ok w \<Longrightarrow> world_ok (change_stored a (\<lambda>md. md\<lparr>md_links := AList.delete k (md_links md)\<rparr>) w)"
  by (rule world_ok_change) (auto simp: table_set_def world_ok_def split: if_splits)

lemma world_ok_set:
  "world_ok w \<Longrightarrow> has_card w a \<Longrightarrow> \<forall>l \<in> set ls. l < next_handle w \<Longrightarrow>
    world_ok (change_stored a (\<lambda>md. md\<lparr>md_links := AList.update k ls (md_links md)\<rparr>) w)"
  by (rule world_ok_change) (auto simp: table_set_def world_ok_def split: if_splits)

lemma live_links_change [simp]: "live_links (change_stored a f w) = live_links w"
  by (simp add: live_links_def)

lemma link_target_points:
  "link_target (map (\<lambda>l. PointLink l d) ls @ es) l = (if l \<in> set ls then Some d else link_target es l)"
  by (induction ls) auto

lemma cell_name_points: "cell_name_of (map (\<lambda>l. PointLink l d) ls @ es) c = cell_name_of es c"
  by (induction ls) auto

text \<open>Redirecting links to a fresh placeholder.\<close>

definition cut_world :: "card_world \<Rightarrow> jstring \<Rightarrow> handle list \<Rightarrow> card_world" where
  "cut_world w name ls = w\<lparr>next_handle := next_handle w + 1,
     effects := map (\<lambda>l. PointLink l (next_handle w)) (rev ls) @ ConstructCell (next_handle w) name None # effects w\<rparr>"

lemma world_ok_sub:
  assumes ok: "world_ok w" and next_le: "next_handle w \<le> next_handle w'"
    and distinct: "distinct (map fst (cards w'))"
    and sub: "\<And>a md. map_of (cards w') a = Some md \<Longrightarrow> map_of (cards w) a = Some md"
    and target: "\<And>l c. link_target (effects w') l = Some c \<Longrightarrow> link_target (effects w) l = Some c \<or> c < next_handle w'"
    and name: "\<And>c. c < next_handle w \<Longrightarrow> cell_name_of (effects w') c = cell_name_of (effects w) c"
  shows "world_ok w'"
  unfolding world_ok_def
proof (intro conjI allI impI distinct)
  fix a md assume "map_of (cards w') a = Some md"
  from sub [OF this] have md: "md_id md = a" "\<forall>h \<in> snd ` set (md_cells md). h < next_handle w"
    "\<forall>h \<in> snd ` set (md_cells md). \<not> is_placeholder (effects w) h"
    "map fst (md_cells md) = all_slots @ [''updater'', ''emitter'']"
    using ok by (simp_all add: world_ok_def)
  then show "md_id md = a" "map fst (md_cells md) = all_slots @ [''updater'', ''emitter'']" by simp_all
  show "\<forall>h \<in> snd ` set (md_cells md). h < next_handle w'" using md(2) next_le by fastforce
  show "\<forall>h \<in> snd ` set (md_cells md). \<not> is_placeholder (effects w') h"
    using md(2,3) name by (simp add: is_placeholder_def)
next
  fix l c assume "link_target (effects w') l = Some c"
  from target [OF this] show "c < next_handle w'"
    using ok next_le unfolding world_ok_def by (meson order_less_le_trans)
next
  fix a k ls assume "links_of w' a k = Some ls"
  then have "links_of w a k = Some ls" using sub by (auto simp: links_of_def split: option.splits)
  then show "\<forall>l \<in> set ls. l < next_handle w'"
    using ok next_le unfolding world_ok_def by (meson order_less_le_trans)
qed

lemma world_ok_frame:
  assumes "world_ok w" and "cards w' = cards w" and "next_handle w \<le> next_handle w'"
    and "\<And>l c. link_target (effects w') l = Some c \<Longrightarrow> link_target (effects w) l = Some c \<or> c < next_handle w'"
    and "\<And>c. c < next_handle w \<Longrightarrow> cell_name_of (effects w') c = cell_name_of (effects w) c"
  shows "world_ok w'"
  using assms by (intro world_ok_sub [of w w']) (auto simp: world_ok_def)

lemma cut_world_ok [simp]: "world_ok w \<Longrightarrow> world_ok (cut_world w name ls)"
  by (erule world_ok_frame) (auto simp: cut_world_def link_target_points cell_name_points split: if_splits)

lemma cut_world_simps [simp]:
  "links_of (cut_world w name ls) = links_of w" "has_card (cut_world w name ls) = has_card w"
  "cards (cut_world w name ls) = cards w" "next_handle (cut_world w name ls) = next_handle w + 1"
  by (simp_all add: cut_world_def)

lemma cut_world_live [simp]:
  assumes "world_ok w" and "starts_with name ''disconnected:''"
  shows "live_links (cut_world w name ls) = live_links w - set ls"
proof -
  have "c \<noteq> next_handle w" if "link_target (effects w) l = Some c" for l c
    using that assms(1) by (auto simp: world_ok_def)
  then show ?thesis
    using assms(2)
    by (auto simp: live_links_def live_link_def cut_world_def link_target_points is_placeholder_def
        cell_name_points split: option.splits if_splits)
qed

definition world_inv :: "card_world \<Rightarrow> bool" where
  "world_inv w \<longleftrightarrow> world_ok w \<and> table_ok (links_of w) (live_links w)"

section \<open>The operations keep the invariant\<close>

lemma clear_previous_run:
  "clear_previous a b w =
     (case map_of (cards w) a of None \<Rightarrow> (Inl (CardNotFound a), w)
      | Some md \<Rightarrow> (case links_of w a (link_key a b) of
           None \<Rightarrow> (Inr (), w)
         | Some ls \<Rightarrow> (Inr (),
             change_stored b (\<lambda>md. md\<lparr>md_links := AList.delete (link_key b a) (md_links md)\<rparr>)
             (change_stored a (\<lambda>md. md\<lparr>md_links := AList.delete (link_key a b) (md_links md)\<rparr>)
               (cut_world w (disconnected (link_key a b @ '':prev'')) ls)))))"
  by (simp add: clear_previous_def andthen_guarantee links_of_def cut_world_def split: option.splits)

lemma detach_run:
  "card_metadata_detach a b w =
     (case map_of (cards w) a of None \<Rightarrow> (Inl (CardNotFound a), w)
      | Some md \<Rightarrow> (case links_of w a (link_key a b) of
           None \<Rightarrow> (Inl (ConnectorNotFound a b), w)
         | Some ls \<Rightarrow> (Inr (),
             change_stored b (\<lambda>md. md\<lparr>md_links := AList.delete (link_key b a) (md_links md)\<rparr>)
             (change_stored a (\<lambda>md. md\<lparr>md_links := AList.delete (link_key a b) (md_links md)\<rparr>)
               (cut_world w (disconnected (link_key a b)) ls)))))"
  by (simp add: card_metadata_detach_def andthen_guarantee links_of_def cut_world_def split: option.splits)

lemma starts_disconnected [simp]: "starts_with (disconnected s) ''disconnected:''"
  unfolding disconnected_def by (rule starts_with_append)

lemma cut_inv:
  assumes "world_inv w" and "links_of w a (link_key a b) = Some ls" and "starts_with name ''disconnected:''"
  shows "world_inv (change_stored b (\<lambda>md. md\<lparr>md_links := AList.delete (link_key b a) (md_links md)\<rparr>)
             (change_stored a (\<lambda>md. md\<lparr>md_links := AList.delete (link_key a b) (md_links md)\<rparr>)
               (cut_world w name ls)))"
  using assms table_cut [of "links_of w" "live_links w" a b ls] by (simp add: world_inv_def)

definition active_world ::
    "card_world \<Rightarrow> jstring \<Rightarrow> handle \<Rightarrow> handle \<Rightarrow> handle \<Rightarrow> handle \<Rightarrow> card_world" where
  "active_world w k kA kB Athis Bthis =
     (let n = next_handle w in
      w\<lparr>next_handle := n + 4,
        effects := [PointLink (n + 3) kB, PointLink (n + 2) Athis, PointLink (n + 1) kA, PointLink n Bthis,
            SyncToLink Athis (n + 3), SyncToLink kB (n + 2), SyncToLink Bthis (n + 1), SyncToLink kA n,
            SourceCell (n + 3) (''link:'' @ k @ '':'' @ ''Athis->kB''),
            SourceCell (n + 2) (''link:'' @ k @ '':'' @ ''kB->Athis''),
            SourceCell (n + 1) (''link:'' @ k @ '':'' @ ''Bthis->kA''),
            SourceCell n (''link:'' @ k @ '':'' @ ''kA->Bthis'')] @ effects w\<rparr>)"

lemma activate_run:
  "activate_links a b kA kB Athis Bthis w = (Inr (),
     let n = next_handle w; ls = [n, n + 1, n + 2, n + 3] in
     change_stored b (\<lambda>md. md\<lparr>md_links := AList.update (link_key b a) ls (md_links md)\<rparr>)
     (change_stored a (\<lambda>md. md\<lparr>md_links := AList.update (link_key a b) ls (md_links md)\<rparr>)
       (active_world w (link_key a b) kA kB Athis Bthis)))"
  by (simp add: activate_links_def link_source_def active_world_def Let_def numeral_eq_Suc)

lemma active_world_simps [simp]:
  "links_of (active_world w k kA kB At Bt) = links_of w" "has_card (active_world w k kA kB At Bt) = has_card w"
  "cards (active_world w k kA kB At Bt) = cards w" "next_handle (active_world w k kA kB At Bt) = next_handle w + 4"
  by (simp_all add: active_world_def Let_def)

lemma active_world_target:
  "link_target (effects (active_world w k kA kB At Bt)) l =
     (let n = next_handle w in
      if l = n + 3 then Some kB else if l = n + 2 then Some At else if l = n + 1 then Some kA
      else if l = n then Some Bt else link_target (effects w) l)"
  by (simp add: active_world_def Let_def)

lemma active_world_name: "cell_name_of (effects (active_world w k kA kB At Bt)) c = cell_name_of (effects w) c"
  by (simp add: active_world_def Let_def)

lemma active_world_ok:
  assumes "world_ok w" and "kA < next_handle w" "kB < next_handle w" "At < next_handle w" "Bt < next_handle w"
  shows "world_ok (active_world w k kA kB At Bt)"
  using assms(2-5) by (intro world_ok_frame [OF assms(1)])
    (auto simp: active_world_target Let_def active_world_name split: if_splits)

lemma active_world_live:
  assumes "\<forall>h \<in> {kA, kB, At, Bt}. \<not> is_placeholder (effects w) h"
  shows "live_links (active_world w k kA kB At Bt) =
    live_links w \<union> {next_handle w, next_handle w + 1, next_handle w + 2, next_handle w + 3}"
proof -
  have "is_placeholder (effects (active_world w k kA kB At Bt)) = is_placeholder (effects w)"
    by (simp add: fun_eq_iff is_placeholder_def active_world_name)
  then show ?thesis
    using assms by (auto simp: live_links_def live_link_def active_world_target Let_def split: option.splits)
qed

lemma world_ok_card:
  assumes "world_ok w" and "map_of (cards w) a = Some md"
  shows "md_id md = a" and "\<forall>h \<in> snd ` set (md_cells md). h < next_handle w"
    and "\<forall>h \<in> snd ` set (md_cells md). \<not> is_placeholder (effects w) h"
    and "map fst (md_cells md) = all_slots @ [''updater'', ''emitter'']"
  using assms by (simp_all add: world_ok_def)

lemma tracked_cellD:
  assumes "tracked_cell a k w = (Inr h, w')" and "world_ok w"
  shows "w' = w" and "h < next_handle w" and "\<not> is_placeholder (effects w) h" and "has_card w a"
proof -
  obtain md where md: "map_of (cards w) a = Some md" "map_of (md_cells md) k = Some h" "w' = w"
    using assms(1) by (auto simp: tracked_run split: option.splits)
  then have "h \<in> snd ` set (md_cells md)" by (force dest: map_of_SomeD)
  with world_ok_card(2,3) [OF assms(2) md(1)]
  show "h < next_handle w" "\<not> is_placeholder (effects w) h" by blast+
  show "w' = w" "has_card w a" using md by (simp_all add: has_card_def)
qed

lemma tracked_cell_state: "snd (tracked_cell a k w) = w"
  by (simp add: tracked_run split: option.splits)

definition activated_world ::
    "card_world \<Rightarrow> jstring \<Rightarrow> jstring \<Rightarrow> handle \<Rightarrow> handle \<Rightarrow> handle \<Rightarrow> handle \<Rightarrow> card_world" where
  "activated_world w a b kA kB Athis Bthis = snd (activate_links a b kA kB Athis Bthis w)"

lemma activated_world:
  assumes "world_inv w" and "links_of w a (link_key a b) = None"
    and h: "\<forall>h \<in> {kA, kB, At, Bt}. h < next_handle w \<and> \<not> is_placeholder (effects w) h"
    and "has_card w a" "has_card w b"
  defines "ls \<equiv> [next_handle w, next_handle w + 1, next_handle w + 2, next_handle w + 3]"
  shows "world_inv (activated_world w a b kA kB At Bt)"
    and "links_of (activated_world w a b kA kB At Bt) =
      table_set (table_set (links_of w) a (link_key a b) (Some ls)) b (link_key b a) (Some ls)"
    and "live_links (activated_world w a b kA kB At Bt) = live_links w \<union> set ls"
    and "has_card (activated_world w a b kA kB At Bt) = has_card w"
proof -
  let ?w = "active_world w (link_key a b) kA kB At Bt"
  have w': "activated_world w a b kA kB At Bt =
      change_stored b (\<lambda>md. md\<lparr>md_links := AList.update (link_key b a) ls (md_links md)\<rparr>)
     (change_stored a (\<lambda>md. md\<lparr>md_links := AList.update (link_key a b) ls (md_links md)\<rparr>) ?w)"
    by (simp add: activated_world_def activate_run Let_def ls_def)
  have ok: "world_ok w" using assms(1) by (simp add: world_inv_def)
  then have "world_ok ?w" using h by (intro active_world_ok) auto
  then have ok': "world_ok (activated_world w a b kA kB At Bt)"
    unfolding w' using assms(4,5) by (intro world_ok_set) (auto simp: ls_def)
  show links: "links_of (activated_world w a b kA kB At Bt) =
      table_set (table_set (links_of w) a (link_key a b) (Some ls)) b (link_key b a) (Some ls)"
    using assms(4,5) by (simp add: w')
  have "live_links ?w = live_links w \<union> set ls"
    using active_world_live [of kA kB At Bt w] h by (auto simp: ls_def)
  then show live: "live_links (activated_world w a b kA kB At Bt) = live_links w \<union> set ls"
    by (simp add: w')
  have "set ks \<inter> set ls = {}" if "links_of w x k = Some ks" for x k ks
    using ok that by (fastforce simp: world_ok_def ls_def)
  then have "table_ok (links_of (activated_world w a b kA kB At Bt)) (live_links (activated_world w a b kA kB At Bt))"
    unfolding links live using assms(1,2) by (intro table_join [where live = "live_links w"]) (auto simp: world_inv_def)
  with ok' show "world_inv (activated_world w a b kA kB At Bt)" by (simp add: world_inv_def)
  show "has_card (activated_world w a b kA kB At Bt) = has_card w" by (simp add: w')
qed

subsection \<open>Connect\<close>

definition cleared :: "card_world \<Rightarrow> jstring \<Rightarrow> jstring \<Rightarrow> card_world" where
  "cleared w a b = snd (clear_previous a b w)"

lemma cleared:
  assumes "world_inv w" and "has_card w a"
  shows "clear_previous a b w = (Inr (), cleared w a b)" and "world_inv (cleared w a b)"
    and "links_of (cleared w a b) a (link_key a b) = None"
    and "links_of (cleared w a b) = (if links_of w a (link_key a b) = None then links_of w
      else table_set (table_set (links_of w) a (link_key a b) None) b (link_key b a) None)"
    and "has_card (cleared w a b) = has_card w"
proof -
  obtain md where md: "map_of (cards w) a = Some md" using assms(2) by (auto simp: has_card_def)
  show "clear_previous a b w = (Inr (), cleared w a b)"
    by (simp add: cleared_def clear_previous_run md split: option.splits)
  show "world_inv (cleared w a b)"
    using assms(1) cut_inv [OF assms(1)] by (simp add: cleared_def clear_previous_run md split: option.splits)
  show links: "links_of (cleared w a b) = (if links_of w a (link_key a b) = None then links_of w
      else table_set (table_set (links_of w) a (link_key a b) None) b (link_key b a) None)"
    by (simp add: cleared_def clear_previous_run md split: option.splits)
  show "links_of (cleared w a b) a (link_key a b) = None"
    by (simp add: links table_set_def)
  show "has_card (cleared w a b) = has_card w"
    by (simp add: cleared_def clear_previous_run md split: option.splits)
qed

lemma tracked_ok:
  assumes "world_ok w" and "has_card w a" and "k \<in> set all_slots \<union> {''updater'', ''emitter''}"
  obtains h where "tracked_cell a k w = (Inr h, w)"
proof -
  obtain md where md: "map_of (cards w) a = Some md" using assms(2) by (auto simp: has_card_def)
  have "k \<in> set (map fst (md_cells md))" using world_ok_card(4) [OF assms(1) md] assms(3) by auto
  then obtain h where "map_of (md_cells md) k = Some h"
    by (metis list.set_map map_of_eq_None_iff not_None_eq)
  with md that show ?thesis by (simp add: tracked_run)
qed

lemma connect_run:
  assumes "world_inv w" and "has_card w a" and "has_card w b"
  shows "connect_cards a b ka kb w =
    (let w1 = cleared w a b in
     andthen (tracked_cell a ka) (\<lambda>kA.
     andthen (tracked_cell b kb) (\<lambda>kB.
     andthen (tracked_cell a slot_this) (\<lambda>Athis.
     andthen (tracked_cell b slot_this) (\<lambda>Bthis.
     activate_links a b kA kB Athis Bthis)))) w1)"
proof -
  obtain mdA mdB where "map_of (cards w) a = Some mdA" "map_of (cards w) b = Some mdB"
    using assms(2,3) by (auto simp: has_card_def)
  then show ?thesis
    by (simp add: connect_cards_def card_metadata_connect_def andthen_guarantee
        andthen_run(1) [of "clear_previous a b", OF cleared(1) [OF assms(1,2)]])
qed

lemma connect_success:
  assumes inv: "world_inv w" and a: "has_card w a" and b: "has_card w b"
    and k: "ka \<in> set all_slots" "kb \<in> set all_slots"
  obtains w' ls where "connect_cards a b ka kb w = (Inr (), w')" and "world_inv w'"
    and "links_of w' = table_set (table_set (links_of w) a (link_key a b) (Some ls)) b (link_key b a) (Some ls)"
    and "set ls \<subseteq> live_links w'" and "length ls = 4" and "has_card w' = has_card w"
proof -
  let ?w = "cleared w a b"
  let ?n = "next_handle ?w"
  let ?ls = "[?n, ?n + 1, ?n + 2, ?n + 3]"
  note c = cleared [OF inv a, of b]
  have ok: "world_ok ?w" using c(2) by (simp add: world_inv_def)
  have ab: "has_card ?w a" "has_card ?w b" using a b c(5) by simp_all
  obtain kA where kA: "tracked_cell a ka ?w = (Inr kA, ?w)" using tracked_ok [OF ok ab(1)] k(1) by blast
  obtain kB where kB: "tracked_cell b kb ?w = (Inr kB, ?w)" using tracked_ok [OF ok ab(2)] k(2) by blast
  obtain At where At: "tracked_cell a slot_this ?w = (Inr At, ?w)"
    using tracked_ok [OF ok ab(1), of slot_this] by (auto simp: all_slots_def)
  obtain Bt where Bt: "tracked_cell b slot_this ?w = (Inr Bt, ?w)"
    using tracked_ok [OF ok ab(2), of slot_this] by (auto simp: all_slots_def)
  have h: "\<forall>h \<in> {kA, kB, At, Bt}. h < ?n \<and> \<not> is_placeholder (effects ?w) h"
    using tracked_cellD(2,3) [OF kA ok] tracked_cellD(2,3) [OF kB ok]
      tracked_cellD(2,3) [OF At ok] tracked_cellD(2,3) [OF Bt ok] by simp
  note act = activated_world [OF c(2,3) h ab]
  have "connect_cards a b ka kb w = (Inr (), activated_world ?w a b kA kB At Bt)"
    unfolding connect_run [OF inv a b] Let_def
    by (simp add: andthen_def kA kB At Bt activated_world_def activate_run)
  moreover have "links_of (activated_world ?w a b kA kB At Bt) =
      table_set (table_set (links_of w) a (link_key a b) (Some ?ls)) b (link_key b a) (Some ?ls)"
    unfolding act(2) c(4) by (auto simp: fun_eq_iff table_set_def)
  moreover have "set ?ls \<subseteq> live_links (activated_world ?w a b kA kB At Bt)"
    unfolding act(3) by simp
  moreover have "has_card (activated_world ?w a b kA kB At Bt) = has_card w"
    unfolding act(4) c(5) ..
  ultimately show ?thesis
    using that [of "activated_world ?w a b kA kB At Bt" ?ls] act(1) by simp
qed

lemma connect_inv:
  assumes inv: "world_inv w"
  shows "world_inv (snd (connect_cards a b ka kb w))" and "has_card (snd (connect_cards a b ka kb w)) = has_card w"
proof -
  have "world_inv (snd (connect_cards a b ka kb w)) \<and> has_card (snd (connect_cards a b ka kb w)) = has_card w"
  proof (cases "has_card w a \<and> has_card w b")
    case False
    then show ?thesis
      using inv by (auto simp: connect_cards_def andthen_guarantee has_card_def split: option.splits)
  next
    case True
    let ?w = "cleared w a b"
    note c = cleared [OF inv conjunct1 [OF True], of b]
    have ok: "world_ok ?w" using c(2) by (simp add: world_inv_def)
    have ab: "has_card ?w a" "has_card ?w b" using True c(5) by simp_all
    have state: "\<exists>r. tracked_cell x k ?w = (r, ?w) \<and>
        (\<forall>h. r = Inr h \<longrightarrow> h < next_handle ?w \<and> \<not> is_placeholder (effects ?w) h)" for x k
      using tracked_cellD [of x k ?w, OF _ ok] tracked_cell_state [of x k ?w]
      by (cases "tracked_cell x k ?w") auto
    obtain r1 where 1: "tracked_cell a ka ?w = (r1, ?w)"
      "\<forall>h. r1 = Inr h \<longrightarrow> h < next_handle ?w \<and> \<not> is_placeholder (effects ?w) h" using state by blast
    obtain r2 where 2: "tracked_cell b kb ?w = (r2, ?w)"
      "\<forall>h. r2 = Inr h \<longrightarrow> h < next_handle ?w \<and> \<not> is_placeholder (effects ?w) h" using state by blast
    obtain r3 where 3: "tracked_cell a slot_this ?w = (r3, ?w)"
      "\<forall>h. r3 = Inr h \<longrightarrow> h < next_handle ?w \<and> \<not> is_placeholder (effects ?w) h" using state by blast
    obtain r4 where 4: "tracked_cell b slot_this ?w = (r4, ?w)"
      "\<forall>h. r4 = Inr h \<longrightarrow> h < next_handle ?w \<and> \<not> is_placeholder (effects ?w) h" using state by blast
    have "snd (connect_cards a b ka kb w) = ?w \<or>
        (\<exists>kA kB At Bt. snd (connect_cards a b ka kb w) = activated_world ?w a b kA kB At Bt \<and>
        (\<forall>h \<in> {kA, kB, At, Bt}. h < next_handle ?w \<and> \<not> is_placeholder (effects ?w) h))"
      unfolding connect_run [OF inv conjunct1 [OF True] conjunct2 [OF True]] Let_def
      using 1 2 3 4
      by (cases r1; cases r2; cases r3; cases r4; simp add: andthen_def activated_world_def; blast)
    then show ?thesis
      using c activated_world(1,4) [OF c(2,3) _ ab] by auto
  qed
  then show "world_inv (snd (connect_cards a b ka kb w))" "has_card (snd (connect_cards a b ka kb w)) = has_card w"
    by simp_all
qed

subsection \<open>Detach\<close>

lemma detach_cards_run:
  "detach_cards_by_key a b w =
     (case map_of (cards w) a of None \<Rightarrow> (Inl (CardNotFound a), w)
      | Some mdA \<Rightarrow> (case map_of (cards w) b of None \<Rightarrow> (Inl (CardNotFound b), w)
        | Some mdB \<Rightarrow> card_metadata_detach a b w))"
  by (simp add: detach_cards_by_key_def andthen_guarantee split: option.splits)

lemma detach_success:
  assumes inv: "world_inv w" and "has_card w a" "has_card w b" and ls: "links_of w a (link_key a b) = Some ls"
  obtains w' where "detach_cards_by_key a b w = (Inr (), w')" and "world_inv w'"
    and "links_of w' = table_set (table_set (links_of w) a (link_key a b) None) b (link_key b a) None"
    and "live_links w' = live_links w - set ls" and "has_card w' = has_card w"
proof -
  obtain mdA mdB where "map_of (cards w) a = Some mdA" "map_of (cards w) b = Some mdB"
    using assms(2,3) by (auto simp: has_card_def)
  then show ?thesis
    using that cut_inv [OF inv ls starts_disconnected] inv by (auto simp: detach_cards_run detach_run ls world_inv_def)
qed

lemma detach_inv:
  assumes "world_inv w"
  shows "world_inv (snd (detach_cards_by_key a b w))"
    and "has_card (snd (detach_cards_by_key a b w)) = has_card w"
proof -
  have "world_inv (snd (detach_cards_by_key a b w)) \<and> has_card (snd (detach_cards_by_key a b w)) = has_card w"
    using assms cut_inv [OF assms] by (auto simp: detach_cards_run detach_run split: option.splits)
  then show "world_inv (snd (detach_cards_by_key a b w))"
    and "has_card (snd (detach_cards_by_key a b w)) = has_card w" by simp_all
qed

subsection \<open>Remove\<close>

definition cut_all :: "(jstring \<times> handle list) list \<Rightarrow> card_world \<Rightarrow> card_world" where
  "cut_all kls w = fold (\<lambda>(key, ls) w. cut_world w (disconnected key) ls) kls w"

lemma cut_all_run:
  "for_each (\<lambda>(key, links). andthen (construct_cell (disconnected key) None) (\<lambda>dummy. point_all links dummy)) kls w
     = (Inr (), cut_all kls w)"
  by (induction kls arbitrary: w) (auto simp: cut_all_def cut_world_def andthen_def construct_cell_def)

lemma dispose_all_run:
  "for_each (\<lambda>(_, p). dispose_propagator p) ps w = (Inr (), w\<lparr>effects := map Dispose (rev (map snd ps)) @ effects w\<rparr>)"
  by (induction ps arbitrary: w) (auto simp: dispose_propagator_def)

lemma andthen_all:
  "andthen (for_each (\<lambda>(key, links). andthen (construct_cell (disconnected key) None) (\<lambda>dummy. point_all links dummy)) kls) f w
     = f () (cut_all kls w)"
  "andthen (for_each (\<lambda>(_, p). dispose_propagator p) ps) f w =
     f () (w\<lparr>effects := map Dispose (rev (map snd ps)) @ effects w\<rparr>)"
  using cut_all_run [of kls w] dispose_all_run [of ps w] by (simp_all add: andthen_run(1))

lemma cut_all:
  assumes "world_ok w"
  shows "world_ok (cut_all kls w)" and "live_links (cut_all kls w) = live_links w - \<Union> (set ` snd ` set kls)"
    and "cards (cut_all kls w) = cards w"
proof -
  have "world_ok (cut_all kls w) \<and> live_links (cut_all kls w) = live_links w - \<Union> (set ` snd ` set kls)
      \<and> cards (cut_all kls w) = cards w"
    using assms
  proof (induction kls arbitrary: w)
    case Nil
    then show ?case by (simp add: cut_all_def)
  next
    case (Cons kl kls)
    obtain key ls where kl: "kl = (key, ls)" by force
    have "cut_all (kl # kls) w = cut_all kls (cut_world w (disconnected key) ls)"
      by (simp add: cut_all_def kl)
    with Cons.IH [of "cut_world w (disconnected key) ls"] Cons.prems show ?case
      by (auto simp: kl)
  qed
  then show "world_ok (cut_all kls w)" "live_links (cut_all kls w) = live_links w - \<Union> (set ` snd ` set kls)"
    "cards (cut_all kls w) = cards w" by blast+
qed

lemma disposes_same:
  "link_target (map Dispose ps @ es) = link_target es" "cell_name_of (map Dispose ps @ es) = cell_name_of es"
  "is_placeholder (map Dispose ps @ es) = is_placeholder es"
proof -
  show target: "link_target (map Dispose ps @ es) = link_target es"
    and name: "cell_name_of (map Dispose ps @ es) = cell_name_of es"
    by (induction ps) (auto simp: fun_eq_iff)
  show "is_placeholder (map Dispose ps @ es) = is_placeholder es"
    by (simp add: fun_eq_iff is_placeholder_def name)
qed

definition removed_world :: "card_world \<Rightarrow> jstring \<Rightarrow> card_metadata \<Rightarrow> card_world" where
  "removed_world w a md =
     (let w1 = change_stored a (\<lambda>md. md\<lparr>md_links := []\<rparr>)
        (cut_all (md_links md) (w\<lparr>effects := map Dispose (rev (map snd (md_propagators md))) @ effects w\<rparr>))
      in w1\<lparr>cards := AList.delete (md_id md) (cards w1)\<rparr>)"

lemma remove_run:
  "remove_card a w = (case map_of (cards w) a of None \<Rightarrow> (Inl (CardNotFound a), w)
     | Some md \<Rightarrow> (Inr (), removed_world w a md))"
  by (simp add: remove_card_def card_metadata_remove_def andthen_guarantee andthen_all
      change_metadata_def remove_card_metadata_def removed_world_def Let_def split: option.splits)

lemma removed_world:
  assumes inv: "world_inv w" and md: "map_of (cards w) a = Some md"
  shows "world_inv (removed_world w a md)"
    and "map_of (cards (removed_world w a md)) = (map_of (cards w))(a := None)"
    and "live_links (removed_world w a md) = live_links w - \<Union> (set ` snd ` set (md_links md))"
    and "links_of (removed_world w a md) = (\<lambda>x k. if x = a then None else links_of w x k)"
proof -
  let ?w0 = "w\<lparr>effects := map Dispose (rev (map snd (md_propagators md))) @ effects w\<rparr>"
  let ?w1 = "cut_all (md_links md) ?w0"
  let ?w2 = "change_stored a (\<lambda>md. md\<lparr>md_links := []\<rparr>) ?w1"
  have ok: "world_ok w" using inv by (simp add: world_inv_def)
  have ida: "md_id md = a" using world_ok_card(1) [OF ok md] .
  have ok0: "world_ok ?w0" by (rule world_ok_frame [OF ok]) (simp_all add: disposes_same)
  have live0: "live_links ?w0 = live_links w"
    by (simp add: live_links_def live_link_def disposes_same cong: option.case_cong)
  note c = cut_all [OF ok0, of "md_links md"]
  have w': "removed_world w a md = ?w2\<lparr>cards := AList.delete a (cards ?w2)\<rparr>"
    by (simp add: removed_world_def Let_def ida)
  show map': "map_of (cards (removed_world w a md)) = (map_of (cards w))(a := None)"
    by (auto simp: w' delete_conv' map_of_change_stored c(3) fun_eq_iff)
  then show links': "links_of (removed_world w a md) = (\<lambda>x k. if x = a then None else links_of w x k)"
    by (auto simp: links_of_def fun_eq_iff)
  show live': "live_links (removed_world w a md) = live_links w - \<Union> (set ` snd ` set (md_links md))"
    using c(2) live0 by (simp add: w' live_links_def)
  have "effects (removed_world w a md) = effects ?w1" "next_handle (removed_world w a md) = next_handle ?w1"
    by (simp_all add: w')
  moreover have "distinct (map fst (cards (removed_world w a md)))"
    using ok c(3) by (auto simp: w' world_ok_def distinct_delete change_stored_def distinct_update split: option.splits)
  moreover have "map_of (cards (removed_world w a md)) x = Some m \<Longrightarrow> map_of (cards ?w1) x = Some m" for x m
    using map' c(3) by (simp split: if_splits)
  ultimately have ok': "world_ok (removed_world w a md)"
    by (intro world_ok_sub [OF c(1)]) auto
  have "set ls \<inter> live_links (removed_world w a md) = {}" if "links_of w a k = Some ls" for k ls
  proof -
    have "(k, ls) \<in> set (md_links md)" using that md by (auto simp: links_of_def dest: map_of_SomeD)
    then show ?thesis unfolding live' by force
  qed
  then have "table_ok (links_of (removed_world w a md)) (live_links (removed_world w a md))"
    unfolding links' using inv live' by (intro table_drop [where live = "live_links w"]) (auto simp: world_inv_def)
  with ok' show "world_inv (removed_world w a md)" by (simp add: world_inv_def)
qed

subsection \<open>Add\<close>

definition built_metadata :: "card_world \<Rightarrow> jstring \<Rightarrow> card_metadata" where
  "built_metadata w a =
     (let n = next_handle w in
      \<lparr>md_id = a, md_card = n,
       md_cells = [(slot_this, n + 2), (slot_left, n + 3), (slot_right, n + 4), (slot_above, n + 5),
         (slot_below, n + 6), (''updater'', n + 8), (''emitter'', n + 9)],
       md_propagators = [(''unfolder'', n + 7), (''io_propagator'', n + 10), (''emitter_propagator'', n + 11)],
       md_links = [], md_source = n + 1, md_timestamp = 0, md_local_env = None\<rparr>)"

definition construction_effects :: "handle \<Rightarrow> jstring \<Rightarrow> effect list" where
  "construction_effects n a =
     [ExecuteAll, EmitToRuntime (n + 11) a (n + 2), CardIO (n + 10) (n + 2) (n + 8) (n + 9),
      ConstructCell (n + 9) (''emitter'' @ a) None, ConstructCell (n + 8) (''updater'' @ a) None,
      ExecuteAll, Unfold (n + 7) [n, n + 2, n + 3, n + 4, n + 5, n + 6],
      ConstructCell (n + 6) (create_card_cell_name a slot_below) None,
      ConstructCell (n + 5) (create_card_cell_name a slot_above) None,
      ConstructCell (n + 4) (create_card_cell_name a slot_right) None,
      ConstructCell (n + 3) (create_card_cell_name a slot_left) None,
      ConstructCell (n + 2) (create_card_cell_name a slot_this) None,
      SourceCell (n + 1) (''card-compile:'' @ a), InitMap n,
      ConstructCell n (make_name [card_header, a]) (Some a)]"

lemma add_run:
  "add_card a w = (Inr a, w\<lparr>next_handle := next_handle w + 12,
     effects := construction_effects (next_handle w) a @ effects w,
     cards := AList.update a (built_metadata w a) (cards w)\<rparr>)"
  by (simp add: add_card_def construct_card_metadata_def execute_all_tasks_sequential_def set_card_metadata_def
      construction_effects_def built_metadata_def Let_def numeral_eq_Suc)

lemma construction_target: "link_target (construction_effects n a @ es) = link_target es"
  by (simp add: construction_effects_def fun_eq_iff)

lemma construction_name: "c < n \<Longrightarrow> cell_name_of (construction_effects n a @ es) c = cell_name_of es c"
  by (simp add: construction_effects_def)

lemma built_cells:
  "\<forall>h \<in> snd ` set (md_cells (built_metadata w a)). h < next_handle w + 12 \<and>
     \<not> is_placeholder (construction_effects (next_handle w) a @ effects w) h"
  by (simp add: built_metadata_def Let_def construction_effects_def is_placeholder_def
      starts_with_def create_card_cell_name_def make_name_def CARD_HEADER_def)

lemma add_fresh:
  assumes inv: "world_inv w" and fresh: "\<not> has_card w a"
  shows "world_inv (snd (add_card a w))" and "links_of (snd (add_card a w)) = links_of w"
    and "live_links (snd (add_card a w)) = live_links w"
    and "map_of (cards (snd (add_card a w))) = (map_of (cards w))(a \<mapsto> built_metadata w a)"
proof -
  let ?w = "snd (add_card a w)"
  have ok: "world_ok w" using inv by (simp add: world_inv_def)
  have w: "effects ?w = construction_effects (next_handle w) a @ effects w"
    "next_handle ?w = next_handle w + 12" "cards ?w = AList.update a (built_metadata w a) (cards w)"
    by (simp_all add: add_run)
  show cards: "map_of (cards ?w) = (map_of (cards w))(a \<mapsto> built_metadata w a)"
    by (simp add: w update_conv')
  have "md_links (built_metadata w a) = []" "md_id (built_metadata w a) = a"
    "map fst (md_cells (built_metadata w a)) = all_slots @ [''updater'', ''emitter'']"
    by (simp_all add: built_metadata_def Let_def all_slots_def)
  note built = this built_cells [of w a]
  show links: "links_of ?w = links_of w"
    using fresh built(1) by (auto simp: links_of_def cards fun_eq_iff has_card_def)
  let ?v = "w\<lparr>next_handle := next_handle w + 12, effects := construction_effects (next_handle w) a @ effects w\<rparr>"
  have ok0: "world_ok ?v"
    by (rule world_ok_frame [OF ok]) (simp_all add: construction_target construction_name)
  have live0: "live_links ?v = live_links w"
  proof -
    have "is_placeholder (effects ?v) c = is_placeholder (effects w) c" if "link_target (effects w) l = Some c" for l c
      using ok that by (simp add: is_placeholder_def construction_name world_ok_def)
    then show ?thesis
      by (auto simp: live_links_def live_link_def construction_target split: option.splits)
  qed
  moreover have "live_links (snd (add_card a w)) = live_links ?v"
    by (simp add: live_links_def w)
  ultimately show live': "live_links (snd (add_card a w)) = live_links w" by simp
  have "distinct (map fst (cards ?w))" using ok by (simp add: w distinct_update world_ok_def)
  moreover have "md_id md = x \<and> (\<forall>h \<in> snd ` set (md_cells md). h < next_handle ?w)
      \<and> (\<forall>h \<in> snd ` set (md_cells md). \<not> is_placeholder (effects ?w) h)
      \<and> map fst (md_cells md) = all_slots @ [''updater'', ''emitter'']"
    if "map_of (cards ?w) x = Some md" for x md
  proof (cases "x = a")
    case True
    with that cards have "md = built_metadata w a" by simp
    with built True show ?thesis by (simp add: w)
  next
    case False
    with that cards have "map_of (cards ?v) x = Some md" by simp
    from world_ok_card [OF ok0 this] show ?thesis by (simp add: w)
  qed
  moreover have "\<forall>l c. link_target (effects ?w) l = Some c \<longrightarrow> c < next_handle ?w"
    using ok0 by (simp add: world_ok_def w)
  moreover have "\<forall>x k ls. links_of ?w x k = Some ls \<longrightarrow> (\<forall>l \<in> set ls. l < next_handle ?w)"
    using ok0 by (simp add: world_ok_def w links)
  ultimately have "world_ok ?w" unfolding world_ok_def by blast
  with inv show "world_inv ?w" by (simp add: world_inv_def links live')
qed

subsection \<open>Build and update\<close>

text \<open>
  Building and updating leave ids, tracked cells and connections alone: they move along the
  preorder \<open>same_cards\<close>.
\<close>

definition card_core :: "card_metadata \<Rightarrow> jstring \<times> (jstring, handle) jmap \<times> (jstring, handle list) jmap" where
  "card_core md = (md_id md, md_cells md, md_links md)"

definition same_cards :: "card_world \<Rightarrow> card_world \<Rightarrow> bool" where
  "same_cards w w' \<longleftrightarrow> next_handle w \<le> next_handle w'
     \<and> link_target (effects w') = link_target (effects w)
     \<and> (\<forall>c < next_handle w. cell_name_of (effects w') c = cell_name_of (effects w) c)
     \<and> (\<forall>a. map_option card_core (map_of (cards w') a) = map_option card_core (map_of (cards w) a))
     \<and> (distinct (map fst (cards w)) \<longrightarrow> distinct (map fst (cards w')))"

interpretation frame: frame_relation same_cards
  by unfold_locales (auto simp: same_cards_def)

lemma same_cards_links: "same_cards w w' \<Longrightarrow> links_of w' = links_of w \<and> has_card w' = has_card w"
proof -
  assume "same_cards w w'"
  then have core: "map_option card_core (map_of (cards w') a) = map_option card_core (map_of (cards w) a)" for a
    by (simp add: same_cards_def)
  have "links_of w' a k = links_of w a k \<and> has_card w' a = has_card w a" for a k
    using core [of a] by (cases "map_of (cards w') a"; cases "map_of (cards w) a")
      (auto simp: links_of_def has_card_def card_core_def)
  then show ?thesis by blast
qed

lemma same_cards_inv:
  assumes "same_cards w w'" and inv: "world_inv w"
  shows "world_inv w'" and "live_links w' = live_links w"
proof -
  have ok: "world_ok w" using inv by (simp add: world_inv_def)
  note links = same_cards_links [OF assms(1)]
  have ok': "world_ok w'"
    unfolding world_ok_def
  proof (intro conjI allI impI)
    show "distinct (map fst (cards w'))" using assms(1) ok by (simp add: same_cards_def world_ok_def)
    fix a md assume md: "map_of (cards w') a = Some md"
    have "map_option card_core (map_of (cards w) a) = Some (card_core md)"
      using assms(1) md unfolding same_cards_def by (metis option.map(2))
    then obtain md0 where md0: "map_of (cards w) a = Some md0" "card_core md0 = card_core md" by auto
    note old = world_ok_card [OF ok md0(1)]
    have core: "md_id md = md_id md0" "md_cells md = md_cells md0" using md0(2) by (simp_all add: card_core_def)
    then show "md_id md = a" "map fst (md_cells md) = all_slots @ [''updater'', ''emitter'']"
      using old by simp_all
    show "\<forall>h \<in> snd ` set (md_cells md). h < next_handle w'"
      using old(2) assms(1) core by (fastforce simp: same_cards_def)
    show "\<forall>h \<in> snd ` set (md_cells md). \<not> is_placeholder (effects w') h"
      using old(2,3) assms(1) core by (simp add: same_cards_def is_placeholder_def)
  next
    fix l c assume "link_target (effects w') l = Some c"
    then show "c < next_handle w'"
      using assms(1) ok unfolding same_cards_def world_ok_def by (metis order_less_le_trans)
  next
    fix a k ls assume "links_of w' a k = Some ls"
    then show "\<forall>l \<in> set ls. l < next_handle w'"
      using assms(1) ok links unfolding same_cards_def world_ok_def by (metis order_less_le_trans)
  qed
  show live: "live_links w' = live_links w"
  proof -
    have "is_placeholder (effects w') c = is_placeholder (effects w) c" if "link_target (effects w) l = Some c" for l c
      using ok that assms(1) by (simp add: is_placeholder_def same_cards_def world_ok_def)
    moreover have "link_target (effects w') = link_target (effects w)" using assms(1) by (simp add: same_cards_def)
    ultimately show ?thesis by (auto simp: live_links_def live_link_def split: option.splits)
  qed
  show "world_inv w'" using inv ok' links live by (simp add: world_inv_def)
qed

lemma along_emit:
  "(\<And>es. link_target (e # es) = link_target es) \<Longrightarrow> (\<And>es. cell_name_of (e # es) = cell_name_of es) \<Longrightarrow>
   frame.along (emit e)"
  unfolding emit_def by (rule frame.along_changes) (simp add: same_cards_def)

lemma along_create:
  "(\<And>h es. link_target (mk h # es) = link_target es) \<Longrightarrow>
   (\<And>h es c. c \<noteq> h \<Longrightarrow> cell_name_of (mk h # es) c = cell_name_of es c) \<Longrightarrow> frame.along (create mk)"
  by (simp add: frame.along_def same_cards_def)

lemma along_change_metadata:
  assumes "\<And>md. card_core (f md) = card_core md"
  shows "frame.along (change_metadata a f)"
  unfolding change_metadata_def
proof (rule frame.along_changes)
  fix w
  show "same_cards w (change_stored a f w)"
    using assms by (auto simp: same_cards_def map_of_change_stored option.map_comp comp_def)
      (simp add: change_stored_def distinct_update split: option.splits)
qed

lemma along_guarantee: "frame.along (guarantee_get_card_metadata a)" "frame.along (guarantee_get t k)"
  "frame.along (tracked_cell a k)"
  by (auto simp: frame.along_def guarantee_run guarantee_get_def tracked_run frame.refl split: option.splits)

lemma along_dispose: "frame.along (dispose_propagator p)" "frame.along execute_all_tasks_sequential"
  unfolding dispose_propagator_def execute_all_tasks_sequential_def
  by (rule along_emit; simp add: fun_eq_iff)+

lemma along_local_env: "frame.along (get_local_env env c)"
  unfolding get_local_env_def internal_cell_getter_def extends_local_environment_def
  by (intro frame.along_rules along_create along_emit) (simp_all add: fun_eq_iff)

lemma along_build: "frame.along (build_card L env a)"
  unfolding build_card_def card_metadata_build_def dispose_compiled_def dispose_local_env_def Let_def
  by (intro frame.along_rules along_guarantee along_dispose along_local_env along_create along_change_metadata)
    (simp_all add: fun_eq_iff card_core_def)

lemma along_update: "frame.along (update_card L a v)"
  unfolding update_card_def card_metadata_update_def update_specialized_reactive_value_def
  by (intro frame.along_rules along_guarantee along_emit) (simp_all add: fun_eq_iff)

section \<open>Reachable states\<close>

definition empty_world :: card_world where
  "empty_world = \<lparr>next_handle = 0, effects = [], cards = []\<rparr>"

text \<open>
  The states the lifecycle operations reach, whether they return or throw, when \<open>add_card\<close> is
  called for ids that are not in use.
\<close>

inductive card_reach :: "library \<Rightarrow> card_world \<Rightarrow> bool" for L where
  reach_empty: "card_reach L empty_world"
| reach_add: "card_reach L w \<Longrightarrow> \<not> has_card w a \<Longrightarrow> card_reach L (snd (add_card a w))"
| reach_connect: "card_reach L w \<Longrightarrow> card_reach L (snd (connect_cards a b ka kb w))"
| reach_detach: "card_reach L w \<Longrightarrow> card_reach L (snd (detach_cards a b w))"
| reach_remove: "card_reach L w \<Longrightarrow> card_reach L (snd (remove_card a w))"
| reach_build: "card_reach L w \<Longrightarrow> card_reach L (snd (build_card L env a w))"
| reach_update: "card_reach L w \<Longrightarrow> card_reach L (snd (update_card L a v w))"

lemma empty_world_inv: "world_inv empty_world"
  by (simp add: world_inv_def world_ok_def table_ok_def empty_world_def links_of_def live_links_def live_link_def)

lemma card_reach_inv: "card_reach L w \<Longrightarrow> world_inv w"
proof (induction rule: card_reach.induct)
  case (reach_remove w a)
  then show ?case using removed_world(1) by (auto simp: remove_run split: option.splits)
next
  case (reach_build w env a)
  then show ?case using same_cards_inv(1) along_build frame.along_def by metis
next
  case (reach_update w a v)
  then show ?case using same_cards_inv(1) along_update frame.along_def by metis
qed (simp_all add: empty_world_inv add_fresh connect_inv detach_inv detach_cards_def)

lemma update_run:
  assumes "world_ok w" and "map_of (cards w) a = Some md"
  obtains this_cell updater where "map_of (md_cells md) slot_this = Some this_cell"
    and "map_of (md_cells md) ''updater'' = Some updater"
    and "update_card L a v w =
      (if lib_is_equal L (lib_base_value L (effects w) this_cell) (lib_get_base L v) then (Inr False, w)
       else (Inr True, w\<lparr>effects := ReactiveUpdate updater v a (lib_has_channel L (effects w) updater a) # effects w\<rparr>))"
proof -
  have a: "has_card w a" using assms(2) by (simp add: has_card_def)
  obtain t where t: "tracked_cell a slot_this w = (Inr t, w)"
    using tracked_ok [OF assms(1) a, of slot_this] by (auto simp: all_slots_def)
  obtain u where u: "tracked_cell a ''updater'' w = (Inr u, w)"
    using tracked_ok [OF assms(1) a, of "''updater''"] by auto
  have "map_of (md_cells md) slot_this = Some t" "map_of (md_cells md) ''updater'' = Some u"
    using t u assms(2) by (auto simp: tracked_run split: option.splits)
  moreover have "update_card L a v w =
      (if lib_is_equal L (lib_base_value L (effects w) t) (lib_get_base L v) then (Inr False, w)
       else (Inr True, w\<lparr>effects := ReactiveUpdate u v a (lib_has_channel L (effects w) u a) # effects w\<rparr>))"
    by (simp add: update_card_def andthen_guarantee assms(2) card_metadata_update_def
        andthen_run(1) [of "tracked_cell a slot_this", OF t] andthen_run(1) [of "tracked_cell a ''updater''", OF u]
        update_specialized_reactive_value_def)
  ultimately show ?thesis by (rule that)
qed

subsection \<open>What a build does\<close>

definition old_network_effects :: "card_metadata \<Rightarrow> effect list" where
  "old_network_effects md =
     (case map_of (md_propagators md) ''compiled_network'' of None \<Rightarrow> [] | Some p \<Rightarrow> [ExecuteAll, Dispose p])"

definition old_env_effects :: "library \<Rightarrow> card_metadata \<Rightarrow> effect list \<Rightarrow> effect list" where
  "old_env_effects L md es =
     (case md_local_env md of None \<Rightarrow> []
      | Some e \<Rightarrow> rev (map Dispose (concat (map (case_option [] (\<lambda>p. [p])) (lib_neighbors L es e)))))"

lemma dispose_neighbors_run:
  "for_each (\<lambda>p. case p of None \<Rightarrow> ret () | Some q \<Rightarrow> dispose_propagator q) ns w =
     (Inr (), w\<lparr>effects := rev (map Dispose (concat (map (case_option [] (\<lambda>p. [p])) ns))) @ effects w\<rparr>)"
  by (induction ns arbitrary: w) (auto simp: dispose_propagator_def andthen_def split: option.splits)

lemma dispose_compiled_run:
  "map_of (cards w) a = Some md \<Longrightarrow>
   dispose_compiled a w = (Inr (), w\<lparr>effects := old_network_effects md @ effects w\<rparr>)"
  by (simp add: dispose_compiled_def andthen_guarantee old_network_effects_def dispose_propagator_def
      execute_all_tasks_sequential_def split: option.splits)

lemma dispose_local_env_run:
  assumes "map_of (cards w) a = Some md"
  shows "dispose_local_env L a w = (Inr (),
     change_stored a (\<lambda>md. md\<lparr>md_local_env := None\<rparr>)
       (w\<lparr>effects := old_env_effects L md (effects w) @ effects w\<rparr>))
   \<or> (md_local_env md = None \<and> dispose_local_env L a w = (Inr (), w))"
  using assms
  by (simp add: dispose_local_env_def andthen_guarantee old_env_effects_def change_metadata_def
      andthen_run(1) [OF dispose_neighbors_run] split: option.splits)

definition environment_effects :: "handle \<Rightarrow> handle \<Rightarrow> handle \<Rightarrow> effect list" where
  "environment_effects n env c =
     [SelectiveSync (n + 5) env,
      ExtendEnv (n + 5) env [(slot_this, n), (slot_left, n + 1), (slot_right, n + 2), (slot_above, n + 3),
        (slot_below, n + 4)],
      DictAccessor (n + 4) slot_below c, DictAccessor (n + 3) slot_above c, DictAccessor (n + 2) slot_right c,
      DictAccessor (n + 1) slot_left c, DictAccessor n slot_this c]"

lemma local_env_run:
  "get_local_env env c w = (Inr (next_handle w + 5),
     w\<lparr>next_handle := next_handle w + 6, effects := environment_effects (next_handle w) env c @ effects w\<rparr>)"
  by (simp add: get_local_env_def internal_cell_getter_def extends_local_environment_def environment_effects_def
      numeral_eq_Suc)

lemma andthen_local_env:
  "andthen (get_local_env env c) f w = f (next_handle w + 5)
     (w\<lparr>next_handle := next_handle w + 6, effects := environment_effects (next_handle w) env c @ effects w\<rparr>)"
  by (simp add: andthen_run(1) [OF local_env_run])

text \<open>The state after the disposal of the previous build.\<close>

lemma disposals_run:
  assumes "map_of (cards w) a = Some md"
  defines "es \<equiv> old_network_effects md @ effects w"
  obtains w1 where "dispose_local_env L a (w\<lparr>effects := es\<rparr>) = (Inr (), w1)"
    and "effects w1 = old_env_effects L md es @ es" and "next_handle w1 = next_handle w"
    and "map_of (cards w1) = (map_of (cards w))(a \<mapsto> md\<lparr>md_local_env := None\<rparr>)"
proof -
  let ?v = "w\<lparr>effects := es\<rparr>"
  have "map_of (cards ?v) a = Some md" using assms(1) by simp
  from dispose_local_env_run [OF this, of L] show ?thesis
  proof
    assume "dispose_local_env L a ?v = (Inr (),
       change_stored a (\<lambda>md. md\<lparr>md_local_env := None\<rparr>) (?v\<lparr>effects := old_env_effects L md (effects ?v) @ effects ?v\<rparr>))"
    then show ?thesis by (rule that) (simp_all add: map_of_change_stored assms(1))
  next
    assume *: "md_local_env md = None \<and> dispose_local_env L a ?v = (Inr (), ?v)"
    then have "md\<lparr>md_local_env := None\<rparr> = md" by simp
    with * show ?thesis
      by (intro that [of ?v]) (auto simp: old_env_effects_def assms(1) fun_eq_iff)
  qed
qed

lemma build_run:
  assumes "world_ok w" and "map_of (cards w) a = Some md"
  defines "es \<equiv> old_network_effects md @ effects w" and "n \<equiv> next_handle w"
  obtains w' this_cell where "build_card L env a w = (Inr a, w')"
    and "map_of (md_cells md) slot_this = Some this_cell"
    and "effects w' = ExecuteAll # CompileNetwork (n + 6) this_cell (n + 5) (md_source md) (md_timestamp md)
      # environment_effects n env (md_card md) @ old_env_effects L md es @ es"
    and "map_of (cards w') = (map_of (cards w))(a \<mapsto> md\<lparr>
      md_propagators := AList.update ''compiled_network'' (n + 6) (md_propagators md),
      md_timestamp := md_timestamp md + 1, md_local_env := Some (n + 5)\<rparr>)"
proof -
  obtain w1 where w1: "dispose_local_env L a (w\<lparr>effects := es\<rparr>) = (Inr (), w1)"
    "effects w1 = old_env_effects L md es @ es" "next_handle w1 = next_handle w"
    "map_of (cards w1) = (map_of (cards w))(a \<mapsto> md\<lparr>md_local_env := None\<rparr>)"
    using disposals_run [OF assms(2), of L] unfolding es_def by blast
  have "slot_this \<in> set (map fst (md_cells md))"
    using world_ok_card(4) [OF assms(1,2)] by (simp add: all_slots_def)
  then obtain this_cell where t: "map_of (md_cells md) slot_this = Some this_cell"
    by (metis list.set_map map_of_eq_None_iff not_None_eq)
  let ?w2 = "change_stored a (\<lambda>md. md\<lparr>md_local_env := Some (n + 5)\<rparr>)
    (w1\<lparr>next_handle := n + 6, effects := environment_effects n env (md_card md) @ effects w1\<rparr>)"
  let ?w3 = "?w2\<lparr>next_handle := 7 + n, effects :=
    CompileNetwork (n + 6) this_cell (n + 5) (md_source md) (md_timestamp md) # effects ?w2\<rparr>"
  let ?w4 = "change_stored a (\<lambda>md'. md'\<lparr>md_propagators := AList.update ''compiled_network'' (n + 6) (md_propagators md'),
     md_timestamp := md_timestamp md + 1\<rparr>) ?w3"
  have "build_card L env a w = (Inr a, ?w4\<lparr>effects := ExecuteAll # effects ?w4\<rparr>)"
    using assms(2) w1 t
    by (simp add: build_card_def card_metadata_build_def andthen_guarantee
        andthen_run(1) [of "dispose_compiled a", OF dispose_compiled_run] es_def [symmetric]
        andthen_run(1) [of "dispose_local_env L a", OF w1(1)] andthen_local_env change_metadata_def
        guarantee_get_def execute_all_tasks_sequential_def n_def Let_def)
  moreover have "map_of (cards ?w4) = (map_of (cards w))(a \<mapsto> md\<lparr>
      md_propagators := AList.update ''compiled_network'' (n + 6) (md_propagators md),
      md_timestamp := md_timestamp md + 1, md_local_env := Some (n + 5)\<rparr>)"
    by (simp add: map_of_change_stored w1(4) fun_eq_iff)
  ultimately show ?thesis using that t w1(2) by simp
qed

section \<open>Properties\<close>

definition sample_library :: library where
  "sample_library = \<lparr>lib_base_value = \<lambda>_ _. JUndef, lib_get_base = \<lambda>v. v, lib_is_equal = \<lambda>a b. a = b,
     lib_neighbors = \<lambda>_ _. [], lib_has_channel = \<lambda>_ _ _. False\<rparr>"

definition two_cards :: card_world where
  "two_cards = snd (add_card ''b'' (snd (add_card ''a'' empty_world)))"

definition two_connected :: card_world where
  "two_connected = snd (connect_cards ''a'' ''b'' slot_right slot_left two_cards)"

lemma has_card_add: "has_card (snd (add_card a w)) x \<longleftrightarrow> x = a \<or> has_card w x"
  by (simp add: has_card_def add_run update_conv')

lemma two_cards_has: "has_card two_cards x \<longleftrightarrow> x = ''a'' \<or> x = ''b''"
  by (auto simp: two_cards_def has_card_add) (simp add: has_card_def empty_world_def)

lemma two_cards_reach: "card_reach L two_cards"
  unfolding two_cards_def
  by (intro reach_add reach_empty) (simp_all add: has_card_add, simp_all add: has_card_def empty_world_def)

definition built_at :: "handle \<Rightarrow> jstring \<Rightarrow> card_metadata" where
  "built_at n a = built_metadata (empty_world\<lparr>next_handle := n\<rparr>) a"

lemma built_at: "built_metadata w a = built_at (next_handle w) a"
  by (simp add: built_at_def built_metadata_def Let_def)

lemma built_at_simps [simp]: "md_links (built_at n a) = []" "md_id (built_at n a) = a"
  "map_of (md_cells (built_at n a)) slot_this = Some (n + 2)"
  "map_of (md_cells (built_at n a)) slot_left = Some (n + 3)"
  "map_of (md_cells (built_at n a)) slot_right = Some (n + 4)"
  by (simp_all add: built_at_def built_metadata_def Let_def slot_defs)

lemma two_cards_eq: "two_cards = \<lparr>next_handle = 24,
    effects = construction_effects 12 ''b'' @ construction_effects 0 ''a'',
    cards = [(''a'', built_at 0 ''a''), (''b'', built_at 12 ''b'')]\<rparr>"
  by (simp add: two_cards_def add_run empty_world_def built_at)

lemma connect_fresh:
  assumes "map_of (cards w) a = Some mda" "map_of (cards w) b = Some mdb"
    and "map_of (md_links mda) (link_key a b) = None"
    and "map_of (md_cells mda) ka = Some kA" "map_of (md_cells mdb) kb = Some kB"
    and "map_of (md_cells mda) slot_this = Some At" "map_of (md_cells mdb) slot_this = Some Bt"
  shows "connect_cards a b ka kb w = (Inr (), activated_world w a b kA kB At Bt)"
  using assms
  by (simp add: connect_cards_def card_metadata_connect_def andthen_guarantee clear_previous_def
      tracked_cell_def guarantee_get_def activated_world_def activate_run)

lemma two_connected_eq: "two_connected = activated_world two_cards ''a'' ''b'' 4 15 2 14"
  unfolding two_connected_def
  by (subst connect_fresh [where mda = "built_at 0 ''a''" and mdb = "built_at 12 ''b''"])
    (simp_all add: two_cards_eq)

definition readded :: card_world where
  "readded = snd (add_card ''a'' two_connected)"

definition reconnected :: "card_world \<Rightarrow> card_world" where
  "reconnected w = snd (connect_cards ''a'' ''b'' slot_right slot_left w)"

lemma activated_effects:
  "effects (activated_world w a b kA kB At Bt) = effects (active_world w (link_key a b) kA kB At Bt)"
  by (simp add: activated_world_def activate_run Let_def)

lemma readded_cards: "map_of (cards readded) ''a'' = Some (built_at 28 ''a'')"
  "\<exists>md. map_of (cards readded) ''b'' = Some md \<and> md_cells md = md_cells (built_at 12 ''b'')
     \<and> md_links md = [(link_key ''b'' ''a'', [24, 25, 26, 27])]"
  "map_of (cards readded) x = None \<longleftrightarrow> x \<noteq> ''a'' \<and> x \<noteq> ''b''"
  by (auto simp: readded_def add_run built_at two_connected_eq activated_world_def activate_run Let_def
      update_conv' map_of_change_stored active_world_def two_cards_eq)

lemma readded_connect:
  "snd (connect_cards ''a'' ''b'' slot_right slot_left readded) = activated_world readded ''a'' ''b'' 32 15 30 14"
proof -
  obtain md where md: "map_of (cards readded) ''b'' = Some md" "md_cells md = md_cells (built_at 12 ''b'')"
    using readded_cards(2) by auto
  show ?thesis
    by (subst connect_fresh [OF readded_cards(1) md(1)]) (simp_all add: md(2))
qed


text \<open>
  C26: Connecting two existing cards by native slots succeeds: both tables then hold the same
  four links, all of them live, any earlier connection of the pair is replaced, and the
  tables of all other pairs are untouched.
\<close>

theorem connect_cards_spec:
  assumes "card_reach L w" and "has_card w a" and "has_card w b"
    and "ka \<in> set all_slots" and "kb \<in> set all_slots"
  shows "\<exists>w' ls. connect_cards a b ka kb w = (Inr (), w') \<and> length ls = 4 \<and> (\<forall>l \<in> set ls. live_link (effects w') l)
    \<and> links_of w' = table_set (table_set (links_of w) a (link_key a b) (Some ls)) b (link_key b a) (Some ls)"
proof -
  obtain w' ls where "connect_cards a b ka kb w = (Inr (), w')" "length ls = 4" "set ls \<subseteq> live_links w'"
    "links_of w' = table_set (table_set (links_of w) a (link_key a b) (Some ls)) b (link_key b a) (Some ls)"
    using connect_success [OF card_reach_inv [OF assms(1)] assms(2-5)] by metis
  then show ?thesis
    by (intro exI [of _ w'] exI [of _ ls]) (auto simp: live_links_def)
qed

theorem connect_cards_spec_witness:
  "\<exists>w' ls. connect_cards ''a'' ''b'' slot_right slot_left two_cards = (Inr (), w') \<and> length ls = 4 \<and>
     (\<forall>l \<in> set ls. live_link (effects w') l) \<and> links_of w' ''b'' ''b->a'' = Some ls"
proof -
  obtain w' ls where "connect_cards ''a'' ''b'' slot_right slot_left two_cards = (Inr (), w')" "length ls = 4"
    "\<forall>l \<in> set ls. live_link (effects w') l"
    "links_of w' = table_set (table_set (links_of two_cards) ''a'' (link_key ''a'' ''b'') (Some ls)) ''b'' (link_key ''b'' ''a'') (Some ls)"
    using connect_cards_spec [OF two_cards_reach, of "''a''" "''b''" slot_right slot_left]
    by (auto simp: two_cards_has all_slots_def)
  then show ?thesis by (auto simp: table_set_def link_key_def)
qed


text \<open>
  Detaching. It throws, without any change, when a card or the connection does not exist;
  otherwise both tables lose the entry, exactly the links of that connection are cut, and
  nothing else changes in the tables.
\<close>

lemma detach_cards_spec:
  assumes "card_reach L w"
  shows "case detach_cards a b w of
      (Inl e, w') \<Rightarrow> w' = w \<and> (\<not> has_card w a \<or> \<not> has_card w b \<or> links_of w a (link_key a b) = None)
    | (Inr _, w') \<Rightarrow> \<exists>ls. links_of w a (link_key a b) = Some ls
        \<and> links_of w' = table_set (table_set (links_of w) a (link_key a b) None) b (link_key b a) None
        \<and> {l. live_link (effects w') l} = {l. live_link (effects w) l} - set ls"
proof (cases "has_card w a \<and> has_card w b \<and> links_of w a (link_key a b) \<noteq> None")
  case True
  then obtain ls where ls: "links_of w a (link_key a b) = Some ls" by auto
  obtain w' where "detach_cards_by_key a b w = (Inr (), w')"
    "links_of w' = table_set (table_set (links_of w) a (link_key a b) None) b (link_key b a) None"
    "live_links w' = live_links w - set ls"
    using detach_success [OF card_reach_inv [OF assms] _ _ ls] True by blast
  then show ?thesis by (simp add: detach_cards_def ls live_links_def)
next
  case False
  then show ?thesis
    by (auto simp: detach_cards_def detach_cards_run detach_run has_card_def split: option.splits)
qed

text \<open>
  Removing a card throws when it is unknown, and otherwise deletes exactly this card,
  disposes every propagator it tracks and cuts every link it has.
\<close>

lemma remove_card_spec:
  assumes "card_reach L w"
  shows "case remove_card a w of
      (Inl e, w') \<Rightarrow> w' = w \<and> e = CardNotFound a \<and> \<not> has_card w a
    | (Inr _, w') \<Rightarrow> \<exists>md. map_of (cards w) a = Some md
        \<and> map_of (cards w') = (map_of (cards w))(a := None)
        \<and> Dispose ` snd ` set (md_propagators md) \<subseteq> set (effects w')
        \<and> (\<forall>k ls l. links_of w a k = Some ls \<longrightarrow> l \<in> set ls \<longrightarrow> \<not> live_link (effects w') l)"
proof (cases "map_of (cards w) a")
  case None
  then show ?thesis by (simp add: remove_run has_card_def)
next
  case (Some md)
  note r = removed_world [OF card_reach_inv [OF assms] Some]
  have grow: "set (effects v) \<subseteq> set (effects (cut_all kls v))" for kls v
    by (induction kls arbitrary: v) (fastforce simp: cut_all_def cut_world_def)+
  have "Dispose ` snd ` set (md_propagators md) \<subseteq> set (effects (removed_world w a md))"
    using grow [of "w\<lparr>effects := map Dispose (rev (map snd (md_propagators md))) @ effects w\<rparr>" "md_links md"]
    by (auto simp: removed_world_def Let_def)
  moreover have "\<not> live_link (effects (removed_world w a md)) l" if "links_of w a k = Some ls" "l \<in> set ls" for k ls l
  proof -
    have "(k, ls) \<in> set (md_links md)" using that(1) Some by (auto simp: links_of_def dest: map_of_SomeD)
    then have "l \<notin> live_links (removed_world w a md)" using that(2) r(3) by force
    then show ?thesis by (simp add: live_links_def)
  qed
  ultimately show ?thesis using r(2) Some by (simp add: remove_run)
qed

text \<open>
  An update reaches the propagator network exactly when the value differs from what the
  card shows: an equal value changes nothing and reports that; a different value is sent once,
  to the card's updater cell, under the card's id.
\<close>

lemma update_card_spec:
  assumes "card_reach L w" and "map_of (cards w) a = Some md"
  shows "\<exists>this_cell updater. map_of (md_cells md) slot_this = Some this_cell
    \<and> map_of (md_cells md) ''updater'' = Some updater
    \<and> update_card L a v w =
      (if lib_is_equal L (lib_base_value L (effects w) this_cell) (lib_get_base L v) then (Inr False, w)
       else (Inr True, w\<lparr>effects := ReactiveUpdate updater v a (lib_has_channel L (effects w) updater a) # effects w\<rparr>))"
proof -
  have "world_ok w" using card_reach_inv [OF assms(1)] by (simp add: world_inv_def)
  from update_run [OF this assms(2), of L v] show ?thesis by metis
qed

text \<open>
  A build of an existing card always succeeds. It disposes the network of the previous
  build and flushes the scheduler before it compiles the new one, compiles exactly one network,
  with the next timestamp, and stores the new network, its environment and the timestamp.
\<close>

lemma build_card_spec:
  assumes "card_reach L w" and "map_of (cards w) a = Some md"
  shows "\<exists>w' net this_cell local_env news. build_card L env a w = (Inr a, w')
    \<and> effects w' = ExecuteAll # CompileNetwork net this_cell local_env (md_source md) (md_timestamp md)
        # news @ old_network_effects md @ effects w
    \<and> (\<forall>h c e s t. CompileNetwork h c e s t \<notin> set news)
    \<and> map_of (cards w') = (map_of (cards w))(a \<mapsto> md\<lparr>
        md_propagators := AList.update ''compiled_network'' net (md_propagators md),
        md_timestamp := md_timestamp md + 1, md_local_env := Some local_env\<rparr>)"
proof -
  let ?n = "next_handle w"
  let ?news = "environment_effects ?n env (md_card md) @ old_env_effects L md (old_network_effects md @ effects w)"
  have "world_ok w" using card_reach_inv [OF assms(1)] by (simp add: world_inv_def)
  then obtain w' t where w': "build_card L env a w = (Inr a, w')"
    "effects w' = ExecuteAll # CompileNetwork (?n + 6) t (?n + 5) (md_source md) (md_timestamp md)
      # environment_effects ?n env (md_card md)
        @ old_env_effects L md (old_network_effects md @ effects w) @ old_network_effects md @ effects w"
    "map_of (cards w') = (map_of (cards w))(a \<mapsto> md\<lparr>
      md_propagators := AList.update ''compiled_network'' (?n + 6) (md_propagators md),
      md_timestamp := md_timestamp md + 1, md_local_env := Some (?n + 5)\<rparr>)"
    using build_run [OF _ assms(2)] by metis
  moreover have "\<forall>h c e s t. CompileNetwork h c e s t \<notin> set ?news"
    by (auto simp: environment_effects_def old_env_effects_def split: option.splits)
  ultimately show ?thesis
    by (intro exI [of _ w'] exI [of _ "?n + 6"] exI [of _ t] exI [of _ "?n + 5"] exI [of _ ?news]) simp
qed

lemma add_card_twice_leaks_parts:
  "live_link (effects (reconnected readded)) 24"
  "\<not> (\<exists>x k ls. links_of (reconnected readded) x k = Some ls \<and> 24 \<in> set ls)"
proof -
  let ?r = "reconnected readded"
  have w: "?r = activated_world readded ''a'' ''b'' 32 15 30 14"
    unfolding reconnected_def by (rule readded_connect)
  have n2: "next_handle two_cards = 24" by (simp add: two_cards_eq)
  then have n1: "next_handle two_connected = 28"
    by (simp add: two_connected_eq activated_world_def activate_run Let_def)
  then have n: "next_handle readded = 40"
    by (simp add: readded_def add_run)
  have e: "effects readded = construction_effects 28 ''a'' @ effects two_connected"
    by (simp add: readded_def add_run n1)
  have "link_target (effects two_connected) 24 = Some 14"
    "cell_name_of (effects two_connected) 14 = cell_name_of (effects two_cards) 14"
    by (simp_all add: two_connected_eq activated_effects active_world_target active_world_name Let_def n2)
  moreover have "cell_name_of (effects two_cards) 14 = Some (create_card_cell_name ''b'' slot_this)"
    by (simp add: two_cards_eq construction_effects_def)
  ultimately have "link_target (effects readded) 24 = Some 14"
    "cell_name_of (effects readded) 14 = Some (create_card_cell_name ''b'' slot_this)"
    by (simp_all add: e construction_target construction_name)
  then show "live_link (effects ?r) 24"
    by (simp add: w live_link_def activated_effects active_world_target Let_def n is_placeholder_def
        active_world_name create_card_cell_name_def make_name_def CARD_HEADER_def starts_with_def)
  obtain md where md: "map_of (cards readded) ''b'' = Some md" "md_links md = [(link_key ''b'' ''a'', [24, 25, 26, 27])]"
    using readded_cards(2) by auto
  have "links_of ?r = table_set (table_set (links_of readded) ''a'' (link_key ''a'' ''b'') (Some [40, 41, 42, 43]))
      ''b'' (link_key ''b'' ''a'') (Some [40, 41, 42, 43])"
    by (simp add: w activated_world_def activate_run Let_def n has_card_def readded_cards(1) md(1))
  moreover have "links_of readded x k = (if x = ''b'' \<and> k = link_key ''b'' ''a'' then Some [24, 25, 26, 27] else None)" for x k
  proof -
    have "links_of readded ''a'' k = None" by (simp add: links_of_def readded_cards(1))
    moreover have "links_of readded ''b'' k = (if k = link_key ''b'' ''a'' then Some [24, 25, 26, 27] else None)"
      by (simp add: links_of_def md)
    moreover have "x \<noteq> ''a'' \<Longrightarrow> x \<noteq> ''b'' \<Longrightarrow> links_of readded x k = None"
      using readded_cards(3) [of x] by (simp add: links_of_def)
    ultimately show ?thesis by (cases "x = ''a''"; cases "x = ''b''"; simp)
  qed
  ultimately have "links_of ?r x k = Some ls \<Longrightarrow> ls = [40, 41, 42, 43]" for x k ls
    by (simp add: table_set_def split: if_splits)
  then show "\<not> (\<exists>x k ls. links_of ?r x k = Some ls \<and> 24 \<in> set ls)" by fastforce
qed

text \<open>
  Why ids must not be added twice. \<open>add_card\<close> replaces the metadata of an id that is in use
  without disposing it: after adding a connected card again and connecting it again, a link of
  the first connection is still live but stands in no table, so no operation can cut it.
\<close>

lemma add_card_twice_leaks:
  "(live_link (effects (reconnected readded)) 24) \<and>
    (\<not> (\<exists>x k ls. links_of (reconnected readded) x k = Some ls \<and> 24 \<in> set ls))"
  by (intro conjI; rule add_card_twice_leaks_parts)

end
