(* ===== verification/Card_Sync.thy ===== *)
theory Card_Sync
  imports Slot_Sync Card_Links
begin

text \<open>
  From card events to the card runtime: the effectful half of \<open>delta/card_slot_sync.ts\<close>, and
  the theorem that connects the two halves. \<open>agrees\<close> says that the runtime holds exactly the
  cards a slot map names and a connection for every edge it declares; applying the difference
  of two slot maps takes a runtime that agrees with the first to one that agrees with the second.
\<close>

definition apply_card_api_event :: "library \<Rightarrow> card_api_event \<Rightarrow> unit card_act" where
  "apply_card_api_event L event =
     (case event of
        CardDetach a b \<Rightarrow> detach_cards_by_key a b
      | CardRemove c \<Rightarrow> remove_card c
      | CardAdd c \<Rightarrow> andthen (add_card c) (\<lambda>_. ret ())
      | CardConnect a s b t \<Rightarrow> connect_cards a b s t
      | CardUpdateValue c v \<Rightarrow> andthen (update_card L c v) (\<lambda>_. ret ()))"

text \<open>The report of the code always lists no issue.\<close>

definition apply_card_api_events_io :: "library \<Rightarrow> card_api_event list \<Rightarrow> jstring list card_act" where
  "apply_card_api_events_io L events =
     andthen (for_each (apply_card_api_event L) events) (\<lambda>_. ret [])"

definition sync_slot_map_to_card_api_io :: "library \<Rightarrow> slot_map \<Rightarrow> slot_map \<Rightarrow> card_api_event list card_act" where
  "sync_slot_map_to_card_api_io L prev_map next_map =
     (let events = diff_slot_maps_to_card_api_events prev_map next_map
      in andthen (apply_card_api_events_io L events) (\<lambda>_. ret events))"

section \<open>Agreement of a slot map and the runtime\<close>

definition edges_of :: "slot_map \<Rightarrow> structural_edge list" where
  "edges_of m = map snd (collect_edges m)"

definition edge_pair :: "structural_edge \<Rightarrow> jstring set" where
  "edge_pair e = {from_id e, to_id e}"

text \<open>
  A slot map the runtime can realise: both ends of an edge are cards of the map, two cards
  are connected by one edge at most, and no entry is the code of a card without a name.
\<close>

definition realizable :: "slot_map \<Rightarrow> bool" where
  "realizable m \<longleftrightarrow> slot_map_inv m
     \<and> (\<forall>e \<in> set (edges_of m). from_id e \<in> set (collect_card_ids m) \<and> to_id e \<in> set (collect_card_ids m))
     \<and> distinct (map edge_pair (edges_of m)) \<and> map_of m ''code'' = None"

definition agrees :: "slot_map \<Rightarrow> card_world \<Rightarrow> bool" where
  "agrees m w \<longleftrightarrow> (\<forall>c. has_card w c \<longleftrightarrow> c \<in> set (collect_card_ids m))
     \<and> (\<forall>e \<in> set (edges_of m). links_of w (from_id e) (link_key (from_id e) (to_id e)) \<noteq> None)"

section \<open>Lemmas\<close>

lemma for_each_append: "for_each f (xs @ ys) s = andthen (for_each f xs) (\<lambda>_. for_each f ys) s"
  by (induction xs arbitrary: s) (auto simp: andthen_def split: sum.splits prod.splits)

lemma for_each_inv:
  assumes "P [] s"
    and "\<And>xs x ys s. zs = xs @ x # ys \<Longrightarrow> P xs s \<Longrightarrow> \<exists>s'. f x s = (Inr (), s') \<and> P (xs @ [x]) s'"
  shows "\<exists>s'. for_each f zs s = (Inr (), s') \<and> P zs s'"
proof -
  have "\<exists>s'. for_each f xs s = (Inr (), s') \<and> P xs s'" if "zs = xs @ ys" for xs ys
    using that
  proof (induction xs arbitrary: ys rule: rev_induct)
    case Nil
    then show ?case using assms(1) by simp
  next
    case (snoc x xs)
    then obtain s' where s': "for_each f xs s = (Inr (), s')" "P xs s'" by auto
    obtain s'' where "f x s' = (Inr (), s'')" "P (xs @ [x]) s''"
      using assms(2) [of xs x ys s'] snoc.prems s'(2) by auto
    with s' show ?case by (simp add: for_each_append andthen_def)
  qed
  then show ?thesis by simp
qed

lemma for_each_map: "for_each f (map g xs) = for_each (\<lambda>x. f (g x)) xs"
  by (induction xs) auto

lemma edges_of_slots:
  assumes "e \<in> set (edges_of m)"
  shows "from_slot e \<in> set all_slots" and "to_slot e \<in> set all_slots"
proof -
  obtain k where "(k, e) \<in> set (collect_edges m)" using assms by (auto simp: edges_of_def)
  then obtain d where d: "declares m d" "e = canonical_edge d"
    using collect_edges_value by (fastforce simp: collect_edges_set)
  then obtain key ref where "declared_edge key ref = Some d" by (auto simp: declares_def)
  then have "from_slot d \<in> set directional_slots \<and> to_slot d \<in> set directional_slots"
    by (auto simp: declared_edge_def Let_def dest: inverse_slot_directional split: if_splits option.splits prod.splits)
  then have "from_slot e \<in> set directional_slots \<and> to_slot e \<in> set directional_slots"
    by (simp add: d(2) canonical_edge_def reverse_edge_def)
  then show "from_slot e \<in> set all_slots" "to_slot e \<in> set all_slots"
    by (auto simp: directional_slots_def all_slots_def)
qed

definition linked :: "card_world \<Rightarrow> structural_edge \<Rightarrow> bool" where
  "linked w e \<longleftrightarrow> links_of w (from_id e) (link_key (from_id e) (to_id e)) \<noteq> None"

lemma linked_cut:
  assumes "links_of w' = table_set (table_set (links_of w) a (link_key a b) None) b (link_key b a) None"
    and "edge_pair e \<noteq> {a, b}"
  shows "linked w' e \<longleftrightarrow> linked w e"
  using assms(2) by (auto simp: linked_def assms(1) table_set_def edge_pair_def)

lemma linked_join:
  assumes "links_of w' = table_set (table_set (links_of w) a (link_key a b) (Some ls)) b (link_key b a) (Some ls)"
    and "linked w e \<or> (from_id e = a \<and> to_id e = b)"
  shows "linked w' e"
  using assms(2) by (auto simp: linked_def assms(1) table_set_def)

subsection \<open>The five phases\<close>

lemma detach_phase:
  assumes "world_inv w" and "distinct (map edge_pair es)"
    and "\<forall>e \<in> set es. linked w e \<and> has_card w (from_id e) \<and> has_card w (to_id e)"
  obtains w' where "for_each (apply_card_api_event L) (map (\<lambda>e. CardDetach (from_id e) (to_id e)) es) w = (Inr (), w')"
    and "world_inv w'" and "has_card w' = has_card w"
    and "\<And>e. edge_pair e \<notin> edge_pair ` set es \<Longrightarrow> linked w' e \<longleftrightarrow> linked w e"
proof -
  let ?P = "\<lambda>xs v. world_inv v \<and> has_card v = has_card w \<and>
    (\<forall>e. edge_pair e \<notin> edge_pair ` set xs \<longrightarrow> (linked v e \<longleftrightarrow> linked w e))"
  have "\<exists>w'. for_each (\<lambda>e. apply_card_api_event L (CardDetach (from_id e) (to_id e))) es w = (Inr (), w') \<and> ?P es w'"
  proof (rule for_each_inv)
    fix xs x ys v
    assume es: "es = xs @ x # ys" and P: "?P xs v"
    have "edge_pair x \<notin> edge_pair ` set xs" using assms(2) by (auto simp: es)
    then have "linked v x" using P assms(3) by (auto simp: es)
    then obtain ls where "links_of v (from_id x) (link_key (from_id x) (to_id x)) = Some ls"
      by (auto simp: linked_def)
    moreover have "has_card v (from_id x)" "has_card v (to_id x)" using P assms(3) by (auto simp: es)
    ultimately obtain v' where v': "detach_cards_by_key (from_id x) (to_id x) v = (Inr (), v')" "world_inv v'"
      "links_of v' = table_set (table_set (links_of v) (from_id x) (link_key (from_id x) (to_id x)) None)
         (to_id x) (link_key (to_id x) (from_id x)) None" "has_card v' = has_card v"
      using detach_success P by metis
    have "linked v' e \<longleftrightarrow> linked v e" if "edge_pair e \<noteq> edge_pair x" for e
      using linked_cut [OF v'(3)] that by (simp add: edge_pair_def)
    then show "\<exists>v'. apply_card_api_event L (CardDetach (from_id x) (to_id x)) v = (Inr (), v') \<and> ?P (xs @ [x]) v'"
      using v' P by (intro exI [of _ v']) (simp add: apply_card_api_event_def)
  qed (use assms(1) in simp)
  then show ?thesis using that by (auto simp: for_each_map)
qed

lemma remove_phase:
  assumes "world_inv w" and "distinct cs" and "\<forall>c \<in> set cs. has_card w c"
  obtains w' where "for_each (apply_card_api_event L) (map CardRemove cs) w = (Inr (), w')"
    and "world_inv w'" and "\<And>c. has_card w' c \<longleftrightarrow> has_card w c \<and> c \<notin> set cs"
    and "\<And>e. from_id e \<notin> set cs \<Longrightarrow> linked w' e \<longleftrightarrow> linked w e"
proof -
  let ?P = "\<lambda>xs v. world_inv v \<and> (\<forall>c. has_card v c \<longleftrightarrow> has_card w c \<and> c \<notin> set xs) \<and>
    (\<forall>e. from_id e \<notin> set xs \<longrightarrow> (linked v e \<longleftrightarrow> linked w e))"
  have "\<exists>w'. for_each (\<lambda>c. apply_card_api_event L (CardRemove c)) cs w = (Inr (), w') \<and> ?P cs w'"
  proof (rule for_each_inv)
    fix xs x ys v
    assume cs: "cs = xs @ x # ys" and P: "?P xs v"
    then have "has_card v x" using assms(2,3) by auto
    then obtain md where md: "map_of (cards v) x = Some md" by (auto simp: has_card_def)
    have inv: "world_inv v" using P by simp
    note r = removed_world [OF inv md]
    show "\<exists>v'. apply_card_api_event L (CardRemove x) v = (Inr (), v') \<and> ?P (xs @ [x]) v'"
      using P r(1) by (intro exI [of _ "removed_world v x md"])
        (auto simp: apply_card_api_event_def remove_run md has_card_def r(2) linked_def r(4))
  qed (use assms(1) in simp)
  then show ?thesis using that by (auto simp: for_each_map)
qed

lemma add_phase:
  assumes "world_inv w" and "distinct cs" and "\<forall>c \<in> set cs. \<not> has_card w c"
  obtains w' where "for_each (apply_card_api_event L) (map CardAdd cs) w = (Inr (), w')"
    and "world_inv w'" and "\<And>c. has_card w' c \<longleftrightarrow> has_card w c \<or> c \<in> set cs" and "links_of w' = links_of w"
proof -
  let ?P = "\<lambda>xs v. world_inv v \<and> (\<forall>c. has_card v c \<longleftrightarrow> has_card w c \<or> c \<in> set xs) \<and> links_of v = links_of w"
  have "\<exists>w'. for_each (\<lambda>c. apply_card_api_event L (CardAdd c)) cs w = (Inr (), w') \<and> ?P cs w'"
  proof (rule for_each_inv)
    fix xs x ys v
    assume cs: "cs = xs @ x # ys" and P: "?P xs v"
    then have "\<not> has_card v x" using assms(2,3) by auto
    note a = add_fresh [OF _ this]
    show "\<exists>v'. apply_card_api_event L (CardAdd x) v = (Inr (), v') \<and> ?P (xs @ [x]) v'"
      using P a by (intro exI [of _ "snd (add_card x v)"])
        (auto simp: apply_card_api_event_def andthen_def has_card_add, simp_all add: add_run)
  qed (use assms(1) in simp)
  then show ?thesis using that by (auto simp: for_each_map)
qed

lemma connect_phase:
  assumes "world_inv w"
    and "\<forall>e \<in> set es. has_card w (from_id e) \<and> has_card w (to_id e) \<and> from_slot e \<in> set all_slots \<and> to_slot e \<in> set all_slots"
  obtains w' where "for_each (apply_card_api_event L)
      (map (\<lambda>e. CardConnect (from_id e) (from_slot e) (to_id e) (to_slot e)) es) w = (Inr (), w')"
    and "world_inv w'" and "has_card w' = has_card w" and "\<And>e. linked w e \<or> e \<in> set es \<Longrightarrow> linked w' e"
proof -
  let ?P = "\<lambda>xs v. world_inv v \<and> has_card v = has_card w \<and> (\<forall>e. linked w e \<or> e \<in> set xs \<longrightarrow> linked v e)"
  have "\<exists>w'. for_each (\<lambda>e. apply_card_api_event L (CardConnect (from_id e) (from_slot e) (to_id e) (to_slot e))) es w
      = (Inr (), w') \<and> ?P es w'"
  proof (rule for_each_inv)
    fix xs x ys v
    assume es: "es = xs @ x # ys" and P: "?P xs v"
    then have "has_card v (from_id x)" "has_card v (to_id x)" "from_slot x \<in> set all_slots" "to_slot x \<in> set all_slots"
      using assms(2) by auto
    then obtain v' ls where v': "connect_cards (from_id x) (to_id x) (from_slot x) (to_slot x) v = (Inr (), v')"
      "world_inv v'" "has_card v' = has_card v"
      "links_of v' = table_set (table_set (links_of v) (from_id x) (link_key (from_id x) (to_id x)) (Some ls))
         (to_id x) (link_key (to_id x) (from_id x)) (Some ls)"
      using connect_success P by metis
    have "linked v' e" if "linked v e \<or> e = x" for e
      using linked_join [OF v'(4)] that by auto
    then show "\<exists>v'. apply_card_api_event L (CardConnect (from_id x) (from_slot x) (to_id x) (to_slot x)) v = (Inr (), v')
        \<and> ?P (xs @ [x]) v'"
      using v' P by (intro exI [of _ v']) (auto simp: apply_card_api_event_def)
  qed (use assms(1) in simp)
  then show ?thesis using that by (auto simp: for_each_map)
qed

lemma update_phase:
  assumes "world_inv w" and "\<forall>e \<in> set es. \<exists>c v. e = CardUpdateValue c v \<and> has_card w c"
  obtains w' where "for_each (apply_card_api_event L) es w = (Inr (), w')"
    and "world_inv w'" and "has_card w' = has_card w" and "links_of w' = links_of w"
proof -
  let ?P = "\<lambda>xs v. world_inv v \<and> has_card v = has_card w \<and> links_of v = links_of w"
  have "\<exists>w'. for_each (apply_card_api_event L) es w = (Inr (), w') \<and> ?P es w'"
  proof (rule for_each_inv)
    fix xs x ys u
    assume es: "es = xs @ x # ys" and P: "?P xs u"
    then obtain c v where x: "x = CardUpdateValue c v" "has_card u c" using assms(2) by auto
    then obtain md where md: "map_of (cards u) c = Some md" by (auto simp: has_card_def)
    have "world_ok u" using P by (simp add: world_inv_def)
    from update_run [OF this md, of L v] obtain r u' where u': "update_card L c v u = (Inr r, u')"
      by metis
    have "same_cards u u'" using along_update [of L c v] u' by (metis frame.alongD)
    with P u' show "\<exists>u'. apply_card_api_event L x u = (Inr (), u') \<and> ?P (xs @ [x]) u'"
      by (intro exI [of _ u']) (auto simp: x apply_card_api_event_def andthen_def
          dest: same_cards_inv(1) same_cards_links)
  qed (use assms(1) in simp)
  then show ?thesis using that by auto
qed

subsection \<open>The difference as a whole\<close>

lemma map_fst_key: "map_of (collect_edges m) k = Some e \<Longrightarrow> e \<in> set (edges_of m)"
  by (force simp: edges_of_def dest: map_of_SomeD)

lemma edges_of_iff: "e \<in> set (edges_of m) \<longleftrightarrow> map_of (collect_edges m) (edge_string e) = Some e"
proof
  assume "e \<in> set (edges_of m)"
  then obtain k where "(k, e) \<in> set (collect_edges m)" by (auto simp: edges_of_def)
  then have "map_of (collect_edges m) k = Some e" by (simp add: collect_edges_set)
  with collect_edges_value show "map_of (collect_edges m) (edge_string e) = Some e" by blast
qed (rule map_fst_key)

definition lost_edges :: "slot_map \<Rightarrow> slot_map \<Rightarrow> structural_edge list" where
  "lost_edges p n = map snd (filter (\<lambda>(k, _). map_of (collect_edges n) k = None) (collect_edges p))"

lemma detach_events_lost: "detach_events p n = map (\<lambda>e. CardDetach (from_id e) (to_id e)) (lost_edges p n)"
  by (simp add: detach_events_map lost_edges_def split_beta comp_def)

lemma connect_events_lost:
  "connect_events p n = map (\<lambda>e. CardConnect (from_id e) (from_slot e) (to_id e) (to_slot e)) (lost_edges n p)"
  by (simp add: connect_events_map lost_edges_def split_beta comp_def)

lemma distinct_lost: "distinct (map edge_pair (edges_of p)) \<Longrightarrow> distinct (map edge_pair (lost_edges p n))"
  unfolding edges_of_def lost_edges_def map_map by (rule distinct_map_filter)

lemma lost_edges_iff:
  "e \<in> set (lost_edges p n) \<longleftrightarrow> e \<in> set (edges_of p) \<and> map_of (collect_edges n) (edge_string e) = None"
proof -
  have "e \<in> set (lost_edges p n) \<longleftrightarrow> (\<exists>k. map_of (collect_edges p) k = Some e \<and> map_of (collect_edges n) k = None)"
    by (force simp: lost_edges_def collect_edges_set [symmetric])
  also have "\<dots> \<longleftrightarrow> map_of (collect_edges p) (edge_string e) = Some e \<and> map_of (collect_edges n) (edge_string e) = None"
    using collect_edges_value by blast
  finally show ?thesis by (simp add: edges_of_iff)
qed

text \<open>An edge of the new map that the old map has under the same key.\<close>

lemma kept_edge:
  assumes "e \<in> set (edges_of n)" and "e \<notin> set (lost_edges n p)"
  obtains e' where "map_of (collect_edges p) (edge_string e) = Some e'" and "edge_string e' = edge_string e"
  using assms collect_edges_value by (auto simp: lost_edges_iff)

text \<open>
  Ids that cannot be confused with the separator of edge keys; then the key of an edge
  determines the edge.
\<close>

definition plain_ids :: "slot_map \<Rightarrow> bool" where
  "plain_ids m \<longleftrightarrow> (\<forall>e \<in> set (edges_of m). CHR ''|'' \<notin> set (from_id e) \<and> CHR ''|'' \<notin> set (to_id e))"

lemma edge_string_inj:
  assumes "edge_string e = edge_string d"
    and "CHR ''|'' \<notin> set (from_id e)" "CHR ''|'' \<notin> set (to_id e)" "from_slot e \<in> set all_slots" "to_slot e \<in> set all_slots"
    and "CHR ''|'' \<notin> set (from_id d)" "CHR ''|'' \<notin> set (to_id d)" "from_slot d \<in> set all_slots" "to_slot d \<in> set all_slots"
  shows "e = d"
proof -
  have split: "split_on ''|'' (edge_string x) = [from_id x, from_slot x, to_id x, to_slot x]"
    if "CHR ''|'' \<notin> set (from_id x)" "CHR ''|'' \<notin> set (to_id x)" "from_slot x \<in> set all_slots" "to_slot x \<in> set all_slots"
    for x
  proof -
    have slots: "CHR ''|'' \<notin> set s" if "s \<in> set all_slots" for s
      using that by (auto simp: all_slots_def slot_defs)
    have "split_on ''|'' (join_with ''|'' [from_id x, from_slot x, to_id x, to_slot x]) =
        [from_id x, from_slot x, to_id x, to_slot x]"
      by (rule split_join_char) (use that slots in auto)
    then show ?thesis by (simp add: edge_string_def)
  qed
  have "[from_id e, from_slot e, to_id e, to_slot e] = [from_id d, from_slot d, to_id d, to_slot d]"
    using split [of e] split [of d] assms by simp
  then show ?thesis by simp
qed

lemma kept_edge_same:
  assumes "e \<in> set (edges_of n)" and "e \<notin> set (lost_edges n p)" and "plain_ids n" and "plain_ids p"
  shows "e \<in> set (edges_of p)"
proof -
  obtain e' where e': "map_of (collect_edges p) (edge_string e) = Some e'" "edge_string e' = edge_string e"
    using kept_edge [OF assms(1,2)] .
  have "e' \<in> set (edges_of p)" by (rule map_fst_key [OF e'(1)])
  then have "e' = e"
    using assms e'(2) edges_of_slots by (intro edge_string_inj) (auto simp: plain_ids_def)
  with \<open>e' \<in> set (edges_of p)\<close> show ?thesis by simp
qed

lemma sync_correct:
  assumes inv: "world_inv w" and agr: "agrees p w" and p: "realizable p" "plain_ids p" and n: "realizable n" "plain_ids n"
  obtains w' where "apply_card_api_events_io L (diff_slot_maps_to_card_api_events p n) w = (Inr [], w')"
    and "world_inv w'" and "agrees n w'"
proof -
  let ?run = "for_each (apply_card_api_event L)"
  have cards: "has_card w c \<longleftrightarrow> c \<in> set (collect_card_ids p)" for c using agr by (simp add: agrees_def)
  have links: "linked w e" if "e \<in> set (edges_of p)" for e using agr that by (simp add: agrees_def linked_def)
  have ends: "from_id e \<in> set (collect_card_ids m) \<and> to_id e \<in> set (collect_card_ids m)"
    if "e \<in> set (edges_of m)" "realizable m" for e m using that by (simp add: realizable_def)
  have "distinct (map edge_pair (lost_edges p n))" using p(1) by (intro distinct_lost) (simp add: realizable_def)
  moreover have "\<forall>e \<in> set (lost_edges p n). linked w e \<and> has_card w (from_id e) \<and> has_card w (to_id e)"
    using links cards ends p(1) by (auto simp: lost_edges_iff)
  ultimately obtain w1 where w1: "?run (detach_events p n) w = (Inr (), w1)" "world_inv w1" "has_card w1 = has_card w"
    "\<And>e. edge_pair e \<notin> edge_pair ` set (lost_edges p n) \<Longrightarrow> linked w1 e \<longleftrightarrow> linked w e"
    using detach_phase [OF inv, of "lost_edges p n" L] unfolding detach_events_lost by blast
  let ?gone = "filter (\<lambda>c. c \<notin> set (collect_card_ids n)) (collect_card_ids p)"
  obtain w2 where w2: "?run (remove_events p n) w1 = (Inr (), w2)" "world_inv w2"
    "\<And>c. has_card w2 c \<longleftrightarrow> has_card w1 c \<and> c \<notin> set ?gone" "\<And>e. from_id e \<notin> set ?gone \<Longrightarrow> linked w2 e \<longleftrightarrow> linked w1 e"
    using remove_phase [OF w1(2), of ?gone L] collect_card_ids_distinct cards w1(3)
    unfolding remove_events_def by auto
  let ?new = "sort (filter (\<lambda>c. c \<notin> set (collect_card_ids p)) (collect_card_ids n))"
  have "distinct ?new" using collect_card_ids_distinct by simp
  moreover have "\<forall>c \<in> set ?new. \<not> has_card w2 c" using w2(3) w1(3) cards by simp
  ultimately obtain w3 where w3: "?run (add_events p n) w2 = (Inr (), w3)" "world_inv w3"
    "\<And>c. has_card w3 c \<longleftrightarrow> has_card w2 c \<or> c \<in> set ?new" "links_of w3 = links_of w2"
    using add_phase [OF w2(2), of ?new L] unfolding add_events_def by blast
  have cards3: "has_card w3 c \<longleftrightarrow> c \<in> set (collect_card_ids n)" for c
    using w3(3) w2(3) w1(3) cards by auto
  have "\<forall>e \<in> set (lost_edges n p). has_card w3 (from_id e) \<and> has_card w3 (to_id e)
      \<and> from_slot e \<in> set all_slots \<and> to_slot e \<in> set all_slots"
    using ends n(1) cards3 edges_of_slots by (auto simp: lost_edges_iff)
  then obtain w4 where w4: "?run (connect_events p n) w3 = (Inr (), w4)" "world_inv w4" "has_card w4 = has_card w3"
    "\<And>e. linked w3 e \<or> e \<in> set (lost_edges n p) \<Longrightarrow> linked w4 e"
    using connect_phase [OF w3(2), of "lost_edges n p" L] unfolding connect_events_lost by blast
  have "\<exists>c v. e = CardUpdateValue c v \<and> has_card w4 c" if e: "e \<in> set (sync_code_slots p n)" for e
  proof -
    obtain c v where cv: "e = CardUpdateValue c v" using phases(5) [of p n] e by (cases e) auto
    then obtain key ref where key: "map_of n key = Some ref" "key_to_card_and_slot key = (c, ''code'')"
      using e n(1) sync_slots_iff [of n c v "''code''" p] by (auto simp: sync_code_slots_def realizable_def)
    then have "c \<noteq> []" using key_concat [OF key(2)] n(1) by (auto simp: realizable_def)
    then have "c \<in> set (collect_card_ids n)"
      using key by (force simp: collect_card_ids dest: map_of_SomeD)
    with cv cards3 w4(3) show ?thesis by simp
  qed
  then obtain w5 where w5: "?run (sync_code_slots p n) w4 = (Inr (), w5)" "world_inv w5"
    "has_card w5 = has_card w4" "links_of w5 = links_of w4"
    using update_phase [OF w4(2), of "sync_code_slots p n" L] by blast
  have "apply_card_api_events_io L (diff_slot_maps_to_card_api_events p n) w = (Inr [], w5)"
    by (simp add: apply_card_api_events_io_def diff_slot_maps_to_card_api_events_def for_each_append andthen_def
        w1(1) w2(1) w3(1) w4(1) w5(1))
  moreover have "linked w5 e" if e: "e \<in> set (edges_of n)" for e
  proof -
    have "linked w3 e" if new: "e \<notin> set (lost_edges n p)"
    proof -
      have ep: "e \<in> set (edges_of p)" using kept_edge_same [OF e new n(2) p(2)] .
      have "edge_pair e \<notin> edge_pair ` set (lost_edges p n)"
      proof
        assume "edge_pair e \<in> edge_pair ` set (lost_edges p n)"
        then obtain d where d: "d \<in> set (lost_edges p n)" "edge_pair e = edge_pair d" by auto
        then have "d = e" using p(1) ep by (auto simp: realizable_def distinct_map lost_edges_iff inj_on_def)
        with d(1) e show False by (simp add: lost_edges_iff edges_of_iff)
      qed
      then have "linked w1 e" using w1(4) links [OF ep] by simp
      moreover have "from_id e \<notin> set ?gone" using ends [OF e n(1)] by simp
      ultimately have "linked w2 e" using w2(4) by simp
      then show ?thesis by (simp add: linked_def w3(4))
    qed
    then have "linked w4 e" using w4(4) by blast
    then show ?thesis by (simp add: linked_def w5(4))
  qed
  then have "agrees n w5" using cards3 w5(3) w4(3) by (simp add: agrees_def linked_def)
  ultimately show ?thesis using that w5(2) by blast
qed

section \<open>Properties\<close>


definition neighbours_map :: slot_map where
  "neighbours_map = [(''a::right'', \<lparr>ref_id = ''b'', ref_value = JUndef\<rparr>),
     (''acode'', \<lparr>ref_id = [], ref_value = JStr ''(+ 1 2)''\<rparr>), (''bcode'', \<lparr>ref_id = [], ref_value = JStr ''::left''\<rparr>)]"

lemma neighbours_ok: "realizable neighbours_map" "plain_ids neighbours_map"
proof -
  have c: "collect_card_ids neighbours_map = [''a'', ''b'']" by code_simp
  have e: "edges_of neighbours_map =
      [\<lparr>from_id = ''a'', from_slot = slot_right, to_id = ''b'', to_slot = slot_left\<rparr>]" by code_simp
  show "realizable neighbours_map" "plain_ids neighbours_map"
    by (simp_all add: realizable_def plain_ids_def c e edge_pair_def) (simp add: neighbours_map_def)
qed


definition parallel_map :: slot_map where
  "parallel_map = [(''a::right'', \<lparr>ref_id = ''b'', ref_value = JUndef\<rparr>), (''a::above'', \<lparr>ref_id = ''b'', ref_value = JUndef\<rparr>),
     (''b::this'', \<lparr>ref_id = [], ref_value = JNull\<rparr>)]"

definition unlinked_map :: slot_map where
  "unlinked_map = [(''a::this'', \<lparr>ref_id = [], ref_value = JNull\<rparr>), (''b::this'', \<lparr>ref_id = [], ref_value = JNull\<rparr>)]"

lemma parallel_edges_throw_parts:
  "diff_slot_maps_to_card_api_events parallel_map unlinked_map = [CardDetach ''a'' ''b'', CardDetach ''a'' ''b'']"
  "\<exists>e w'. apply_card_api_events_io L (diff_slot_maps_to_card_api_events parallel_map unlinked_map) w = (Inl e, w')"
proof -
  show diff: "diff_slot_maps_to_card_api_events parallel_map unlinked_map = [CardDetach ''a'' ''b'', CardDetach ''a'' ''b'']"
    by code_simp
  show "\<exists>e w'. apply_card_api_events_io L (diff_slot_maps_to_card_api_events parallel_map unlinked_map) w = (Inl e, w')"
  proof (cases "detach_cards_by_key ''a'' ''b'' w")
    case (Pair r w1)
    show ?thesis
    proof (cases r)
      case (Inl e)
      with Pair show ?thesis
        by (simp add: diff apply_card_api_events_io_def apply_card_api_event_def andthen_def)
    next
      case (Inr u)
      with Pair have "links_of w1 ''a'' (link_key ''a'' ''b'') = None"
        by (auto simp: detach_cards_run detach_run table_set_def split: option.splits)
      then have "\<exists>e w'. detach_cards_by_key ''a'' ''b'' w1 = (Inl e, w')"
        by (simp add: detach_cards_run detach_run split: option.splits)
      with Pair Inr show ?thesis
        by (auto simp: diff apply_card_api_events_io_def apply_card_api_event_def andthen_def)
    qed
  qed
qed

text \<open>
  Two edges between the same two cards cannot be removed together, because edges are told
  apart by slots while connections are stored per pair of cards: the difference asks for the
  same detachment twice, and whatever the state of the runtime, applying it throws.
\<close>

lemma parallel_edges_throw:
  "(diff_slot_maps_to_card_api_events parallel_map unlinked_map = [CardDetach ''a'' ''b'', CardDetach ''a'' ''b'']) \<and>
    (\<exists>e w'. apply_card_api_events_io L (diff_slot_maps_to_card_api_events parallel_map unlinked_map) w = (Inl e, w'))"
  by (intro conjI; rule parallel_edges_throw_parts)

definition dangling_map :: slot_map where
  "dangling_map = [(''a::right'', \<lparr>ref_id = ''b'', ref_value = JUndef\<rparr>)]"

text \<open>
  Synchronisation is not atomic. An edge to a card that has no entry of its own makes the
  connection throw, after the card that declares the edge was added.
\<close>

lemma dangling_edge_half_applied:
  "\<exists>w'. sync_slot_map_to_card_api_io L [] dangling_map empty_world = (Inl (CardNotFound ''b''), w')
     \<and> has_card w' ''a'' \<and> \<not> has_card w' ''b''"
proof -
  have diff: "diff_slot_maps_to_card_api_events [] dangling_map =
      [CardAdd ''a'', CardConnect ''a'' slot_right ''b'' slot_left]" by code_simp
  obtain w where w: "add_card ''a'' empty_world = (Inr ''a'', w)" by (simp add: add_run)
  then have a: "map_of (cards w) ''a'' \<noteq> None" "map_of (cards w) ''b'' = None"
    by (auto simp: add_run empty_world_def)
  then have "connect_cards ''a'' ''b'' slot_right slot_left w = (Inl (CardNotFound ''b''), w)"
    by (auto simp: connect_cards_def andthen_guarantee)
  then have "sync_slot_map_to_card_api_io L [] dangling_map empty_world = (Inl (CardNotFound ''b''), w)"
    by (simp add: sync_slot_map_to_card_api_io_def apply_card_api_events_io_def diff apply_card_api_event_def
        andthen_def w)
  with a show ?thesis by (simp add: has_card_def)
qed

end
