(* ===== verification/Server.thy ===== *)
theory Server
  imports Card_Sync
begin

text \<open>
  The session server: \<open>session/session_store.ts\<close>, the unary handlers of \<open>connect_server.ts\<close> and
  \<open>handlers/compile_handler.ts\<close>, the start of a stream in \<open>session/session_combinator.ts\<close> and the
  fan-out of \<open>bridge/card_runtime_events.ts\<close>. Session objects are mutable and shared between the
  store and the streams that hold them, so they live in a heap and are named by index; the
  store maps session ids to indices. All sessions drive the one card runtime.

  \<open>bind_context_slots_io\<close> is a no-op in the code, tracing writes logs only; neither changes
  the state.
\<close>

section \<open>State\<close>

record session_state =
  ss_slot_map :: slot_map
  ss_queue :: "server_message list"
  ss_waiting :: bool
  ss_id :: "jstring option"

record server =
  sv_world :: card_world
  sv_heap :: "session_state list"
  sv_sessions :: "(jstring, nat) jmap"
  sv_subscribers :: "nat list"

datatype server_error = DecodeFailed decode_error | CardFailed card_error

type_synonym 'a server_act = "(server, server_error, 'a) act"

definition on_cards :: "'a card_act \<Rightarrow> 'a server_act" where
  "on_cards m s =
     (case m (sv_world s) of
        (Inl e, w) \<Rightarrow> (Inl (CardFailed e), s\<lparr>sv_world := w\<rparr>)
      | (Inr x, w) \<Rightarrow> (Inr x, s\<lparr>sv_world := w\<rparr>))"

definition decoding :: "decode_error + 'a \<Rightarrow> 'a server_act" where
  "decoding r = (case r of Inl e \<Rightarrow> throw (DecodeFailed e) | Inr x \<Rightarrow> ret x)"

section \<open>Session store\<close>

definition create_state :: "slot_map \<Rightarrow> session_state" where
  "create_state initial = \<lparr>ss_slot_map = initial, ss_queue = [], ss_waiting = False, ss_id = None\<rparr>"

definition get_session :: "jstring \<Rightarrow> nat option server_act" where
  "get_session sid = reads (\<lambda>s. map_of (sv_sessions s) sid)"

definition new_session :: "jstring \<Rightarrow> slot_map \<Rightarrow> nat server_act" where
  "new_session sid initial s =
     (Inr (length (sv_heap s)),
      s\<lparr>sv_heap := sv_heap s @ [(create_state initial)\<lparr>ss_id := Some sid\<rparr>],
        sv_sessions := AList.update sid (length (sv_heap s)) (sv_sessions s)\<rparr>)"

definition get_or_create_session :: "jstring \<Rightarrow> slot_map \<Rightarrow> nat server_act" where
  "get_or_create_session sid initial =
     andthen (get_session sid) (\<lambda>existing.
       case existing of Some r \<Rightarrow> ret r | None \<Rightarrow> new_session sid initial)"

definition remove_session :: "jstring \<Rightarrow> unit server_act" where
  "remove_session sid = changes (\<lambda>s. s\<lparr>sv_sessions := AList.delete sid (sv_sessions s)\<rparr>)"

definition get_all_sessions :: "nat list server_act" where
  "get_all_sessions = reads (\<lambda>s. map snd (sv_sessions s))"

definition change_session :: "nat \<Rightarrow> (session_state \<Rightarrow> session_state) \<Rightarrow> unit server_act" where
  "change_session r f = changes (\<lambda>s. s\<lparr>sv_heap := (sv_heap s)[r := f (sv_heap s ! r)]\<rparr>)"

text \<open>Waking the waiter clears \<open>resolveWait\<close>; the waiter's promise resolves to true.\<close>

definition push_messages :: "server_message list \<Rightarrow> session_state \<Rightarrow> session_state" where
  "push_messages messages st = st\<lparr>ss_queue := ss_queue st @ messages, ss_waiting := False\<rparr>"

definition session_push :: "nat \<Rightarrow> server_message list \<Rightarrow> unit server_act" where
  "session_push r messages = change_session r (push_messages messages)"

section \<open>Push of a delta\<close>

definition resolve_push_session_io :: "jstring \<Rightarrow> (nat \<times> bool) server_act" where
  "resolve_push_session_io sid =
     andthen (get_session sid) (\<lambda>existing.
       case existing of
         Some r \<Rightarrow> ret (r, True)
       | None \<Rightarrow> andthen (get_or_create_session sid []) (\<lambda>r. ret (r, False)))"

definition derive_push_transition :: "slot_map \<Rightarrow> cards_delta \<Rightarrow> slot_map \<times> card_api_event list" where
  "derive_push_transition prev_map delta =
     (let next_map = apply_cards_delta_to_slot_map delta prev_map
      in (next_map, diff_slot_maps_to_card_api_events prev_map next_map))"

definition apply_push_events_and_bind_io ::
    "library \<Rightarrow> nat \<Rightarrow> slot_map \<times> card_api_event list \<Rightarrow> unit server_act" where
  "apply_push_events_and_bind_io L r transition =
     andthen (on_cards (apply_card_api_events_io L (snd transition))) (\<lambda>_.
     change_session r (\<lambda>st. st\<lparr>ss_slot_map := fst transition\<rparr>))"

definition push_deltas_apply_io :: "library \<Rightarrow> push_deltas_request \<Rightarrow> unit server_act" where
  "push_deltas_apply_io L req =
     andthen (decoding (to_push_deltas_data req)) (\<lambda>(sid, delta).
     andthen (resolve_push_session_io sid) (\<lambda>(r, existed).
     andthen (reads (\<lambda>s. ss_slot_map (sv_heap s ! r))) (\<lambda>prev_map.
     apply_push_events_and_bind_io L r (derive_push_transition prev_map delta))))"

section \<open>Build of a card\<close>

datatype build_response = BuildOk | BuildError jstring

definition card_build_apply_io :: "library \<Rightarrow> handle \<Rightarrow> card_build_request \<Rightarrow> build_response server_act" where
  "card_build_apply_io L env req =
     (let (sid, cid) = to_card_build_data req in
      if cid = [] then ret (BuildError ''card_id is required'')
      else
        andthen (if sid \<noteq> [] then get_session sid else ret None) (\<lambda>st.
        if sid \<noteq> [] \<and> st = None then ret (BuildError (''session not found: '' @ sid))
        else
          andthen (reads (\<lambda>s. case st of None \<Rightarrow> None
              | Some r \<Rightarrow> map_option ref_value (map_of (ss_slot_map (sv_heap s ! r)) (cid @ ''code'')))) (\<lambda>code.
          andthen (case code of
              Some (JStr text) \<Rightarrow> andthen (on_cards (update_card L cid (JStr text))) (\<lambda>_. ret ())
            | _ \<Rightarrow> ret ()) (\<lambda>_.
          andthen (on_cards (build_card L env cid)) (\<lambda>_.
          ret BuildOk)))))"

section \<open>Compile, the legacy bidirectional session\<close>

record compile_result =
  cr_success :: bool
  cr_error :: jstring

definition compile_for_viz :: "slot_map \<Rightarrow> compile_result" where
  "compile_for_viz data = \<lparr>cr_success = True, cr_error = []\<rparr>"

definition handle_compile :: "compile_request \<Rightarrow> compile_result server_act" where
  "handle_compile req =
     andthen (decoding (to_compile_request_data req)) (\<lambda>data. ret (compile_for_viz data))"

definition session_apply_and_bind_io :: "library \<Rightarrow> slot_map \<Rightarrow> cards_delta \<Rightarrow> slot_map server_act" where
  "session_apply_and_bind_io L m delta =
     (let next_map = apply_cards_delta_to_slot_map delta m;
          events = diff_slot_maps_to_card_api_events m next_map
      in andthen (on_cards (apply_card_api_events_io L events)) (\<lambda>_. ret next_map))"

text \<open>
  The generator loop over the incoming deltas; the messages are what it has yielded when it
  ends or throws.
\<close>

fun handle_session_route ::
    "library \<Rightarrow> (jsval \<Rightarrow> bool) \<Rightarrow> (jsval \<Rightarrow> jstring) \<Rightarrow> slot_map \<Rightarrow> wire_delta list \<Rightarrow>
     server \<Rightarrow> server_message list \<times> (server_error + slot_map) \<times> server" where
  "handle_session_route L lay ltxt m [] s = ([], Inr m, s)"
| "handle_session_route L lay ltxt m (d # ds) s =
     (case to_cards_delta_data d of
        Inl e \<Rightarrow> ([], Inl (DecodeFailed e), s)
      | Inr delta \<Rightarrow>
          (case session_apply_and_bind_io L m delta s of
             (Inl e, s') \<Rightarrow> ([], Inl e, s')
           | (Inr m', s') \<Rightarrow>
               (case handle_session_route L lay ltxt m' ds s' of
                  (msgs, r) \<Rightarrow> (delta_to_server_messages lay ltxt delta @ msgs, r))))"

section \<open>Opening a stream, runtime events\<close>

definition apply_initial_slots_to_env_io :: "library \<Rightarrow> slot_map \<Rightarrow> unit server_act" where
  "apply_initial_slots_to_env_io L m =
     andthen (on_cards (apply_card_api_events_io L (diff_slot_maps_to_card_api_events [] m))) (\<lambda>_. ret ())"

definition open_session_setup_io :: "library \<Rightarrow> jstring \<Rightarrow> slot_map \<Rightarrow> nat server_act" where
  "open_session_setup_io L sid initial_map =
     andthen (get_or_create_session sid initial_map) (\<lambda>r.
     andthen (if initial_map \<noteq> []
              then andthen (reads (\<lambda>s. ss_slot_map (sv_heap s ! r))) (apply_initial_slots_to_env_io L)
              else ret ()) (\<lambda>_.
     ret r))"

definition subscribe_runtime_card_output :: "nat \<Rightarrow> unit server_act" where
  "subscribe_runtime_card_output r = changes (\<lambda>s. s\<lparr>sv_subscribers := sv_subscribers s @ [r]\<rparr>)"

definition open_session_start :: "library \<Rightarrow> open_session_request \<Rightarrow> (jstring \<times> nat) server_act" where
  "open_session_start L req =
     andthen (decoding (to_open_session_data req)) (\<lambda>(sid, initial).
     andthen (open_session_setup_io L sid (open_session_initial_slot_map initial)) (\<lambda>r.
     andthen (subscribe_runtime_card_output r) (\<lambda>_.
     ret (sid, r))))"

text \<open>The \<open>finally\<close> block of the stream: every stream has its own subscription.\<close>

definition open_session_close :: "jstring \<Rightarrow> nat \<Rightarrow> unit server_act" where
  "open_session_close sid r =
     andthen (changes (\<lambda>s. s\<lparr>sv_subscribers := remove1 r (sv_subscribers s)\<rparr>)) (\<lambda>_.
     remove_session sid)"

definition emit_runtime_card_output_io ::
    "(jsval \<Rightarrow> bool) \<Rightarrow> (jsval \<Rightarrow> jstring) \<Rightarrow> jstring \<Rightarrow> jsval \<Rightarrow> unit server_act" where
  "emit_runtime_card_output_io lay ltxt cid v =
     andthen (reads sv_subscribers) (for_each (\<lambda>r.
       session_push r [to_card_update_message lay ltxt (cid @ slot_this)
         (Some \<lparr>ref_id = cid, ref_value = v\<rparr>)]))"

section \<open>Lemmas\<close>

definition store_ok :: "server \<Rightarrow> bool" where
  "store_ok s \<longleftrightarrow> distinct (map fst (sv_sessions s))
     \<and> (\<forall>sid r. map_of (sv_sessions s) sid = Some r \<longrightarrow> r < length (sv_heap s) \<and> ss_id (sv_heap s ! r) = Some sid)
     \<and> (\<forall>st \<in> set (sv_heap s). slot_map_inv (ss_slot_map st))"

definition session_map :: "server \<Rightarrow> jstring \<Rightarrow> slot_map" where
  "session_map s sid = (case map_of (sv_sessions s) sid of None \<Rightarrow> [] | Some r \<Rightarrow> ss_slot_map (sv_heap s ! r))"

lemma resolve_run:
  assumes "store_ok s"
  obtains r existed s' where "resolve_push_session_io sid s = (Inr (r, existed), s')"
    and "sv_world s' = sv_world s" and "map_of (sv_sessions s') sid = Some r" and "r < length (sv_heap s')"
    and "ss_slot_map (sv_heap s' ! r) = session_map s sid" and "store_ok s'"
    and "\<And>x. session_map s' x = session_map s x"
proof (cases "map_of (sv_sessions s) sid")
  case None
  let ?s = "snd (new_session sid [] s)"
  have new: "map_of (sv_sessions ?s) = (map_of (sv_sessions s))(sid \<mapsto> length (sv_heap s))"
    "sv_heap ?s = sv_heap s @ [(create_state [])\<lparr>ss_id := Some sid\<rparr>]" "sv_world ?s = sv_world s"
    by (simp_all add: new_session_def update_conv')
  have old: "r < length (sv_heap s)" if "map_of (sv_sessions s) x = Some r" for x r
    using that assms by (simp add: store_ok_def)
  have "store_ok ?s"
    unfolding store_ok_def
  proof (intro conjI ballI allI impI)
    show "distinct (map fst (sv_sessions ?s))"
      using assms by (simp add: new_session_def store_ok_def distinct_update)
    fix x r assume "map_of (sv_sessions ?s) x = Some r"
    then show "r < length (sv_heap ?s)" "ss_id (sv_heap ?s ! r) = Some x"
      using assms by (auto simp: new store_ok_def nth_append split: if_splits) (metis less_SucI)?
  next
    fix st assume "st \<in> set (sv_heap ?s)"
    then show "slot_map_inv (ss_slot_map st)"
      using assms by (auto simp: new(2) store_ok_def create_state_def)
  qed
  moreover have "resolve_push_session_io sid s = (Inr (length (sv_heap s), False), ?s)"
    by (simp add: resolve_push_session_io_def get_session_def get_or_create_session_def None andthen_def)
      (simp add: new_session_def)
  moreover have "session_map ?s x = session_map s x" for x
    using old None by (auto simp: session_map_def new create_state_def nth_append split: option.splits)
  ultimately show ?thesis
    using new None by (intro that [of "length (sv_heap s)" False ?s]) (auto simp: session_map_def create_state_def)
next
  case (Some r)
  then have "r < length (sv_heap s)" using assms Some by (simp add: store_ok_def)
  then show ?thesis
    using Some assms by (intro that [of r True s])
      (simp_all add: resolve_push_session_io_def get_session_def session_map_def)
qed

lemma session_map_change:
  assumes "store_ok s" and "map_of (sv_sessions s) sid = Some r" and "r < length (sv_heap s)"
    and s'_def: "s' = s\<lparr>sv_heap := (sv_heap s)[r := (sv_heap s ! r)\<lparr>ss_slot_map := m\<rparr>]\<rparr>"
  shows "session_map s' x = (if x = sid then m else session_map s x)"
    and "slot_map_inv m \<Longrightarrow> store_ok s'"
proof -
  have other: "map_of (sv_sessions s) x = Some r \<Longrightarrow> x = sid" for x
    using assms(1,2) unfolding store_ok_def by (metis option.inject)
  show "session_map s' x = (if x = sid then m else session_map s x)"
  proof (cases "map_of (sv_sessions s) x")
    case None
    then show ?thesis using assms(2) by (auto simp: session_map_def s'_def)
  next
    case (Some k)
    then have "k = r \<longleftrightarrow> x = sid" using assms(2) other [of x] by auto
    then show ?thesis using Some assms(3) by (cases "x = sid") (auto simp: session_map_def s'_def)
  qed
  assume "slot_map_inv m"
  moreover have "ss_id (sv_heap s' ! k) = ss_id (sv_heap s ! k)" for k
    using assms(3) by (cases "k = r") (simp_all add: s'_def)
  ultimately show "store_ok s'"
    using assms(1,3) unfolding store_ok_def
    by (auto simp: s'_def dest!: set_update_subset_insert [THEN subsetD])
qed

lemma store_world [simp]: "store_ok (s\<lparr>sv_world := w\<rparr>) = store_ok s" "session_map (s\<lparr>sv_world := w\<rparr>) = session_map s"
  by (simp_all add: store_ok_def session_map_def fun_eq_iff cong: option.case_cong)

section \<open>Properties\<close>


definition empty_server :: server where
  "empty_server = \<lparr>sv_world = empty_world, sv_heap = [], sv_sessions = [], sv_subscribers = []\<rparr>"

definition sample_push :: push_deltas_request where
  "sample_push = \<lparr>push_session_id = Some ''s1'', push_delta = Some \<lparr>pb_slots = Some
     [(''a::right'', Some \<lparr>wire_id = Some ''b'', wire_value = None\<rparr>),
      (''acode'', Some \<lparr>wire_id = None, wire_value = Some (json_quote ''(+ 1 2)'')\<rparr>),
      (''bcode'', Some \<lparr>wire_id = None, wire_value = Some (json_quote ''::left'')\<rparr>)], pb_remove = None\<rparr>\<rparr>"


lemma push_deltas_error_parts:
  assumes "store_ok s" and "push_deltas_apply_io L req s = (Inl e, s')"
  shows "session_map s' x = session_map s x" and "e = DecodeFailed d \<Longrightarrow> s' = s"
proof -
  have "(session_map s' x = session_map s x) \<and> (e = DecodeFailed d \<longrightarrow> s' = s)"
  proof (cases "to_push_deltas_data req")
    case (Inl d')
    with assms(2) show ?thesis by (auto simp: push_deltas_apply_io_def decoding_def)
  next
    case (Inr b)
    then obtain sid delta where dec: "to_push_deltas_data req = Inr (sid, delta)" by (cases b) auto
    obtain r existed s1 where s1: "resolve_push_session_io sid s = (Inr (r, existed), s1)"
      "\<And>x. session_map s1 x = session_map s x"
      using resolve_run [OF assms(1), of sid] by metis
    let ?t = "derive_push_transition (ss_slot_map (sv_heap s1 ! r)) delta"
    have "push_deltas_apply_io L req s = apply_push_events_and_bind_io L r ?t s1"
      by (simp add: push_deltas_apply_io_def decoding_def dec andthen_def s1(1))
    with assms(2) obtain w ce where "s' = s1\<lparr>sv_world := w\<rparr>" "e = CardFailed ce"
      by (auto simp: apply_push_events_and_bind_io_def andthen_def on_cards_def change_session_def
          split: prod.splits sum.splits)
    with s1(2) show ?thesis by simp
  qed
  then show "session_map s' x = session_map s x" "e = DecodeFailed d \<Longrightarrow> s' = s" by blast+
qed

text \<open>
  A push that throws leaves every session's slot map as it was, whatever the runtime has
  already done; a request that does not decode changes nothing at all.
\<close>

lemma push_deltas_error:
  assumes "store_ok s" and "push_deltas_apply_io L req s = (Inl e, s')"
  shows "(session_map s' x = session_map s x) \<and>
    (e = DecodeFailed d \<longrightarrow> s' = s)"
  by (intro conjI impI; rule push_deltas_error_parts [OF assms]; assumption?)

lemma card_build_outcomes_parts:
  assumes "card_reach L (sv_world s)" and "to_card_build_data req = (sid, cid)"
  shows "cid = [] \<Longrightarrow> card_build_apply_io L env req s = (Inr (BuildError ''card_id is required''), s)"
    and "cid \<noteq> [] \<Longrightarrow> sid \<noteq> [] \<Longrightarrow> map_of (sv_sessions s) sid = None \<Longrightarrow>
      card_build_apply_io L env req s = (Inr (BuildError (''session not found: '' @ sid)), s)"
    and "cid \<noteq> [] \<Longrightarrow> sid = [] \<or> map_of (sv_sessions s) sid \<noteq> None \<Longrightarrow> \<not> has_card (sv_world s) cid \<Longrightarrow>
      card_build_apply_io L env req s = (Inl (CardFailed (CardNotFound cid)), s)"
    and "cid \<noteq> [] \<Longrightarrow> sid = [] \<or> map_of (sv_sessions s) sid \<noteq> None \<Longrightarrow> has_card (sv_world s) cid \<Longrightarrow>
      \<exists>s'. card_build_apply_io L env req s = (Inr BuildOk, s') \<and> sv_heap s' = sv_heap s \<and> sv_sessions s' = sv_sessions s"
proof -
  show "cid = [] \<Longrightarrow> card_build_apply_io L env req s = (Inr (BuildError ''card_id is required''), s)"
    by (simp add: card_build_apply_io_def assms(2))
  show "cid \<noteq> [] \<Longrightarrow> sid \<noteq> [] \<Longrightarrow> map_of (sv_sessions s) sid = None \<Longrightarrow>
      card_build_apply_io L env req s = (Inr (BuildError (''session not found: '' @ sid)), s)"
    by (simp add: card_build_apply_io_def assms(2) get_session_def)
  let ?after = "\<lambda>code. andthen (case code of
              Some (JStr text) \<Rightarrow> andthen (on_cards (update_card L cid (JStr text))) (\<lambda>_. ret ())
            | _ \<Rightarrow> ret ()) (\<lambda>_. andthen (on_cards (build_card L env cid)) (\<lambda>_. ret BuildOk))"
  have run: "\<exists>code. card_build_apply_io L env req s = ?after code s"
    if "cid \<noteq> []" "sid = [] \<or> map_of (sv_sessions s) sid \<noteq> None"
  proof (cases "sid = []")
    case True
    with that show ?thesis
      by (intro exI [of _ None]) (simp add: card_build_apply_io_def assms(2))
  next
    case False
    with that obtain r where "map_of (sv_sessions s) sid = Some r" by auto
    with that False show ?thesis
      by (intro exI [of _ "map_option ref_value (map_of (ss_slot_map (sv_heap s ! r)) (cid @ ''code''))"])
        (simp add: card_build_apply_io_def assms(2) get_session_def)
  qed
  show "card_build_apply_io L env req s = (Inl (CardFailed (CardNotFound cid)), s)"
    if c: "cid \<noteq> []" and k: "sid = [] \<or> map_of (sv_sessions s) sid \<noteq> None" and h: "\<not> has_card (sv_world s) cid"
  proof -
    have none: "map_of (cards (sv_world s)) cid = None" using h by (simp add: has_card_def)
    obtain code where "card_build_apply_io L env req s = ?after code s" using run [OF c k] ..
    then show ?thesis
      by (simp add: andthen_def on_cards_def update_card_def build_card_def guarantee_run none
          split: option.splits jsval.splits)
  qed
  show "\<exists>s'. card_build_apply_io L env req s = (Inr BuildOk, s') \<and> sv_heap s' = sv_heap s \<and> sv_sessions s' = sv_sessions s"
    if c: "cid \<noteq> []" and k: "sid = [] \<or> map_of (sv_sessions s) sid \<noteq> None" and h: "has_card (sv_world s) cid"
  proof -
    obtain code where code: "card_build_apply_io L env req s = ?after code s" using run [OF c k] ..
    have build: "\<exists>w'. build_card L env cid w = (Inr cid, w')" if i: "world_inv w" and g: "has_card w cid" for w
    proof -
      have ok: "world_ok w" using i by (simp add: world_inv_def)
      obtain md where md: "map_of (cards w) cid = Some md" using g by (auto simp: has_card_def)
      from build_run [OF ok md, of L env] show ?thesis by metis
    qed
    have inv: "world_inv (sv_world s)" by (rule card_reach_inv [OF assms(1)])
    obtain md where md: "map_of (cards (sv_world s)) cid = Some md" using h by (auto simp: has_card_def)
    have upd: "\<exists>b w. update_card L cid v (sv_world s) = (Inr b, w) \<and> world_inv w \<and> has_card w cid" for v
    proof -
      obtain b w where "update_card L cid v (sv_world s) = (Inr b, w)"
        using update_run [OF _ md, of L v] inv by (metis world_inv_def)
      moreover have "same_cards (sv_world s) w" using along_update calculation by (metis frame.alongD)
      ultimately show ?thesis
        using inv h same_cards_inv(1) same_cards_links by metis
    qed
    show ?thesis
    proof (cases "\<exists>text. code = Some (JStr text)")
      case True
      then obtain src where src: "code = Some (JStr src)" ..
      obtain b w where w: "update_card L cid (JStr src) (sv_world s) = (Inr b, w)" "world_inv w" "has_card w cid"
        using upd by blast
      obtain w' where "build_card L env cid w = (Inr cid, w')" using build [OF w(2,3)] ..
      then show ?thesis by (simp add: code src andthen_def on_cards_def w(1))
    next
      case False
      then have "?after code s = andthen (on_cards (build_card L env cid)) (\<lambda>_. ret BuildOk) s"
        by (cases code) (auto split: jsval.splits)
      moreover obtain w' where "build_card L env cid (sv_world s) = (Inr cid, w')" using build [OF inv h] ..
      ultimately show ?thesis by (simp add: code andthen_def on_cards_def)
    qed
  qed
qed



end
