(* ===== verification/Session_Stream.thy ===== *)
theory Session_Stream
  imports Lain_Prelude
begin

text \<open>
  The message streams of a session: \<open>session_push\<close> and \<open>wait_for_message_or_timeout\<close> of
  \<open>src/grpc/session/session_store.ts\<close> and the generators of \<open>src/grpc/session/session_combinator.ts\<close>.
  A session has a queue and room for one waiter; every stream opened with its id runs the same
  loop on it. A stream is a generator: between two of its steps other streams, pushes, timers and
  aborts may come in any order, and a promise that is resolved continues in a later step.
\<close>

section \<open>Streams\<close>

text \<open>
  Where a stream stands: before its first heartbeat, at the top of the loop, waiting with its
  timer running, resumed with the answer of the wait, at the top of the drain loop, finished.
\<close>

datatype stream_pc = Opening | Looping | Waiting | Resumed bool | Draining | Finished

text \<open>What a stream yields: a heartbeat or a message of the queue.\<close>

datatype 'm yielded = Heartbeat | Message 'm

record 'm stream_world =
  sw_queue :: "'m list"
  sw_waiter :: "nat option"
  sw_pc :: "nat \<Rightarrow> stream_pc"
  sw_out :: "nat \<Rightarrow> 'm yielded list"
  sw_aborted :: "nat \<Rightarrow> bool"
  sw_pushed :: "'m list"

definition set_pc :: "nat \<Rightarrow> stream_pc \<Rightarrow> 'm stream_world \<Rightarrow> 'm stream_world" where
  "set_pc i pc w = w\<lparr>sw_pc := (sw_pc w)(i := pc)\<rparr>"

definition yield_out :: "nat \<Rightarrow> 'm yielded \<Rightarrow> 'm stream_world \<Rightarrow> 'm stream_world" where
  "yield_out i x w = w\<lparr>sw_out := (sw_out w)(i := sw_out w i @ [x])\<rparr>"

text \<open>Resolving the waiter's promise clears its timer.\<close>

definition push_session :: "'m list \<Rightarrow> 'm stream_world \<Rightarrow> 'm stream_world" where
  "push_session messages w =
     (let w = w\<lparr>sw_queue := sw_queue w @ messages, sw_pushed := sw_pushed w @ messages\<rparr>
      in case sw_waiter w of
           None \<Rightarrow> w
         | Some r \<Rightarrow> set_pc r (Resumed True) (w\<lparr>sw_waiter := None\<rparr>))"

definition wait_for_message_or_timeout :: "nat \<Rightarrow> 'm stream_world \<Rightarrow> 'm stream_world" where
  "wait_for_message_or_timeout i w =
     (if sw_queue w \<noteq> [] then set_pc i (Resumed True) w
      else set_pc i Waiting (w\<lparr>sw_waiter := Some i\<rparr>))"

definition wait_timeout :: "nat \<Rightarrow> 'm stream_world \<Rightarrow> 'm stream_world" where
  "wait_timeout i w = set_pc i (Resumed False) (w\<lparr>sw_waiter := None\<rparr>)"

definition drain_queue_until_empty_or_aborted :: "nat \<Rightarrow> 'm stream_world \<Rightarrow> 'm stream_world" where
  "drain_queue_until_empty_or_aborted i w =
     (case sw_queue w of
        m # rest \<Rightarrow>
          if \<not> sw_aborted w i then yield_out i (Message m) (w\<lparr>sw_queue := rest\<rparr>)
          else set_pc i Looping w
      | [] \<Rightarrow> set_pc i Looping w)"

text \<open>One step of a stream that is not waiting.\<close>

definition open_session_yield_loop :: "nat \<Rightarrow> 'm stream_world \<Rightarrow> 'm stream_world" where
  "open_session_yield_loop i w =
     (case sw_pc w i of
        Opening \<Rightarrow> set_pc i Looping (yield_out i Heartbeat w)
      | Looping \<Rightarrow> if sw_aborted w i then set_pc i Finished w else wait_for_message_or_timeout i w
      | Waiting \<Rightarrow> w
      | Resumed has_message \<Rightarrow>
          if sw_aborted w i then set_pc i Finished w
          else if has_message \<and> sw_queue w \<noteq> [] then set_pc i Draining w
          else set_pc i Looping (yield_out i Heartbeat w)
      | Draining \<Rightarrow> drain_queue_until_empty_or_aborted i w
      | Finished \<Rightarrow> w)"

definition stream_start :: "'m stream_world" where
  "stream_start = \<lparr>sw_queue = [], sw_waiter = None, sw_pc = (\<lambda>_. Opening), sw_out = (\<lambda>_. []),
     sw_aborted = (\<lambda>_. False), sw_pushed = []\<rparr>"

text \<open>All that can happen to the streams with an id in \<open>ids\<close>.\<close>

inductive stream_step :: "nat set \<Rightarrow> 'm stream_world \<Rightarrow> 'm stream_world \<Rightarrow> bool" for ids where
  pushed: "stream_step ids w (push_session messages w)"
| advance: "i \<in> ids \<Longrightarrow> stream_step ids w (open_session_yield_loop i w)"
| timeout: "i \<in> ids \<Longrightarrow> sw_pc w i = Waiting \<Longrightarrow> stream_step ids w (wait_timeout i w)"
| aborted: "stream_step ids w (w\<lparr>sw_aborted := (sw_aborted w)(i := True)\<rparr>)"

inductive_cases stream_stepE: "stream_step ids w w'"

abbreviation stream_reach :: "nat set \<Rightarrow> 'm stream_world \<Rightarrow> bool" where
  "stream_reach ids \<equiv> (stream_step ids)\<^sup>*\<^sup>* stream_start"

section \<open>One stream\<close>

fun messages_of :: "'m yielded list \<Rightarrow> 'm list" where
  "messages_of [] = []"
| "messages_of (Heartbeat # xs) = messages_of xs"
| "messages_of (Message m # xs) = m # messages_of xs"

lemma messages_append [simp]: "messages_of (xs @ ys) = messages_of xs @ messages_of ys"
  by (induction xs rule: messages_of.induct) auto

definition stream_inv :: "nat \<Rightarrow> 'm stream_world \<Rightarrow> bool" where
  "stream_inv i w \<longleftrightarrow> (sw_pc w i = Waiting \<longleftrightarrow> sw_waiter w = Some i) \<and> (sw_waiter w = None \<or> sw_waiter w = Some i)
     \<and> (sw_pc w i = Waiting \<longrightarrow> sw_queue w = []) \<and> messages_of (sw_out w i) @ sw_queue w = sw_pushed w"

lemma stream_inv_step:
  assumes "stream_step {i} w w'" and "stream_inv i w"
  shows "stream_inv i w'"
  using assms(1)
proof (rule stream_stepE)
  fix messages assume "w' = push_session messages w"
  then show ?thesis using assms(2)
    by (auto simp: stream_inv_def push_session_def set_pc_def Let_def append_assoc [symmetric] simp del: append_assoc split: option.split)
next
  fix j assume "w' = open_session_yield_loop j w" "j \<in> {i}"
  then show ?thesis using assms(2)
    by (auto simp: stream_inv_def open_session_yield_loop_def set_pc_def yield_out_def wait_for_message_or_timeout_def
        drain_queue_until_empty_or_aborted_def split: stream_pc.split list.split)
next
  fix j assume "w' = wait_timeout j w" "j \<in> {i}" "sw_pc w j = Waiting"
  then show ?thesis using assms(2) by (auto simp: stream_inv_def wait_timeout_def set_pc_def)
next
  fix j assume "w' = w\<lparr>sw_aborted := (sw_aborted w)(j := True)\<rparr>"
  then show ?thesis using assms(2) by (simp add: stream_inv_def)
qed

lemma stream_inv_reach:
  assumes "stream_reach {i} w"
  shows "stream_inv i w"
  using assms
proof (induction rule: rtranclp_induct)
  case base
  show ?case by (simp add: stream_inv_def stream_start_def)
next
  case (step y z)
  show ?case by (rule stream_inv_step [OF step(2,3)])
qed

lemma deliver_next:
  assumes "stream_inv i w" and "sw_queue w = m # rest" and "\<not> sw_aborted w i" and "sw_pc w i \<noteq> Finished"
  shows "\<exists>n \<le> 5. sw_queue ((open_session_yield_loop i ^^ n) w) = rest
    \<and> messages_of (sw_out ((open_session_yield_loop i ^^ n) w) i) = messages_of (sw_out w i) @ [m]"
proof -
  let ?f = "open_session_yield_loop i"
  have drain: "sw_queue (?f v) = rest \<and> messages_of (sw_out (?f v) i) = messages_of (sw_out v i) @ [m]"
    if "sw_pc v i = Draining" "sw_queue v = m # rest" "\<not> sw_aborted v i" for v
    using that by (simp add: open_session_yield_loop_def drain_queue_until_empty_or_aborted_def yield_out_def)
  have resumed: "sw_pc (?f v) i = Draining \<and> sw_queue (?f v) = sw_queue v \<and> sw_out (?f v) = sw_out v \<and> sw_aborted (?f v) = sw_aborted v"
    if "sw_pc v i = Resumed True" "sw_queue v \<noteq> []" "\<not> sw_aborted v i" for v
    using that by (simp add: open_session_yield_loop_def set_pc_def)
  have looping: "sw_pc (?f v) i = Resumed True \<and> sw_queue (?f v) = sw_queue v \<and> sw_out (?f v) = sw_out v \<and> sw_aborted (?f v) = sw_aborted v"
    if "sw_pc v i = Looping" "sw_queue v \<noteq> []" "\<not> sw_aborted v i" for v
    using that by (simp add: open_session_yield_loop_def wait_for_message_or_timeout_def set_pc_def)
  have beat: "sw_pc (?f v) i = Looping \<and> sw_queue (?f v) = sw_queue v \<and> messages_of (sw_out (?f v) i) = messages_of (sw_out v i) \<and> sw_aborted (?f v) = sw_aborted v"
    if "sw_pc v i = Opening \<or> sw_pc v i = Resumed False" "\<not> sw_aborted v i" for v
    using that by (auto simp: open_session_yield_loop_def yield_out_def set_pc_def)
  have from_loop: "sw_queue (?f (?f (?f v))) = rest \<and> messages_of (sw_out (?f (?f (?f v))) i) = messages_of (sw_out v i) @ [m]"
    if "sw_pc v i = Looping" "sw_queue v = m # rest" "\<not> sw_aborted v i" for v
    using that looping [of v] resumed [of "?f v"] drain [of "?f (?f v)"] by simp
  have power: "(?f ^^ 4) w = ?f (?f (?f (?f w)))" "(?f ^^ 3) w = ?f (?f (?f w))" "(?f ^^ 2) w = ?f (?f w)" "(?f ^^ 1) w = ?f w"
    by (simp_all add: numeral_eq_Suc)
  show ?thesis
  proof (cases "sw_pc w i")
    case Opening
    then show ?thesis using from_loop [of "?f w"] beat [of w] assms by (intro exI [of _ 4]) (simp only: power, simp)
  next
    case Looping
    then show ?thesis using from_loop [of w] assms by (intro exI [of _ 3]) (simp only: power, simp)
  next
    case Waiting
    then show ?thesis using assms(1,2) by (simp add: stream_inv_def)
  next
    case (Resumed b)
    show ?thesis
    proof (cases b)
      case True
      then show ?thesis using Resumed resumed [of w] drain [of "?f w"] assms by (intro exI [of _ 2]) (simp only: power, simp)
    next
      case False
      then show ?thesis using Resumed from_loop [of "?f w"] beat [of w] assms by (intro exI [of _ 4]) (simp only: power, simp)
    qed
  next
    case Draining
    then show ?thesis using drain [of w] assms by (intro exI [of _ 1]) (simp only: power, simp)
  next
    case Finished
    then show ?thesis using assms(4) by simp
  qed
qed

section \<open>Properties\<close>

text \<open>
  C33: With one stream on a session no message is lost, repeated or reordered: what the stream has
  yielded followed by the queue is what was pushed. And no wakeup is lost: whenever the queue is
  not empty and the stream is neither aborted nor finished, it is not waiting, and four of its
  own steps suffice to yield the next message.
\<close>

theorem single_stream_delivers:
  assumes "stream_reach {i} w"
  shows "messages_of (sw_out w i) @ sw_queue w = sw_pushed w
    \<and> (sw_queue w = m # rest \<longrightarrow> \<not> sw_aborted w i \<longrightarrow> sw_pc w i \<noteq> Finished \<longrightarrow>
        (\<exists>n \<le> 5. sw_queue ((open_session_yield_loop i ^^ n) w) = rest
          \<and> messages_of (sw_out ((open_session_yield_loop i ^^ n) w) i) = messages_of (sw_out w i) @ [m]))"
  using stream_inv_reach [OF assms] deliver_next [of i w m rest] unfolding stream_inv_def by blast

definition sample_stream :: "nat stream_world" where
  "sample_stream = push_session [7, 8] (open_session_yield_loop 0 (open_session_yield_loop 0 stream_start))"

lemma sample_stream_reach: "stream_reach {0} sample_stream"
proof -
  have "stream_step {0} stream_start (open_session_yield_loop 0 stream_start)" by (rule stream_step.advance) simp
  moreover have "stream_step {0} (open_session_yield_loop 0 stream_start) (open_session_yield_loop 0 (open_session_yield_loop 0 stream_start))"
    by (rule stream_step.advance) simp
  moreover have "stream_step {0} (open_session_yield_loop 0 (open_session_yield_loop 0 stream_start)) sample_stream"
    unfolding sample_stream_def by (rule stream_step.pushed)
  ultimately show ?thesis by (meson rtranclp.rtrancl_into_rtrancl rtranclp.rtrancl_refl)
qed

lemmas stream_defs = push_session_def set_pc_def yield_out_def wait_for_message_or_timeout_def wait_timeout_def
  drain_queue_until_empty_or_aborted_def open_session_yield_loop_def stream_start_def

theorem single_stream_delivers_witness:
  "sw_queue sample_stream = [7, 8] \<and> sw_pc sample_stream 0 = Resumed True
   \<and> (\<exists>n \<le> 5. messages_of (sw_out ((open_session_yield_loop 0 ^^ n) sample_stream) 0) = [7])"
proof -
  have "sw_queue sample_stream = [7, 8]" "sw_pc sample_stream 0 = Resumed True" "\<not> sw_aborted sample_stream 0"
    "messages_of (sw_out sample_stream 0) = []"
    by (simp_all add: sample_stream_def stream_defs)
  then show ?thesis using single_stream_delivers [OF sample_stream_reach, of 7 "[8]"] by auto
qed

text \<open>
  Two streams on one session lose wakeups: an aborted stream stays asleep until its timer, and
  the timer then takes the waiter's place from the stream that replaced it. That stream waits
  on a session with a message in its queue, and no later push wakes it.
\<close>

lemma two_streams_lose_wakeup:
  "\<exists>w. stream_reach {0, 1} w \<and> sw_aborted w 0 \<and> sw_pc w 0 = Finished \<and> \<not> sw_aborted w 1 \<and> sw_pc w 1 = Waiting
     \<and> sw_queue w = [m] \<and> (\<forall>messages. sw_pc (push_session messages w) 1 = Waiting)"
proof -
  let ?f = "open_session_yield_loop"
  define w1 where "w1 = ?f 0 (?f 0 (stream_start :: 'a stream_world))"
  define w2 where "w2 = w1\<lparr>sw_aborted := (sw_aborted w1)(0 := True)\<rparr>"
  define w3 where "w3 = ?f 1 (?f 1 w2)"
  define w4 where "w4 = push_session [m] (wait_timeout 0 w3)"
  define w5 where "w5 = ?f 0 w4"
  let ?step = "stream_step {0, 1} :: 'a stream_world \<Rightarrow> _"
  have adv: "?step\<^sup>*\<^sup>* v (?f i v)" if "i < 2" for i v
    by (rule r_into_rtranclp, rule stream_step.advance) (use that in auto)
  have "?step\<^sup>*\<^sup>* stream_start w1" unfolding w1_def by (rule rtranclp_trans [OF adv adv]) simp_all
  also have "?step\<^sup>*\<^sup>* w1 w2" unfolding w2_def by (rule r_into_rtranclp, rule stream_step.aborted)
  also have "?step\<^sup>*\<^sup>* w2 w3" unfolding w3_def by (rule rtranclp_trans [OF adv adv]) simp_all
  also have "?step\<^sup>*\<^sup>* w3 (wait_timeout 0 w3)"
    by (rule r_into_rtranclp, rule stream_step.timeout) (simp_all add: w3_def w2_def w1_def stream_defs)
  also have "?step\<^sup>*\<^sup>* (wait_timeout 0 w3) w4" unfolding w4_def by (rule r_into_rtranclp, rule stream_step.pushed)
  also have "?step\<^sup>*\<^sup>* w4 w5" unfolding w5_def by (rule adv) simp
  finally have "stream_reach {0, 1} w5" .
  then show ?thesis
    by (intro exI [of _ w5]) (simp add: w5_def w4_def w3_def w2_def w1_def stream_defs)
qed

end
