(* ===== verification/Push_Iterable.thy ===== *)
theory Push_Iterable
  imports Js_Value
begin

text \<open>
  The bridge from pushes to an async iterable of \<open>src/grpc/util/push_to_async_iterable.ts\<close>. Every
  call of \<open>next\<close> runs its loop in steps; at \<open>await\<close> it gives way to pushes, to the close and to
  other calls. There is one place for a call that waits. A pushed \<open>undefined\<close> is taken from the
  queue like an empty queue and is never delivered.
\<close>

section \<open>The bridge\<close>

datatype next_pc = Idle | Running | Blocked | Delivered jsval | Done

record push_world =
  pw_queue :: "jsval list"
  pw_closed :: bool
  pw_waiter :: "nat option"
  pw_pc :: "nat \<Rightarrow> next_pc"
  pw_out :: "nat \<Rightarrow> jsval list"
  pw_pushed :: "jsval list"

definition notify_waiter :: "push_world \<Rightarrow> push_world" where
  "notify_waiter w =
     (case pw_waiter w of
        None \<Rightarrow> w
      | Some i \<Rightarrow> w\<lparr>pw_pc := (pw_pc w)(i := Running), pw_waiter := None\<rparr>)"

definition push_value :: "jsval \<Rightarrow> push_world \<Rightarrow> push_world" where
  "push_value value w =
     (if pw_closed w then w
      else notify_waiter (w\<lparr>pw_queue := pw_queue w @ [value], pw_pushed := pw_pushed w @ [value]\<rparr>))"

definition close_push :: "push_world \<Rightarrow> push_world" where
  "close_push w = notify_waiter (w\<lparr>pw_closed := True\<rparr>)"

definition wait_until_item_or_closed :: "nat \<Rightarrow> push_world \<Rightarrow> push_world" where
  "wait_until_item_or_closed i w =
     (if pw_queue w \<noteq> [] \<or> pw_closed w then w
      else w\<lparr>pw_waiter := Some i, pw_pc := (pw_pc w)(i := Blocked)\<rparr>)"

text \<open>One round of the loop of \<open>next\<close>.\<close>

definition next_round :: "nat \<Rightarrow> push_world \<Rightarrow> push_world" where
  "next_round i w =
     (let value = (case pw_queue w of [] \<Rightarrow> JUndef | v # _ \<Rightarrow> v); w = w\<lparr>pw_queue := tl (pw_queue w)\<rparr>
      in if value \<noteq> JUndef then w\<lparr>pw_pc := (pw_pc w)(i := Delivered value), pw_out := (pw_out w)(i := pw_out w i @ [value])\<rparr>
         else if pw_closed w then w\<lparr>pw_pc := (pw_pc w)(i := Done)\<rparr>
         else wait_until_item_or_closed i w)"

definition push_start :: push_world where
  "push_start = \<lparr>pw_queue = [], pw_closed = False, pw_waiter = None, pw_pc = (\<lambda>_. Idle), pw_out = (\<lambda>_. []), pw_pushed = []\<rparr>"

text \<open>A consumer calls \<open>next\<close> again only when its last call has returned.\<close>

inductive push_step :: "nat set \<Rightarrow> push_world \<Rightarrow> push_world \<Rightarrow> bool" for ids where
  pushed: "push_step ids w (push_value v w)"
| closed: "push_step ids w (close_push w)"
| called: "i \<in> ids \<Longrightarrow> pw_pc w i \<noteq> Running \<Longrightarrow> pw_pc w i \<noteq> Blocked \<Longrightarrow> push_step ids w (w\<lparr>pw_pc := (pw_pc w)(i := Running)\<rparr>)"
| round: "i \<in> ids \<Longrightarrow> pw_pc w i = Running \<Longrightarrow> push_step ids w (next_round i w)"

inductive_cases push_stepE: "push_step ids w w'"

abbreviation push_reach :: "nat set \<Rightarrow> push_world \<Rightarrow> bool" where
  "push_reach ids \<equiv> (push_step ids)\<^sup>*\<^sup>* push_start"

section \<open>One consumer\<close>

definition defined_values :: "jsval list \<Rightarrow> jsval list" where
  "defined_values = filter (\<lambda>v. v \<noteq> JUndef)"

definition push_inv :: "nat \<Rightarrow> push_world \<Rightarrow> bool" where
  "push_inv i w \<longleftrightarrow> (pw_pc w i = Blocked \<longleftrightarrow> pw_waiter w = Some i) \<and> (pw_waiter w = None \<or> pw_waiter w = Some i)
     \<and> (pw_pc w i = Blocked \<longrightarrow> pw_queue w = [] \<and> \<not> pw_closed w)
     \<and> pw_out w i @ defined_values (pw_queue w) = defined_values (pw_pushed w)
     \<and> (pw_pc w i = Done \<longrightarrow> pw_closed w)"

lemma push_inv_step:
  assumes "push_step {i} w w'" and "push_inv i w"
  shows "push_inv i w'"
  using assms(1)
proof (rule push_stepE)
  fix v assume "w' = push_value v w"
  then show ?thesis using assms(2)
    by (auto simp: push_inv_def push_value_def notify_waiter_def defined_values_def append_assoc [symmetric]
        simp del: append_assoc split: option.split)
next
  assume "w' = close_push w"
  then show ?thesis using assms(2) by (auto simp: push_inv_def close_push_def notify_waiter_def split: option.split)
next
  fix j assume "w' = w\<lparr>pw_pc := (pw_pc w)(j := Running)\<rparr>" "j \<in> {i}" "pw_pc w j \<noteq> Running" "pw_pc w j \<noteq> Blocked"
  then show ?thesis using assms(2) by (auto simp: push_inv_def)
next
  fix j assume "w' = next_round j w" "j \<in> {i}" "pw_pc w j = Running"
  then show ?thesis using assms(2)
    by (cases "pw_queue w")
      (auto simp: push_inv_def next_round_def wait_until_item_or_closed_def defined_values_def Let_def)
qed

lemma push_inv_reach:
  assumes "push_reach {i} w"
  shows "push_inv i w"
  using assms
proof (induction rule: rtranclp_induct)
  case base
  show ?case by (simp add: push_inv_def push_start_def defined_values_def)
next
  case (step y z)
  show ?case by (rule push_inv_step [OF step(2,3)])
qed

text \<open>
  With one consumer no value is lost or reordered and no wakeup is lost: a call that is blocked
  has nothing to deliver, and one round of a running call delivers the head of the queue.
\<close>

lemma single_consumer_fifo:
  assumes "push_reach {i} w"
  shows "pw_out w i @ defined_values (pw_queue w) = defined_values (pw_pushed w)
    \<and> (pw_pc w i = Blocked \<longrightarrow> pw_queue w = [] \<and> \<not> pw_closed w \<and> pw_waiter w = Some i)"
  using push_inv_reach [OF assms] by (auto simp: push_inv_def)

lemma round_delivers:
  assumes "pw_queue w = v # vs" and "v \<noteq> JUndef"
  shows "pw_pc (next_round i w) i = Delivered v \<and> pw_queue (next_round i w) = vs"
  using assms by (simp add: next_round_def Let_def)

text \<open>
  A pushed \<open>undefined\<close> hides what follows it once the bridge is closed: the call takes it, sees the
  close and ends the iteration with a value still in the queue.
\<close>

lemma undefined_ends_iteration:
  "\<exists>w. push_reach {0} w \<and> pw_pc w 0 = Done \<and> pw_queue w = [JStr ''x'']"
proof -
  define w1 where "w1 = push_value (JStr ''x'') (push_value JUndef push_start)"
  define w2 where "w2 = (close_push w1)\<lparr>pw_pc := (pw_pc (close_push w1))(0 := Running)\<rparr>"
  have "push_step {0} push_start (push_value JUndef push_start)" "push_step {0} (push_value JUndef push_start) w1"
    "push_step {0} w1 (close_push w1)"
    unfolding w1_def by (rule push_step.pushed push_step.closed)+
  moreover have "push_step {0} (close_push w1) w2" unfolding w2_def
    by (rule push_step.called) (simp_all add: w1_def push_value_def close_push_def notify_waiter_def push_start_def)
  moreover have "push_step {0} w2 (next_round 0 w2)" by (rule push_step.round) (simp_all add: w2_def)
  ultimately have "push_reach {0} (next_round 0 w2)" by (meson rtranclp.rtrancl_into_rtrancl rtranclp.rtrancl_refl)
  then show ?thesis
    by (intro exI [of _ "next_round 0 w2"])
      (simp add: w2_def w1_def push_value_def close_push_def notify_waiter_def push_start_def next_round_def)
qed

text \<open>Two calls at a time: the second takes the place of the first, which a push does not wake.\<close>

lemma two_consumers_lose_wakeup:
  "\<exists>w. push_reach {0, 1} w \<and> pw_pc w 0 = Blocked \<and> pw_waiter w = None \<and> pw_queue w = [JStr ''x'']"
proof -
  define call where "call = (\<lambda>i w. next_round i (w\<lparr>pw_pc := (pw_pc w)(i := Running)\<rparr>))"
  have call: "(push_step {0, 1})\<^sup>*\<^sup>* w (call i w)" if "i < 2" "pw_pc w i = Idle" for i w
  proof -
    have "push_step {0, 1} w (w\<lparr>pw_pc := (pw_pc w)(i := Running)\<rparr>)"
      by (rule push_step.called) (use that in auto)
    moreover have "push_step {0, 1} (w\<lparr>pw_pc := (pw_pc w)(i := Running)\<rparr>) (call i w)"
      unfolding call_def by (rule push_step.round) (use that in auto)
    ultimately show ?thesis by (meson rtranclp.rtrancl_into_rtrancl rtranclp.rtrancl_refl)
  qed
  define w1 where "w1 = call 0 push_start"
  define w2 where "w2 = call 1 w1"
  define w3 where "w3 = push_value (JStr ''x'') w2"
  note defs = w3_def w2_def w1_def call_def push_start_def next_round_def wait_until_item_or_closed_def push_value_def notify_waiter_def
  have "(push_step {0, 1})\<^sup>*\<^sup>* push_start w1" unfolding w1_def by (rule call) (simp_all add: push_start_def)
  also have "(push_step {0, 1})\<^sup>*\<^sup>* w1 w2" unfolding w2_def by (rule call) (simp_all add: defs)
  also have "(push_step {0, 1})\<^sup>*\<^sup>* w2 w3" unfolding w3_def by (rule r_into_rtranclp, rule push_step.pushed)
  finally have "push_reach {0, 1} w3" .
  then show ?thesis by (intro exI [of _ w3]) (simp add: defs)
qed

end
