(* ===== verification/Runtime_Bridge.thy ===== *)
theory Runtime_Bridge
  imports Server
begin

text \<open>
  The bridge from the outputs of the runtime to a session of
  \<open>src/grpc/bridge/connect_bridge_minireactor.ts\<close>: its stages, its outbox and its disposal. The
  reactor (\<open>MiniReactor\<close>) is a submodule: the chain of nodes is data and \<open>deliver\<close>, what the
  source does with a received value, a parameter; \<open>delivers_in_order\<close> states the documented
  behaviour, that the value passes through the nodes one after the other. The layer library's
  \<open>get_base_value\<close> is the parameter \<open>base\<close>; the pair \<open>lay\<close>, \<open>ltxt\<close> prints layered values.
\<close>

section \<open>Events and stages\<close>

record runtime_event =
  ev_card :: jstring
  ev_slot :: jstring
  ev_value :: jsval

record bridge_stage =
  st_event :: runtime_event
  st_key :: jstring
  st_signature :: jstring

datatype bridge_action = SkippedEqualState | SkippedEqualOutbox | Forwarded

record bridge =
  br_session :: session_state
  br_outbox :: "(jstring, jstring) jmap"
  br_disposed :: bool
  br_sink_disposed :: bool
  br_trace :: "(bridge_action \<times> runtime_event) list"

definition trace_io :: "bridge_action \<Rightarrow> runtime_event \<Rightarrow> bridge \<Rightarrow> bridge" where
  "trace_io action e b = b\<lparr>br_trace := br_trace b @ [(action, e)]\<rparr>"

text \<open>The module has its own copy of the signature function of \<open>card_slot_sync.ts\<close>.\<close>

definition bridge_value_signature :: "jsval \<Rightarrow> jstring" where
  "bridge_value_signature v =
     (case v of
        JNull \<Rightarrow> js_typeof v @ '':'' @ prim_to_string v
      | JStr _ \<Rightarrow> js_typeof v @ '':'' @ prim_to_string v
      | JNum _ \<Rightarrow> js_typeof v @ '':'' @ prim_to_string v
      | JBool _ \<Rightarrow> js_typeof v @ '':'' @ prim_to_string v
      | _ \<Rightarrow> ''json:'' @ (case json_stringify v of Some s \<Rightarrow> s | None \<Rightarrow> ''undefined''))"

lemma bridge_value_signature_eq: "bridge_value_signature = value_signature"
  by (simp add: fun_eq_iff bridge_value_signature_def value_signature_def)

definition base_value_signature :: "(jsval \<Rightarrow> jsval) \<Rightarrow> jsval \<Rightarrow> jstring" where
  "base_value_signature base v = bridge_value_signature (base v)"

definition stage_from_event :: "(jsval \<Rightarrow> jsval) \<Rightarrow> runtime_event \<Rightarrow> bridge_stage" where
  "stage_from_event base e =
     \<lparr>st_event = e, st_key = ev_card e @ ev_slot e, st_signature = base_value_signature base (ev_value e)\<rparr>"

definition not_equal_to_session_state :: "(jsval \<Rightarrow> jsval) \<Rightarrow> bridge_stage \<Rightarrow> bridge \<Rightarrow> bool \<times> bridge" where
  "not_equal_to_session_state base stage b =
     (let state_value = (case map_of (ss_slot_map (br_session b)) (st_key stage) of
                           None \<Rightarrow> JUndef | Some ref \<Rightarrow> ref_value ref);
          signatured_value = base_value_signature base state_value
      in if state_value \<noteq> JUndef \<and> signatured_value = st_signature stage
         then (False, trace_io SkippedEqualState (st_event stage) b)
         else (True, b))"

definition not_equal_to_outbox :: "bridge_stage \<Rightarrow> bridge \<Rightarrow> bool \<times> bridge" where
  "not_equal_to_outbox stage b =
     (if map_of (br_outbox b) (st_key stage) = Some (st_signature stage)
      then (False, trace_io SkippedEqualOutbox (st_event stage) b)
      else (True, b))"

definition forward_to_session_io :: "(jsval \<Rightarrow> bool) \<Rightarrow> (jsval \<Rightarrow> jstring) \<Rightarrow> bridge_stage \<Rightarrow> bridge \<Rightarrow> bridge" where
  "forward_to_session_io lay ltxt stage b =
     (let b = b\<lparr>br_outbox := AList.update (st_key stage) (st_signature stage) (br_outbox b)\<rparr>;
          b = trace_io Forwarded (st_event stage) b
      in b\<lparr>br_session := push_messages [to_card_update_message lay ltxt (st_key stage)
             (Some \<lparr>ref_id = ev_card (st_event stage), ref_value = ev_value (st_event stage)\<rparr>)] (br_session b)\<rparr>)"

section \<open>The chain\<close>

text \<open>A value that travels through the chain: nothing yet, an event, a stage.\<close>

datatype bridge_value = Undefined | Event runtime_event | Staged bridge_stage

datatype bridge_node =
    Filter "bridge_value \<Rightarrow> bridge \<Rightarrow> bool \<times> bridge"
  | Map "bridge_value \<Rightarrow> bridge_value"
  | Tap "bridge_value \<Rightarrow> bridge \<Rightarrow> bridge"

fun run_nodes :: "bridge_node list \<Rightarrow> bridge_value \<Rightarrow> bridge \<Rightarrow> bridge" where
  "run_nodes [] v b = b"
| "run_nodes (Filter p # nodes) v b = (let (keep, b) = p v b in if keep then run_nodes nodes v b else b)"
| "run_nodes (Map f # nodes) v b = run_nodes nodes (f v) b"
| "run_nodes (Tap f # nodes) v b = run_nodes nodes v (f v b)"

type_synonym reactor = "bridge_node list \<Rightarrow> bridge_value \<Rightarrow> bridge \<Rightarrow> bridge"

definition delivers_in_order :: "reactor \<Rightarrow> bool" where
  "delivers_in_order deliver \<longleftrightarrow> (\<forall>nodes v b. deliver nodes v b = run_nodes nodes v b)"

definition on_stage :: "(bridge_stage \<Rightarrow> bridge \<Rightarrow> bool \<times> bridge) \<Rightarrow> bridge_value \<Rightarrow> bridge \<Rightarrow> bool \<times> bridge" where
  "on_stage p v b = (case v of Staged stage \<Rightarrow> p stage b | _ \<Rightarrow> (False, b))"

definition runtime_output_sink :: "(jsval \<Rightarrow> jsval) \<Rightarrow> (jsval \<Rightarrow> bool) \<Rightarrow> (jsval \<Rightarrow> jstring) \<Rightarrow> bridge_node list" where
  "runtime_output_sink base lay ltxt =
     [Filter (\<lambda>v b. (v \<noteq> Undefined, b)),
      Map (\<lambda>v. case v of Event e \<Rightarrow> Staged (stage_from_event base e) | _ \<Rightarrow> v),
      Filter (on_stage (not_equal_to_session_state base)),
      Filter (on_stage not_equal_to_outbox),
      Tap (\<lambda>v b. case v of Staged stage \<Rightarrow> forward_to_session_io lay ltxt stage b | _ \<Rightarrow> b)]"

definition create_runtime_output_bridge_io :: "session_state \<Rightarrow> bridge" where
  "create_runtime_output_bridge_io state =
     \<lparr>br_session = state, br_outbox = [], br_disposed = False, br_sink_disposed = False, br_trace = []\<rparr>"

definition receive_io ::
    "reactor \<Rightarrow> (jsval \<Rightarrow> jsval) \<Rightarrow> (jsval \<Rightarrow> bool) \<Rightarrow> (jsval \<Rightarrow> jstring) \<Rightarrow> runtime_event \<Rightarrow> bridge \<Rightarrow> bridge" where
  "receive_io deliver base lay ltxt e b =
     (if br_disposed b then b else deliver (runtime_output_sink base lay ltxt) (Event e) b)"

definition dispose_io :: "bridge \<Rightarrow> bridge" where
  "dispose_io b = b\<lparr>br_disposed := True, br_sink_disposed := True\<rparr>"

section \<open>What is forwarded\<close>

text \<open>
  The specification speaks of the history only: an event is forwarded when its value differs
  from the one of the slot map and from the last one forwarded for its key.
\<close>

definition event_key :: "runtime_event \<Rightarrow> jstring" where
  "event_key e = ev_card e @ ev_slot e"

definition last_signature :: "(jsval \<Rightarrow> jsval) \<Rightarrow> jstring \<Rightarrow> runtime_event list \<Rightarrow> jstring option" where
  "last_signature base k es =
     (let xs = filter (\<lambda>e. event_key e = k) es
      in if xs = [] then None else Some (base_value_signature base (ev_value (last xs))))"

definition state_signature :: "(jsval \<Rightarrow> jsval) \<Rightarrow> slot_map \<Rightarrow> jstring \<Rightarrow> jstring option" where
  "state_signature base m k =
     (case map_of m k of None \<Rightarrow> None
      | Some ref \<Rightarrow> if ref_value ref = JUndef then None else Some (base_value_signature base (ref_value ref)))"

definition forward_step :: "(jsval \<Rightarrow> jsval) \<Rightarrow> slot_map \<Rightarrow> runtime_event \<Rightarrow> runtime_event list \<Rightarrow> runtime_event list" where
  "forward_step base m e done =
     (let s = Some (base_value_signature base (ev_value e))
      in if state_signature base m (event_key e) = s \<or> last_signature base (event_key e) done = s then done
         else done @ [e])"

definition forwarded :: "(jsval \<Rightarrow> jsval) \<Rightarrow> slot_map \<Rightarrow> runtime_event list \<Rightarrow> runtime_event list" where
  "forwarded base m es = fold (forward_step base m) es []"

definition event_message :: "(jsval \<Rightarrow> bool) \<Rightarrow> (jsval \<Rightarrow> jstring) \<Rightarrow> runtime_event \<Rightarrow> server_message" where
  "event_message lay ltxt e =
     to_card_update_message lay ltxt (event_key e) (Some \<lparr>ref_id = ev_card e, ref_value = ev_value e\<rparr>)"

definition bridge_rel ::
    "(jsval \<Rightarrow> jsval) \<Rightarrow> (jsval \<Rightarrow> bool) \<Rightarrow> (jsval \<Rightarrow> jstring) \<Rightarrow> session_state \<Rightarrow> bridge \<Rightarrow> runtime_event list \<Rightarrow> bool" where
  "bridge_rel base lay ltxt state b done \<longleftrightarrow>
     \<not> br_disposed b \<and> ss_slot_map (br_session b) = ss_slot_map state
     \<and> ss_queue (br_session b) = ss_queue state @ map (event_message lay ltxt) done
     \<and> (\<forall>k. map_of (br_outbox b) k = last_signature base k done)"

lemma last_signature_snoc [simp]:
  "last_signature base k (es @ [e]) =
     (if event_key e = k then Some (base_value_signature base (ev_value e)) else last_signature base k es)"
  by (simp add: last_signature_def Let_def)

lemma last_signature_Nil [simp]: "last_signature base k [] = None"
  by (simp add: last_signature_def)

lemma forward_step_rel:
  assumes "bridge_rel base lay ltxt state b done"
  shows "bridge_rel base lay ltxt state
    (run_nodes (runtime_output_sink base lay ltxt) (Event e) b) (forward_step base (ss_slot_map state) e done)"
  using assms
  by (auto simp: bridge_rel_def runtime_output_sink_def on_stage_def stage_from_event_def not_equal_to_session_state_def
      not_equal_to_outbox_def forward_to_session_io_def forward_step_def trace_io_def push_messages_def Let_def
      event_key_def event_message_def state_signature_def update_conv' split: option.split)

lemma receive_rel:
  assumes "delivers_in_order deliver" and "bridge_rel base lay ltxt state b done"
  shows "bridge_rel base lay ltxt state (fold (receive_io deliver base lay ltxt) es b)
    (fold (forward_step base (ss_slot_map state)) es done)"
  using assms(2)
proof (induction es arbitrary: b "done")
  case (Cons e es)
  have "receive_io deliver base lay ltxt e b = run_nodes (runtime_output_sink base lay ltxt) (Event e) b"
    using assms(1) Cons.prems by (simp add: receive_io_def delivers_in_order_def bridge_rel_def)
  then show ?case using Cons.IH [OF forward_step_rel [OF Cons.prems]] by simp
qed simp

lemma bridge_start_rel: "bridge_rel base lay ltxt state (create_runtime_output_bridge_io state) []"
  by (simp add: bridge_rel_def create_runtime_output_bridge_io_def)

lemma forwarded_snoc: "forwarded base m (es @ [e]) = forward_step base m e (forwarded base m es)"
  by (simp add: forwarded_def)

lemma forwarded_tracks:
  assumes "state_signature base m k = None"
  shows "last_signature base k (forwarded base m es) = last_signature base k es"
proof (induction es rule: rev_induct)
  case Nil
  show ?case by (simp add: forwarded_def)
next
  case (snoc e es)
  then show ?case using assms by (auto simp: forwarded_snoc forward_step_def Let_def)
qed

lemma forwarded_no_repeat:
  "distinct_adj (map (\<lambda>e. base_value_signature base (ev_value e)) (filter (\<lambda>e. event_key e = k) (forwarded base m es)))"
proof (induction es rule: rev_induct)
  case Nil
  show ?case by (simp add: forwarded_def)
next
  case (snoc e es)
  then show ?case
    by (auto simp: forwarded_snoc forward_step_def Let_def distinct_adj_append_iff last_signature_def last_map)
qed

lemma disposed_silent: "fold (receive_io deliver base lay ltxt) es (dispose_io b) = dispose_io b"
  by (induction es) (simp_all add: receive_io_def dispose_io_def)

section \<open>Properties\<close>

text \<open>
  C36: The bridge refines its specification on histories: from a fresh bridge the queue of the
  session grows by the messages of the forwarded events, in order. For one key two forwarded
  values in a row differ, and for a key without a value in the slot map the last value
  forwarded is the last value the runtime gave. After disposal nothing is forwarded.
\<close>

theorem bridge_refines_history:
  assumes "delivers_in_order deliver"
  shows "let run = fold (receive_io deliver base lay ltxt); b = run es (create_runtime_output_bridge_io state);
             out = forwarded base (ss_slot_map state) es
         in ss_queue (br_session b) = ss_queue state @ map (event_message lay ltxt) out
          \<and> distinct_adj (map (\<lambda>e. base_value_signature base (ev_value e)) (filter (\<lambda>e. event_key e = k) out))
          \<and> (state_signature base (ss_slot_map state) k = None \<longrightarrow> last_signature base k out = last_signature base k es)
          \<and> run es' (dispose_io b) = dispose_io b"
  using receive_rel [OF assms bridge_start_rel, of base lay ltxt state es]
    forwarded_no_repeat [of base k "ss_slot_map state" es] forwarded_tracks [of base "ss_slot_map state" k es]
    disposed_silent [of deliver base lay ltxt es']
  unfolding Let_def forwarded_def bridge_rel_def by blast

definition output_event :: "jstring \<Rightarrow> jstring \<Rightarrow> runtime_event" where
  "output_event c v = \<lparr>ev_card = c, ev_slot = slot_this, ev_value = JStr v\<rparr>"

lemma run_nodes_in_order: "delivers_in_order run_nodes"
  by (simp add: delivers_in_order_def)

theorem bridge_refines_history_witness:
  "let b = fold (receive_io run_nodes id (\<lambda>_. False) (\<lambda>_. [])) [output_event ''a'' ''1'', output_event ''a'' ''1'', output_event ''a'' ''2'']
             (create_runtime_output_bridge_io (create_state []))
   in ss_queue (br_session b) = map (event_message (\<lambda>_. False) (\<lambda>_. [])) [output_event ''a'' ''1'', output_event ''a'' ''2'']"
proof -
  let ?es = "[output_event ''a'' ''1'', output_event ''a'' ''1'', output_event ''a'' ''2'']"
  have "forwarded id [] ?es = [output_event ''a'' ''1'', output_event ''a'' ''2'']"
    by code_simp
  then show ?thesis
    using bridge_refines_history [OF run_nodes_in_order, where base = id and lay = "\<lambda>_. False" and ltxt = "\<lambda>_. []"
        and state = "create_state []" and es = ?es]
    unfolding Let_def by (simp only: create_state_def session_state.simps) simp
qed

text \<open>
  A value that returns to the one of the slot map is not forwarded: the runtime outputs
  \<open>v\<close> and then \<open>u\<close>, the value the slot map has, and the last message of the session still
  says \<open>v\<close>. The slot map the bridge compares with is the one the client pushed; forwarding
  does not change it.
\<close>

lemma bridge_returns_stale:
  assumes "u \<noteq> v" and "delivers_in_order deliver"
  shows "ss_queue (br_session (fold (receive_io deliver id lay ltxt) [output_event ''a'' v, output_event ''a'' u]
             (create_runtime_output_bridge_io (create_state [(''a'' @ slot_this, \<lparr>ref_id = ''a'', ref_value = JStr u\<rparr>)]))))
           = [event_message lay ltxt (output_event ''a'' v)]"
proof -
  let ?state = "create_state [(''a'' @ slot_this, \<lparr>ref_id = ''a'', ref_value = JStr u\<rparr>)]"
  have "forwarded id (ss_slot_map ?state) [output_event ''a'' v, output_event ''a'' u] = [output_event ''a'' v]"
    using assms(1)
    by (simp add: forwarded_def forward_step_def Let_def create_state_def output_event_def state_signature_def
        event_key_def base_value_signature_def bridge_value_signature_eq sig_heads)
  then show ?thesis
    using receive_rel [OF assms(2) bridge_start_rel, of id lay ltxt ?state "[output_event ''a'' v, output_event ''a'' u]"]
    by (simp add: bridge_rel_def forwarded_def create_state_def)
qed

end
