(* ===== verification/Card_Runtime.thy ===== *)
theory Card_Runtime
  imports Card_Metadata
begin

text \<open>
  The map-based card runtime of \<open>src/grpc/card/runtime.ts\<close>, exported beside the metadata-backed
  one: seven module-level maps hold the cells, connectors, networks, sources and timestamps of
  cards. Its calls of the propagator library are effects of the log of \<open>Card_Metadata\<close>; \<open>cell_id\<close>
  and the test whether a strongest value is usable (not nothing, not a contradiction, not
  disposed) are further parameters. Tracing and console output are left out.
\<close>

section \<open>State\<close>

record card_runtime =
  rt_world :: card_world
  rt_connectors :: "(jstring, handle) jmap"
  rt_networks :: "(jstring, handle) jmap"
  rt_cards :: "(jstring, handle) jmap"
  rt_updaters :: "(jstring, handle) jmap"
  rt_this_cells :: "(jstring, handle) jmap"
  rt_sources :: "(jstring, handle) jmap"
  rt_timestamps :: "(jstring, int) jmap"

type_synonym 'a runtime_act = "(card_runtime, card_error, 'a) act"

type_synonym cell_ids = "effect list \<Rightarrow> handle \<Rightarrow> jstring"

definition on_world :: "'a card_act \<Rightarrow> 'a runtime_act" where
  "on_world m s = (case m (rt_world s) of (r, w) \<Rightarrow> (r, s\<lparr>rt_world := w\<rparr>))"

section \<open>Cards\<close>

definition dispose_card_internal_network_io :: "jstring \<Rightarrow> bool runtime_act" where
  "dispose_card_internal_network_io cid =
     andthen (reads (\<lambda>s. map_of (rt_networks s) cid)) (\<lambda>internal_network.
     case internal_network of
       None \<Rightarrow> ret False
     | Some network \<Rightarrow>
         andthen (on_world (dispose_propagator network)) (\<lambda>_.
         andthen (changes (\<lambda>s. s\<lparr>rt_networks := AList.delete cid (rt_networks s)\<rparr>)) (\<lambda>_.
         ret True)))"

definition get_or_create_card_compile_source :: "jstring \<Rightarrow> handle runtime_act" where
  "get_or_create_card_compile_source cid =
     andthen (reads (\<lambda>s. map_of (rt_sources s) cid)) (\<lambda>existing.
     case existing of
       Some source \<Rightarrow> ret source
     | None \<Rightarrow>
         andthen (on_world (create (\<lambda>h. SourceCell h (''card-compile:'' @ cid)))) (\<lambda>source.
         andthen (changes (\<lambda>s. s\<lparr>rt_sources := AList.update cid source (rt_sources s)\<rparr>)) (\<lambda>_.
         ret source)))"

definition refresh_card_neighbor_clocks ::
    "library \<Rightarrow> (effect list \<Rightarrow> handle \<Rightarrow> bool) \<Rightarrow> jstring \<Rightarrow> handle \<Rightarrow> unit card_act" where
  "refresh_card_neighbor_clocks L usable cid card_cell =
     andthen (internal_cell_getter slot_left card_cell) (\<lambda>left_cell.
     andthen (internal_cell_getter slot_right card_cell) (\<lambda>right_cell.
     andthen (internal_cell_getter slot_above card_cell) (\<lambda>above_cell.
     andthen (internal_cell_getter slot_below card_cell) (\<lambda>below_cell.
     for_each (\<lambda>(slot, cell).
         andthen (reads (\<lambda>w. (usable (effects w) cell, lib_base_value L (effects w) cell))) (\<lambda>(ok, strongest).
         if \<not> ok then ret ()
         else update_specialized_reactive_value L cell (cid @ '':'' @ slot) strongest))
       [(''left'', left_cell), (''right'', right_cell), (''above'', above_cell), (''below'', below_cell)]))))"

definition refresh_all_card_neighbor_clocks :: "library \<Rightarrow> (effect list \<Rightarrow> handle \<Rightarrow> bool) \<Rightarrow> unit runtime_act" where
  "refresh_all_card_neighbor_clocks L usable =
     andthen (reads rt_cards) (for_each (\<lambda>(cid, card_cell). on_world (refresh_card_neighbor_clocks L usable cid card_cell)))"

definition p_construct_card_cell :: "jstring \<Rightarrow> handle \<Rightarrow> handle card_act" where
  "p_construct_card_cell cid output =
     andthen (construct_cell (create_card_cell_name cid slot_this) None) (\<lambda>c1.
     andthen (construct_cell (create_card_cell_name cid slot_left) None) (\<lambda>c2.
     andthen (construct_cell (create_card_cell_name cid slot_right) None) (\<lambda>c3.
     andthen (construct_cell (create_card_cell_name cid slot_above) None) (\<lambda>c4.
     andthen (construct_cell (create_card_cell_name cid slot_below) None) (\<lambda>c5.
     create (\<lambda>h. DictCarrier h (zip all_slots [c1, c2, c3, c4, c5]) output))))))"

definition runtime_add_card :: "jstring \<Rightarrow> handle runtime_act" where
  "runtime_add_card cid =
     andthen (on_world (construct_cell ''card'' (Some cid))) (\<lambda>card_cell.
     andthen (on_world (p_construct_card_cell cid card_cell)) (\<lambda>_.
     andthen (on_world (construct_cell (''updater'' @ cid) None)) (\<lambda>updater.
     andthen (on_world (construct_cell (''emitter'' @ cid) None)) (\<lambda>emitter.
     andthen (on_world (internal_cell_getter slot_this card_cell)) (\<lambda>internal_this.
     andthen (on_world (create (\<lambda>h. CardIO h internal_this updater emitter))) (\<lambda>_.
     andthen (changes (\<lambda>s. s\<lparr>rt_this_cells := AList.update cid internal_this (rt_this_cells s)\<rparr>)) (\<lambda>_.
     andthen (on_world (create (\<lambda>h. EmitToRuntime h cid emitter))) (\<lambda>_.
     andthen (changes (\<lambda>s. s\<lparr>rt_cards := AList.update cid card_cell (rt_cards s),
                             rt_updaters := AList.update cid updater (rt_updaters s)\<rparr>)) (\<lambda>_.
     ret card_cell)))))))))"

definition runtime_get_card :: "jstring \<Rightarrow> handle option runtime_act" where
  "runtime_get_card cid =
     reads (\<lambda>s. case map_of (rt_cards s) cid of
                  Some card_cell \<Rightarrow> Some card_cell
                | None \<Rightarrow> map_option md_card (map_of (cards (rt_world s)) cid))"

definition runtime_compile_once :: "handle \<Rightarrow> jstring \<Rightarrow> handle \<Rightarrow> handle \<Rightarrow> unit runtime_act" where
  "runtime_compile_once env cid card_cell source =
     andthen (reads (\<lambda>s. case map_of (rt_timestamps s) cid of None \<Rightarrow> 0 | Some t \<Rightarrow> t)) (\<lambda>timestamp.
     andthen (on_world (internal_cell_getter slot_this card_cell)) (\<lambda>this_cell.
     andthen (on_world (get_local_env env card_cell)) (\<lambda>local_env.
     andthen (on_world (create (\<lambda>h. CompileNetwork h this_cell local_env source timestamp))) (\<lambda>network.
     andthen (changes (\<lambda>s. s\<lparr>rt_networks := AList.update cid network (rt_networks s)\<rparr>)) (\<lambda>_.
     changes (\<lambda>s. s\<lparr>rt_timestamps := AList.update cid (timestamp + 1) (rt_timestamps s)\<rparr>))))))"

definition runtime_build_card :: "handle \<Rightarrow> jstring \<Rightarrow> handle option runtime_act" where
  "runtime_build_card env cid =
     andthen (runtime_get_card cid) (\<lambda>found.
     case found of
       None \<Rightarrow> ret None
     | Some card_cell \<Rightarrow>
         andthen (on_world execute_all_tasks_sequential) (\<lambda>_.
         andthen (reads (\<lambda>s. map_of (rt_networks s) cid \<noteq> None)) (\<lambda>has_old_network.
         andthen (if has_old_network
                  then andthen (dispose_card_internal_network_io cid) (\<lambda>_. on_world execute_all_tasks_sequential)
                  else ret ()) (\<lambda>_.
         andthen (get_or_create_card_compile_source cid) (\<lambda>source_cell.
         andthen (runtime_compile_once env cid card_cell source_cell) (\<lambda>_.
         andthen (on_world execute_all_tasks_sequential) (\<lambda>_.
         ret (Some card_cell))))))))"

definition runtime_update_card :: "library \<Rightarrow> jstring \<Rightarrow> jsval \<Rightarrow> bool runtime_act" where
  "runtime_update_card L cid current =
     andthen (runtime_get_card cid) (\<lambda>card_cell.
     andthen (reads (\<lambda>s. (map_of (rt_updaters s) cid, map_of (rt_this_cells s) cid))) (\<lambda>(updater, internal_this).
     if card_cell = None then ret False
     else case updater of
       None \<Rightarrow> ret False
     | Some updater \<Rightarrow>
         (case internal_this of
            None \<Rightarrow> ret False
          | Some this_cell \<Rightarrow>
              andthen (reads (\<lambda>s. lib_base_value L (effects (rt_world s)) this_cell)) (\<lambda>previous.
              if lib_is_equal L previous (lib_get_base L current) then ret False
              else andthen (on_world (update_specialized_reactive_value L updater cid current)) (\<lambda>_.
                   ret True)))))"

definition runtime_remove_card :: "jstring \<Rightarrow> unit runtime_act" where
  "runtime_remove_card cid =
     andthen (reads (\<lambda>s. map_of (rt_cards s) cid)) (\<lambda>card_cell.
     case card_cell of
       None \<Rightarrow> ret ()
     | Some _ \<Rightarrow>
         andthen (dispose_card_internal_network_io cid) (\<lambda>_.
         changes (\<lambda>s. s\<lparr>rt_cards := AList.delete cid (rt_cards s),
                        rt_sources := AList.delete cid (rt_sources s),
                        rt_timestamps := AList.delete cid (rt_timestamps s)\<rparr>)))"

section \<open>Connectors\<close>

definition make_connector_key :: "cell_ids \<Rightarrow> handle \<Rightarrow> handle \<Rightarrow> effect list \<Rightarrow> jstring" where
  "make_connector_key cell_id a b log = make_connector_key_from_ids (cell_id log a) (cell_id log b)"

definition runtime_connect_cards :: "cell_ids \<Rightarrow> handle \<Rightarrow> handle \<Rightarrow> jstring \<Rightarrow> jstring \<Rightarrow> unit runtime_act" where
  "runtime_connect_cards cell_id cardA cardB connector_keyA connector_keyB =
     andthen (reads (\<lambda>s. make_connector_key cell_id cardA cardB (effects (rt_world s)))) (\<lambda>key.
     andthen (reads (\<lambda>s. map_of (rt_connectors s) key)) (\<lambda>existing.
     if existing \<noteq> None then ret ()
     else
       andthen (on_world (internal_cell_getter connector_keyA cardA)) (\<lambda>connector_keyA_cell.
       andthen (on_world (internal_cell_getter connector_keyB cardB)) (\<lambda>connector_keyB_cell.
       andthen (on_world (internal_cell_getter slot_this cardA)) (\<lambda>cardAthis.
       andthen (on_world (internal_cell_getter slot_this cardB)) (\<lambda>cardBthis.
       andthen (on_world (create (\<lambda>h. Connector h connector_keyB_cell connector_keyA_cell cardAthis cardBthis))) (\<lambda>connector.
       changes (\<lambda>s. s\<lparr>rt_connectors := AList.update key connector (rt_connectors s)\<rparr>))))))))"

text \<open>\<open>Either.left\<close> is an answer, not an exception.\<close>

definition runtime_detach_cards_by_key :: "jstring \<Rightarrow> jstring \<Rightarrow> (jstring + unit) runtime_act" where
  "runtime_detach_cards_by_key cardA_key cardB_key =
     (let connector_key = make_connector_key_from_ids cardA_key cardB_key
      in andthen (reads (\<lambda>s. map_of (rt_connectors s) connector_key)) (\<lambda>connector.
         case connector of
           None \<Rightarrow> ret (Inl (''Connector not found for cards '' @ cardA_key @ '' and '' @ cardB_key))
         | Some c \<Rightarrow>
             andthen (on_world (dispose_propagator c)) (\<lambda>_.
             andthen (changes (\<lambda>s. s\<lparr>rt_connectors := AList.delete connector_key (rt_connectors s)\<rparr>)) (\<lambda>_.
             ret (Inr ())))))"

definition runtime_detach_cards :: "cell_ids \<Rightarrow> handle \<Rightarrow> handle \<Rightarrow> (jstring + unit) runtime_act" where
  "runtime_detach_cards cell_id cardA cardB =
     andthen (reads (\<lambda>s. (cell_id (effects (rt_world s)) cardA, cell_id (effects (rt_world s)) cardB))) (\<lambda>(a, b).
     runtime_detach_cards_by_key a b)"

text \<open>
  \<open>forEach\<close> visits the entries in order; a callback that deletes entries not yet visited hides
  them. \<open>detach_visit\<close> asks before each visit whether the entry is still there.
\<close>

definition detach_visit :: "jstring \<Rightarrow> jstring \<Rightarrow> unit runtime_act" where
  "detach_visit cid key =
     andthen (reads (\<lambda>s. map_of (rt_connectors s) key)) (\<lambda>present.
     if present = None then ret ()
     else
       (let (cardA_key, cardB_key) = parse_connector_key key
        in if cardA_key = cid \<or> cardB_key = cid
           then andthen (runtime_detach_cards_by_key cardA_key cardB_key) (\<lambda>_. ret ())
           else ret ()))"

definition runtime_detach_incident_connectors :: "jstring \<Rightarrow> unit runtime_act" where
  "runtime_detach_incident_connectors cid =
     andthen (reads rt_connectors) (\<lambda>connectors. for_each (\<lambda>(key, _). detach_visit cid key) connectors)"

section \<open>Detaching the connectors of a card\<close>

definition pair_keyed :: "(jstring, 'v) jmap \<Rightarrow> bool" where
  "pair_keyed m \<longleftrightarrow> distinct (map fst m) \<and> (\<forall>k \<in> fst ` set m. \<exists>a b. k = make_connector_key_from_ids a b)"

lemma make_parse_key:
  "make_connector_key_from_ids (fst (parse_connector_key (make_connector_key_from_ids a b)))
     (snd (parse_connector_key (make_connector_key_from_ids a b))) = make_connector_key_from_ids a b"
proof -
  let ?key = "pair_key a b"
  obtain i where i: "index_of edge_key_separator ?key = Some i" "i \<le> length a"
    unfolding pair_key_def using index_of_append_Some by blast
  then have "parse_connector_key ?key = (take i ?key, drop (i + 5) ?key)"
    by (simp add: parse_connector_key_eq parse_edge_key_index)
  then show ?thesis
    using index_of_split [OF i(1)] by (simp add: make_connector_key_from_ids_def pair_key_def)
qed

definition touches :: "jstring \<Rightarrow> jstring \<Rightarrow> bool" where
  "touches cid key \<longleftrightarrow> fst (parse_connector_key key) = cid \<or> snd (parse_connector_key key) = cid"

definition incident_connectors :: "jstring \<Rightarrow> (jstring, handle) jmap \<Rightarrow> (jstring, handle) jmap" where
  "incident_connectors cid m = filter (\<lambda>(k, _). touches cid k) m"

definition detached :: "jstring \<Rightarrow> (jstring, handle) jmap \<Rightarrow> (jstring, handle) jmap \<Rightarrow> card_runtime \<Rightarrow> card_runtime" where
  "detached cid kept m s = s\<lparr>rt_connectors := kept @ filter (\<lambda>(k, _). \<not> touches cid k) m,
     rt_world := (rt_world s)\<lparr>effects := rev (map (\<lambda>(_, c). Dispose c) (incident_connectors cid m)) @ effects (rt_world s)\<rparr>\<rparr>"

lemma delete_middle:
  assumes "distinct (map fst (kept @ (k, c) # rest))"
  shows "AList.delete k (kept @ (k, c) # rest) = kept @ rest"
proof -
  have *: "filter (\<lambda>(k', _). k \<noteq> k') m = m" if "k \<notin> fst ` set m" for m :: "('a \<times> 'b) list"
    using that by (induction m) auto
  show ?thesis using assms by (simp add: AList.delete_eq * )
qed

lemma detach_visit_run:
  assumes "rt_connectors s = kept @ (k, c) # rest" and "pair_keyed (rt_connectors s)"
  shows "detach_visit cid k s = (Inr (), if touches cid k then
      s\<lparr>rt_connectors := kept @ rest, rt_world := (rt_world s)\<lparr>effects := Dispose c # effects (rt_world s)\<rparr>\<rparr> else s)"
proof -
  from assms obtain a b where k: "k = make_connector_key_from_ids a b" by (auto simp: pair_keyed_def)
  have d: "distinct (map fst (kept @ (k, c) # rest))" using assms by (simp add: pair_keyed_def)
  then have look: "map_of (rt_connectors s) k = Some c" unfolding assms(1) by (intro map_of_is_SomeI) auto
  have key: "make_connector_key_from_ids (fst (parse_connector_key k)) (snd (parse_connector_key k)) = k"
    unfolding k by (rule make_parse_key)
  show ?thesis
    using look delete_middle [OF d]
    by (auto simp: detach_visit_def touches_def split_def runtime_detach_cards_by_key_def key assms(1) on_world_def
        dispose_propagator_def emit_def Let_def andthen_def)
qed

lemma pair_keyed_drop: "pair_keyed (kept @ (k, c) # rest) \<Longrightarrow> pair_keyed (kept @ rest)"
  by (auto simp: pair_keyed_def)

lemma detach_loop:
  assumes "rt_connectors s = kept @ m" and "pair_keyed (kept @ m)"
  shows "for_each (\<lambda>(key, _). detach_visit cid key) m s = (Inr (), detached cid kept m s)"
  using assms
proof (induction m arbitrary: kept s)
  case Nil
  then show ?case by (simp add: detached_def incident_connectors_def)
next
  case (Cons p rest)
  obtain k c where p: "p = (k, c)" by force
  note visit = detach_visit_run [of s kept k c rest cid] and prems = Cons.prems [unfolded p]
  show ?case
  proof (cases "touches cid k")
    case True
    let ?s = "s\<lparr>rt_connectors := kept @ rest, rt_world := (rt_world s)\<lparr>effects := Dispose c # effects (rt_world s)\<rparr>\<rparr>"
    have "for_each (\<lambda>(key, _). detach_visit cid key) rest ?s = (Inr (), detached cid kept rest ?s)"
      by (rule Cons.IH) (use prems in \<open>simp_all add: pair_keyed_drop\<close>)
    then show ?thesis using visit prems True by (simp add: p andthen_def detached_def incident_connectors_def)
  next
    case False
    have "for_each (\<lambda>(key, _). detach_visit cid key) rest s = (Inr (), detached cid (kept @ [p]) rest s)"
      by (rule Cons.IH) (use prems in \<open>simp_all add: p\<close>)
    then show ?thesis using visit prems False by (simp add: p andthen_def detached_def incident_connectors_def)
  qed
qed

lemma detach_incident_run:
  assumes "pair_keyed (rt_connectors s)"
  shows "runtime_detach_incident_connectors cid s = (Inr (), detached cid [] (rt_connectors s) s)"
  using detach_loop [of s "[]" "rt_connectors s" cid] assms by (simp add: runtime_detach_incident_connectors_def)

end
