(* ===== verification/Card_Graph.thy ===== *)
theory Card_Graph
  imports Slot_Keys
begin

text \<open>
  \<open>card/graph.ts\<close>: the structural card graph. Its state is the set of card ids and a map
  from edge keys to edges; the module-level variables of the source are the fields of the
  record \<open>card_graph\<close>.
\<close>

record graph_edge =
  from_id :: jstring
  from_slot :: jstring
  to_id :: jstring
  to_slot :: jstring

record card_graph =
  card_ids :: "jstring list"
  edges :: "(jstring, graph_edge) jmap"

definition empty_card_graph :: card_graph where
  "empty_card_graph = \<lparr>card_ids = [], edges = []\<rparr>"

definition edge_key :: "graph_edge \<Rightarrow> jstring" where
  "edge_key e = pair_key (from_id e) (to_id e)"

definition add_graph_card :: "jstring \<Rightarrow> card_graph \<Rightarrow> card_graph" where
  "add_graph_card cid g = g\<lparr>card_ids := set_add cid (card_ids g)\<rparr>"

definition incident :: "jstring \<Rightarrow> graph_edge \<Rightarrow> bool" where
  "incident cid e \<longleftrightarrow> from_id e = cid \<or> to_id e = cid"

text \<open>
  The loop of \<open>remove_graph_card\<close> over the entries: an incident edge is recorded and its
  key deleted from the map that is being traversed.
\<close>

fun remove_incident :: "jstring \<Rightarrow> (jstring, graph_edge) jmap \<Rightarrow> graph_edge list \<Rightarrow>
    (jstring, graph_edge) jmap \<Rightarrow> graph_edge list \<times> (jstring, graph_edge) jmap" where
  "remove_incident cid [] removed es = (removed, es)"
| "remove_incident cid ((key, e) # rest) removed es =
     (if incident cid e then remove_incident cid rest (removed @ [e]) (AList.delete key es)
      else remove_incident cid rest removed es)"

definition remove_graph_card :: "jstring \<Rightarrow> card_graph \<Rightarrow> graph_edge list \<times> card_graph" where
  "remove_graph_card cid g =
     (let g1 = g\<lparr>card_ids := set_delete cid (card_ids g)\<rparr>;
          (removed, es) = remove_incident cid (edges g1) [] (edges g1)
      in (removed, g1\<lparr>edges := es\<rparr>))"

definition upsert_graph_edge :: "graph_edge \<Rightarrow> card_graph \<Rightarrow> card_graph" where
  "upsert_graph_edge e g = g\<lparr>edges := AList.update (edge_key e) e (edges g)\<rparr>"

definition remove_graph_edge :: "jstring \<Rightarrow> jstring \<Rightarrow> card_graph \<Rightarrow> graph_edge option \<times> card_graph" where
  "remove_graph_edge f t g =
     (case map_of (edges g) (pair_key f t) of
        Some e \<Rightarrow> (Some e, g\<lparr>edges := AList.delete (pair_key f t) (edges g)\<rparr>)
      | None \<Rightarrow> (None, g))"

definition get_graph_edge :: "jstring \<Rightarrow> jstring \<Rightarrow> card_graph \<Rightarrow> graph_edge option" where
  "get_graph_edge f t g = map_of (edges g) (pair_key f t)"

section \<open>The invariant\<close>

text \<open>Ids and keys are unique and every edge is stored under its own key.\<close>

definition card_graph_inv :: "card_graph \<Rightarrow> bool" where
  "card_graph_inv g \<longleftrightarrow> distinct (card_ids g) \<and> distinct (map fst (edges g))
     \<and> (\<forall>(k, e) \<in> set (edges g). k = edge_key e)"

lemma remove_incident_filter:
  "distinct (map fst rest) \<Longrightarrow>
   remove_incident cid rest removed es =
     (removed @ map snd (filter (\<lambda>(k, e). incident cid e) rest),
      filter (\<lambda>(k, e). k \<notin> fst ` set (filter (\<lambda>(k, e). incident cid e) rest)) es)"
proof (induction cid rest removed es rule: remove_incident.induct)
  case (1 cid removed es)
  then show ?case by simp
next
  case (2 cid key e rest removed es)
  then show ?case
    by (auto simp: AList.delete_eq filter_filter intro!: filter_cong)
qed

lemma remove_incident_self:
  assumes "distinct (map fst es)"
  shows "remove_incident cid es [] es =
     (map snd (filter (\<lambda>(k, e). incident cid e) es), filter (\<lambda>(k, e). \<not> incident cid e) es)"
proof -
  have "k \<notin> fst ` set (filter (\<lambda>(k, e). incident cid e) es) \<longleftrightarrow> \<not> incident cid e"
    if "(k, e) \<in> set es" for k e
    using that assms by (auto simp: image_iff dest: eq_key_imp_eq_value)
  then show ?thesis
    using assms by (auto simp: remove_incident_filter intro!: filter_cong)
qed

lemma remove_graph_card_eq:
  assumes "card_graph_inv g"
  shows "remove_graph_card cid g =
     (map snd (filter (\<lambda>(k, e). incident cid e) (edges g)),
      \<lparr>card_ids = set_delete cid (card_ids g), edges = filter (\<lambda>(k, e). \<not> incident cid e) (edges g)\<rparr>)"
  using assms by (simp add: remove_graph_card_def card_graph_inv_def remove_incident_self)

lemma distinct_filter_keys: "distinct (map fst m) \<Longrightarrow> distinct (map fst (filter P m))"
  by (rule distinct_map_filter)

lemma card_graph_inv_empty: "card_graph_inv empty_card_graph"
  by (simp add: card_graph_inv_def empty_card_graph_def)

lemma card_graph_inv_add: "card_graph_inv g \<Longrightarrow> card_graph_inv (add_graph_card cid g)"
  by (simp add: card_graph_inv_def add_graph_card_def)

lemma card_graph_inv_remove: "card_graph_inv g \<Longrightarrow> card_graph_inv (snd (remove_graph_card cid g))"
  by (subst remove_graph_card_eq) (auto simp: card_graph_inv_def distinct_filter_keys)

lemma card_graph_inv_upsert:
  assumes "card_graph_inv g"
  shows "card_graph_inv (upsert_graph_edge e g)"
proof -
  let ?m = "AList.update (edge_key e) e (edges g)"
  have d: "distinct (map fst ?m)"
    using assms by (simp add: card_graph_inv_def distinct_update)
  moreover have "k = edge_key e'" if "(k, e') \<in> set ?m" for k e'
  proof -
    have "map_of ?m k = Some e'" using d that by simp
    then show ?thesis
      using assms by (auto simp: update_conv' card_graph_inv_def split: if_splits dest: map_of_SomeD)
  qed
  ultimately show ?thesis
    using assms by (auto simp: card_graph_inv_def upsert_graph_edge_def)
qed

lemma card_graph_inv_remove_edge:
  "card_graph_inv g \<Longrightarrow> card_graph_inv (snd (remove_graph_edge f t g))"
  by (auto simp: card_graph_inv_def remove_graph_edge_def distinct_filter_keys AList.delete_eq split: option.splits)

lemma edge_lookup:
  "card_graph_inv g \<Longrightarrow> e \<in> snd ` set (edges g) \<Longrightarrow> map_of (edges g) (edge_key e) = Some e"
  by (auto simp: card_graph_inv_def intro!: map_of_is_SomeI)

lemma get_upsert: "get_graph_edge f t (upsert_graph_edge e g) =
    (if pair_key f t = edge_key e then Some e else get_graph_edge f t g)"
  by (simp add: get_graph_edge_def upsert_graph_edge_def update_conv')

lemma get_remove_edge: "get_graph_edge f t (snd (remove_graph_edge f' t' g)) =
    (if pair_key f t = pair_key f' t' then None else get_graph_edge f t g)"
  by (auto simp: get_graph_edge_def remove_graph_edge_def delete_conv' split: option.splits)

section \<open>Histories of the graph\<close>

text \<open>The graphs the module can hold: every sequence of its operations.\<close>

inductive graph_reachable :: "card_graph \<Rightarrow> bool" where
  init: "graph_reachable empty_card_graph"
| add: "graph_reachable g \<Longrightarrow> graph_reachable (add_graph_card cid g)"
| remove: "graph_reachable g \<Longrightarrow> graph_reachable (snd (remove_graph_card cid g))"
| upsert: "graph_reachable g \<Longrightarrow> graph_reachable (upsert_graph_edge e g)"
| remove_edge: "graph_reachable g \<Longrightarrow> graph_reachable (snd (remove_graph_edge f t g))"

lemma graph_reachable_inv: "graph_reachable g \<Longrightarrow> card_graph_inv g"
  by (induction rule: graph_reachable.induct)
    (auto intro: card_graph_inv_empty card_graph_inv_add card_graph_inv_remove
      card_graph_inv_upsert card_graph_inv_remove_edge)

lemma map_of_filter_values:
  "distinct (map fst m) \<Longrightarrow> map_of (filter (\<lambda>(k, e). P e) m) k =
    (case map_of m k of Some e \<Rightarrow> if P e then Some e else None | None \<Rightarrow> None)"
proof (induction m)
  case (Cons kv m)
  obtain k' e where kv: "kv = (k', e)" by force
  have "map_of m k' = None" using Cons.prems by (simp add: kv map_of_eq_None_iff)
  with Cons show ?case by (auto simp: kv)
qed simp

section \<open>Properties\<close>

lemma remove_graph_card_spec_parts:
  assumes "graph_reachable g"
  shows "set (fst (remove_graph_card cid g)) = {e. incident cid e \<and> get_graph_edge (from_id e) (to_id e) g = Some e}"
    and "distinct (fst (remove_graph_card cid g))"
    and "get_graph_edge f t (snd (remove_graph_card cid g)) =
      (case get_graph_edge f t g of Some e \<Rightarrow> if incident cid e then None else Some e | None \<Rightarrow> None)"
    and "set (card_ids (snd (remove_graph_card cid g))) = set (card_ids g) - {cid}"
proof -
  have inv: "card_graph_inv g" by (rule graph_reachable_inv [OF assms])
  note eq = remove_graph_card_eq [OF inv, of cid]
  have d: "distinct (map fst (edges g))" using inv by (simp add: card_graph_inv_def)
  have key: "k = edge_key e" if "(k, e) \<in> set (edges g)" for k e
    using inv that by (auto simp: card_graph_inv_def)
  have mem: "e \<in> snd ` set (edges g) \<longleftrightarrow> map_of (edges g) (edge_key e) = Some e" for e
    using edge_lookup [OF inv] by (force dest: map_of_SomeD)
  show "set (fst (remove_graph_card cid g)) = {e. incident cid e \<and> get_graph_edge (from_id e) (to_id e) g = Some e}"
    unfolding get_graph_edge_def edge_key_def [symmetric] mem [symmetric] by (auto simp: eq)
  have "inj_on snd (set (edges g))" by (auto simp: inj_on_def dest!: key)
  moreover have "distinct (edges g)" using d by (simp add: distinct_map)
  ultimately have "distinct (map snd (edges g))" by (simp add: distinct_map)
  then show "distinct (fst (remove_graph_card cid g))" by (simp add: eq distinct_map_filter)
  show "get_graph_edge f t (snd (remove_graph_card cid g)) =
      (case get_graph_edge f t g of Some e \<Rightarrow> if incident cid e then None else Some e | None \<Rightarrow> None)"
    by (simp add: get_graph_edge_def eq map_of_filter_values [OF d] split: option.splits)
  show "set (card_ids (snd (remove_graph_card cid g))) = set (card_ids g) - {cid}"
    by (auto simp: eq)
qed

text \<open>
  Removing a card from any graph the module can hold returns exactly the edges that touch
  it, each once, and leaves exactly the other edges: deleting from the map while it is being
  traversed skips none.
\<close>

lemma remove_graph_card_spec:
  assumes "graph_reachable g"
  shows "(set (fst (remove_graph_card cid g)) = {e. incident cid e \<and> get_graph_edge (from_id e) (to_id e) g = Some e}) \<and>
    (distinct (fst (remove_graph_card cid g))) \<and>
    (get_graph_edge f t (snd (remove_graph_card cid g)) =
      (case get_graph_edge f t g of Some e \<Rightarrow> if incident cid e then None else Some e | None \<Rightarrow> None)) \<and>
    (set (card_ids (snd (remove_graph_card cid g))) = set (card_ids g) - {cid})"
  by (intro conjI impI; rule remove_graph_card_spec_parts [OF assms]; assumption?)

end
