(* ===== verification/Card_Storage.thy ===== *)
theory Card_Storage
  imports Card_Runtime Card_Graph
begin

text \<open>
  The storage layer \<open>src/grpc/card/deprecated/storage.ts\<close>: every operation changes the card graph
  of \<open>graph.ts\<close> and the map-based runtime of \<open>runtime.ts\<close> in step. The invariant says that the two
  agree: the connectors of the runtime are those of the edges, none of them is disposed, and no
  other connector was left running.
\<close>

section \<open>The operations\<close>

record card_storage =
  cs_graph :: card_graph
  cs_runtime :: card_runtime

type_synonym 'a storage_act = "(card_storage, card_error, 'a) act"

definition on_graph :: "(card_graph \<Rightarrow> 'a \<times> card_graph) \<Rightarrow> 'a storage_act" where
  "on_graph f s = (case f (cs_graph s) of (x, g) \<Rightarrow> (Inr x, s\<lparr>cs_graph := g\<rparr>))"

definition on_runtime :: "'a runtime_act \<Rightarrow> 'a storage_act" where
  "on_runtime m s = (case m (cs_runtime s) of (r, t) \<Rightarrow> (r, s\<lparr>cs_runtime := t\<rparr>))"

definition storage_add_card :: "jstring \<Rightarrow> jstring storage_act" where
  "storage_add_card cid =
     andthen (on_graph (\<lambda>g. ((), add_graph_card cid g))) (\<lambda>_.
     andthen (on_runtime (runtime_add_card cid)) (\<lambda>_. ret cid))"

definition storage_build_card :: "handle \<Rightarrow> jstring \<Rightarrow> jstring storage_act" where
  "storage_build_card env cid =
     andthen (on_graph (\<lambda>g. ((), add_graph_card cid g))) (\<lambda>_.
     andthen (on_runtime (runtime_build_card env cid)) (\<lambda>_. ret cid))"

definition storage_update_card :: "library \<Rightarrow> jstring \<Rightarrow> jsval \<Rightarrow> bool storage_act" where
  "storage_update_card L cid v = on_runtime (runtime_update_card L cid v)"

definition storage_remove_card :: "jstring \<Rightarrow> unit storage_act" where
  "storage_remove_card cid =
     andthen (on_graph (remove_graph_card cid)) (\<lambda>_.
     andthen (on_runtime (runtime_detach_incident_connectors cid)) (\<lambda>_.
     on_runtime (runtime_remove_card cid)))"

definition storage_connect_cards ::
    "cell_ids \<Rightarrow> jstring \<Rightarrow> jstring \<Rightarrow> jstring \<Rightarrow> jstring \<Rightarrow> (jstring + unit) storage_act" where
  "storage_connect_cards cell_id idA idB connector_keyA connector_keyB =
     andthen (on_runtime (runtime_get_card idA)) (\<lambda>cardA.
     andthen (on_runtime (runtime_get_card idB)) (\<lambda>cardB.
     case cardA of
       None \<Rightarrow> ret (Inl (''Card not found: '' @ idA))
     | Some a \<Rightarrow>
         (case cardB of
            None \<Rightarrow> ret (Inl (''Card not found: '' @ idB))
          | Some b \<Rightarrow>
              andthen (on_graph (\<lambda>g. ((), upsert_graph_edge
                \<lparr>from_id = idA, from_slot = connector_keyA, to_id = idB, to_slot = connector_keyB\<rparr> g))) (\<lambda>_.
              andthen (on_runtime (runtime_connect_cards cell_id a b connector_keyA connector_keyB)) (\<lambda>_.
              ret (Inr ()))))))"

definition storage_detach_cards_by_key :: "jstring \<Rightarrow> jstring \<Rightarrow> (jstring + unit) storage_act" where
  "storage_detach_cards_by_key cardA_key cardB_key =
     andthen (reads (\<lambda>s. get_graph_edge cardA_key cardB_key (cs_graph s))) (\<lambda>edge.
     case edge of
       None \<Rightarrow> ret (Inl (''Connector not found for cards '' @ cardA_key @ '' and '' @ cardB_key))
     | Some e \<Rightarrow>
         andthen (on_graph (remove_graph_edge cardA_key cardB_key)) (\<lambda>_.
         on_runtime (runtime_detach_cards_by_key (from_id e) (to_id e))))"

definition storage_detach_cards :: "jstring \<Rightarrow> jstring \<Rightarrow> (jstring + unit) storage_act" where
  "storage_detach_cards idA idB = storage_detach_cards_by_key idA idB"

section \<open>Quiet calls\<close>

text \<open>
  Most calls create cells and propagators that are no connectors, and dispose of nothing. The id
  of a cell is the one it was constructed with.
\<close>

fun constructed_id :: "effect list \<Rightarrow> handle \<Rightarrow> jstring option" where
  "constructed_id [] h = None"
| "constructed_id (ConstructCell h' _ (Some i) # log) h = (if h' = h then Some i else constructed_id log h)"
| "constructed_id (_ # log) h = constructed_id log h"

definition ids_kept :: "cell_ids \<Rightarrow> bool" where
  "ids_kept cell_id \<longleftrightarrow> (\<forall>log h i. constructed_id log h = Some i \<longrightarrow> cell_id log h = i)"

definition connector_handles :: "effect list \<Rightarrow> handle set" where
  "connector_handles log = {h. \<exists>a b c d. Connector h a b c d \<in> set log}"

definition disposed_handles :: "effect list \<Rightarrow> handle set" where
  "disposed_handles log = {h. Dispose h \<in> set log}"

definition quiet :: "card_world \<Rightarrow> card_world \<Rightarrow> bool" where
  "quiet w w' \<longleftrightarrow> next_handle w \<le> next_handle w' \<and> cards w' = cards w
     \<and> connector_handles (effects w') = connector_handles (effects w)
     \<and> disposed_handles (effects w') = disposed_handles (effects w)
     \<and> (\<forall>h < next_handle w. constructed_id (effects w') h = constructed_id (effects w) h)"

interpretation quiet: frame_relation quiet
  by unfold_locales (auto simp: quiet_def)

definition quiet_effect :: "(handle \<Rightarrow> effect) \<Rightarrow> bool" where
  "quiet_effect mk \<longleftrightarrow> (\<forall>h. (\<forall>a b c d x. mk h \<noteq> Connector x a b c d) \<and> (\<forall>x. mk h \<noteq> Dispose x)
     \<and> (\<forall>x n i. mk h = ConstructCell x n (Some i) \<longrightarrow> x = h))"

lemma constructed_id_skip: "(\<And>n i. e \<noteq> ConstructCell h n (Some i)) \<Longrightarrow> constructed_id (e # log) h = constructed_id log h"
  by (cases "(e # log, h)" rule: constructed_id.cases) auto

lemma quiet_step:
  assumes "\<And>a b c d x. e \<noteq> Connector x a b c d" and "\<And>x. e \<noteq> Dispose x"
    and "\<And>x n i. e = ConstructCell x n (Some i) \<Longrightarrow> next_handle w \<le> x" and "next_handle w \<le> n'"
  shows "quiet w (w\<lparr>next_handle := n', effects := e # effects w\<rparr>)"
proof -
  have "constructed_id (e # effects w) h = constructed_id (effects w) h" if "h < next_handle w" for h
    by (rule constructed_id_skip) (use assms(3) that in fastforce)
  then show ?thesis using assms(1,2,4) by (simp add: quiet_def connector_handles_def disposed_handles_def assms(1,2) [symmetric])
qed

lemma quiet_create: "quiet_effect mk \<Longrightarrow> quiet.along (create mk)"
  unfolding quiet.along_def create_def quiet_effect_def by (intro allI, simp, rule quiet_step) (simp_all, metis order_refl)

lemma quiet_emit:
  assumes "quiet_effect (\<lambda>_. e)" and "\<And>x n i. e \<noteq> ConstructCell x n (Some i)"
  shows "quiet.along (emit e)"
  unfolding quiet.along_def
proof
  fix w
  have "quiet w (w\<lparr>next_handle := next_handle w, effects := e # effects w\<rparr>)"
    by (rule quiet_step) (use assms in \<open>auto simp: quiet_effect_def\<close>)
  then show "quiet w (snd (emit e w))" by (simp add: emit_def)
qed

named_theorems quiet_rules \<open>calls that neither connect nor dispose\<close>

lemma quiet_creations [quiet_rules]:
  "quiet.along (construct_cell n i)" "quiet.along (internal_cell_getter key c)" "quiet.along (create (\<lambda>h. SourceCell h n))"
  "quiet.along (create (\<lambda>h. DictCarrier h cs c))" "quiet.along (create (\<lambda>h. CardIO h c c1 c2))"
  "quiet.along (create (\<lambda>h. EmitToRuntime h n c))" "quiet.along (create (\<lambda>h. CompileNetwork h c c1 c2 t))"
  "quiet.along (create (\<lambda>h. ExtendEnv h c pairs))"
  by (auto simp: construct_cell_def internal_cell_getter_def quiet_effect_def intro!: quiet_create)

lemma quiet_emissions [quiet_rules]:
  "quiet.along execute_all_tasks_sequential" "quiet.along (emit (SelectiveSync c c1))" "quiet.along (emit (ReactiveUpdate c v n b))"
  by (auto simp: execute_all_tasks_sequential_def quiet_effect_def intro!: quiet_emit)

lemmas quiet_composed [quiet_rules] = quiet.along_rules

lemma quiet_env [quiet_rules]: "quiet.along (get_local_env env c)"
  unfolding get_local_env_def extends_local_environment_def by (intro quiet_rules)

lemma quiet_carrier [quiet_rules]: "quiet.along (p_construct_card_cell cid c)"
  unfolding p_construct_card_cell_def by (intro quiet_rules)

lemma quiet_update [quiet_rules]: "quiet.along (update_specialized_reactive_value L c n v)"
  unfolding update_specialized_reactive_value_def by (intro quiet_rules)

section \<open>The invariant of the runtime\<close>

definition runtime_inv :: "card_runtime \<Rightarrow> bool" where
  "runtime_inv s \<longleftrightarrow>
     (let w = rt_world s; n = next_handle w; log = effects w
      in cards w = [] \<and> distinct (map fst (rt_connectors s)) \<and> distinct (map snd (rt_connectors s))
       \<and> snd ` set (rt_connectors s) = connector_handles log - disposed_handles log
       \<and> connector_handles log \<subseteq> {..<n} \<and> disposed_handles log \<subseteq> {..<n}
       \<and> snd ` set (rt_networks s) \<subseteq> {..<n} - connector_handles log
       \<and> (\<forall>(c, h) \<in> set (rt_cards s). h < n \<and> constructed_id log h = Some c))"

text \<open>The invariant with the connectors and the cards held fixed and the ids of some cells known.\<close>

definition steady ::
    "(jstring, handle) jmap \<Rightarrow> (jstring, handle) jmap \<Rightarrow> (jstring \<times> handle) list \<Rightarrow> card_runtime \<Rightarrow> bool" where
  "steady C D E s \<longleftrightarrow> runtime_inv s \<and> rt_connectors s = C \<and> rt_cards s = D
     \<and> (\<forall>(c, h) \<in> set E. h < next_handle (rt_world s) \<and> constructed_id (effects (rt_world s)) h = Some c)"

lemma quiet_steady:
  assumes "steady C D E s" and "quiet (rt_world s) w"
  shows "steady C D E (s\<lparr>rt_world := w\<rparr>)"
  using assms by (fastforce simp: steady_def runtime_inv_def quiet_def Let_def)

lemma keeps_on_world: "quiet.along m \<Longrightarrow> keeps (steady C D E) (on_world m)"
  by (auto simp: on_world_def split: prod.splits intro!: keepsI quiet_steady dest: quiet.alongD)

lemma keeps_fields:
  "keeps (steady C D E) (changes (\<lambda>s. s\<lparr>rt_sources := f s\<rparr>))" "keeps (steady C D E) (changes (\<lambda>s. s\<lparr>rt_timestamps := g s\<rparr>))"
  "keeps (steady C D E) (changes (\<lambda>s. s\<lparr>rt_this_cells := f s\<rparr>))"
  by (auto intro!: keepsI simp: steady_def runtime_inv_def Let_def)

lemma keeps_prod: "(\<And>a b. keeps P (f a b)) \<Longrightarrow> keeps P (case x of (a, b) \<Rightarrow> f a b)"
  by (cases x) simp

lemma set_update_subset: "set (AList.update k v m) \<subseteq> insert (k, v) (set m)"
  by (induction m) auto

lemma set_delete_subset: "set (AList.delete k m) \<subseteq> set m"
  by (auto simp: AList.delete_eq)

lemma steady_networks:
  assumes "steady C D E s" and "snd ` set N \<subseteq> {..<next_handle (rt_world s)} - connector_handles (effects (rt_world s))"
  shows "steady C D E (s\<lparr>rt_networks := N, rt_timestamps := ts\<rparr>)"
  using assms by (clarsimp simp: steady_def runtime_inv_def Let_def)

lemma keeps_network:
  "keeps (steady C D E) (andthen (on_world (create (\<lambda>h. CompileNetwork h c env source t))) (\<lambda>network.
     andthen (changes (\<lambda>s. s\<lparr>rt_networks := AList.update cid network (rt_networks s)\<rparr>)) (\<lambda>_.
     changes (\<lambda>s. s\<lparr>rt_timestamps := g s\<rparr>))))"
proof (rule keepsI)
  fix s assume s: "steady C D E s"
  let ?w = "rt_world s"
  let ?n = "next_handle ?w"
  let ?w' = "snd (create (\<lambda>h. CompileNetwork h c env source t) ?w)"
  have "quiet.along (create (\<lambda>h. CompileNetwork h c env source t))" by (rule quiet_rules)
  then have "quiet ?w ?w'" by (simp add: quiet.along_def)
  from quiet_steady [OF s this] have s': "steady C D E (s\<lparr>rt_world := ?w'\<rparr>)" .
  have old: "?n \<notin> connector_handles (effects ?w)" "snd ` set (rt_networks s) \<subseteq> {..<?n} - connector_handles (effects ?w)"
    using s unfolding steady_def runtime_inv_def Let_def by blast+
  have "connector_handles (effects ?w') = connector_handles (effects ?w)" "next_handle ?w' = Suc ?n"
    by (simp_all add: create_def connector_handles_def)
  moreover have "insert ?n (snd ` set (rt_networks s)) \<subseteq> {..<Suc ?n} - connector_handles (effects ?w)"
    using old by auto
  moreover have "snd ` set (AList.update cid ?n (rt_networks s)) \<subseteq> insert ?n (snd ` set (rt_networks s))"
    using set_update_subset by fastforce
  ultimately have "snd ` set (AList.update cid ?n (rt_networks s)) \<subseteq> {..<next_handle ?w'} - connector_handles (effects ?w')"
    by (simp only:)
  then have "steady C D E (s\<lparr>rt_world := ?w', rt_networks := AList.update cid ?n (rt_networks s), rt_timestamps := ts\<rparr>)" for ts
    using steady_networks [OF s'] by simp
  then show "steady C D E (snd (andthen (on_world (create (\<lambda>h. CompileNetwork h c env source t))) (\<lambda>network.
     andthen (changes (\<lambda>s. s\<lparr>rt_networks := AList.update cid network (rt_networks s)\<rparr>)) (\<lambda>_.
     changes (\<lambda>s. s\<lparr>rt_timestamps := g s\<rparr>))) s))"
    by (simp add: andthen_def on_world_def create_def)
qed

lemma steady_fewer_networks:
  assumes "steady C D E s" and "set N \<subseteq> set (rt_networks s)"
  shows "steady C D E (s\<lparr>rt_networks := N\<rparr>)"
proof -
  have "snd ` set N \<subseteq> snd ` set (rt_networks s)" using assms(2) by (rule image_mono)
  moreover have "snd ` set (rt_networks s) \<subseteq> {..<next_handle (rt_world s)} - connector_handles (effects (rt_world s))"
    using assms(1) by (simp add: steady_def runtime_inv_def Let_def)
  ultimately have "snd ` set N \<subseteq> {..<next_handle (rt_world s)} - connector_handles (effects (rt_world s))"
    by (rule subset_trans)
  from steady_networks [OF assms(1) this, of "rt_timestamps s"] show ?thesis by simp
qed

text \<open>A disposal of something that is no connector.\<close>

lemma steady_dispose:
  assumes "steady C D E s" and "h < next_handle (rt_world s)" and "h \<notin> connector_handles (effects (rt_world s))"
  shows "steady C D E (s\<lparr>rt_world := (rt_world s)\<lparr>effects := Dispose h # effects (rt_world s)\<rparr>\<rparr>)"
proof -
  let ?log = "effects (rt_world s)"
  have "disposed_handles (Dispose h # ?log) = insert h (disposed_handles ?log)"
    "connector_handles (Dispose h # ?log) = connector_handles ?log"
    by (auto simp: disposed_handles_def connector_handles_def)
  moreover have "connector_handles ?log - insert h (disposed_handles ?log) = connector_handles ?log - disposed_handles ?log"
    using assms(3) by blast
  ultimately show ?thesis using assms(1,2) by (clarsimp simp: steady_def runtime_inv_def Let_def)
qed

lemma keeps_dispose_network: "keeps (steady C D E) (dispose_card_internal_network_io cid)"
proof (rule keepsI)
  fix s assume s: "steady C D E s"
  show "steady C D E (snd (dispose_card_internal_network_io cid s))"
  proof (cases "map_of (rt_networks s) cid")
    case None
    then show ?thesis using s by (simp add: dispose_card_internal_network_io_def)
  next
    case (Some network)
    have "network \<in> snd ` set (rt_networks s)" using map_of_SomeD [OF Some] by force
    then have "network < next_handle (rt_world s)" "network \<notin> connector_handles (effects (rt_world s))"
      using s by (auto simp: steady_def runtime_inv_def Let_def)
    from steady_fewer_networks [OF steady_dispose [OF s this], of "AList.delete cid (rt_networks s)"]
    show ?thesis
      using Some set_delete_subset [of cid "rt_networks s"]
      by (simp add: dispose_card_internal_network_io_def on_world_def dispose_propagator_def emit_def andthen_def)
  qed
qed

lemmas steady_rules = keeps_network keeps_dispose_network keeps_rules keeps_on_world keeps_fields keeps_prod quiet_rules

lemma keeps_build: "keeps (steady C D E) (runtime_build_card env cid)"
  unfolding runtime_build_card_def runtime_get_card_def get_or_create_card_compile_source_def runtime_compile_once_def
  by (rule steady_rules)+

lemma keeps_update: "keeps (steady C D E) (runtime_update_card L cid v)"
  unfolding runtime_update_card_def runtime_get_card_def by (rule steady_rules)+

text \<open>Adding a card enters its new cell, whose id is the card's.\<close>

lemma steady_enter:
  assumes "steady C D [(cid, h)] s"
  shows "steady C (AList.update cid h D) [] (s\<lparr>rt_cards := AList.update cid h (rt_cards s), rt_updaters := us\<rparr>)"
proof -
  have "\<forall>(c, x) \<in> set (AList.update cid h D). x < next_handle (rt_world s) \<and> constructed_id (effects (rt_world s)) x = Some c"
    using assms set_update_subset [of cid h D] by (fastforce simp: steady_def runtime_inv_def Let_def)
  then show ?thesis using assms by (clarsimp simp: steady_def runtime_inv_def Let_def)
qed

lemma add_first:
  assumes "steady C D [] s"
  obtains s' where "on_world (construct_cell ''card'' (Some cid)) s = (Inr (next_handle (rt_world s)), s')"
    and "steady C D [(cid, next_handle (rt_world s))] s'"
proof
  let ?w = "rt_world s"
  let ?w' = "?w\<lparr>next_handle := next_handle ?w + 1, effects := ConstructCell (next_handle ?w) ''card'' (Some cid) # effects ?w\<rparr>"
  show "on_world (construct_cell ''card'' (Some cid)) s = (Inr (next_handle ?w), s\<lparr>rt_world := ?w'\<rparr>)"
    by (simp add: on_world_def construct_cell_def create_def)
  have "quiet ?w ?w'" by (rule quiet_step) simp_all
  from quiet_steady [OF assms this] show "steady C D [(cid, next_handle ?w)] (s\<lparr>rt_world := ?w'\<rparr>)"
    by (simp add: steady_def)
qed

lemma andthen_nested:
  "andthen (andthen m k) f = andthen m (\<lambda>x. andthen (k x) f)" "andthen (ret x) g = g x"
  by (rule ext, simp)+

lemma keepsE: "keeps P m \<Longrightarrow> P s \<Longrightarrow> m s = (r, s') \<Longrightarrow> P s'"
  by (metis keepsD snd_conv)

lemma steady_add:
  assumes "steady C D [] s"
  obtains h s' where "runtime_add_card cid s = (Inr h, s')" and "steady C (AList.update cid h D) [] s'"
proof -
  let ?h = "next_handle (rt_world s)"
  obtain s1 where s1: "on_world (construct_cell ''card'' (Some cid)) s = (Inr ?h, s1)" "steady C D [(cid, ?h)] s1"
    by (rule add_first [OF assms])
  define rest where "rest = andthen (on_world (p_construct_card_cell cid ?h)) (\<lambda>_.
     andthen (on_world (construct_cell (''updater'' @ cid) None)) (\<lambda>updater.
     andthen (on_world (construct_cell (''emitter'' @ cid) None)) (\<lambda>emitter.
     andthen (on_world (internal_cell_getter slot_this ?h)) (\<lambda>internal_this.
     andthen (on_world (create (\<lambda>h. CardIO h internal_this updater emitter))) (\<lambda>_.
     andthen (changes (\<lambda>s. s\<lparr>rt_this_cells := AList.update cid internal_this (rt_this_cells s)\<rparr>)) (\<lambda>_.
     andthen (on_world (create (\<lambda>h. EmitToRuntime h cid emitter))) (\<lambda>_. ret updater)))))))"
  have split: "runtime_add_card cid s = andthen rest (\<lambda>updater.
     andthen (changes (\<lambda>s. s\<lparr>rt_cards := AList.update cid ?h (rt_cards s), rt_updaters := AList.update cid updater (rt_updaters s)\<rparr>)) (\<lambda>_. ret ?h)) s1"
    unfolding runtime_add_card_def rest_def by (simp only: andthen_run(1) [where m = "on_world (construct_cell ''card'' (Some cid))" and s = s, OF s1(1)] andthen_nested)
  have "keeps (steady C D [(cid, ?h)]) rest" unfolding rest_def by (rule steady_rules)+
  moreover obtain updater s2 where s2: "rest s1 = (Inr updater, s2)"
    unfolding rest_def
    by (simp add: andthen_def on_world_def construct_cell_def create_def internal_cell_getter_def p_construct_card_cell_def)
  ultimately have "steady C D [(cid, ?h)] s2" using s1(2) by (blast intro: keepsE)
  from steady_enter [OF this] show thesis
    by (intro that [of ?h]) (simp add: split andthen_run(1) [where m = rest and s = s1, OF s2])
qed

lemma steady_remove:
  assumes "steady C D [] s"
  obtains D' s' where "runtime_remove_card cid s = (Inr (), s')" and "steady C D' [] s'" and "map_of D' = (map_of D)(cid := None)"
proof (cases "map_of D cid")
  case None
  then have "(map_of D)(cid := None) = map_of D" by auto
  then show thesis using that [of s D] assms None by (simp add: runtime_remove_card_def steady_def)
next
  case (Some h)
  have cards: "rt_cards s = D" using assms by (simp add: steady_def)
  have "\<exists>b s1. dispose_card_internal_network_io cid s = (Inr b, s1)"
    by (cases "map_of (rt_networks s) cid")
      (auto simp: dispose_card_internal_network_io_def on_world_def dispose_propagator_def emit_def andthen_def)
  then obtain b s1 where s1: "dispose_card_internal_network_io cid s = (Inr b, s1)" by blast
  have st: "steady C D [] s1" by (rule keepsE [OF keeps_dispose_network assms s1])
  let ?s = "s1\<lparr>rt_cards := AList.delete cid (rt_cards s1), rt_sources := AList.delete cid (rt_sources s1),
     rt_timestamps := AList.delete cid (rt_timestamps s1)\<rparr>"
  have "\<forall>(c, x) \<in> set (AList.delete cid D). x < next_handle (rt_world s1) \<and> constructed_id (effects (rt_world s1)) x = Some c"
    using st set_delete_subset [of cid D] by (fastforce simp: steady_def runtime_inv_def Let_def)
  then have "steady C (AList.delete cid D) [] ?s" using st by (clarsimp simp: steady_def runtime_inv_def Let_def)
  moreover have "runtime_remove_card cid s = (Inr (), ?s)"
    using Some s1 cards by (simp add: runtime_remove_card_def andthen_run)
  ultimately show thesis by (intro that) (auto simp: fun_eq_iff delete_conv')
qed

text \<open>Disposing of stored connectors.\<close>

lemma disposed_handles_dispose: "disposed_handles (rev (map (\<lambda>(_, c). Dispose c) m) @ log) = snd ` set m \<union> disposed_handles log"
  by (force simp: disposed_handles_def)

lemma connector_handles_dispose: "connector_handles (rev (map (\<lambda>(_, c). Dispose c) m) @ log) = connector_handles log"
  by (auto simp: connector_handles_def)

lemma constructed_id_dispose: "constructed_id (rev (map (\<lambda>(_, c). Dispose c) m) @ log) h = constructed_id log h"
proof -
  have *: "constructed_id (ds @ log) h = constructed_id log h" if "\<forall>d \<in> set ds. \<exists>c. d = Dispose c" for ds
    using that by (induction ds) auto
  show ?thesis by (rule *) auto
qed

lemma snd_filter_rest:
  assumes "distinct (map snd m)"
  shows "snd ` set (filter (\<lambda>p. \<not> P p) m) = snd ` set m - snd ` set (filter P m)"
  using assms by (auto simp: distinct_map inj_on_def image_iff)

lemma steady_cut:
  assumes "steady C D [] s"
  shows "steady (filter (\<lambda>p. \<not> P p) C) D [] (s\<lparr>rt_connectors := filter (\<lambda>p. \<not> P p) C,
     rt_world := (rt_world s)\<lparr>effects := rev (map (\<lambda>(_, c). Dispose c) (filter P C)) @ effects (rt_world s)\<rparr>\<rparr>)"
proof -
  let ?log = "effects (rt_world s)"
  have C: "distinct (map snd C)" "snd ` set C = connector_handles ?log - disposed_handles ?log"
    "connector_handles ?log \<subseteq> {..<next_handle (rt_world s)}" "distinct (map fst C)"
    using assms unfolding steady_def runtime_inv_def Let_def by auto
  have "snd ` set (filter (\<lambda>p. \<not> P p) C) = connector_handles ?log - (snd ` set (filter P C) \<union> disposed_handles ?log)"
    using C(2) unfolding snd_filter_rest [OF C(1)] by blast
  moreover have "snd ` set (filter P C) \<subseteq> {..<next_handle (rt_world s)}" using C(2,3) by auto
  ultimately show ?thesis
    using assms C(1,4)
    by (clarsimp simp: steady_def runtime_inv_def Let_def disposed_handles_dispose connector_handles_dispose constructed_id_dispose
        distinct_map_filter)
qed

text \<open>A new connector.\<close>

lemma steady_new_connector:
  assumes "steady C D [] s" and "key \<notin> fst ` set C"
  shows "steady (AList.update key (next_handle (rt_world s)) C) D []
    (s\<lparr>rt_world := (rt_world s)\<lparr>next_handle := Suc (next_handle (rt_world s)),
         effects := Connector (next_handle (rt_world s)) k1 k2 t1 t2 # effects (rt_world s)\<rparr>,
       rt_connectors := AList.update key (next_handle (rt_world s)) C\<rparr>)"
proof -
  let ?n = "next_handle (rt_world s)" and ?log = "effects (rt_world s)"
  let ?log' = "Connector ?n k1 k2 t1 t2 # ?log"
  have "AList.update key v C = C @ [(key, v)]" for v
    using assms(2) by (induction C) auto
  note upd = this
  have inv: "snd ` set C = connector_handles ?log - disposed_handles ?log" "connector_handles ?log \<subseteq> {..<?n}"
    "disposed_handles ?log \<subseteq> {..<?n}" "snd ` set (rt_networks s) \<subseteq> {..<?n} - connector_handles ?log"
    "\<forall>(c, h) \<in> set (rt_cards s). h < ?n \<and> constructed_id ?log h = Some c"
    using assms(1) unfolding steady_def runtime_inv_def Let_def by auto
  have ch: "connector_handles ?log' = insert ?n (connector_handles ?log)" "disposed_handles ?log' = disposed_handles ?log"
    by (auto simp: connector_handles_def disposed_handles_def)
  have n: "?n \<notin> connector_handles ?log" "?n \<notin> disposed_handles ?log" "?n \<notin> snd ` set C" using inv(1-3) by auto
  have sets: "insert ?n (snd ` set C) = connector_handles ?log' - disposed_handles ?log'"
    "connector_handles ?log' \<subseteq> {..<Suc ?n}" "disposed_handles ?log' \<subseteq> {..<Suc ?n}"
    "snd ` set (rt_networks s) \<subseteq> {..<Suc ?n} - connector_handles ?log'"
    unfolding ch using inv n by (auto simp: image_iff)
  have "\<forall>(c, h) \<in> set (rt_cards s). h < Suc ?n \<and> constructed_id ?log' h = Some c" using inv(5) by auto
  then show ?thesis
    using assms n(3) sets by (clarsimp simp: steady_def runtime_inv_def Let_def upd)
qed

lemma steady_connect:
  assumes "steady C D [] s" and "ids_kept cell_id" and "map_of D idA = Some a" and "map_of D idB = Some b"
  obtains C' s' where "runtime_connect_cards cell_id a b kA kB s = (Inr (), s')" and "steady C' D [] s'"
    and "fst ` set C' = insert (make_connector_key_from_ids idA idB) (fst ` set C)"
proof -
  let ?key = "make_connector_key_from_ids idA idB"
  have "constructed_id (effects (rt_world s)) a = Some idA" "constructed_id (effects (rt_world s)) b = Some idB"
    using assms(1,3,4) by (auto simp: steady_def runtime_inv_def Let_def dest!: map_of_SomeD)
  then have key: "make_connector_key cell_id a b (effects (rt_world s)) = ?key"
    using assms(2) by (simp add: make_connector_key_def ids_kept_def)
  have conn: "rt_connectors s = C" using assms(1) by (simp add: steady_def)
  show thesis
  proof (cases "map_of C ?key")
    case (Some c)
    then have "?key \<in> fst ` set C" by (force dest: map_of_SomeD)
    then show thesis
      using that [of s C] assms(1) Some by (simp add: runtime_connect_cards_def key conn insert_absorb)
  next
    case None
    then have new: "?key \<notin> fst ` set C" by (simp add: map_of_eq_None_iff)
    define pre where "pre =
       andthen (on_world (internal_cell_getter kA a)) (\<lambda>cA.
       andthen (on_world (internal_cell_getter kB b)) (\<lambda>cB.
       andthen (on_world (internal_cell_getter slot_this a)) (\<lambda>tA.
       andthen (on_world (internal_cell_getter slot_this b)) (\<lambda>tB. ret (cA, cB, tA, tB)))))"
    have "keeps (steady C D []) pre" unfolding pre_def by (rule steady_rules)+
    moreover obtain cA cB tA tB s1 where s1: "pre s = (Inr (cA, cB, tA, tB), s1)"
      unfolding pre_def by (simp add: andthen_def on_world_def create_def internal_cell_getter_def)
    ultimately have st: "steady C D [] s1" using assms(1) by (blast intro: keepsE)
    define fin where "fin = (\<lambda>(cA, cB, tA, tB). andthen (on_world (create (\<lambda>h. Connector h cB cA tA tB)))
       (\<lambda>connector. changes (\<lambda>s. s\<lparr>rt_connectors := AList.update ?key connector (rt_connectors s)\<rparr>)))"
    have "runtime_connect_cards cell_id a b kA kB s = andthen pre fin s"
      using None unfolding runtime_connect_cards_def pre_def fin_def by (simp add: key conn andthen_nested)
    also have "\<dots> = fin (cA, cB, tA, tB) s1" by (rule andthen_run(1) [where m = pre and s = s, OF s1])
    also have "\<dots> = (Inr (), s1\<lparr>rt_world := (rt_world s1)\<lparr>next_handle := Suc (next_handle (rt_world s1)),
         effects := Connector (next_handle (rt_world s1)) cB cA tA tB # effects (rt_world s1)\<rparr>,
       rt_connectors := AList.update ?key (next_handle (rt_world s1)) C\<rparr>)"
      using st by (simp add: fin_def andthen_def on_world_def create_def steady_def)
    finally show thesis
      by (rule that [OF _ steady_new_connector [OF st new]]) (auto simp: dom_update [symmetric] dom_map_of_conv_image_fst [symmetric] update_conv')
  qed
qed

section \<open>The invariant of the storage\<close>

definition storage_inv :: "card_storage \<Rightarrow> bool" where
  "storage_inv s \<longleftrightarrow>
     (let g = cs_graph s; r = cs_runtime s
      in runtime_inv r \<and> card_graph_inv g \<and> fst ` set (edges g) = fst ` set (rt_connectors r)
       \<and> (\<forall>(k, e) \<in> set (edges g). clear_before edge_key_separator (from_id e)
            \<and> map_of (rt_cards r) (from_id e) \<noteq> None \<and> map_of (rt_cards r) (to_id e) \<noteq> None))"

lemma storage_inv_steady:
  assumes "storage_inv s" and "steady (rt_connectors (cs_runtime s)) D [] r"
    and "\<And>c. map_of (rt_cards (cs_runtime s)) c \<noteq> None \<Longrightarrow> map_of D c \<noteq> None"
  shows "storage_inv (s\<lparr>cs_runtime := r\<rparr>)"
  using assms by (fastforce simp: storage_inv_def steady_def Let_def)

lemma storage_steady: "storage_inv s \<Longrightarrow> steady (rt_connectors (cs_runtime s)) (rt_cards (cs_runtime s)) [] (cs_runtime s)"
  by (simp add: storage_inv_def steady_def Let_def)

lemma storage_add_graph: "storage_inv s \<Longrightarrow> storage_inv (s\<lparr>cs_graph := add_graph_card cid (cs_graph s)\<rparr>)"
  by (simp add: storage_inv_def card_graph_inv_add Let_def) (simp add: add_graph_card_def)

lemma storage_add:
  assumes "storage_inv s"
  shows "storage_inv (snd (storage_add_card cid s))"
proof -
  let ?s = "s\<lparr>cs_graph := add_graph_card cid (cs_graph s)\<rparr>"
  have s: "storage_inv ?s" by (rule storage_add_graph [OF assms])
  obtain h r where r: "runtime_add_card cid (cs_runtime s) = (Inr h, r)"
    "steady (rt_connectors (cs_runtime s)) (AList.update cid h (rt_cards (cs_runtime s))) [] r"
    by (rule steady_add [OF storage_steady [OF assms]])
  have "storage_inv (?s\<lparr>cs_runtime := r\<rparr>)"
    by (rule storage_inv_steady [OF s, where D = "AList.update cid h (rt_cards (cs_runtime s))"])
      (use r(2) in \<open>simp_all add: update_conv'\<close>)
  then show ?thesis using r(1) by (simp add: storage_add_card_def on_graph_def on_runtime_def andthen_def)
qed

lemma storage_on_runtime:
  assumes "storage_inv s" and "\<And>C D. keeps (steady C D []) m"
  shows "storage_inv (snd (on_runtime m s))"
proof -
  obtain r t where m: "m (cs_runtime s) = (r, t)" by force
  have "steady (rt_connectors (cs_runtime s)) (rt_cards (cs_runtime s)) [] t"
    by (rule keepsE [OF assms(2) storage_steady [OF assms(1)] m])
  from storage_inv_steady [OF assms(1) this] show ?thesis by (simp add: on_runtime_def m)
qed

lemma storage_build:
  assumes "storage_inv s"
  shows "storage_inv (snd (storage_build_card env cid s))"
  using storage_on_runtime [OF storage_add_graph [OF assms, of cid] keeps_build [of _ _ "[]" env cid]]
  by (auto simp: storage_build_card_def on_graph_def andthen_def split: sum.split prod.split)

lemma storage_update: "storage_inv s \<Longrightarrow> storage_inv (snd (storage_update_card L cid v s))"
  unfolding storage_update_card_def by (rule storage_on_runtime [OF _ keeps_update])

lemma touches_pair: "clear_before edge_key_separator a \<Longrightarrow> touches cid (pair_key a b) \<longleftrightarrow> a = cid \<or> b = cid"
  by (simp add: touches_def parse_connector_key_eq parse_pair_key_iff [THEN iffD2])

lemma storage_pair_keyed:
  assumes "storage_inv s"
  shows "pair_keyed (rt_connectors (cs_runtime s))"
proof -
  have "\<exists>a b. k = make_connector_key_from_ids a b" if "k \<in> fst ` set (edges (cs_graph s))" for k
    using assms that by (fastforce simp: storage_inv_def card_graph_inv_def edge_key_def make_connector_key_from_ids_def Let_def)
  then show ?thesis using assms by (auto simp: pair_keyed_def storage_inv_def runtime_inv_def Let_def)
qed

text \<open>Cutting the edges and the connectors with the same keys.\<close>

lemma storage_cut:
  assumes "storage_inv s" and "r = cs_runtime s" and "\<And>k e. (k, e) \<in> set (edges (cs_graph s)) \<Longrightarrow> Q k e = P k"
    and "steady (filter (\<lambda>p. \<not> P (fst p)) (rt_connectors r)) D [] r'"
    and "\<And>k e. (k, e) \<in> set (edges (cs_graph s)) \<Longrightarrow> \<not> P k \<Longrightarrow> map_of D (from_id e) \<noteq> None \<and> map_of D (to_id e) \<noteq> None"
  shows "storage_inv \<lparr>cs_graph = \<lparr>card_ids = ids, edges = filter (\<lambda>(k, e). \<not> Q k e) (edges (cs_graph s))\<rparr>, cs_runtime = r'\<rparr>
    \<longleftrightarrow> distinct ids"
proof -
  let ?E = "edges (cs_graph s)"
  have flt: "filter (\<lambda>(k, e). \<not> Q k e) ?E = filter (\<lambda>p. \<not> P (fst p)) ?E"
    by (rule filter_cong) (auto simp: assms(3))
  have key: "fst ` set (filter (\<lambda>p. \<not> P (fst p)) m) = {k \<in> fst ` set m. \<not> P k}" for m :: "(jstring \<times> 'x) list"
    by auto
  have keys: "fst ` set (filter (\<lambda>p. \<not> P (fst p)) ?E) = fst ` set (filter (\<lambda>p. \<not> P (fst p)) (rt_connectors r))"
    unfolding key using assms(1,2) by (simp add: storage_inv_def Let_def)
  have st: "runtime_inv r'" "rt_connectors r' = filter (\<lambda>p. \<not> P (fst p)) (rt_connectors r)" "rt_cards r' = D"
    using assms(4) by (simp_all add: steady_def)
  have "card_graph_inv \<lparr>card_ids = ids, edges = filter (\<lambda>p. \<not> P (fst p)) ?E\<rparr> \<longleftrightarrow> distinct ids"
    using assms(1) by (auto simp: storage_inv_def card_graph_inv_def Let_def distinct_map_filter)
  moreover have "\<forall>(k, e) \<in> set (filter (\<lambda>p. \<not> P (fst p)) ?E). clear_before edge_key_separator (from_id e)
      \<and> map_of D (from_id e) \<noteq> None \<and> map_of D (to_id e) \<noteq> None"
    using assms(1,5) by (auto simp: storage_inv_def Let_def)
  ultimately show ?thesis using st keys unfolding storage_inv_def Let_def flt by simp
qed

lemma storage_remove:
  assumes "storage_inv s"
  shows "storage_inv (snd (storage_remove_card cid s))"
proof -
  let ?g = "cs_graph s" and ?r = "cs_runtime s"
  let ?C = "rt_connectors ?r"
  have g: "card_graph_inv ?g" using assms by (simp add: storage_inv_def Let_def)
  have d: "runtime_detach_incident_connectors cid ?r = (Inr (), detached cid [] ?C ?r)"
    by (rule detach_incident_run [OF storage_pair_keyed [OF assms]])
  have "steady (filter (\<lambda>p. \<not> touches cid (fst p)) ?C) (rt_cards ?r) [] (detached cid [] ?C ?r)"
    using steady_cut [OF storage_steady [OF assms], of "\<lambda>p. touches cid (fst p)"]
    by (simp add: detached_def incident_connectors_def split_def)
  then obtain D r' where r': "runtime_remove_card cid (detached cid [] ?C ?r) = (Inr (), r')"
    "steady (filter (\<lambda>p. \<not> touches cid (fst p)) ?C) D [] r'" "map_of D = (map_of (rt_cards ?r))(cid := None)"
    by (rule steady_remove)
  have e: "k = pair_key (from_id e) (to_id e)" "touches cid k \<longleftrightarrow> incident cid e"
    "map_of (rt_cards ?r) (from_id e) \<noteq> None" "map_of (rt_cards ?r) (to_id e) \<noteq> None" if "(k, e) \<in> set (edges ?g)" for k e
  proof -
    show k: "k = pair_key (from_id e) (to_id e)" using g that by (auto simp: card_graph_inv_def edge_key_def)
    show "touches cid k \<longleftrightarrow> incident cid e" using assms that k by (auto simp: storage_inv_def Let_def touches_pair incident_def)
    show "map_of (rt_cards ?r) (from_id e) \<noteq> None" "map_of (rt_cards ?r) (to_id e) \<noteq> None"
      using assms that by (auto simp: storage_inv_def Let_def)
  qed
  have "storage_inv \<lparr>cs_graph = \<lparr>card_ids = set_delete cid (card_ids ?g), edges = filter (\<lambda>(k, e). \<not> incident cid e) (edges ?g)\<rparr>, cs_runtime = r'\<rparr>
      \<longleftrightarrow> distinct (set_delete cid (card_ids ?g))"
    by (rule storage_cut [OF assms refl _ r'(2)]) (use e in \<open>auto simp: r'(3) incident_def\<close>)
  moreover have "distinct (set_delete cid (card_ids ?g))" using card_graph_inv_remove [OF g, of cid] remove_graph_card_eq [OF g, of cid]
    by (simp add: card_graph_inv_def)
  ultimately have "storage_inv (s\<lparr>cs_graph := snd (remove_graph_card cid ?g), cs_runtime := r'\<rparr>)"
    using remove_graph_card_eq [OF g, of cid] by (cases s) simp
  then show ?thesis
    using d r'(1) by (cases "remove_graph_card cid ?g") (simp add: storage_remove_card_def on_graph_def on_runtime_def andthen_def)
qed

lemma storage_connect:
  assumes "storage_inv s" and "ids_kept cell_id" and "clear_before edge_key_separator idA"
  shows "storage_inv (snd (storage_connect_cards cell_id idA idB kA kB s))"
proof -
  let ?g = "cs_graph s" and ?r = "cs_runtime s"
  have get: "runtime_get_card c ?r = (Inr (map_of (rt_cards ?r) c), ?r)" for c
    using assms(1) by (simp add: runtime_get_card_def storage_inv_def runtime_inv_def Let_def split: option.split)
  show ?thesis
  proof (cases "\<exists>a b. map_of (rt_cards ?r) idA = Some a \<and> map_of (rt_cards ?r) idB = Some b")
    case False
    then have "snd (storage_connect_cards cell_id idA idB kA kB s) = s"
      by (auto simp: storage_connect_cards_def on_runtime_def get andthen_def split: option.split)
    then show ?thesis using assms(1) by simp
  next
    case True
    then obtain a b where ab: "map_of (rt_cards ?r) idA = Some a" "map_of (rt_cards ?r) idB = Some b" by blast
    obtain C r' where r': "runtime_connect_cards cell_id a b kA kB ?r = (Inr (), r')" "steady C (rt_cards ?r) [] r'"
      "fst ` set C = insert (make_connector_key_from_ids idA idB) (fst ` set (rt_connectors ?r))"
      by (rule steady_connect [OF storage_steady [OF assms(1)] assms(2) ab])
    let ?e = "\<lparr>from_id = idA, from_slot = kA, to_id = idB, to_slot = kB\<rparr>"
    let ?g' = "upsert_graph_edge ?e ?g"
    have "fst ` set (edges ?g') = insert (pair_key idA idB) (fst ` set (edges ?g))"
      using dom_update [of "edge_key ?e" ?e "edges ?g"] by (simp add: upsert_graph_edge_def edge_key_def)
    then have keys: "fst ` set (edges ?g') = fst ` set C"
      using r'(3) assms(1) by (simp add: make_connector_key_from_ids_def storage_inv_def Let_def)
    have "\<forall>(k, e) \<in> set (edges ?g'). clear_before edge_key_separator (from_id e)
        \<and> map_of (rt_cards ?r) (from_id e) \<noteq> None \<and> map_of (rt_cards ?r) (to_id e) \<noteq> None"
    proof clarify
      fix k e assume "(k, e) \<in> set (edges ?g')"
      then consider "e = ?e" | "(k, e) \<in> set (edges ?g)"
        using set_update_subset [of "edge_key ?e" ?e "edges ?g"] by (auto simp: upsert_graph_edge_def)
      then show "clear_before edge_key_separator (from_id e)
          \<and> map_of (rt_cards ?r) (from_id e) \<noteq> None \<and> map_of (rt_cards ?r) (to_id e) \<noteq> None"
      proof cases
        case 1
        then show ?thesis using assms(3) ab by simp
      next
        case 2
        then show ?thesis using assms(1) by (auto simp: storage_inv_def Let_def)
      qed
    qed
    moreover have "card_graph_inv ?g'" using assms(1) by (simp add: storage_inv_def Let_def card_graph_inv_upsert)
    ultimately have "storage_inv (s\<lparr>cs_graph := ?g', cs_runtime := r'\<rparr>)"
      using r'(2) keys by (simp add: storage_inv_def Let_def steady_def)
    then show ?thesis using ab r'(1)
      by (simp add: storage_connect_cards_def on_runtime_def on_graph_def get andthen_def)
  qed
qed

lemma filter_key: "distinct (map fst m) \<Longrightarrow> map_of m key = Some c \<Longrightarrow> filter (\<lambda>p. fst p = key) m = [(key, c)]"
proof (induction m)
  case (Cons p m)
  show ?case
  proof (cases "fst p = key")
    case True
    then have "key \<notin> fst ` set m" using Cons.prems(1) by auto
    then have "filter (\<lambda>p. fst p = key) m = []" by (auto simp: filter_empty_conv)
    then show ?thesis using True Cons.prems(2) by (cases p) simp
  next
    case False
    then show ?thesis using Cons by (cases p) auto
  qed
qed simp

lemma delete_key: "AList.delete key m = filter (\<lambda>p. fst p \<noteq> key) m"
  by (auto simp: AList.delete_eq intro!: filter_cong)

lemma storage_detach:
  assumes "storage_inv s"
  shows "storage_inv (snd (storage_detach_cards_by_key a b s))"
proof -
  let ?g = "cs_graph s" and ?r = "cs_runtime s" and ?key = "pair_key a b"
  show ?thesis
  proof (cases "map_of (edges ?g) ?key")
    case None
    then show ?thesis using assms by (simp add: storage_detach_cards_by_key_def get_graph_edge_def)
  next
    case (Some e)
    have g: "card_graph_inv ?g" and keys: "fst ` set (edges ?g) = fst ` set (rt_connectors ?r)"
      and d: "distinct (map fst (rt_connectors ?r))"
      using assms by (simp_all add: storage_inv_def Let_def runtime_inv_def)
    have key: "make_connector_key_from_ids (from_id e) (to_id e) = ?key"
      using g map_of_SomeD [OF Some] by (auto simp: card_graph_inv_def edge_key_def make_connector_key_from_ids_def)
    have "?key \<in> fst ` set (edges ?g)" using map_of_SomeD [OF Some] by force
    then obtain c where c: "map_of (rt_connectors ?r) ?key = Some c" unfolding keys
      by (metis map_of_eq_None_iff not_Some_eq)
    let ?r' = "?r\<lparr>rt_connectors := AList.delete ?key (rt_connectors ?r),
      rt_world := (rt_world ?r)\<lparr>effects := Dispose c # effects (rt_world ?r)\<rparr>\<rparr>"
    have "steady (filter (\<lambda>p. \<not> fst p = ?key) (rt_connectors ?r)) (rt_cards ?r) [] ?r'"
      using steady_cut [OF storage_steady [OF assms], of "\<lambda>p. fst p = ?key"] by (simp add: filter_key [OF d c] delete_key)
    then have "storage_inv \<lparr>cs_graph = \<lparr>card_ids = card_ids ?g, edges = filter (\<lambda>(k, e). \<not> k = ?key) (edges ?g)\<rparr>, cs_runtime = ?r'\<rparr>
        \<longleftrightarrow> distinct (card_ids ?g)"
      by (intro storage_cut [OF assms refl, where P = "\<lambda>k. k = ?key"]) (use assms in \<open>auto simp: storage_inv_def Let_def\<close>)
    moreover have "distinct (card_ids ?g)" using g by (simp add: card_graph_inv_def)
    moreover have "filter (\<lambda>(k, e). \<not> k = ?key) (edges ?g) = AList.delete ?key (edges ?g)"
      by (auto simp: delete_key intro!: filter_cong)
    moreover have "storage_detach_cards_by_key a b s =
        (Inr (Inr ()), \<lparr>cs_graph = \<lparr>card_ids = card_ids ?g, edges = AList.delete ?key (edges ?g)\<rparr>, cs_runtime = ?r'\<rparr>)"
      using Some c key
      by (cases s) (simp add: storage_detach_cards_by_key_def get_graph_edge_def remove_graph_edge_def on_graph_def on_runtime_def
          runtime_detach_cards_by_key_def on_world_def dispose_propagator_def emit_def andthen_def Let_def)
    ultimately show ?thesis by simp
  qed
qed

section \<open>Properties\<close>

datatype storage_op =
    AddCard jstring
  | BuildCard handle jstring
  | UpdateCard jstring jsval
  | RemoveCard jstring
  | ConnectCards jstring jstring jstring jstring
  | DetachCards jstring jstring

definition run_storage_op :: "library \<Rightarrow> cell_ids \<Rightarrow> storage_op \<Rightarrow> card_storage \<Rightarrow> card_storage" where
  "run_storage_op L cell_id op s =
     (case op of
        AddCard c \<Rightarrow> snd (storage_add_card c s)
      | BuildCard env c \<Rightarrow> snd (storage_build_card env c s)
      | UpdateCard c v \<Rightarrow> snd (storage_update_card L c v s)
      | RemoveCard c \<Rightarrow> snd (storage_remove_card c s)
      | ConnectCards a b kA kB \<Rightarrow> snd (storage_connect_cards cell_id a b kA kB s)
      | DetachCards a b \<Rightarrow> snd (storage_detach_cards a b s))"

definition clear_op :: "storage_op \<Rightarrow> bool" where
  "clear_op op = (case op of ConnectCards a _ _ _ \<Rightarrow> clear_before edge_key_separator a | _ \<Rightarrow> True)"

definition empty_storage :: card_storage where
  "empty_storage = \<lparr>cs_graph = empty_card_graph, cs_runtime = \<lparr>rt_world = \<lparr>next_handle = 0, effects = [], cards = []\<rparr>,
     rt_connectors = [], rt_networks = [], rt_cards = [], rt_updaters = [], rt_this_cells = [], rt_sources = [], rt_timestamps = []\<rparr>\<rparr>"

definition run_storage :: "library \<Rightarrow> cell_ids \<Rightarrow> storage_op list \<Rightarrow> card_storage" where
  "run_storage L cell_id ops = fold (run_storage_op L cell_id) ops empty_storage"

lemma storage_op_inv:
  assumes "ids_kept cell_id" and "clear_op op" and "storage_inv s"
  shows "storage_inv (run_storage_op L cell_id op s)"
  using assms
  by (cases op) (simp_all add: run_storage_op_def clear_op_def storage_add storage_build storage_update storage_remove
      storage_connect storage_detach storage_detach_cards_def)

lemma empty_storage_inv: "storage_inv empty_storage"
  by (simp add: storage_inv_def empty_storage_def card_graph_inv_empty runtime_inv_def connector_handles_def disposed_handles_def)
    (simp add: empty_card_graph_def)

lemma run_storage_inv:
  assumes "ids_kept cell_id" and "\<forall>op \<in> set ops. clear_op op"
  shows "storage_inv (run_storage L cell_id ops)"
proof -
  have "storage_inv (fold (run_storage_op L cell_id) ops s)" if "storage_inv s" for s
    using that assms(2) by (induction ops arbitrary: s) (simp_all add: storage_op_inv [OF assms(1)])
  then show ?thesis by (simp add: run_storage_def empty_storage_inv)
qed

text \<open>
  C4: Graph and runtime agree after every sequence of operations, provided no card id that
  starts a connection runs into the separator of the pair keys: the keys of the connectors are
  those of the edges, the running connectors (made and not disposed) are exactly the stored ones,
  and every edge joins cards the runtime has.
\<close>

theorem storage_consistent:
  assumes "ids_kept cell_id" and "\<forall>op \<in> set ops. clear_op op"
  shows "let s = run_storage L cell_id ops; g = cs_graph s; r = cs_runtime s; log = effects (rt_world r)
    in fst ` set (edges g) = fst ` set (rt_connectors r)
     \<and> snd ` set (rt_connectors r) = connector_handles log - disposed_handles log
     \<and> (\<forall>(k, e) \<in> set (edges g). map_of (rt_cards r) (from_id e) \<noteq> None \<and> map_of (rt_cards r) (to_id e) \<noteq> None)"
proof -
  let ?s = "run_storage L cell_id ops"
  let ?g = "cs_graph ?s" and ?r = "cs_runtime ?s"
  have inv: "storage_inv ?s" by (rule run_storage_inv [OF assms])
  then have "fst ` set (edges ?g) = fst ` set (rt_connectors ?r)"
    "\<forall>(k, e) \<in> set (edges ?g). map_of (rt_cards ?r) (from_id e) \<noteq> None \<and> map_of (rt_cards ?r) (to_id e) \<noteq> None"
    by (auto simp: storage_inv_def Let_def)
  moreover have "snd ` set (rt_connectors ?r) = connector_handles (effects (rt_world ?r)) - disposed_handles (effects (rt_world ?r))"
    using inv by (simp add: storage_inv_def runtime_inv_def Let_def)
  ultimately show ?thesis by (simp add: Let_def)
qed

definition sample_cell_id :: cell_ids where
  "sample_cell_id log h = (case constructed_id log h of Some i \<Rightarrow> i | None \<Rightarrow> ''cell'')"

definition silent_library :: library where
  "silent_library = \<lparr>lib_base_value = \<lambda>_ _. JUndef, lib_get_base = \<lambda>v. v, lib_is_equal = \<lambda>a b. a = b,
     lib_neighbors = \<lambda>_ _. [], lib_has_channel = \<lambda>_ _ _. False\<rparr>"

lemma sample_ids_kept: "ids_kept sample_cell_id"
  by (simp add: ids_kept_def sample_cell_id_def)

text \<open>Runs of the two operations that matter, written out.\<close>

definition add_effects :: "handle \<Rightarrow> jstring \<Rightarrow> effect list" where
  "add_effects n cid =
     [EmitToRuntime (n + 11) cid (n + 8), CardIO (n + 10) (n + 9) (n + 7) (n + 8), DictAccessor (n + 9) slot_this n,
      ConstructCell (n + 8) (''emitter'' @ cid) None, ConstructCell (n + 7) (''updater'' @ cid) None,
      DictCarrier (n + 6) (zip all_slots [n + 1, n + 2, n + 3, n + 4, n + 5]) n,
      ConstructCell (n + 5) (create_card_cell_name cid slot_below) None, ConstructCell (n + 4) (create_card_cell_name cid slot_above) None,
      ConstructCell (n + 3) (create_card_cell_name cid slot_right) None, ConstructCell (n + 2) (create_card_cell_name cid slot_left) None,
      ConstructCell (n + 1) (create_card_cell_name cid slot_this) None, ConstructCell n ''card'' (Some cid)]"

lemma runtime_add_run:
  "runtime_add_card cid s = (let w = rt_world s; n = next_handle w in
     (Inr n, s\<lparr>rt_world := w\<lparr>next_handle := n + 12, effects := add_effects n cid @ effects w\<rparr>,
       rt_this_cells := AList.update cid (n + 9) (rt_this_cells s), rt_cards := AList.update cid n (rt_cards s),
       rt_updaters := AList.update cid (n + 7) (rt_updaters s)\<rparr>))"
  by (simp add: runtime_add_card_def andthen_def on_world_def construct_cell_def create_def internal_cell_getter_def
      p_construct_card_cell_def add_effects_def Let_def numeral_eq_Suc)

lemma constructed_id_add: "constructed_id (add_effects n cid @ log) h = (if h = n then Some cid else constructed_id log h)"
  by (simp add: add_effects_def)

lemma runtime_connect_run:
  "runtime_connect_cards cell_id a b kA kB s =
     (let w = rt_world s; n = next_handle w; key = make_connector_key cell_id a b (effects w) in
      (Inr (), if map_of (rt_connectors s) key \<noteq> None then s else
        s\<lparr>rt_world := w\<lparr>next_handle := n + 5, effects := Connector (n + 4) (n + 1) n (n + 2) (n + 3) #
            DictAccessor (n + 3) slot_this b # DictAccessor (n + 2) slot_this a # DictAccessor (n + 1) kB b # DictAccessor n kA a # effects w\<rparr>,
          rt_connectors := AList.update key (n + 4) (rt_connectors s)\<rparr>))"
  by (simp add: runtime_connect_cards_def andthen_def on_world_def create_def internal_cell_getter_def Let_def numeral_eq_Suc)

lemmas run_storage_defs = run_storage_def run_storage_op_def storage_add_card_def storage_connect_cards_def on_graph_def
  on_runtime_def empty_storage_def empty_card_graph_def add_graph_card_def upsert_graph_edge_def edge_key_def andthen_def
  runtime_get_card_def runtime_add_run runtime_connect_run make_connector_key_def sample_cell_id_def constructed_id_add
  make_connector_key_from_ids_def pair_key_def Let_def

definition sample_cards_ops :: "storage_op list" where
  "sample_cards_ops = [AddCard ''a'', AddCard ''b'', ConnectCards ''a'' ''b'' slot_right slot_left]"

theorem storage_consistent_witness:
  "let s = run_storage silent_library sample_cell_id sample_cards_ops; r = cs_runtime s
   in map fst (edges (cs_graph s)) = [''a!!*!!b'']
    \<and> snd ` set (rt_connectors r) = connector_handles (effects (rt_world r)) - disposed_handles (effects (rt_world r))
    \<and> fst ` set (rt_connectors r) = {''a!!*!!b''}"
proof -
  have "map fst (edges (cs_graph (run_storage silent_library sample_cell_id sample_cards_ops))) = [''a!!*!!b'']"
    by (simp add: sample_cards_ops_def run_storage_defs edge_key_separator_def)
  moreover from this have "fst ` set (edges (cs_graph (run_storage silent_library sample_cell_id sample_cards_ops))) = {''a!!*!!b''}"
    by (metis list.set_map list.set(1,2))
  moreover have "\<forall>op \<in> set sample_cards_ops. clear_op op"
    by (simp add: sample_cards_ops_def clear_op_def clear_before_def starts_with_def edge_key_separator_def)
  ultimately show ?thesis
    using storage_consistent [OF sample_ids_kept, of sample_cards_ops silent_library] by (simp add: Let_def)
qed

text \<open>
  Connecting the same two cards on other slots changes the edge and leaves the connector as it
  was: no accessor of the new slots is ever made.
\<close>

lemma reconnect_keeps_old_slots:
  "let s = run_storage silent_library sample_cell_id
         (sample_cards_ops @ [ConnectCards ''a'' ''b'' slot_above slot_below]);
       log = effects (rt_world (cs_runtime s))
   in map (from_slot \<circ> snd) (edges (cs_graph s)) = [slot_above]
    \<and> list_all (\<lambda>e. case e of DictAccessor _ key _ \<Rightarrow> key \<noteq> slot_above | _ \<Rightarrow> True) log"
  by (simp add: sample_cards_ops_def run_storage_defs add_effects_def) (simp add: slot_defs)

text \<open>
  The runtime alone: removing a card without detaching its connectors first leaves them
  stored, and a new card of the same id cannot be connected any more.
\<close>

definition is_connector :: "effect \<Rightarrow> bool" where
  "is_connector e = (case e of Connector _ _ _ _ _ \<Rightarrow> True | _ \<Rightarrow> False)"

lemma remove_without_detach_blocks:
  "let s = snd (andthen (runtime_add_card ''a'') (\<lambda>a. andthen (runtime_add_card ''b'') (\<lambda>b.
           andthen (runtime_connect_cards sample_cell_id a b slot_right slot_left) (\<lambda>_.
           andthen (runtime_remove_card ''a'') (\<lambda>_.
           andthen (runtime_add_card ''a'') (\<lambda>a'.
           runtime_connect_cards sample_cell_id a' b slot_right slot_left)))))
         (cs_runtime empty_storage))
   in length (filter is_connector (effects (rt_world s))) = 1 \<and> map_of (rt_cards s) ''a'' = Some 29"
  by (simp add: run_storage_defs runtime_remove_card_def dispose_card_internal_network_io_def add_effects_def is_connector_def)

end
