(* ===== verification/Latest_Value.thy ===== *)
theory Latest_Value
  imports Lain_Prelude "HOL-Library.Multiset"
begin

text \<open>
  The latest-win rule of \<open>src/grpc/better_runtime/strongest_value.ts\<close> and the wall time layer of
  \<open>layers.ts\<close>: the strongest of the values written to a cell is the one with the greatest wall time,
  and two values of the same wall time contradict each other. A value is a layered object with a
  base value, a vector clock and a wall time. The clocks and the layered procedures are the
  library's: \<open>layers\<close> holds what the code calls, \<open>layerwise\<close> says that a layered procedure applies
  the procedure of each layer to that layer, and \<open>clock_laws\<close> that merging clocks takes the later
  of each component.
\<close>

section \<open>Layered values\<close>

datatype 'v content = Content 'v | TheContradiction

record ('v, 'c, 'w) datum =
  d_base :: "'v content"
  d_clock :: 'c
  d_wall :: 'w

record ('v, 'c, 'w) layers =
  merge_vector_clocks :: "'c \<Rightarrow> 'c \<Rightarrow> 'c"
  vector_clock_forward :: "'c \<Rightarrow> jstring \<Rightarrow> 'c"
  clock_has :: "'c \<Rightarrow> jstring \<Rightarrow> bool"
  construct_vector_clock :: "(jstring \<times> nat) list \<Rightarrow> 'c"
  apply_layered :: "('v content \<Rightarrow> 'v content \<Rightarrow> 'v content) \<Rightarrow> ('c \<Rightarrow> 'c \<Rightarrow> 'c) \<Rightarrow> ('w \<Rightarrow> 'w \<Rightarrow> 'w) \<Rightarrow>
    ('v, 'c, 'w) datum \<Rightarrow> ('v, 'c, 'w) datum \<Rightarrow> ('v, 'c, 'w) datum"

definition layerwise :: "('v, 'c, 'w) layers \<Rightarrow> bool" where
  "layerwise L \<longleftrightarrow> (\<forall>f g h a b. apply_layered L f g h a b =
     \<lparr>d_base = f (d_base a) (d_base b), d_clock = g (d_clock a) (d_clock b), d_wall = h (d_wall a) (d_wall b)\<rparr>)"

definition clock_laws :: "('v, 'c, 'w) layers \<Rightarrow> bool" where
  "clock_laws L \<longleftrightarrow> (\<forall>a b c. merge_vector_clocks L (merge_vector_clocks L a b) c = merge_vector_clocks L a (merge_vector_clocks L b c)
     \<and> merge_vector_clocks L a b = merge_vector_clocks L b a)"

text \<open>The procedure of the wall time layer: \<open>Math.max\<close> of the timestamps.\<close>

definition walltime_procedure :: "'w::linorder \<Rightarrow> 'w \<Rightarrow> 'w" where
  "walltime_procedure a b = max a b"

definition walltime_greater_than :: "('v, 'c, 'w::linorder) datum \<Rightarrow> ('v, 'c, 'w) datum \<Rightarrow> bool" where
  "walltime_greater_than a b \<longleftrightarrow> d_wall b < d_wall a"

definition walltime_less_than :: "('v, 'c, 'w::linorder) datum \<Rightarrow> ('v, 'c, 'w) datum \<Rightarrow> bool" where
  "walltime_less_than a b \<longleftrightarrow> d_wall a < d_wall b"

definition merge_vector_clock_from ::
    "('v, 'c, 'w::linorder) layers \<Rightarrow> ('v, 'c, 'w) datum \<Rightarrow> ('v, 'c, 'w) datum \<Rightarrow> ('v, 'c, 'w) datum" where
  "merge_vector_clock_from L a b = apply_layered L (\<lambda>a _. a) (merge_vector_clocks L) walltime_procedure a b"

section \<open>The strongest value\<close>

text \<open>
  The reduction. The accumulator is always a layered value here, so that the branch for a plain
  contradiction is not taken.
\<close>

definition strongest_step ::
    "('v, 'c, 'w::linorder) layers \<Rightarrow> ('v, 'c, 'w) datum \<Rightarrow> ('v, 'c, 'w) datum \<Rightarrow> ('v, 'c, 'w) datum" where
  "strongest_step L acc val =
     (if d_base acc = TheContradiction
      then (if walltime_greater_than val acc then merge_vector_clock_from L val acc else acc)
      else if walltime_greater_than val acc then merge_vector_clock_from L val acc
      else if walltime_less_than val acc then merge_vector_clock_from L acc val
      else \<lparr>d_base = TheContradiction, d_clock = merge_vector_clocks L (d_clock acc) (d_clock val), d_wall = d_wall acc\<rparr>)"

text \<open>\<open>None\<close> is \<open>the_nothing\<close>; the set is listed in the order of its iteration.\<close>

definition strongest_of ::
    "('v, 'c, 'w::linorder) layers \<Rightarrow> ('v, 'c, 'w) datum list \<Rightarrow> ('v, 'c, 'w) datum option" where
  "strongest_of L values =
     (case values of [] \<Rightarrow> None | v # vs \<Rightarrow> Some (foldl (strongest_step L) v vs))"

text \<open>The value \<open>update_specialized_reactive_value\<close> writes.\<close>

definition reactive_datum ::
    "('v, 'c, 'w::linorder) layers \<Rightarrow> 'w \<Rightarrow> ('v, 'c, 'w) datum option \<Rightarrow> jstring \<Rightarrow> 'v \<Rightarrow> ('v, 'c, 'w) datum" where
  "reactive_datum L now strongest identifier v =
     (case strongest of
        Some d \<Rightarrow>
          if clock_has L (d_clock d) identifier
          then \<lparr>d_base = Content v, d_clock = vector_clock_forward L (d_clock d) identifier, d_wall = now\<rparr>
          else \<lparr>d_base = Content v, d_clock = construct_vector_clock L [(identifier, 0)], d_wall = now\<rparr>
      | None \<Rightarrow> \<lparr>d_base = Content v, d_clock = construct_vector_clock L [(identifier, 0)], d_wall = now\<rparr>)"

section \<open>The specification\<close>

definition latest_wall :: "('v, 'c, 'w::linorder) datum list \<Rightarrow> 'w" where
  "latest_wall xs = Max (d_wall ` set xs)"

definition latest :: "('v, 'c, 'w::linorder) datum list \<Rightarrow> ('v, 'c, 'w) datum list" where
  "latest xs = filter (\<lambda>d. d_wall d = latest_wall xs) xs"

definition latest_content :: "('v, 'c, 'w::linorder) datum list \<Rightarrow> 'v content" where
  "latest_content xs = (case latest xs of [d] \<Rightarrow> d_base d | _ \<Rightarrow> TheContradiction)"

lemma latest_wall_snoc: "xs \<noteq> [] \<Longrightarrow> latest_wall (xs @ [v]) = max (latest_wall xs) (d_wall v)"
  by (simp add: latest_wall_def max.commute)

lemma wall_le_latest: "d \<in> set xs \<Longrightarrow> d_wall d \<le> latest_wall xs"
  by (simp add: latest_wall_def)

lemma latest_nonempty: "xs \<noteq> [] \<Longrightarrow> latest xs \<noteq> []"
proof -
  assume "xs \<noteq> []"
  then have "latest_wall xs \<in> d_wall ` set xs" unfolding latest_wall_def by (intro Max_in) auto
  then show ?thesis by (auto simp: latest_def filter_empty_conv)
qed

lemma latest_content_snoc:
  assumes "xs \<noteq> []"
  shows "latest_content (xs @ [v]) =
    (if latest_wall xs < d_wall v then d_base v else if d_wall v < latest_wall xs then latest_content xs else TheContradiction)"
proof -
  have le: "d_wall d \<le> latest_wall xs" if "d \<in> set xs" for d by (rule wall_le_latest [OF that])
  consider "latest_wall xs < d_wall v" | "d_wall v < latest_wall xs" | "d_wall v = latest_wall xs" by fastforce
  then show ?thesis
  proof cases
    case 1
    then have "latest (xs @ [v]) = [v]"
      using le by (fastforce simp: latest_def latest_wall_snoc [OF assms] filter_empty_conv)
    then show ?thesis using 1 by (simp add: latest_content_def)
  next
    case 2
    then have "latest (xs @ [v]) = latest xs" by (auto simp: latest_def latest_wall_snoc [OF assms])
    then show ?thesis using 2 by (auto simp: latest_content_def dest: less_asym)
  next
    case 3
    then have "latest (xs @ [v]) = latest xs @ [v]" by (simp add: latest_def latest_wall_snoc [OF assms])
    then show ?thesis using 3 latest_nonempty [OF assms] by (simp add: latest_content_def split: list.split)
  qed
qed

lemma strongest_step_parts:
  assumes "layerwise L"
  shows "d_wall (strongest_step L acc v) = max (d_wall acc) (d_wall v)"
    and "d_base (strongest_step L acc v) =
      (if d_wall acc < d_wall v then d_base v else if d_wall v < d_wall acc then d_base acc else TheContradiction)"
  using assms
  by (auto simp: strongest_step_def walltime_greater_than_def walltime_less_than_def merge_vector_clock_from_def
      layerwise_def walltime_procedure_def max_def not_less)

lemma strongest_fold:
  assumes "layerwise L"
  shows "d_wall (foldl (strongest_step L) v vs) = latest_wall (v # vs)
    \<and> d_base (foldl (strongest_step L) v vs) = latest_content (v # vs)"
proof (induction vs rule: rev_induct)
  case Nil
  show ?case by (simp add: latest_wall_def latest_content_def latest_def)
next
  case (snoc x vs)
  then show ?case
    using latest_content_snoc [of "v # vs" x] latest_wall_snoc [of "v # vs" x] by (simp add: strongest_step_parts [OF assms])
qed

lemma latest_mset:
  assumes "mset xs = mset ys"
  shows "latest_wall xs = latest_wall ys" and "latest_content xs = latest_content ys"
proof -
  have "set xs = set ys" using assms by (rule mset_eq_setD)
  then show wall: "latest_wall xs = latest_wall ys" by (simp add: latest_wall_def)
  have m: "mset (latest xs) = mset (latest ys)" using assms by (simp add: latest_def wall)
  show "latest_content xs = latest_content ys"
  proof (cases "latest xs")
    case Nil
    then show ?thesis using m by (simp add: latest_content_def)
  next
    case (Cons d ds)
    show ?thesis
    proof (cases ds)
      case Nil
      then have "latest ys = [d]" using m Cons by simp
      then show ?thesis using Cons Nil by (simp add: latest_content_def)
    next
      case (Cons e es)
      then have "length (latest ys) \<ge> 2" using \<open>latest xs = d # ds\<close> mset_eq_length [OF m] by simp
      then show ?thesis
        using Cons \<open>latest xs = d # ds\<close> by (auto simp: latest_content_def split: list.split)
    qed
  qed
qed

section \<open>Clocks\<close>

text \<open>Without ties every clock is merged in.\<close>

definition no_ties :: "('v, 'c, 'w::linorder) datum list \<Rightarrow> bool" where
  "no_ties xs \<longleftrightarrow> distinct (map d_wall xs) \<and> (\<forall>d \<in> set xs. d_base d \<noteq> TheContradiction)"

lemma step_clock:
  assumes "layerwise L" and "clock_laws L" and "d_base acc \<noteq> TheContradiction"
  shows "d_clock (strongest_step L acc v) = merge_vector_clocks L (d_clock acc) (d_clock v)"
  using assms
  by (auto simp: strongest_step_def merge_vector_clock_from_def layerwise_def clock_laws_def)

lemma no_ties_content:
  assumes "no_ties (v # vs)"
  shows "latest_content (v # vs) \<noteq> TheContradiction"
proof -
  let ?xs = "v # vs"
  obtain d where d: "d \<in> set (latest ?xs)" using latest_nonempty [of ?xs] by (cases "latest ?xs") auto
  have "distinct (map d_wall (latest ?xs))"
    using assms unfolding no_ties_def latest_def by (metis distinct_map_filter)
  moreover have "\<forall>e \<in> set (latest ?xs). d_wall e = latest_wall ?xs" by (simp add: latest_def)
  ultimately have "latest ?xs = [d]" using d
    by (cases "latest ?xs"; cases "tl (latest ?xs)") auto
  moreover have "d \<in> set ?xs" using d unfolding latest_def by (simp only: set_filter) blast
  then have "d_base d \<noteq> TheContradiction" using assms unfolding no_ties_def by blast
  ultimately show ?thesis by (simp add: latest_content_def)
qed

lemma fold_clock:
  assumes "layerwise L" and "clock_laws L" and "no_ties (v # vs)"
  shows "d_clock (foldl (strongest_step L) v vs) = foldl (\<lambda>c d. merge_vector_clocks L c (d_clock d)) (d_clock v) vs"
  using assms(3)
proof (induction vs rule: rev_induct)
  case (snoc x vs)
  then have nt: "no_ties (v # vs)" by (auto simp: no_ties_def)
  have "d_base (foldl (strongest_step L) v vs) \<noteq> TheContradiction"
    using strongest_fold [OF assms(1), of v vs] no_ties_content [OF nt] by simp
  then show ?case using snoc.IH [OF nt] by (simp add: step_clock [OF assms(1,2)])
qed simp

definition all_clocks :: "('v, 'c, 'w) layers \<Rightarrow> ('v, 'c, 'w) datum list \<Rightarrow> 'c option \<Rightarrow> 'c option" where
  "all_clocks L xs c = fold (\<lambda>d c. case c of None \<Rightarrow> Some (d_clock d) | Some k \<Rightarrow> Some (merge_vector_clocks L k (d_clock d))) xs c"

lemma all_clocks_fold: "all_clocks L vs (Some c) = Some (foldl (\<lambda>c d. merge_vector_clocks L c (d_clock d)) c vs)"
  by (induction vs arbitrary: c) (simp_all add: all_clocks_def)

lemma all_clocks_mset:
  assumes "clock_laws L" and "mset xs = mset ys"
  shows "all_clocks L xs None = all_clocks L ys None"
  unfolding all_clocks_def
proof (rule fun_cong [OF fold_multiset_equiv [OF _ assms(2)]])
  show "(\<lambda>c. case c of None \<Rightarrow> Some (d_clock x) | Some k \<Rightarrow> Some (merge_vector_clocks L k (d_clock x))) \<circ>
      (\<lambda>c. case c of None \<Rightarrow> Some (d_clock y) | Some k \<Rightarrow> Some (merge_vector_clocks L k (d_clock y))) =
      (\<lambda>c. case c of None \<Rightarrow> Some (d_clock y) | Some k \<Rightarrow> Some (merge_vector_clocks L k (d_clock y))) \<circ>
      (\<lambda>c. case c of None \<Rightarrow> Some (d_clock x) | Some k \<Rightarrow> Some (merge_vector_clocks L k (d_clock x)))" for x y
    using assms(1) by (auto simp: fun_eq_iff clock_laws_def split: option.split) metis
qed

lemma strongest_unique_order:
  assumes "layerwise L" and "clock_laws L" and "mset xs = mset ys" and "no_ties xs"
  shows "strongest_of L xs = strongest_of L ys"
proof (cases xs)
  case Nil
  then show ?thesis using assms(3) by simp
next
  case (Cons v vs)
  then obtain u us where ys: "ys = u # us" using assms(3) by (cases ys) auto
  have "mset (map d_wall xs) = mset (map d_wall ys)" using assms(3) by (metis mset_map)
  then have "distinct (map d_wall xs) = distinct (map d_wall ys)" by (rule mset_eq_imp_distinct_iff)
  then have nt: "no_ties ys" using assms(4) mset_eq_setD [OF assms(3)] by (simp add: no_ties_def)
  let ?f = "foldl (strongest_step L)"
  have "d_clock (?f v vs) = d_clock (?f u us)"
    using all_clocks_mset [OF assms(2,3)] assms(4) nt unfolding Cons ys
    by (simp add: all_clocks_def) (simp add: all_clocks_def [symmetric] all_clocks_fold fold_clock [OF assms(1,2)])
  moreover have "d_wall (?f v vs) = d_wall (?f u us)" "d_base (?f v vs) = d_base (?f u us)"
    using strongest_fold [OF assms(1)] latest_mset [OF assms(3)] by (simp_all add: Cons ys)
  ultimately show ?thesis by (simp add: strongest_of_def Cons ys)
qed

section \<open>Properties\<close>

text \<open>
  C22: The strongest value has the greatest wall time of the set. Its content is that of the only
  value with this wall time, or a contradiction when there are several; content and wall time
  do not depend on the order in which the set is iterated, and without ties the clock does not
  either.
\<close>

theorem strongest_is_latest:
  assumes "layerwise L" and "clock_laws L" and "mset xs = mset ys" and "xs \<noteq> []"
  shows "\<exists>r s. strongest_of L xs = Some r \<and> strongest_of L ys = Some s
    \<and> d_wall r = latest_wall xs \<and> d_base r = latest_content xs \<and> d_wall s = d_wall r \<and> d_base s = d_base r
    \<and> (no_ties xs \<longrightarrow> s = r)"
proof -
  obtain v vs where xs: "xs = v # vs" using assms(4) by (cases xs) auto
  obtain u us where ys: "ys = u # us" using assms(3,4) by (cases ys) auto
  show ?thesis
    using strongest_fold [OF assms(1), of v vs] strongest_fold [OF assms(1), of u us] latest_mset [OF assms(3)]
      strongest_unique_order [OF assms(1-3)]
    by (simp add: strongest_of_def xs ys)
qed

definition sample_layers :: "(nat, nat, nat) layers" where
  "sample_layers = \<lparr>merge_vector_clocks = max, vector_clock_forward = (\<lambda>c _. Suc c), clock_has = (\<lambda>_ _. True),
     construct_vector_clock = (\<lambda>_. 0),
     apply_layered = (\<lambda>f g h a b. \<lparr>d_base = f (d_base a) (d_base b), d_clock = g (d_clock a) (d_clock b), d_wall = h (d_wall a) (d_wall b)\<rparr>)\<rparr>"

definition written :: "nat \<Rightarrow> nat \<Rightarrow> nat \<Rightarrow> (nat, nat, nat) datum" where
  "written v c w = \<lparr>d_base = Content v, d_clock = c, d_wall = w\<rparr>"

lemma sample_layers_ok: "layerwise sample_layers" "clock_laws sample_layers"
  by (simp_all add: layerwise_def clock_laws_def sample_layers_def max.assoc max.commute max.left_commute)

theorem strongest_is_latest_witness:
  "strongest_of sample_layers [written 1 3 10, written 2 1 20] = strongest_of sample_layers [written 2 1 20, written 1 3 10]
   \<and> map_option d_base (strongest_of sample_layers [written 1 3 10, written 2 1 20]) = Some (Content 2)"
proof -
  have "no_ties [written 1 3 10, written 2 1 20]" by (simp add: no_ties_def written_def)
  moreover have "latest_content [written 1 3 10, written 2 1 20] = Content 2"
    by (simp add: latest_content_def latest_def latest_wall_def written_def)
  ultimately show ?thesis
    using strongest_is_latest [OF sample_layers_ok, of "[written 1 3 10, written 2 1 20]" "[written 2 1 20, written 1 3 10]"]
    by auto
qed

text \<open>A write later than everything in the set wins; a write in the same tick contradicts.\<close>

lemma update_wins:
  assumes "layerwise L" and "\<forall>d \<in> set xs. d_wall d < now"
  shows "map_option d_base (strongest_of L (xs @ [reactive_datum L now s i v])) = Some (Content v)"
proof -
  have new: "d_base (reactive_datum L now s i v) = Content v" "d_wall (reactive_datum L now s i v) = now"
    by (simp_all add: reactive_datum_def split: option.split)
  show ?thesis
  proof (cases xs)
    case Nil
    then show ?thesis by (simp add: strongest_of_def new)
  next
    case (Cons u us)
    have "latest_wall (u # us) < now" using assms(2) by (simp add: latest_wall_def Cons)
    then show ?thesis
      using strongest_fold [OF assms(1), of u us]
      by (simp add: strongest_of_def Cons strongest_step_parts [OF assms(1)] new)
  qed
qed

lemma same_tick_contradicts:
  assumes "layerwise L"
  shows "map_option d_base (strongest_of L [reactive_datum L now s i v, reactive_datum L now s' i' v]) = Some TheContradiction"
  by (simp add: strongest_of_def strongest_step_parts [OF assms] reactive_datum_def split: option.split)

text \<open>With a tie the clock depends on the order: an older value after the tie is dropped with its clock.\<close>

lemma tied_clock_depends_on_order:
  "map_option d_clock (strongest_of sample_layers [written 1 1 10, written 2 2 10, written 3 5 0]) = Some 2
   \<and> map_option d_clock (strongest_of sample_layers [written 3 5 0, written 1 1 10, written 2 2 10]) = Some 5"
  by (simp add: strongest_of_def strongest_step_def walltime_greater_than_def walltime_less_than_def merge_vector_clock_from_def
      sample_layers_def written_def walltime_procedure_def)

end
