(* ===== verification/Gun_Listeners.thy ===== *)
theory Gun_Listeners
  imports Exec
begin

text \<open>
  The listener managers of \<open>src/DB/serialize/gun_listener_manager.ts\<close>: one manager per cell or
  propagator records the listeners it put on nodes of the GUN database and takes them off again
  when it is disposed. GUN is a package: its nodes are handles, its calls are recorded in a log,
  and its answers (which node a key gives, whether a node can be unsubscribed, which calls
  throw) are a parameter.
\<close>

section \<open>Nodes, listeners and calls\<close>

type_synonym gun_node = nat

text \<open>A listener is a function; \<open>registerMapListener\<close> makes a new one around the one it is given.\<close>

datatype listener = Plain nat | Wrapped nat nat

datatype gun_call = Get gun_node jstring | MapOf gun_node | On gun_node listener | Off gun_node listener

record gun =
  gun_get :: "gun_node \<Rightarrow> jstring \<Rightarrow> gun_node"
  gun_map :: "gun_node \<Rightarrow> gun_node"
  gun_has_off :: "gun_node \<Rightarrow> bool"
  gun_fails :: "gun_call \<Rightarrow> bool"

record listener_handle =
  lh_node :: gun_node
  lh_listener :: listener
  lh_key :: "jstring option"

record gun_listener_manager =
  lm_listeners :: "listener_handle list"
  lm_key_listeners :: "(jstring, listener_handle) jmap"
  lm_disposed :: bool
  lm_fresh :: nat
  lm_log :: "gun_call list"

datatype listener_error = CannotRegisterOnDisposed | GunThrows gun_call

type_synonym 'a manager_act = "(gun_listener_manager, listener_error, 'a) act"

definition new_manager :: gun_listener_manager where
  "new_manager = \<lparr>lm_listeners = [], lm_key_listeners = [], lm_disposed = False, lm_fresh = 0, lm_log = []\<rparr>"

definition gun_call :: "gun \<Rightarrow> gun_call \<Rightarrow> unit manager_act" where
  "gun_call G c = (if gun_fails G c then throw (GunThrows c) else changes (\<lambda>m. m\<lparr>lm_log := lm_log m @ [c]\<rparr>))"

text \<open>The test \<open>if (key)\<close>: the empty key counts as none.\<close>

definition truthy_key :: "jstring option \<Rightarrow> bool" where
  "truthy_key key \<longleftrightarrow> key \<noteq> None \<and> key \<noteq> Some []"

section \<open>The manager\<close>

definition register :: "gun \<Rightarrow> gun_node \<Rightarrow> listener \<Rightarrow> jstring option \<Rightarrow> unit manager_act" where
  "register G node listener key =
     andthen (reads lm_disposed) (\<lambda>disposed.
     if disposed then throw CannotRegisterOnDisposed
     else
       (let handle = \<lparr>lh_node = node, lh_listener = listener, lh_key = key\<rparr>
        in andthen (changes (\<lambda>m. m\<lparr>lm_listeners := lm_listeners m @ [handle]\<rparr>)) (\<lambda>_.
           if truthy_key key
           then andthen (changes (\<lambda>m. m\<lparr>lm_key_listeners := AList.update (the key) handle (lm_key_listeners m)\<rparr>)) (\<lambda>_.
                andthen (gun_call G (Get node (the key))) (\<lambda>_.
                gun_call G (On (gun_get G node (the key)) listener)))
           else gun_call G (On node listener))))"

definition register_map_listener :: "gun \<Rightarrow> gun_node \<Rightarrow> nat \<Rightarrow> unit manager_act" where
  "register_map_listener G map_node listener =
     andthen (reads lm_disposed) (\<lambda>disposed.
     if disposed then throw CannotRegisterOnDisposed
     else
       andthen (reads lm_fresh) (\<lambda>fresh.
       andthen (changes (\<lambda>m. m\<lparr>lm_fresh := Suc fresh\<rparr>)) (\<lambda>_.
       andthen (gun_call G (MapOf map_node)) (\<lambda>_.
         (let wrapped = Wrapped fresh listener; map_chain = gun_map G map_node;
              handle = \<lparr>lh_node = map_chain, lh_listener = wrapped, lh_key = None\<rparr>
          in andthen (changes (\<lambda>m. m\<lparr>lm_listeners := lm_listeners m @ [handle]\<rparr>)) (\<lambda>_.
             gun_call G (On map_chain wrapped)))))))"

text \<open>What the database runs when a node with the listener changes: the wrapped one looks first.\<close>

definition listener_called :: "gun_listener_manager \<Rightarrow> listener \<Rightarrow> nat option" where
  "listener_called m listener =
     (case listener of
        Plain f \<Rightarrow> Some f
      | Wrapped _ f \<Rightarrow> if lm_disposed m then None else Some f)"

definition off_if_possible :: "gun \<Rightarrow> gun_node \<Rightarrow> listener \<Rightarrow> unit manager_act" where
  "off_if_possible G node listener = (if gun_has_off G node then gun_call G (Off node listener) else ret ())"

definition close_key :: "gun \<Rightarrow> jstring \<Rightarrow> listener_handle \<Rightarrow> unit manager_act" where
  "close_key G key handle =
     andthen (gun_call G (Get (lh_node handle) key)) (\<lambda>_.
     off_if_possible G (gun_get G (lh_node handle) key) (lh_listener handle))"

definition close_key_listener :: "gun \<Rightarrow> jstring \<Rightarrow> unit manager_act" where
  "close_key_listener G key =
     andthen (reads (\<lambda>m. map_of (lm_key_listeners m) key)) (\<lambda>found.
     case found of
       None \<Rightarrow> ret ()
     | Some handle \<Rightarrow>
         andthen (close_key G key handle) (\<lambda>_.
         changes (\<lambda>m. m\<lparr>lm_key_listeners := AList.delete key (lm_key_listeners m)\<rparr>)))"

text \<open>\<open>try { .. } catch { console.warn }\<close>.\<close>

definition attempt :: "unit manager_act \<Rightarrow> unit manager_act" where
  "attempt act m = (Inr (), snd (act m))"

definition close_handle :: "gun \<Rightarrow> listener_handle \<Rightarrow> unit manager_act" where
  "close_handle G handle =
     (if truthy_key (lh_key handle) then close_key G (the (lh_key handle)) handle
      else off_if_possible G (lh_node handle) (lh_listener handle))"

definition dispose_manager :: "gun \<Rightarrow> unit manager_act" where
  "dispose_manager G =
     andthen (reads lm_disposed) (\<lambda>disposed.
     if disposed then ret ()
     else
       andthen (changes (\<lambda>m. m\<lparr>lm_disposed := True\<rparr>)) (\<lambda>_.
       andthen (reads lm_listeners) (\<lambda>listeners.
       andthen (for_each (\<lambda>handle. attempt (close_handle G handle)) listeners) (\<lambda>_.
       andthen (reads lm_key_listeners) (\<lambda>keyed.
       andthen (for_each (\<lambda>(key, handle). attempt (close_key G key handle)) keyed) (\<lambda>_.
       changes (\<lambda>m. m\<lparr>lm_listeners := [], lm_key_listeners := []\<rparr>)))))))"

definition is_disposed :: "gun_listener_manager \<Rightarrow> bool" where
  "is_disposed m = lm_disposed m"

section \<open>The registry\<close>

text \<open>Managers are shared objects: the registry maps an owner to the place of its manager.\<close>

record listener_registry =
  lr_managers :: "gun_listener_manager list"
  lr_owners :: "(nat, nat) jmap"

definition get_listener_manager :: "nat \<Rightarrow> listener_registry \<Rightarrow> nat \<times> listener_registry" where
  "get_listener_manager obj r =
     (case map_of (lr_owners r) obj of
        Some i \<Rightarrow> (i, r)
      | None \<Rightarrow> (length (lr_managers r),
          r\<lparr>lr_managers := lr_managers r @ [new_manager],
            lr_owners := AList.update obj (length (lr_managers r)) (lr_owners r)\<rparr>))"

definition dispose_listeners :: "gun \<Rightarrow> nat \<Rightarrow> listener_registry \<Rightarrow> listener_registry" where
  "dispose_listeners G obj r =
     (case map_of (lr_owners r) obj of
        None \<Rightarrow> r
      | Some i \<Rightarrow> r\<lparr>lr_managers := (lr_managers r)[i := snd (dispose_manager G (lr_managers r ! i))],
                    lr_owners := AList.delete obj (lr_owners r)\<rparr>)"

section \<open>Calls that only unsubscribe\<close>

fun is_on :: "gun_call \<Rightarrow> bool" where
  "is_on (On _ _) = True"
| "is_on _ = False"

definition unsubscribes :: "gun_listener_manager \<Rightarrow> gun_listener_manager \<Rightarrow> bool" where
  "unsubscribes m m' \<longleftrightarrow> (\<exists>cs. (\<forall>c \<in> set cs. \<not> is_on c) \<and> m' = m\<lparr>lm_log := lm_log m @ cs\<rparr>)"

lemma unsubscribes_refl: "unsubscribes m m"
  by (auto simp: unsubscribes_def intro: exI [of _ "[]"])

lemma unsubscribes_trans: "unsubscribes a b \<Longrightarrow> unsubscribes b c \<Longrightarrow> unsubscribes a c"
  unfolding unsubscribes_def
proof (elim exE conjE)
  fix xs ys assume "\<forall>c \<in> set xs. \<not> is_on c" "\<forall>c \<in> set ys. \<not> is_on c"
    "b = a\<lparr>lm_log := lm_log a @ xs\<rparr>" "c = b\<lparr>lm_log := lm_log b @ ys\<rparr>"
  then show "\<exists>cs. (\<forall>c \<in> set cs. \<not> is_on c) \<and> c = a\<lparr>lm_log := lm_log a @ cs\<rparr>"
    by (intro exI [of _ "xs @ ys"]) auto
qed

interpretation offs: frame_relation unsubscribes
  by unfold_locales (fact unsubscribes_refl, fact unsubscribes_trans)

lemma unsubscribes_call: "\<not> is_on c \<Longrightarrow> offs.along (gun_call G c)"
  by (auto simp: gun_call_def unsubscribes_def intro!: offs.along_changes offs.along_throw exI [of _ "[c]"])

lemma unsubscribes_off: "offs.along (off_if_possible G node l)"
  by (auto simp: off_if_possible_def intro: unsubscribes_call offs.along_ret)

lemma unsubscribes_close_key: "offs.along (close_key G key h)"
  by (auto simp: close_key_def intro!: offs.along_andthen unsubscribes_call unsubscribes_off)

lemma unsubscribes_close: "offs.along (close_handle G h)"
  by (simp add: close_handle_def unsubscribes_close_key unsubscribes_off)

lemma unsubscribes_attempt: "offs.along act \<Longrightarrow> offs.along (attempt act)"
  by (simp add: offs.along_def attempt_def)

lemma for_each_attempt_run:
  "for_each (\<lambda>x. attempt (f x)) xs m = (Inr (), fold (\<lambda>x m. snd (f x m)) xs m)"
  by (induction xs arbitrary: m) (simp_all add: andthen_def attempt_def)

lemma for_each_attempt_keyed_run:
  "for_each (\<lambda>(k, x). attempt (f k x)) xs m = (Inr (), fold (\<lambda>(k, x) m. snd (f k x m)) xs m)"
  by (induction xs arbitrary: m) (auto simp add: andthen_def attempt_def)

lemma fold_unsubscribes: "(\<And>x. offs.along (f x)) \<Longrightarrow> unsubscribes m (fold (\<lambda>x m. snd (f x m)) xs m)"
proof (induction xs arbitrary: m)
  case (Cons x xs)
  have "unsubscribes m (snd (f x m))" using Cons.prems by (simp add: offs.along_def)
  with Cons show ?case by (auto intro: unsubscribes_trans)
qed (simp add: unsubscribes_refl)

text \<open>The node and listener a handle subscribed, and when they can be unsubscribed.\<close>

definition handle_node :: "gun \<Rightarrow> listener_handle \<Rightarrow> gun_node" where
  "handle_node G h = (if truthy_key (lh_key h) then gun_get G (lh_node h) (the (lh_key h)) else lh_node h)"

definition gettable :: "gun \<Rightarrow> listener_handle \<Rightarrow> bool" where
  "gettable G h \<longleftrightarrow> truthy_key (lh_key h) \<longrightarrow> \<not> gun_fails G (Get (lh_node h) (the (lh_key h)))"

definition closable :: "gun \<Rightarrow> gun_node \<Rightarrow> listener \<Rightarrow> bool" where
  "closable G node l \<longleftrightarrow> gun_has_off G node \<and> \<not> gun_fails G (Off node l)"

lemma close_handle_off:
  assumes "gettable G h" and "closable G (handle_node G h) (lh_listener h)"
  shows "\<exists>cs. lm_log (snd (close_handle G h m)) = lm_log m @ cs \<and> Off (handle_node G h) (lh_listener h) \<in> set cs"
  using assms
  by (cases "truthy_key (lh_key h)")
    (simp_all add: close_handle_def close_key_def off_if_possible_def gun_call_def gettable_def closable_def handle_node_def)

lemma unsubscribes_logE:
  assumes "unsubscribes m m'"
  obtains cs where "lm_log m' = lm_log m @ cs"
  using assms by (auto simp: unsubscribes_def)

lemma fold_close_off:
  assumes "h \<in> set hs" and "gettable G h" and "closable G (handle_node G h) (lh_listener h)"
  shows "\<exists>cs. lm_log (fold (\<lambda>h m. snd (close_handle G h m)) hs m) = lm_log m @ cs
    \<and> Off (handle_node G h) (lh_listener h) \<in> set cs"
proof -
  let ?f = "fold (\<lambda>h m. snd (close_handle G h m))"
  have u: "unsubscribes m (?f hs m)" for hs m by (rule fold_unsubscribes [OF unsubscribes_close])
  from assms(1) obtain xs ys where hs: "hs = xs @ h # ys" by (auto simp: in_set_conv_decomp)
  obtain a where a: "lm_log (?f xs m) = lm_log m @ a" by (rule unsubscribes_logE [OF u])
  obtain b where b: "lm_log (snd (close_handle G h (?f xs m))) = lm_log (?f xs m) @ b" "Off (handle_node G h) (lh_listener h) \<in> set b"
    using close_handle_off [OF assms(2,3)] by blast
  obtain c where c: "lm_log (?f ys (snd (close_handle G h (?f xs m)))) = lm_log (snd (close_handle G h (?f xs m))) @ c"
    by (rule unsubscribes_logE [OF u])
  show ?thesis using a b c by (intro exI [of _ "a @ b @ c"]) (simp add: hs)
qed

text \<open>The calls the disposal adds.\<close>

lemma dispose_run:
  assumes "\<not> lm_disposed m"
  obtains cs where "\<forall>c \<in> set cs. \<not> is_on c"
    and "snd (dispose_manager G m) =
      m\<lparr>lm_disposed := True, lm_log := lm_log m @ cs, lm_listeners := [], lm_key_listeners := []\<rparr>"
    and "\<And>h. h \<in> set (lm_listeners m) \<Longrightarrow> gettable G h \<Longrightarrow> closable G (handle_node G h) (lh_listener h) \<Longrightarrow>
      Off (handle_node G h) (lh_listener h) \<in> set cs"
proof -
  define m1 where "m1 = m\<lparr>lm_disposed := True\<rparr>"
  define m2 where "m2 = fold (\<lambda>h m. snd (close_handle G h m)) (lm_listeners m) m1"
  define m3 where "m3 = fold (\<lambda>(k, h) m. snd (close_key G k h m)) (lm_key_listeners m2) m2"
  have u2: "unsubscribes m1 m2" unfolding m2_def by (rule fold_unsubscribes [OF unsubscribes_close])
  have u3: "unsubscribes m2 m3" unfolding m3_def
    using fold_unsubscribes [of "\<lambda>(k, h). close_key G k h" m2 "lm_key_listeners m2"]
    by (simp add: split_def unsubscribes_close_key)
  obtain cs where cs: "\<forall>c \<in> set cs. \<not> is_on c" "m3 = m1\<lparr>lm_log := lm_log m1 @ cs\<rparr>"
    using unsubscribes_trans [OF u2 u3] by (auto simp: unsubscribes_def)
  have run: "snd (dispose_manager G m) = m3\<lparr>lm_listeners := [], lm_key_listeners := []\<rparr>"
    using assms
    by (simp add: dispose_manager_def andthen_run for_each_attempt_run for_each_attempt_keyed_run m1_def m2_def m3_def)
  show thesis
  proof
    show "\<forall>c \<in> set cs. \<not> is_on c" by (rule cs)
    show "snd (dispose_manager G m) =
        m\<lparr>lm_disposed := True, lm_log := lm_log m @ cs, lm_listeners := [], lm_key_listeners := []\<rparr>"
      by (simp add: run cs m1_def)
    fix h assume h: "h \<in> set (lm_listeners m)" "gettable G h" "closable G (handle_node G h) (lh_listener h)"
    obtain a where "lm_log m2 = lm_log m1 @ a" "Off (handle_node G h) (lh_listener h) \<in> set a"
      using fold_close_off [OF h] unfolding m2_def by blast
    moreover obtain b where "lm_log m3 = lm_log m2 @ b" by (rule unsubscribes_logE [OF u3])
    ultimately show "Off (handle_node G h) (lh_listener h) \<in> set cs" using cs(2) by simp
  qed
qed

section \<open>Every history of a manager\<close>

datatype manager_op = Register gun_node listener "jstring option" | RegisterMap gun_node nat | CloseKey jstring | Dispose

definition run_op :: "gun \<Rightarrow> manager_op \<Rightarrow> gun_listener_manager \<Rightarrow> gun_listener_manager" where
  "run_op G op m = snd (case op of
     Register node l key \<Rightarrow> register G node l key m
   | RegisterMap node f \<Rightarrow> register_map_listener G node f m
   | CloseKey key \<Rightarrow> close_key_listener G key m
   | Dispose \<Rightarrow> dispose_manager G m)"

definition run_ops :: "gun \<Rightarrow> manager_op list \<Rightarrow> gun_listener_manager" where
  "run_ops G ops = fold (run_op G) ops new_manager"

text \<open>Every subscription of the log has its handle, or its end later in the log.\<close>

definition ended :: "gun_call list \<Rightarrow> gun_node \<Rightarrow> listener \<Rightarrow> bool" where
  "ended log node l \<longleftrightarrow> (\<forall>xs ys. log = xs @ On node l # ys \<longrightarrow> Off node l \<in> set ys)"

definition manager_inv :: "gun \<Rightarrow> gun_listener_manager \<Rightarrow> bool" where
  "manager_inv G m \<longleftrightarrow>
     (if lm_disposed m
      then lm_listeners m = [] \<and> lm_key_listeners m = [] \<and> (\<forall>node l. closable G node l \<longrightarrow> ended (lm_log m) node l)
      else \<forall>node l. On node l \<in> set (lm_log m) \<longrightarrow>
        (\<exists>h \<in> set (lm_listeners m). handle_node G h = node \<and> lh_listener h = l \<and> gettable G h))"

lemma ended_append:
  assumes "\<forall>c \<in> set cs. \<not> is_on c" and "On node l \<in> set log \<Longrightarrow> Off node l \<in> set cs"
  shows "ended (log @ cs) node l"
  unfolding ended_def
proof (intro allI impI)
  fix xs ys assume *: "log @ cs = xs @ On node l # ys"
  then obtain us where us: "log = xs @ us \<and> us @ cs = On node l # ys \<or> log @ us = xs \<and> cs = us @ On node l # ys"
    by (auto simp: append_eq_append_conv2)
  show "Off node l \<in> set ys"
  proof (cases "log = xs @ us \<and> us @ cs = On node l # ys")
    case True
    show ?thesis
    proof (cases us)
      case Nil
      then show ?thesis using True assms(1) by auto
    next
      case (Cons c us')
      then have "On node l \<in> set log" "ys = us' @ cs" using True by auto
      then show ?thesis using assms(2) by simp
    qed
  next
    case False
    then show ?thesis using us assms(1) by auto
  qed
qed

lemma inv_register: "manager_inv G m \<Longrightarrow> manager_inv G (snd (register G node l key m))"
  by (cases "lm_disposed m")
    (auto simp: register_def manager_inv_def gun_call_def handle_node_def gettable_def Let_def andthen_if)

lemma inv_register_map: "manager_inv G m \<Longrightarrow> manager_inv G (snd (register_map_listener G node f m))"
  by (cases "lm_disposed m")
    (auto simp: register_map_listener_def manager_inv_def gun_call_def handle_node_def gettable_def truthy_key_def Let_def andthen_def)

lemma inv_unsubscribes:
  assumes "manager_inv G m" and "unsubscribes m m'" and "\<not> lm_disposed m"
  shows "manager_inv G m' \<and> \<not> lm_disposed m'"
  using assms by (fastforce simp: manager_inv_def unsubscribes_def)

lemma inv_keys: "\<not> lm_disposed m \<Longrightarrow> manager_inv G (m\<lparr>lm_key_listeners := ks\<rparr>) \<longleftrightarrow> manager_inv G m"
  by (simp add: manager_inv_def)

lemma inv_close_key:
  assumes "manager_inv G m"
  shows "manager_inv G (snd (close_key_listener G key m))"
proof (cases "map_of (lm_key_listeners m) key")
  case None
  then show ?thesis using assms by (simp add: close_key_listener_def)
next
  case (Some h)
  then have active: "\<not> lm_disposed m" using assms by (auto simp: manager_inv_def)
  obtain r m' where run: "close_key G key h m = (r, m')" by force
  have "manager_inv G m' \<and> \<not> lm_disposed m'"
    by (rule inv_unsubscribes [OF assms offs.alongD [OF unsubscribes_close_key run] active])
  then show ?thesis using Some run by (cases r) (simp_all add: close_key_listener_def andthen_def inv_keys)
qed

lemma manager_inv_dispose:
  assumes "manager_inv G m"
  shows "manager_inv G (snd (dispose_manager G m)) \<and> lm_disposed (snd (dispose_manager G m))"
proof (cases "lm_disposed m")
  case True
  then show ?thesis using assms by (simp add: dispose_manager_def)
next
  case False
  from dispose_run [OF False, of G] obtain cs where cs: "\<forall>c \<in> set cs. \<not> is_on c"
    "snd (dispose_manager G m) = m\<lparr>lm_disposed := True, lm_log := lm_log m @ cs, lm_listeners := [], lm_key_listeners := []\<rparr>"
    "\<And>h. h \<in> set (lm_listeners m) \<Longrightarrow> gettable G h \<Longrightarrow> closable G (handle_node G h) (lh_listener h) \<Longrightarrow>
      Off (handle_node G h) (lh_listener h) \<in> set cs" by blast
  have "ended (lm_log m @ cs) node l" if "closable G node l" for node l
  proof (rule ended_append [OF cs(1)])
    assume "On node l \<in> set (lm_log m)"
    then show "Off node l \<in> set cs" using assms False that cs(3) by (auto simp: manager_inv_def)
  qed
  then show ?thesis by (simp add: cs(2) manager_inv_def)
qed

lemma inv_run_op: "manager_inv G m \<Longrightarrow> manager_inv G (run_op G op m)"
  by (simp add: run_op_def inv_register inv_register_map inv_close_key manager_inv_dispose split: manager_op.split)

lemma inv_run_ops: "manager_inv G (run_ops G ops)"
proof -
  have "manager_inv G (fold (run_op G) ops m)" if "manager_inv G m" for m
    using that by (induction ops arbitrary: m) (simp_all add: inv_run_op)
  then show ?thesis by (simp add: run_ops_def manager_inv_def new_manager_def)
qed

text \<open>A disposed manager refuses registrations and calls nothing more.\<close>

lemma disposed_op:
  assumes "manager_inv G m" and "lm_disposed m"
  shows "run_op G op m = m"
  using assms
  by (simp add: run_op_def register_def register_map_listener_def close_key_listener_def dispose_manager_def manager_inv_def
      split: manager_op.split)

lemma disposed_ops: "manager_inv G m \<Longrightarrow> lm_disposed m \<Longrightarrow> fold (run_op G) ops m = m"
  by (induction ops) (simp_all add: disposed_op)

section \<open>Properties\<close>

text \<open>
  C35: Disposal leaves no subscription behind, whatever registrations, closings and errors of the
  database came before: every \<open>on\<close> the manager made on a node that can be unsubscribed is
  followed by its \<open>off\<close>. And it is final: later registrations throw, later calls of any
  operation change nothing and reach the database no more, and no wrapped listener runs.
\<close>

theorem dispose_leaves_no_listener:
  "let m = snd (dispose_manager G (run_ops G ops)) in
    (\<forall>node l. closable G node l \<longrightarrow> ended (lm_log m) node l)
    \<and> fst (register G node' l' key m) = Inl CannotRegisterOnDisposed \<and> fst (register_map_listener G node' f m) = Inl CannotRegisterOnDisposed
    \<and> fold (run_op G) later m = m \<and> listener_called m (Wrapped n f) = None"
proof -
  let ?m = "snd (dispose_manager G (run_ops G ops))"
  have inv: "manager_inv G ?m" "lm_disposed ?m" using manager_inv_dispose [OF inv_run_ops] by simp_all
  then have "\<forall>node l. closable G node l \<longrightarrow> ended (lm_log ?m) node l" by (simp add: manager_inv_def)
  then show ?thesis
    using inv disposed_ops [OF inv] by (simp add: register_def register_map_listener_def listener_called_def Let_def)
qed

definition sample_gun :: gun where
  "sample_gun = \<lparr>gun_get = (\<lambda>n k. 10 * n + length k), gun_map = (\<lambda>n. n + 5), gun_has_off = (\<lambda>_. True), gun_fails = (\<lambda>_. False)\<rparr>"

definition sample_history :: "manager_op list" where
  "sample_history = [Register 1 (Plain 0) None, Register 1 (Plain 1) (Some ''ab''), RegisterMap 2 7, CloseKey ''ab'']"

theorem dispose_leaves_no_listener_witness:
  "let m = snd (dispose_manager sample_gun (run_ops sample_gun sample_history))
   in On 7 (Wrapped 0 7) \<in> set (lm_log m) \<and> ended (lm_log m) 7 (Wrapped 0 7)
    \<and> run_op sample_gun (Register 3 (Plain 4) None) m = m"
proof -
  let ?m = "snd (dispose_manager sample_gun (run_ops sample_gun sample_history))"
  have "lm_log ?m = [On 1 (Plain 0), Get 1 ''ab'', On 12 (Plain 1), MapOf 2, On 7 (Wrapped 0 7), Get 1 ''ab'', Off 12 (Plain 1),
     Off 1 (Plain 0), Get 1 ''ab'', Off 12 (Plain 1), Off 7 (Wrapped 0 7)]"
    by code_simp
  moreover have "closable sample_gun 7 (Wrapped 0 7)" by (simp add: closable_def sample_gun_def)
  ultimately show ?thesis
    using dispose_leaves_no_listener [where G = sample_gun and ops = sample_history and later = "[Register 3 (Plain 4) None]"]
    by (simp add: Let_def)
qed

text \<open>
  Two listeners with one key: \<open>closeKeyListener\<close> ends the second only and forgets the key, so
  that the first runs on until the disposal.
\<close>

lemma close_key_only_last:
  "lm_log (run_ops sample_gun [Register 1 (Plain 0) (Some ''k''), Register 1 (Plain 1) (Some ''k''), CloseKey ''k'', CloseKey ''k''])
     = [Get 1 ''k'', On 11 (Plain 0), Get 1 ''k'', On 11 (Plain 1), Get 1 ''k'', Off 11 (Plain 1)]"
  by code_simp

text \<open>
  Owners keep one manager until it is disposed of; afterwards they get a new one, and who still
  holds the old one is refused.
\<close>

lemma get_manager_stable:
  assumes "get_listener_manager obj r = (i, r')"
  shows "get_listener_manager obj r' = (i, r')"
  using assms by (auto simp: get_listener_manager_def update_conv' split: option.splits)

lemma dispose_listeners_renews:
  assumes "map_of (lr_owners r) obj = Some i" and "i < length (lr_managers r)"
  shows "map_of (lr_owners (dispose_listeners G obj r)) obj = None
    \<and> lm_disposed (lr_managers (dispose_listeners G obj r) ! i)
    \<and> (let (j, r') = get_listener_manager obj (dispose_listeners G obj r) in j \<noteq> i \<and> lr_managers r' ! j = new_manager)"
proof -
  have "lm_disposed (snd (dispose_manager G (lr_managers r ! i)))"
  proof (cases "lm_disposed (lr_managers r ! i)")
    case True
    then show ?thesis by (simp add: dispose_manager_def)
  next
    case False
    from dispose_run [OF False, of G] show ?thesis by fastforce
  qed
  then show ?thesis using assms by (simp add: dispose_listeners_def get_listener_manager_def delete_conv' nth_append)
qed

end
