(* ===== verification/Traversal.thy ===== *)
theory Traversal
  imports Lain_Prelude
begin

text \<open>
  The worklist loop the graph code uses: a queue that starts with some nodes, a set of visited
  nodes in the order of insertion, and a push of the successors of every node visited. The
  loop is a partial function: \<open>None\<close> would be a loop that does not end. It ends when the
  nodes it can meet are finitely many (\<open>worklist_total\<close>), and it then visits exactly
  the nodes reachable from the start without passing a skipped node (\<open>worklist_set\<close>).
\<close>

section \<open>The loop\<close>

partial_function (option) worklist ::
    "('a \<Rightarrow> bool) \<Rightarrow> ('a \<Rightarrow> 'a list) \<Rightarrow> 'a list \<Rightarrow> 'a list \<Rightarrow> 'a list option" where
  "worklist skip succs visited queue =
     (case queue of
        [] \<Rightarrow> Some visited
      | current # rest \<Rightarrow>
          if current \<in> set visited \<or> skip current then worklist skip succs visited rest
          else worklist skip succs (visited @ [current]) (rest @ succs current))"

lemma worklist_simps [simp, code]:
  "worklist skip succs visited [] = Some visited"
  "worklist skip succs visited (x # q) =
     (if x \<in> set visited \<or> skip x then worklist skip succs visited q
      else worklist skip succs (visited @ [x]) (q @ succs x))"
  by (simp_all add: worklist.simps)

section \<open>Termination\<close>

lemma worklist_total:
  assumes "finite N" and "set queue \<subseteq> N" and "\<And>x. x \<in> N \<Longrightarrow> \<not> skip x \<Longrightarrow> set (succs x) \<subseteq> N"
  shows "\<exists>r. worklist skip succs visited queue = Some r"
  using assms(2)
proof (induction "card (N - set visited)" arbitrary: visited queue rule: less_induct)
  case less
  show ?case using less.prems
  proof (induction queue)
    case (Cons x q)
    show ?case
    proof (cases "x \<in> set visited \<or> skip x")
      case True
      then show ?thesis using Cons by simp
    next
      case False
      have "N - set (visited @ [x]) \<subset> N - set visited" using False Cons.prems by auto
      then have "card (N - set (visited @ [x])) < card (N - set visited)"
        using assms(1) by (intro psubset_card_mono) auto
      moreover have "set (q @ succs x) \<subseteq> N" using assms(3) [of x] False Cons.prems by auto
      ultimately show ?thesis using less.hyps [of "visited @ [x]" "q @ succs x"] False by simp
    qed
  qed simp
qed

section \<open>What is visited\<close>

definition step_rel :: "('a \<Rightarrow> bool) \<Rightarrow> ('a \<Rightarrow> 'a list) \<Rightarrow> ('a \<times> 'a) set" where
  "step_rel skip succs = {(x, y). \<not> skip x \<and> y \<in> set (succs x)}"

definition reached :: "('a \<Rightarrow> bool) \<Rightarrow> ('a \<Rightarrow> 'a list) \<Rightarrow> 'a set \<Rightarrow> 'a set" where
  "reached skip succs S = {y. \<not> skip y \<and> (\<exists>x \<in> S. (x, y) \<in> (step_rel skip succs)\<^sup>*)}"

definition explored :: "('a \<Rightarrow> bool) \<Rightarrow> ('a \<Rightarrow> 'a list) \<Rightarrow> 'a list \<Rightarrow> 'a list \<Rightarrow> bool" where
  "explored skip succs visited queue \<longleftrightarrow>
     distinct visited \<and> (\<forall>x \<in> set visited. \<not> skip x \<and> (\<forall>y \<in> set (succs x). y \<in> set visited \<union> set queue \<or> skip y))"

definition closed_result :: "('a \<Rightarrow> bool) \<Rightarrow> ('a \<Rightarrow> 'a list) \<Rightarrow> 'a list \<Rightarrow> 'a list \<Rightarrow> 'a list \<Rightarrow> bool" where
  "closed_result skip succs visited queue r \<longleftrightarrow>
     (explored skip succs visited queue \<longrightarrow>
      explored skip succs r [] \<and> set visited \<subseteq> set r \<and> set r \<subseteq> set visited \<union> reached skip succs (set queue)
      \<and> (\<forall>x \<in> set queue. x \<in> set r \<or> skip x))"

lemma reached_mono: "S \<subseteq> T \<Longrightarrow> reached skip succs S \<subseteq> reached skip succs T"
  by (auto simp: reached_def)

lemma reached_step:
  assumes "\<not> skip x"
  shows "x \<in> reached skip succs (insert x S)"
    and "reached skip succs (S \<union> set (succs x)) \<subseteq> reached skip succs (insert x S)"
proof -
  show "x \<in> reached skip succs (insert x S)" using assms by (auto simp: reached_def)
  show "reached skip succs (S \<union> set (succs x)) \<subseteq> reached skip succs (insert x S)"
  proof
    fix y assume "y \<in> reached skip succs (S \<union> set (succs x))"
    then obtain z where z: "z \<in> S \<or> z \<in> set (succs x)" "(z, y) \<in> (step_rel skip succs)\<^sup>*" "\<not> skip y"
      by (auto simp: reached_def)
    have "(x, z) \<in> step_rel skip succs" if "z \<in> set (succs x)"
      using that assms by (simp add: step_rel_def)
    then show "y \<in> reached skip succs (insert x S)"
      using z by (auto simp: reached_def intro: converse_rtrancl_into_rtrancl)
  qed
qed

lemma explored_skip:
  "explored skip succs visited (x # q) \<Longrightarrow> x \<in> set visited \<or> skip x \<Longrightarrow> explored skip succs visited q"
  unfolding explored_def by auto

lemma explored_visit:
  "explored skip succs visited (x # q) \<Longrightarrow> x \<notin> set visited \<Longrightarrow> \<not> skip x \<Longrightarrow>
     explored skip succs (visited @ [x]) (q @ succs x)"
  unfolding explored_def by auto

lemma closed_result_skip:
  assumes "closed_result skip succs visited q r" and "x \<in> set visited \<or> skip x"
  shows "closed_result skip succs visited (x # q) r"
  using assms explored_skip [of skip succs visited x q] reached_mono [of "set q" "set (x # q)" skip succs]
  unfolding closed_result_def by auto

lemma closed_result_visit:
  assumes "closed_result skip succs (visited @ [x]) (q @ succs x) r" and "x \<notin> set visited" and "\<not> skip x"
  shows "closed_result skip succs visited (x # q) r"
  using assms explored_visit [of skip succs visited x q] reached_step [of skip x succs "set q"]
  unfolding closed_result_def by auto

lemma worklist_result: "worklist skip succs visited queue = Some r \<Longrightarrow> closed_result skip succs visited queue r"
proof (rule worklist.raw_induct [where P = closed_result])
  fix f :: "('a \<Rightarrow> bool) \<Rightarrow> ('a \<Rightarrow> 'a list) \<Rightarrow> 'a list \<Rightarrow> 'a list \<Rightarrow> 'a list option" and skip succs visited queue r
  assume ih: "\<And>skip succs visited queue r. f skip succs visited queue = Some r \<Longrightarrow> closed_result skip succs visited queue r"
    and run: "(case queue of [] \<Rightarrow> Some visited
      | current # rest \<Rightarrow> if current \<in> set visited \<or> skip current then f skip succs visited rest
          else f skip succs (visited @ [current]) (rest @ succs current)) = Some r"
  show "closed_result skip succs visited queue r"
  proof (cases queue)
    case Nil
    then show ?thesis using run by (auto simp: closed_result_def)
  next
    case (Cons x q)
    show ?thesis
    proof (cases "x \<in> set visited \<or> skip x")
      case True
      then have "f skip succs visited q = Some r" using run by (simp add: Cons)
      then show ?thesis unfolding Cons by (intro closed_result_skip [OF ih] True)
    next
      case False
      then have "f skip succs (visited @ [x]) (q @ succs x) = Some r" using run by (simp add: Cons)
      then show ?thesis using False unfolding Cons by (intro closed_result_visit [OF ih]) auto
    qed
  qed
qed

lemma worklist_prefix: "worklist skip succs visited queue = Some r \<Longrightarrow> \<exists>rest. r = visited @ rest"
proof (rule worklist.raw_induct [where P = "\<lambda>_ _ visited _ r. \<exists>rest. r = visited @ rest"])
  fix f :: "('a \<Rightarrow> bool) \<Rightarrow> ('a \<Rightarrow> 'a list) \<Rightarrow> 'a list \<Rightarrow> 'a list \<Rightarrow> 'a list option" and skip succs visited queue r
  assume ih: "\<And>skip succs visited queue r. f skip succs visited queue = Some r \<Longrightarrow> \<exists>rest. r = visited @ rest"
    and run: "(case queue of [] \<Rightarrow> Some visited
      | current # rest \<Rightarrow> if current \<in> set visited \<or> skip current then f skip succs visited rest
          else f skip succs (visited @ [current]) (rest @ succs current)) = Some r"
  show "\<exists>rest. r = visited @ rest"
  proof (cases queue)
    case (Cons x q)
    show ?thesis
    proof (cases "x \<in> set visited \<or> skip x")
      case False
      then have "f skip succs (visited @ [x]) (q @ succs x) = Some r" using run by (simp add: Cons)
      from ih [OF this] show ?thesis by auto
    qed (use run ih in \<open>auto simp: Cons\<close>)
  qed (use run in simp)
qed

lemma worklist_from:
  assumes "worklist skip succs visited queue = Some r" and "explored skip succs visited queue"
  shows "distinct r" and "set r = set visited \<union> reached skip succs (set queue)"
proof -
  have res: "explored skip succs r []" "set visited \<subseteq> set r" "set r \<subseteq> set visited \<union> reached skip succs (set queue)"
    "\<forall>x \<in> set queue. x \<in> set r \<or> skip x"
    using worklist_result [OF assms(1)] assms(2) by (simp_all add: closed_result_def)
  then have closed: "z \<in> set r \<or> skip z" if "y \<in> set r" "z \<in> set (succs y)" for y z
    using that unfolding explored_def by auto
  show "distinct r" using res(1) by (simp add: explored_def)
  have "y \<in> set r" if "x \<in> set queue" "(x, y) \<in> (step_rel skip succs)\<^sup>*" "\<not> skip y" for x y
  proof -
    have "y \<in> set r \<or> skip y" using that(2)
    proof (induction rule: rtrancl_induct)
      case base
      then show ?case using res(4) that(1) by auto
    next
      case (step y z)
      then show ?case using closed [of y z] by (auto simp: step_rel_def)
    qed
    then show ?thesis using that(3) by simp
  qed
  then show "set r = set visited \<union> reached skip succs (set queue)" using res(2,3) unfolding reached_def by auto
qed

lemma worklist_set:
  assumes "worklist skip succs [] queue = Some r"
  shows "distinct r" and "set r = reached skip succs (set queue)"
  using worklist_from [OF assms] by (simp_all add: explored_def)

text \<open>On nodes that are not skipped, with successors that are the edges of a relation.\<close>

lemma reached_unskipped:
  assumes "S \<subseteq> N" and "\<And>x. x \<in> N \<Longrightarrow> \<not> skip x" and "\<And>x. x \<in> N \<Longrightarrow> set (succs x) = E `` {x}" and "E \<subseteq> N \<times> N"
  shows "reached skip succs S = E\<^sup>* `` S"
proof -
  have "(x, y) \<in> (step_rel skip succs)\<^sup>* \<longleftrightarrow> (x, y) \<in> E\<^sup>*" if "x \<in> N" for x y
  proof
    assume "(x, y) \<in> (step_rel skip succs)\<^sup>*"
    then have "(x, y) \<in> E\<^sup>* \<and> y \<in> N"
    proof (induction rule: rtrancl_induct)
      case (step y z)
      then have "(y, z) \<in> E" using assms(2,3) by (auto simp: step_rel_def)
      then show ?case using step.IH assms(4) by (auto intro: rtrancl_into_rtrancl)
    qed (use that in simp)
    then show "(x, y) \<in> E\<^sup>*" ..
  next
    assume "(x, y) \<in> E\<^sup>*"
    then have "(x, y) \<in> (step_rel skip succs)\<^sup>* \<and> y \<in> N"
    proof (induction rule: rtrancl_induct)
      case (step y z)
      then have "(y, z) \<in> step_rel skip succs" using assms(2-4) by (auto simp: step_rel_def)
      then show ?case using step assms(4) by (auto intro: rtrancl_into_rtrancl)
    qed (use that in simp)
    then show "(x, y) \<in> (step_rel skip succs)\<^sup>*" ..
  qed
  moreover have "y \<in> N" if "(x, y) \<in> E\<^sup>*" "x \<in> N" for x y
    using that by (induction rule: rtrancl_induct) (use assms(4) in auto)
  ultimately have "\<not> skip y \<and> (\<exists>x \<in> S. (x, y) \<in> (step_rel skip succs)\<^sup>*) \<longleftrightarrow> (\<exists>x \<in> S. (x, y) \<in> E\<^sup>*)" for y
    using assms(1,2) by (meson subsetD)
  then show ?thesis by (auto simp: reached_def)
qed

lemmas reached_relation = reached_unskipped [where skip = "\<lambda>_. False", simplified]

lemma worklist_relation:
  assumes "finite N" and "set queue \<subseteq> N" and "\<And>x. x \<in> N \<Longrightarrow> \<not> skip x"
    and "\<And>x. x \<in> N \<Longrightarrow> set (succs x) = E `` {x}" and "E \<subseteq> N \<times> N"
  obtains r where "worklist skip succs [] queue = Some r" and "distinct r" and "set r = E\<^sup>* `` set queue"
proof -
  have "\<exists>r. worklist skip succs [] queue = Some r"
    using assms by (intro worklist_total [of N]) auto
  then obtain r where r: "worklist skip succs [] queue = Some r" ..
  moreover have "reached skip succs (set queue) = E\<^sup>* `` set queue" by (rule reached_unskipped) (use assms in auto)
  ultimately show ?thesis using worklist_set [OF r] that by simp
qed

end
