(* ===== verification/Graphology.thy ===== *)
theory Graphology
  imports Js_Value Traversal
begin

text \<open>
  The directed graphs of the package \<open>graphology\<close> and the functions of
  \<open>graphology-operators\<close>, \<open>graphology-traversal\<close> and \<open>graphology-shortest-path\<close> the tracer
  code calls. The packages are not part of the repository: \<open>graphology\<close> is the record of their
  functions, an argument of every definition that uses one, and the locale \<open>graphology_laws\<close>
  states what their documentation says of them. A graph is a value; a function that changes
  a graph returns the changed one, and \<open>copy\<close> is the identity.

  \<open>list_graphology\<close> is an implementation of the laws by two association lists.
\<close>

type_synonym attributes = "(jstring, jsval) jmap"

section \<open>The functions\<close>

record 'g graphology =
  for_each_node :: "'g \<Rightarrow> (jstring \<times> attributes) list"
  for_each_edge :: "'g \<Rightarrow> (attributes \<times> jstring \<times> jstring) list"
  out_neighbors :: "'g \<Rightarrow> jstring \<Rightarrow> jstring list"
  in_neighbors :: "'g \<Rightarrow> jstring \<Rightarrow> jstring list"
  has_node :: "'g \<Rightarrow> jstring \<Rightarrow> bool"
  has_edge :: "'g \<Rightarrow> jstring \<Rightarrow> jstring \<Rightarrow> bool"
  get_node_attribute :: "'g \<Rightarrow> jstring \<Rightarrow> jstring \<Rightarrow> jsval"
  get_node_attributes :: "'g \<Rightarrow> jstring \<Rightarrow> attributes"
  new_graph :: 'g
  merge_node :: "jstring \<Rightarrow> attributes \<Rightarrow> 'g \<Rightarrow> 'g"
  merge_edge :: "jstring \<Rightarrow> jstring \<Rightarrow> attributes \<Rightarrow> 'g \<Rightarrow> 'g"
  drop_node :: "jstring \<Rightarrow> 'g \<Rightarrow> 'g"
  subgraph :: "'g \<Rightarrow> (jstring \<Rightarrow> attributes \<Rightarrow> bool) \<Rightarrow> 'g"
  bfs_from_node :: "'g \<Rightarrow> jstring \<Rightarrow> bool \<Rightarrow> jstring list"
  bidirectional :: "'g \<Rightarrow> jstring \<Rightarrow> jstring \<Rightarrow> jstring list option"

text \<open>What a graph is, apart from the order of its enumerations.\<close>

definition node_map :: "('g, 'z) graphology_scheme \<Rightarrow> 'g \<Rightarrow> jstring \<Rightarrow> attributes option" where
  "node_map G g = map_of (for_each_node G g)"

definition edge_map :: "('g, 'z) graphology_scheme \<Rightarrow> 'g \<Rightarrow> jstring \<times> jstring \<Rightarrow> attributes option" where
  "edge_map G g = map_of (map (\<lambda>(a, s, t). ((s, t), a)) (for_each_edge G g))"

abbreviation nodes_of :: "('g, 'z) graphology_scheme \<Rightarrow> 'g \<Rightarrow> jstring set" where
  "nodes_of G g \<equiv> dom (node_map G g)"

abbreviation edges_of_graph :: "('g, 'z) graphology_scheme \<Rightarrow> 'g \<Rightarrow> (jstring \<times> jstring) set" where
  "edges_of_graph G g \<equiv> dom (edge_map G g)"

text \<open>The attributes after a merge: the new ones are assigned to the old object.\<close>

definition merge_attributes :: "attributes option \<Rightarrow> attributes \<Rightarrow> attributes" where
  "merge_attributes old a = (case old of None \<Rightarrow> a | Some b \<Rightarrow> fold (\<lambda>(k, v). obj_set k v) a b)"

definition restrict_edges :: "jstring set \<Rightarrow> (jstring \<times> jstring \<Rightarrow> 'a option) \<Rightarrow> jstring \<times> jstring \<Rightarrow> 'a option" where
  "restrict_edges S m = m |` (S \<times> S)"

section \<open>The laws\<close>

locale graphology_laws =
  fixes G :: "('g, 'z) graphology_scheme"
  assumes nodes_distinct: "distinct (map fst (for_each_node G g))"
    and edges_distinct: "distinct (map snd (for_each_edge G g))"
    and edge_ends: "edges_of_graph G g \<subseteq> nodes_of G g \<times> nodes_of G g"
    and out_neighbors: "x \<in> nodes_of G g \<Longrightarrow> set (out_neighbors G g x) = edges_of_graph G g `` {x}"
    and in_neighbors: "x \<in> nodes_of G g \<Longrightarrow> set (in_neighbors G g x) = (edges_of_graph G g)\<inverse> `` {x}"
    and has_node: "has_node G g x \<longleftrightarrow> x \<in> nodes_of G g"
    and has_edge: "has_edge G g x y \<longleftrightarrow> (x, y) \<in> edges_of_graph G g"
    and node_attributes: "node_map G g x = Some a \<Longrightarrow> get_node_attributes G g x = a"
    and node_attribute: "node_map G g x = Some a \<Longrightarrow> get_node_attribute G g x k = js_prop (JObj a) k"
    and new_graph: "for_each_node G (new_graph G) = []" "for_each_edge G (new_graph G) = []"
    and merge_node: "node_map G (merge_node G x a g) = (node_map G g)(x \<mapsto> merge_attributes (node_map G g x) a)"
      "edge_map G (merge_node G x a g) = edge_map G g"
    and merge_edge: "x \<in> nodes_of G g \<Longrightarrow> y \<in> nodes_of G g \<Longrightarrow> node_map G (merge_edge G x y a g) = node_map G g"
      "x \<in> nodes_of G g \<Longrightarrow> y \<in> nodes_of G g \<Longrightarrow>
        edge_map G (merge_edge G x y a g) = (edge_map G g)((x, y) \<mapsto> merge_attributes (edge_map G g (x, y)) a)"
    and drop_node: "x \<in> nodes_of G g \<Longrightarrow> node_map G (drop_node G x g) = (node_map G g)(x := None)"
      "x \<in> nodes_of G g \<Longrightarrow> edge_map G (drop_node G x g) = restrict_edges (- {x}) (edge_map G g)"
    and subgraph: "node_map G (subgraph G g keep) x = (case node_map G g x of None \<Rightarrow> None
        | Some a \<Rightarrow> if keep x a then Some a else None)"
      "edge_map G (subgraph G g keep) = restrict_edges (nodes_of G (subgraph G g keep)) (edge_map G g)"
    and bfs: "x \<in> nodes_of G g \<Longrightarrow> set (bfs_from_node G g x outbound) =
        (if outbound then (edges_of_graph G g)\<^sup>* else ((edges_of_graph G g)\<inverse>)\<^sup>*) `` {x}"
    and path_nodes: "bidirectional G g x y = Some p \<Longrightarrow> set p \<subseteq> nodes_of G g"
begin

lemma node_map_iff: "(x, a) \<in> set (for_each_node G g) \<longleftrightarrow> node_map G g x = Some a"
  by (simp add: node_map_def nodes_distinct)

lemma edge_keys_distinct: "distinct (map fst (map (\<lambda>(a, s, t). ((s, t), a)) (for_each_edge G g)))"
proof -
  have "map fst (map (\<lambda>(a, s, t). ((s, t), a)) (for_each_edge G g)) = map snd (for_each_edge G g)" by auto
  then show ?thesis by (metis edges_distinct)
qed

lemma edge_map_iff: "(a, x, y) \<in> set (for_each_edge G g) \<longleftrightarrow> edge_map G g (x, y) = Some a"
  unfolding edge_map_def by (subst map_of_eq_Some_iff [OF edge_keys_distinct]) force

lemma nodes_of_set: "nodes_of G g = fst ` set (for_each_node G g)"
  by (simp add: node_map_def dom_map_of_conv_image_fst)

lemma edges_of_set: "edges_of_graph G g = snd ` set (for_each_edge G g)"
  by (force simp: edge_map_iff [symmetric] image_iff)

lemma finite_nodes [simp]: "finite (nodes_of G g)"
  by (simp add: nodes_of_set)

lemma finite_edges [simp]: "finite (edges_of_graph G g)"
  by (simp add: edges_of_set)

lemma new_maps [simp]: "node_map G (new_graph G) = Map.empty" "edge_map G (new_graph G) = Map.empty"
  by (simp_all add: node_map_def edge_map_def new_graph)

lemma edge_ends': "(x, y) \<in> edges_of_graph G g \<Longrightarrow> x \<in> nodes_of G g \<and> y \<in> nodes_of G g"
  using edge_ends by blast

lemma edge_map_None: "x \<notin> nodes_of G g \<or> y \<notin> nodes_of G g \<Longrightarrow> edge_map G g (x, y) = None"
  using edge_ends' [of x y g] by (cases "edge_map G g (x, y)") auto

end

section \<open>A list implementation\<close>

definition lgraph_inv :: "(jstring \<times> attributes) list \<times> (attributes \<times> jstring \<times> jstring) list \<Rightarrow> bool" where
  "lgraph_inv g \<longleftrightarrow> distinct (map fst (fst g)) \<and> distinct (map snd (snd g))
     \<and> snd ` set (snd g) \<subseteq> (fst ` set (fst g)) \<times> (fst ` set (fst g))"

typedef lgraph = "{g. lgraph_inv g}"
  by (rule exI [of _ "([], [])"]) (simp add: lgraph_inv_def)

setup_lifting type_definition_lgraph

text \<open>Edges with their ends as key, to reuse the operations of association lists.\<close>

definition keyed :: "(attributes \<times> jstring \<times> jstring) list \<Rightarrow> ((jstring \<times> jstring) \<times> attributes) list" where
  "keyed es = map (\<lambda>(a, s, t). ((s, t), a)) es"

definition unkeyed :: "((jstring \<times> jstring) \<times> attributes) list \<Rightarrow> (attributes \<times> jstring \<times> jstring) list" where
  "unkeyed kes = map (\<lambda>((s, t), a). (a, s, t)) kes"

lemma keyed_inverse [simp]: "keyed (unkeyed kes) = kes" "unkeyed (keyed es) = es"
  by (auto simp: keyed_def unkeyed_def intro!: map_idI)

lemma keyed_keys [simp]: "map snd (unkeyed kes) = map fst kes" "map fst (keyed es) = map snd es"
  by (auto simp: keyed_def unkeyed_def)

lemma set_unkeyed: "(a, s, t) \<in> set (unkeyed kes) \<longleftrightarrow> ((s, t), a) \<in> set kes"
  by (force simp: unkeyed_def)

lemma set_keyed: "((s, t), a) \<in> set (keyed es) \<longleftrightarrow> (a, s, t) \<in> set es"
  by (force simp: keyed_def)

lemma in_update: "(k, v) \<in> set (AList.update k' w kvs) \<Longrightarrow> k = k' \<or> (k, v) \<in> set kvs"
  by (induction kvs) (auto split: if_splits)

definition put_node :: "jstring \<Rightarrow> attributes \<Rightarrow> (jstring \<times> attributes) list \<Rightarrow> (jstring \<times> attributes) list" where
  "put_node x a ns = AList.update x (merge_attributes (map_of ns x) a) ns"

definition put_edge ::
    "jstring \<Rightarrow> jstring \<Rightarrow> attributes \<Rightarrow> (attributes \<times> jstring \<times> jstring) list \<Rightarrow> (attributes \<times> jstring \<times> jstring) list" where
  "put_edge s t a es = unkeyed (AList.update (s, t) (merge_attributes (map_of (keyed es) (s, t)) a) (keyed es))"

lemma inv_put_node: "lgraph_inv (ns, es) \<Longrightarrow> lgraph_inv (put_node x a ns, es)"
  unfolding lgraph_inv_def put_node_def by (auto simp: distinct_update dom_update)

lemma inv_put_edge:
  assumes "lgraph_inv (ns, es)" and "x \<in> fst ` set ns" and "y \<in> fst ` set ns"
  shows "lgraph_inv (ns, put_edge x y a es)"
proof -
  have "snd ` set (put_edge x y a es) \<subseteq> insert (x, y) (snd ` set es)"
    using in_update [of _ _ "(x, y)" _ "keyed es"] by (force simp: put_edge_def set_unkeyed set_keyed)
  then show ?thesis using assms unfolding lgraph_inv_def
    by (auto simp: put_edge_def distinct_update)
qed

lemma inv_filter:
  assumes "lgraph_inv (ns, es)"
  shows "lgraph_inv (filter P ns, filter (\<lambda>(_, s, t). s \<in> fst ` set (filter P ns) \<and> t \<in> fst ` set (filter P ns)) es)"
  using assms unfolding lgraph_inv_def by (force simp: distinct_map_filter)

definition induced :: "((jstring \<times> attributes) \<Rightarrow> bool) \<Rightarrow>
    (jstring \<times> attributes) list \<times> (attributes \<times> jstring \<times> jstring) list \<Rightarrow>
    (jstring \<times> attributes) list \<times> (attributes \<times> jstring \<times> jstring) list" where
  "induced P g = (let ns = filter P (fst g)
     in (ns, filter (\<lambda>(_, s, t). s \<in> fst ` set ns \<and> t \<in> fst ` set ns) (snd g)))"

lift_definition lg_nodes :: "lgraph \<Rightarrow> (jstring \<times> attributes) list" is fst .
lift_definition lg_edges :: "lgraph \<Rightarrow> (attributes \<times> jstring \<times> jstring) list" is snd .

lift_definition lg_new :: lgraph is "([], [])" by (simp add: lgraph_inv_def)

lift_definition lg_merge_node :: "jstring \<Rightarrow> attributes \<Rightarrow> lgraph \<Rightarrow> lgraph" is
  "\<lambda>x a g. (put_node x a (fst g), snd g)"
  using inv_put_node by simp

lift_definition lg_merge_edge :: "jstring \<Rightarrow> jstring \<Rightarrow> attributes \<Rightarrow> lgraph \<Rightarrow> lgraph" is
  "\<lambda>x y a g. if x \<in> fst ` set (fst g) \<and> y \<in> fst ` set (fst g) then (fst g, put_edge x y a (snd g)) else g"
  using inv_put_edge by simp

lift_definition lg_induced :: "((jstring \<times> attributes) \<Rightarrow> bool) \<Rightarrow> lgraph \<Rightarrow> lgraph" is induced
  using inv_filter by (simp add: induced_def Let_def)

text \<open>The searches of the implementation: the worklist loop itself.\<close>

definition lg_out :: "lgraph \<Rightarrow> jstring \<Rightarrow> jstring list" where
  "lg_out g x = map (snd \<circ> snd) (filter (\<lambda>(_, s, _). s = x) (lg_edges g))"

definition lg_in :: "lgraph \<Rightarrow> jstring \<Rightarrow> jstring list" where
  "lg_in g x = map (fst \<circ> snd) (filter (\<lambda>(_, _, t). t = x) (lg_edges g))"

definition lg_attributes :: "lgraph \<Rightarrow> jstring \<Rightarrow> attributes" where
  "lg_attributes g x = (case map_of (lg_nodes g) x of None \<Rightarrow> [] | Some a \<Rightarrow> a)"

definition lg_bfs :: "lgraph \<Rightarrow> jstring \<Rightarrow> bool \<Rightarrow> jstring list" where
  "lg_bfs g x outbound =
     (case worklist (\<lambda>_. False) (if outbound then lg_out g else lg_in g) [] [x] of None \<Rightarrow> [] | Some r \<Rightarrow> r)"

text \<open>A shortest path: the paths of one length after the other, without a repeated node.\<close>

fun lg_extend :: "lgraph \<Rightarrow> nat \<Rightarrow> jstring \<Rightarrow> jstring list list \<Rightarrow> jstring list option" where
  "lg_extend g 0 y paths = None"
| "lg_extend g (Suc n) y paths =
     (case filter (\<lambda>p. hd p = y) paths of
        p # _ \<Rightarrow> Some (rev p)
      | [] \<Rightarrow> lg_extend g n y (concat (map (\<lambda>p. map (\<lambda>z. z # p) (filter (\<lambda>z. z \<notin> set p) (lg_out g (hd p)))) paths)))"

definition lg_bidirectional :: "lgraph \<Rightarrow> jstring \<Rightarrow> jstring \<Rightarrow> jstring list option" where
  "lg_bidirectional g x y =
     (if x \<in> fst ` set (lg_nodes g) then lg_extend g (Suc (length (lg_nodes g))) y [[x]] else None)"

definition list_graphology :: "lgraph graphology" where
  "list_graphology =
     \<lparr>for_each_node = lg_nodes, for_each_edge = lg_edges, out_neighbors = lg_out, in_neighbors = lg_in,
      has_node = (\<lambda>g x. x \<in> fst ` set (lg_nodes g)), has_edge = (\<lambda>g x y. (x, y) \<in> snd ` set (lg_edges g)),
      get_node_attribute = (\<lambda>g x k. js_prop (JObj (lg_attributes g x)) k), get_node_attributes = lg_attributes,
      new_graph = lg_new, merge_node = lg_merge_node, merge_edge = lg_merge_edge,
      drop_node = (\<lambda>x. lg_induced (\<lambda>(y, _). y \<noteq> x)), subgraph = (\<lambda>g keep. lg_induced (\<lambda>(x, a). keep x a) g),
      bfs_from_node = lg_bfs, bidirectional = lg_bidirectional\<rparr>"

subsection \<open>The laws hold\<close>

lemma lg_inv: "lgraph_inv (lg_nodes g, lg_edges g)"
  by transfer simp

lemma lg_distinct: "distinct (map fst (lg_nodes g))" "distinct (map snd (lg_edges g))"
  using lg_inv [of g] by (simp_all add: lgraph_inv_def)

lemma lg_maps: "node_map list_graphology g = map_of (lg_nodes g)"
  "edge_map list_graphology g = map_of (keyed (lg_edges g))"
  by (simp_all add: node_map_def edge_map_def list_graphology_def keyed_def)

lemma lg_doms: "dom (map_of (lg_nodes g)) = fst ` set (lg_nodes g)"
  "dom (map_of (keyed (lg_edges g))) = snd ` set (lg_edges g)"
  by (simp_all add: dom_map_of_conv_image_fst) (force simp: keyed_def)

lemma lg_edge_iff: "(x, y) \<in> snd ` set (lg_edges g) \<longleftrightarrow> (\<exists>a. (a, x, y) \<in> set (lg_edges g))"
  by force

lemma set_lg_out: "set (lg_out g x) = (snd ` set (lg_edges g)) `` {x}"
  by (force simp: lg_out_def)

lemma set_lg_in: "set (lg_in g x) = (snd ` set (lg_edges g))\<inverse> `` {x}"
  by (force simp: lg_in_def)

lemma lg_edges_nodes: "snd ` set (lg_edges g) \<subseteq> (fst ` set (lg_nodes g)) \<times> (fst ` set (lg_nodes g))"
  using lg_inv [of g] by (simp add: lgraph_inv_def)

lemma lg_merge_node_maps:
  "map_of (lg_nodes (lg_merge_node x a g)) = (map_of (lg_nodes g))(x \<mapsto> merge_attributes (map_of (lg_nodes g) x) a)"
  "lg_edges (lg_merge_node x a g) = lg_edges g"
  by (transfer, simp add: put_node_def update_conv')+

lemma lg_merge_edge_maps:
  assumes "x \<in> fst ` set (lg_nodes g)" and "y \<in> fst ` set (lg_nodes g)"
  shows "lg_nodes (lg_merge_edge x y a g) = lg_nodes g"
    and "map_of (keyed (lg_edges (lg_merge_edge x y a g))) =
      (map_of (keyed (lg_edges g)))((x, y) \<mapsto> merge_attributes (map_of (keyed (lg_edges g)) (x, y)) a)"
  using assms by (transfer, simp add: put_edge_def update_conv')+

lemma lg_induced_lists:
  "lg_nodes (lg_induced P g) = filter P (lg_nodes g)"
  "lg_edges (lg_induced P g) =
     filter (\<lambda>(_, s, t). s \<in> fst ` set (lg_nodes (lg_induced P g)) \<and> t \<in> fst ` set (lg_nodes (lg_induced P g))) (lg_edges g)"
  by (transfer, simp add: induced_def Let_def)+

lemma map_of_filter_keep: "distinct (map fst kvs) \<Longrightarrow>
    map_of (filter (\<lambda>(x, a). P x a) kvs) x = (case map_of kvs x of None \<Rightarrow> None | Some a \<Rightarrow> if P x a then Some a else None)"
  by (induction kvs) (auto simp: map_of_eq_None_iff split: option.splits if_splits)

lemma keyed_filter: "keyed (filter (\<lambda>(_, s, t). P s t) es) = filter (\<lambda>((s, t), _). P s t) (keyed es)"
  by (induction es) (auto simp: keyed_def)

lemma lg_induced_edges:
  "map_of (keyed (lg_edges (lg_induced P g))) =
     restrict_edges (fst ` set (lg_nodes (lg_induced P g))) (map_of (keyed (lg_edges g)))"
proof
  fix p :: "jstring \<times> jstring"
  obtain s t where p: "p = (s, t)" by force
  have filter: "map_of (filter (\<lambda>(p, _). Q p) kvs) (s, t) = (if Q (s, t) then map_of kvs (s, t) else None)"
    for Q and kvs :: "((jstring \<times> jstring) \<times> attributes) list"
    by (induction kvs) auto
  let ?N = "fst ` set (lg_nodes (lg_induced P g))"
  have "keyed (lg_edges (lg_induced P g)) = filter (\<lambda>(p, _). fst p \<in> ?N \<and> snd p \<in> ?N) (keyed (lg_edges g))"
    by (subst lg_induced_lists(2), subst keyed_filter) (simp add: case_prod_unfold)
  then show "map_of (keyed (lg_edges (lg_induced P g))) p = restrict_edges ?N (map_of (keyed (lg_edges g))) p"
    by (simp add: filter [of "\<lambda>p. fst p \<in> ?N \<and> snd p \<in> ?N"] restrict_edges_def restrict_map_def p)
qed

lemma lg_bfs_set:
  assumes "x \<in> fst ` set (lg_nodes g)"
  shows "set (lg_bfs g x outbound) = (if outbound then (snd ` set (lg_edges g))\<^sup>* else ((snd ` set (lg_edges g))\<inverse>)\<^sup>*) `` {x}"
proof -
  let ?next = "if outbound then lg_out g else lg_in g"
  let ?E = "if outbound then snd ` set (lg_edges g) else (snd ` set (lg_edges g))\<inverse>"
  have next_set: "set (?next y) = ?E `` {y}" for y by (simp add: set_lg_out set_lg_in)
  have rel: "step_rel (\<lambda>_. False) ?next = ?E" using next_set by (auto simp: step_rel_def)
  have "\<exists>r. worklist (\<lambda>_. False) ?next [] [x] = Some r"
  proof (rule worklist_total)
    show "finite (fst ` set (lg_nodes g))" by simp
    show "set (?next y) \<subseteq> fst ` set (lg_nodes g)" for y
      using lg_edges_nodes [of g] unfolding next_set by (auto split: if_splits)
  qed (use assms in simp)
  then obtain r where r: "worklist (\<lambda>_. False) ?next [] [x] = Some r" ..
  have "set r = reached (\<lambda>_. False) ?next {x}" using worklist_set(2) [OF r] by simp
  also have "\<dots> = ?E\<^sup>* `` {x}" by (auto simp: reached_def rel)
  finally have "set r = ?E\<^sup>* `` {x}" .
  moreover have "lg_bfs g x outbound = r" unfolding lg_bfs_def r by simp
  ultimately show ?thesis by (cases outbound) simp_all
qed

lemma lg_extend_nodes:
  assumes "lg_extend g n y paths = Some p" and "\<forall>q \<in> set paths. q \<noteq> [] \<and> set q \<subseteq> fst ` set (lg_nodes g)"
  shows "set p \<subseteq> fst ` set (lg_nodes g)"
  using assms
proof (induction n arbitrary: paths)
  case (Suc n)
  show ?case
  proof (cases "filter (\<lambda>p. hd p = y) paths")
    case Nil
    let ?longer = "concat (map (\<lambda>p. map (\<lambda>z. z # p) (filter (\<lambda>z. z \<notin> set p) (lg_out g (hd p)))) paths)"
    have "z \<in> fst ` set (lg_nodes g)" if "z \<in> set (lg_out g w)" for z w
      using that lg_edges_nodes [of g] unfolding set_lg_out by blast
    then have "\<forall>q \<in> set ?longer. q \<noteq> [] \<and> set q \<subseteq> fst ` set (lg_nodes g)"
      using Suc.prems(2) by fastforce
    moreover have "lg_extend g n y ?longer = Some p" using Suc.prems(1) by (simp add: Nil)
    ultimately show ?thesis using Suc.IH by blast
  next
    case (Cons q qs)
    then have "q \<in> set (filter (\<lambda>p. hd p = y) paths)" by simp
    then have "q \<in> set paths" by simp
    then have "set q \<subseteq> fst ` set (lg_nodes g)" using Suc.prems(2) by blast
    then show ?thesis using Suc.prems(1) Cons by auto
  qed
qed simp

interpretation list_graph: graphology_laws list_graphology
proof (unfold_locales)
  fix g x y a k keep p and outbound :: bool
  note lists = list_graphology_def
  show "distinct (map fst (for_each_node list_graphology g))" "distinct (map snd (for_each_edge list_graphology g))"
    by (simp_all add: lists lg_distinct)
  show "edges_of_graph list_graphology g \<subseteq> nodes_of list_graphology g \<times> nodes_of list_graphology g"
    by (simp only: lg_maps lg_doms lg_edges_nodes)
  show "set (out_neighbors list_graphology g x) = edges_of_graph list_graphology g `` {x}"
    "set (in_neighbors list_graphology g x) = (edges_of_graph list_graphology g)\<inverse> `` {x}"
    unfolding lg_maps lg_doms by (simp_all add: lists set_lg_out set_lg_in)
  show "has_node list_graphology g x \<longleftrightarrow> x \<in> nodes_of list_graphology g"
    "has_edge list_graphology g x y \<longleftrightarrow> (x, y) \<in> edges_of_graph list_graphology g"
    unfolding lg_maps lg_doms by (simp_all add: lists)
  show "get_node_attributes list_graphology g x = a" "get_node_attribute list_graphology g x k = js_prop (JObj a) k"
    if "node_map list_graphology g x = Some a"
    using that by (simp_all add: lg_maps) (simp_all add: lists lg_attributes_def)
  show "for_each_node list_graphology (new_graph list_graphology) = []"
    "for_each_edge list_graphology (new_graph list_graphology) = []"
    by (simp_all add: lists) (transfer, simp)+
  show "node_map list_graphology (merge_node list_graphology x a g) =
      (node_map list_graphology g)(x \<mapsto> merge_attributes (node_map list_graphology g x) a)"
    "edge_map list_graphology (merge_node list_graphology x a g) = edge_map list_graphology g"
    unfolding lg_maps by (simp_all add: lists lg_merge_node_maps)
  show "node_map list_graphology (merge_edge list_graphology x y a g) = node_map list_graphology g"
    "edge_map list_graphology (merge_edge list_graphology x y a g) =
      (edge_map list_graphology g)((x, y) \<mapsto> merge_attributes (edge_map list_graphology g (x, y)) a)"
    if "x \<in> nodes_of list_graphology g" "y \<in> nodes_of list_graphology g"
    using lg_merge_edge_maps [of x g y a] that unfolding lg_maps lg_doms by (simp_all add: lists)
  show "node_map list_graphology (subgraph list_graphology g keep) x =
      (case node_map list_graphology g x of None \<Rightarrow> None | Some a \<Rightarrow> if keep x a then Some a else None)"
    unfolding lg_maps by (simp add: lists lg_induced_lists map_of_filter_keep lg_distinct)
  show "edge_map list_graphology (subgraph list_graphology g keep) =
      restrict_edges (nodes_of list_graphology (subgraph list_graphology g keep)) (edge_map list_graphology g)"
    unfolding lg_maps lg_doms by (simp add: lists lg_induced_edges)
  show "set (bfs_from_node list_graphology g x outbound) =
      (if outbound then (edges_of_graph list_graphology g)\<^sup>* else ((edges_of_graph list_graphology g)\<inverse>)\<^sup>*) `` {x}"
    if "x \<in> nodes_of list_graphology g"
    using lg_bfs_set [of x g outbound] that unfolding lg_maps lg_doms by (simp add: lists)
  show "set p \<subseteq> nodes_of list_graphology g" if "bidirectional list_graphology g x y = Some p"
  proof -
    have "lg_bidirectional g x y = Some p" using that by (simp add: lists)
    then show ?thesis unfolding lg_maps lg_doms
      using lg_extend_nodes [of g _ y "[[x]]" p] by (auto simp: lg_bidirectional_def split: if_splits simp del: lg_extend.simps)
  qed
  assume "x \<in> nodes_of list_graphology g"
  show "node_map list_graphology (drop_node list_graphology x g) = (node_map list_graphology g)(x := None)"
    unfolding lg_maps by (simp add: lists lg_induced_lists map_of_filter_keep [of _ "\<lambda>y _. y \<noteq> x"] lg_distinct fun_eq_iff split: option.splits)
  show "edge_map list_graphology (drop_node list_graphology x g) = restrict_edges (- {x}) (edge_map list_graphology g)"
  proof -
    have "fst ` set (lg_nodes (lg_induced (\<lambda>(y, _). y \<noteq> x) g)) = fst ` set (lg_nodes g) - {x}"
      by (auto simp: lg_induced_lists)
    moreover have "dom (map_of (keyed (lg_edges g))) \<subseteq> (fst ` set (lg_nodes g)) \<times> (fst ` set (lg_nodes g))"
      by (simp only: lg_doms lg_edges_nodes)
    then have "map_of (keyed (lg_edges g)) (u, v) = None"
      if "u \<notin> fst ` set (lg_nodes g) \<or> v \<notin> fst ` set (lg_nodes g)" for u v
      using that by blast
    ultimately show ?thesis
      unfolding lg_maps by (simp add: lists lg_induced_edges restrict_edges_def) (simp add: restrict_map_def fun_eq_iff)
  qed
qed

end
