(* ===== verification/Logic_Unify.thy ===== *)
theory Logic_Unify
  imports Js_Value
begin

text \<open>
  The logic variables, substitutions and unification of \<open>compiler/tracer/graph_relations.ts\<close>.
  Terms are values; a logic variable is an object with the type \<open>logic-var\<close> and a numeric
  id. A substitution is a \<open>Map\<close> from ids. There is no occurs check, so a substitution can be
  cyclic and resolution, unification and reification need not end: they take fuel, and
  running out of it is a result of its own (\<open>OutOfFuel\<close>, or \<open>None\<close>).

  The lemmas give unification its meaning: a valuation of the variables is a solution of the
  resulting substitution exactly when it solves the old one and makes both terms equal, up to
  the order of the keys of objects.
\<close>

section \<open>Logic variables\<close>

definition is_plain_object :: "jsval \<Rightarrow> bool" where
  "is_plain_object v = (case v of JObj _ \<Rightarrow> True | _ \<Rightarrow> False)"

text \<open>The id of a logic variable.\<close>

definition logic_id :: "jsval \<Rightarrow> jsnum option" where
  "logic_id v =
     (case v of
        JObj kvs \<Rightarrow>
          if map_of kvs ''type'' = Some (JStr ''logic-var'')
          then (case map_of kvs ''id'' of Some (JNum i) \<Rightarrow> Some i | _ \<Rightarrow> None)
          else None
      | _ \<Rightarrow> None)"

definition is_logic_var :: "jsval \<Rightarrow> bool" where
  "is_logic_var v \<longleftrightarrow> logic_id v \<noteq> None"

definition make_logic_var :: "nat \<Rightarrow> jstring option \<Rightarrow> jsval" where
  "make_logic_var n name =
     JObj ([(''type'', JStr ''logic-var''), (''id'', JNum (num_of_int (int n)))]
       @ (case name of None \<Rightarrow> [] | Some s \<Rightarrow> [(''name'', JStr s)]))"

text \<open>The module counter \<open>next_logic_var_id\<close> is an argument and a result.\<close>

definition logic_var :: "jstring option \<Rightarrow> nat \<Rightarrow> jsval \<times> nat" where
  "logic_var name next_logic_var_id = (make_logic_var next_logic_var_id name, next_logic_var_id + 1)"

section \<open>Substitutions\<close>

type_synonym substitution = "(jsnum, jsval) jmap"

text \<open>The key of a number in a \<open>Map\<close>, and \<open>===\<close> on numbers.\<close>

definition map_key :: "jsnum \<Rightarrow> jsnum" where
  "map_key i = (if i = NegZero then Dec 0 0 else i)"

definition num_strict_eq :: "jsnum \<Rightarrow> jsnum \<Rightarrow> bool" where
  "num_strict_eq a b \<longleftrightarrow> a \<noteq> NaN \<and> map_key a = map_key b"

fun resolve_var :: "nat \<Rightarrow> jsval \<Rightarrow> substitution \<Rightarrow> jsval option" where
  "resolve_var 0 term s = None"
| "resolve_var (Suc n) term s =
     (case logic_id term of
        None \<Rightarrow> Some term
      | Some i \<Rightarrow> (case map_of s (map_key i) of None \<Rightarrow> Some term | Some u \<Rightarrow> resolve_var n u s))"

definition bind_var :: "jsnum \<Rightarrow> jsval \<Rightarrow> substitution \<Rightarrow> substitution" where
  "bind_var i v s = AList.update (map_key i) v s"

text \<open>\<open>resolve\<close> and \<open>reify\<close> have the same body.\<close>

fun resolve :: "nat \<Rightarrow> jsval \<Rightarrow> substitution \<Rightarrow> jsval option" where
  "resolve 0 term s = None"
| "resolve (Suc n) term s =
     (case resolve_var (Suc n) term s of
        None \<Rightarrow> None
      | Some (JArr items) \<Rightarrow> map_option JArr (those (map (\<lambda>item. resolve n item s) items))
      | Some (JObj kvs) \<Rightarrow>
          map_option JObj (those (map (\<lambda>(key, v). map_option (Pair key) (resolve n v s)) kvs))
      | Some v \<Rightarrow> Some v)"

fun reify :: "nat \<Rightarrow> jsval \<Rightarrow> substitution \<Rightarrow> jsval option" where
  "reify 0 term s = None"
| "reify (Suc n) term s =
     (case resolve_var (Suc n) term s of
        None \<Rightarrow> None
      | Some (JArr items) \<Rightarrow> map_option JArr (those (map (\<lambda>item. reify n item s) items))
      | Some (JObj kvs) \<Rightarrow>
          map_option JObj (those (map (\<lambda>(key, v). map_option (Pair key) (reify n v s)) kvs))
      | Some v \<Rightarrow> Some v)"

lemma resolve_reify: "resolve n t s = reify n t s"
proof (induction n arbitrary: t)
  case (Suc n)
  show ?case by (simp add: Suc split: option.split jsval.split)
qed simp

section \<open>Unification\<close>

datatype unification = OutOfFuel | Clash | Unifies substitution

fun unify :: "nat \<Rightarrow> jsval \<Rightarrow> jsval \<Rightarrow> substitution \<Rightarrow> unification"
  and unify_list :: "nat \<Rightarrow> (jsval \<times> jsval) list \<Rightarrow> substitution \<Rightarrow> unification" where
  "unify 0 l r s = OutOfFuel"
| "unify (Suc n) l r s =
     (case (resolve_var (Suc n) l s, resolve_var (Suc n) r s) of
        (Some a, Some b) \<Rightarrow>
          (case (logic_id a, logic_id b) of
             (Some i, Some j) \<Rightarrow> if num_strict_eq i j then Unifies s else Unifies (bind_var i b s)
           | (Some i, None) \<Rightarrow> Unifies (bind_var i b s)
           | (None, Some j) \<Rightarrow> Unifies (bind_var j a s)
           | (None, None) \<Rightarrow>
               (case (a, b) of
                  (JArr xs, JArr ys) \<Rightarrow> if length xs \<noteq> length ys then Clash else unify_list n (zip xs ys) s
                | (JObj kvs, JObj kws) \<Rightarrow>
                    if length kvs \<noteq> length kws then Clash
                    else if \<not> list_all (\<lambda>(key, _). key \<in> set (map fst kws)) kvs then Clash
                    else unify_list n (map (\<lambda>(key, v). (v, js_prop b key)) kvs) s
                | _ \<Rightarrow> if a = b then Unifies s else Clash))
      | _ \<Rightarrow> OutOfFuel)"
| "unify_list n [] s = Unifies s"
| "unify_list n ((a, b) # pairs) s =
     (case unify n a b s of Unifies s' \<Rightarrow> unify_list n pairs s' | r \<Rightarrow> r)"

section \<open>Meaning\<close>

text \<open>Values without variables, objects as finite maps.\<close>

datatype gval = GPrim jsval | GArr "gval list" | GObj "jstring \<Rightarrow> gval option"

fun inst :: "(jsnum \<Rightarrow> gval) \<Rightarrow> jsval \<Rightarrow> gval" where
  "inst \<rho> (JArr vs) = GArr (map (inst \<rho>) vs)"
| "inst \<rho> (JObj kvs) =
     (case logic_id (JObj kvs) of
        Some i \<Rightarrow> \<rho> (map_key i)
      | None \<Rightarrow> GObj (map_of (map (\<lambda>kv. (fst kv, inst \<rho> (snd kv))) kvs)))"
| "inst \<rho> v = GPrim v"

text \<open>Objects have unique keys.\<close>

fun wf_term :: "jsval \<Rightarrow> bool" where
  "wf_term (JArr vs) \<longleftrightarrow> (\<forall>v \<in> set vs. wf_term v)"
| "wf_term (JObj kvs) \<longleftrightarrow> distinct (map fst kvs) \<and> (\<forall>kv \<in> set kvs. wf_term (snd kv))"
| "wf_term v \<longleftrightarrow> True"

definition wf_subst :: "substitution \<Rightarrow> bool" where
  "wf_subst s \<longleftrightarrow> (\<forall>i t. map_of s i = Some t \<longrightarrow> wf_term t)"

definition solves :: "(jsnum \<Rightarrow> gval) \<Rightarrow> substitution \<Rightarrow> bool" where
  "solves \<rho> s \<longleftrightarrow> (\<forall>i t. map_of s i = Some t \<longrightarrow> \<rho> i = inst \<rho> t)"

lemma logic_id_obj: "logic_id v = Some i \<Longrightarrow> \<exists>kvs. v = JObj kvs"
  by (auto simp: logic_id_def split: jsval.splits)

lemma inst_var: "logic_id v = Some i \<Longrightarrow> inst \<rho> v = \<rho> (map_key i)"
  using logic_id_obj [of v i] by auto

lemma inst_obj: "logic_id (JObj kvs) = None \<Longrightarrow> inst \<rho> (JObj kvs) = GObj (map_option (inst \<rho>) \<circ> map_of kvs)"
  by (simp add: case_prod_unfold [symmetric] map_of_map [symmetric] fun_eq_iff) (simp add: map_of_map comp_def split_def)

lemma resolve_var_inst:
  "resolve_var n t s = Some a \<Longrightarrow> solves \<rho> s \<Longrightarrow> inst \<rho> a = inst \<rho> t"
  by (induction n t s rule: resolve_var.induct) (auto simp: inst_var solves_def split: option.splits)

lemma resolve_var_unbound:
  "resolve_var n t s = Some a \<Longrightarrow> logic_id a = Some i \<Longrightarrow> map_of s (map_key i) = None"
  by (induction n t s rule: resolve_var.induct) (auto split: option.splits)

lemma resolve_var_wf:
  "resolve_var n t s = Some a \<Longrightarrow> wf_subst s \<Longrightarrow> wf_term t \<Longrightarrow> wf_term a"
  by (induction n t s rule: resolve_var.induct) (auto simp: wf_subst_def split: option.splits)

lemma solves_bind:
  "map_of s (map_key i) = None \<Longrightarrow> solves \<rho> (bind_var i v s) \<longleftrightarrow> solves \<rho> s \<and> \<rho> (map_key i) = inst \<rho> v"
  unfolding solves_def bind_var_def by (auto simp: update_conv')

lemma wf_subst_bind: "wf_subst s \<Longrightarrow> wf_term v \<Longrightarrow> wf_subst (bind_var i v s)"
  unfolding wf_subst_def bind_var_def by (auto simp: update_conv')

lemma key_compare:
  assumes "distinct (map fst kvs)" and "distinct (map fst kws)" and "length kvs = length kws"
    and "list_all (\<lambda>(key, _). key \<in> set (map fst kws)) kvs"
  shows "fst ` set kvs = fst ` set kws"
proof (rule card_subset_eq)
  show "fst ` set kvs \<subseteq> fst ` set kws" using assms(4) by (auto simp: list_all_iff)
  have "card (set (map fst kvs)) = card (set (map fst kws))"
    using assms(1-3) by (simp only: distinct_card length_map)
  then show "card (fst ` set kvs) = card (fst ` set kws)" by simp
qed simp

lemma keys_of_equal:
  assumes "distinct (map fst kvs)" and "distinct (map fst kws)"
    and "map_option f \<circ> map_of kvs = map_option f \<circ> map_of kws"
  shows "fst ` set kvs = fst ` set kws" and "length kvs = length kws"
proof -
  have "map_of kvs k = None \<longleftrightarrow> map_of kws k = None" for k
    using fun_cong [OF assms(3), of k] by auto
  then show keys: "fst ` set kvs = fst ` set kws"
    by (auto simp: map_of_eq_None_iff)
  have "length (map fst kvs) = card (set (map fst kvs))" "length (map fst kws) = card (set (map fst kws))"
    by (simp_all only: distinct_card assms(1,2))
  then show "length kvs = length kws" using keys by simp
qed

lemma inst_obj_eq:
  assumes "distinct (map fst kvs)" and "fst ` set kvs = fst ` set kws"
  shows "map_option (inst \<rho>) \<circ> map_of kvs = map_option (inst \<rho>) \<circ> map_of kws \<longleftrightarrow>
    (\<forall>(a, b) \<in> set (map (\<lambda>(key, v). (v, js_prop (JObj kws) key)) kvs). inst \<rho> a = inst \<rho> b)"
proof
  assume eq: "map_option (inst \<rho>) \<circ> map_of kvs = map_option (inst \<rho>) \<circ> map_of kws"
  have "inst \<rho> v = inst \<rho> (js_prop (JObj kws) k)" if "(k, v) \<in> set kvs" for k v
    using fun_cong [OF eq, of k] that assms(1) by (auto simp: js_prop_def split: option.splits)
  then show "\<forall>(a, b) \<in> set (map (\<lambda>(key, v). (v, js_prop (JObj kws) key)) kvs). inst \<rho> a = inst \<rho> b" by auto
next
  assume all: "\<forall>(a, b) \<in> set (map (\<lambda>(key, v). (v, js_prop (JObj kws) key)) kvs). inst \<rho> a = inst \<rho> b"
  have "(map_option (inst \<rho>) \<circ> map_of kvs) k = (map_option (inst \<rho>) \<circ> map_of kws) k" for k
  proof (cases "map_of kvs k")
    case None
    then have "map_of kws k = None" using assms(2) by (simp add: map_of_eq_None_iff)
    then show ?thesis using None by simp
  next
    case (Some v)
    then obtain w where w: "map_of kws k = Some w" using assms(2) by (metis domD dom_map_of_conv_image_fst domI)
    have "(k, v) \<in> set kvs" using Some by (rule map_of_SomeD)
    then have "inst \<rho> v = inst \<rho> w" using all w by (auto simp: js_prop_def)
    then show ?thesis using Some w by simp
  qed
  then show "map_option (inst \<rho>) \<circ> map_of kvs = map_option (inst \<rho>) \<circ> map_of kws" by blast
qed

lemma inst_arr_eq:
  "length xs = length ys \<Longrightarrow>
     map (inst \<rho>) xs = map (inst \<rho>) ys \<longleftrightarrow> (\<forall>(a, b) \<in> set (zip xs ys). inst \<rho> a = inst \<rho> b)"
  by (auto simp: list_eq_iff_nth_eq in_set_zip)

text \<open>What a unification must give for a set of equations.\<close>

definition decides :: "unification \<Rightarrow> substitution \<Rightarrow> ((jsnum \<Rightarrow> gval) \<Rightarrow> bool) \<Rightarrow> bool" where
  "decides r s P \<longleftrightarrow>
     (case r of
        OutOfFuel \<Rightarrow> True
      | Clash \<Rightarrow> (\<forall>\<rho>. solves \<rho> s \<longrightarrow> \<not> P \<rho>)
      | Unifies s' \<Rightarrow> wf_subst s' \<and> (\<forall>\<rho>. solves \<rho> s' \<longleftrightarrow> solves \<rho> s \<and> P \<rho>))"

lemma decides_cong:
  "(\<And>\<rho>. solves \<rho> s \<Longrightarrow> P \<rho> \<longleftrightarrow> Q \<rho>) \<Longrightarrow> decides r s P \<longleftrightarrow> decides r s Q"
  by (auto simp: decides_def split: unification.splits)

lemma decides_bind:
  assumes "map_of s (map_key i) = None" and "wf_subst s" and "wf_term v"
  shows "decides (Unifies (bind_var i v s)) s (\<lambda>\<rho>. \<rho> (map_key i) = inst \<rho> v)"
  using assms by (simp add: decides_def solves_bind wf_subst_bind)

text \<open>Two resolved terms, neither a variable.\<close>

definition unify_rest :: "nat \<Rightarrow> jsval \<Rightarrow> jsval \<Rightarrow> substitution \<Rightarrow> unification" where
  "unify_rest n a b s =
     (case (a, b) of
        (JArr xs, JArr ys) \<Rightarrow> if length xs \<noteq> length ys then Clash else unify_list n (zip xs ys) s
      | (JObj kvs, JObj kws) \<Rightarrow>
          if length kvs \<noteq> length kws then Clash
          else if \<not> list_all (\<lambda>(key, _). key \<in> set (map fst kws)) kvs then Clash
          else unify_list n (map (\<lambda>(key, v). (v, js_prop b key)) kvs) s
      | _ \<Rightarrow> if a = b then Unifies s else Clash)"

lemma unify_Suc:
  "unify (Suc n) l r s =
     (case (resolve_var (Suc n) l s, resolve_var (Suc n) r s) of
        (Some a, Some b) \<Rightarrow>
          (case (logic_id a, logic_id b) of
             (Some i, Some j) \<Rightarrow> if num_strict_eq i j then Unifies s else Unifies (bind_var i b s)
           | (Some i, None) \<Rightarrow> Unifies (bind_var i b s)
           | (None, Some j) \<Rightarrow> Unifies (bind_var j a s)
           | (None, None) \<Rightarrow> unify_rest n a b s)
      | _ \<Rightarrow> OutOfFuel)"
  by (simp only: unify.simps unify_rest_def)

lemma wf_js_prop: "wf_term (JObj kws) \<Longrightarrow> wf_term (js_prop (JObj kws) k)"
  by (auto simp: js_prop_def dest!: map_of_SomeD split: option.splits)

lemma unify_rest_decides:
  assumes pairs: "\<And>ps. \<forall>(a, b) \<in> set ps. wf_term a \<and> wf_term b \<Longrightarrow>
      decides (unify_list n ps s) s (\<lambda>\<rho>. \<forall>(a, b) \<in> set ps. inst \<rho> a = inst \<rho> b)"
    and wf: "wf_term a" "wf_term b" "wf_subst s" and nonvar: "logic_id a = None" "logic_id b = None"
  shows "decides (unify_rest n a b s) s (\<lambda>\<rho>. inst \<rho> a = inst \<rho> b)"
proof -
  have same: "decides (if a = b then Unifies s else Clash) s (\<lambda>\<rho>. inst \<rho> a = inst \<rho> b)"
    if "\<And>\<rho>. inst \<rho> a = inst \<rho> b \<longleftrightarrow> a = b"
    using that wf(3) by (simp add: decides_def)
  consider (arr) xs ys where "a = JArr xs" "b = JArr ys" | (obj) kvs kws where "a = JObj kvs" "b = JObj kws"
    | (other) "unify_rest n a b s = (if a = b then Unifies s else Clash)" "\<And>\<rho>. inst \<rho> a = inst \<rho> b \<longleftrightarrow> a = b"
    using nonvar by (cases a; cases b) (simp_all add: unify_rest_def inst_obj del: inst.simps(2))
  then show ?thesis
  proof cases
    case arr
    show ?thesis
    proof (cases "length xs = length ys")
      case True
      have "\<forall>(a, b) \<in> set (zip xs ys). wf_term a \<and> wf_term b"
        using wf(1,2) by (auto simp: arr dest: set_zip_leftD set_zip_rightD)
      from pairs [OF this] show ?thesis using True by (simp add: arr unify_rest_def inst_arr_eq)
    next
      case False
      then have "map (inst \<rho>) xs \<noteq> map (inst \<rho>) ys" for \<rho> by (metis length_map)
      then show ?thesis using False by (simp add: arr unify_rest_def decides_def)
    qed
  next
    case obj
    have d: "distinct (map fst kvs)" "distinct (map fst kws)" using wf(1,2) by (simp_all add: obj)
    have eq: "inst \<rho> a = inst \<rho> b \<longleftrightarrow> map_option (inst \<rho>) \<circ> map_of kvs = map_option (inst \<rho>) \<circ> map_of kws" for \<rho>
      using nonvar by (simp add: obj inst_obj del: inst.simps(2))
    show ?thesis
    proof (cases "length kvs = length kws \<and> list_all (\<lambda>(key, _). key \<in> set (map fst kws)) kvs")
      case True
      then have keys: "fst ` set kvs = fst ` set kws" using key_compare [OF d] by blast
      let ?ps = "map (\<lambda>(key, v). (v, js_prop (JObj kws) key)) kvs"
      have "\<forall>(a, b) \<in> set ?ps. wf_term a \<and> wf_term b"
        using wf(1,2) wf_js_prop [of kws] by (auto simp: obj)
      from pairs [OF this] show ?thesis
        unfolding eq inst_obj_eq [OF d(1) keys] using True by (simp add: obj unify_rest_def)
    next
      case False
      have "inst \<rho> a \<noteq> inst \<rho> b" for \<rho>
      proof
        assume "inst \<rho> a = inst \<rho> b"
        then have "fst ` set kvs = fst ` set kws" "length kvs = length kws"
          using keys_of_equal [OF d, of "inst \<rho>"] eq by simp_all
        then show False using False by (force simp: list_all_iff)
      qed
      moreover have "unify_rest n a b s = Clash" using False by (auto simp: obj unify_rest_def)
      ultimately show ?thesis by (simp add: decides_def)
    qed
  next
    case other
    show ?thesis unfolding other(1) by (rule same) (rule other(2))
  qed
qed

lemma unify_decides_both:
  "wf_term l \<Longrightarrow> wf_term r \<Longrightarrow> wf_subst s \<Longrightarrow> decides (unify n l r s) s (\<lambda>\<rho>. inst \<rho> l = inst \<rho> r)"
  "\<forall>(a, b) \<in> set ps. wf_term a \<and> wf_term b \<Longrightarrow> wf_subst s \<Longrightarrow>
     decides (unify_list n ps s) s (\<lambda>\<rho>. \<forall>(a, b) \<in> set ps. inst \<rho> a = inst \<rho> b)"
proof (induction n arbitrary: l r s ps)
  case 0
  {
    case 1
    then show ?case by (simp add: decides_def)
  next
    case 2
    then show ?case by (cases ps) (auto simp: decides_def)
  }
next
  case (Suc n)
  {
    case (1 l r s)
    show ?case
    proof (cases "resolve_var (Suc n) l s = None \<or> resolve_var (Suc n) r s = None")
      case True
      then show ?thesis by (auto simp: unify_Suc decides_def simp del: unify.simps resolve_var.simps split: option.split)
    next
      case False
      then obtain a b where a: "resolve_var (Suc n) l s = Some a" and b: "resolve_var (Suc n) r s = Some b"
        by (meson not_None_eq)
      have wf: "wf_term a" "wf_term b" using a b 1 resolve_var_wf by blast+
      have "decides (unify (Suc n) l r s) s (\<lambda>\<rho>. inst \<rho> a = inst \<rho> b)"
      proof (cases "logic_id a")
        case None
        show ?thesis
        proof (cases "logic_id b")
          case None
          then show ?thesis using \<open>logic_id a = None\<close>  Suc.IH(2) 1(3) wf
            by (simp add: unify_Suc a b unify_rest_decides del: unify.simps resolve_var.simps)
        next
          case (Some j)
          have "decides (Unifies (bind_var j a s)) s (\<lambda>\<rho>. \<rho> (map_key j) = inst \<rho> a)"
            by (rule decides_bind [OF resolve_var_unbound [OF b Some] 1(3) wf(1)])
          then show ?thesis using None Some
            by (simp add: unify_Suc a b inst_var [OF Some] eq_commute [of "inst _ a"] del: unify.simps resolve_var.simps)
        qed
      next
        case (Some i)
        have bind: "decides (Unifies (bind_var i b s)) s (\<lambda>\<rho>. inst \<rho> a = inst \<rho> b)"
          using decides_bind [OF resolve_var_unbound [OF a Some] 1(3) wf(2)] by (simp add: inst_var [OF Some])
        show ?thesis
        proof (cases "logic_id b")
          case None
          then show ?thesis using bind Some by (simp add: unify_Suc a b del: unify.simps resolve_var.simps)
        next
          case b': (Some j)
          have "decides (Unifies s) s (\<lambda>\<rho>. inst \<rho> a = inst \<rho> b)" if "num_strict_eq i j"
            using that 1(3) by (simp add: decides_def inst_var [OF Some] inst_var [OF b'] num_strict_eq_def)
          then show ?thesis using bind Some b'
            by (simp add: unify_Suc a b del: unify.simps resolve_var.simps)
        qed
      qed
      moreover have "inst \<rho> l = inst \<rho> a" "inst \<rho> r = inst \<rho> b" if "solves \<rho> s" for \<rho>
        using resolve_var_inst [OF a that] resolve_var_inst [OF b that] by simp_all
      ultimately show ?thesis
        using decides_cong [of s "\<lambda>\<rho>. inst \<rho> a = inst \<rho> b" "\<lambda>\<rho>. inst \<rho> l = inst \<rho> r"] by simp
    qed
  }
  note one = this
  {
    case (2 s ps)
    then show ?case
    proof (induction ps arbitrary: s)
      case Nil
      then show ?case by (simp add: decides_def)
    next
      case (Cons p ps)
      obtain a b where p: "p = (a, b)" by force
      have wf: "wf_term a" "wf_term b" "\<forall>(a, b) \<in> set ps. wf_term a \<and> wf_term b" using Cons.prems(1) by (auto simp: p)
      have first: "decides (unify (Suc n) a b s) s (\<lambda>\<rho>. inst \<rho> a = inst \<rho> b)"
        using one [OF wf(1,2) Cons.prems(2)] .
      show ?case
      proof (cases "unify (Suc n) a b s")
        case (Unifies s')
        then have s': "wf_subst s'" "\<And>\<rho>. solves \<rho> s' \<longleftrightarrow> solves \<rho> s \<and> inst \<rho> a = inst \<rho> b"
          using first by (simp_all add: decides_def)
        show ?thesis using Cons.IH [OF wf(3) s'(1)] Unifies
          by (cases "unify_list (Suc n) ps s'") (auto simp: p decides_def s'(2) simp del: unify.simps)
      next
        case OutOfFuel
        then show ?thesis by (simp add: p decides_def del: unify.simps)
      next
        case Clash
        then show ?thesis using first by (auto simp: p decides_def simp del: unify.simps)
      qed
    qed
  }
qed

end
