(* ===== verification/Graph_Goals.thy ===== *)
theory Graph_Goals
  imports Graphology Logic_Unify
begin

text \<open>
  Goals of \<open>compiler/tracer/graph_relations.ts\<close>: functions from a goal state to the list of the
  states that satisfy them, the facts of a graph as goals, and running a goal. \<open>None\<close> is a goal
  that runs out of fuel in a unification; \<open>fuel\<close> is the fuel of each unification.
\<close>

section \<open>Combinators\<close>

record goal_state =
  gs_subst :: substitution
  gs_counter :: nat

type_synonym goal = "goal_state \<Rightarrow> goal_state list option"

definition flat_map_opt :: "('a \<Rightarrow> 'b list option) \<Rightarrow> 'a list \<Rightarrow> 'b list option" where
  "flat_map_opt f xs = map_option concat (those (map f xs))"

definition empty_goal_state :: "nat \<Rightarrow> goal_state" where
  "empty_goal_state next_logic_var_id = \<lparr>gs_subst = [], gs_counter = next_logic_var_id\<rparr>"

definition goal_equal :: "nat \<Rightarrow> jsval \<Rightarrow> jsval \<Rightarrow> goal" where
  "goal_equal fuel l r st =
     (case unify fuel l r (gs_subst st) of
        OutOfFuel \<Rightarrow> None
      | Clash \<Rightarrow> Some []
      | Unifies s \<Rightarrow> Some [\<lparr>gs_subst = s, gs_counter = gs_counter st\<rparr>])"

definition goal_or :: "goal list \<Rightarrow> goal" where
  "goal_or goals st = flat_map_opt (\<lambda>goal. goal st) goals"

definition goal_and :: "goal list \<Rightarrow> goal" where
  "goal_and goals st = fold (\<lambda>goal states. Option.bind states (flat_map_opt goal)) goals (Some [st])"

definition fresh :: "(jsval \<Rightarrow> goal) \<Rightarrow> goal" where
  "fresh builder st =
     builder (make_logic_var (gs_counter st) None) \<lparr>gs_subst = gs_subst st, gs_counter = gs_counter st + 1\<rparr>"

text \<open>The loop ends after \<open>limit\<close> results, but not before the first; no limit is infinity.\<close>

definition run_goal :: "nat \<Rightarrow> goal \<Rightarrow> jsval \<Rightarrow> nat option \<Rightarrow> nat \<Rightarrow> jsval list option" where
  "run_goal fuel goal projection limit next_logic_var_id =
     Option.bind (goal (empty_goal_state next_logic_var_id)) (\<lambda>states.
       those (map (\<lambda>st. reify fuel projection (gs_subst st))
         (case limit of None \<Rightarrow> states | Some l \<Rightarrow> take (max 1 l) states)))"

section \<open>Facts of a graph\<close>

text \<open>
  One step of the loops below: both terms are unified with their values, one after the other;
  a failure skips the entry.
\<close>

definition fact_step :: "nat \<Rightarrow> goal_state \<Rightarrow> (jsval \<times> jsval) \<Rightarrow> (jsval \<times> jsval) \<Rightarrow> goal_state list option" where
  "fact_step fuel st first second =
     (case unify fuel (fst first) (snd first) (gs_subst st) of
        OutOfFuel \<Rightarrow> None
      | Clash \<Rightarrow> Some []
      | Unifies s1 \<Rightarrow>
          (case unify fuel (fst second) (snd second) s1 of
             OutOfFuel \<Rightarrow> None
           | Clash \<Rightarrow> Some []
           | Unifies s2 \<Rightarrow> Some [\<lparr>gs_subst = s2, gs_counter = gs_counter st\<rparr>]))"

definition node_fact :: "nat \<Rightarrow> ('g, 'z) graphology_scheme \<Rightarrow> 'g \<Rightarrow> jsval \<Rightarrow> jsval \<Rightarrow> goal" where
  "node_fact fuel G graph id_term attrs_term st =
     flat_map_opt (\<lambda>(node, attrs). fact_step fuel st (id_term, JStr node) (attrs_term, JObj attrs))
       (for_each_node G graph)"

definition edge_fact :: "nat \<Rightarrow> ('g, 'z) graphology_scheme \<Rightarrow> 'g \<Rightarrow> jsval \<Rightarrow> jsval \<Rightarrow> goal" where
  "edge_fact fuel G graph source_term target_term st =
     flat_map_opt (\<lambda>(_, source, target). fact_step fuel st (source_term, JStr source) (target_term, JStr target))
       (for_each_edge G graph)"

definition attr_fact ::
    "nat \<Rightarrow> ('g, 'z) graphology_scheme \<Rightarrow> 'g \<Rightarrow> jstring \<Rightarrow> jsval \<Rightarrow> jsval \<Rightarrow>
     (jsval \<Rightarrow> attributes \<Rightarrow> bool) option \<Rightarrow> goal" where
  "attr_fact fuel G graph attr_name id_term value_term predicate st =
     flat_map_opt (\<lambda>(node, _).
       let attrs = get_node_attributes G graph node;
           v = get_node_attribute G graph node attr_name
       in if (case predicate of None \<Rightarrow> False | Some p \<Rightarrow> \<not> p v attrs) then Some []
          else fact_step fuel st (id_term, JStr node) (value_term, v))
       (for_each_node G graph)"

definition fact_kind :: "nat \<Rightarrow> ('g, 'z) graphology_scheme \<Rightarrow> 'g \<Rightarrow> jsval \<Rightarrow> jsval \<Rightarrow> goal" where
  "fact_kind fuel G graph id_term kind_term = attr_fact fuel G graph ''kind'' id_term kind_term None"

definition fact_namespace :: "nat \<Rightarrow> ('g, 'z) graphology_scheme \<Rightarrow> 'g \<Rightarrow> jsval \<Rightarrow> jsval \<Rightarrow> goal" where
  "fact_namespace fuel G graph id_term namespace_term =
     attr_fact fuel G graph ''namespace'' id_term namespace_term None"

definition fact_level :: "nat \<Rightarrow> ('g, 'z) graphology_scheme \<Rightarrow> 'g \<Rightarrow> jsval \<Rightarrow> jsval \<Rightarrow> goal" where
  "fact_level fuel G graph id_term level_term =
     attr_fact fuel G graph ''relationLevel'' id_term level_term None"

definition fact_label :: "nat \<Rightarrow> ('g, 'z) graphology_scheme \<Rightarrow> 'g \<Rightarrow> jsval \<Rightarrow> jsval \<Rightarrow> goal" where
  "fact_label fuel G graph id_term label_term = attr_fact fuel G graph ''label'' id_term label_term None"

definition fact_value :: "nat \<Rightarrow> ('g, 'z) graphology_scheme \<Rightarrow> 'g \<Rightarrow> jsval \<Rightarrow> jsval \<Rightarrow> goal" where
  "fact_value fuel G graph id_term value_term =
     attr_fact fuel G graph ''value'' id_term value_term (Some (\<lambda>v _. v \<noteq> JUndef))"

definition fact_content :: "nat \<Rightarrow> ('g, 'z) graphology_scheme \<Rightarrow> 'g \<Rightarrow> jsval \<Rightarrow> jsval \<Rightarrow> goal" where
  "fact_content fuel G graph id_term content_term =
     attr_fact fuel G graph ''content'' id_term content_term (Some (\<lambda>v _. v \<noteq> JUndef))"

text \<open>The loop of the two label goals: nodes with a string label that passes the test.\<close>

definition label_step ::
    "nat \<Rightarrow> ('g, 'z) graphology_scheme \<Rightarrow> 'g \<Rightarrow> jsval \<Rightarrow> (jstring \<Rightarrow> bool) \<Rightarrow> goal" where
  "label_step fuel G graph id_term test st =
     flat_map_opt (\<lambda>(node, _).
       case get_node_attribute G graph node ''label'' of
         JStr raw_label \<Rightarrow>
           if \<not> test raw_label then Some [] else goal_equal fuel id_term (JStr node) st
       | _ \<Rightarrow> Some [])
       (for_each_node G graph)"

definition label_prefix :: "nat \<Rightarrow> ('g, 'z) graphology_scheme \<Rightarrow> 'g \<Rightarrow> jsval \<Rightarrow> jsval \<Rightarrow> goal" where
  "label_prefix fuel G graph id_term prefix_term st =
     (case resolve fuel prefix_term (gs_subst st) of
        None \<Rightarrow> None
      | Some (JStr prefix) \<Rightarrow> label_step fuel G graph id_term (\<lambda>raw. starts_with raw prefix) st
      | Some _ \<Rightarrow> Some [])"

definition label_contains :: "nat \<Rightarrow> ('g, 'z) graphology_scheme \<Rightarrow> 'g \<Rightarrow> jsval \<Rightarrow> jsval \<Rightarrow> goal" where
  "label_contains fuel G graph id_term needle_term st =
     (case resolve fuel needle_term (gs_subst st) of
        None \<Rightarrow> None
      | Some (JStr needle) \<Rightarrow> label_step fuel G graph id_term (\<lambda>raw. str_includes raw needle) st
      | Some _ \<Rightarrow> Some [])"

section \<open>Reachability\<close>

text \<open>Edges as text, the key under which pairs are recognised.\<close>

definition arrow_key :: "jstring \<Rightarrow> jstring \<Rightarrow> jstring" where
  "arrow_key source target = source @ ''->'' @ target"

definition add_pair ::
    "jstring \<Rightarrow> jstring \<Rightarrow> (jstring \<times> jstring) list \<times> jstring list \<Rightarrow> (jstring \<times> jstring) list \<times> jstring list" where
  "add_pair source current acc =
     (let (pairs, seen) = acc; key = arrow_key source current in
      if key \<in> set seen then acc else (pairs @ [(source, current)], seen @ [key]))"

text \<open>The nodes the inner loop visits do not depend on the pairs, which are recorded afterwards.\<close>

definition enumerate_reachable_pairs ::
    "('g, 'z) graphology_scheme \<Rightarrow> 'g \<Rightarrow> (jstring \<times> jstring) list option" where
  "enumerate_reachable_pairs G graph =
     map_option fst (fold (\<lambda>(source, _) acc.
       Option.bind acc (\<lambda>a.
         map_option (\<lambda>visited. fold (add_pair source) visited a)
           (worklist (\<lambda>_. False) (out_neighbors G graph) [] (out_neighbors G graph source))))
       (for_each_node G graph) (Some ([], [])))"

definition reachable :: "nat \<Rightarrow> ('g, 'z) graphology_scheme \<Rightarrow> 'g \<Rightarrow> jsval \<Rightarrow> jsval \<Rightarrow> goal" where
  "reachable fuel G graph source_term target_term st =
     Option.bind (enumerate_reachable_pairs G graph)
       (flat_map_opt (\<lambda>(source, target). fact_step fuel st (source_term, JStr source) (target_term, JStr target)))"

definition reverse_graph :: "('g, 'z) graphology_scheme \<Rightarrow> 'g \<Rightarrow> 'g" where
  "reverse_graph G graph =
     fold (\<lambda>(attrs, source, target). merge_edge G target source attrs) (for_each_edge G graph)
       (fold (\<lambda>(node, attrs). merge_node G node attrs) (for_each_node G graph) (new_graph G))"

definition downstream_of :: "nat \<Rightarrow> ('g, 'z) graphology_scheme \<Rightarrow> 'g \<Rightarrow> jsval \<Rightarrow> jsval \<Rightarrow> goal" where
  "downstream_of fuel G graph source_term target_term = reachable fuel G graph source_term target_term"

definition upstream_of :: "nat \<Rightarrow> ('g, 'z) graphology_scheme \<Rightarrow> 'g \<Rightarrow> jsval \<Rightarrow> jsval \<Rightarrow> goal" where
  "upstream_of fuel G graph source_term target_term =
     reachable fuel G (reverse_graph G graph) source_term target_term"

definition join_through :: "nat \<Rightarrow> ('g, 'z) graphology_scheme \<Rightarrow> 'g \<Rightarrow> jsval \<Rightarrow> jsval \<Rightarrow> jsval \<Rightarrow> goal" where
  "join_through fuel G graph source_term middle_term target_term =
     goal_and [edge_fact fuel G graph source_term middle_term, edge_fact fuel G graph middle_term target_term]"

section \<open>Queries for nodes and edges\<close>

text \<open>\<open>Set\<close> of the results that are strings, in order.\<close>

definition string_results :: "jsval list \<Rightarrow> jstring list" where
  "string_results results =
     fold (\<lambda>v out. case v of JStr s \<Rightarrow> set_add s out | _ \<Rightarrow> out) results []"

definition query_node_ids ::
    "nat \<Rightarrow> (jsval \<Rightarrow> goal) \<Rightarrow> nat option \<Rightarrow> nat \<Rightarrow> (jstring list \<times> nat) option" where
  "query_node_ids fuel build_goal limit next_id =
     (let (node_var, next_id') = logic_var (Some ''node'') next_id
      in map_option (\<lambda>results. (string_results results, next_id'))
           (run_goal fuel (build_goal node_var) node_var limit next_id'))"

definition edge_results :: "jsval list \<Rightarrow> (jstring \<times> jstring) list" where
  "edge_results results = map snd
     (fold (\<lambda>v unique. case v of
        JArr (JStr source # JStr target # _) \<Rightarrow> AList.update (arrow_key source target) (source, target) unique
      | _ \<Rightarrow> unique) results [])"

definition query_edges ::
    "nat \<Rightarrow> (jsval \<Rightarrow> jsval \<Rightarrow> goal) \<Rightarrow> nat option \<Rightarrow> nat \<Rightarrow> ((jstring \<times> jstring) list \<times> nat) option" where
  "query_edges fuel build_goal limit next_id =
     (let (source_var, next_id1) = logic_var (Some ''source'') next_id;
          (target_var, next_id2) = logic_var (Some ''target'') next_id1
      in map_option (\<lambda>results. (edge_results results, next_id2))
           (run_goal fuel (build_goal source_var target_var) (JArr [source_var, target_var]) limit next_id2))"

definition induced_subgraph_from_ids :: "('g, 'z) graphology_scheme \<Rightarrow> 'g \<Rightarrow> jstring list \<Rightarrow> 'g" where
  "induced_subgraph_from_ids G graph ids =
     fold (\<lambda>(attrs, source, target) result.
         if source \<in> set ids \<and> target \<in> set ids then merge_edge G source target attrs result else result)
       (for_each_edge G graph)
       (fold (\<lambda>(node, attrs) result. if node \<in> set ids then merge_node G node attrs result else result)
         (for_each_node G graph) (new_graph G))"

definition connected_component :: "('g, 'z) graphology_scheme \<Rightarrow> 'g \<Rightarrow> jstring list \<Rightarrow> 'g option" where
  "connected_component G graph seed_ids =
     map_option (induced_subgraph_from_ids G graph)
       (worklist (\<lambda>current. \<not> has_node G graph current)
         (\<lambda>current. in_neighbors G graph current @ out_neighbors G graph current) [] seed_ids)"

end
