(* ===== verification/Goal_Semantics.thy ===== *)
theory Goal_Semantics
  imports Graph_Goals
begin

text \<open>
  What goals mean. A goal \<open>relates\<close> a property of valuations when, from any substitution of
  ground terms small enough for the fuel, it ends and the valuations that solve one of its
  states are exactly those that solve the start and have the property. Facts of a graph relate
  what they say, \<open>goal_and\<close> and \<open>goal_or\<close> conjunction and disjunction, and a query for node
  ids returns exactly the ids that have the property.
\<close>

section \<open>Ground terms\<close>

fun ground :: "jsval \<Rightarrow> bool" where
  "ground (JArr vs) \<longleftrightarrow> (\<forall>v \<in> set vs. ground v)"
| "ground (JObj kvs) \<longleftrightarrow> logic_id (JObj kvs) = None \<and> (\<forall>kv \<in> set kvs. ground (snd kv))"
| "ground v \<longleftrightarrow> True"

fun depth :: "jsval \<Rightarrow> nat" where
  "depth (JArr vs) = Suc (fold max (map depth vs) 0)"
| "depth (JObj kvs) = Suc (fold max (map (\<lambda>kv. depth (snd kv)) kvs) 0)"
| "depth v = 0"

text \<open>A ground term the fuel suffices for.\<close>

definition small :: "nat \<Rightarrow> jsval \<Rightarrow> bool" where
  "small fuel t \<longleftrightarrow> ground t \<and> wf_term t \<and> depth t + 2 \<le> fuel"

definition small_subst :: "nat \<Rightarrow> substitution \<Rightarrow> bool" where
  "small_subst fuel s \<longleftrightarrow> (\<forall>i t. map_of s i = Some t \<longrightarrow> small fuel t)"

lemma ground_nonvar: "ground t \<Longrightarrow> logic_id t = None"
  by (cases t) (simp_all, simp_all add: logic_id_def)

lemma fold_max_le: "fold max (xs :: nat list) a \<le> b \<longleftrightarrow> a \<le> b \<and> (\<forall>x \<in> set xs. x \<le> b)"
  by (induction xs arbitrary: a) auto

lemma depth_parts:
  "depth (JArr vs) \<le> Suc n \<longleftrightarrow> (\<forall>v \<in> set vs. depth v \<le> n)"
  "depth (JObj kvs) \<le> Suc n \<longleftrightarrow> (\<forall>kv \<in> set kvs. depth (snd kv) \<le> n)"
  by (auto simp: fold_max_le)

lemma small_Suc:
  "small (Suc n) (JArr vs) \<Longrightarrow> v \<in> set vs \<Longrightarrow> small n v"
  "small (Suc n) (JObj kvs) \<Longrightarrow> kv \<in> set kvs \<Longrightarrow> small n (snd kv)"
proof -
  assume a: "small (Suc n) (JArr vs)" "v \<in> set vs"
  then have "depth (JArr vs) \<le> Suc (n - 2)" "2 \<le> n" by (auto simp: small_def)
  then have "depth v \<le> n - 2" using a(2) unfolding depth_parts by blast
  then show "small n v" using a \<open>2 \<le> n\<close> by (auto simp: small_def)
next
  assume a: "small (Suc n) (JObj kvs)" "kv \<in> set kvs"
  then have "depth (JObj kvs) \<le> Suc (n - 2)" "2 \<le> n" by (auto simp: small_def)
  then have "depth (snd kv) \<le> n - 2" using a(2) unfolding depth_parts by blast
  then show "small n (snd kv)" using a \<open>2 \<le> n\<close> by (auto simp: small_def)
qed

lemma small_prim [simp]:
  "small n (JStr x) \<longleftrightarrow> 2 \<le> n" "small n JUndef \<longleftrightarrow> 2 \<le> n" "small n (JNum i) \<longleftrightarrow> 2 \<le> n"
  by (auto simp: small_def)

lemma small_mono: "small n t \<Longrightarrow> n \<le> m \<Longrightarrow> small m t"
  by (auto simp: small_def)

lemma small_prop:
  assumes "small (Suc n) (JObj kvs)"
  shows "small n (js_prop (JObj kvs) k)"
proof (cases "map_of kvs k")
  case None
  have "2 \<le> n" using assms by (simp add: small_def)
  then show ?thesis using None by (simp add: js_prop_def)
next
  case (Some v)
  then have "(k, v) \<in> set kvs" by (rule map_of_SomeD)
  then show ?thesis using small_Suc(2) [OF assms] Some by (force simp: js_prop_def)
qed

lemma small_subst_wf: "small_subst n s \<Longrightarrow> wf_subst s"
  by (auto simp: small_subst_def wf_subst_def small_def)

lemma small_subst_bind: "small_subst n s \<Longrightarrow> small n t \<Longrightarrow> small_subst n (bind_var i t s)"
  by (auto simp: small_subst_def bind_var_def update_conv')

lemma resolve_var_small:
  assumes "small_subst m s" and "2 \<le> n"
  shows "\<exists>a. resolve_var n t s = Some a"
proof -
  obtain k where n: "n = Suc (Suc k)" using assms(2) by (metis add_2_eq_Suc le_Suc_ex)
  have "logic_id u = None" if "map_of s i = Some u" for i u
    using assms(1) that ground_nonvar by (auto simp: small_subst_def small_def)
  then show ?thesis by (auto simp: n split: option.split)
qed

lemma resolve_var_ground: "ground t \<Longrightarrow> 1 \<le> n \<Longrightarrow> resolve_var n t s = Some t"
  using ground_nonvar [of t] by (cases n) auto

text \<open>Unification with a small ground term ends and keeps the substitution small.\<close>

lemma unify_small_both:
  "small n r \<Longrightarrow> small_subst m s \<Longrightarrow> n \<le> m \<Longrightarrow>
     unify n l r s = Clash \<or> (\<exists>s'. unify n l r s = Unifies s' \<and> small_subst m s')"
  "\<forall>(a, b) \<in> set ps. small n b \<Longrightarrow> small_subst m s \<Longrightarrow> n \<le> m \<Longrightarrow>
     unify_list n ps s = Clash \<or> (\<exists>s'. unify_list n ps s = Unifies s' \<and> small_subst m s')"
proof (induction n arbitrary: l r s ps)
  case 0
  {
    case 1
    then show ?case by (simp add: small_def)
  next
    case 2
    then show ?case by (cases ps) (auto simp: small_def)
  }
next
  case (Suc n)
  {
    case (1 l r s)
    obtain a where a: "resolve_var (Suc n) l s = Some a"
      using resolve_var_small [OF 1(2), of "Suc n"] 1(1) by (auto simp: small_def)
    have b: "resolve_var (Suc n) r s = Some r" "logic_id r = None"
      using 1(1) resolve_var_ground ground_nonvar by (simp_all add: small_def del: resolve_var.simps)
    have m: "n \<le> m" "small m r" using 1(1,3) small_mono by auto
    have rest: "unify_rest n a r s = Clash \<or> (\<exists>s'. unify_rest n a r s = Unifies s' \<and> small_subst m s')"
    proof -
      consider (arr) xs ys where "a = JArr xs" "r = JArr ys" | (obj) kvs kws where "a = JObj kvs" "r = JObj kws"
        | (other) "unify_rest n a r s = (if a = r then Unifies s else Clash)"
        by (cases a; cases r) (simp_all add: unify_rest_def)
      then show ?thesis
      proof cases
        case arr
        have "\<forall>(x, y) \<in> set (zip xs ys). small n y"
          using small_Suc(1) [of n ys] 1(1) by (auto simp: arr dest: set_zip_rightD)
        from Suc.IH(2) [OF this 1(2) m(1)] show ?thesis by (simp add: arr unify_rest_def)
      next
        case obj
        have "\<forall>(x, y) \<in> set (map (\<lambda>(key, v). (v, js_prop r key)) kvs). small n y"
          using small_prop [of n kws] 1(1) by (auto simp: obj)
        from Suc.IH(2) [OF this 1(2) m(1)] show ?thesis by (auto simp: obj unify_rest_def)
      next
        case other
        then show ?thesis using 1(2) by simp
      qed
    qed
    show ?case using rest small_subst_bind [OF 1(2) m(2)]
      by (simp add: unify_Suc a b del: unify.simps resolve_var.simps split: option.split)
  }
  note one = this
  {
    case (2 s ps)
    then show ?case
    proof (induction ps arbitrary: s)
      case (Cons p ps)
      obtain a b where p: "p = (a, b)" by force
      have b: "small (Suc n) b" and rest: "\<forall>(a, b) \<in> set ps. small (Suc n) b" using Cons.prems(1) by (auto simp: p)
      from one [OF b Cons.prems(2,3), of a] show ?case
      proof (elim disjE exE conjE)
        fix s' assume "unify (Suc n) a b s = Unifies s'" and s': "small_subst m s'"
        then show ?thesis using Cons.IH [OF rest s' Cons.prems(3)] by (simp add: p del: unify.simps)
      qed (simp add: p del: unify.simps)
    qed simp
  }
qed

lemmas unify_small = unify_small_both(1) [OF _ _ order_refl]

section \<open>Reification\<close>

lemma those_map_id: "(\<And>x. x \<in> set xs \<Longrightarrow> f x = Some (g x)) \<Longrightarrow> those (map f xs) = Some (map g xs)"
  by (induction xs) auto

lemma reify_ground: "small (Suc n) t \<Longrightarrow> reify n t s = Some t"
proof (induction n arbitrary: t)
  case 0
  then show ?case by (simp add: small_def)
next
  case (Suc n)
  have r: "resolve_var (Suc n) t s = Some t" using Suc.prems by (simp add: resolve_var_ground small_def del: resolve_var.simps)
  show ?case
  proof (cases t)
    case (JArr vs)
    have "those (map (\<lambda>item. reify n item s) vs) = Some (map (\<lambda>v. v) vs)"
      using Suc small_Suc(1) [of "Suc n" vs] by (intro those_map_id) (simp add: JArr)
    then show ?thesis using r by (simp add: JArr del: resolve_var.simps)
  next
    case (JObj kvs)
    have "those (map (\<lambda>(key, v). map_option (Pair key) (reify n v s)) kvs) = Some (map (\<lambda>kv. kv) kvs)"
      using Suc small_Suc(2) [of "Suc n" kvs] by (intro those_map_id) (force simp: JObj split: prod.splits)
    then show ?thesis using r by (simp add: JObj del: resolve_var.simps)
  qed (use r in \<open>simp_all del: resolve_var.simps\<close>)
qed

lemma reify_var:
  assumes "logic_id v = Some i" and "map_of s (map_key i) = Some t" and "small n t"
  shows "reify n v s = Some t"
proof -
  obtain k where n: "n = Suc (Suc k)" using assms(3) by (metis add_2_eq_Suc le_Suc_ex small_def add_leD2)
  have "ground t" using assms(3) by (simp add: small_def)
  then have "resolve_var n v s = Some t" by (simp add: n assms(1,2) ground_nonvar)
  moreover have "reify n t s = Some t" using assms(3) by (intro reify_ground) (simp add: small_def)
  moreover have "resolve_var n t s = Some t" using \<open>ground t\<close> by (intro resolve_var_ground) (simp_all add: n)
  ultimately show ?thesis by (simp add: n del: resolve_var.simps)
qed

text \<open>Every small substitution has a solution, with any value for a variable it does not bind.\<close>

definition solution :: "substitution \<Rightarrow> gval \<Rightarrow> jsnum \<Rightarrow> gval" where
  "solution s d i = (case map_of s i of None \<Rightarrow> d | Some t \<Rightarrow> inst (\<lambda>_. d) t)"

lemma inst_ground: "ground t \<Longrightarrow> inst \<rho> t = inst \<rho>' t"
proof (induction t)
  case (JObj kvs)
  have "map (\<lambda>kv. (fst kv, inst \<rho> (snd kv))) kvs = map (\<lambda>kv. (fst kv, inst \<rho>' (snd kv))) kvs"
    using JObj by (intro map_cong) (auto simp: snds.simps)
  then show ?case using JObj.prems by (simp only: inst.simps) simp
qed auto

lemma solves_solution: "small_subst n s \<Longrightarrow> solves (solution s d) s"
  using inst_ground by (auto simp: solves_def solution_def small_subst_def small_def)

section \<open>Goals and relations\<close>

definition relates_at :: "nat \<Rightarrow> goal_state \<Rightarrow> goal \<Rightarrow> ((jsnum \<Rightarrow> gval) \<Rightarrow> bool) \<Rightarrow> bool" where
  "relates_at fuel st g P \<longleftrightarrow> (\<exists>sts. g st = Some sts \<and> (\<forall>st' \<in> set sts. small_subst fuel (gs_subst st'))
     \<and> (\<forall>\<rho>. (\<exists>st' \<in> set sts. solves \<rho> (gs_subst st')) \<longleftrightarrow> solves \<rho> (gs_subst st) \<and> P \<rho>))"

definition relates :: "nat \<Rightarrow> goal \<Rightarrow> ((jsnum \<Rightarrow> gval) \<Rightarrow> bool) \<Rightarrow> bool" where
  "relates fuel g P \<longleftrightarrow> (\<forall>st. small_subst fuel (gs_subst st) \<longrightarrow> relates_at fuel st g P)"

lemma relatesI: "(\<And>st. small_subst fuel (gs_subst st) \<Longrightarrow> relates_at fuel st g P) \<Longrightarrow> relates fuel g P"
  by (simp add: relates_def)

lemma relatesD: "relates fuel g P \<Longrightarrow> small_subst fuel (gs_subst st) \<Longrightarrow> relates_at fuel st g P"
  by (simp add: relates_def)

lemma relates_at_cong:
  "(\<And>\<rho>. solves \<rho> (gs_subst st) \<Longrightarrow> P \<rho> \<longleftrightarrow> Q \<rho>) \<Longrightarrow> relates_at fuel st g P \<longleftrightarrow> relates_at fuel st g Q"
  unfolding relates_at_def by (intro ex_cong conj_cong refl all_cong1) blast

lemma relates_cong: "(\<And>\<rho>. P \<rho> \<longleftrightarrow> Q \<rho>) \<Longrightarrow> relates fuel g P \<longleftrightarrow> relates fuel g Q"
  by presburger

lemma flat_map_opt_simps [simp]:
  "flat_map_opt f [] = Some []"
  "flat_map_opt f (x # xs) = Option.bind (f x) (\<lambda>ys. map_option (\<lambda>zs. ys @ zs) (flat_map_opt f xs))"
  by (auto simp: flat_map_opt_def option.map_comp comp_def split: option.split)

lemma relates_at_None:
  "relates_at fuel st (\<lambda>_. Some []) (\<lambda>_. False)"
  by (simp add: relates_at_def)

lemma relates_at_flat_map:
  "(\<And>x. x \<in> set xs \<Longrightarrow> relates_at fuel st (f x) (P x)) \<Longrightarrow>
     relates_at fuel st (\<lambda>st. flat_map_opt (\<lambda>x. f x st) xs) (\<lambda>\<rho>. \<exists>x \<in> set xs. P x \<rho>)"
proof (induction xs)
  case Nil
  then show ?case by (simp add: relates_at_def)
next
  case (Cons x xs)
  obtain ys where ys: "f x st = Some ys" "\<forall>st' \<in> set ys. small_subst fuel (gs_subst st')"
    "\<And>\<rho>. (\<exists>st' \<in> set ys. solves \<rho> (gs_subst st')) \<longleftrightarrow> solves \<rho> (gs_subst st) \<and> P x \<rho>"
    using Cons.prems [of x] by (auto simp: relates_at_def)
  obtain zs where zs: "flat_map_opt (\<lambda>x. f x st) xs = Some zs" "\<forall>st' \<in> set zs. small_subst fuel (gs_subst st')"
    "\<And>\<rho>. (\<exists>st' \<in> set zs. solves \<rho> (gs_subst st')) \<longleftrightarrow> solves \<rho> (gs_subst st) \<and> (\<exists>x \<in> set xs. P x \<rho>)"
    using Cons by (auto simp: relates_at_def)
  have "(\<exists>st' \<in> set (ys @ zs). solves \<rho> (gs_subst st')) \<longleftrightarrow> solves \<rho> (gs_subst st) \<and> (\<exists>y \<in> set (x # xs). P y \<rho>)" for \<rho>
    using ys(3) [of \<rho>] zs(3) [of \<rho>] by auto
  then show ?case using ys(1,2) zs(1,2) by (auto simp: relates_at_def)
qed

lemma relates_at_unify:
  assumes "wf_term l" and "small fuel r" and "small_subst fuel (gs_subst st)"
  shows "relates_at fuel st (goal_equal fuel l r) (\<lambda>\<rho>. inst \<rho> l = inst \<rho> r)"
proof -
  have d: "decides (unify fuel l r (gs_subst st)) (gs_subst st) (\<lambda>\<rho>. inst \<rho> l = inst \<rho> r)"
    using assms small_subst_wf by (intro unify_decides_both(1)) (auto simp: small_def)
  from unify_small [OF assms(2,3), of l] show ?thesis
  proof (elim disjE exE conjE)
    assume "unify fuel l r (gs_subst st) = Clash"
    then show ?thesis using d by (auto simp: relates_at_def goal_equal_def decides_def)
  next
    fix s' assume "unify fuel l r (gs_subst st) = Unifies s'" "small_subst fuel s'"
    then show ?thesis using d by (simp add: relates_at_def goal_equal_def decides_def)
  qed
qed

lemmas relates_equal = relatesI [OF relates_at_unify]

lemma fact_step_eq:
  "fact_step fuel st (t1, v1) (t2, v2) = Option.bind (goal_equal fuel t1 v1 st) (flat_map_opt (goal_equal fuel t2 v2))"
  by (simp add: fact_step_def goal_equal_def split: unification.split)

lemma relates_at_seq:
  assumes "relates_at fuel st g P" and "relates fuel h Q"
  shows "relates_at fuel st (\<lambda>st. Option.bind (g st) (flat_map_opt h)) (\<lambda>\<rho>. P \<rho> \<and> Q \<rho>)"
proof -
  obtain ys where ys: "g st = Some ys" "\<forall>st' \<in> set ys. small_subst fuel (gs_subst st')"
    "\<And>\<rho>. (\<exists>st' \<in> set ys. solves \<rho> (gs_subst st')) \<longleftrightarrow> solves \<rho> (gs_subst st) \<and> P \<rho>"
    using assms(1) by (auto simp: relates_at_def)
  have "\<exists>zs. flat_map_opt h xs = Some zs \<and> (\<forall>st' \<in> set zs. small_subst fuel (gs_subst st'))
      \<and> (\<forall>\<rho>. (\<exists>st' \<in> set zs. solves \<rho> (gs_subst st')) \<longleftrightarrow> (\<exists>st' \<in> set xs. solves \<rho> (gs_subst st')) \<and> Q \<rho>)"
    if "\<forall>st' \<in> set xs. small_subst fuel (gs_subst st')" for xs
    using that
  proof (induction xs)
    case (Cons x xs)
    obtain us where us: "h x = Some us" "\<forall>st' \<in> set us. small_subst fuel (gs_subst st')"
      "\<And>\<rho>. (\<exists>st' \<in> set us. solves \<rho> (gs_subst st')) \<longleftrightarrow> solves \<rho> (gs_subst x) \<and> Q \<rho>"
      using relatesD [OF assms(2), of x] Cons.prems by (auto simp: relates_at_def)
    obtain zs where zs: "flat_map_opt h xs = Some zs" "\<forall>st' \<in> set zs. small_subst fuel (gs_subst st')"
      "\<And>\<rho>. (\<exists>st' \<in> set zs. solves \<rho> (gs_subst st')) \<longleftrightarrow> (\<exists>st' \<in> set xs. solves \<rho> (gs_subst st')) \<and> Q \<rho>"
      using Cons by auto
    have "(\<exists>st' \<in> set (us @ zs). solves \<rho> (gs_subst st')) \<longleftrightarrow> (\<exists>st' \<in> set (x # xs). solves \<rho> (gs_subst st')) \<and> Q \<rho>" for \<rho>
      using us(3) [of \<rho>] zs(3) [of \<rho>] by auto
    then show ?case using us(1,2) zs(1,2) by auto
  qed simp
  from this [OF ys(2)] show ?thesis using ys(1,3) by (auto simp: relates_at_def)
qed

lemma relates_at_fact_step:
  assumes "wf_term t1" and "wf_term t2" and "small fuel v1" and "small fuel v2" and "small_subst fuel (gs_subst st)"
  shows "relates_at fuel st (\<lambda>st. fact_step fuel st (t1, v1) (t2, v2)) (\<lambda>\<rho>. inst \<rho> t1 = inst \<rho> v1 \<and> inst \<rho> t2 = inst \<rho> v2)"
  unfolding fact_step_eq using assms by (intro relates_at_seq relates_at_unify relates_equal)

lemma relates_flat_map:
  assumes "\<And>x. x \<in> set xs \<Longrightarrow> relates fuel (f x) (P x)"
  shows "relates fuel (\<lambda>st. flat_map_opt (\<lambda>x. f x st) xs) (\<lambda>\<rho>. \<exists>x \<in> set xs. P x \<rho>)"
proof (rule relatesI)
  fix st :: goal_state assume "small_subst fuel (gs_subst st)"
  then have "relates_at fuel st (f x) (P x)" if "x \<in> set xs" for x
    using assms [OF that] by (rule relatesD [rotated])
  then show "relates_at fuel st (\<lambda>st. flat_map_opt (\<lambda>x. f x st) xs) (\<lambda>\<rho>. \<exists>x \<in> set xs. P x \<rho>)"
    by (rule relates_at_flat_map)
qed

lemma relates_seq:
  assumes "relates fuel g P" and "relates fuel h Q"
  shows "relates fuel (\<lambda>st. Option.bind (g st) (flat_map_opt h)) (\<lambda>\<rho>. P \<rho> \<and> Q \<rho>)"
  by (rule relatesI, rule relates_at_seq [OF relatesD [OF assms(1)] assms(2)])

lemma relates_fact_step:
  assumes "wf_term t1" and "wf_term t2" and "small fuel v1" and "small fuel v2"
  shows "relates fuel (\<lambda>st. fact_step fuel st (t1, v1) (t2, v2)) (\<lambda>\<rho>. inst \<rho> t1 = inst \<rho> v1 \<and> inst \<rho> t2 = inst \<rho> v2)"
  by (rule relatesI, rule relates_at_fact_step [OF assms])

lemma relates_or:
  assumes "\<And>g. g \<in> set gs \<Longrightarrow> relates fuel g (P g)"
  shows "relates fuel (goal_or gs) (\<lambda>\<rho>. \<exists>g \<in> set gs. P g \<rho>)"
  using relates_flat_map [of gs fuel "\<lambda>g. g" P] assms by (simp add: goal_or_def [abs_def])

lemma goal_and_Nil [simp]: "goal_and [] st = Some [st]"
  by (simp add: goal_and_def)

lemma fold_bind_None: "fold (\<lambda>goal states. Option.bind states (flat_map_opt goal)) gs None = None"
  by (induction gs) auto

lemma goal_and_snoc: "goal_and (gs @ [g]) st = Option.bind (goal_and gs st) (flat_map_opt g)"
  by (simp add: goal_and_def)

lemma relates_and:
  "(\<And>g. g \<in> set gs \<Longrightarrow> relates fuel g (P g)) \<Longrightarrow> relates fuel (goal_and gs) (\<lambda>\<rho>. \<forall>g \<in> set gs. P g \<rho>)"
proof (induction gs rule: rev_induct)
  case Nil
  then show ?case by (simp add: relates_def relates_at_def)
next
  case (snoc g gs)
  have "relates fuel (\<lambda>st. Option.bind (goal_and gs st) (flat_map_opt g)) (\<lambda>\<rho>. (\<forall>g \<in> set gs. P g \<rho>) \<and> P g \<rho>)"
    using snoc.prems by (intro relates_seq snoc.IH) simp_all
  moreover have "(\<lambda>st. Option.bind (goal_and gs st) (flat_map_opt g)) = goal_and (gs @ [g])"
    by (simp add: goal_and_snoc fun_eq_iff)
  ultimately show ?case by (simp add: conj_commute)
qed

section \<open>Facts\<close>

definition small_graph :: "nat \<Rightarrow> ('g, 'z) graphology_scheme \<Rightarrow> 'g \<Rightarrow> bool" where
  "small_graph fuel G graph \<longleftrightarrow> 3 \<le> fuel \<and> (\<forall>(node, attrs) \<in> set (for_each_node G graph). small fuel (JObj attrs))"

lemma small_graph_str: "small_graph fuel G graph \<Longrightarrow> small fuel (JStr s)"
  by (simp add: small_graph_def)

definition arrows_ok :: "('g, 'z) graphology_scheme \<Rightarrow> 'g \<Rightarrow> bool" where
  "arrows_ok G g \<longleftrightarrow> inj_on (\<lambda>(s, t). arrow_key s t) (nodes_of G g \<times> nodes_of G g)"

context graphology_laws
begin

lemma small_attribute:
  assumes "small_graph fuel G graph" and "(node, attrs) \<in> set (for_each_node G graph)"
  shows "small fuel (get_node_attribute G graph node k)" and "get_node_attribute G graph node k = js_prop (JObj attrs) k"
proof -
  show eq: "get_node_attribute G graph node k = js_prop (JObj attrs) k"
    using assms(2) node_attribute by (simp add: node_map_iff)
  obtain n where n: "fuel = Suc n" using assms(1) by (cases fuel) (auto simp: small_graph_def)
  have "small (Suc n) (JObj attrs)" using assms by (auto simp: small_graph_def n)
  from small_prop [OF this, of k] show "small fuel (get_node_attribute G graph node k)"
    using small_mono [of n _ "Suc n"] by (simp add: eq n)
qed

lemma relates_node:
  assumes "small_graph fuel G graph" and "wf_term id_term" and "wf_term attrs_term"
  shows "relates fuel (node_fact fuel G graph id_term attrs_term)
    (\<lambda>\<rho>. \<exists>(node, attrs) \<in> set (for_each_node G graph). inst \<rho> id_term = GPrim (JStr node) \<and> inst \<rho> attrs_term = inst \<rho> (JObj attrs))"
proof -
  let ?f = "\<lambda>x st. fact_step fuel st (id_term, JStr (fst x)) (attrs_term, JObj (snd x))"
  let ?P = "\<lambda>x \<rho>. inst \<rho> id_term = inst \<rho> (JStr (fst x)) \<and> inst \<rho> attrs_term = inst \<rho> (JObj (snd x))"
  have "relates fuel (?f x) (?P x)"
    if "x \<in> set (for_each_node G graph)" for x
    using assms that by (intro relates_fact_step small_graph_str [OF assms(1)]) (auto simp: small_graph_def)
  then have "relates fuel (\<lambda>st. flat_map_opt (\<lambda>x. ?f x st) (for_each_node G graph))
      (\<lambda>\<rho>. \<exists>x \<in> set (for_each_node G graph). ?P x \<rho>)" by (rule relates_flat_map)
  then show ?thesis
    by (simp add: node_fact_def [abs_def] case_prod_unfold del: inst.simps(2))
qed

lemma relates_edge:
  assumes "small_graph fuel G graph" and "wf_term source_term" and "wf_term target_term"
  shows "relates fuel (edge_fact fuel G graph source_term target_term)
    (\<lambda>\<rho>. \<exists>(s, t) \<in> edges_of_graph G graph. inst \<rho> source_term = GPrim (JStr s) \<and> inst \<rho> target_term = GPrim (JStr t))"
proof -
  let ?f = "\<lambda>x st. fact_step fuel st (source_term, JStr (fst (snd x))) (target_term, JStr (snd (snd x)))"
  let ?P = "\<lambda>x \<rho>. inst \<rho> source_term = inst \<rho> (JStr (fst (snd x))) \<and> inst \<rho> target_term = inst \<rho> (JStr (snd (snd x)))"
  have "relates fuel (?f x) (?P x)"
    if "x \<in> set (for_each_edge G graph)" for x
    using assms by (intro relates_fact_step small_graph_str [OF assms(1)])
  then have "relates fuel (\<lambda>st. flat_map_opt (\<lambda>x. ?f x st) (for_each_edge G graph))
      (\<lambda>\<rho>. \<exists>x \<in> set (for_each_edge G graph). ?P x \<rho>)" by (rule relates_flat_map)
  then show ?thesis
    by (simp add: edge_fact_def [abs_def] case_prod_unfold edges_of_set)
qed

lemma relates_attr:
  assumes "small_graph fuel G graph" and "wf_term id_term" and "wf_term value_term"
  shows "relates fuel (attr_fact fuel G graph k id_term value_term predicate)
    (\<lambda>\<rho>. \<exists>(node, attrs) \<in> set (for_each_node G graph).
       (case predicate of None \<Rightarrow> True | Some p \<Rightarrow> p (js_prop (JObj attrs) k) attrs)
       \<and> inst \<rho> id_term = GPrim (JStr node) \<and> inst \<rho> value_term = inst \<rho> (js_prop (JObj attrs) k))"
proof -
  let ?fails = "\<lambda>x. case predicate of None \<Rightarrow> False | Some p \<Rightarrow> \<not> p (js_prop (JObj (snd x)) k) (snd x)"
  let ?f = "\<lambda>x st. if ?fails x then Some []
      else fact_step fuel st (id_term, JStr (fst x)) (value_term, js_prop (JObj (snd x)) k)"
  let ?P = "\<lambda>x \<rho>. \<not> ?fails x
      \<and> inst \<rho> id_term = inst \<rho> (JStr (fst x)) \<and> inst \<rho> value_term = inst \<rho> (js_prop (JObj (snd x)) k)"
  have "relates fuel (?f x) (?P x)"
    if x: "x \<in> set (for_each_node G graph)" for x
  proof (cases "?fails x")
    case True
    then show ?thesis by (simp only: True simp_thms if_True) (rule relatesI, rule relates_at_None)
  next
    case False
    have "relates fuel (\<lambda>st. fact_step fuel st (id_term, JStr (fst x)) (value_term, js_prop (JObj (snd x)) k))
      (\<lambda>\<rho>. inst \<rho> id_term = inst \<rho> (JStr (fst x)) \<and> inst \<rho> value_term = inst \<rho> (js_prop (JObj (snd x)) k))"
      using assms small_attribute [OF assms(1), of "fst x" "snd x" k] x
      by (intro relates_fact_step small_graph_str [OF assms(1)]) auto
    then show ?thesis by (simp only: False simp_thms if_False)
  qed
  then have facts: "relates fuel (\<lambda>st. flat_map_opt (\<lambda>x. ?f x st) (for_each_node G graph))
      (\<lambda>\<rho>. \<exists>x \<in> set (for_each_node G graph). ?P x \<rho>)" by (rule relates_flat_map)
  have "attr_fact fuel G graph k id_term value_term predicate st = flat_map_opt (\<lambda>x. ?f x st) (for_each_node G graph)" for st
    unfolding attr_fact_def flat_map_opt_def
  proof (intro arg_cong [where f = "\<lambda>xs. map_option concat (those xs)"] map_cong refl)
    fix x assume x: "x \<in> set (for_each_node G graph)"
    then have "get_node_attributes G graph (fst x) = snd x"
      using node_attributes by (simp add: node_map_iff [symmetric])
    then show "(case x of (node, _) \<Rightarrow> let attrs = get_node_attributes G graph node; v = get_node_attribute G graph node k
        in if case predicate of None \<Rightarrow> False | Some p \<Rightarrow> \<not> p v attrs then Some []
           else fact_step fuel st (id_term, JStr node) (value_term, v)) = ?f x st"
      using small_attribute(2) [OF assms(1), of "fst x" "snd x"] x by (cases predicate) (simp_all add: Let_def split_beta)
  qed
  then have eq: "attr_fact fuel G graph k id_term value_term predicate = (\<lambda>st. flat_map_opt (\<lambda>x. ?f x st) (for_each_node G graph))"
    by (rule ext)
  show ?thesis using facts unfolding eq by (cases predicate) (simp_all add: case_prod_unfold del: inst.simps(2))
qed

lemma relates_label:
  assumes "small_graph fuel G graph" and "wf_term id_term"
  shows "relates fuel (label_step fuel G graph id_term test)
    (\<lambda>\<rho>. \<exists>(node, attrs) \<in> set (for_each_node G graph).
       (\<exists>raw. js_prop (JObj attrs) ''label'' = JStr raw \<and> test raw) \<and> inst \<rho> id_term = GPrim (JStr node))"
proof -
  let ?f = "\<lambda>x st. case js_prop (JObj (snd x)) ''label'' of
      JStr raw \<Rightarrow> if \<not> test raw then Some [] else goal_equal fuel id_term (JStr (fst x)) st | _ \<Rightarrow> Some []"
  let ?P = "\<lambda>x \<rho>. (\<exists>raw. js_prop (JObj (snd x)) ''label'' = JStr raw \<and> test raw) \<and> inst \<rho> id_term = inst \<rho> (JStr (fst x))"
  have "relates fuel (?f x) (?P x)" for x
  proof (cases "\<exists>raw. js_prop (JObj (snd x)) ''label'' = JStr raw \<and> test raw")
    case True
    then show ?thesis using relates_equal [OF assms(2) small_graph_str [OF assms(1)]] by auto
  next
    case False
    then have "?f x = (\<lambda>_. Some [])" by (auto simp: fun_eq_iff split: jsval.split)
    then show ?thesis using False relatesI [OF relates_at_None] by (simp only: simp_thms)
  qed
  then have facts: "relates fuel (\<lambda>st. flat_map_opt (\<lambda>x. ?f x st) (for_each_node G graph))
      (\<lambda>\<rho>. \<exists>x \<in> set (for_each_node G graph). ?P x \<rho>)" by (rule relates_flat_map)
  have "label_step fuel G graph id_term test st = flat_map_opt (\<lambda>x. ?f x st) (for_each_node G graph)" for st
    unfolding label_step_def flat_map_opt_def
  proof (intro arg_cong [where f = "\<lambda>xs. map_option concat (those xs)"] map_cong refl)
    fix x assume x: "x \<in> set (for_each_node G graph)"
    show "(case x of (node, _) \<Rightarrow> case get_node_attribute G graph node ''label'' of
         JStr raw_label \<Rightarrow> if \<not> test raw_label then Some [] else goal_equal fuel id_term (JStr node) st
       | _ \<Rightarrow> Some []) = ?f x st"
      using small_attribute(2) [OF assms(1), of "fst x" "snd x"] x by (simp add: split_beta)
  qed
  then have "label_step fuel G graph id_term test = (\<lambda>st. flat_map_opt (\<lambda>x. ?f x st) (for_each_node G graph))"
    by (rule ext)
  then show ?thesis using facts by (simp add: case_prod_unfold)
qed

subsection \<open>Graphs built by merging\<close>

lemma map_of_Cons: "map_of (n # ns) = (map_of ns)(fst n \<mapsto> snd n)"
  by (cases n) simp

lemma fold_merge_nodes:
  assumes "distinct (map fst ns)" and "fst ` set ns \<inter> nodes_of G g = {}"
  shows "node_map G (fold (\<lambda>n r. if P (fst n) then merge_node G (fst n) (snd n) r else r) ns g) =
      node_map G g ++ map_of (filter (\<lambda>n. P (fst n)) ns)
    \<and> edge_map G (fold (\<lambda>n r. if P (fst n) then merge_node G (fst n) (snd n) r else r) ns g) = edge_map G g"
  using assms
proof (induction ns arbitrary: g)
  case (Cons n ns)
  let ?F = "fold (\<lambda>n r. if P (fst n) then merge_node G (fst n) (snd n) r else r)"
  let ?g = "if P (fst n) then merge_node G (fst n) (snd n) g else g"
  have new: "node_map G g (fst n) = None" using Cons.prems(2) by auto
  have step: "node_map G ?g = (if P (fst n) then (node_map G g)(fst n \<mapsto> snd n) else node_map G g)"
    "edge_map G ?g = edge_map G g"
    by (simp_all add: merge_node new merge_attributes_def)
  have "fst ` set ns \<inter> nodes_of G ?g = {}" using Cons.prems by (auto simp: step)
  moreover have "distinct (map fst ns)" using Cons.prems(1) by simp
  ultimately have ih: "node_map G (?F ns ?g) = node_map G ?g ++ map_of (filter (\<lambda>n. P (fst n)) ns)"
    "edge_map G (?F ns ?g) = edge_map G ?g"
    using Cons.IH [of ?g] by blast+
  have "edge_map G (?F (n # ns) g) = edge_map G g" using ih(2) by (simp add: step(2))
  moreover have "map_of (filter (\<lambda>n. P (fst n)) ns) (fst n) = None"
    using Cons.prems(1) by (auto simp: map_of_eq_None_iff)
  then have "node_map G (?F (n # ns) g) = node_map G g ++ map_of (filter (\<lambda>n. P (fst n)) (n # ns))"
    using ih(1) by (simp add: step(1) map_add_upd_left domIff map_of_Cons)
  ultimately show ?case by blast
qed simp_all

lemma fold_merge_edges:
  assumes "distinct (map snd es)" and "inj f"
    and "\<And>e. e \<in> set es \<Longrightarrow> Q (snd e) \<Longrightarrow>
      fst (f (snd e)) \<in> nodes_of G g \<and> snd (f (snd e)) \<in> nodes_of G g \<and> edge_map G g (f (snd e)) = None"
  shows "node_map G (fold (\<lambda>e r. if Q (snd e) then merge_edge G (fst (f (snd e))) (snd (f (snd e))) (fst e) r else r) es g) = node_map G g
    \<and> edge_map G (fold (\<lambda>e r. if Q (snd e) then merge_edge G (fst (f (snd e))) (snd (f (snd e))) (fst e) r else r) es g) =
      edge_map G g ++ map_of (map (\<lambda>e. (f (snd e), fst e)) (filter (\<lambda>e. Q (snd e)) es))"
  using assms(1,3)
proof (induction es arbitrary: g)
  case (Cons e es)
  let ?F = "fold (\<lambda>e r. if Q (snd e) then merge_edge G (fst (f (snd e))) (snd (f (snd e))) (fst e) r else r)"
  let ?g = "if Q (snd e) then merge_edge G (fst (f (snd e))) (snd (f (snd e))) (fst e) g else g"
  have ends: "fst (f (snd e)) \<in> nodes_of G g" "snd (f (snd e)) \<in> nodes_of G g" "edge_map G g (f (snd e)) = None"
    if "Q (snd e)" using Cons.prems(2) [of e] that by auto
  have step: "node_map G ?g = node_map G g"
    "edge_map G ?g = (if Q (snd e) then (edge_map G g)(f (snd e) \<mapsto> fst e) else edge_map G g)"
    using merge_edge [of "fst (f (snd e))" g "snd (f (snd e))" "fst e"] ends by (simp_all add: merge_attributes_def)
  have other: "f (snd e') \<noteq> f (snd e)" if "e' \<in> set es" for e'
  proof
    assume "f (snd e') = f (snd e)"
    then have "snd e' = snd e" by (rule injD [OF assms(2)])
    moreover have "snd e' \<in> set (map snd es)" using that by simp
    ultimately show False using Cons.prems(1) by simp
  qed
  have "fst (f (snd e')) \<in> nodes_of G ?g \<and> snd (f (snd e')) \<in> nodes_of G ?g \<and> edge_map G ?g (f (snd e')) = None"
    if "e' \<in> set es" "Q (snd e')" for e'
    using Cons.prems(2) [of e'] other that by (simp add: step)
  moreover have "distinct (map snd es)" using Cons.prems(1) by simp
  ultimately have ih: "node_map G (?F es ?g) = node_map G ?g"
    "edge_map G (?F es ?g) = edge_map G ?g ++ map_of (map (\<lambda>e. (f (snd e), fst e)) (filter (\<lambda>e. Q (snd e)) es))"
    using Cons.IH [of ?g] by blast+
  have "node_map G (?F (e # es) g) = node_map G g" using ih(1) by (simp add: step(1))
  moreover have "map_of (map (\<lambda>e. (f (snd e), fst e)) (filter (\<lambda>e. Q (snd e)) es)) (f (snd e)) = None"
    by (auto simp: map_of_eq_None_iff dest: other)
  then have "edge_map G (?F (e # es) g) =
      edge_map G g ++ map_of (map (\<lambda>e. (f (snd e), fst e)) (filter (\<lambda>e. Q (snd e)) (e # es)))"
    using ih(2) by (simp add: step(2) map_add_upd_left domIff)
  ultimately show ?case by blast
qed simp_all

lemma reverse_maps:
  "node_map G (reverse_graph G g) = node_map G g"
  "edge_map G (reverse_graph G g) (x, y) = edge_map G g (y, x)"
proof -
  define ns where "ns = fold (\<lambda>n r. if True then merge_node G (fst n) (snd n) r else r) (for_each_node G g) (new_graph G)"
  define es where "es = fold (\<lambda>e r. if True then merge_edge G (fst (prod.swap (snd e))) (snd (prod.swap (snd e))) (fst e) r else r)
    (for_each_edge G g) ns"
  have ns: "node_map G ns = node_map G g" "edge_map G ns = Map.empty"
    using fold_merge_nodes [of "for_each_node G g" "new_graph G" "\<lambda>_. True"] nodes_distinct [of g]
    unfolding ns_def by (simp_all add: node_map_def [of G g] del: if_True)
  have "fst (prod.swap (snd e)) \<in> nodes_of G ns \<and> snd (prod.swap (snd e)) \<in> nodes_of G ns
      \<and> edge_map G ns (prod.swap (snd e)) = None" if "e \<in> set (for_each_edge G g)" for e
    using edge_ends' [of "fst (snd e)" "snd (snd e)" g] that by (simp add: ns edges_of_set)
  then have es: "node_map G es = node_map G ns"
    "edge_map G es = map_of (map (\<lambda>e. (prod.swap (snd e), fst e)) (for_each_edge G g))"
    using fold_merge_edges [of "for_each_edge G g" prod.swap "\<lambda>_. True" ns] edges_distinct [of g] ns(2)
    unfolding es_def by (simp_all del: if_True)
  have rev: "reverse_graph G g = es"
    by (simp add: reverse_graph_def case_prod_unfold es_def ns_def)
  show "node_map G (reverse_graph G g) = node_map G g" by (simp only: rev es ns)
  have "map (\<lambda>e. (prod.swap (snd e), fst e)) (for_each_edge G g) =
      map (\<lambda>(p, a). (prod.swap p, a)) (map (\<lambda>(a, s, t). ((s, t), a)) (for_each_edge G g))" by auto
  moreover have "map_of (map (\<lambda>(p, a). (prod.swap p, a)) kvs) (x, y) = map_of kvs (y, x)" for kvs :: "((jstring \<times> jstring) \<times> attributes) list"
    by (induction kvs) auto
  ultimately show "edge_map G (reverse_graph G g) (x, y) = edge_map G g (y, x)"
    by (simp only: rev es edge_map_def [of G g])
qed

lemma reverse_edges: "edges_of_graph G (reverse_graph G g) = (edges_of_graph G g)\<inverse>"
  using reverse_maps(2) by (force simp: domIff)

lemma induced_maps:
  "node_map G (induced_subgraph_from_ids G g ids) = node_map G g |` set ids"
  "edge_map G (induced_subgraph_from_ids G g ids) = restrict_edges (set ids) (edge_map G g)"
proof -
  let ?P = "\<lambda>x. x \<in> set ids"
  let ?Q = "\<lambda>p. fst p \<in> set ids \<and> snd p \<in> set ids"
  define ns where "ns = fold (\<lambda>n r. if ?P (fst n) then merge_node G (fst n) (snd n) r else r) (for_each_node G g) (new_graph G)"
  define es where "es = fold (\<lambda>e r. if ?Q (snd e) then merge_edge G (fst (id (snd e))) (snd (id (snd e))) (fst e) r else r)
    (for_each_edge G g) ns"
  have filter: "map_of (filter (\<lambda>n. R (fst n)) kvs) = map_of kvs |` {k. R k}" for R and kvs :: "('k \<times> attributes) list"
    by (induction kvs) (auto simp: restrict_map_def fun_eq_iff)
  have ns: "node_map G ns = node_map G g |` set ids" "edge_map G ns = Map.empty"
    using fold_merge_nodes [of "for_each_node G g" "new_graph G" ?P] nodes_distinct [of g]
    unfolding ns_def by (simp_all add: node_map_def [of G g] filter [of ?P])
  have "fst (id (snd e)) \<in> nodes_of G ns \<and> snd (id (snd e)) \<in> nodes_of G ns \<and> edge_map G ns (id (snd e)) = None"
    if "e \<in> set (for_each_edge G g)" "?Q (snd e)" for e
    using edge_ends' [of "fst (snd e)" "snd (snd e)" g] that by (auto simp: ns edges_of_set)
  then have es: "node_map G es = node_map G ns"
    "edge_map G es = map_of (map (\<lambda>e. (id (snd e), fst e)) (filter (\<lambda>e. ?Q (snd e)) (for_each_edge G g)))"
    using fold_merge_edges [of "for_each_edge G g" id ?Q ns] edges_distinct [of g] ns(2)
    unfolding es_def by simp_all
  have ind: "induced_subgraph_from_ids G g ids = es"
    unfolding induced_subgraph_from_ids_def case_prod_unfold es_def ns_def id_apply ..
  show "node_map G (induced_subgraph_from_ids G g ids) = node_map G g |` set ids" by (simp only: ind es ns)
  have "map (\<lambda>e. (id (snd e), fst e)) (filter (\<lambda>e. ?Q (snd e)) xs) =
      filter (\<lambda>n. ?Q (fst n)) (map (\<lambda>(a, s, t). ((s, t), a)) xs)" for xs :: "(attributes \<times> jstring \<times> jstring) list"
    by (induction xs) auto
  then have "edge_map G (induced_subgraph_from_ids G g ids) = edge_map G g |` {p. ?Q p}"
    by (simp only: ind es filter [of ?Q] edge_map_def [of G g])
  moreover have "{p. ?Q p} = set ids \<times> set ids" by auto
  ultimately show "edge_map G (induced_subgraph_from_ids G g ids) = restrict_edges (set ids) (edge_map G g)"
    by (simp add: restrict_edges_def)
qed

subsection \<open>Reachability\<close>

lemma add_pairs:
  assumes "inj_on (\<lambda>(s, t). arrow_key s t) (N \<times> N)" and "source \<in> N" and "set visited \<subseteq> N"
    and "set pairs \<subseteq> N \<times> N"
  shows "\<exists>pairs'. fold (add_pair source) visited (pairs, map (\<lambda>(s, t). arrow_key s t) pairs) =
      (pairs', map (\<lambda>(s, t). arrow_key s t) pairs') \<and> set pairs' = set pairs \<union> {source} \<times> set visited"
  using assms(3,4)
proof (induction visited arbitrary: pairs)
  case (Cons c visited)
  let ?k = "\<lambda>ps. map (\<lambda>(s, t). arrow_key s t) ps"
  have mem: "arrow_key source c \<in> set (?k pairs) \<longleftrightarrow> (source, c) \<in> set pairs"
  proof
    assume "arrow_key source c \<in> set (?k pairs)"
    then obtain s t where st: "(s, t) \<in> set pairs" "arrow_key s t = arrow_key source c" by auto
    then have "(s, t) = (source, c)"
      using inj_onD [OF assms(1), of "(s, t)" "(source, c)"] Cons.prems assms(2) by auto
    then show "(source, c) \<in> set pairs" using st(1) by simp
  qed force
  let ?ps = "if (source, c) \<in> set pairs then pairs else pairs @ [(source, c)]"
  have step: "add_pair source c (pairs, ?k pairs) = (?ps, ?k ?ps)"
    using mem by (simp add: add_pair_def Let_def)
  have "set ?ps \<subseteq> N \<times> N" using Cons.prems assms(2) by auto
  then obtain pairs' where "fold (add_pair source) visited (?ps, ?k ?ps) = (pairs', ?k pairs')"
    "set pairs' = set ?ps \<union> {source} \<times> set visited"
    using Cons.IH [of ?ps] Cons.prems(1) by auto
  then show ?case by (intro exI [of _ pairs']) (auto simp: step)
qed simp

lemma reachable_pairs:
  assumes "arrows_ok G g"
  shows "\<exists>pairs. enumerate_reachable_pairs G g = Some pairs \<and> set pairs = (edges_of_graph G g)\<^sup>+"
proof -
  let ?N = "nodes_of G g" and ?E = "edges_of_graph G g"
  let ?k = "\<lambda>ps. map (\<lambda>(s, t). arrow_key s t) ps"
  let ?step = "\<lambda>(source, _) acc. Option.bind acc (\<lambda>a. map_option (\<lambda>visited. fold (add_pair source) visited a)
      (worklist (\<lambda>_. False) (out_neighbors G g) [] (out_neighbors G g source)))"
  have from_one: "\<exists>r. worklist (\<lambda>_. False) (out_neighbors G g) [] (out_neighbors G g x) = Some r \<and> set r = ?E\<^sup>+ `` {x}"
    if "x \<in> ?N" for x
  proof -
    have "set (out_neighbors G g x) \<subseteq> ?N" using out_neighbors [OF that] edge_ends [of g] by auto
    then obtain r where r: "worklist (\<lambda>_. False) (out_neighbors G g) [] (out_neighbors G g x) = Some r"
      "set r = ?E\<^sup>* `` set (out_neighbors G g x)"
      using worklist_relation [of ?N _ "\<lambda>_. False" "out_neighbors G g" ?E] out_neighbors edge_ends [of g] by (metis finite_nodes)
    have "?E\<^sup>* `` (?E `` {x}) = ?E\<^sup>+ `` {x}" by (auto simp: trancl_unfold_left dest: tranclD)
    then show ?thesis using r out_neighbors [OF that] by auto
  qed
  have "\<exists>pairs'. fold ?step ns (Some (pairs, ?k pairs)) = Some (pairs', ?k pairs')
      \<and> set pairs' = set pairs \<union> {(x, y). x \<in> fst ` set ns \<and> (x, y) \<in> ?E\<^sup>+}"
    if "fst ` set ns \<subseteq> ?N" and "set pairs \<subseteq> ?N \<times> ?N" for ns pairs
    using that
  proof (induction ns arbitrary: pairs)
    case (Cons n ns)
    obtain x a where n: "n = (x, a)" by force
    have x: "x \<in> ?N" using Cons.prems(1) by (simp add: n)
    obtain r where r: "worklist (\<lambda>_. False) (out_neighbors G g) [] (out_neighbors G g x) = Some r" "set r = ?E\<^sup>+ `` {x}"
      using from_one [OF x] by blast
    have "?E\<^sup>+ \<subseteq> ?N \<times> ?N" using trancl_subset_Sigma [OF edge_ends [of g]] .
    then have rN: "set r \<subseteq> ?N" using r(2) by blast
    obtain pairs1 where one: "fold (add_pair x) r (pairs, ?k pairs) = (pairs1, ?k pairs1)"
      "set pairs1 = set pairs \<union> {x} \<times> set r"
      using add_pairs [OF assms [unfolded arrows_ok_def] x rN Cons.prems(2)] by blast
    have "set pairs1 \<subseteq> ?N \<times> ?N" using one(2) x rN Cons.prems(2) by auto
    then obtain pairs' where two: "fold ?step ns (Some (pairs1, ?k pairs1)) = Some (pairs', ?k pairs')"
      "set pairs' = set pairs1 \<union> {(x, y). x \<in> fst ` set ns \<and> (x, y) \<in> ?E\<^sup>+}"
      using Cons.IH [of pairs1] Cons.prems(1) by auto
    have "fold ?step (n # ns) (Some (pairs, ?k pairs)) = Some (pairs', ?k pairs')"
      using two(1) by (simp add: n r(1) one(1))
    then show ?case using two(2) one(2) r(2) by (intro exI [of _ pairs']) (auto simp: n)
  qed simp
  from this [of "for_each_node G g" "[]"] obtain pairs where pairs:
    "fold ?step (for_each_node G g) (Some ([], [])) = Some (pairs, ?k pairs)"
    "set pairs = {(x, y). x \<in> ?N \<and> (x, y) \<in> ?E\<^sup>+}"
    by (auto simp: nodes_of_set)
  have "x \<in> ?N" if "(x, y) \<in> ?E\<^sup>+" for x y
    using tranclD [OF that] edge_ends' by blast
  then have "set pairs = ?E\<^sup>+" using pairs(2) by auto
  then show ?thesis using pairs(1) by (simp add: enumerate_reachable_pairs_def)
qed

lemma relates_reachable:
  assumes "small_graph fuel G g" and "arrows_ok G g" and "wf_term source_term" and "wf_term target_term"
  shows "relates fuel (reachable fuel G g source_term target_term)
    (\<lambda>\<rho>. \<exists>(s, t) \<in> (edges_of_graph G g)\<^sup>+. inst \<rho> source_term = GPrim (JStr s) \<and> inst \<rho> target_term = GPrim (JStr t))"
proof -
  obtain pairs where pairs: "enumerate_reachable_pairs G g = Some pairs" "set pairs = (edges_of_graph G g)\<^sup>+"
    using reachable_pairs [OF assms(2)] by blast
  let ?f = "\<lambda>x st. fact_step fuel st (source_term, JStr (fst x)) (target_term, JStr (snd x))"
  let ?P = "\<lambda>x \<rho>. inst \<rho> source_term = inst \<rho> (JStr (fst x)) \<and> inst \<rho> target_term = inst \<rho> (JStr (snd x))"
  have "relates fuel (?f x) (?P x)" for x
    using assms(3,4) by (intro relates_fact_step small_graph_str [OF assms(1)])
  then have "relates fuel (\<lambda>st. flat_map_opt (\<lambda>x. ?f x st) pairs) (\<lambda>\<rho>. \<exists>x \<in> set pairs. ?P x \<rho>)"
    by (rule relates_flat_map)
  then show ?thesis by (simp add: reachable_def [abs_def] pairs case_prod_unfold)
qed

end

section \<open>Queries\<close>

lemma num_of_int_inj [simp]: "num_of_int (int m) = num_of_int (int n) \<longleftrightarrow> m = n"
proof
  assume eq: "num_of_int (int m) = num_of_int (int n)"
  have recover: "a * 10 ^ nat e = m' * 10 ^ nat e'"
    if "strip_zeros m' e' = (a, e)" "0 \<le> e'" "m' \<noteq> 0" for m' a e e' :: int
  proof -
    have "e' \<le> e \<and> a * 10 ^ nat (e - e') = m'" using that
    proof (induction m' e' rule: strip_zeros.induct)
      case (1 m' e')
      show ?case
      proof (cases "m' \<noteq> 0 \<and> m' mod 10 = 0")
        case True
        then have nz: "m' div 10 \<noteq> 0" by (auto simp: dvd_div_eq_0_iff mod_eq_0_iff_dvd)
        have "e' + 1 \<le> e \<and> a * 10 ^ nat (e - (e' + 1)) = m' div 10"
          using "1.IH" [OF True _ _ nz] "1.prems" True by (simp add: strip_zeros.simps [of m' e'])
        moreover have "10 ^ nat (e - e') = (10 :: int) * 10 ^ nat (e - (e' + 1))"
          if "e' + 1 \<le> e" using that by (simp add: nat_diff_distrib power_Suc [symmetric] Suc_nat_eq_nat_zadd1 del: power_Suc)
        ultimately have "e' \<le> e \<and> a * 10 ^ nat (e - e') = 10 * (m' div 10)" by auto
        then show ?thesis using True by auto
      next
        case False
        then show ?thesis using "1.prems" by (simp add: strip_zeros.simps [of m' e'])
      qed
    qed
    then have "10 ^ nat e = (10 :: int) ^ nat (e - e') * 10 ^ nat e'"
      using that(2) by (simp add: power_add [symmetric] nat_add_distrib [symmetric])
    then show ?thesis using \<open>e' \<le> e \<and> a * 10 ^ nat (e - e') = m'\<close> by simp
  qed
  show "m = n"
  proof (cases "m = 0 \<or> n = 0")
    case True
    have "num_of_int (int k) = Dec 0 0 \<longleftrightarrow> k = 0" for k
    proof (cases "k = 0")
      case False
      obtain a e where ae: "strip_zeros (int k) 0 = (a, e)" by force
      have "a \<noteq> 0" using recover [OF ae] False by auto
      then show ?thesis using False by (simp add: num_of_int_def mk_dec_def ae)
    qed (simp add: num_of_int_def mk_dec_def)
    then show ?thesis using True eq by metis
  next
    case False
    obtain a e where ae: "strip_zeros (int m) 0 = (a, e)" by force
    obtain b f where bf: "strip_zeros (int n) 0 = (b, f)" by force
    have "a = b" "e = f" using eq False by (simp_all add: num_of_int_def mk_dec_def ae bf)
    then show ?thesis using recover [OF ae] recover [OF bf] False by simp
  qed
qed simp

lemma map_key_num [simp]: "map_key (num_of_int i) = num_of_int i"
  by (simp add: map_key_def num_of_int_def mk_dec_def split: prod.split)

lemma logic_id_var [simp]: "logic_id (make_logic_var n name) = Some (num_of_int (int n))"
  by (auto simp: make_logic_var_def logic_id_def split: option.split)

lemma wf_var [simp]: "wf_term (make_logic_var n name)"
  by (auto simp: make_logic_var_def split: option.split)

lemma inst_logic_var [simp]: "inst \<rho> (make_logic_var n name) = \<rho> (num_of_int (int n))"
  by (simp add: inst_var)

lemma small_empty_state [simp]: "small_subst fuel (gs_subst (empty_goal_state n))" "solves \<rho> (gs_subst (empty_goal_state n))"
  by (simp_all add: empty_goal_state_def small_subst_def solves_def)

lemma set_string_results [simp]: "set (string_results results) = {s. JStr s \<in> set results}" "distinct (string_results results)"
proof -
  have "set (fold (\<lambda>v out. case v of JStr s \<Rightarrow> set_add s out | _ \<Rightarrow> out) results out) = set out \<union> {s. JStr s \<in> set results}"
    for out by (induction results arbitrary: out) (auto split: jsval.split)
  then show "set (string_results results) = {s. JStr s \<in> set results}" by (simp add: string_results_def)
  have "distinct out \<Longrightarrow> distinct (fold (\<lambda>v out. case v of JStr s \<Rightarrow> set_add s out | _ \<Rightarrow> out) results out)"
    for out by (induction results arbitrary: out) (auto split: jsval.split)
  then show "distinct (string_results results)" by (simp add: string_results_def)
qed

text \<open>A variable that must be a string in every solution is bound to one.\<close>

lemma forced_string:
  assumes "small_subst fuel s" and "\<And>\<rho>. solves \<rho> s \<Longrightarrow> \<exists>x. \<rho> i = GPrim (JStr x)"
  shows "\<exists>x. map_of s i = Some (JStr x)"
proof (cases "map_of s i")
  case None
  then show ?thesis
    using assms(2) [OF solves_solution [OF assms(1), of "GArr []"]] by (simp add: solution_def)
next
  case (Some t)
  obtain x where x: "solution s (GArr []) i = GPrim (JStr x)"
    using assms(2) [OF solves_solution [OF assms(1)]] by blast
  then have "inst (\<lambda>_. GArr []) t = GPrim (JStr x)" using Some by (simp add: solution_def)
  moreover have "ground t" using assms(1) Some by (auto simp: small_subst_def small_def)
  ultimately have "t = JStr x" by (cases t) auto
  then show ?thesis using Some by simp
qed

lemma relates_states:
  assumes "relates_at fuel (empty_goal_state m) g P"
  obtains sts where "g (empty_goal_state m) = Some sts"
    and "\<And>st. st \<in> set sts \<Longrightarrow> small_subst fuel (gs_subst st)"
    and "\<And>st \<rho>. st \<in> set sts \<Longrightarrow> solves \<rho> (gs_subst st) \<Longrightarrow> P \<rho>"
    and "\<And>\<rho>. P \<rho> \<Longrightarrow> \<exists>st \<in> set sts. solves \<rho> (gs_subst st)"
  using assms unfolding relates_at_def by auto

lemma query_node_ids_set:
  assumes rel: "relates_at fuel (empty_goal_state (n + 1)) (build (make_logic_var n (Some ''node''))) P"
    and str: "\<And>\<rho>. P \<rho> \<Longrightarrow> \<exists>x. \<rho> (num_of_int (int n)) = GPrim (JStr x)" and fuel: "2 \<le> fuel"
  shows "\<exists>ids. query_node_ids fuel build None n = Some (ids, n + 1) \<and> distinct ids
    \<and> set ids = {x. \<exists>\<rho>. P \<rho> \<and> \<rho> (num_of_int (int n)) = GPrim (JStr x)}"
proof -
  let ?v = "make_logic_var n (Some ''node'')" and ?i = "num_of_int (int n)"
  obtain sts where sts: "build ?v (empty_goal_state (n + 1)) = Some sts"
    "\<And>st. st \<in> set sts \<Longrightarrow> small_subst fuel (gs_subst st)"
    "\<And>st \<rho>. st \<in> set sts \<Longrightarrow> solves \<rho> (gs_subst st) \<Longrightarrow> P \<rho>"
    "\<And>\<rho>. P \<rho> \<Longrightarrow> \<exists>st \<in> set sts. solves \<rho> (gs_subst st)"
    using relates_states [OF rel] by metis
  have bound: "\<exists>x. map_of (gs_subst st) ?i = Some (JStr x)" if "st \<in> set sts" for st
    using forced_string [OF sts(2) [OF that]] sts(3) [OF that] str by blast
  have "reify fuel ?v (gs_subst st) = Some (the (map_of (gs_subst st) ?i))" if st: "st \<in> set sts" for st
  proof -
    obtain x where x: "map_of (gs_subst st) ?i = Some (JStr x)" using bound [OF st] ..
    have "reify fuel ?v (gs_subst st) = Some (JStr x)"
      using fuel x by (intro reify_var [of _ ?i]) simp_all
    then show ?thesis by (simp add: x)
  qed
  then have "those (map (\<lambda>st. reify fuel ?v (gs_subst st)) sts) = Some (map (\<lambda>st. the (map_of (gs_subst st) ?i)) sts)"
    by (rule those_map_id)
  then have run: "run_goal fuel (build ?v) ?v None (n + 1) = Some (map (\<lambda>st. the (map_of (gs_subst st) ?i)) sts)"
    using sts(1) by (simp add: run_goal_def)
  let ?ids = "string_results (map (\<lambda>st. the (map_of (gs_subst st) ?i)) sts)"
  have "(\<exists>st \<in> set sts. map_of (gs_subst st) ?i = Some (JStr x)) \<longleftrightarrow> (\<exists>\<rho>. P \<rho> \<and> \<rho> ?i = GPrim (JStr x))" for x
  proof
    assume "\<exists>st \<in> set sts. map_of (gs_subst st) ?i = Some (JStr x)"
    then obtain st where st: "st \<in> set sts" "map_of (gs_subst st) ?i = Some (JStr x)" by blast
    let ?\<rho> = "solution (gs_subst st) (GArr [])"
    have "P ?\<rho>" using sts(3) [OF st(1)] solves_solution [OF sts(2) [OF st(1)]] by blast
    moreover have "?\<rho> ?i = GPrim (JStr x)" by (simp add: solution_def st(2))
    ultimately show "\<exists>\<rho>. P \<rho> \<and> \<rho> ?i = GPrim (JStr x)" by blast
  next
    assume "\<exists>\<rho>. P \<rho> \<and> \<rho> ?i = GPrim (JStr x)"
    then obtain \<rho> where \<rho>: "P \<rho>" "\<rho> ?i = GPrim (JStr x)" by blast
    obtain st where st: "st \<in> set sts" "solves \<rho> (gs_subst st)" using sts(4) [OF \<rho>(1)] by blast
    obtain y where y: "map_of (gs_subst st) ?i = Some (JStr y)" using bound [OF st(1)] ..
    then have "\<rho> ?i = GPrim (JStr y)" using st(2) by (auto simp: solves_def)
    then show "\<exists>st \<in> set sts. map_of (gs_subst st) ?i = Some (JStr x)" using st(1) y \<rho>(2) by auto
  qed
  moreover have "JStr x \<in> set (map (\<lambda>st. the (map_of (gs_subst st) ?i)) sts) \<longleftrightarrow>
      (\<exists>st \<in> set sts. map_of (gs_subst st) ?i = Some (JStr x))" for x
    using bound by force
  ultimately have "set ?ids = {x. \<exists>\<rho>. P \<rho> \<and> \<rho> ?i = GPrim (JStr x)}"
    unfolding set_string_results(1) by presburger
  then show ?thesis
    using run by (intro exI [of _ ?ids]) (simp add: query_node_ids_def logic_var_def del: set_string_results(1))
qed

lemma query_edges_one:
  assumes rel: "relates_at fuel (empty_goal_state (n + 2))
      (build (make_logic_var n (Some ''source'')) (make_logic_var (n + 1) (Some ''target''))) P"
    and str: "\<And>\<rho>. P \<rho> \<Longrightarrow> (\<exists>x. \<rho> (num_of_int (int n)) = GPrim (JStr x)) \<and> (\<exists>y. \<rho> (num_of_int (int (n + 1))) = GPrim (JStr y))"
    and fuel: "3 \<le> fuel"
  shows "\<exists>edges. query_edges fuel build (Some 1) n = Some (edges, n + 2) \<and> (edges \<noteq> [] \<longleftrightarrow> (\<exists>\<rho>. P \<rho>))"
proof -
  let ?v = "make_logic_var n (Some ''source'')" and ?w = "make_logic_var (n + 1) (Some ''target'')"
  obtain sts where sts: "build ?v ?w (empty_goal_state (n + 2)) = Some sts"
    "\<And>st. st \<in> set sts \<Longrightarrow> small_subst fuel (gs_subst st)"
    "\<And>st \<rho>. st \<in> set sts \<Longrightarrow> solves \<rho> (gs_subst st) \<Longrightarrow> P \<rho>"
    "\<And>\<rho>. P \<rho> \<Longrightarrow> \<exists>st \<in> set sts. solves \<rho> (gs_subst st)"
    using relates_states [OF rel] by metis
  show ?thesis
  proof (cases sts)
    case Nil
    then have "run_goal fuel (build ?v ?w) (JArr [?v, ?w]) (Some 1) (n + 2) = Some []"
      using sts(1) by (simp add: run_goal_def)
    moreover have "\<not> (\<exists>\<rho>. P \<rho>)" using sts(4) by (auto simp: Nil)
    ultimately show ?thesis by (simp add: query_edges_def logic_var_def edge_results_def)
  next
    case (Cons st rest)
    then have st: "st \<in> set sts" by simp
    have "\<exists>x. map_of (gs_subst st) (num_of_int (int n)) = Some (JStr x)"
      "\<exists>y. map_of (gs_subst st) (num_of_int (int (n + 1))) = Some (JStr y)"
      using forced_string [OF sts(2) [OF st]] sts(3) [OF st] str by blast+
    then obtain x y where xy: "map_of (gs_subst st) (num_of_int (int n)) = Some (JStr x)"
      "map_of (gs_subst st) (num_of_int (int (n + 1))) = Some (JStr y)" by blast
    obtain k where k: "fuel = Suc k" "2 \<le> k" using fuel by (cases fuel) auto
    have "reify k ?v (gs_subst st) = Some (JStr x)" "reify k ?w (gs_subst st) = Some (JStr y)"
      using k(2) xy by (auto intro!: reify_var)
    then have "reify fuel (JArr [?v, ?w]) (gs_subst st) = Some (JArr [JStr x, JStr y])"
      by (simp add: k(1) logic_id_def)
    then have "run_goal fuel (build ?v ?w) (JArr [?v, ?w]) (Some 1) (n + 2) = Some [JArr [JStr x, JStr y]]"
      using sts(1) by (simp add: run_goal_def Cons)
    moreover have "P (solution (gs_subst st) (GArr []))" using sts(3) [OF st] solves_solution [OF sts(2) [OF st]] by blast
    ultimately show ?thesis by (auto simp: query_edges_def logic_var_def edge_results_def)
  qed
qed

section \<open>Properties\<close>

text \<open>
  C30: Unification with a ground right side ends: with fuel for the term and the bound terms it is a
  clash, and then no valuation that solves the substitution makes the sides equal, or a
  substitution whose solutions are exactly those of the old one that make the sides equal.
\<close>

theorem unify_ground_ends:
  assumes "wf_term l" and "small fuel r" and "small_subst fuel s"
  shows "unify fuel l r s = Clash \<and> (\<forall>\<rho>. solves \<rho> s \<longrightarrow> inst \<rho> l \<noteq> inst \<rho> r)
    \<or> (\<exists>s'. unify fuel l r s = Unifies s' \<and> small_subst fuel s' \<and> (\<forall>\<rho>. solves \<rho> s' \<longleftrightarrow> solves \<rho> s \<and> inst \<rho> l = inst \<rho> r))"
proof -
  have "wf_term r" using assms(2) by (simp add: small_def)
  then have "decides (unify fuel l r s) s (\<lambda>\<rho>. inst \<rho> l = inst \<rho> r)"
    using assms(1) small_subst_wf [OF assms(3)] by (intro unify_decides_both(1))
  moreover have "unify fuel l r s = Clash \<or> (\<exists>s'. unify fuel l r s = Unifies s' \<and> small_subst fuel s')"
    using assms by (intro unify_small_both(1)) simp_all
  ultimately show ?thesis by (auto simp: decides_def)
qed

theorem unify_ground_ends_witness:
  "\<exists>s'. unify 4 (JArr [make_logic_var 0 None, JStr ''a'']) (JArr [JStr ''b'', JStr ''a'']) [] = Unifies s'
     \<and> (\<forall>\<rho>. solves \<rho> s' \<longleftrightarrow> \<rho> (num_of_int 0) = GPrim (JStr ''b''))"
proof -
  let ?l = "JArr [make_logic_var 0 None, JStr ''a'']" and ?r = "JArr [JStr ''b'', JStr ''a'']"
  have pre: "wf_term ?l" "small 4 ?r" "small_subst 4 []" by (simp_all add: small_def small_subst_def)
  have inst: "inst \<rho> ?l = inst \<rho> ?r \<longleftrightarrow> \<rho> (num_of_int 0) = GPrim (JStr ''b'')" for \<rho> by simp
  have "unify 4 ?l ?r [] \<noteq> Clash" by code_simp
  then obtain s' where "unify 4 ?l ?r [] = Unifies s'" "\<forall>\<rho>. solves \<rho> s' \<longleftrightarrow> solves \<rho> [] \<and> inst \<rho> ?l = inst \<rho> ?r"
    using unify_ground_ends [OF pre] by auto
  then show ?thesis unfolding inst by (auto simp: solves_def)
qed

text \<open>
  There is no occurs check: a variable unifies with an array that holds it, and no amount of
  fuel suffices to reify the variable under the cyclic substitution (the code does not return).
\<close>

lemma unify_cyclic_binding:
  "unify (Suc n) (make_logic_var i name) (JArr [make_logic_var i name]) [] =
     Unifies [(num_of_int (int i), JArr [make_logic_var i name])]
   \<and> reify fuel (make_logic_var i name) [(num_of_int (int i), JArr [make_logic_var i name])] = None"
proof
  have nonvar: "logic_id (JArr [make_logic_var i name]) = None" by (simp add: logic_id_def)
  then show "unify (Suc n) (make_logic_var i name) (JArr [make_logic_var i name]) [] =
      Unifies [(num_of_int (int i), JArr [make_logic_var i name])]"
    by (simp add: bind_var_def)
  show "reify fuel (make_logic_var i name) [(num_of_int (int i), JArr [make_logic_var i name])] = None"
  proof (induction fuel)
    case (Suc m)
    then show ?case by (cases m) (simp_all add: nonvar)
  qed simp
qed

end
