(* ===== verification/Graph_Combinators.thy ===== *)
theory Graph_Combinators
  imports Goal_Semantics
begin

text \<open>
  The combinators of \<open>compiler/tracer/graph_combinators.ts\<close> and the finders and subgraphs of
  \<open>compiler/tracer/graph_queries.ts\<close>: filters, algebra, the collapse of accessor paths and the
  annotation of cells. Each is a function from graphs to graphs; the lemmas say which nodes and
  edges the result has. A loop that searches a graph is a worklist and may be \<open>None\<close>.
\<close>

section \<open>Filters\<close>

definition induced_subgraph_by_node_predicate ::
    "('g, 'z) graphology_scheme \<Rightarrow> 'g \<Rightarrow> (jstring \<Rightarrow> attributes \<Rightarrow> bool) \<Rightarrow> 'g" where
  "induced_subgraph_by_node_predicate G graph keep =
     (let drop_ids = map fst (filter (\<lambda>(node, attrs). \<not> keep node attrs) (for_each_node G graph))
      in fold (drop_node G) drop_ids graph)"

definition collect_reachable_from_anchors ::
    "('g, 'z) graphology_scheme \<Rightarrow> 'g \<Rightarrow> jstring list \<Rightarrow> bool \<Rightarrow> jstring list" where
  "collect_reachable_from_anchors G graph anchor_ids outbound =
     fold (\<lambda>seed visited. fold set_add (bfs_from_node G graph seed outbound) visited) anchor_ids []"

definition set_union :: "'a list \<Rightarrow> 'a list \<Rightarrow> 'a list" where
  "set_union a b = fold set_add b (fold set_add a [])"

definition nodes_connected_to_anchors_any_direction ::
    "('g, 'z) graphology_scheme \<Rightarrow> 'g \<Rightarrow> jstring list \<Rightarrow> jstring list" where
  "nodes_connected_to_anchors_any_direction G graph anchor_ids =
     set_union (collect_reachable_from_anchors G graph anchor_ids True)
       (collect_reachable_from_anchors G graph anchor_ids False)"

definition subgraph_by_kind :: "('g, 'z) graphology_scheme \<Rightarrow> 'g \<Rightarrow> jstring \<Rightarrow> 'g" where
  "subgraph_by_kind G graph node_kind =
     induced_subgraph_by_node_predicate G graph (\<lambda>_ attrs. js_prop (JObj attrs) ''kind'' = JStr node_kind)"

definition has_namespace :: "jstring \<Rightarrow> attributes \<Rightarrow> bool" where
  "has_namespace ns attrs = (case js_prop (JObj attrs) ''namespace'' of JStr s \<Rightarrow> starts_with s ns | _ \<Rightarrow> False)"

definition subgraph_by_namespace :: "('g, 'z) graphology_scheme \<Rightarrow> 'g \<Rightarrow> jstring \<Rightarrow> 'g" where
  "subgraph_by_namespace G graph ns = induced_subgraph_by_node_predicate G graph (\<lambda>_. has_namespace ns)"

definition subgraph_by_namespace_connected :: "('g, 'z) graphology_scheme \<Rightarrow> 'g \<Rightarrow> jstring \<Rightarrow> 'g" where
  "subgraph_by_namespace_connected G graph ns =
     (let anchors = map fst (filter (\<lambda>(_, attrs). has_namespace ns attrs) (for_each_node G graph));
          kept_ids = nodes_connected_to_anchors_any_direction G graph anchors
      in induced_subgraph_by_node_predicate G graph (\<lambda>node _. node \<in> set kept_ids))"

definition subgraph_by_level :: "('g, 'z) graphology_scheme \<Rightarrow> 'g \<Rightarrow> jsnum \<Rightarrow> 'g" where
  "subgraph_by_level G graph level =
     induced_subgraph_by_node_predicate G graph
       (\<lambda>_ attrs. case js_prop (JObj attrs) ''relationLevel'' of JNum n \<Rightarrow> num_strict_eq n level | _ \<Rightarrow> False)"

section \<open>Algebra\<close>

definition intersect_graphs :: "('g, 'z) graphology_scheme \<Rightarrow> 'g \<Rightarrow> 'g \<Rightarrow> 'g" where
  "intersect_graphs G a b = subgraph G a (\<lambda>node _. has_node G b node)"

definition union_graphs :: "('g, 'z) graphology_scheme \<Rightarrow> 'g \<Rightarrow> 'g \<Rightarrow> 'g" where
  "union_graphs G a b =
     (let with_nodes = fold (\<lambda>(node, attrs). merge_node G node attrs) (for_each_node G b) a
      in fold (\<lambda>(attrs, source, target) result.
           if has_node G result source \<and> has_node G result target
           then merge_edge G source target attrs result else result) (for_each_edge G b) with_nodes)"

section \<open>Accessor paths\<close>

text \<open>\<open>String(label ?? "")\<close>; labels are primitive values.\<close>

definition label_text :: "jsval \<Rightarrow> jstring" where
  "label_text v = prim_to_string (coalesce v (JStr []))"

definition default_is_accessor :: "('g, 'z) graphology_scheme \<Rightarrow> 'g \<Rightarrow> jstring \<Rightarrow> bool" where
  "default_is_accessor G graph node =
     starts_with (label_text (get_node_attribute G graph node ''label'')) ''Core|accessor''"

text \<open>
  The loop runs over a queue that grows; it visits the source's accessors and the first other
  nodes, which are the result.
\<close>

definition reach_non_accessor ::
    "('g, 'z) graphology_scheme \<Rightarrow> 'g \<Rightarrow> jstring \<Rightarrow> (jstring \<Rightarrow> bool) \<Rightarrow> jstring list option" where
  "reach_non_accessor G graph source_id is_accessor =
     map_option (\<lambda>visited. filter (\<lambda>node. \<not> is_accessor node) (drop 1 visited))
       (worklist (\<lambda>_. False) (\<lambda>node. if is_accessor node then out_neighbors G graph node else [])
         [source_id] (out_neighbors G graph source_id))"

text \<open>\<open>addEdge\<close> without attributes, of an edge that is not there.\<close>

definition add_missing_edge :: "('g, 'z) graphology_scheme \<Rightarrow> jstring \<Rightarrow> jstring \<Rightarrow> 'g \<Rightarrow> 'g" where
  "add_missing_edge G source target result =
     (if has_node G result target \<and> \<not> has_edge G result source target
      then merge_edge G source target [] result else result)"

definition collapse_accessor_paths ::
    "('g, 'z) graphology_scheme \<Rightarrow> 'g \<Rightarrow> (jstring \<Rightarrow> bool) \<Rightarrow> 'g option" where
  "collapse_accessor_paths G graph is_accessor =
     (let kept = fold (\<lambda>(node, attrs) result. if \<not> is_accessor node then merge_node G node attrs result else result)
            (for_each_node G graph) (new_graph G)
      in fold (\<lambda>(node, _) acc. Option.bind acc (\<lambda>result.
            if is_accessor node then Some result
            else map_option (\<lambda>targets. fold (add_missing_edge G node) targets result)
              (reach_non_accessor G graph node is_accessor)))
          (for_each_node G graph) (Some kept))"

section \<open>Annotation\<close>

text \<open>
  \<open>content_of\<close> is the text of the content of the live cell with an id, if the library still
  holds it. \<open>mergeNodeAttributes\<close> on a node of the graph is \<open>mergeNode\<close>.
\<close>

definition annotate_cell_content ::
    "('g, 'z) graphology_scheme \<Rightarrow> (jstring \<Rightarrow> jstring option) \<Rightarrow> (jstring \<Rightarrow> attributes \<Rightarrow> bool) \<Rightarrow> 'g \<Rightarrow> 'g" where
  "annotate_cell_content G content_of predicate graph =
     fold (\<lambda>(node, attrs) result.
         if \<not> predicate node attrs then result
         else (case content_of node of
                 None \<Rightarrow> result
               | Some text \<Rightarrow> merge_node G node [(''content'', JStr text)] result))
       (for_each_node G graph) graph"

definition is_cell_node :: "jstring \<Rightarrow> attributes \<Rightarrow> bool" where
  "is_cell_node node attrs \<longleftrightarrow> js_prop (JObj attrs) ''kind'' = JStr ''cell''"

section \<open>Finding cells\<close>

definition label_of :: "attributes \<Rightarrow> jstring option" where
  "label_of attrs = (case js_prop (JObj attrs) ''label'' of JStr s \<Rightarrow> Some s | _ \<Rightarrow> None)"

definition find_by_label :: "('g, 'z) graphology_scheme \<Rightarrow> 'g \<Rightarrow> (jstring \<Rightarrow> bool) \<Rightarrow> jstring list" where
  "find_by_label G graph test =
     map fst (filter (\<lambda>(node, _). case get_node_attribute G graph node ''label'' of
        JStr s \<Rightarrow> test s | _ \<Rightarrow> False) (for_each_node G graph))"

definition card_prefix :: "jstring \<Rightarrow> jstring" where
  "card_prefix card_id = join_with ''|'' [''CARD'', card_id, []]"

definition find_cells_by_card :: "('g, 'z) graphology_scheme \<Rightarrow> 'g \<Rightarrow> jstring \<Rightarrow> jstring list" where
  "find_cells_by_card G graph card_id = find_by_label G graph (\<lambda>s. str_includes s (card_prefix card_id))"

definition find_cell_by_id :: "('g, 'z) graphology_scheme \<Rightarrow> 'g \<Rightarrow> jstring \<Rightarrow> (jstring \<times> jstring) option" where
  "find_cell_by_id G graph node =
     (if \<not> has_node G graph node then None
      else Some (node, case get_node_attribute G graph node ''label'' of JStr s \<Rightarrow> s | v \<Rightarrow> label_text v))"

definition find_cells_by_label_prefix :: "('g, 'z) graphology_scheme \<Rightarrow> 'g \<Rightarrow> jstring \<Rightarrow> jstring list" where
  "find_cells_by_label_prefix G graph prefix = find_by_label G graph (\<lambda>s. starts_with s prefix)"

definition label_test :: "(jstring \<Rightarrow> bool) \<Rightarrow> attributes \<Rightarrow> bool" where
  "label_test test attrs = (case label_of attrs of None \<Rightarrow> False | Some s \<Rightarrow> test s)"

definition is_match :: "attributes \<Rightarrow> jstring \<Rightarrow> bool" where
  "is_match attrs prefix = label_test (\<lambda>s. starts_with s prefix) attrs"

definition get_subgraph_by_name :: "('g, 'z) graphology_scheme \<Rightarrow> 'g \<Rightarrow> jstring \<Rightarrow> 'g" where
  "get_subgraph_by_name G graph name = subgraph G graph (\<lambda>_. label_test (\<lambda>s. str_includes s name))"

definition get_subgraph_by_card :: "('g, 'z) graphology_scheme \<Rightarrow> 'g \<Rightarrow> jstring \<Rightarrow> 'g" where
  "get_subgraph_by_card G graph card_id =
     subgraph G graph (\<lambda>_. label_test (\<lambda>s. str_includes s (card_prefix card_id)))"

definition get_subgraph_by_label_prefix :: "('g, 'z) graphology_scheme \<Rightarrow> 'g \<Rightarrow> jstring \<Rightarrow> 'g" where
  "get_subgraph_by_label_prefix G graph prefix = subgraph G graph (\<lambda>_. label_test (\<lambda>s. starts_with s prefix))"

definition get_subgraph_by_nodes :: "('g, 'z) graphology_scheme \<Rightarrow> 'g \<Rightarrow> jstring list \<Rightarrow> 'g" where
  "get_subgraph_by_nodes G graph node_ids = subgraph G graph (\<lambda>node _. node \<in> set node_ids)"

text \<open>The pairs \<open>i < j\<close> of the two loops.\<close>

fun pairs_of :: "'a list \<Rightarrow> ('a \<times> 'a) list" where
  "pairs_of [] = []"
| "pairs_of (a # rest) = map (Pair a) rest @ pairs_of rest"

definition get_connected_subgraph_by_label_prefix :: "('g, 'z) graphology_scheme \<Rightarrow> 'g \<Rightarrow> jstring \<Rightarrow> 'g" where
  "get_connected_subgraph_by_label_prefix G graph prefix =
     (let matched = map fst (filter (\<lambda>(_, attrs). is_match attrs prefix) (for_each_node G graph))
      in if length matched \<le> 1 then subgraph G graph (\<lambda>_ attrs. is_match attrs prefix)
         else
           let keep = fold (\<lambda>(a, b) keep.
                 case bidirectional G graph a b of
                   None \<Rightarrow> keep
                 | Some path \<Rightarrow> fold set_add path keep) (pairs_of matched) (fold set_add matched [])
           in subgraph G graph (\<lambda>node _. node \<in> set keep))"

section \<open>Lemmas\<close>

text \<open>An edge of the collapsed graph: a path whose inner nodes are accessors.\<close>

definition accessor_path :: "('g, 'z) graphology_scheme \<Rightarrow> 'g \<Rightarrow> (jstring \<Rightarrow> bool) \<Rightarrow> (jstring \<times> jstring) set" where
  "accessor_path G g acc = edges_of_graph G g O {(u, v). acc u \<and> (u, v) \<in> edges_of_graph G g}\<^sup>*"

lemma restrict_edges_twice: "restrict_edges S (restrict_edges T m) = restrict_edges (S \<inter> T) m"
  by (auto simp: restrict_edges_def restrict_map_def fun_eq_iff)

lemma dom_restrict_edges: "dom (restrict_edges S m) = dom m \<inter> (S \<times> S)"
  by (simp add: restrict_edges_def)

lemma set_fold_union: "set (fold (\<lambda>x acc. fold set_add (f x) acc) xs acc) = set acc \<union> (\<Union>x \<in> set xs. set (f x))"
  by (induction xs arbitrary: acc) auto

lemma set_set_union [simp]: "set (set_union a b) = set a \<union> set b"
  by (simp add: set_union_def)

context graphology_laws
begin

lemma drop_nodes_maps:
  assumes "set ids \<subseteq> nodes_of G g" and "distinct ids"
  shows "node_map G (fold (drop_node G) ids g) = node_map G g |` (- set ids)
    \<and> edge_map G (fold (drop_node G) ids g) = restrict_edges (- set ids) (edge_map G g)"
  using assms
proof (induction ids arbitrary: g)
  case Nil
  then show ?case by (simp add: restrict_edges_def restrict_map_def)
next
  case (Cons x ids)
  let ?g = "drop_node G x g"
  have x: "x \<in> nodes_of G g" using Cons.prems(1) by simp
  have "set ids \<subseteq> nodes_of G ?g" using Cons.prems by (auto simp: drop_node [OF x])
  then have "node_map G (fold (drop_node G) ids ?g) = node_map G ?g |` (- set ids)"
    "edge_map G (fold (drop_node G) ids ?g) = restrict_edges (- set ids) (edge_map G ?g)"
    using Cons.IH [of ?g] Cons.prems(2) by simp_all
  moreover have "(node_map G g)(x := None) |` (- set ids) = node_map G g |` (- set (x # ids))"
    by (auto simp: restrict_map_def)
  moreover have "- set ids \<inter> - {x} = - set (x # ids)" by auto
  ultimately show ?case by (simp add: drop_node [OF x] restrict_edges_twice)
qed

lemma by_predicate_maps:
  "node_map G (induced_subgraph_by_node_predicate G g keep) x =
     (case node_map G g x of None \<Rightarrow> None | Some a \<Rightarrow> if keep x a then Some a else None)"
  "edge_map G (induced_subgraph_by_node_predicate G g keep) =
     restrict_edges (nodes_of G (induced_subgraph_by_node_predicate G g keep)) (edge_map G g)"
proof -
  let ?ids = "map fst (filter (\<lambda>(node, attrs). \<not> keep node attrs) (for_each_node G g))"
  have mem: "y \<in> set ?ids \<longleftrightarrow> (\<exists>a. node_map G g y = Some a \<and> \<not> keep y a)" for y
    by (force simp: node_map_iff [symmetric])
  have maps: "node_map G (induced_subgraph_by_node_predicate G g keep) = node_map G g |` (- set ?ids)"
    "edge_map G (induced_subgraph_by_node_predicate G g keep) = restrict_edges (- set ?ids) (edge_map G g)"
  proof -
    have "set ?ids \<subseteq> nodes_of G g" using mem by auto
    moreover have "distinct ?ids" using nodes_distinct [of g] by (simp add: distinct_map_filter)
    ultimately show "node_map G (induced_subgraph_by_node_predicate G g keep) = node_map G g |` (- set ?ids)"
      "edge_map G (induced_subgraph_by_node_predicate G g keep) = restrict_edges (- set ?ids) (edge_map G g)"
      using drop_nodes_maps [of ?ids g] by (simp_all add: induced_subgraph_by_node_predicate_def Let_def)
  qed
  show "node_map G (induced_subgraph_by_node_predicate G g keep) x =
     (case node_map G g x of None \<Rightarrow> None | Some a \<Rightarrow> if keep x a then Some a else None)"
    using mem [of x] unfolding maps by (auto simp: restrict_map_def split: option.split)
  have "restrict_edges (nodes_of G g \<inter> - set ?ids) (edge_map G g) = restrict_edges (- set ?ids) (edge_map G g)"
    using edge_map_None [of _ g] by (force simp: restrict_edges_def restrict_map_def fun_eq_iff)
  then show "edge_map G (induced_subgraph_by_node_predicate G g keep) =
     restrict_edges (nodes_of G (induced_subgraph_by_node_predicate G g keep)) (edge_map G g)"
    unfolding maps by simp
qed

lemma anchors_reach:
  assumes "set anchors \<subseteq> nodes_of G g"
  shows "set (nodes_connected_to_anchors_any_direction G g anchors) =
    {x. \<exists>a \<in> set anchors. (a, x) \<in> (edges_of_graph G g)\<^sup>* \<or> (x, a) \<in> (edges_of_graph G g)\<^sup>*}"
proof -
  have "set (collect_reachable_from_anchors G g anchors outbound) =
      (\<Union>a \<in> set anchors. (if outbound then (edges_of_graph G g)\<^sup>* else ((edges_of_graph G g)\<inverse>)\<^sup>*) `` {a})" for outbound
  proof -
    have "set (bfs_from_node G g a outbound) =
        (if outbound then (edges_of_graph G g)\<^sup>* else ((edges_of_graph G g)\<inverse>)\<^sup>*) `` {a}" if "a \<in> set anchors" for a
      using assms that by (intro bfs) auto
    then show ?thesis unfolding collect_reachable_from_anchors_def set_fold_union by simp
  qed
  then show ?thesis
    by (auto simp: nodes_connected_to_anchors_any_direction_def rtrancl_converse)
qed

lemma reach_non_accessor_set:
  assumes "x \<in> nodes_of G g" and "\<not> acc x"
  shows "\<exists>targets. reach_non_accessor G g x acc = Some targets \<and> distinct targets \<and>
    set targets = {y. (x, y) \<in> accessor_path G g acc \<and> \<not> acc y \<and> y \<noteq> x}"
proof -
  let ?E = "edges_of_graph G g" and ?N = "nodes_of G g"
  let ?succs = "\<lambda>node. if acc node then out_neighbors G g node else []"
  let ?R = "{(u, v). acc u \<and> (u, v) \<in> ?E}"
  have succs: "set (?succs y) = ?R `` {y}" if "y \<in> ?N" for y using out_neighbors [OF that] by auto
  have outN: "set (out_neighbors G g x) \<subseteq> ?N" using out_neighbors [OF assms(1)] edge_ends [of g] by auto
  have RN: "?R \<subseteq> ?N \<times> ?N" using edge_ends [of g] by auto
  have "set (?succs y) \<subseteq> ?N" if "y \<in> ?N" for y using succs [OF that] RN by blast
  then have "\<exists>r. worklist (\<lambda>_. False) ?succs [x] (out_neighbors G g x) = Some r"
    using outN by (intro worklist_total [of ?N]) simp_all
  then obtain r where r: "worklist (\<lambda>_. False) ?succs [x] (out_neighbors G g x) = Some r" ..
  have "explored (\<lambda>_. False) ?succs [x] (out_neighbors G g x)" using assms(2) by (simp add: explored_def)
  note res = worklist_from [OF r this]
  have "set r = insert x (?R\<^sup>* `` set (out_neighbors G g x))"
    using res(2) reached_relation [OF outN succs RN] by simp
  also have "?R\<^sup>* `` set (out_neighbors G g x) = accessor_path G g acc `` {x}"
    using out_neighbors [OF assms(1)] by (auto simp: accessor_path_def)
  finally have set_r: "set r = insert x (accessor_path G g acc `` {x})" .
  obtain rest where rest: "r = x # rest" using worklist_prefix [OF r] by auto
  have "set (drop 1 r) = accessor_path G g acc `` {x} - {x}" using set_r res(1) by (auto simp: rest)
  then show ?thesis using res(1) by (auto simp: reach_non_accessor_def r rest)
qed

lemma fold_add_missing:
  assumes "x \<in> nodes_of G r"
  shows "node_map G (fold (add_missing_edge G x) ts r) = node_map G r
    \<and> edges_of_graph G (fold (add_missing_edge G x) ts r) = edges_of_graph G r \<union> {x} \<times> (set ts \<inter> nodes_of G r)"
  using assms
proof (induction ts arbitrary: r)
  case (Cons t ts)
  let ?r = "add_missing_edge G x t r"
  have step: "node_map G ?r = node_map G r" "edges_of_graph G ?r = edges_of_graph G r \<union> {x} \<times> ({t} \<inter> nodes_of G r)"
    using merge_edge [of x r t "[]"] Cons.prems by (auto simp: add_missing_edge_def has_node has_edge)
  then have "node_map G (fold (add_missing_edge G x) ts ?r) = node_map G ?r
    \<and> edges_of_graph G (fold (add_missing_edge G x) ts ?r) = edges_of_graph G ?r \<union> {x} \<times> (set ts \<inter> nodes_of G ?r)"
    using Cons.prems by (intro Cons.IH) simp
  then show ?case using step by auto
qed simp

lemma collapse_spec:
  "\<exists>r. collapse_accessor_paths G g acc = Some r \<and> node_map G r = node_map G g |` {x. \<not> acc x}
    \<and> edges_of_graph G r = {(x, y). x \<in> nodes_of G g \<and> (x, y) \<in> accessor_path G g acc \<and> \<not> acc x \<and> \<not> acc y \<and> x \<noteq> y}"
proof -
  let ?A = "accessor_path G g acc"
  define kept where "kept = fold (\<lambda>n r. if \<not> acc (fst n) then merge_node G (fst n) (snd n) r else r) (for_each_node G g) (new_graph G)"
  have filter: "map_of (filter (\<lambda>n. R (fst n)) kvs) = map_of kvs |` {k. R k}" for R and kvs :: "(jstring \<times> attributes) list"
    by (induction kvs) (auto simp: restrict_map_def fun_eq_iff)
  have kept: "node_map G kept = node_map G g |` {x. \<not> acc x}" "edge_map G kept = Map.empty"
    using fold_merge_nodes [of "for_each_node G g" "new_graph G" "\<lambda>x. \<not> acc x"] nodes_distinct [of g]
    unfolding kept_def by (simp_all add: node_map_def [of G g] filter [of "\<lambda>x. \<not> acc x"])
  let ?step = "\<lambda>(node, _) acc'. Option.bind acc' (\<lambda>result.
            if acc node then Some result
            else map_option (\<lambda>targets. fold (add_missing_edge G node) targets result) (reach_non_accessor G g node acc))"
  have AN: "?A \<subseteq> nodes_of G g \<times> nodes_of G g"
  proof
    fix p assume "p \<in> ?A"
    then obtain x z y where p: "p = (x, y)" "(x, z) \<in> edges_of_graph G g"
      "(z, y) \<in> {(u, v). acc u \<and> (u, v) \<in> edges_of_graph G g}\<^sup>*" by (auto simp: accessor_path_def)
    from p(3) have "y \<in> nodes_of G g"
    proof (induction rule: rtrancl_induct)
      case base
      then show ?case using edge_ends' [OF p(2)] by simp
    next
      case (step u v)
      then show ?case using edge_ends' [of u v g] by simp
    qed
    then show "p \<in> nodes_of G g \<times> nodes_of G g" using p(1) edge_ends' [OF p(2)] by simp
  qed
  have "\<exists>r'. fold ?step ns (Some r) = Some r' \<and> node_map G r' = node_map G r
      \<and> edges_of_graph G r' = edges_of_graph G r \<union> {(x, y). x \<in> fst ` set ns \<and> (x, y) \<in> ?A \<and> \<not> acc x \<and> \<not> acc y \<and> x \<noteq> y}"
    if "fst ` set ns \<subseteq> nodes_of G g" and "node_map G r = node_map G kept" for ns r
    using that
  proof (induction ns arbitrary: r)
    case (Cons n ns)
    obtain x a where n: "n = (x, a)" by force
    have xN: "x \<in> nodes_of G g" using Cons.prems(1) by (simp add: n)
    show ?case
    proof (cases "acc x")
      case True
      then show ?thesis using Cons.IH [of r] Cons.prems by (auto simp: n)
    next
      case False
      obtain ts where ts: "reach_non_accessor G g x acc = Some ts" "set ts = {y. (x, y) \<in> ?A \<and> \<not> acc y \<and> y \<noteq> x}"
        using reach_non_accessor_set [of x g acc] xN False by blast
      let ?r = "fold (add_missing_edge G x) ts r"
      have "x \<in> nodes_of G r" using xN False by (auto simp: Cons.prems(2) kept)
      then have r: "node_map G ?r = node_map G r" "edges_of_graph G ?r = edges_of_graph G r \<union> {x} \<times> (set ts \<inter> nodes_of G r)"
        using fold_add_missing by blast+
      have "set ts \<inter> nodes_of G r = set ts" using ts(2) AN by (auto simp: Cons.prems(2) kept)
      then have edges: "edges_of_graph G ?r = edges_of_graph G r \<union> {x} \<times> set ts" using r(2) by simp
      obtain r' where r': "fold ?step ns (Some ?r) = Some r'" "node_map G r' = node_map G ?r"
        "edges_of_graph G r' = edges_of_graph G ?r \<union> {(x, y). x \<in> fst ` set ns \<and> (x, y) \<in> ?A \<and> \<not> acc x \<and> \<not> acc y \<and> x \<noteq> y}"
        using Cons.IH [of ?r] Cons.prems r(1) by auto
      have "fold ?step (n # ns) (Some r) = Some r'" using r'(1) by (simp add: n False ts(1))
      moreover have "edges_of_graph G r' = edges_of_graph G r \<union>
          {(u, y). u \<in> fst ` set (n # ns) \<and> (u, y) \<in> ?A \<and> \<not> acc u \<and> \<not> acc y \<and> u \<noteq> y}"
        unfolding r'(3) edges ts(2) using False by (auto simp: n)
      ultimately show ?thesis using r'(2) r(1) by (intro exI [of _ r']) simp
    qed
  qed simp
  from this [of "for_each_node G g" kept] obtain r where r: "fold ?step (for_each_node G g) (Some kept) = Some r"
    "node_map G r = node_map G kept"
    "edges_of_graph G r = edges_of_graph G kept \<union> {(x, y). x \<in> nodes_of G g \<and> (x, y) \<in> ?A \<and> \<not> acc x \<and> \<not> acc y \<and> x \<noteq> y}"
    by (auto simp: nodes_of_set)
  have "collapse_accessor_paths G g acc = Some r"
    using r(1) by (simp add: collapse_accessor_paths_def Let_def kept_def case_prod_unfold)
  then show ?thesis using r(2,3) kept by auto
qed

lemma namespace_connected_maps:
  "node_map G (subgraph_by_namespace_connected G g ns) = node_map G g |`
      {x. \<exists>a attrs. node_map G g a = Some attrs \<and> has_namespace ns attrs
         \<and> ((a, x) \<in> (edges_of_graph G g)\<^sup>* \<or> (x, a) \<in> (edges_of_graph G g)\<^sup>*)}
    \<and> edge_map G (subgraph_by_namespace_connected G g ns) =
      restrict_edges (nodes_of G (subgraph_by_namespace_connected G g ns)) (edge_map G g)"
proof -
  define anchors where "anchors = map fst (filter (\<lambda>(_, attrs). has_namespace ns attrs) (for_each_node G g))"
  let ?keep = "\<lambda>node _. node \<in> set (nodes_connected_to_anchors_any_direction G g anchors)"
  have eq: "subgraph_by_namespace_connected G g ns = induced_subgraph_by_node_predicate G g ?keep"
    by (simp add: subgraph_by_namespace_connected_def anchors_def Let_def)
  have mem: "a \<in> set anchors \<longleftrightarrow> (\<exists>attrs. node_map G g a = Some attrs \<and> has_namespace ns attrs)" for a
    by (force simp: anchors_def node_map_iff [symmetric])
  then have "set anchors \<subseteq> nodes_of G g" by auto
  note kept = anchors_reach [OF this]
  have "node_map G (induced_subgraph_by_node_predicate G g ?keep) x = (node_map G g |`
      {x. \<exists>a attrs. node_map G g a = Some attrs \<and> has_namespace ns attrs
         \<and> ((a, x) \<in> (edges_of_graph G g)\<^sup>* \<or> (x, a) \<in> (edges_of_graph G g)\<^sup>*)}) x" for x
    unfolding by_predicate_maps(1) kept using mem by (auto simp: restrict_map_def split: option.split; blast)
  then show ?thesis unfolding eq using by_predicate_maps(2) by blast
qed

end

section \<open>Properties\<close>

definition list_graph_of :: "(jstring \<times> attributes) list \<Rightarrow> (jstring \<times> jstring) list \<Rightarrow> lgraph" where
  "list_graph_of nodes edges =
     fold (\<lambda>(x, y). merge_edge list_graphology x y []) edges
       (fold (\<lambda>(x, attrs). merge_node list_graphology x attrs) nodes (new_graph list_graphology))"

text \<open>
  C29: Collapsing the accessor paths always ends. The result has exactly the nodes that are not
  accessors, with their attributes, and an edge from one to another (not to itself) exactly when
  the graph has a path between them whose inner nodes are accessors only, cycles included.
\<close>

theorem collapse_accessor_paths_spec:
  assumes "graphology_laws G"
  shows "\<exists>r. collapse_accessor_paths G g acc = Some r \<and> node_map G r = node_map G g |` {x. \<not> acc x}
    \<and> edges_of_graph G r = {(x, y). x \<in> nodes_of G g \<and> (x, y) \<in> accessor_path G g acc \<and> \<not> acc x \<and> \<not> acc y \<and> x \<noteq> y}"
  by (rule graphology_laws.collapse_spec [OF assms])

definition sample_paths :: lgraph where
  "sample_paths = list_graph_of [(''a'', []), (''p'', []), (''q'', []), (''b'', [])]
     [(''a'', ''p''), (''p'', ''q''), (''q'', ''p''), (''q'', ''b'')]"

lemma collapse_sample:
  "map_option (\<lambda>r. map snd (for_each_edge list_graphology r))
     (collapse_accessor_paths list_graphology sample_paths (\<lambda>x. x \<in> {''p'', ''q''})) = Some [(''a'', ''b'')]"
  by code_simp

theorem collapse_accessor_paths_spec_witness:
  "\<exists>r. collapse_accessor_paths list_graphology sample_paths (\<lambda>x. x \<in> {''p'', ''q''}) = Some r
     \<and> edges_of_graph list_graphology r = {(''a'', ''b'')}
     \<and> (''a'', ''b'') \<in> accessor_path list_graphology sample_paths (\<lambda>x. x \<in> {''p'', ''q''})"
proof -
  let ?acc = "\<lambda>x. x \<in> {''p'', ''q''}"
  let ?A = "accessor_path list_graphology sample_paths ?acc"
  from collapse_accessor_paths_spec [OF list_graph.graphology_laws_axioms, of sample_paths ?acc]
  obtain r where r: "collapse_accessor_paths list_graphology sample_paths ?acc = Some r"
    and edges: "edges_of_graph list_graphology r = {(x, y). x \<in> nodes_of list_graphology sample_paths
      \<and> (x, y) \<in> ?A \<and> \<not> ?acc x \<and> \<not> ?acc y \<and> x \<noteq> y}" by (elim exE conjE)
  have "map snd (for_each_edge list_graphology r) = [(''a'', ''b'')]" using collapse_sample unfolding r by simp
  then have "set (map snd (for_each_edge list_graphology r)) = {(''a'', ''b'')}" by simp
  then have one: "edges_of_graph list_graphology r = {(''a'', ''b'')}" unfolding list_graph.edges_of_set by simp
  have "edges_of_graph list_graphology r \<subseteq> ?A" unfolding edges by auto
  then show ?thesis using r one by (intro exI [of _ r]) simp
qed

text \<open>
  The namespace subgraph with connections keeps exactly the nodes from which, or to which,
  a path leads from a node of the namespace, with their attributes, and the edges between them.
\<close>

lemma namespace_connected_spec:
  assumes "graphology_laws G"
  shows "node_map G (subgraph_by_namespace_connected G g ns) = node_map G g |`
      {x. \<exists>a attrs. node_map G g a = Some attrs \<and> has_namespace ns attrs
         \<and> ((a, x) \<in> (edges_of_graph G g)\<^sup>* \<or> (x, a) \<in> (edges_of_graph G g)\<^sup>*)}
    \<and> edge_map G (subgraph_by_namespace_connected G g ns) =
      restrict_edges (nodes_of G (subgraph_by_namespace_connected G g ns)) (edge_map G g)"
  by (rule graphology_laws.namespace_connected_maps [OF assms])

definition sample_namespaces :: lgraph where
  "sample_namespaces = list_graph_of [(''e'', [(''namespace'', JStr ''CARD'')]), (''x'', []), (''y'', [])] [(''e'', ''x'')]"

lemma namespace_sample:
  "map fst (for_each_node list_graphology (subgraph_by_namespace_connected list_graphology sample_namespaces ''CARD'')) = [''e'', ''x'']"
  by code_simp

end
