(* ===== verification/Graph_Query.thy ===== *)
theory Graph_Query
  imports Graph_Combinators Json_Text
begin

text \<open>
  The query language of \<open>compiler/tracer/graph_relations.ts\<close> and its ready-made queries. A query is
  a JSON text or value with a list of clauses; its names that start with a question mark are
  logic variables, collected in a \<open>Map\<close> while the clauses are translated to goals. The last
  section holds the propagators that run a query when the cells they watch have values.
\<close>

section \<open>Queries as data\<close>

record query_spec =
  q_where :: "jsval list"
  q_select :: "jsval option"
  q_limit :: "jsnum option"

definition is_clause :: "jsval \<Rightarrow> bool" where
  "is_clause c \<longleftrightarrow> is_plain_object c \<and> js_typeof (js_prop c ''op'') = ''string''"

definition to_logic_query_spec :: "jsval \<Rightarrow> query_spec option" where
  "to_logic_query_spec input =
     (let parsed = (case input of
            JStr s \<Rightarrow> (case json_parse s of None \<Rightarrow> JNull | Some v \<Rightarrow> v)
          | _ \<Rightarrow> input)
      in case (is_plain_object parsed, js_prop parsed ''where'') of
           (True, JArr cs) \<Rightarrow>
             Some \<lparr>q_where = filter is_clause cs,
                   q_select = (if js_prop parsed ''select'' \<noteq> JUndef then Some (js_prop parsed ''select'') else None),
                   q_limit = (case js_prop parsed ''limit'' of JNum n \<Rightarrow> Some n | _ \<Rightarrow> None)\<rparr>
         | _ \<Rightarrow> None)"

text \<open>The variables met so far, by name, and the module counter.\<close>

type_synonym query_vars = "(jstring, jsval) jmap \<times> nat"

fun logic_query_term :: "jsval \<Rightarrow> query_vars \<Rightarrow> jsval \<times> query_vars"
  and logic_query_terms :: "jsval list \<Rightarrow> query_vars \<Rightarrow> jsval list \<times> query_vars"
  and logic_query_members :: "(jstring \<times> jsval) list \<Rightarrow> query_vars \<Rightarrow> (jstring \<times> jsval) list \<times> query_vars" where
  "logic_query_term (JStr s) st =
     (if starts_with s ''?'' then
        (case map_of (fst st) s of
           Some existing \<Rightarrow> (existing, st)
         | None \<Rightarrow>
             (let (created, next_id) = logic_var (Some (drop 1 s)) (snd st)
              in (created, (AList.update s created (fst st), next_id))))
      else (JStr s, st))"
| "logic_query_term (JArr ts) st = (let (us, st') = logic_query_terms ts st in (JArr us, st'))"
| "logic_query_term (JObj kvs) st = (let (us, st') = logic_query_members kvs st in (JObj us, st'))"
| "logic_query_term v st = (v, st)"
| "logic_query_terms [] st = ([], st)"
| "logic_query_terms (t # ts) st =
     (let (u, st1) = logic_query_term t st; (us, st2) = logic_query_terms ts st1 in (u # us, st2))"
| "logic_query_members [] st = ([], st)"
| "logic_query_members ((k, t) # ts) st =
     (let (u, st1) = logic_query_term t st; (us, st2) = logic_query_members ts st1 in ((k, u) # us, st2))"

text \<open>The clauses that are facts: two terms of the clause and the goal over them.\<close>

definition two_terms ::
    "jsval \<Rightarrow> jstring \<Rightarrow> jstring \<Rightarrow> (jsval \<Rightarrow> jsval \<Rightarrow> goal) \<Rightarrow> query_vars \<Rightarrow> goal option \<times> query_vars" where
  "two_terms clause first second build st =
     (let (a, st1) = logic_query_term (js_prop clause first) st;
          (b, st2) = logic_query_term (js_prop clause second) st1
      in (Some (build a b), st2))"

definition three_terms ::
    "jsval \<Rightarrow> jstring \<Rightarrow> jstring \<Rightarrow> jstring \<Rightarrow> (jsval \<Rightarrow> jsval \<Rightarrow> jsval \<Rightarrow> goal) \<Rightarrow> query_vars \<Rightarrow> goal option \<times> query_vars" where
  "three_terms clause first second third build st =
     (let (a, st1) = logic_query_term (js_prop clause first) st;
          (b, st2) = logic_query_term (js_prop clause second) st1;
          (c, st3) = logic_query_term (js_prop clause third) st2
      in (Some (build a b c), st3))"

definition fact_clause ::
    "nat \<Rightarrow> ('g, 'z) graphology_scheme \<Rightarrow> 'g \<Rightarrow> jstring \<Rightarrow> jsval \<Rightarrow> query_vars \<Rightarrow> goal option \<times> query_vars" where
  "fact_clause fuel G graph op clause st =
     (if op = ''equal'' then two_terms clause ''left'' ''right'' (goal_equal fuel) st
      else if op = ''node'' then two_terms clause ''id'' ''attrs'' (node_fact fuel G graph) st
      else if op = ''edge'' then two_terms clause ''source'' ''target'' (edge_fact fuel G graph) st
      else if op = ''kind'' then two_terms clause ''id'' ''value'' (fact_kind fuel G graph) st
      else if op = ''namespace'' then two_terms clause ''id'' ''value'' (fact_namespace fuel G graph) st
      else if op = ''level'' then two_terms clause ''id'' ''value'' (fact_level fuel G graph) st
      else if op = ''label'' then two_terms clause ''id'' ''value'' (fact_label fuel G graph) st
      else if op = ''value'' then two_terms clause ''id'' ''value'' (fact_value fuel G graph) st
      else if op = ''content'' then two_terms clause ''id'' ''value'' (fact_content fuel G graph) st
      else if op = ''label_prefix'' then two_terms clause ''id'' ''value'' (label_prefix fuel G graph) st
      else if op = ''label_contains'' then two_terms clause ''id'' ''value'' (label_contains fuel G graph) st
      else if op = ''reachable'' then two_terms clause ''source'' ''target'' (reachable fuel G graph) st
      else if op = ''downstream_of'' then two_terms clause ''source'' ''target'' (downstream_of fuel G graph) st
      else if op = ''upstream_of'' then two_terms clause ''source'' ''target'' (upstream_of fuel G graph) st
      else if op = ''join_through'' then three_terms clause ''source'' ''middle'' ''target'' (join_through fuel G graph) st
      else (None, st))"

lemma js_prop_smaller: "js_prop clause k = JArr cs \<Longrightarrow> size_list size cs < size clause"
proof -
  assume "js_prop clause k = JArr cs"
  then obtain kvs where kvs: "clause = JObj kvs" "(k, JArr cs) \<in> set kvs"
    by (cases clause) (auto simp: js_prop_def dest: map_of_SomeD split: option.splits)
  have "size (JArr cs) \<le> size_list (size_prod (\<lambda>_. 0) size) kvs"
    using size_list_estimation' [OF kvs(2), of "size (JArr cs)" "size_prod (\<lambda>_. 0) size"] by simp
  then show ?thesis by (simp add: kvs(1))
qed

text \<open>The sub-clauses of a clause.\<close>

definition clauses_of :: "jsval \<Rightarrow> jsval list" where
  "clauses_of clause = (case js_prop clause ''clauses'' of JArr cs \<Rightarrow> cs | _ \<Rightarrow> [])"

lemma clauses_smaller:
  assumes "js_prop clause k = JStr op"
  shows "size_list size (clauses_of clause) < size clause"
proof -
  obtain kvs where "clause = JObj kvs" using assms by (cases clause) (auto simp: js_prop_def)
  then have "0 < size clause" by simp
  then show ?thesis by (auto simp: clauses_of_def dest: js_prop_smaller split: jsval.split)
qed

function clause_goal ::
    "nat \<Rightarrow> ('g, 'z) graphology_scheme \<Rightarrow> 'g \<Rightarrow> jsval \<Rightarrow> query_vars \<Rightarrow> goal option \<times> query_vars"
  and clause_goals ::
    "nat \<Rightarrow> ('g, 'z) graphology_scheme \<Rightarrow> 'g \<Rightarrow> jsval list \<Rightarrow> query_vars \<Rightarrow> goal list \<times> query_vars" where
  "clause_goal fuel G graph clause st =
     (case js_prop clause ''op'' of
        JStr op \<Rightarrow>
          if op = ''and'' then
            (let (goals, st') = clause_goals fuel G graph (clauses_of clause) st
             in (Some (goal_and goals), st'))
          else if op = ''or'' then
            (let (goals, st') = clause_goals fuel G graph (clauses_of clause) st
             in (if goals \<noteq> [] then Some (goal_or goals) else None, st'))
          else fact_clause fuel G graph op clause st
      | _ \<Rightarrow> (None, st))"
| "clause_goals fuel G graph [] st = ([], st)"
| "clause_goals fuel G graph (c # cs) st =
     (let (g, st1) = (if is_plain_object c then clause_goal fuel G graph c st else (None, st));
          (gs, st2) = clause_goals fuel G graph cs st1
      in (case g of None \<Rightarrow> gs | Some goal \<Rightarrow> goal # gs, st2))"
  by pat_completeness auto
termination
  by (relation "measure (\<lambda>x. case x of Inl (_, _, _, c, _) \<Rightarrow> size c | Inr (_, _, _, cs, _) \<Rightarrow> size_list size cs)")
    (auto simp: clauses_smaller)

declare clause_goal.simps [simp del]

definition default_projection :: "(jstring, jsval) jmap \<Rightarrow> jsval" where
  "default_projection vars = JObj (json_object (map (\<lambda>(name, v). (drop 1 name, v)) vars))"

section \<open>Running a query\<close>

text \<open>A limit that is finite and positive, rounded down.\<close>

definition query_limit :: "jsnum option \<Rightarrow> nat option" where
  "query_limit raw =
     (case raw of
        Some (Dec m e) \<Rightarrow>
          if m > 0 then Some (nat (if e \<ge> 0 then m * 10 ^ nat e else m div 10 ^ nat (- e))) else None
      | _ \<Rightarrow> None)"

definition graph_rel_run_query ::
    "nat \<Rightarrow> ('g, 'z) graphology_scheme \<Rightarrow> 'g \<Rightarrow> jsval \<Rightarrow> nat \<Rightarrow> (jsval list \<times> nat) option" where
  "graph_rel_run_query fuel G graph query next_id =
     (case to_logic_query_spec query of
        None \<Rightarrow> Some ([], next_id)
      | Some parsed \<Rightarrow>
          (let (goals, (vars, next_id')) = clause_goals fuel G graph (q_where parsed) ([], next_id)
           in if goals = [] then Some ([], next_id')
              else
                let (projection, (_, next_id'')) =
                  (case q_select parsed of
                     Some s \<Rightarrow> logic_query_term s (vars, next_id')
                   | None \<Rightarrow> (default_projection vars, (vars, next_id')))
                in map_option (\<lambda>results. (results, next_id''))
                     (run_goal fuel (goal_and goals) projection (query_limit (q_limit parsed)) next_id'')))"

definition spec_value :: "query_spec \<Rightarrow> (jstring \<times> jsval) list" where
  "spec_value spec = [(''where'', JArr (q_where spec))]
     @ (case q_select spec of None \<Rightarrow> [] | Some s \<Rightarrow> [(''select'', s)])
     @ (case q_limit spec of None \<Rightarrow> [] | Some n \<Rightarrow> [(''limit'', JNum n)])"

definition graph_rel_exists_query ::
    "nat \<Rightarrow> ('g, 'z) graphology_scheme \<Rightarrow> 'g \<Rightarrow> jsval \<Rightarrow> nat \<Rightarrow> (bool \<times> nat) option" where
  "graph_rel_exists_query fuel G graph query next_id =
     (case to_logic_query_spec query of
        None \<Rightarrow> Some (False, next_id)
      | Some parsed \<Rightarrow>
          map_option (\<lambda>(results, next_id'). (results \<noteq> [], next_id'))
            (graph_rel_run_query fuel G graph (JObj (obj_set ''limit'' (JNum (num_of_int 1)) (spec_value parsed))) next_id))"

section \<open>Ready-made queries\<close>

definition query_nodes_by_kind ::
    "nat \<Rightarrow> ('g, 'z) graphology_scheme \<Rightarrow> 'g \<Rightarrow> jstring \<Rightarrow> nat \<Rightarrow> (jstring list \<times> nat) option" where
  "query_nodes_by_kind fuel G graph node_kind =
     query_node_ids fuel (\<lambda>node_var. fact_kind fuel G graph node_var (JStr node_kind)) None"

definition query_nodes_by_namespace ::
    "nat \<Rightarrow> ('g, 'z) graphology_scheme \<Rightarrow> 'g \<Rightarrow> jstring \<Rightarrow> nat \<Rightarrow> (jstring list \<times> nat) option" where
  "query_nodes_by_namespace fuel G graph ns =
     query_node_ids fuel (\<lambda>node_var. fact_namespace fuel G graph node_var (JStr ns)) None"

definition query_nodes_by_level ::
    "nat \<Rightarrow> ('g, 'z) graphology_scheme \<Rightarrow> 'g \<Rightarrow> jsnum \<Rightarrow> nat \<Rightarrow> (jstring list \<times> nat) option" where
  "query_nodes_by_level fuel G graph target_level =
     query_node_ids fuel (\<lambda>node_var. fact_level fuel G graph node_var (JNum target_level)) None"

definition graph_rel_node_ids ::
    "nat \<Rightarrow> ('g, 'z) graphology_scheme \<Rightarrow> 'g \<Rightarrow> nat \<Rightarrow> (jstring list \<times> nat) option" where
  "graph_rel_node_ids fuel G graph =
     query_node_ids fuel (\<lambda>node_var. fresh (\<lambda>attrs_var. node_fact fuel G graph node_var attrs_var)) None"

definition graph_rel_edges ::
    "nat \<Rightarrow> ('g, 'z) graphology_scheme \<Rightarrow> 'g \<Rightarrow> nat \<Rightarrow> ((jstring \<times> jstring) list \<times> nat) option" where
  "graph_rel_edges fuel G graph =
     query_edges fuel (\<lambda>source_var target_var. edge_fact fuel G graph source_var target_var) None"

definition graph_query_card_network ::
    "nat \<Rightarrow> ('g, 'z) graphology_scheme \<Rightarrow> 'g \<Rightarrow> jstring \<Rightarrow> nat \<Rightarrow> ('g \<times> nat) option" where
  "graph_query_card_network fuel G graph card_id next_id =
     Option.bind (query_node_ids fuel (\<lambda>node_var. label_prefix fuel G graph node_var (JStr (''CARD|'' @ card_id))) None next_id)
       (\<lambda>(seed_ids, next_id'). map_option (\<lambda>r. (r, next_id')) (connected_component G graph seed_ids))"

definition graph_query_primitive_direct :: "('g, 'z) graphology_scheme \<Rightarrow> 'g \<Rightarrow> 'g option" where
  "graph_query_primitive_direct G graph =
     map_option (\<lambda>collapsed. subgraph_by_kind G collapsed ''propagator'')
       (collapse_accessor_paths G graph (default_is_accessor G graph))"

definition graph_query_call_graph :: "('g, 'z) graphology_scheme \<Rightarrow> 'g \<Rightarrow> 'g" where
  "graph_query_call_graph G graph = subgraph_by_kind G graph ''propagator''"

definition graph_query_upstream_of ::
    "nat \<Rightarrow> ('g, 'z) graphology_scheme \<Rightarrow> 'g \<Rightarrow> jstring \<Rightarrow> nat \<Rightarrow> ('g \<times> nat) option" where
  "graph_query_upstream_of fuel G graph node_id next_id =
     map_option (\<lambda>(ids, next_id'). (induced_subgraph_from_ids G graph ids, next_id'))
       (query_node_ids fuel (\<lambda>node_var. goal_or
          [goal_equal fuel node_var (JStr node_id), upstream_of fuel G graph node_var (JStr node_id)]) None next_id)"

definition graph_query_downstream_of ::
    "nat \<Rightarrow> ('g, 'z) graphology_scheme \<Rightarrow> 'g \<Rightarrow> jstring \<Rightarrow> nat \<Rightarrow> ('g \<times> nat) option" where
  "graph_query_downstream_of fuel G graph node_id next_id =
     map_option (\<lambda>(ids, next_id'). (induced_subgraph_from_ids G graph ids, next_id'))
       (query_node_ids fuel (\<lambda>node_var. goal_or
          [goal_equal fuel node_var (JStr node_id), downstream_of fuel G graph (JStr node_id) node_var]) None next_id)"

definition graph_query_reachable ::
    "nat \<Rightarrow> ('g, 'z) graphology_scheme \<Rightarrow> 'g \<Rightarrow> jstring \<Rightarrow> jstring \<Rightarrow> nat \<Rightarrow> (bool \<times> nat) option" where
  "graph_query_reachable fuel G graph source_id target_id next_id =
     map_option (\<lambda>(edges, next_id'). (edges \<noteq> [], next_id'))
       (query_edges fuel (\<lambda>source_var target_var. goal_and
          [reachable fuel G graph source_var target_var, goal_equal fuel source_var (JStr source_id),
           goal_equal fuel target_var (JStr target_id)]) (Some 1) next_id)"

section \<open>Inspection\<close>

record inspection_row =
  row_id :: jstring
  row_label :: "jstring option"
  row_kind :: "jstring option"
  row_namespace :: "jstring option"
  row_relation_level :: "jsnum option"
  row_value :: "jstring option"
  row_content :: "jstring option"

definition string_attr :: "attributes \<Rightarrow> jstring \<Rightarrow> jstring option" where
  "string_attr attrs k = (case js_prop (JObj attrs) k of JStr s \<Rightarrow> Some s | _ \<Rightarrow> None)"

definition inspection_rows :: "('g, 'z) graphology_scheme \<Rightarrow> 'g \<Rightarrow> inspection_row list" where
  "inspection_rows G graph =
     map (\<lambda>(node, attrs).
       \<lparr>row_id = node, row_label = string_attr attrs ''label'', row_kind = string_attr attrs ''kind'',
        row_namespace = string_attr attrs ''namespace'',
        row_relation_level = (case js_prop (JObj attrs) ''relationLevel'' of JNum n \<Rightarrow> Some n | _ \<Rightarrow> None),
        row_value = string_attr attrs ''value'', row_content = string_attr attrs ''content''\<rparr>) (for_each_node G graph)"

definition graph_query_inspect_values :: "('g, 'z) graphology_scheme \<Rightarrow> 'g \<Rightarrow> inspection_row list" where
  "graph_query_inspect_values G graph =
     filter (\<lambda>row. row_kind row = Some ''cell'' \<and> row_value row \<noteq> None) (inspection_rows G graph)"

definition graph_query_inspect_content ::
    "('g, 'z) graphology_scheme \<Rightarrow> (jstring \<Rightarrow> jstring option) \<Rightarrow> 'g \<Rightarrow> inspection_row list" where
  "graph_query_inspect_content G content_of graph =
     filter (\<lambda>row. row_kind row = Some ''cell'' \<and> row_content row \<noteq> None)
       (inspection_rows G (annotate_cell_content G content_of is_cell_node graph))"

end
