(* ===== verification/Graph_Query_Spec.thy ===== *)
theory Graph_Query_Spec
  imports Graph_Query
begin

text \<open>
  What the queries of a graph return: the ready-made queries against the nodes and paths of the
  graph, and the query language against the relational meaning of its clauses.
\<close>

section \<open>Lemmas\<close>

lemma relates_or_pairs:
  assumes "\<And>g P. (g, P) \<in> set gps \<Longrightarrow> relates fuel g P"
  shows "relates fuel (goal_or (map fst gps)) (\<lambda>\<rho>. \<exists>(g, P) \<in> set gps. P \<rho>)"
proof -
  have "relates fuel (\<lambda>st. flat_map_opt (\<lambda>x. fst x st) gps) (\<lambda>\<rho>. \<exists>x \<in> set gps. snd x \<rho>)"
    using assms by (intro relates_flat_map) auto
  then show ?thesis by (simp add: goal_or_def [abs_def] flat_map_opt_def comp_def case_prod_unfold)
qed

lemma relates_and_pairs:
  "(\<And>g P. (g, P) \<in> set gps \<Longrightarrow> relates fuel g P) \<Longrightarrow>
     relates fuel (goal_and (map fst gps)) (\<lambda>\<rho>. \<forall>(g, P) \<in> set gps. P \<rho>)"
proof (induction gps rule: rev_induct)
  case Nil
  then show ?case by (simp add: relates_def relates_at_def)
next
  case (snoc gp gps)
  obtain g P where gp: "gp = (g, P)" by force
  have "relates fuel (\<lambda>st. Option.bind (goal_and (map fst gps) st) (flat_map_opt g)) (\<lambda>\<rho>. (\<forall>(g, P) \<in> set gps. P \<rho>) \<and> P \<rho>)"
    using snoc.prems by (intro relates_seq snoc.IH) (auto simp: gp)
  moreover have "(\<lambda>st. Option.bind (goal_and (map fst gps) st) (flat_map_opt g)) = goal_and (map fst (gps @ [gp]))"
    by (simp add: goal_and_snoc fun_eq_iff gp)
  ultimately show ?case by (simp add: gp conj_commute)
qed

lemma relates_fresh:
  assumes "relates fuel (builder (make_logic_var (gs_counter st) None)) P" and "small_subst fuel (gs_subst st)"
  shows "relates_at fuel st (fresh builder) P"
  using relatesD [OF assms(1), of "\<lparr>gs_subst = gs_subst st, gs_counter = gs_counter st + 1\<rparr>"] assms(2)
  by (simp add: relates_at_def fresh_def)

lemma inst_string: "ground v \<Longrightarrow> inst \<rho> v = GPrim (JStr s) \<longleftrightarrow> v = JStr s"
  by (cases v) auto

lemma inst_number: "ground v \<Longrightarrow> inst \<rho> v = GPrim (JNum s) \<longleftrightarrow> v = JNum s"
  by (cases v) auto

text \<open>The component of the nodes whose label starts with a prefix.\<close>

definition labelled :: "('g, 'z) graphology_scheme \<Rightarrow> 'g \<Rightarrow> (jstring \<Rightarrow> bool) \<Rightarrow> jstring set" where
  "labelled G g test = {x. \<exists>attrs raw. node_map G g x = Some attrs \<and> js_prop (JObj attrs) ''label'' = JStr raw \<and> test raw}"

context graphology_laws
begin

lemma small_graph_maps:
  "small_graph fuel G g \<longleftrightarrow> 3 \<le> fuel \<and> (\<forall>x a. node_map G g x = Some a \<longrightarrow> small fuel (JObj a))"
  unfolding small_graph_def node_map_iff [symmetric] by auto

lemma attr_query:
  assumes "small_graph fuel G g" and "small fuel c" and "\<And>\<rho> v. ground v \<Longrightarrow> inst \<rho> c = inst \<rho> v \<longleftrightarrow> v = c"
  shows "\<exists>ids. query_node_ids fuel (\<lambda>v. attr_fact fuel G g k v c None) None n = Some (ids, n + 1) \<and> distinct ids
    \<and> set ids = {x. \<exists>attrs. node_map G g x = Some attrs \<and> js_prop (JObj attrs) k = c}"
proof -
  let ?P = "\<lambda>\<rho>. \<exists>(node, attrs) \<in> set (for_each_node G g). True
       \<and> inst \<rho> (make_logic_var n (Some ''node'')) = GPrim (JStr node) \<and> inst \<rho> c = inst \<rho> (js_prop (JObj attrs) k)"
  have rel: "relates fuel (attr_fact fuel G g k (make_logic_var n (Some ''node'')) c None) ?P"
    using relates_attr [OF assms(1), of "make_logic_var n (Some ''node'')" c k None] assms(2)
    by (simp add: small_def)
  have fuel: "2 \<le> fuel" using assms(1) by (simp add: small_graph_def)
  have "\<exists>ids. query_node_ids fuel (\<lambda>v. attr_fact fuel G g k v c None) None n = Some (ids, n + 1) \<and> distinct ids
      \<and> set ids = {x. \<exists>\<rho>. ?P \<rho> \<and> \<rho> (num_of_int (int n)) = GPrim (JStr x)}"
  proof (rule query_node_ids_set)
    show "relates_at fuel (empty_goal_state (n + 1)) (attr_fact fuel G g k (make_logic_var n (Some ''node'')) c None) ?P"
      by (rule relatesD [OF rel]) simp
    show "\<exists>x. \<rho> (num_of_int (int n)) = GPrim (JStr x)" if "?P \<rho>" for \<rho> using that by auto
  qed (rule fuel)
  then obtain ids where ids: "query_node_ids fuel (\<lambda>v. attr_fact fuel G g k v c None) None n = Some (ids, n + 1)" "distinct ids"
    "set ids = {x. \<exists>\<rho>. ?P \<rho> \<and> \<rho> (num_of_int (int n)) = GPrim (JStr x)}" by blast
  have "(\<exists>\<rho>. ?P \<rho> \<and> \<rho> (num_of_int (int n)) = GPrim (JStr x)) \<longleftrightarrow>
      (\<exists>attrs. node_map G g x = Some attrs \<and> js_prop (JObj attrs) k = c)" for x
  proof
    assume "\<exists>\<rho>. ?P \<rho> \<and> \<rho> (num_of_int (int n)) = GPrim (JStr x)"
    then obtain \<rho> attrs where a: "(x, attrs) \<in> set (for_each_node G g)" "inst \<rho> c = inst \<rho> (js_prop (JObj attrs) k)"
      by auto
    have "ground (js_prop (JObj attrs) k)"
      using small_attribute [OF assms(1) a(1), of k] by (simp add: small_def)
    then have "js_prop (JObj attrs) k = c" using a(2) assms(3) by simp
    then show "\<exists>attrs. node_map G g x = Some attrs \<and> js_prop (JObj attrs) k = c"
      using a(1) by (auto simp: node_map_iff)
  next
    assume "\<exists>attrs. node_map G g x = Some attrs \<and> js_prop (JObj attrs) k = c"
    then obtain attrs where "(x, attrs) \<in> set (for_each_node G g)" "js_prop (JObj attrs) k = c"
      by (auto simp: node_map_iff)
    then show "\<exists>\<rho>. ?P \<rho> \<and> \<rho> (num_of_int (int n)) = GPrim (JStr x)"
      by (intro exI [of _ "\<lambda>_. GPrim (JStr x)"]) force
  qed
  then show ?thesis using ids by auto
qed

lemma downstream_ids:
  assumes "small_graph fuel G g" and "arrows_ok G g"
    and goal: "\<And>v. wf_term v \<Longrightarrow> relates fuel (h v)
      (\<lambda>\<rho>. \<exists>(s, t) \<in> (edges_of_graph G g)\<^sup>+. s = x \<and> inst \<rho> v = GPrim (JStr t))"
  shows "\<exists>ids. query_node_ids fuel (\<lambda>v. goal_or [goal_equal fuel v (JStr x), h v]) None n = Some (ids, n + 1)
    \<and> set ids = (edges_of_graph G g)\<^sup>* `` {x}"
proof -
  let ?v = "make_logic_var n (Some ''node'')" and ?i = "num_of_int (int n)" and ?E = "edges_of_graph G g"
  let ?gps = "[(goal_equal fuel ?v (JStr x), \<lambda>\<rho>. inst \<rho> ?v = inst \<rho> (JStr x)),
    (h ?v, \<lambda>\<rho>. \<exists>(s, t) \<in> ?E\<^sup>+. s = x \<and> inst \<rho> ?v = GPrim (JStr t))]"
  have "relates fuel (goal_or (map fst ?gps)) (\<lambda>\<rho>. \<exists>(g, P) \<in> set ?gps. P \<rho>)"
    using goal [of ?v] relates_equal [OF wf_var small_graph_str [OF assms(1)]]
    by (intro relates_or_pairs) auto
  moreover have "(\<exists>(g, P) \<in> set ?gps. P \<rho>) \<longleftrightarrow> (\<exists>y. (x, y) \<in> ?E\<^sup>* \<and> \<rho> ?i = GPrim (JStr y))" for \<rho>
    by (auto simp: rtrancl_eq_or_trancl)
  ultimately have rel: "relates fuel (goal_or [goal_equal fuel ?v (JStr x), h ?v]) (\<lambda>\<rho>. \<exists>y. (x, y) \<in> ?E\<^sup>* \<and> \<rho> ?i = GPrim (JStr y))"
    by simp
  have fuel: "2 \<le> fuel" using assms(1) by (simp add: small_graph_def)
  have "\<exists>ids. query_node_ids fuel (\<lambda>v. goal_or [goal_equal fuel v (JStr x), h v]) None n = Some (ids, n + 1) \<and> distinct ids
      \<and> set ids = {z. \<exists>\<rho>. (\<exists>y. (x, y) \<in> ?E\<^sup>* \<and> \<rho> ?i = GPrim (JStr y)) \<and> \<rho> ?i = GPrim (JStr z)}"
  proof (rule query_node_ids_set)
    show "relates_at fuel (empty_goal_state (n + 1)) (goal_or [goal_equal fuel ?v (JStr x), h ?v])
        (\<lambda>\<rho>. \<exists>y. (x, y) \<in> ?E\<^sup>* \<and> \<rho> ?i = GPrim (JStr y))"
      by (rule relatesD [OF rel]) simp
    show "\<exists>y. \<rho> ?i = GPrim (JStr y)" if "\<exists>y. (x, y) \<in> ?E\<^sup>* \<and> \<rho> ?i = GPrim (JStr y)" for \<rho> using that by blast
  qed (rule fuel)
  moreover have "{z. \<exists>\<rho>. (\<exists>y. (x, y) \<in> ?E\<^sup>* \<and> \<rho> ?i = GPrim (JStr y)) \<and> \<rho> ?i = GPrim (JStr z)} = ?E\<^sup>* `` {x}"
    by (auto intro!: exI [of _ "\<lambda>_. GPrim (JStr _)"])
  ultimately show ?thesis by auto
qed

lemma downstream_query:
  assumes "small_graph fuel G g" and "arrows_ok G g"
  shows "\<exists>r. graph_query_downstream_of fuel G g x n = Some (r, n + 1)
    \<and> node_map G r = node_map G g |` ((edges_of_graph G g)\<^sup>* `` {x})
    \<and> edge_map G r = restrict_edges ((edges_of_graph G g)\<^sup>* `` {x}) (edge_map G g)"
proof -
  have "relates fuel (downstream_of fuel G g (JStr x) v)
      (\<lambda>\<rho>. \<exists>(s, t) \<in> (edges_of_graph G g)\<^sup>+. s = x \<and> inst \<rho> v = GPrim (JStr t))" if "wf_term v" for v
    using relates_reachable [OF assms, of "JStr x" v] that
    by (simp add: downstream_of_def eq_commute [of x])
  from downstream_ids [OF assms this] obtain ids where
    "query_node_ids fuel (\<lambda>v. goal_or [goal_equal fuel v (JStr x), downstream_of fuel G g (JStr x) v]) None n = Some (ids, n + 1)"
    "set ids = (edges_of_graph G g)\<^sup>* `` {x}" by blast
  then show ?thesis using induced_maps [of g ids] by (simp add: graph_query_downstream_of_def)
qed

lemma upstream_query:
  assumes "small_graph fuel G g" and "arrows_ok G g"
  shows "\<exists>r. graph_query_upstream_of fuel G g x n = Some (r, n + 1)
    \<and> node_map G r = node_map G g |` ((edges_of_graph G g)\<^sup>* `` {x})
    \<and> edge_map G r = restrict_edges ((edges_of_graph G g)\<^sup>* `` {x}) (edge_map G g)"
proof -
  have small: "small_graph fuel G (reverse_graph G g)"
    using assms(1) by (simp add: small_graph_maps reverse_maps)
  have arrows: "arrows_ok G (reverse_graph G g)" using assms(2) by (simp add: arrows_ok_def reverse_maps)
  have rev: "(a, b) \<in> (edges_of_graph G (reverse_graph G g))\<^sup>+ \<longleftrightarrow> (b, a) \<in> (edges_of_graph G g)\<^sup>+" for a b
    by (simp add: reverse_edges trancl_converse)
  have "relates fuel (upstream_of fuel G g v (JStr x))
      (\<lambda>\<rho>. \<exists>(s, t) \<in> (edges_of_graph G g)\<^sup>+. s = x \<and> inst \<rho> v = GPrim (JStr t))" if v: "wf_term v" for v
  proof -
    have "(\<exists>(s, t) \<in> (edges_of_graph G (reverse_graph G g))\<^sup>+. inst \<rho> v = GPrim (JStr s) \<and> inst \<rho> (JStr x) = GPrim (JStr t)) \<longleftrightarrow>
        (\<exists>(s, t) \<in> (edges_of_graph G g)\<^sup>+. s = x \<and> inst \<rho> v = GPrim (JStr t))" for \<rho>
      using rev by fastforce
    then show ?thesis using relates_reachable [OF small arrows v, of "JStr x"] by (simp add: upstream_of_def)
  qed
  from downstream_ids [OF assms this] obtain ids where
    "query_node_ids fuel (\<lambda>v. goal_or [goal_equal fuel v (JStr x), upstream_of fuel G g v (JStr x)]) None n = Some (ids, n + 1)"
    "set ids = (edges_of_graph G g)\<^sup>* `` {x}" by blast
  then show ?thesis using induced_maps [of g ids] by (simp add: graph_query_upstream_of_def)
qed

lemma relates_reaches_pair:
  assumes "small_graph fuel G g" and "arrows_ok G g" and "wf_term v" and "wf_term w"
  shows "relates fuel (goal_and [reachable fuel G g v w, goal_equal fuel v (JStr x), goal_equal fuel w (JStr y)])
    (\<lambda>\<rho>. (x, y) \<in> (edges_of_graph G g)\<^sup>+ \<and> inst \<rho> v = GPrim (JStr x) \<and> inst \<rho> w = GPrim (JStr y))"
proof -
  let ?gps = "[(reachable fuel G g v w, \<lambda>\<rho>. \<exists>(s, t) \<in> (edges_of_graph G g)\<^sup>+. inst \<rho> v = GPrim (JStr s) \<and> inst \<rho> w = GPrim (JStr t)),
    (goal_equal fuel v (JStr x), \<lambda>\<rho>. inst \<rho> v = inst \<rho> (JStr x)),
    (goal_equal fuel w (JStr y), \<lambda>\<rho>. inst \<rho> w = inst \<rho> (JStr y))]"
  have "relates fuel (goal_and (map fst ?gps)) (\<lambda>\<rho>. \<forall>(g, P) \<in> set ?gps. P \<rho>)"
    using relates_reachable [OF assms] relates_equal [OF assms(3) small_graph_str [OF assms(1)]]
      relates_equal [OF assms(4) small_graph_str [OF assms(1)]]
    by (intro relates_and_pairs) auto
  moreover have "(\<forall>(g, P) \<in> set ?gps. P \<rho>) \<longleftrightarrow> ((x, y) \<in> (edges_of_graph G g)\<^sup>+ \<and> inst \<rho> v = GPrim (JStr x) \<and> inst \<rho> w = GPrim (JStr y))" for \<rho>
    by auto
  ultimately show ?thesis by simp
qed

lemma reachable_query:
  assumes "small_graph fuel G g" and "arrows_ok G g"
  shows "graph_query_reachable fuel G g x y n = Some ((x, y) \<in> (edges_of_graph G g)\<^sup>+, n + 2)"
proof -
  let ?v = "make_logic_var n (Some ''source'')" and ?w = "make_logic_var (n + 1) (Some ''target'')"
  let ?i = "num_of_int (int n)" and ?j = "num_of_int (int (n + 1))" and ?E = "edges_of_graph G g"
  let ?build = "\<lambda>v w. goal_and [reachable fuel G g v w, goal_equal fuel v (JStr x), goal_equal fuel w (JStr y)]"
  let ?P = "\<lambda>\<rho>. (x, y) \<in> ?E\<^sup>+ \<and> inst \<rho> ?v = GPrim (JStr x) \<and> inst \<rho> ?w = GPrim (JStr y)"
  have fuel: "3 \<le> fuel" using assms(1) by (simp add: small_graph_def)
  have inst: "inst \<rho> ?v = \<rho> ?i" "inst \<rho> ?w = \<rho> ?j" for \<rho> by simp_all
  have "\<exists>edges. query_edges fuel ?build (Some 1) n = Some (edges, n + 2) \<and> (edges \<noteq> [] \<longleftrightarrow> (\<exists>\<rho>. ?P \<rho>))"
  proof (rule query_edges_one)
    show "relates_at fuel (empty_goal_state (n + 2)) (?build ?v ?w) ?P"
      by (rule relatesD [OF relates_reaches_pair [OF assms wf_var wf_var]]) (rule small_empty_state)
    show "(\<exists>a. \<rho> ?i = GPrim (JStr a)) \<and> (\<exists>b. \<rho> ?j = GPrim (JStr b))" if "?P \<rho>" for \<rho>
      using that unfolding inst by blast
  qed (rule fuel)
  moreover have "(\<exists>\<rho>. ?P \<rho>) \<longleftrightarrow> (x, y) \<in> ?E\<^sup>+"
    using num_of_int_inj [of "n + 1" n] unfolding inst
    by (auto intro!: exI [of _ "\<lambda>i. if i = ?i then GPrim (JStr x) else GPrim (JStr y)"])
  ultimately show ?thesis by (auto simp: graph_query_reachable_def)
qed

lemma label_prefix_goal:
  assumes "small_graph fuel G g"
  shows "label_prefix fuel G g v (JStr p) = label_step fuel G g v (\<lambda>raw. starts_with raw p)"
proof -
  have "small (Suc fuel) (JStr p)" using assms by (simp add: small_graph_def)
  then have "resolve fuel (JStr p) s = Some (JStr p)" for s by (simp add: resolve_reify reify_ground)
  then show ?thesis by (simp add: fun_eq_iff label_prefix_def)
qed

lemma prefix_ids:
  assumes "small_graph fuel G g"
  shows "\<exists>ids. query_node_ids fuel (\<lambda>v. label_prefix fuel G g v (JStr p)) None n = Some (ids, n + 1) \<and> distinct ids
    \<and> set ids = labelled G g (\<lambda>raw. starts_with raw p)"
proof -
  let ?v = "make_logic_var n (Some ''node'')" and ?i = "num_of_int (int n)"
  let ?P = "\<lambda>\<rho>. \<exists>(node, attrs) \<in> set (for_each_node G g).
       (\<exists>raw. js_prop (JObj attrs) ''label'' = JStr raw \<and> starts_with raw p) \<and> inst \<rho> ?v = GPrim (JStr node)"
  have fuel: "2 \<le> fuel" using assms by (simp add: small_graph_def)
  have "\<exists>ids. query_node_ids fuel (\<lambda>v. label_prefix fuel G g v (JStr p)) None n = Some (ids, n + 1) \<and> distinct ids
      \<and> set ids = {x. \<exists>\<rho>. ?P \<rho> \<and> \<rho> ?i = GPrim (JStr x)}"
  proof (rule query_node_ids_set)
    show "relates_at fuel (empty_goal_state (n + 1)) (label_prefix fuel G g ?v (JStr p)) ?P"
      unfolding label_prefix_goal [OF assms]
      by (rule relatesD [OF relates_label [OF assms wf_var]]) (rule small_empty_state)
    show "\<exists>x. \<rho> ?i = GPrim (JStr x)" if "?P \<rho>" for \<rho> using that by auto
  qed (rule fuel)
  moreover have "{x. \<exists>\<rho>. ?P \<rho> \<and> \<rho> ?i = GPrim (JStr x)} = labelled G g (\<lambda>raw. starts_with raw p)"
  proof (intro set_eqI iffI)
    fix x assume "x \<in> {x. \<exists>\<rho>. ?P \<rho> \<and> \<rho> ?i = GPrim (JStr x)}"
    then show "x \<in> labelled G g (\<lambda>raw. starts_with raw p)" by (auto simp: labelled_def node_map_iff)
  next
    fix x assume "x \<in> labelled G g (\<lambda>raw. starts_with raw p)"
    then obtain attrs raw where "(x, attrs) \<in> set (for_each_node G g)" "js_prop (JObj attrs) ''label'' = JStr raw" "starts_with raw p"
      by (auto simp: labelled_def node_map_iff)
    then show "x \<in> {x. \<exists>\<rho>. ?P \<rho> \<and> \<rho> ?i = GPrim (JStr x)}"
      by (intro CollectI exI [of _ "\<lambda>_. GPrim (JStr x)"]) auto
  qed
  ultimately show ?thesis by simp
qed

lemma component_maps:
  assumes "set seeds \<subseteq> nodes_of G g"
  shows "\<exists>r. connected_component G g seeds = Some r
    \<and> node_map G r = node_map G g |` ((edges_of_graph G g \<union> (edges_of_graph G g)\<inverse>)\<^sup>* `` set seeds)
    \<and> edge_map G r = restrict_edges ((edges_of_graph G g \<union> (edges_of_graph G g)\<inverse>)\<^sup>* `` set seeds) (edge_map G g)"
proof -
  let ?E = "edges_of_graph G g"
  obtain ids where ids: "worklist (\<lambda>x. \<not> has_node G g x) (\<lambda>x. in_neighbors G g x @ out_neighbors G g x) [] seeds = Some ids"
    "set ids = (?E \<union> ?E\<inverse>)\<^sup>* `` set seeds"
  proof (rule worklist_relation [of "nodes_of G g" seeds "\<lambda>x. \<not> has_node G g x"
        "\<lambda>x. in_neighbors G g x @ out_neighbors G g x" "?E \<union> ?E\<inverse>"])
    show "?E \<union> ?E\<inverse> \<subseteq> nodes_of G g \<times> nodes_of G g" using edge_ends [of g] by auto
    show "set (in_neighbors G g x @ out_neighbors G g x) = (?E \<union> ?E\<inverse>) `` {x}" if "x \<in> nodes_of G g" for x
      using out_neighbors [OF that] in_neighbors [OF that] by auto
  qed (use assms in \<open>simp_all add: has_node\<close>)
  then show ?thesis using induced_maps [of g ids] by (simp add: connected_component_def)
qed

lemma card_network_maps:
  assumes "small_graph fuel G g"
  shows "\<exists>r. graph_query_card_network fuel G g c n = Some (r, n + 1)
    \<and> node_map G r = node_map G g |` ((edges_of_graph G g \<union> (edges_of_graph G g)\<inverse>)\<^sup>*
        `` labelled G g (\<lambda>raw. starts_with raw (''CARD|'' @ c)))
    \<and> edge_map G r = restrict_edges ((edges_of_graph G g \<union> (edges_of_graph G g)\<inverse>)\<^sup>*
        `` labelled G g (\<lambda>raw. starts_with raw (''CARD|'' @ c))) (edge_map G g)"
proof -
  obtain ids where ids: "query_node_ids fuel (\<lambda>v. label_prefix fuel G g v (JStr (''CARD|'' @ c))) None n = Some (ids, n + 1)"
    "set ids = labelled G g (\<lambda>raw. starts_with raw (''CARD|'' @ c))" using prefix_ids [OF assms] by blast
  have "set ids \<subseteq> nodes_of G g" by (auto simp: ids(2) labelled_def)
  from component_maps [OF this] show ?thesis
    unfolding graph_query_card_network_def ids(1) ids(2) [symmetric] by auto
qed

end

section \<open>Properties\<close>

text \<open>A path of three cells, and two cards whose ids share a prefix.\<close>

definition sample_chain :: lgraph where
  "sample_chain = list_graph_of [(''a'', [(''kind'', JStr ''cell'')]), (''b'', [(''kind'', JStr ''propagator'')]),
      (''c'', [(''kind'', JStr ''cell'')])] [(''a'', ''b''), (''b'', ''c'')]"

definition sample_cards :: lgraph where
  "sample_cards = list_graph_of [(''x'', [(''label'', JStr ''CARD|c1|this'')]), (''y'', [(''label'', JStr ''CARD|c10|this'')]),
      (''z'', []), (''w'', [])] [(''z'', ''y'')]"

lemma sample_small [simp]:
  "small_graph 5 list_graphology sample_chain" "small_graph 5 list_graphology sample_cards"
  by code_simp+

lemma sample_lists:
  "for_each_edge list_graphology sample_chain = [([], ''a'', ''b''), ([], ''b'', ''c'')]"
  "map fst (for_each_node list_graphology sample_chain) = [''a'', ''b'', ''c'']"
  "for_each_edge list_graphology sample_cards = [([], ''z'', ''y'')]"
  "map fst (for_each_node list_graphology sample_cards) = [''x'', ''y'', ''z'', ''w'']"
  by code_simp+

lemma sample_relation:
  "nodes_of list_graphology sample_chain = {''a'', ''b'', ''c''}"
  "edges_of_graph list_graphology sample_chain = {(''a'', ''b''), (''b'', ''c'')}"
  "edges_of_graph list_graphology sample_cards = {(''z'', ''y'')}"
proof -
  have "set (map fst (for_each_node list_graphology sample_chain)) = {''a'', ''b'', ''c''}"
    unfolding sample_lists by simp
  then show "nodes_of list_graphology sample_chain = {''a'', ''b'', ''c''}" by (simp add: list_graph.nodes_of_set)
qed (simp_all add: list_graph.edges_of_set sample_lists)

lemma sample_arrows [simp]: "arrows_ok list_graphology sample_chain"
  by (auto simp: arrows_ok_def inj_on_def sample_relation arrow_key_def)

lemma sample_reach: "(edges_of_graph list_graphology sample_chain)\<^sup>* `` {''b''} = {''b'', ''c''}"
  by (auto simp: sample_relation elim: converse_rtranclE)

text \<open>
  C31: \<open>graph_query_upstream_of\<close> returns the nodes a path leads to \<^emph>\<open>from\<close> the given node, with the
  edges between them: the graph is reversed and the arguments are exchanged as well, so the query
  gives the downstream set, as \<open>graph_query_downstream_of\<close> does. It always ends.
\<close>

theorem upstream_query_is_downstream:
  assumes "graphology_laws G" and "small_graph fuel G g" and "arrows_ok G g"
  shows "\<exists>r r'. graph_query_upstream_of fuel G g x n = Some (r, n + 1) \<and> graph_query_downstream_of fuel G g x n = Some (r', n + 1)
    \<and> node_map G r = node_map G g |` ((edges_of_graph G g)\<^sup>* `` {x})
    \<and> edge_map G r = restrict_edges ((edges_of_graph G g)\<^sup>* `` {x}) (edge_map G g)
    \<and> node_map G r' = node_map G r \<and> edge_map G r' = edge_map G r"
  using graphology_laws.upstream_query [OF assms, of x n] graphology_laws.downstream_query [OF assms, of x n]
  by (elim exE conjE) simp

theorem upstream_query_is_downstream_witness:
  "\<exists>r. graph_query_upstream_of 5 list_graphology sample_chain ''b'' 0 = Some (r, 1)
     \<and> nodes_of list_graphology r = {''b'', ''c''}"
proof -
  from upstream_query_is_downstream [OF list_graph.graphology_laws_axioms sample_small(1) sample_arrows, of "''b''" 0]
  obtain r where r: "graph_query_upstream_of 5 list_graphology sample_chain ''b'' 0 = Some (r, 1)"
    "node_map list_graphology r = node_map list_graphology sample_chain |` {''b'', ''c''}"
    unfolding sample_reach by auto
  then show ?thesis using sample_relation(1) by auto
qed

text \<open>
  C32: \<open>graph_query_reachable\<close> always ends and is true exactly when a path of at least one edge
  leads from the source to the target.
\<close>

theorem reachable_query_exact:
  assumes "graphology_laws G" and "small_graph fuel G g" and "arrows_ok G g"
  shows "graph_query_reachable fuel G g x y n = Some ((x, y) \<in> (edges_of_graph G g)\<^sup>+, n + 2)"
  by (rule graphology_laws.reachable_query [OF assms])

theorem reachable_query_exact_witness:
  "graph_query_reachable 5 list_graphology sample_chain ''a'' ''c'' 0 = Some (True, 2)
   \<and> graph_query_reachable 5 list_graphology sample_chain ''c'' ''c'' 0 = Some (False, 2)"
proof -
  have "(''a'', ''c'') \<in> (edges_of_graph list_graphology sample_chain)\<^sup>+"
    "(''c'', ''c'') \<notin> (edges_of_graph list_graphology sample_chain)\<^sup>+"
    unfolding sample_relation by (auto intro: trancl_trans dest: tranclD)
  then show ?thesis
    using reachable_query_exact [OF list_graph.graphology_laws_axioms sample_small(1) sample_arrows, of "''a''" "''c''" 0]
      reachable_query_exact [OF list_graph.graphology_laws_axioms sample_small(1) sample_arrows, of "''c''" "''c''" 0] by simp
qed

text \<open>
  The network of a card is the union of the connected components, with edges taken in both
  directions, of the nodes whose label starts with \<open>CARD|\<close> and the id. The prefix has no
  separator at its end: a card whose id extends the id belongs to the result too.
\<close>

lemma card_network_spec:
  assumes "graphology_laws G" and "small_graph fuel G g"
  shows "\<exists>r. graph_query_card_network fuel G g c n = Some (r, n + 1)
    \<and> node_map G r = node_map G g |` ((edges_of_graph G g \<union> (edges_of_graph G g)\<inverse>)\<^sup>*
        `` labelled G g (\<lambda>raw. starts_with raw (''CARD|'' @ c)))
    \<and> edge_map G r = restrict_edges ((edges_of_graph G g \<union> (edges_of_graph G g)\<inverse>)\<^sup>*
        `` labelled G g (\<lambda>raw. starts_with raw (''CARD|'' @ c))) (edge_map G g)"
  by (rule graphology_laws.card_network_maps [OF assms])

lemma sample_network_nodes:
  "map_option (\<lambda>(r, n). (map fst (for_each_node list_graphology r), n)) (graph_query_card_network 5 list_graphology sample_cards ''c1'' 0) =
     Some ([''x'', ''y'', ''z''], 1)"
  by code_simp

text \<open>
  The nodes of a kind: the query ends and returns, each once, exactly the nodes whose
  attribute \<open>kind\<close> is the given one.
\<close>

lemma nodes_by_kind_exact:
  assumes "graphology_laws G" and "small_graph fuel G g"
  shows "\<exists>ids. query_nodes_by_kind fuel G g k n = Some (ids, n + 1) \<and> distinct ids
    \<and> set ids = {x. \<exists>attrs. node_map G g x = Some attrs \<and> js_prop (JObj attrs) ''kind'' = JStr k}"
  unfolding query_nodes_by_kind_def fact_kind_def
proof (rule graphology_laws.attr_query [OF assms])
  show "small fuel (JStr k)" by (rule small_graph_str [OF assms(2)])
  show "inst \<rho> (JStr k) = inst \<rho> v \<longleftrightarrow> v = JStr k" if "ground v" for \<rho> v
    using inst_string [OF that, of \<rho> k] by auto
qed

text \<open>
   The keys of pairs collide for ids that contain an arrow: of the two pairs of a graph with
  the edges \<open>a->b\<close> to \<open>c\<close> and \<open>a\<close> to \<open>b->c\<close> one is lost, and the query denies a path that is an edge.
\<close>

lemma arrow_keys_collide:
  "(let g = list_graph_of [(''a->b'', []), (''c'', []), (''a'', []), (''b->c'', [])] [(''a->b'', ''c''), (''a'', ''b->c'')]
    in has_edge list_graphology g ''a'' ''b->c''
      \<and> graph_query_reachable 5 list_graphology g ''a->b'' ''c'' 0 = Some (True, 2)
      \<and> graph_query_reachable 5 list_graphology g ''a'' ''b->c'' 0 = Some (False, 2))"
  by code_simp

end
