(* ===== verification/Graph_Propagators.thy ===== *)
theory Graph_Propagators
  imports Graph_Query_Spec
begin

text \<open>
  The propagators of \<open>compiler/tracer/graph_relations.ts\<close>: a query wrapped so that it runs when the
  cells it reads change. \<open>construct_propagator\<close> is the library's, so a propagator is the name and
  the activation the code passes to it. A cell is what \<open>cell_strongest_base_value\<close> gives, reduced to
  what the guards ask: \<open>None\<close> for a graph cell that does not look like a graph, and for an argument
  that is undefined or null. An activation returns what it writes to the output (\<open>None\<close>: nothing),
  with the counter of logic variables; the outer \<open>None\<close> is a query that does not return.
\<close>

section \<open>Wrappers\<close>

record ('i, 'o) graph_propagator =
  gp_name :: jstring
  gp_activate :: "'i \<Rightarrow> nat \<Rightarrow> ('o option \<times> nat) option"

definition run_and_write :: "(nat \<Rightarrow> ('o \<times> nat) option) \<Rightarrow> nat \<Rightarrow> ('o option \<times> nat) option" where
  "run_and_write query next_id = map_option (\<lambda>(r, next_id'). (Some r, next_id')) (query next_id)"

definition unary_graph_query ::
    "jstring \<Rightarrow> ('g \<Rightarrow> nat \<Rightarrow> ('o \<times> nat) option) \<Rightarrow> ('g option, 'o) graph_propagator" where
  "unary_graph_query name query =
     \<lparr>gp_name = name,
      gp_activate = (\<lambda>graph_cell next_id.
        case graph_cell of
          None \<Rightarrow> Some (None, next_id)
        | Some graph \<Rightarrow> run_and_write (query graph) next_id)\<rparr>"

definition binary_graph_query ::
    "jstring \<Rightarrow> ('g \<Rightarrow> 'a \<Rightarrow> nat \<Rightarrow> ('o \<times> nat) option) \<Rightarrow> ('g option \<times> 'a option, 'o) graph_propagator" where
  "binary_graph_query name query =
     \<lparr>gp_name = name,
      gp_activate = (\<lambda>(graph_cell, arg_cell) next_id.
        case (graph_cell, arg_cell) of
          (Some graph, Some arg) \<Rightarrow> run_and_write (query graph arg) next_id
        | _ \<Rightarrow> Some (None, next_id))\<rparr>"

definition ternary_graph_query ::
    "jstring \<Rightarrow> ('g \<Rightarrow> 'a \<Rightarrow> 'b \<Rightarrow> nat \<Rightarrow> ('o \<times> nat) option)
       \<Rightarrow> ('g option \<times> 'a option \<times> 'b option, 'o) graph_propagator" where
  "ternary_graph_query name query =
     \<lparr>gp_name = name,
      gp_activate = (\<lambda>(graph_cell, arg1_cell, arg2_cell) next_id.
        case (graph_cell, arg1_cell, arg2_cell) of
          (Some graph, Some arg1, Some arg2) \<Rightarrow> run_and_write (query graph arg1 arg2) next_id
        | _ \<Rightarrow> Some (None, next_id))\<rparr>"

text \<open>A query that uses no logic variables and always returns.\<close>

definition pure_query :: "('g \<Rightarrow> 'o) \<Rightarrow> 'g \<Rightarrow> nat \<Rightarrow> ('o \<times> nat) option" where
  "pure_query query graph next_id = Some (query graph, next_id)"

section \<open>The propagators\<close>

definition p_graph_query_card_network where
  "p_graph_query_card_network fuel G = binary_graph_query ''graph_query_card_network'' (graph_query_card_network fuel G)"

definition p_graph_query_primitive_direct where
  "p_graph_query_primitive_direct G =
     unary_graph_query ''graph_query_primitive_direct''
       (\<lambda>graph next_id. map_option (\<lambda>r. (r, next_id)) (graph_query_primitive_direct G graph))"

definition p_graph_query_call_graph where
  "p_graph_query_call_graph G = unary_graph_query ''graph_query_call_graph'' (pure_query (graph_query_call_graph G))"

definition p_graph_query_upstream_of where
  "p_graph_query_upstream_of fuel G = binary_graph_query ''graph_query_upstream_of'' (graph_query_upstream_of fuel G)"

definition p_graph_query_downstream_of where
  "p_graph_query_downstream_of fuel G = binary_graph_query ''graph_query_downstream_of'' (graph_query_downstream_of fuel G)"

definition p_graph_query_reachable where
  "p_graph_query_reachable fuel G = ternary_graph_query ''graph_query_reachable'' (graph_query_reachable fuel G)"

definition p_graph_query_inspect_values where
  "p_graph_query_inspect_values G =
     unary_graph_query ''graph_query_inspect_values'' (pure_query (graph_query_inspect_values G))"

definition p_graph_query_inspect_content where
  "p_graph_query_inspect_content G content_of =
     unary_graph_query ''graph_query_inspect_content'' (pure_query (graph_query_inspect_content G content_of))"

definition p_graph_rel_node_ids where
  "p_graph_rel_node_ids fuel G = unary_graph_query ''graph_rel_node_ids'' (graph_rel_node_ids fuel G)"

definition p_graph_rel_edges where
  "p_graph_rel_edges fuel G = unary_graph_query ''graph_rel_edges'' (graph_rel_edges fuel G)"

definition p_graph_rel_nodes_by_kind where
  "p_graph_rel_nodes_by_kind fuel G = binary_graph_query ''graph_rel_nodes_by_kind'' (query_nodes_by_kind fuel G)"

definition p_graph_rel_nodes_by_namespace where
  "p_graph_rel_nodes_by_namespace fuel G =
     binary_graph_query ''graph_rel_nodes_by_namespace'' (query_nodes_by_namespace fuel G)"

definition graph_rel_nodes_by_level ::
    "nat \<Rightarrow> ('g, 'z) graphology_scheme \<Rightarrow> 'g \<Rightarrow> jsval \<Rightarrow> nat \<Rightarrow> (jstring list \<times> nat) option" where
  "graph_rel_nodes_by_level fuel G graph target_level next_id =
     (case target_level of
        JNum n \<Rightarrow> query_nodes_by_level fuel G graph n next_id
      | _ \<Rightarrow> Some ([], next_id))"

definition p_graph_rel_nodes_by_level where
  "p_graph_rel_nodes_by_level fuel G = binary_graph_query ''graph_rel_nodes_by_level'' (graph_rel_nodes_by_level fuel G)"

definition p_graph_rel_run_query where
  "p_graph_rel_run_query fuel G = binary_graph_query ''graph_rel_run_query'' (graph_rel_run_query fuel G)"

definition p_graph_rel_exists_query where
  "p_graph_rel_exists_query fuel G = binary_graph_query ''graph_rel_exists_query'' (graph_rel_exists_query fuel G)"

section \<open>Lemmas\<close>

lemma binary_activation:
  "gp_activate (binary_graph_query name query) (Some graph, Some arg) n = run_and_write (query graph arg) n"
  "gp_activate (binary_graph_query name query) (None, arg_cell) n = Some (None, n)"
  "gp_activate (binary_graph_query name query) (graph_cell, None) n = Some (None, n)"
  by (simp_all add: binary_graph_query_def split: option.split)

lemma ternary_activation:
  "gp_activate (ternary_graph_query name query) (Some graph, Some a, Some b) n = run_and_write (query graph a b) n"
  by (simp add: ternary_graph_query_def)

end
