(* ===== verification/Network_Trace.thy ===== *)
theory Network_Trace
  imports Graphology Naming
begin

text \<open>
  The bounded upstream search of \<open>compiler/tracer/tracer.ts\<close>. Cells and propagators belong to the
  propagator library: a network is a record of what the library answers about them. The search
  visits cells from a root through the propagators that write them, names both in a graph and
  stops at a bound on the visited nodes, so it ends on every network. The lemmas relate an
  untruncated result to the upstream closure of the root.
\<close>

section \<open>Networks\<close>

record ('c, 'p) network =
  cell_id :: "'c \<Rightarrow> jstring"
  cell_name :: "'c \<Rightarrow> jstring"
  cell_dependents :: "'c \<Rightarrow> 'p list"
  propagator_id :: "'p \<Rightarrow> jstring"
  propagator_name :: "'p \<Rightarrow> jstring"
  propagator_inputs :: "'p \<Rightarrow> 'c list"

definition TRACER_MAX_NODES :: nat where
  "TRACER_MAX_NODES = 2000"

definition tracer_name :: "jstring \<Rightarrow> jstring" where
  "tracer_name name = make_name [name, ''tracer'']"

definition is_tracer_propagator :: "('c, 'p) network \<Rightarrow> 'p \<Rightarrow> bool" where
  "is_tracer_propagator N p = str_includes (propagator_name N p) ''tracer''"

section \<open>The search\<close>

text \<open>The locals of the search, and the cells \<open>on_visit\<close> was called with, in order.\<close>

record ('c, 'g) bfs =
  bfs_graph :: 'g
  seen_cells :: "jstring list"
  seen_props :: "jstring list"
  bfs_queue :: "'c list"
  bfs_nodes :: nat
  truncated :: bool
  visits :: "'c list"

definition cell_attrs :: "('c, 'p) network \<Rightarrow> 'c \<Rightarrow> attributes" where
  "cell_attrs N cell = [(''label'', JStr (create_cell_label (cell_name N cell)))]"

definition prop_attrs :: "('c, 'p) network \<Rightarrow> 'p \<Rightarrow> attributes" where
  "prop_attrs N prop = [(''label'', JStr (create_propagator_label (propagator_name N prop)))]"

definition add_input ::
    "('g, 'z) graphology_scheme \<Rightarrow> ('c, 'p) network \<Rightarrow> jstring \<Rightarrow> 'c \<Rightarrow> ('c, 'g) bfs \<Rightarrow> ('c, 'g) bfs" where
  "add_input G N pid input st =
     (let iid = cell_id N input
      in st\<lparr>bfs_graph := merge_edge G iid pid [] (merge_node G iid (cell_attrs N input) (bfs_graph st)),
            bfs_queue := bfs_queue st @ (if iid \<in> set (seen_cells st) then [] else [input])\<rparr>)"

fun visit_props ::
    "('g, 'z) graphology_scheme \<Rightarrow> ('c, 'p) network \<Rightarrow> nat \<Rightarrow> jstring \<Rightarrow> 'p list \<Rightarrow> ('c, 'g) bfs \<Rightarrow> ('c, 'g) bfs" where
  "visit_props G N max_nodes cid [] st = st"
| "visit_props G N max_nodes cid (prop # props) st =
     (let pid = propagator_id N prop
      in if is_tracer_propagator N prop then visit_props G N max_nodes cid props st
         else if pid \<in> set (seen_props st) then
           visit_props G N max_nodes cid props
             (fold (add_input G N pid) (propagator_inputs N prop)
               (st\<lparr>bfs_graph := merge_edge G pid cid [] (bfs_graph st)\<rparr>))
         else if bfs_nodes st \<ge> max_nodes then st\<lparr>truncated := True\<rparr>
         else
           visit_props G N max_nodes cid props
             (fold (add_input G N pid) (propagator_inputs N prop)
               (st\<lparr>seen_props := seen_props st @ [pid], bfs_nodes := bfs_nodes st + 1,
                   bfs_graph := merge_edge G pid cid [] (merge_node G pid (prop_attrs N prop) (bfs_graph st))\<rparr>)))"

definition visit_cell ::
    "('g, 'z) graphology_scheme \<Rightarrow> ('c, 'p) network \<Rightarrow> nat \<Rightarrow> 'c \<Rightarrow> ('c, 'g) bfs \<Rightarrow> ('c, 'g) bfs" where
  "visit_cell G N max_nodes cell st =
     (let cid = cell_id N cell
      in visit_props G N max_nodes cid (cell_dependents N cell)
           (st\<lparr>seen_cells := seen_cells st @ [cid], bfs_nodes := bfs_nodes st + 1, visits := visits st @ [cell],
               bfs_graph := merge_node G cid (cell_attrs N cell) (bfs_graph st)\<rparr>))"

lemma add_inputs_counts [simp]:
  "bfs_nodes (fold (add_input G N pid) cs st) = bfs_nodes st"
  "seen_cells (fold (add_input G N pid) cs st) = seen_cells st"
  "seen_props (fold (add_input G N pid) cs st) = seen_props st"
  "truncated (fold (add_input G N pid) cs st) = truncated st"
  "visits (fold (add_input G N pid) cs st) = visits st"
  by (induction cs arbitrary: st) (simp_all add: add_input_def Let_def)

lemma visit_props_nodes: "bfs_nodes st \<le> bfs_nodes (visit_props G N max_nodes cid props st)"
proof (induction props arbitrary: st)
  case (Cons q ps)
  show ?case
    using Cons [of "fold (add_input G N (propagator_id N q)) (propagator_inputs N q)
        (st\<lparr>seen_props := seen_props st @ [propagator_id N q], bfs_nodes := bfs_nodes st + 1,
          bfs_graph := merge_edge G (propagator_id N q) cid [] (merge_node G (propagator_id N q) (prop_attrs N q) (bfs_graph st))\<rparr>)"]
      Cons [of "fold (add_input G N (propagator_id N q)) (propagator_inputs N q)
        (st\<lparr>bfs_graph := merge_edge G (propagator_id N q) cid [] (bfs_graph st)\<rparr>)"] Cons [of st]
    by (simp add: Let_def)
qed simp

lemma visit_cell_nodes: "bfs_nodes st < bfs_nodes (visit_cell G N max_nodes cell st)"
  unfolding visit_cell_def Let_def by (rule less_le_trans [OF _ visit_props_nodes]) simp

function bfs_loop ::
    "('g, 'z) graphology_scheme \<Rightarrow> ('c, 'p) network \<Rightarrow> nat \<Rightarrow> ('c, 'g) bfs \<Rightarrow> ('c, 'g) bfs" where
  "bfs_loop G N max_nodes st =
     (if truncated st then st
      else
        (case bfs_queue st of
           [] \<Rightarrow> st
         | cell # queue \<Rightarrow>
             let st' = st\<lparr>bfs_queue := queue\<rparr>
             in if cell_id N cell \<in> set (seen_cells st) then bfs_loop G N max_nodes st'
                else if bfs_nodes st \<ge> max_nodes then st'\<lparr>truncated := True\<rparr>
                else bfs_loop G N max_nodes (visit_cell G N max_nodes cell st')))"
  by pat_completeness auto
termination
proof (relation "measures [\<lambda>(_, _, max_nodes, st). max_nodes - bfs_nodes st, \<lambda>(_, _, _, st). length (bfs_queue st)]", goal_cases)
  case (3 G N max_nodes st cell queue st')
  then show ?case using visit_cell_nodes [of st' G N max_nodes cell] by (simp add: diff_less_mono2)
qed simp_all

declare bfs_loop.simps [simp del]

definition bfs_start :: "('g, 'z) graphology_scheme \<Rightarrow> 'c \<Rightarrow> ('c, 'g) bfs" where
  "bfs_start G root =
     \<lparr>bfs_graph = new_graph G, seen_cells = [], seen_props = [], bfs_queue = [root], bfs_nodes = 0,
      truncated = False, visits = []\<rparr>"

definition upstream_bfs ::
    "('g, 'z) graphology_scheme \<Rightarrow> ('c, 'p) network \<Rightarrow> 'c \<Rightarrow> nat \<Rightarrow> ('c, 'g) bfs" where
  "upstream_bfs G N root max_nodes = bfs_loop G N max_nodes (bfs_start G root)"

section \<open>Signatures and rebuilds\<close>

definition graph_signature :: "('g, 'z) graphology_scheme \<Rightarrow> 'g \<Rightarrow> jstring" where
  "graph_signature G g =
     (let nodes = sort (map (\<lambda>(x, _). x @ '':'' @ prim_to_string (coalesce (get_node_attribute G g x ''label'') (JStr []))) (for_each_node G g));
          edges = sort (map (\<lambda>(_, s, t). s @ ''->'' @ t) (for_each_edge G g))
      in join_with '';'' nodes @ ''||'' @ join_with '';'' edges)"

text \<open>What is written to the gatherer, if anything, and the signature to keep.\<close>

definition emit_if_changed ::
    "('g, 'z) graphology_scheme \<Rightarrow> 'g \<Rightarrow> jstring option \<Rightarrow> 'g option \<times> jstring option" where
  "emit_if_changed G graph last_sig =
     (let sig = graph_signature G graph
      in if Some sig \<noteq> last_sig then (Some graph, Some sig) else (None, last_sig))"

record ('c, 'g) rebuilt =
  rb_visits :: "'c list"
  rb_warned :: bool
  rb_write :: "'g option"
  rb_sig :: "jstring option"

definition rebuild_core ::
    "('g, 'z) graphology_scheme \<Rightarrow> ('c, 'p) network \<Rightarrow> 'c \<Rightarrow> nat \<Rightarrow> jstring option \<Rightarrow> ('c, 'g) rebuilt" where
  "rebuild_core G N root max_nodes last_sig =
     (let found = upstream_bfs G N root max_nodes;
          (write, next_sig) = emit_if_changed G (bfs_graph found) last_sig
      in \<lparr>rb_visits = visits found, rb_warned = truncated found, rb_write = write, rb_sig = next_sig\<rparr>)"

section \<open>The bound\<close>

text \<open>The counter counts the cells and the propagators seen, each once, and stays at the bound.\<close>

definition bfs_ok :: "('c, 'p) network \<Rightarrow> nat \<Rightarrow> ('c, 'g) bfs \<Rightarrow> bool" where
  "bfs_ok N max_nodes st \<longleftrightarrow> bfs_nodes st = length (seen_cells st) + length (seen_props st)
     \<and> distinct (seen_cells st) \<and> distinct (seen_props st) \<and> seen_cells st = map (cell_id N) (visits st)
     \<and> bfs_nodes st \<le> max_nodes \<and> (truncated st \<longrightarrow> bfs_nodes st = max_nodes)"

lemma bfs_ok_cong [simp]:
  "bfs_ok N m (st\<lparr>bfs_queue := q\<rparr>) = bfs_ok N m st" "bfs_ok N m (st\<lparr>bfs_graph := g\<rparr>) = bfs_ok N m st"
  "bfs_ok N m (fold (add_input G N pid) cs st) = bfs_ok N m st"
  by (simp_all add: bfs_ok_def)

lemma bfs_ok_step:
  assumes "bfs_ok N m st"
  shows "pid \<notin> set (seen_props st) \<Longrightarrow> bfs_nodes st < m \<Longrightarrow> \<not> truncated st \<Longrightarrow>
      bfs_ok N m (st\<lparr>seen_props := seen_props st @ [pid], bfs_nodes := bfs_nodes st + 1, bfs_graph := g\<rparr>)"
    and "m \<le> bfs_nodes st \<Longrightarrow> bfs_ok N m (st\<lparr>truncated := True\<rparr>)"
    and "cell_id N c \<notin> set (seen_cells st) \<Longrightarrow> bfs_nodes st < m \<Longrightarrow> \<not> truncated st \<Longrightarrow>
      bfs_ok N m (st\<lparr>seen_cells := seen_cells st @ [cell_id N c], bfs_nodes := bfs_nodes st + 1, visits := visits st @ [c], bfs_graph := g\<rparr>)"
  using assms unfolding bfs_ok_def by (auto dest: arg_cong [where f = set])

lemma visit_props_ok:
  "bfs_ok N max_nodes st \<Longrightarrow> \<not> truncated st \<Longrightarrow>
    bfs_ok N max_nodes (visit_props G N max_nodes cid ps st)
    \<and> seen_cells (visit_props G N max_nodes cid ps st) = seen_cells st
    \<and> visits (visit_props G N max_nodes cid ps st) = visits st"
proof (induction ps arbitrary: st)
  case (Cons q ps)
  let ?pid = "propagator_id N q"
  let ?add = "fold (add_input G N ?pid) (propagator_inputs N q)"
  let ?new = "?add (st\<lparr>seen_props := seen_props st @ [?pid], bfs_nodes := bfs_nodes st + 1,
      bfs_graph := merge_edge G ?pid cid [] (merge_node G ?pid (prop_attrs N q) (bfs_graph st))\<rparr>)"
  let ?old = "?add (st\<lparr>bfs_graph := merge_edge G ?pid cid [] (bfs_graph st)\<rparr>)"
  have "bfs_ok N max_nodes ?old" using Cons.prems by simp
  moreover have "bfs_ok N max_nodes ?new" if "?pid \<notin> set (seen_props st)" "\<not> max_nodes \<le> bfs_nodes st"
    unfolding bfs_ok_cong using bfs_ok_step(1) [OF Cons.prems(1) that(1)] that(2) Cons.prems(2) by simp
  moreover have "bfs_ok N max_nodes (st\<lparr>truncated := True\<rparr>)" if "max_nodes \<le> bfs_nodes st"
    using bfs_ok_step(2) [OF Cons.prems(1) that] .
  ultimately show ?case
    using Cons.IH [of st] Cons.IH [of ?new] Cons.IH [of ?old] Cons.prems by (simp add: Let_def)
qed simp

lemma visit_cell_ok:
  assumes "bfs_ok N max_nodes st" and "\<not> truncated st" and "cell_id N cell \<notin> set (seen_cells st)" and "bfs_nodes st < max_nodes"
  shows "bfs_ok N max_nodes (visit_cell G N max_nodes cell st)"
  unfolding visit_cell_def Let_def
  by (rule conjunct1 [OF visit_props_ok [OF bfs_ok_step(3) [OF assms(1,3,4,2)]]]) (use assms(2) in simp)

lemma visit_cell_visits:
  assumes "bfs_ok N max_nodes st" and "\<not> truncated st" and "cell_id N cell \<notin> set (seen_cells st)" and "bfs_nodes st < max_nodes"
  shows "visits (visit_cell G N max_nodes cell st) = visits st @ [cell]"
  unfolding visit_cell_def Let_def
  by (rule trans [OF conjunct2 [OF conjunct2 [OF visit_props_ok [OF bfs_ok_step(3) [OF assms(1,3,4,2)]]]]])
    (use assms(2) in simp_all)

lemma bfs_loop_ok: "bfs_ok N max_nodes st \<Longrightarrow> bfs_ok N max_nodes (bfs_loop G N max_nodes st)"
proof (induction G N max_nodes st rule: bfs_loop.induct)
  case (1 G N max_nodes st)
  show ?case
  proof (cases "truncated st \<or> bfs_queue st = []")
    case True
    then show ?thesis using 1(3) by (auto simp: bfs_loop.simps [of G N max_nodes st])
  next
    case False
    then obtain cell queue where q: "bfs_queue st = cell # queue" by (cases "bfs_queue st") auto
    have "bfs_ok N max_nodes (visit_cell G N max_nodes cell (st\<lparr>bfs_queue := queue\<rparr>))"
      if "cell_id N cell \<notin> set (seen_cells st)" "bfs_nodes st < max_nodes"
      using that False 1(3) by (intro visit_cell_ok) simp_all
    then show ?thesis
      using 1(1,2) [OF _ q refl] False q 1(3) bfs_ok_step(2) [of N max_nodes "st\<lparr>bfs_queue := queue\<rparr>"]
      by (simp add: bfs_loop.simps [of G N max_nodes st] Let_def)
  qed
qed

lemma upstream_bfs_ok: "bfs_ok N max_nodes (upstream_bfs G N root max_nodes)"
  unfolding upstream_bfs_def by (rule bfs_loop_ok) (simp add: bfs_ok_def bfs_start_def)

section \<open>The upstream closure\<close>

definition writers :: "('c, 'p) network \<Rightarrow> 'c \<Rightarrow> 'p set" where
  "writers N c = {p \<in> set (cell_dependents N c). \<not> is_tracer_propagator N p}"

definition upstream_rel :: "('c, 'p) network \<Rightarrow> ('c \<times> 'c) set" where
  "upstream_rel N = {(c, d). \<exists>p \<in> writers N c. d \<in> set (propagator_inputs N p)}"

text \<open>The graph of some cells and some pairs of a cell and a writer.\<close>

definition trace_nodes :: "('c, 'p) network \<Rightarrow> 'c set \<Rightarrow> ('c \<times> 'p) set \<Rightarrow> jstring set" where
  "trace_nodes N S R = cell_id N ` (S \<union> (\<Union>p \<in> snd ` R. set (propagator_inputs N p))) \<union> propagator_id N ` snd ` R"

definition trace_edges :: "('c, 'p) network \<Rightarrow> ('c \<times> 'p) set \<Rightarrow> (jstring \<times> jstring) set" where
  "trace_edges N R = (\<lambda>(c, p). (propagator_id N p, cell_id N c)) ` R
     \<union> (\<Union>p \<in> snd ` R. (\<lambda>i. (cell_id N i, propagator_id N p)) ` set (propagator_inputs N p))"

lemma trace_insert:
  "trace_nodes N S (insert (c, q) R) = insert (propagator_id N q) (trace_nodes N S R) \<union> cell_id N ` set (propagator_inputs N q)"
  "trace_edges N (insert (c, q) R) = insert (propagator_id N q, cell_id N c) (trace_edges N R)
     \<union> (\<lambda>i. (cell_id N i, propagator_id N q)) ` set (propagator_inputs N q)"
  by (auto simp: trace_nodes_def) (auto simp: trace_edges_def)

definition proper_ids :: "('c, 'p) network \<Rightarrow> bool" where
  "proper_ids N \<longleftrightarrow> inj (cell_id N) \<and> inj (propagator_id N) \<and> range (cell_id N) \<inter> range (propagator_id N) = {}"

text \<open>The search stays in the upstream closure, and a truncated one has left something out.\<close>

definition inside :: "('c, 'p) network \<Rightarrow> 'c set \<Rightarrow> ('c, 'g) bfs \<Rightarrow> bool" where
  "inside N U st \<longleftrightarrow> set (seen_cells st) \<subseteq> cell_id N ` U \<and> set (seen_props st) \<subseteq> propagator_id N ` (\<Union>c \<in> U. writers N c)
     \<and> set (bfs_queue st) \<subseteq> U
     \<and> (truncated st \<longrightarrow> set (seen_cells st) \<noteq> cell_id N ` U \<or> set (seen_props st) \<noteq> propagator_id N ` (\<Union>c \<in> U. writers N c))"

lemma inside_graph [simp]: "inside N U (st\<lparr>bfs_graph := g\<rparr>) = inside N U st"
  by (simp add: inside_def)

lemma inside_add: "inside N U st \<Longrightarrow> set cs \<subseteq> U \<Longrightarrow> inside N U (fold (add_input G N pid) cs st)"
proof (induction cs arbitrary: st)
  case (Cons c cs)
  then have "inside N U (add_input G N pid c st)" by (simp add: inside_def add_input_def Let_def)
  then show ?case using Cons by simp
qed simp

lemma visit_props_inside:
  assumes "upstream_rel N `` U \<subseteq> U" and "c \<in> U"
  shows "set ps \<subseteq> set (cell_dependents N c) \<Longrightarrow> \<not> truncated st \<Longrightarrow> inside N U st \<Longrightarrow> inside N U (visit_props G N m cid ps st)"
proof (induction ps arbitrary: st)
  case (Cons q ps)
  let ?pid = "propagator_id N q"
  let ?add = "fold (add_input G N ?pid) (propagator_inputs N q)"
  let ?old = "st\<lparr>bfs_graph := merge_edge G ?pid cid [] (bfs_graph st)\<rparr>"
  let ?new = "st\<lparr>seen_props := seen_props st @ [?pid], bfs_nodes := bfs_nodes st + 1,
      bfs_graph := merge_edge G ?pid cid [] (merge_node G ?pid (prop_attrs N q) (bfs_graph st))\<rparr>"
  show ?case
  proof (cases "is_tracer_propagator N q")
    case True
    then show ?thesis using Cons by simp
  next
    case False
    then have q: "q \<in> writers N c" using Cons.prems(1) by (simp add: writers_def)
    then have pid: "?pid \<in> propagator_id N ` (\<Union>c \<in> U. writers N c)" using assms(2) by blast
    have inputs: "set (propagator_inputs N q) \<subseteq> U" using q assms by (force simp: upstream_rel_def)
    have "inside N U ?old" using Cons.prems(3) by simp
    then have "inside N U (visit_props G N m cid ps (?add ?old))"
      using Cons inputs by (intro Cons.IH inside_add) simp_all
    moreover have "inside N U (visit_props G N m cid ps (?add ?new))"
    proof (intro Cons.IH inside_add inputs)
      show "inside N U ?new" using Cons.prems(2,3) pid by (simp add: inside_def)
    qed (use Cons.prems in simp_all)
    moreover have "inside N U (st\<lparr>truncated := True\<rparr>)" if "?pid \<notin> set (seen_props st)"
    proof -
      have "set (seen_props st) \<noteq> propagator_id N ` (\<Union>c \<in> U. writers N c)" using that pid by metis
      then show ?thesis using Cons.prems(3) by (simp add: inside_def)
    qed
    ultimately show ?thesis using False by (simp add: Let_def)
  qed
qed simp

lemma bfs_loop_inside:
  assumes "upstream_rel N `` U \<subseteq> U"
  shows "inside N U st \<Longrightarrow> inside N U (bfs_loop G N m st)"
proof (induction st rule: wf_induct_rule [OF wf_measures, of "[\<lambda>st. m - bfs_nodes st, \<lambda>st. length (bfs_queue st)]"])
  case (1 st)
  show ?case
  proof (cases "truncated st \<or> bfs_queue st = []")
    case True
    then show ?thesis using 1(2) by (auto simp: bfs_loop.simps [of G N m st])
  next
    case False
    then obtain c queue where q: "bfs_queue st = c # queue" by (cases "bfs_queue st") auto
    let ?st = "st\<lparr>bfs_queue := queue\<rparr>"
    have c: "c \<in> U" and st: "inside N U ?st" using 1(2) False by (simp_all add: inside_def q)
    have "inside N U (visit_cell G N m c ?st)"
      unfolding visit_cell_def Let_def using False c st
      by (intro visit_props_inside [OF assms c]) (simp_all add: inside_def)
    then have "inside N U (bfs_loop G N m (visit_cell G N m c ?st))" if "bfs_nodes st < m"
      using 1(1) [of "visit_cell G N m c ?st"] visit_cell_nodes [of ?st G N m c] that by (simp add: diff_less_mono2)
    moreover have "inside N U (bfs_loop G N m ?st)" using 1(1) [of ?st] st by (simp add: q)
    moreover have "inside N U (?st\<lparr>truncated := True\<rparr>)" if "cell_id N c \<notin> set (seen_cells st)"
      using st that c by (auto simp: inside_def)
    ultimately show ?thesis using False by (simp add: bfs_loop.simps [of G N m st] q Let_def)
  qed
qed

lemma upstream_bfs_inside: "inside N ((upstream_rel N)\<^sup>* `` {root}) (upstream_bfs G N root m)"
  unfolding upstream_bfs_def
  by (rule bfs_loop_inside) (auto simp: bfs_start_def inside_def intro: rtrancl_into_rtrancl)

text \<open>A truncated search has met as many nodes as the bound and misses one more.\<close>

lemma truncated_large:
  assumes "truncated (upstream_bfs G N root m)" and "finite U" and U: "U = (upstream_rel N)\<^sup>* `` {root}"
  shows "m < card (cell_id N ` U) + card (propagator_id N ` (\<Union>c \<in> U. writers N c))"
proof -
  let ?st = "upstream_bfs G N root m" and ?P = "propagator_id N ` (\<Union>c \<in> U. writers N c)"
  have ok: "bfs_nodes ?st = length (seen_cells ?st) + length (seen_props ?st)" "distinct (seen_cells ?st)"
    "distinct (seen_props ?st)" "bfs_nodes ?st = m"
    using upstream_bfs_ok [of N m G root] assms(1) unfolding bfs_ok_def by auto
  have sub: "set (seen_cells ?st) \<subseteq> cell_id N ` U" "set (seen_props ?st) \<subseteq> ?P"
    "set (seen_cells ?st) \<noteq> cell_id N ` U \<or> set (seen_props ?st) \<noteq> ?P"
    using upstream_bfs_inside [of N root G m] assms(1) unfolding U inside_def by auto
  have fin: "finite (cell_id N ` U)" "finite ?P" using assms(2) by (auto simp: writers_def)
  have "card (set (seen_cells ?st)) \<le> card (cell_id N ` U)" "card (set (seen_props ?st)) \<le> card ?P"
    using card_mono fin sub(1,2) by blast+
  moreover have "card (set (seen_cells ?st)) < card (cell_id N ` U) \<or> card (set (seen_props ?st)) < card ?P"
    using sub psubset_card_mono [OF fin(1)] psubset_card_mono [OF fin(2)] by blast
  moreover have "card (set (seen_cells ?st)) = length (seen_cells ?st)" "card (set (seen_props ?st)) = length (seen_props ?st)"
    using ok(2,3) by (simp_all add: distinct_card)
  ultimately show ?thesis using ok(1,4) by linarith
qed

context graphology_laws
begin

text \<open>The state of the search between two propagators.\<close>

definition traced :: "('c, 'p) network \<Rightarrow> 'c set \<Rightarrow> ('c \<times> 'p) set \<Rightarrow> ('c, 'g) bfs \<Rightarrow> bool" where
  "traced N S R st \<longleftrightarrow> set (seen_cells st) = cell_id N ` S \<and> set (seen_props st) = propagator_id N ` snd ` R
     \<and> nodes_of G (bfs_graph st) = trace_nodes N S R \<and> edges_of_graph G (bfs_graph st) = trace_edges N R
     \<and> (\<forall>p \<in> snd ` R. set (propagator_inputs N p) \<subseteq> S \<union> set (bfs_queue st))"

lemma merge_graph:
  "nodes_of G (merge_node G x a g) = insert x (nodes_of G g)"
  "edges_of_graph G (merge_node G x a g) = edges_of_graph G g"
  "x \<in> nodes_of G g \<Longrightarrow> y \<in> nodes_of G g \<Longrightarrow> nodes_of G (merge_edge G x y a g) = nodes_of G g"
  "x \<in> nodes_of G g \<Longrightarrow> y \<in> nodes_of G g \<Longrightarrow> edges_of_graph G (merge_edge G x y a g) = insert (x, y) (edges_of_graph G g)"
  by (simp_all add: merge_node merge_edge)

lemma add_inputs_graph:
  assumes "pid \<in> nodes_of G (bfs_graph st)"
  shows "nodes_of G (bfs_graph (fold (add_input G N pid) cs st)) = nodes_of G (bfs_graph st) \<union> cell_id N ` set cs
    \<and> edges_of_graph G (bfs_graph (fold (add_input G N pid) cs st)) = edges_of_graph G (bfs_graph st) \<union> (\<lambda>c. (cell_id N c, pid)) ` set cs
    \<and> bfs_queue (fold (add_input G N pid) cs st) = bfs_queue st @ filter (\<lambda>c. cell_id N c \<notin> set (seen_cells st)) cs"
  using assms
proof (induction cs arbitrary: st)
  case (Cons c cs)
  have "nodes_of G (bfs_graph (add_input G N pid c st)) = insert (cell_id N c) (nodes_of G (bfs_graph st))"
    "edges_of_graph G (bfs_graph (add_input G N pid c st)) = insert (cell_id N c, pid) (edges_of_graph G (bfs_graph st))"
    using Cons.prems by (simp_all add: add_input_def Let_def merge_graph)
  moreover have "pid \<in> nodes_of G (bfs_graph (add_input G N pid c st))" using Cons.prems calculation by simp
  moreover have "seen_cells (add_input G N pid c st) = seen_cells st"
    "bfs_queue (add_input G N pid c st) = bfs_queue st @ filter (\<lambda>c. cell_id N c \<notin> set (seen_cells st)) [c]"
    by (simp_all add: add_input_def Let_def)
  ultimately show ?case using Cons.IH [of "add_input G N pid c st"] by (simp add: Un_assoc)
qed simp

lemma traced_prop:
  assumes "proper_ids N" and "traced N S R st" and "c \<in> S"
    and "seen_cells st1 = seen_cells st" "bfs_queue st1 = bfs_queue st" "set (seen_props st1) = insert (propagator_id N q) (set (seen_props st))"
    and "nodes_of G (bfs_graph st1) = insert (propagator_id N q) (nodes_of G (bfs_graph st))"
    and "edges_of_graph G (bfs_graph st1) = insert (propagator_id N q, cell_id N c) (edges_of_graph G (bfs_graph st))"
  shows "traced N S (insert (c, q) R) (fold (add_input G N (propagator_id N q)) (propagator_inputs N q) st1)"
proof -
  let ?st = "fold (add_input G N (propagator_id N q)) (propagator_inputs N q) st1"
  have "propagator_id N q \<in> nodes_of G (bfs_graph st1)" using assms(7) by blast
  note res = add_inputs_graph [OF this, of N "propagator_inputs N q"]
  have nodes: "nodes_of G (bfs_graph ?st) = trace_nodes N S (insert (c, q) R)"
    using res assms(2,7) by (simp add: traced_def trace_insert)
  have edges: "edges_of_graph G (bfs_graph ?st) = trace_edges N (insert (c, q) R)"
    using res assms(2,8) by (simp add: traced_def trace_insert)
  have "i \<in> S \<union> set (bfs_queue ?st)" if "i \<in> set (propagator_inputs N q)" for i
  proof (cases "cell_id N i \<in> set (seen_cells st1)")
    case True
    then have "i \<in> S" using assms(1,2,4) by (auto simp: traced_def proper_ids_def dest: injD)
    then show ?thesis by simp
  next
    case False
    then show ?thesis using res that by simp
  qed
  then have "\<forall>p \<in> snd ` insert (c, q) R. set (propagator_inputs N p) \<subseteq> S \<union> set (bfs_queue ?st)"
    using res assms(2,5) by (auto simp: traced_def)
  then show ?thesis unfolding traced_def using nodes edges assms(2,4,6) by (simp add: traced_def)
qed

lemma visit_props_traced:
  assumes "proper_ids N" and "c \<in> S"
  shows "traced N S R st \<Longrightarrow> \<not> truncated (visit_props G N m (cell_id N c) ps st) \<Longrightarrow>
    traced N S (R \<union> {c} \<times> {p \<in> set ps. \<not> is_tracer_propagator N p}) (visit_props G N m (cell_id N c) ps st)
    \<and> set (bfs_queue st) \<subseteq> set (bfs_queue (visit_props G N m (cell_id N c) ps st))
    \<and> set (bfs_queue (visit_props G N m (cell_id N c) ps st)) \<subseteq> set (bfs_queue st)
        \<union> (\<Union>p \<in> {p \<in> set ps. \<not> is_tracer_propagator N p}. set (propagator_inputs N p))"
proof (induction ps arbitrary: R st)
  case (Cons q ps)
  let ?pid = "propagator_id N q" and ?cid = "cell_id N c"
  let ?add = "fold (add_input G N ?pid) (propagator_inputs N q)"
  let ?old = "st\<lparr>bfs_graph := merge_edge G ?pid ?cid [] (bfs_graph st)\<rparr>"
  let ?new = "st\<lparr>seen_props := seen_props st @ [?pid], bfs_nodes := bfs_nodes st + 1,
      bfs_graph := merge_edge G ?pid ?cid [] (merge_node G ?pid (prop_attrs N q) (bfs_graph st))\<rparr>"
  have finish: ?case
    if "visit_props G N m ?cid (q # ps) st = visit_props G N m ?cid ps st1" "traced N S (insert (c, q) R) st1"
      "\<not> is_tracer_propagator N q" "bfs_queue st1 = bfs_queue st @ filter P (propagator_inputs N q)" for st1 P
  proof -
    have R: "R \<union> {c} \<times> {p \<in> set (q # ps). \<not> is_tracer_propagator N p} =
        insert (c, q) R \<union> {c} \<times> {p \<in> set ps. \<not> is_tracer_propagator N p}" using that(3) by auto
    have I: "(\<Union>p \<in> {p \<in> set (q # ps). \<not> is_tracer_propagator N p}. set (propagator_inputs N p)) =
        set (propagator_inputs N q) \<union> (\<Union>p \<in> {p \<in> set ps. \<not> is_tracer_propagator N p}. set (propagator_inputs N p))"
      using that(3) by auto
    have Q: "set (bfs_queue st) \<subseteq> set (bfs_queue st1)" "set (bfs_queue st1) \<subseteq> set (bfs_queue st) \<union> set (propagator_inputs N q)"
      by (auto simp: that(4))
    have "\<not> truncated (visit_props G N m ?cid ps st1)" using Cons.prems(2) unfolding that(1) .
    note ih = Cons.IH [OF that(2) this]
    show ?thesis unfolding that(1) R I
      by (rule conjI [OF ih [THEN conjunct1]], rule conjI)
        (rule subset_trans [OF Q(1) ih [THEN conjunct2, THEN conjunct1]],
         use ih [THEN conjunct2, THEN conjunct2] Q(2) in \<open>simp only: Un_assoc [symmetric]; meson Un_mono order_refl subset_trans\<close>)
  qed
  have cid: "?cid \<in> nodes_of G (bfs_graph st)" using Cons.prems(1) assms(2) by (auto simp: traced_def trace_nodes_def)
  consider "is_tracer_propagator N q" | "\<not> is_tracer_propagator N q" "?pid \<in> set (seen_props st)"
    | "\<not> is_tracer_propagator N q" "?pid \<notin> set (seen_props st)" "\<not> m \<le> bfs_nodes st"
    using Cons.prems(2) by (fastforce simp: Let_def split: if_splits)
  then show ?case
  proof cases
    case 1
    then have "{p \<in> set (q # ps). \<not> is_tracer_propagator N p} = {p \<in> set ps. \<not> is_tracer_propagator N p}" by auto
    then show ?thesis using Cons.IH [OF Cons.prems(1)] Cons.prems(2) 1 by (simp add: Let_def)
  next
    case 2
    have pid: "?pid \<in> nodes_of G (bfs_graph st)" using 2(2) Cons.prems(1) by (auto simp: traced_def trace_nodes_def)
    have "traced N S (insert (c, q) R) (?add ?old)"
      by (rule traced_prop [OF assms(1) Cons.prems(1) assms(2)]) (use 2(2) pid cid merge_graph in \<open>auto simp: insert_absorb\<close>)
    moreover have "?pid \<in> nodes_of G (bfs_graph ?old)" using pid cid merge_graph(3) [of ?pid "bfs_graph st" ?cid "[]"] by simp
    note add_inputs_graph [OF this, of N "propagator_inputs N q"]
    ultimately show ?thesis using 2 by (intro finish [of "?add ?old"]) (simp_all add: Let_def)
  next
    case 3
    let ?g = "merge_node G ?pid (prop_attrs N q) (bfs_graph st)"
    have ends: "?pid \<in> nodes_of G ?g" "?cid \<in> nodes_of G ?g" using cid unfolding merge_graph(1) by simp_all
    have "traced N S (insert (c, q) R) (?add ?new)"
      by (rule traced_prop [OF assms(1) Cons.prems(1) assms(2)])
        (use ends merge_graph(1,2) [of ?pid "prop_attrs N q" "bfs_graph st"] merge_graph(3,4) [OF ends, of "[]"] in simp_all)
    moreover have "?pid \<in> nodes_of G (bfs_graph ?new)" using ends merge_graph(3) [OF ends, of "[]"] by simp
    note add_inputs_graph [OF this, of N "propagator_inputs N q"]
    ultimately show ?thesis using 3 by (intro finish [of "?add ?new"]) (simp_all add: Let_def)
  qed
qed auto

lemma visit_cell_traced:
  assumes "proper_ids N" and "traced N S (Sigma S (writers N)) st" and "bfs_queue st = c # queue" and "\<not> truncated st"
    and "\<not> truncated (visit_cell G N m c (st\<lparr>bfs_queue := queue\<rparr>))"
  shows "traced N (insert c S) (Sigma (insert c S) (writers N)) (visit_cell G N m c (st\<lparr>bfs_queue := queue\<rparr>))
    \<and> set queue \<subseteq> set (bfs_queue (visit_cell G N m c (st\<lparr>bfs_queue := queue\<rparr>)))
    \<and> set (bfs_queue (visit_cell G N m c (st\<lparr>bfs_queue := queue\<rparr>))) \<subseteq> set queue \<union> upstream_rel N `` {c}"
proof -
  let ?st = "st\<lparr>bfs_queue := queue, seen_cells := seen_cells st @ [cell_id N c], bfs_nodes := bfs_nodes st + 1, visits := visits st @ [c],
      bfs_graph := merge_node G (cell_id N c) (cell_attrs N c) (bfs_graph st)\<rparr>"
  have "trace_nodes N (insert c S) (Sigma S (writers N)) = insert (cell_id N c) (trace_nodes N S (Sigma S (writers N)))"
    by (simp add: trace_nodes_def)
  then have "traced N (insert c S) (Sigma S (writers N)) ?st"
    using assms(2) merge_graph(1,2) [of "cell_id N c" "cell_attrs N c" "bfs_graph st"] by (simp add: traced_def assms(3))
  note traced = visit_props_traced [OF assms(1) _ this, of c m "cell_dependents N c"]
  have up: "upstream_rel N `` {c} = (\<Union>p \<in> writers N c. set (propagator_inputs N p))" by (auto simp: upstream_rel_def)
  have pairs: "Sigma S (writers N) \<union> {c} \<times> writers N c = Sigma (insert c S) (writers N)" by auto
  show ?thesis using traced assms(5) unfolding up pairs [symmetric]
    by (simp add: visit_cell_def Let_def writers_def [symmetric])
qed

lemma bfs_loop_traced:
  assumes "proper_ids N"
  shows "traced N (set (visits st)) (Sigma (set (visits st)) (writers N)) st \<Longrightarrow>
    set (visits st) \<union> set (bfs_queue st) \<subseteq> (upstream_rel N)\<^sup>* `` {root} \<Longrightarrow> root \<in> set (visits st) \<union> set (bfs_queue st) \<Longrightarrow>
    bfs_ok N m st \<Longrightarrow> \<not> truncated (bfs_loop G N m st) \<Longrightarrow>
    set (visits (bfs_loop G N m st)) = (upstream_rel N)\<^sup>* `` {root}
    \<and> traced N ((upstream_rel N)\<^sup>* `` {root}) (Sigma ((upstream_rel N)\<^sup>* `` {root}) (writers N)) (bfs_loop G N m st)"
proof (induction st rule: wf_induct_rule [OF wf_measures, of "[\<lambda>st. m - bfs_nodes st, \<lambda>st. length (bfs_queue st)]"])
  case (1 st)
  let ?S = "set (visits st)" and ?U = "(upstream_rel N)\<^sup>* `` {root}"
  have running: "\<not> truncated st" using 1(6) by (auto simp: bfs_loop.simps [of G N m st])
  show ?case
  proof (cases "bfs_queue st")
    case Nil
    have "upstream_rel N `` ?S \<subseteq> ?S"
      using 1(2) by (fastforce simp: traced_def upstream_rel_def Nil image_iff)
    then have "?U \<subseteq> ?S" using 1(4) Nil Image_closed_trancl by (metis Image_mono Un_empty_right empty_subsetI insert_subset list.set(1) subset_refl)
    then have "?S = ?U" using 1(3) by blast
    then show ?thesis using 1(2) Nil running by (simp add: bfs_loop.simps [of G N m st])
  next
    case (Cons c queue)
    let ?st = "st\<lparr>bfs_queue := queue\<rparr>"
    have c: "c \<in> ?U" using 1(3) by (simp add: Cons)
    show ?thesis
    proof (cases "cell_id N c \<in> set (seen_cells st)")
      case True
      then have "c \<in> ?S" using assms 1(2) by (auto simp: traced_def proper_ids_def dest: injD)
      then have "?S \<union> set (c # queue) = ?S \<union> set queue" by auto
      then have "traced N ?S (Sigma ?S (writers N)) ?st" "root \<in> ?S \<union> set queue"
        using 1(2,4) by (simp_all add: traced_def Cons)
      moreover have "bfs_loop G N m st = bfs_loop G N m ?st"
        using running True by (simp add: bfs_loop.simps [of G N m st] Cons)
      ultimately show ?thesis using 1(1) [of ?st] 1(3,5,6) by (simp add: Cons)
    next
      case False
      let ?st' = "visit_cell G N m c ?st"
      have room: "bfs_nodes st < m" using 1(6) running False by (auto simp: bfs_loop.simps [of G N m st] Cons Let_def split: if_splits)
      have loop: "bfs_loop G N m st = bfs_loop G N m ?st'"
        using running False room by (simp add: bfs_loop.simps [of G N m st] Cons)
      have go: "\<not> truncated ?st'" using 1(6) unfolding loop by (auto simp: bfs_loop.simps [of G N m ?st'])
      note step = visit_cell_traced [OF assms 1(2) Cons running go]
      have ok: "bfs_ok N m ?st'" using 1(5) running False room by (intro visit_cell_ok) simp_all
      have "visits ?st' = visits st @ [c]"
        using visit_cell_visits [of N m ?st c G] 1(5) running False room by simp
      then have S: "set (visits ?st') = insert c ?S" by simp
      have "upstream_rel N `` {c} \<subseteq> ?U" using c by (auto intro: rtrancl_into_rtrancl)
      then have inU: "set (visits ?st') \<union> set (bfs_queue ?st') \<subseteq> ?U" using step 1(3) c unfolding S Cons by auto
      have "root \<in> set (visits ?st') \<union> set (bfs_queue ?st')" using step 1(4) unfolding S Cons by auto
      then show ?thesis
        unfolding loop using 1(1) [of ?st'] step inU ok 1(6) visit_cell_nodes [of ?st G N m c] room
        by (simp add: S loop diff_less_mono2)
    qed
  qed
qed

lemma upstream_bfs_closure:
  assumes "proper_ids N" and "\<not> truncated (upstream_bfs G N root m)"
  shows "set (visits (upstream_bfs G N root m)) = (upstream_rel N)\<^sup>* `` {root}
    \<and> traced N ((upstream_rel N)\<^sup>* `` {root}) (Sigma ((upstream_rel N)\<^sup>* `` {root}) (writers N)) (upstream_bfs G N root m)"
  unfolding upstream_bfs_def
  by (rule bfs_loop_traced [OF assms(1)])
    (use assms(2) in \<open>simp_all add: bfs_start_def traced_def trace_nodes_def trace_edges_def bfs_ok_def upstream_bfs_def\<close>)

end

section \<open>Properties\<close>

text \<open>
  The search ends on every network, finite or not, and visits at most \<open>max_nodes\<close> cells and
  propagators, each once; a search that stops early has visited exactly \<open>max_nodes\<close>.
\<close>

lemma upstream_bfs_bounded:
  shows "length (visits (upstream_bfs G N root m)) + length (seen_props (upstream_bfs G N root m)) \<le> m
    \<and> distinct (map (cell_id N) (visits (upstream_bfs G N root m))) \<and> distinct (seen_props (upstream_bfs G N root m))
    \<and> (truncated (upstream_bfs G N root m) \<longrightarrow>
        length (visits (upstream_bfs G N root m)) + length (seen_props (upstream_bfs G N root m)) = m)"
  using upstream_bfs_ok [of N m G root] unfolding bfs_ok_def by (metis length_map)

text \<open>A cell 0 written by one propagator from three cells, one of them written from cell 0.\<close>

definition sample_network :: "(nat, nat) network" where
  "sample_network =
     \<lparr>cell_id = (\<lambda>c. replicate c CHR ''c''), cell_name = (\<lambda>c. ''x''),
      cell_dependents = (\<lambda>c. if c = 0 then [0] else if c = 1 then [1] else []),
      propagator_id = (\<lambda>p. CHR ''p'' # replicate p CHR ''q''), propagator_name = (\<lambda>p. ''add''),
      propagator_inputs = (\<lambda>p. if p = 0 then [1, 2, 3] else if p = 1 then [0] else [])\<rparr>"

lemma sample_ids [simp]: "proper_ids sample_network"
proof -
  have "replicate c CHR ''c'' \<noteq> CHR ''p'' # replicate p CHR ''q''" for c p by (cases c) auto
  then show ?thesis by (auto simp: proper_ids_def sample_network_def inj_def)
qed

lemma upstream_bfs_complete:
  assumes "graphology_laws G" and "proper_ids N" and "U = (upstream_rel N)\<^sup>* `` {root}" and "finite U"
    and "card U + card (\<Union>c \<in> U. writers N c) \<le> m"
  shows "\<not> truncated (upstream_bfs G N root m) \<and> set (visits (upstream_bfs G N root m)) = U
    \<and> nodes_of G (bfs_graph (upstream_bfs G N root m)) = cell_id N ` U \<union> propagator_id N ` (\<Union>c \<in> U. writers N c)
    \<and> edges_of_graph G (bfs_graph (upstream_bfs G N root m)) =
        {(propagator_id N p, cell_id N c) |c p. c \<in> U \<and> p \<in> writers N c}
        \<union> {(cell_id N i, propagator_id N p) |c p i. c \<in> U \<and> p \<in> writers N c \<and> i \<in> set (propagator_inputs N p)}"
proof -
  let ?W = "\<Union>c \<in> U. writers N c" and ?st = "upstream_bfs G N root m"
  have "card (cell_id N ` U) = card U" "card (propagator_id N ` ?W) = card ?W"
    using assms(2) by (auto simp: proper_ids_def intro!: card_image intro: inj_on_subset)
  then have run: "\<not> truncated ?st" using truncated_large [of G N root m U] assms(3-5) by auto
  note res = graphology_laws.upstream_bfs_closure [OF assms(1,2) run, folded assms(3)]
  have snd: "snd ` Sigma U (writers N) = ?W" by force
  have closed: "set (propagator_inputs N p) \<subseteq> U" if "p \<in> ?W" for p
    using that by (auto simp: assms(3) upstream_rel_def intro: rtrancl_into_rtrancl)
  have nodes: "trace_nodes N U (Sigma U (writers N)) = cell_id N ` U \<union> propagator_id N ` ?W"
    unfolding trace_nodes_def snd using closed by blast
  have edges: "trace_edges N (Sigma U (writers N)) = {(propagator_id N p, cell_id N c) |c p. c \<in> U \<and> p \<in> writers N c}
      \<union> {(cell_id N i, propagator_id N p) |c p i. c \<in> U \<and> p \<in> writers N c \<and> i \<in> set (propagator_inputs N p)}"
    unfolding trace_edges_def snd by auto
  have "nodes_of G (bfs_graph ?st) = trace_nodes N U (Sigma U (writers N))" "edges_of_graph G (bfs_graph ?st) = trace_edges N (Sigma U (writers N))"
    using res unfolding graphology_laws.traced_def [OF assms(1)] by blast+
  then show ?thesis unfolding nodes edges by (intro conjI run res [THEN conjunct1])
qed

text \<open>
  C37: The search is truncated exactly when the cells and propagators upstream of the root, tracers
  not counted, are more than \<open>max_nodes\<close>. Otherwise it visits exactly the cells upstream of the
  root and its graph has exactly them and the propagators that write them as nodes, with an edge
  from each propagator to the cell it writes and from each input to its propagator.
\<close>

theorem upstream_bfs_exact:
  assumes "graphology_laws G" and "proper_ids N" and "U = (upstream_rel N)\<^sup>* `` {root}" and "finite U"
    and "card U + card (\<Union>c \<in> U. writers N c) \<le> m"
  shows "\<not> truncated (upstream_bfs G N root m) \<and> set (visits (upstream_bfs G N root m)) = U
    \<and> nodes_of G (bfs_graph (upstream_bfs G N root m)) = cell_id N ` U \<union> propagator_id N ` (\<Union>c \<in> U. writers N c)
    \<and> edges_of_graph G (bfs_graph (upstream_bfs G N root m)) =
        {(propagator_id N p, cell_id N c) |c p. c \<in> U \<and> p \<in> writers N c}
        \<union> {(cell_id N i, propagator_id N p) |c p i. c \<in> U \<and> p \<in> writers N c \<and> i \<in> set (propagator_inputs N p)}"
  by (rule upstream_bfs_complete [OF assms])

lemma sample_upstream: "(upstream_rel sample_network)\<^sup>* `` {0} = {0, 1, 2, 3}"
proof -
  have rel: "upstream_rel sample_network = {(0, 1), (0, 2), (0, 3), (1, 0)}"
  proof -
    have tracer: "\<not> is_tracer_propagator sample_network p" for p
      by (simp add: is_tracer_propagator_def sample_network_def) code_simp
    show ?thesis unfolding upstream_rel_def writers_def using tracer
      by (auto simp: sample_network_def split: if_splits)
  qed
  have "(upstream_rel sample_network) `` {0, 1, 2, 3} \<subseteq> {0, 1, 2, 3}" by (auto simp: rel)
  then have "(upstream_rel sample_network)\<^sup>* `` {0} \<subseteq> {0, 1, 2, 3}"
    by (metis Image_closed_trancl Image_mono empty_subsetI insert_mono subset_refl)
  moreover have "{1, 2, 3} \<subseteq> (upstream_rel sample_network)\<^sup>* `` {0}" by (auto simp: rel)
  ultimately show ?thesis by auto
qed

lemma sample_size: "card {0, 1, 2, 3 :: nat} + card (\<Union>c \<in> {0, 1, 2, 3}. writers sample_network c) \<le> 6"
proof -
  have "writers sample_network c \<subseteq> {0, 1}" for c by (auto simp: writers_def sample_network_def split: if_splits)
  then have "(\<Union>c \<in> {0, 1, 2, 3}. writers sample_network c) \<subseteq> {0, 1}" by blast
  then have "card (\<Union>c \<in> {0, 1, 2, 3}. writers sample_network c) \<le> card {0, 1 :: nat}" by (intro card_mono) simp
  then show ?thesis by simp
qed

lemma sample_visits: "6 \<le> m \<Longrightarrow> set (visits (upstream_bfs list_graphology sample_network 0 m)) = {0, 1, 2, 3}"
  using upstream_bfs_complete [OF list_graph.graphology_laws_axioms sample_ids sample_upstream [symmetric] _ order_trans [OF sample_size]]
  by simp

theorem upstream_bfs_exact_witness:
  "set (visits (upstream_bfs list_graphology sample_network 0 6)) = {0, 1, 2, 3}
   \<and> \<not> truncated (upstream_bfs list_graphology sample_network 0 6)"
  using upstream_bfs_exact [OF list_graph.graphology_laws_axioms sample_ids sample_upstream [symmetric] _ sample_size] by simp

text \<open>
  \<open>max_nodes\<close> bounds the visits, not the graph: inputs are added to the graph before they are
  visited, so a search bounded by two nodes can give a graph of five.
\<close>

lemma bound_not_on_graph:
  "(let st = upstream_bfs list_graphology sample_network 0 2
    in bfs_nodes st = 2 \<and> map fst (for_each_node list_graphology (bfs_graph st)) = [[], ''p'', ''c'', ''cc'', ''ccc''])"
  by code_simp

end
