(* ===== verification/Reactive_Tracer.thy ===== *)
theory Reactive_Tracer
  imports Network_Trace
begin

text \<open>
  The two tracers of \<open>compiler/tracer/tracer.ts\<close> as state machines. The reactive tracer puts a tap
  on every cell it visits; a tap that fires schedules at most one microtask, which searches the
  network again. The periodic tracer searches at every tick of an interval. Both stop when the
  root no longer has the tracer as a neighbour. Every write hands the gatherer the one graph object
  of the tracer, which the next search clears; \<open>rt_writes\<close> records its content at the time of writing. The world (the network, the attachment of the
  tracer, the queue of microtasks, what was written to the gatherer) is part of the state.
\<close>

section \<open>The reactive tracer\<close>

record tracer_options =
  opt_max_nodes :: "nat option"
  opt_max_rebuilds :: "nat option"

definition max_nodes_of :: "tracer_options \<Rightarrow> nat" where
  "max_nodes_of options = (case opt_max_nodes options of None \<Rightarrow> TRACER_MAX_NODES | Some n \<Rightarrow> n)"

text \<open>
  The locals of the closure; \<open>rt_self\<close> says that \<open>self\<close> has been assigned. The taps are known by
  the ids of their cells. Then the world.
\<close>

record 'g reactive =
  rt_tapped :: "jstring list"
  rt_taps :: "jstring list"
  rt_initialized :: bool
  rt_pending :: bool
  rt_rebuild_count :: nat
  rt_last_sig :: "jstring option"
  rt_self :: bool
  rt_attached :: bool
  rt_microtasks :: nat
  rt_writes :: "'g list"
  rt_disposed :: "jstring list"

definition dispose_taps :: "'g reactive \<Rightarrow> 'g reactive" where
  "dispose_taps st = st\<lparr>rt_disposed := rt_disposed st @ rt_taps st, rt_taps := [], rt_tapped := []\<rparr>"

definition guard_active :: "'g reactive \<Rightarrow> bool \<times> 'g reactive" where
  "guard_active st = (if \<not> rt_self st \<or> \<not> rt_attached st then (False, dispose_taps st) else (True, st))"

definition rebuilds_done :: "tracer_options \<Rightarrow> 'g reactive \<Rightarrow> bool" where
  "rebuilds_done options st = (case opt_max_rebuilds options of None \<Rightarrow> False | Some m \<Rightarrow> rt_rebuild_count st \<ge> m)"

definition schedule :: "tracer_options \<Rightarrow> 'g reactive \<Rightarrow> 'g reactive" where
  "schedule options st =
     (let (active, st) = guard_active st
      in if \<not> active then st
         else if rt_pending st \<or> rebuilds_done options st then st
         else st\<lparr>rt_pending := True, rt_microtasks := rt_microtasks st + 1\<rparr>)"

definition on_fire :: "tracer_options \<Rightarrow> 'g reactive \<Rightarrow> 'g reactive" where
  "on_fire options st =
     (let (active, st) = guard_active st
      in if \<not> active then st
         else if rebuilds_done options st then st
         else schedule options st)"

definition attach_tap_if_needed :: "jstring \<Rightarrow> jstring \<Rightarrow> 'g reactive \<Rightarrow> 'g reactive" where
  "attach_tap_if_needed gatherer_id cid st =
     (if cid = gatherer_id \<or> cid \<in> set (rt_tapped st) then st
      else st\<lparr>rt_tapped := rt_tapped st @ [cid], rt_taps := rt_taps st @ [cid]\<rparr>)"

text \<open>The function given to \<open>queueMicrotask\<close>, run on the network as it is then.\<close>

definition run_microtask ::
    "('g, 'z) graphology_scheme \<Rightarrow> tracer_options \<Rightarrow> 'c \<Rightarrow> jstring \<Rightarrow> ('c, 'p) network \<Rightarrow> 'g reactive \<Rightarrow> 'g reactive" where
  "run_microtask G options root gatherer_id N st =
     (let (active, st) = guard_active (st\<lparr>rt_microtasks := rt_microtasks st - 1, rt_pending := False\<rparr>)
      in if \<not> active then st
         else
           (let rebuilt = rebuild_core G N root (max_nodes_of options) (rt_last_sig st);
                st = fold (\<lambda>cell. attach_tap_if_needed gatherer_id (cell_id N cell)) (rb_visits rebuilt) st
            in st\<lparr>rt_last_sig := rb_sig rebuilt,
                  rt_writes := rt_writes st @ (case rb_write rebuilt of None \<Rightarrow> [] | Some g \<Rightarrow> [g]),
                  rt_rebuild_count := rt_rebuild_count st + 1\<rparr>))"

text \<open>The body of the propagator, and the state when its construction starts.\<close>

definition activate_reactive :: "tracer_options \<Rightarrow> 'g reactive \<Rightarrow> 'g reactive" where
  "activate_reactive options st =
     (if rt_initialized st then st else schedule options (st\<lparr>rt_initialized := True\<rparr>))"

definition reactive_start :: "'g reactive" where
  "reactive_start =
     \<lparr>rt_tapped = [], rt_taps = [], rt_initialized = False, rt_pending = False, rt_rebuild_count = 0,
      rt_last_sig = None, rt_self = False, rt_attached = True, rt_microtasks = 0, rt_writes = [], rt_disposed = []\<rparr>"

text \<open>What happens to a tracer, in any order; the network is arbitrary at each microtask.\<close>

inductive tracer_step ::
    "('g, 'z) graphology_scheme \<Rightarrow> tracer_options \<Rightarrow> 'c \<Rightarrow> jstring \<Rightarrow> ('c, 'p) network set \<Rightarrow> 'g reactive \<Rightarrow> 'g reactive \<Rightarrow> bool"
  for G options root gatherer_id networks where
  constructed: "tracer_step G options root gatherer_id networks st (st\<lparr>rt_self := True\<rparr>)"
| activated: "tracer_step G options root gatherer_id networks st (activate_reactive options st)"
| fired: "tap \<in> set (rt_taps st) \<Longrightarrow> tracer_step G options root gatherer_id networks st (on_fire options st)"
| microtask: "rt_microtasks st > 0 \<Longrightarrow> N \<in> networks \<Longrightarrow>
    tracer_step G options root gatherer_id networks st (run_microtask G options root gatherer_id N st)"
| detached: "tracer_step G options root gatherer_id networks st (st\<lparr>rt_attached := False\<rparr>)"

inductive_cases tracer_stepE: "tracer_step G options root gatherer_id networks st st'"

abbreviation tracer_reach where
  "tracer_reach G options root gatherer_id networks \<equiv> (tracer_step G options root gatherer_id networks)\<^sup>*\<^sup>* reactive_start"

section \<open>The invariant\<close>

definition within_rebuilds :: "tracer_options \<Rightarrow> nat \<Rightarrow> bool" where
  "within_rebuilds options n \<longleftrightarrow> (case opt_max_rebuilds options of None \<Rightarrow> True | Some m \<Rightarrow> n \<le> m)"

definition tracer_inv :: "tracer_options \<Rightarrow> jstring \<Rightarrow> 'g reactive \<Rightarrow> bool" where
  "tracer_inv options gatherer_id st \<longleftrightarrow>
     rt_microtasks st = (if rt_pending st then 1 else 0) \<and> rt_taps st = rt_tapped st \<and> distinct (rt_tapped st)
     \<and> gatherer_id \<notin> set (rt_tapped st) \<and> length (rt_writes st) \<le> rt_rebuild_count st
     \<and> within_rebuilds options (rt_rebuild_count st + rt_microtasks st)"

lemma guard_cases:
  obtains "guard_active st = (False, dispose_taps st)" "\<not> rt_self st \<or> \<not> rt_attached st"
  | "guard_active st = (True, st)" "rt_self st" "rt_attached st"
  by (auto simp: guard_active_def)

lemma schedule_cases:
  obtains "schedule options st = dispose_taps st"
  | "schedule options st = st" "rt_pending st \<or> rebuilds_done options st" "rt_self st" "rt_attached st"
  | "schedule options st = st\<lparr>rt_pending := True, rt_microtasks := rt_microtasks st + 1\<rparr>"
    "\<not> rt_pending st" "\<not> rebuilds_done options st" "rt_self st" "rt_attached st"
  by (cases st rule: guard_cases) (auto simp: schedule_def split: if_splits)

lemma tracer_inv_cong [simp]:
  "tracer_inv options g (st\<lparr>rt_self := b\<rparr>) = tracer_inv options g st"
  "tracer_inv options g (st\<lparr>rt_attached := b\<rparr>) = tracer_inv options g st"
  "tracer_inv options g (st\<lparr>rt_initialized := b\<rparr>) = tracer_inv options g st"
  by (simp_all add: tracer_inv_def)

lemma inv_dispose: "tracer_inv options gatherer_id st \<Longrightarrow> tracer_inv options gatherer_id (dispose_taps st)"
  by (auto simp: tracer_inv_def dispose_taps_def)

lemma inv_queue:
  assumes "tracer_inv options gatherer_id st" and "\<not> rt_pending st" and "\<not> rebuilds_done options st"
  shows "tracer_inv options gatherer_id (st\<lparr>rt_pending := True, rt_microtasks := rt_microtasks st + 1\<rparr>)"
  using assms by (auto simp: tracer_inv_def rebuilds_done_def within_rebuilds_def split: option.splits)

lemma inv_schedule:
  assumes "tracer_inv options gatherer_id st"
  shows "tracer_inv options gatherer_id (schedule options st)"
  by (cases options st rule: schedule_cases) (simp_all only: inv_dispose [OF assms] inv_queue [OF assms] assms simp_thms)

lemma inv_on_fire: "tracer_inv options gatherer_id st \<Longrightarrow> tracer_inv options gatherer_id (on_fire options st)"
  by (cases st rule: guard_cases) (auto simp: on_fire_def inv_dispose inv_schedule)

definition taps_ok :: "jstring \<Rightarrow> 'g reactive \<Rightarrow> bool" where
  "taps_ok g st \<longleftrightarrow> rt_taps st = rt_tapped st \<and> distinct (rt_tapped st) \<and> g \<notin> set (rt_tapped st)"

lemma attach_one:
  "taps_ok g st \<Longrightarrow> taps_ok g (attach_tap_if_needed g c st)
     \<and> set (rt_tapped (attach_tap_if_needed g c st)) = set (rt_tapped st) \<union> ({c} - {g})"
  by (auto simp: taps_ok_def attach_tap_if_needed_def)

lemma attach_all:
  "taps_ok g st \<Longrightarrow> taps_ok g (fold (\<lambda>c. attach_tap_if_needed g (f c)) cs st)
     \<and> set (rt_tapped (fold (\<lambda>c. attach_tap_if_needed g (f c)) cs st)) = set (rt_tapped st) \<union> (f ` set cs - {g})"
proof (induction cs arbitrary: st)
  case (Cons c cs)
  show ?case using attach_one [OF Cons.prems, of "f c"] Cons.IH [of "attach_tap_if_needed g (f c) st"] by auto
qed simp

lemma attach_fields [simp]:
  "rt_pending (attach_tap_if_needed g c st) = rt_pending st" "rt_microtasks (attach_tap_if_needed g c st) = rt_microtasks st"
  "rt_rebuild_count (attach_tap_if_needed g c st) = rt_rebuild_count st" "rt_writes (attach_tap_if_needed g c st) = rt_writes st"
  "rt_self (attach_tap_if_needed g c st) = rt_self st" "rt_attached (attach_tap_if_needed g c st) = rt_attached st"
  by (simp_all add: attach_tap_if_needed_def)

lemma fold_field: "(\<And>c st. h (k c st) = h st) \<Longrightarrow> h (fold k cs st) = h st"
  by (induction cs arbitrary: st) auto

lemma microtask_active:
  assumes "rt_self st" and "rt_attached st" and "rebuilt = rebuild_core G N root (max_nodes_of options) (rt_last_sig st)"
    and "st1 = fold (\<lambda>cell. attach_tap_if_needed gatherer_id (cell_id N cell)) (rb_visits rebuilt)
        (st\<lparr>rt_microtasks := rt_microtasks st - 1, rt_pending := False\<rparr>)"
  shows "run_microtask G options root gatherer_id N st = st1\<lparr>rt_last_sig := rb_sig rebuilt,
    rt_writes := rt_writes st1 @ (case rb_write rebuilt of None \<Rightarrow> [] | Some g \<Rightarrow> [g]), rt_rebuild_count := rt_rebuild_count st1 + 1\<rparr>"
  using assms by (simp add: run_microtask_def guard_active_def Let_def)

lemma microtask_run:
  assumes "tracer_inv options gatherer_id st" and "rt_self st" and "rt_attached st"
    and found: "found = upstream_bfs G N root (max_nodes_of options)"
    and st': "st' = run_microtask G options root gatherer_id N st"
  shows "taps_ok gatherer_id st'" and "set (rt_tapped st') = set (rt_tapped st) \<union> (cell_id N ` set (visits found) - {gatherer_id})"
    and "\<not> rt_pending st' \<and> rt_microtasks st' = rt_microtasks st - 1 \<and> rt_rebuild_count st' = rt_rebuild_count st + 1"
    and "rt_last_sig st' = Some (graph_signature G (bfs_graph found))"
    and "length (rt_writes st') \<le> length (rt_writes st) + 1"
    and "rt_self st' \<and> rt_attached st'"
proof -
  let ?st = "st\<lparr>rt_microtasks := rt_microtasks st - 1, rt_pending := False\<rparr>"
  define st1 where "st1 = fold (\<lambda>cell. attach_tap_if_needed gatherer_id (cell_id N cell)) (visits found) ?st"
  define rebuilt where "rebuilt = rebuild_core G N root (max_nodes_of options) (rt_last_sig st)"
  have visits: "rb_visits rebuilt = visits found" and sig: "rb_sig rebuilt = Some (graph_signature G (bfs_graph found))"
    by (auto simp: rebuilt_def rebuild_core_def emit_if_changed_def found Let_def)
  have run: "st' = st1\<lparr>rt_last_sig := rb_sig rebuilt, rt_writes := rt_writes st1 @ (case rb_write rebuilt of None \<Rightarrow> [] | Some g \<Rightarrow> [g]),
      rt_rebuild_count := rt_rebuild_count st1 + 1\<rparr>"
    unfolding st' st1_def visits [symmetric] using microtask_active [OF assms(2,3) rebuilt_def refl] .
  have "taps_ok gatherer_id ?st" using assms(1) by (simp add: tracer_inv_def taps_ok_def)
  from attach_all [OF this, of "cell_id N" "visits found"]
  have taps: "taps_ok gatherer_id st1" "set (rt_tapped st1) = set (rt_tapped st) \<union> (cell_id N ` set (visits found) - {gatherer_id})"
    unfolding st1_def by simp_all
  show "taps_ok gatherer_id st'" "set (rt_tapped st') = set (rt_tapped st) \<union> (cell_id N ` set (visits found) - {gatherer_id})"
    unfolding run using taps by (simp_all add: taps_ok_def)
  have fields: "rt_pending st1 = False" "rt_microtasks st1 = rt_microtasks st - 1" "rt_rebuild_count st1 = rt_rebuild_count st"
    "rt_writes st1 = rt_writes st" "rt_self st1" "rt_attached st1"
    unfolding st1_def using assms(2,3) by (simp_all add: fold_field)
  then show "\<not> rt_pending st' \<and> rt_microtasks st' = rt_microtasks st - 1 \<and> rt_rebuild_count st' = rt_rebuild_count st + 1"
    "rt_last_sig st' = Some (graph_signature G (bfs_graph found))"
    "length (rt_writes st') \<le> length (rt_writes st) + 1" "rt_self st' \<and> rt_attached st'"
    unfolding run by (simp_all add: sig split: option.split)
qed

lemma inv_microtask:
  assumes "tracer_inv options gatherer_id st" and "rt_microtasks st > 0"
  shows "tracer_inv options gatherer_id (run_microtask G options root gatherer_id N st)"
proof (cases "rt_self st \<and> rt_attached st")
  case True
  have "rt_pending st" "rt_microtasks st = 1" using assms by (auto simp: tracer_inv_def split: if_splits)
  moreover note run = microtask_run [where G = G and root = root and N = N, OF assms(1) _ _ refl refl]
  ultimately show ?thesis using True assms(1) run(3,5) run(1) unfolding tracer_inv_def taps_ok_def by auto
next
  case False
  let ?st = "st\<lparr>rt_microtasks := rt_microtasks st - 1, rt_pending := False\<rparr>"
  have "guard_active ?st = (False, dispose_taps ?st)" using False by (auto simp: guard_active_def)
  moreover have "tracer_inv options gatherer_id ?st"
    using assms by (auto simp: tracer_inv_def within_rebuilds_def split: if_splits option.splits)
  ultimately show ?thesis by (simp add: run_microtask_def inv_dispose)
qed

lemma inv_step:
  "tracer_step G options root gatherer_id networks st st' \<Longrightarrow> tracer_inv options gatherer_id st \<Longrightarrow>
     tracer_inv options gatherer_id st'"
proof (induction rule: tracer_step.induct)
  case (activated st)
  then show ?case by (simp add: activate_reactive_def inv_schedule)
qed (simp_all add: inv_on_fire inv_microtask)

lemma inv_reach:
  assumes "tracer_reach G options root gatherer_id networks st"
  shows "tracer_inv options gatherer_id st"
  using assms
proof (induction rule: rtranclp_induct)
  case base
  show ?case by (simp add: tracer_inv_def reactive_start_def within_rebuilds_def split: option.split)
next
  case (step y z)
  show ?case by (rule inv_step [OF step(2,3)])
qed

section \<open>Wakeups\<close>

text \<open>Steps without the microtask: the ones possible when there is no network to run it on.\<close>

lemma step_mono: "tracer_step G options root gatherer_id {} st st' \<Longrightarrow> tracer_step G options root gatherer_id networks st st'"
  by (erule tracer_stepE) (auto intro: tracer_step.intros)

lemma pending_schedule: "rt_pending st \<Longrightarrow> rt_pending (schedule options st)"
  by (cases options st rule: schedule_cases) (simp_all only: dispose_taps_def, simp_all)

lemma pending_kept:
  assumes "(tracer_step G options root gatherer_id {})\<^sup>*\<^sup>* st st'" and "rt_pending st"
  shows "rt_pending st'"
  using assms
proof (induction rule: rtranclp_induct)
  case (step y z)
  show ?case using step(2)
  proof (rule tracer_stepE)
    assume "z = on_fire options y"
    then show ?thesis using step
      by (cases y rule: guard_cases) (simp_all add: on_fire_def dispose_taps_def pending_schedule)
  qed (use step in \<open>simp_all add: activate_reactive_def pending_schedule\<close>)
qed

lemma fire_pending:
  assumes "rt_self st" and "rt_attached st" and "\<not> rebuilds_done options st"
  shows "rt_pending (on_fire options st)"
proof -
  have "guard_active st = (True, st)" using assms(1,2) by (simp add: guard_active_def)
  then show ?thesis using assms(3) by (simp add: on_fire_def schedule_def)
qed

section \<open>The periodic tracer\<close>

record 'g periodic =
  pd_interval :: bool
  pd_last_sig :: "jstring option"
  pd_self :: bool
  pd_attached :: bool
  pd_writes :: "'g list"

definition stop_periodic :: "'g periodic \<Rightarrow> 'g periodic" where
  "stop_periodic st = st\<lparr>pd_interval := False\<rparr>"

definition periodic_active :: "'g periodic \<Rightarrow> bool \<times> 'g periodic" where
  "periodic_active st = (if \<not> pd_self st \<or> \<not> pd_attached st then (False, stop_periodic st) else (True, st))"

definition rebuild_once ::
    "('g, 'z) graphology_scheme \<Rightarrow> nat \<Rightarrow> 'c \<Rightarrow> ('c, 'p) network \<Rightarrow> 'g periodic \<Rightarrow> 'g periodic" where
  "rebuild_once G max_nodes root N st =
     (let (active, st) = periodic_active st
      in if \<not> active then st
         else (let rebuilt = rebuild_core G N root max_nodes (pd_last_sig st)
               in st\<lparr>pd_last_sig := rb_sig rebuilt,
                     pd_writes := pd_writes st @ (case rb_write rebuilt of None \<Rightarrow> [] | Some g \<Rightarrow> [g])\<rparr>))"

definition start_interval ::
    "('g, 'z) graphology_scheme \<Rightarrow> nat \<Rightarrow> 'c \<Rightarrow> ('c, 'p) network \<Rightarrow> 'g periodic \<Rightarrow> 'g periodic" where
  "start_interval G max_nodes root N st =
     (if pd_interval st then st else (rebuild_once G max_nodes root N st)\<lparr>pd_interval := True\<rparr>)"

text \<open>The interval's callback, and the body of the propagator.\<close>

definition periodic_tick ::
    "('g, 'z) graphology_scheme \<Rightarrow> nat \<Rightarrow> 'c \<Rightarrow> ('c, 'p) network \<Rightarrow> 'g periodic \<Rightarrow> 'g periodic" where
  "periodic_tick G max_nodes root N st =
     (let (active, st) = periodic_active st in if \<not> active then st else rebuild_once G max_nodes root N st)"

definition activate_periodic ::
    "('g, 'z) graphology_scheme \<Rightarrow> nat \<Rightarrow> 'c \<Rightarrow> ('c, 'p) network \<Rightarrow> 'g periodic \<Rightarrow> 'g periodic" where
  "activate_periodic G max_nodes root N st =
     (let (active, st) = periodic_active st in if \<not> active then st else start_interval G max_nodes root N st)"

definition periodic_sig :: "('g, 'z) graphology_scheme \<Rightarrow> nat \<Rightarrow> 'c \<Rightarrow> ('c, 'p) network \<Rightarrow> jstring" where
  "periodic_sig G max_nodes root N = graph_signature G (bfs_graph (upstream_bfs G N root max_nodes))"

lemma rebuild_once_active:
  assumes "pd_self st" and "pd_attached st"
  shows "rebuild_once G max_nodes root N st = st\<lparr>pd_last_sig := Some (periodic_sig G max_nodes root N),
    pd_writes := pd_writes st @ (if pd_last_sig st = Some (periodic_sig G max_nodes root N) then []
      else [bfs_graph (upstream_bfs G N root max_nodes)])\<rparr>"
  using assms
  by (auto simp: rebuild_once_def periodic_active_def rebuild_core_def emit_if_changed_def periodic_sig_def Let_def)

text \<open>The periodic tracer writes exactly when the signature differs from the last one.\<close>

fun sig_changes :: "jstring option \<Rightarrow> jstring list \<Rightarrow> nat" where
  "sig_changes last_sig [] = 0"
| "sig_changes last_sig (s # sigs) = (if last_sig = Some s then 0 else 1) + sig_changes (Some s) sigs"

lemma periodic_ticks:
  "pd_self st \<Longrightarrow> pd_attached st \<Longrightarrow>
     length (pd_writes (fold (periodic_tick G max_nodes root) Ns st)) =
       length (pd_writes st) + sig_changes (pd_last_sig st) (map (periodic_sig G max_nodes root) Ns)"
proof (induction Ns arbitrary: st)
  case (Cons N Ns)
  have "periodic_active st = (True, st)" using Cons.prems by (simp add: periodic_active_def)
  then show ?case
    using Cons.IH [of "periodic_tick G max_nodes root N st"] Cons.prems
    by (simp add: periodic_tick_def rebuild_once_active)
qed simp

section \<open>Properties\<close>

text \<open>
  C39: In every state a reactive tracer can reach, whatever the order of activations, fired taps,
  microtasks and detachment and however the network changes: at most one microtask is queued,
  the rebuilds done and queued do not exceed \<open>maxRebuilds\<close>, no cell is tapped twice, the
  gatherer is never tapped, and the writes are at most the rebuilds.
\<close>

theorem reactive_tracer_bounds:
  assumes "tracer_reach G options root gatherer_id networks st"
  shows "rt_microtasks st \<le> 1 \<and> (opt_max_rebuilds options = Some m \<longrightarrow> rt_rebuild_count st + rt_microtasks st \<le> m)
    \<and> distinct (rt_taps st) \<and> gatherer_id \<notin> set (rt_taps st) \<and> length (rt_writes st) \<le> rt_rebuild_count st"
  using inv_reach [OF assms] by (auto simp: tracer_inv_def within_rebuilds_def)

definition sample_options :: tracer_options where
  "sample_options = \<lparr>opt_max_nodes = None, opt_max_rebuilds = Some 2\<rparr>"

definition sample_run :: "lgraph reactive" where
  "sample_run = run_microtask list_graphology sample_options 0 ''g'' sample_network
     (activate_reactive sample_options (reactive_start\<lparr>rt_self := True\<rparr>))"

lemma sample_run_reach: "tracer_reach list_graphology sample_options 0 ''g'' {sample_network} sample_run"
proof -
  let ?step = "tracer_step list_graphology sample_options 0 ''g'' {sample_network}"
  let ?a = "activate_reactive sample_options (reactive_start\<lparr>rt_self := True\<rparr>)"
  have "?step reactive_start (reactive_start\<lparr>rt_self := True\<rparr>)" by (rule tracer_step.constructed)
  moreover have "?step (reactive_start\<lparr>rt_self := True\<rparr>) ?a" by (rule tracer_step.activated)
  moreover have "?step ?a sample_run" unfolding sample_run_def
    by (rule tracer_step.microtask)
      (simp_all add: activate_reactive_def schedule_def guard_active_def reactive_start_def sample_options_def rebuilds_done_def)
  ultimately show ?thesis by (meson rtranclp.rtrancl_into_rtrancl rtranclp.rtrancl_refl)
qed

theorem reactive_tracer_bounds_witness:
  "rt_rebuild_count sample_run + rt_microtasks sample_run \<le> 2 \<and> distinct (rt_taps sample_run)"
  using reactive_tracer_bounds [OF sample_run_reach, of 2] by (simp add: sample_options_def)

text \<open>
  C38: No fired tap is lost. When a tap fires while the tracer is attached and may rebuild, then
  however many other taps fire or activations happen before it, the one microtask stays queued;
  run on any network, as long as the tracer is attached, it leaves the signature of the graph of
  that network (written to the gatherer when it differs from the last) and a tap on every cell
  the search visited but the gatherer.
\<close>

theorem tap_fire_not_lost:
  assumes "tracer_reach G options root gatherer_id networks st" and "tap \<in> set (rt_taps st)" and "rt_self st" and "rt_attached st"
    and "\<not> rebuilds_done options st" and "(tracer_step G options root gatherer_id {})\<^sup>*\<^sup>* (on_fire options st) st'"
    and "rt_self st'" and "rt_attached st'" and "N \<in> networks"
  shows "rt_microtasks st' = 1
    \<and> tracer_step G options root gatherer_id networks st' (run_microtask G options root gatherer_id N st')
    \<and> rt_last_sig (run_microtask G options root gatherer_id N st') =
        Some (graph_signature G (bfs_graph (upstream_bfs G N root (max_nodes_of options))))
    \<and> cell_id N ` set (visits (upstream_bfs G N root (max_nodes_of options))) - {gatherer_id}
        \<subseteq> set (rt_taps (run_microtask G options root gatherer_id N st'))"
proof -
  have "tracer_step G options root gatherer_id networks st (on_fire options st)" by (rule tracer_step.fired [OF assms(2)])
  moreover have "(tracer_step G options root gatherer_id networks)\<^sup>*\<^sup>* (on_fire options st) st'"
    using assms(6) by (rule rtranclp_mono [THEN predicate2D, rotated]) (blast intro: step_mono)
  ultimately have "tracer_reach G options root gatherer_id networks st'" using assms(1) by (meson rtranclp.rtrancl_into_rtrancl rtranclp_trans)
  then have inv: "tracer_inv options gatherer_id st'" by (rule inv_reach)
  moreover have "rt_pending st'" by (rule pending_kept [OF assms(6) fire_pending [OF assms(3-5)]])
  ultimately have one: "rt_microtasks st' = 1" by (simp add: tracer_inv_def)
  moreover have "tracer_step G options root gatherer_id networks st' (run_microtask G options root gatherer_id N st')"
    by (rule tracer_step.microtask) (use one assms(9) in simp_all)
  ultimately show ?thesis
    using microtask_run(1,2,4) [where G = G and root = root and N = N, OF inv assms(7,8) refl refl] by (simp add: taps_ok_def)
qed

theorem tap_fire_not_lost_witness:
  "rt_microtasks (on_fire sample_options sample_run) = 1
   \<and> rt_last_sig (run_microtask list_graphology sample_options 0 ''g'' sample_network (on_fire sample_options sample_run)) =
       Some (graph_signature list_graphology (bfs_graph (upstream_bfs list_graphology sample_network 0 2000)))"
proof -
  let ?st = "activate_reactive sample_options (reactive_start\<lparr>rt_self := True\<rparr>) :: lgraph reactive"
  have st: "rt_self ?st" "rt_attached ?st" "rt_rebuild_count ?st = 0" "tracer_inv sample_options ''g'' ?st"
    by (simp_all add: activate_reactive_def schedule_def guard_active_def reactive_start_def sample_options_def
        rebuilds_done_def tracer_inv_def within_rebuilds_def)
  have "set (visits (upstream_bfs list_graphology sample_network 0 2000)) = {0, 1, 2, 3}" by (rule sample_visits) simp
  then have "1 \<in> set (visits (upstream_bfs list_graphology sample_network 0 (max_nodes_of sample_options)))"
    by (simp add: max_nodes_of_def sample_options_def TRACER_MAX_NODES_def)
  moreover have "''c'' = cell_id sample_network 1" by (simp add: sample_network_def)
  ultimately have "''c'' \<in> cell_id sample_network ` set (visits (upstream_bfs list_graphology sample_network 0 (max_nodes_of sample_options)))"
    by blast
  moreover note run = microtask_run [OF st(4,1,2) refl sample_run_def]
  ultimately have tap: "''c'' \<in> set (rt_taps sample_run)" and run: "rt_self sample_run" "rt_attached sample_run" "rt_rebuild_count sample_run = 1"
    using run(1,2,3,6) unfolding st(3) by (auto simp: taps_ok_def)
  have room: "\<not> rebuilds_done sample_options sample_run" by (simp add: rebuilds_done_def sample_options_def run)
  have "rt_self (on_fire sample_options sample_run) \<and> rt_attached (on_fire sample_options sample_run)"
    using run by (simp add: on_fire_def schedule_def guard_active_def)
  then show ?thesis
    using tap_fire_not_lost [OF sample_run_reach tap run(1,2) room, of "on_fire sample_options sample_run" sample_network]
    by (simp add: max_nodes_of_def sample_options_def TRACER_MAX_NODES_def)
qed

end
