(* ===== verification/General_Trace.thy ===== *)
theory General_Trace
  imports Graphology Naming
begin

text \<open>
  The traversals of \<open>compiler/tracer/generalized_tracer.ts\<close>: a queue walk without a bound, steps and
  walks wrapped with closures that remember ids, and the reactive, one-shot and periodic
  tracers built from them. A closure's variables are a state the wrapped function threads. The
  items are cells and propagators of the library: objects, so the test \<open>if (x)\<close> of the loop
  always holds. The loop need not end on an infinite network, so its result is an option.
\<close>

section \<open>Items\<close>

record 'x items =
  get_id :: "'x \<Rightarrow> jstring"
  is_cell :: "'x \<Rightarrow> bool"
  is_propagator :: "'x \<Rightarrow> bool"
  item_name :: "'x \<Rightarrow> jstring"
  item_level :: "'x \<Rightarrow> nat"
  item_value :: "'x \<Rightarrow> jstring option"

text \<open>
  \<open>item_name\<close> and \<open>item_level\<close> are the name and the level of a cell or a propagator, \<open>item_value\<close>
  the text of the strongest base value of a cell, if it is something.
\<close>

definition create_label :: "'x items \<Rightarrow> 'x \<Rightarrow> jstring" where
  "create_label I item =
     (if is_cell I item then item_name I item
      else if is_propagator I item then item_name I item
      else ''unknown'')"

definition node_attrs :: "'x items \<Rightarrow> 'x \<Rightarrow> attributes" where
  "node_attrs I item =
     (let label = create_label I item;
          base = [(''label'', JStr label),
                  (''kind'', JStr (if is_cell I item then ''cell'' else ''propagator'')),
                  (''namespace'', JStr (hd (split_on ''|'' label))),
                  (''relationLevel'', JNum (num_of_int (int (item_level I item))))]
      in if is_cell I item
         then base @ (case item_value I item of None \<Rightarrow> [] | Some value \<Rightarrow> [(''value'', JStr value)])
         else base)"

section \<open>Traversal\<close>

partial_function (option) traverse_loop ::
    "('x \<Rightarrow> 'w \<Rightarrow> 'x list \<times> 'w) \<Rightarrow> ('s \<Rightarrow> 'x \<Rightarrow> 's) \<Rightarrow> 'x list \<Rightarrow> 's \<Rightarrow> 'w \<Rightarrow> ('s \<times> 'w) option" where
  "traverse_loop walk step queue state w =
     (case queue of
        [] \<Rightarrow> Some (state, w)
      | x # rest \<Rightarrow>
          let state' = step state x; (next, w') = walk x w
          in traverse_loop walk step (rest @ next) state' w')"

lemma traverse_loop_simps [simp, code]:
  "traverse_loop walk step [] state w = Some (state, w)"
  "traverse_loop walk step (x # rest) state w =
     traverse_loop walk step (rest @ fst (walk x w)) (step state x) (snd (walk x w))"
  by (subst traverse_loop.simps, simp add: Let_def case_prod_unfold)+

definition traverse :: "('x \<Rightarrow> 'w \<Rightarrow> 'x list \<times> 'w) \<Rightarrow> ('s \<Rightarrow> 'x \<Rightarrow> 's) \<Rightarrow> 'w \<Rightarrow> 'x \<Rightarrow> 's \<Rightarrow> 's option" where
  "traverse walk step w root initial_state = map_option fst (traverse_loop walk step [root] initial_state w)"

text \<open>Step combinators; the state grows by the closure's variables.\<close>

definition cyclic_prevention_step :: "'x items \<Rightarrow> ('s \<Rightarrow> 'x \<Rightarrow> 's) \<Rightarrow> 's \<times> jstring list \<Rightarrow> 'x \<Rightarrow> 's \<times> jstring list" where
  "cyclic_prevention_step I step = (\<lambda>(state, seen) x.
     if get_id I x \<in> set seen then (state, seen) else (step state x, seen @ [get_id I x]))"

definition max_nodes_step :: "nat \<Rightarrow> ('s \<Rightarrow> 'x \<Rightarrow> 's) \<Rightarrow> 's \<times> nat \<Rightarrow> 'x \<Rightarrow> 's \<times> nat" where
  "max_nodes_step max_nodes step = (\<lambda>(state, nodes_count) x.
     if nodes_count \<ge> max_nodes then (state, nodes_count) else (step state x, nodes_count + 1))"

definition graph_step :: "('g, 'z) graphology_scheme \<Rightarrow> 'x items \<Rightarrow> ('x \<Rightarrow> 'x list) \<Rightarrow> 'g \<Rightarrow> 'x \<Rightarrow> 'g" where
  "graph_step G I get_nodes graph item =
     (let node_id = get_id I item
      in fold (\<lambda>dependent g. merge_edge G node_id (get_id I dependent) []
             (merge_node G (get_id I dependent) (node_attrs I dependent) g))
           (get_nodes item) (merge_node G node_id (node_attrs I item) graph))"

text \<open>The ids tapped, and the cells \<open>on_visit\<close> was called with.\<close>

definition tap_cell_step ::
    "'x items \<Rightarrow> ('s \<Rightarrow> 'x \<Rightarrow> 's) \<Rightarrow> 's \<times> jstring list \<times> 'x list \<Rightarrow> 'x \<Rightarrow> 's \<times> jstring list \<times> 'x list" where
  "tap_cell_step I step = (\<lambda>(state, tapped, taps) x.
     if is_cell I x \<and> get_id I x \<notin> set tapped then (step state x, tapped @ [get_id I x], taps @ [x])
     else (step state x, tapped, taps))"

definition cyclic_prevention_walk :: "'x items \<Rightarrow> ('x \<Rightarrow> 'x list) \<Rightarrow> 'x \<Rightarrow> jstring list \<Rightarrow> 'x list \<times> jstring list" where
  "cyclic_prevention_walk I walk x seen =
     (if get_id I x \<in> set seen then ([], seen) else (walk x, seen @ [get_id I x]))"

section \<open>Tracers\<close>

text \<open>The variables of the reactive tracer, and what was written to the gatherer.\<close>

record ('x, 'g) tracing =
  tg_graph :: 'g
  tg_active :: bool
  tg_initialized :: bool
  tg_tapped :: "jstring list"
  tg_taps :: "'x list"
  tg_writes :: "'g list"

definition tracing_start :: "('g, 'z) graphology_scheme \<Rightarrow> ('x, 'g) tracing" where
  "tracing_start G =
     \<lparr>tg_graph = new_graph G, tg_active = False, tg_initialized = False, tg_tapped = [], tg_taps = [], tg_writes = []\<rparr>"

definition construct_traverse_for_graph ::
    "('g, 'z) graphology_scheme \<Rightarrow> 'x items \<Rightarrow> ('x \<Rightarrow> 'x list) \<Rightarrow> 'x \<Rightarrow> 'g \<times> jstring list \<times> 'x list
       \<Rightarrow> ('g \<times> jstring list \<times> 'x list) option" where
  "construct_traverse_for_graph G I walk_nodes root =
     traverse (cyclic_prevention_walk I walk_nodes) (tap_cell_step I (graph_step G I walk_nodes)) [] root"

definition toggle_active :: "('x, 'g) tracing \<Rightarrow> ('x, 'g) tracing" where
  "toggle_active st = st\<lparr>tg_active := \<not> tg_active st\<rparr>"

text \<open>The graph of the last traversal is where the next one starts.\<close>

definition trace_schedule ::
    "('g, 'z) graphology_scheme \<Rightarrow> 'x items \<Rightarrow> ('x \<Rightarrow> 'x list) \<Rightarrow> 'x \<Rightarrow> ('x, 'g) tracing \<Rightarrow> ('x, 'g) tracing option" where
  "trace_schedule G I walk_nodes root st =
     (if tg_active st then Some st
      else
        (let st1 = toggle_active st
         in map_option (\<lambda>(graph, tapped, taps). toggle_active
              (st1\<lparr>tg_graph := graph, tg_tapped := tapped, tg_taps := taps, tg_writes := tg_writes st1 @ [graph]\<rparr>))
              (construct_traverse_for_graph G I walk_nodes root (tg_graph st1, tg_tapped st1, tg_taps st1))))"

definition trace_activate ::
    "('g, 'z) graphology_scheme \<Rightarrow> 'x items \<Rightarrow> ('x \<Rightarrow> 'x list) \<Rightarrow> 'x \<Rightarrow> ('x, 'g) tracing \<Rightarrow> ('x, 'g) tracing option" where
  "trace_activate G I walk_nodes root st =
     (if tg_initialized st then Some st else trace_schedule G I walk_nodes root (st\<lparr>tg_initialized := True\<rparr>))"

text \<open>The graph the one-shot tracer writes.\<close>

definition trace_once :: "('g, 'z) graphology_scheme \<Rightarrow> 'x items \<Rightarrow> ('x \<Rightarrow> 'x list) \<Rightarrow> 'x \<Rightarrow> 'g option" where
  "trace_once G I walk_nodes root =
     traverse (cyclic_prevention_walk I walk_nodes) (graph_step G I walk_nodes) [] root (new_graph G)"

record 'g periodic_trace =
  pt_timer :: bool
  pt_self :: bool
  pt_attached :: bool
  pt_writes :: "'g list"

definition pt_is_active :: "'g periodic_trace \<Rightarrow> bool \<times> 'g periodic_trace" where
  "pt_is_active st = (if \<not> pt_self st \<or> \<not> pt_attached st then (False, st\<lparr>pt_timer := False\<rparr>) else (True, st))"

definition pt_rebuild ::
    "('g, 'z) graphology_scheme \<Rightarrow> 'x items \<Rightarrow> ('x \<Rightarrow> 'x list) \<Rightarrow> 'x \<Rightarrow> 'g periodic_trace \<Rightarrow> 'g periodic_trace option" where
  "pt_rebuild G I walk_nodes root st =
     (let (active, st) = pt_is_active st
      in if \<not> active then Some st
         else map_option (\<lambda>graph. st\<lparr>pt_writes := pt_writes st @ [graph]\<rparr>) (trace_once G I walk_nodes root))"

definition trace_periodic ::
    "('g, 'z) graphology_scheme \<Rightarrow> 'x items \<Rightarrow> ('x \<Rightarrow> 'x list) \<Rightarrow> 'x \<Rightarrow> 'g periodic_trace \<Rightarrow> 'g periodic_trace option" where
  "trace_periodic G I walk_nodes root st =
     (if pt_timer st then Some st
      else map_option (\<lambda>st. st\<lparr>pt_timer := True\<rparr>) (pt_rebuild G I walk_nodes root st))"

section \<open>Lemmas\<close>

definition walk_rel :: "('x \<Rightarrow> 'x list) \<Rightarrow> ('x \<times> 'x) set" where
  "walk_rel walk = {(x, y). y \<in> set (walk x)}"

lemma walk_rel_image: "walk_rel walk `` V = (\<Union>x \<in> V. set (walk x))"
  by (auto simp: walk_rel_def)

context graphology_laws
begin

lemma graph_step_sets:
  "nodes_of G (graph_step G I walk g x) = nodes_of G g \<union> insert (get_id I x) (get_id I ` set (walk x))
    \<and> edges_of_graph G (graph_step G I walk g x) = edges_of_graph G g \<union> (\<lambda>y. (get_id I x, get_id I y)) ` set (walk x)"
proof -
  let ?add = "\<lambda>dependent g. merge_edge G (get_id I x) (get_id I dependent) [] (merge_node G (get_id I dependent) (node_attrs I dependent) g)"
  have "nodes_of G (fold ?add ys h) = nodes_of G h \<union> get_id I ` set ys
      \<and> edges_of_graph G (fold ?add ys h) = edges_of_graph G h \<union> (\<lambda>y. (get_id I x, get_id I y)) ` set ys"
    if "get_id I x \<in> nodes_of G h" for ys h
    using that
  proof (induction ys arbitrary: h)
    case (Cons y ys)
    have "nodes_of G (?add y h) = insert (get_id I y) (nodes_of G h)"
      "edges_of_graph G (?add y h) = insert (get_id I x, get_id I y) (edges_of_graph G h)"
      using Cons.prems by (simp_all add: merge_node merge_edge)
    then show ?case using Cons.IH [of "?add y h"] Cons.prems by auto
  qed simp
  from this [of "merge_node G (get_id I x) (node_attrs I x) g" "walk x"] show ?thesis
    by (simp add: graph_step_def Let_def merge_node)
qed

text \<open>
  On a finite set of items closed under the walk: the loop ends and its graph has gained the
  ids of the items reached and the edges of the walk between them. \<open>gr\<close> is the graph in the state.
\<close>

lemma traverse_run:
  assumes fin: "finite S" and closed: "walk_rel walk `` S \<subseteq> S" and inj: "inj_on (get_id I) S"
    and gr: "\<And>st x. gr (step st x) = graph_step G I walk (gr st) x"
  shows "set seen = get_id I ` V \<Longrightarrow> V \<subseteq> S \<Longrightarrow> set queue \<subseteq> S \<Longrightarrow> walk_rel walk `` V \<subseteq> V \<union> set queue \<Longrightarrow>
    nodes_of G (gr st) = B \<union> get_id I ` (V \<union> walk_rel walk `` V) \<Longrightarrow>
    edges_of_graph G (gr st) = E \<union> (\<lambda>(x, y). (get_id I x, get_id I y)) ` (walk_rel walk \<inter> V \<times> UNIV) \<Longrightarrow>
    \<exists>st' seen' V'. traverse_loop (cyclic_prevention_walk I walk) step queue st seen = Some (st', seen')
      \<and> V \<union> set queue \<subseteq> V' \<and> V' \<subseteq> S \<and> walk_rel walk `` V' \<subseteq> V' \<and> nodes_of G (gr st') = B \<union> get_id I ` V'
      \<and> edges_of_graph G (gr st') = E \<union> (\<lambda>(x, y). (get_id I x, get_id I y)) ` (walk_rel walk \<inter> V' \<times> UNIV)"
proof (induction "(V, queue, st, seen)" arbitrary: V queue st seen
    rule: wf_induct_rule [OF wf_measures, of "[\<lambda>(V, _). card (S - V), \<lambda>(_, queue, _). length queue]"])
  case (1 V queue st seen)
  show ?case
  proof (cases queue)
    case Nil
    have "V \<union> walk_rel walk `` V = V" using 1(5) by (auto simp: Nil)
    then show ?thesis using 1(2-7) by (intro exI [of _ st] exI [of _ seen] exI [of _ V]) (simp add: Nil)
  next
    case (Cons x rest)
    have x: "x \<in> S" using 1(4) by (simp add: Cons)
    show ?thesis
    proof (cases "x \<in> V")
      case True
      have loop: "traverse_loop (cyclic_prevention_walk I walk) step queue st seen =
          traverse_loop (cyclic_prevention_walk I walk) step rest (step st x) seen"
        using True 1(2) by (simp add: Cons cyclic_prevention_walk_def)
      have "nodes_of G (gr (step st x)) = nodes_of G (gr st)" "edges_of_graph G (gr (step st x)) = edges_of_graph G (gr st)"
        unfolding gr using graph_step_sets [of I walk "gr st" x] 1(6,7) True by (auto simp: walk_rel_def)
      moreover have "V \<union> set (x # rest) = V \<union> set rest" using True by auto
      ultimately show ?thesis using 1(1) [of V rest "step st x" seen] 1(2-7) unfolding loop
        by (simp add: Cons)
    next
      case False
      then have "get_id I x \<notin> set seen" using 1(2,3) x inj by (auto simp: inj_on_def)
      then have loop: "traverse_loop (cyclic_prevention_walk I walk) step queue st seen =
          traverse_loop (cyclic_prevention_walk I walk) step (rest @ walk x) (step st x) (seen @ [get_id I x])"
        by (simp add: Cons cyclic_prevention_walk_def)
      have image: "walk_rel walk `` insert x V = set (walk x) \<union> walk_rel walk `` V" by (auto simp: walk_rel_def)
      have pairs: "walk_rel walk \<inter> insert x V \<times> UNIV = Pair x ` set (walk x) \<union> (walk_rel walk \<inter> V \<times> UNIV)"
        by (auto simp: walk_rel_def)
      have step: "nodes_of G (gr (step st x)) = B \<union> get_id I ` (insert x V \<union> walk_rel walk `` insert x V)"
        "edges_of_graph G (gr (step st x)) = E \<union> (\<lambda>(x, y). (get_id I x, get_id I y)) ` (walk_rel walk \<inter> insert x V \<times> UNIV)"
        unfolding gr image pairs using graph_step_sets [of I walk "gr st" x] 1(6,7) by (auto simp: image_Un image_image)
      have walk: "set (walk x) \<subseteq> S" using closed x by (auto simp: walk_rel_def)
      have less: "card (S - insert x V) < card (S - V)" using False x fin by (intro psubset_card_mono) auto
      have sets: "set (seen @ [get_id I x]) = get_id I ` insert x V" "insert x V \<subseteq> S" "set (rest @ walk x) \<subseteq> S"
        "walk_rel walk `` insert x V \<subseteq> insert x V \<union> set (rest @ walk x)"
        using 1(2-5) x walk unfolding image Cons by auto
      from 1(1) [OF _ sets step] less
      obtain st' seen' V' where res: "traverse_loop (cyclic_prevention_walk I walk) step (rest @ walk x) (step st x) (seen @ [get_id I x]) = Some (st', seen')"
        "insert x V \<union> set (rest @ walk x) \<subseteq> V'" "V' \<subseteq> S" "walk_rel walk `` V' \<subseteq> V'" "nodes_of G (gr st') = B \<union> get_id I ` V'"
        "edges_of_graph G (gr st') = E \<union> (\<lambda>(x, y). (get_id I x, get_id I y)) ` (walk_rel walk \<inter> V' \<times> UNIV)"
        by auto
      have "V \<union> set queue \<subseteq> V'" using res(2) by (auto simp: Cons)
      then show ?thesis unfolding loop using res by blast
    qed
  qed
qed

lemma traverse_reaches:
  assumes S: "S = (walk_rel walk)\<^sup>* `` {root}" and fin: "finite S" and inj: "inj_on (get_id I) S"
    and gr: "\<And>st x. gr (step st x) = graph_step G I walk (gr st) x"
  shows "\<exists>st'. traverse (cyclic_prevention_walk I walk) step [] root st = Some st'
    \<and> nodes_of G (gr st') = nodes_of G (gr st) \<union> get_id I ` S
    \<and> edges_of_graph G (gr st') = edges_of_graph G (gr st) \<union> (\<lambda>(x, y). (get_id I x, get_id I y)) ` (walk_rel walk \<inter> S \<times> UNIV)"
proof -
  have closed: "walk_rel walk `` S \<subseteq> S" unfolding S by (auto intro: rtrancl_into_rtrancl)
  obtain st' seen' V' where run: "traverse_loop (cyclic_prevention_walk I walk) step [root] st [] = Some (st', seen')"
    "root \<in> V'" "V' \<subseteq> S" "walk_rel walk `` V' \<subseteq> V'" "nodes_of G (gr st') = nodes_of G (gr st) \<union> get_id I ` V'"
    "edges_of_graph G (gr st') = edges_of_graph G (gr st) \<union> (\<lambda>(x, y). (get_id I x, get_id I y)) ` (walk_rel walk \<inter> V' \<times> UNIV)"
    using traverse_run [OF fin closed inj, of gr step "[]" "{}" "[root]" st "nodes_of G (gr st)" "edges_of_graph G (gr st)"] gr
    by (auto simp: S)
  have "S \<subseteq> V'"
  proof
    fix y assume "y \<in> S"
    then have "(root, y) \<in> (walk_rel walk)\<^sup>*" by (simp add: S)
    then show "y \<in> V'" by (induction rule: rtrancl_induct) (use run(2,4) in auto)
  qed
  then have "V' = S" using run(3) by blast
  then show ?thesis using run by (simp add: traverse_def)
qed

lemma trace_once_graph:
  assumes "S = (walk_rel walk)\<^sup>* `` {root}" and "finite S" and "inj_on (get_id I) S"
  shows "\<exists>g. trace_once G I walk root = Some g \<and> nodes_of G g = get_id I ` S
    \<and> edges_of_graph G g = (\<lambda>(x, y). (get_id I x, get_id I y)) ` (walk_rel walk \<inter> S \<times> UNIV)"
  using traverse_reaches [OF assms, of "\<lambda>g. g" "graph_step G I walk" "new_graph G"] by (simp add: trace_once_def)

lemma schedule_graph:
  assumes "S = (walk_rel walk)\<^sup>* `` {root}" and "finite S" and "inj_on (get_id I) S" and "\<not> tg_active st"
  shows "\<exists>st'. trace_schedule G I walk root st = Some st' \<and> \<not> tg_active st' \<and> tg_writes st' = tg_writes st @ [tg_graph st']
    \<and> nodes_of G (tg_graph st') = nodes_of G (tg_graph st) \<union> get_id I ` S
    \<and> edges_of_graph G (tg_graph st') = edges_of_graph G (tg_graph st) \<union> (\<lambda>(x, y). (get_id I x, get_id I y)) ` (walk_rel walk \<inter> S \<times> UNIV)"
proof -
  have gr: "fst (tap_cell_step I (graph_step G I walk) s x) = graph_step G I walk (fst s) x" for s x
    by (simp add: tap_cell_step_def split: prod.splits)
  from traverse_reaches [OF assms(1-3), of fst "tap_cell_step I (graph_step G I walk)" "(tg_graph st, tg_tapped st, tg_taps st)", OF gr]
  obtain g tapped taps where "construct_traverse_for_graph G I walk root (tg_graph st, tg_tapped st, tg_taps st) = Some (g, tapped, taps)"
    "nodes_of G g = nodes_of G (tg_graph st) \<union> get_id I ` S"
    "edges_of_graph G g = edges_of_graph G (tg_graph st) \<union> (\<lambda>(x, y). (get_id I x, get_id I y)) ` (walk_rel walk \<inter> S \<times> UNIV)"
    by (auto simp: construct_traverse_for_graph_def)
  then show ?thesis using assms(4) by (simp add: trace_schedule_def toggle_active_def Let_def)
qed

end

section \<open>Properties\<close>

text \<open>
  C40: The one-shot trace of a network in which finitely many items are reachable from the root
  ends, cycles included, and its graph has exactly the reachable items as nodes and the steps of
  the walk between them as edges.
\<close>

theorem trace_once_exact:
  assumes "graphology_laws G" and "S = (walk_rel walk)\<^sup>* `` {root}" and "finite S" and "inj_on (get_id I) S"
  shows "\<exists>g. trace_once G I walk root = Some g \<and> nodes_of G g = get_id I ` S
    \<and> edges_of_graph G g = (\<lambda>(x, y). (get_id I x, get_id I y)) ` (walk_rel walk \<inter> S \<times> UNIV)"
  by (rule graphology_laws.trace_once_graph [OF assms])

definition sample_items :: "nat items" where
  "sample_items = \<lparr>get_id = (\<lambda>x. replicate x CHR ''i''), is_cell = even, is_propagator = odd, item_name = (\<lambda>_. ''CARD|x''),
     item_level = (\<lambda>x. x), item_value = (\<lambda>_. None)\<rparr>"

definition sample_walk :: "nat \<Rightarrow> nat list" where
  "sample_walk x = (if x = 0 then [1] else if x = 1 then [0, 2] else [])"

definition shrunk_walk :: "nat \<Rightarrow> nat list" where
  "shrunk_walk x = []"

lemma sample_reachable: "(walk_rel sample_walk)\<^sup>* `` {0} = {0, 1, 2}"
proof -
  have rel: "walk_rel sample_walk = {(0, 1), (1, 0), (1, 2)}" by (auto simp: walk_rel_def sample_walk_def split: if_splits)
  have "walk_rel sample_walk `` {0, 1, 2} \<subseteq> {0, 1, 2}" by (auto simp: rel)
  then have "(walk_rel sample_walk)\<^sup>* `` {0} \<subseteq> {0, 1, 2}"
    by (metis Image_closed_trancl Image_mono empty_subsetI insert_mono subset_refl)
  moreover have "(0, 1) \<in> (walk_rel sample_walk)\<^sup>*" "(1, 2) \<in> (walk_rel sample_walk)\<^sup>*" by (auto simp: rel)
  then have "{0, 1, 2} \<subseteq> (walk_rel sample_walk)\<^sup>* `` {0}" by (auto intro: rtrancl_trans)
  ultimately show ?thesis by (rule subset_antisym)
qed

lemma sample_items_inj: "inj_on (get_id sample_items) S"
  by (auto simp: sample_items_def inj_on_def)

theorem trace_once_exact_witness:
  "\<exists>g. trace_once list_graphology sample_items sample_walk 0 = Some g
     \<and> nodes_of list_graphology g = {[], ''i'', ''ii''}"
proof -
  have "get_id sample_items ` {0, 1, 2} = {[], ''i'', ''ii''}" by (simp add: sample_items_def numeral_2_eq_2)
  then show ?thesis
    using trace_once_exact [OF list_graph.graphology_laws_axioms sample_reachable [symmetric] _ sample_items_inj] by auto
qed

text \<open>
  A reactive trace starts from the graph of the one before: a rebuild adds the items and steps
  reachable now and removes nothing, so what has left the network stays in the graph it writes.
\<close>

lemma reactive_trace_accumulates:
  assumes "graphology_laws G" and "S = (walk_rel walk)\<^sup>* `` {root}" and "finite S" and "inj_on (get_id I) S" and "\<not> tg_active st"
  shows "\<exists>st'. trace_schedule G I walk root st = Some st' \<and> \<not> tg_active st' \<and> tg_writes st' = tg_writes st @ [tg_graph st']
    \<and> nodes_of G (tg_graph st') = nodes_of G (tg_graph st) \<union> get_id I ` S
    \<and> edges_of_graph G (tg_graph st') = edges_of_graph G (tg_graph st) \<union> (\<lambda>(x, y). (get_id I x, get_id I y)) ` (walk_rel walk \<inter> S \<times> UNIV)"
  by (rule graphology_laws.schedule_graph [OF assms])

end
