(* ===== verification/Logic_Program.thy ===== *)
theory Logic_Program
  imports Logic_Unify
begin

text \<open>
  Datalog programs of \<open>src/compiler/datalog/LogicProgram.ts\<close>: body atoms with predicates, negated
  facts, disjunction and conjunction, the extended resolver and the naive fixpoint. Terms hold
  pattern variables (\<open>Element\<close>), segment variables (\<open>Segment\<close>), JavaScript values and arrays.
  Matching (\<open>unify_internal\<close>, \<open>match_dict_substitute\<close>) and the two plain Datalog engines are the
  package \<open>pmatcher\<close>: parameters of the model. Identity of objects is the parameter \<open>same\<close>; on
  primitive values \<open>===\<close> is written out.
\<close>

section \<open>Terms and facts\<close>

datatype dterm = Element jstring | Segment jstring | Scalar jsval | Items "dterm list"

type_synonym fact = "dterm list"

datatype 'd unified = Unified 'd | UnifyFalse | UnifyUndefined

record 'd matcher =
  match_dict_substitute :: "'d \<Rightarrow> dterm \<Rightarrow> dterm"
  unify_internal :: "dterm \<Rightarrow> dterm \<Rightarrow> 'd \<Rightarrow> 'd unified"
  empty_dict :: 'd

fun strict_eq :: "(dterm \<Rightarrow> dterm \<Rightarrow> bool) \<Rightarrow> dterm \<Rightarrow> dterm \<Rightarrow> bool" where
  "strict_eq same (Scalar a) (Scalar b) =
     (case (a, b) of
        (JNum m, JNum n) \<Rightarrow> num_strict_eq m n
      | (JArr _, _) \<Rightarrow> same (Scalar a) (Scalar b)
      | (JObj _, _) \<Rightarrow> same (Scalar a) (Scalar b)
      | _ \<Rightarrow> a = b)"
| "strict_eq same a b = same a b"

fun is_match_element :: "dterm \<Rightarrow> bool" where
  "is_match_element (Element _) = True"
| "is_match_element _ = False"

fun is_match_segment :: "dterm \<Rightarrow> bool" where
  "is_match_segment (Segment _) = True"
| "is_match_segment _ = False"

fun is_ground :: "dterm \<Rightarrow> bool" where
  "is_ground (Items ts) = list_all is_ground ts"
| "is_ground t = (\<not> (is_match_element t \<or> is_match_segment t))"

fun items :: "dterm \<Rightarrow> dterm list" where
  "items (Items ts) = ts"
| "items _ = []"

definition ground_fact :: "'d matcher \<Rightarrow> dterm list \<Rightarrow> 'd \<Rightarrow> fact option" where
  "ground_fact M head dict =
     (let result = match_dict_substitute M dict (Items head)
      in if is_ground result then Some (items result) else None)"

definition unify_premise :: "'d matcher \<Rightarrow> dterm list \<Rightarrow> fact \<Rightarrow> 'd \<Rightarrow> 'd option" where
  "unify_premise M premise given dict =
     (case unify_internal M (Items premise) (Items given) dict of Unified d \<Rightarrow> Some d | _ \<Rightarrow> None)"

definition fact_equal :: "(dterm \<Rightarrow> dterm \<Rightarrow> bool) \<Rightarrow> fact \<Rightarrow> fact \<Rightarrow> bool" where
  "fact_equal same a b \<longleftrightarrow> length a = length b \<and> list_all2 (strict_eq same) a b"

definition add_if_new :: "(dterm \<Rightarrow> dterm \<Rightarrow> bool) \<Rightarrow> fact \<Rightarrow> fact list \<Rightarrow> bool \<times> fact list" where
  "add_if_new same new facts =
     (if list_ex (\<lambda>f. fact_equal same f new) facts then (False, facts) else (True, facts @ [new]))"

section \<open>Programs\<close>

datatype body_atom =
    Pred dterm "dterm \<Rightarrow> bool"
  | NegFact "dterm list"
  | Or "body_atom list list"
  | And "body_atom list"
  | Atom "dterm list"

record extended_rule =
  rule_head :: "dterm list"
  rule_body :: "body_atom list"

datatype execution_strategy = SemiNaive | Naive | Incremental

record logic_program =
  prog_rules :: "extended_rule list"
  prog_strategy :: execution_strategy

record query_decl =
  query_pattern :: "dterm list"
  query_program :: logic_program

definition StartsWith :: "dterm \<Rightarrow> jstring \<Rightarrow> body_atom" where
  "StartsWith variable prefix = Pred variable (\<lambda>s. case s of Scalar (JStr t) \<Rightarrow> starts_with t prefix | _ \<Rightarrow> False)"

definition Contains :: "dterm \<Rightarrow> jstring \<Rightarrow> body_atom" where
  "Contains variable substr = Pred variable (\<lambda>s. case s of Scalar (JStr t) \<Rightarrow> str_includes t substr | _ \<Rightarrow> False)"

definition Is :: "(dterm \<Rightarrow> dterm \<Rightarrow> bool) \<Rightarrow> dterm \<Rightarrow> dterm \<Rightarrow> body_atom" where
  "Is same variable v = Pred variable (\<lambda>s. strict_eq same s v)"

definition atom :: "jstring \<Rightarrow> dterm list \<Rightarrow> dterm list" where
  "atom pred args = Scalar (JStr pred) # args"

definition make_rule :: "dterm list \<Rightarrow> body_atom list \<Rightarrow> extended_rule" where
  "make_rule head body = \<lparr>rule_head = head, rule_body = body\<rparr>"

definition make_program :: "execution_strategy option \<Rightarrow> extended_rule list \<Rightarrow> logic_program" where
  "make_program strategy rules =
     \<lparr>prog_rules = rules, prog_strategy = (case strategy of None \<Rightarrow> SemiNaive | Some s \<Rightarrow> s)\<rparr>"

definition make_query_decl :: "dterm list \<Rightarrow> logic_program \<Rightarrow> query_decl" where
  "make_query_decl pattern prog = \<lparr>query_pattern = pattern, query_program = prog\<rparr>"

fun body_atom_requires_extended :: "body_atom \<Rightarrow> bool" where
  "body_atom_requires_extended (Pred _ _) = True"
| "body_atom_requires_extended (NegFact _) = True"
| "body_atom_requires_extended (Or branches) = list_ex (list_ex body_atom_requires_extended) branches"
| "body_atom_requires_extended (And atoms) = list_ex body_atom_requires_extended atoms"
| "body_atom_requires_extended (Atom _) = False"

definition is_eq :: "dterm list \<Rightarrow> bool" where
  "is_eq a \<longleftrightarrow> length a = 3 \<and> hd a = Scalar (JStr ''='')"

definition is_neq :: "dterm list \<Rightarrow> bool" where
  "is_neq a \<longleftrightarrow> length a = 3 \<and> hd a = Scalar (JStr ''!='')"

section \<open>The extended resolver\<close>

lemma branch_smaller:
  "branch \<in> set branches \<Longrightarrow> size_list size branch \<le> size_list (size_list size) branches"
  by (induction branches) auto

function resolve_extended ::
    "'d matcher \<Rightarrow> (dterm \<Rightarrow> dterm \<Rightarrow> bool) \<Rightarrow> dterm list \<Rightarrow> body_atom list \<Rightarrow> fact list \<Rightarrow> 'd \<Rightarrow> fact list" where
  "resolve_extended M same head [] facts dict = (case ground_fact M head dict of Some f \<Rightarrow> [f] | None \<Rightarrow> [])"
| "resolve_extended M same head (Pred variable fn # rest) facts dict =
     (let val = match_dict_substitute M dict variable
      in if is_match_element val \<or> is_match_segment val then []
         else if \<not> fn val then []
         else resolve_extended M same head rest facts dict)"
| "resolve_extended M same head (Or branches # rest) facts dict =
     fold (\<lambda>branch results. fold (\<lambda>f results. snd (add_if_new same f results))
         (resolve_extended M same head (branch @ rest) facts dict) results) branches []"
| "resolve_extended M same head (And atoms # rest) facts dict = resolve_extended M same head (atoms @ rest) facts dict"
| "resolve_extended M same head (NegFact template # rest) facts dict =
     (let probe_raw = match_dict_substitute M dict (Items template)
      in if \<not> is_ground probe_raw then []
         else if list_ex (\<lambda>f. fact_equal same f (items probe_raw)) facts then []
         else resolve_extended M same head rest facts dict)"
| "resolve_extended M same head (Atom a # rest) facts dict =
     (if is_eq a
      then (case unify_internal M (match_dict_substitute M dict (a ! 1)) (match_dict_substitute M dict (a ! 2)) dict of
              Unified new_dict \<Rightarrow> resolve_extended M same head rest facts new_dict
            | _ \<Rightarrow> [])
      else if is_neq a
      then (let t1 = match_dict_substitute M dict (a ! 1); t2 = match_dict_substitute M dict (a ! 2)
            in if \<not> is_ground t1 \<or> \<not> is_ground t2 then []
               else if unify_internal M t1 t2 (empty_dict M) = UnifyFalse then resolve_extended M same head rest facts dict
               else [])
      else concat (map (\<lambda>given. case unify_premise M a given dict of
                                 Some new_dict \<Rightarrow> resolve_extended M same head rest facts new_dict
                               | None \<Rightarrow> []) facts))"
  by pat_completeness auto
termination
  by (relation "measure (\<lambda>(M, same, head, premises, facts, dict). size_list size premises)")
    (auto simp: size_list_append dest: branch_smaller)

section \<open>The naive fixpoint\<close>

definition has_extended_atoms :: "extended_rule list \<Rightarrow> bool" where
  "has_extended_atoms rules \<longleftrightarrow> list_ex (\<lambda>r. list_ex body_atom_requires_extended (rule_body r)) rules"

definition add_all :: "(dterm \<Rightarrow> dterm \<Rightarrow> bool) \<Rightarrow> fact list \<Rightarrow> bool \<times> fact list \<Rightarrow> bool \<times> fact list" where
  "add_all same derived s =
     fold (\<lambda>f (changed, all_facts). case add_if_new same f all_facts of (new, all_facts) \<Rightarrow> (changed \<or> new, all_facts)) derived s"

definition naive_step ::
    "'d matcher \<Rightarrow> (dterm \<Rightarrow> dterm \<Rightarrow> bool) \<Rightarrow> extended_rule list \<Rightarrow> fact list \<Rightarrow> bool \<times> fact list" where
  "naive_step M same rules all_facts =
     fold (\<lambda>r (changed, all_facts).
         add_all same (resolve_extended M same (rule_head r) (rule_body r) all_facts (empty_dict M)) (changed, all_facts))
       rules (False, all_facts)"

text \<open>The loop need not end: the result is \<open>None\<close> when it has not ended within \<open>fuel\<close> rounds.\<close>

fun naive_loop ::
    "nat \<Rightarrow> 'd matcher \<Rightarrow> (dterm \<Rightarrow> dterm \<Rightarrow> bool) \<Rightarrow> extended_rule list \<Rightarrow> fact list \<Rightarrow> fact list option" where
  "naive_loop 0 M same rules all_facts = None"
| "naive_loop (Suc fuel) M same rules all_facts =
     (let (changed, all_facts) = naive_step M same rules all_facts
      in if changed then naive_loop fuel M same rules all_facts else Some all_facts)"

definition evaluate_extended_naive ::
    "nat \<Rightarrow> 'd matcher \<Rightarrow> (dterm \<Rightarrow> dterm \<Rightarrow> bool) \<Rightarrow> extended_rule list \<Rightarrow> fact list \<Rightarrow> fact list option" where
  "evaluate_extended_naive fuel M same rules edb = naive_loop fuel M same rules edb"

type_synonym engine = "extended_rule list \<Rightarrow> fact list \<Rightarrow> fact list"

definition evaluate_program ::
    "nat \<Rightarrow> 'd matcher \<Rightarrow> (dterm \<Rightarrow> dterm \<Rightarrow> bool) \<Rightarrow> engine \<Rightarrow> engine \<Rightarrow> logic_program \<Rightarrow> fact list \<Rightarrow> fact list option" where
  "evaluate_program fuel M same semi_naive_datalog naive_datalog prog edb =
     (let has_ext = has_extended_atoms (prog_rules prog)
      in if prog_strategy prog = SemiNaive \<and> \<not> has_ext then Some (semi_naive_datalog (prog_rules prog) edb)
         else if prog_strategy prog = Naive \<and> \<not> has_ext then Some (naive_datalog (prog_rules prog) edb)
         else evaluate_extended_naive fuel M same (prog_rules prog) edb)"

end
