(* ===== verification/Logic_Semantics.thy ===== *)
theory Logic_Semantics
  imports Logic_Program
begin

text \<open>
  The meaning of the programs of \<open>Logic_Program\<close>: instances, least models, and the proof that the
  naive fixpoint ends and computes the least model. It is stated for programs without nested
  arrays whose constants and facts come from a finite set of values on which \<open>===\<close> is equality
  (\<open>NaN\<close> and negative zero are left out). The locale \<open>flat_matching\<close> states the documented
  behaviour of the matcher on such terms; it is interpreted on an association-list matcher.
\<close>

section \<open>Flat terms\<close>

definition good_scalar :: "jsval \<Rightarrow> bool" where
  "good_scalar v = (case v of JNum n \<Rightarrow> n \<noteq> NaN \<and> n \<noteq> NegZero | JArr _ \<Rightarrow> False | JObj _ \<Rightarrow> False | _ \<Rightarrow> True)"

fun term_in :: "jsval set \<Rightarrow> dterm \<Rightarrow> bool" where
  "term_in U (Element _) = True"
| "term_in U (Scalar v) = (v \<in> U)"
| "term_in U _ = False"

definition fact_in :: "jsval set \<Rightarrow> fact \<Rightarrow> bool" where
  "fact_in U f \<longleftrightarrow> set f \<subseteq> Scalar ` U"

text \<open>One side of an equation is a constant.\<close>

definition eq_ok :: "dterm list \<Rightarrow> bool" where
  "eq_ok a \<longleftrightarrow> is_eq a \<longrightarrow> (case a ! 1 of Scalar _ \<Rightarrow> True | _ \<Rightarrow> False) \<or> (case a ! 2 of Scalar _ \<Rightarrow> True | _ \<Rightarrow> False)"

fun atom_in :: "jsval set \<Rightarrow> body_atom \<Rightarrow> bool" where
  "atom_in U (Pred t _) = term_in U t"
| "atom_in U (NegFact ts) = list_all (term_in U) ts"
| "atom_in U (Or bs) = list_all (list_all (atom_in U)) bs"
| "atom_in U (And as) = list_all (atom_in U) as"
| "atom_in U (Atom ts) = (list_all (term_in U) ts \<and> eq_ok ts)"

definition rule_in :: "jsval set \<Rightarrow> extended_rule \<Rightarrow> bool" where
  "rule_in U r \<longleftrightarrow> list_all (term_in U) (rule_head r) \<and> list_all (atom_in U) (rule_body r)"

fun positive :: "body_atom \<Rightarrow> bool" where
  "positive (NegFact _) = False"
| "positive (Or bs) = list_all (list_all positive) bs"
| "positive (And as) = list_all positive as"
| "positive _ = True"

fun vars :: "dterm \<Rightarrow> jstring set" where
  "vars (Element x) = {x}"
| "vars (Items ts) = \<Union> (set (map vars ts))"
| "vars _ = {}"

definition vars_list :: "dterm list \<Rightarrow> jstring set" where
  "vars_list ts = \<Union> (vars ` set ts)"

text \<open>Range restriction in the order of the resolver: tests and heads use bound variables only.\<close>

function safe :: "jstring set \<Rightarrow> body_atom list \<Rightarrow> dterm list \<Rightarrow> bool" where
  "safe B [] head = (vars_list head \<subseteq> B)"
| "safe B (Pred t _ # rest) head = (vars t \<subseteq> B \<and> safe B rest head)"
| "safe B (NegFact ts # rest) head = (vars_list ts \<subseteq> B \<and> safe B rest head)"
| "safe B (Or bs # rest) head = (\<forall>b \<in> set bs. safe B (b @ rest) head)"
| "safe B (And as # rest) head = safe B (as @ rest) head"
| "safe B (Atom a # rest) head =
     (if is_eq a then safe (B \<union> vars (a ! 1) \<union> vars (a ! 2)) rest head
      else if is_neq a then vars (a ! 1) \<subseteq> B \<and> vars (a ! 2) \<subseteq> B \<and> safe B rest head
      else safe (B \<union> vars_list a) rest head)"
  by pat_completeness auto
termination
  by (relation "measure (\<lambda>(B, premises, head). size_list size premises)") (auto simp: size_list_append dest: branch_smaller)

section \<open>Models\<close>

fun dinst :: "(jstring \<Rightarrow> jsval) \<Rightarrow> dterm \<Rightarrow> dterm" where
  "dinst \<sigma> (Element x) = Scalar (\<sigma> x)"
| "dinst \<sigma> t = t"

fun holds :: "fact set \<Rightarrow> (jstring \<Rightarrow> jsval) \<Rightarrow> body_atom \<Rightarrow> bool" where
  "holds F \<sigma> (Pred t p) = p (dinst \<sigma> t)"
| "holds F \<sigma> (NegFact ts) = (map (dinst \<sigma>) ts \<notin> F)"
| "holds F \<sigma> (Or bs) = list_ex (list_all (holds F \<sigma>)) bs"
| "holds F \<sigma> (And as) = list_all (holds F \<sigma>) as"
| "holds F \<sigma> (Atom a) =
     (if is_eq a then dinst \<sigma> (a ! 1) = dinst \<sigma> (a ! 2)
      else if is_neq a then dinst \<sigma> (a ! 1) \<noteq> dinst \<sigma> (a ! 2)
      else map (dinst \<sigma>) a \<in> F)"

definition model_of :: "extended_rule list \<Rightarrow> fact list \<Rightarrow> fact set \<Rightarrow> bool" where
  "model_of rules edb F \<longleftrightarrow> set edb \<subseteq> F
     \<and> (\<forall>r \<in> set rules. \<forall>\<sigma>. list_all (holds F \<sigma>) (rule_body r) \<longrightarrow> map (dinst \<sigma>) (rule_head r) \<in> F)"

definition least_model :: "extended_rule list \<Rightarrow> fact list \<Rightarrow> fact set" where
  "least_model rules edb = \<Inter> {F. model_of rules edb F}"

lemma holds_mono:
  assumes "F \<subseteq> G" and "positive a" and "holds F \<sigma> a"
  shows "holds G \<sigma> a"
  using assms(2,3)
proof (induction a)
  case (Or bs)
  then show ?case by (fastforce simp: list_ex_iff list_all_iff)
next
  case (And as)
  then show ?case by (fastforce simp: list_all_iff)
next
  case (Atom a)
  then show ?case using assms(1) by auto
qed auto

section \<open>Equality of facts\<close>

lemma scalar_eq: "good_scalar v \<Longrightarrow> good_scalar w \<Longrightarrow> strict_eq same (Scalar v) (Scalar w) \<longleftrightarrow> v = w"
  by (cases v; cases w) (auto simp: good_scalar_def num_strict_eq_def map_key_def)

declare strict_eq.simps(1) [simp del]

lemma fact_equal_iff:
  assumes "U \<subseteq> Collect good_scalar" and "fact_in U f" and "fact_in U g"
  shows "fact_equal same f g \<longleftrightarrow> f = g"
proof -
  have "list_all2 (strict_eq same) f g \<longleftrightarrow> f = g"
    using assms(2,3)
  proof (induction f arbitrary: g)
    case (Cons t f)
    then show ?case
    proof (cases g)
      case (Cons u g')
      obtain v w where "t = Scalar v" "u = Scalar w" "v \<in> U" "w \<in> U"
        using Cons.prems Cons by (auto simp: fact_in_def)
      then have "strict_eq same t u \<longleftrightarrow> t = u" using assms(1) scalar_eq [of v w same] by auto
      then show ?thesis using Cons.IH [of g'] Cons.prems Cons by (auto simp: fact_in_def)
    qed simp
  qed auto
  then show ?thesis by (auto simp: fact_equal_def)
qed

lemma add_if_new_flat:
  assumes "U \<subseteq> Collect good_scalar" and "fact_in U f" and "\<forall>g \<in> set fs. fact_in U g"
  shows "add_if_new same f fs = (if f \<in> set fs then (False, fs) else (True, fs @ [f]))"
  using assms(2,3) by (auto simp: add_if_new_def list_ex_iff fact_equal_iff [OF assms(1)])

lemma add_if_new_subset: "set (snd (add_if_new same f fs)) \<subseteq> insert f (set fs) \<and> set fs \<subseteq> set (snd (add_if_new same f fs))"
  by (auto simp: add_if_new_def)

lemma add_results_subset:
  "set (fold (\<lambda>f results. snd (add_if_new same f results)) fs acc) \<subseteq> set fs \<union> set acc"
proof (induction fs arbitrary: acc)
  case (Cons f fs)
  then show ?case using Cons.IH [of "snd (add_if_new same f acc)"] add_if_new_subset [of same f acc] by auto
qed simp

lemma add_results_flat:
  assumes "U \<subseteq> Collect good_scalar" and "\<forall>f \<in> set fs. fact_in U f" and "\<forall>f \<in> set acc. fact_in U f"
  shows "set (fold (\<lambda>f results. snd (add_if_new same f results)) fs acc) = set fs \<union> set acc"
  using assms(2,3)
proof (induction fs arbitrary: acc)
  case (Cons f fs)
  then show ?case by (auto simp: add_if_new_flat [OF assms(1)])
qed simp

lemma or_results_subset:
  "set (fold (\<lambda>b results. fold (\<lambda>f results. snd (add_if_new same f results)) (R b) results) bs acc)
     \<subseteq> (\<Union>b \<in> set bs. set (R b)) \<union> set acc"
proof (induction bs arbitrary: acc)
  case (Cons b bs)
  then show ?case
    using Cons.IH [of "fold (\<lambda>f results. snd (add_if_new same f results)) (R b) acc"] add_results_subset [of same "R b" acc] by auto
qed simp

lemma or_results_flat:
  assumes "U \<subseteq> Collect good_scalar" and "\<forall>b \<in> set bs. \<forall>f \<in> set (R b). fact_in U f" and "\<forall>f \<in> set acc. fact_in U f"
  shows "set (fold (\<lambda>b results. fold (\<lambda>f results. snd (add_if_new same f results)) (R b) results) bs acc)
     = (\<Union>b \<in> set bs. set (R b)) \<union> set acc"
  using assms(2,3)
proof (induction bs arbitrary: acc)
  case (Cons b bs)
  then show ?case by (simp add: add_results_flat [OF assms(1)] ball_Un Un_ac)
qed simp

section \<open>Matching\<close>

text \<open>Bindings as partial maps: what matching a list of flat terms with a ground list gives.\<close>

fun match_args :: "dterm list \<Rightarrow> dterm list \<Rightarrow> (jstring \<rightharpoonup> jsval) \<Rightarrow> (jstring \<rightharpoonup> jsval) option" where
  "match_args [] [] \<beta> = Some \<beta>"
| "match_args (Scalar v # ts) (Scalar w # fs) \<beta> = (if v = w then match_args ts fs \<beta> else None)"
| "match_args (Element x # ts) (Scalar w # fs) \<beta> =
     (case \<beta> x of
        None \<Rightarrow> match_args ts fs (\<beta>(x \<mapsto> w))
      | Some v \<Rightarrow> if v = w then match_args ts fs \<beta> else None)"
| "match_args _ _ \<beta> = None"

definition agrees :: "('d \<Rightarrow> jstring \<rightharpoonup> jsval) \<Rightarrow> 'd unified \<Rightarrow> (jstring \<rightharpoonup> jsval) option \<Rightarrow> bool" where
  "agrees look u \<beta> = (case u of Unified d \<Rightarrow> \<beta> = Some (look d) | _ \<Rightarrow> \<beta> = None)"

locale flat_matching =
  fixes M :: "'d matcher" and look :: "'d \<Rightarrow> jstring \<rightharpoonup> jsval"
  assumes subst_scalar: "match_dict_substitute M d (Scalar v) = Scalar v"
    and subst_element: "match_dict_substitute M d (Element x) = (case look d x of None \<Rightarrow> Element x | Some v \<Rightarrow> Scalar v)"
    and subst_items: "match_dict_substitute M d (Items ts) = Items (map (match_dict_substitute M d) ts)"
    and look_empty: "look (empty_dict M) = Map.empty"
    and unify_items: "list_all (term_in (Collect good_scalar)) ts \<Longrightarrow> fact_in (Collect good_scalar) fs \<Longrightarrow>
        agrees look (unify_internal M (Items ts) (Items fs) d) (match_args ts fs (look d))"
    and unify_right: "term_in (Collect good_scalar) t \<Longrightarrow> good_scalar v \<Longrightarrow>
        agrees look (unify_internal M t (Scalar v) d) (match_args [t] [Scalar v] (look d))"
    and unify_left: "term_in (Collect good_scalar) t \<Longrightarrow> good_scalar v \<Longrightarrow>
        agrees look (unify_internal M (Scalar v) t d) (match_args [t] [Scalar v] (look d))"
    and unify_clash: "good_scalar v \<Longrightarrow> good_scalar w \<Longrightarrow> unify_internal M (Scalar v) (Scalar w) d = UnifyFalse \<longleftrightarrow> v \<noteq> w"

definition extends :: "(jstring \<Rightarrow> jsval) \<Rightarrow> (jstring \<rightharpoonup> jsval) \<Rightarrow> bool" where
  "extends \<sigma> \<beta> \<longleftrightarrow> (\<forall>x v. \<beta> x = Some v \<longrightarrow> \<sigma> x = v)"

lemma match_args_grows: "match_args ts fs \<beta> = Some \<beta>' \<Longrightarrow> \<beta> \<subseteq>\<^sub>m \<beta>'"
proof (induction ts fs \<beta> rule: match_args.induct)
  case (3 x ts w fs \<beta>)
  show ?case
  proof (cases "\<beta> x")
    case None
    then have "\<beta>(x \<mapsto> w) \<subseteq>\<^sub>m \<beta>'" using 3(3) by (intro 3(1)) (simp_all del: fun_upd_apply)
    moreover have "\<beta> \<subseteq>\<^sub>m \<beta>(x \<mapsto> w)" using None by (auto simp: map_le_def)
    ultimately show ?thesis by (rule map_le_trans [rotated])
  next
    case (Some v)
    then show ?thesis using 3 by (simp split: if_splits)
  qed
qed (auto split: if_splits)

lemma match_args_sound: "match_args ts fs \<beta> = Some \<beta>' \<Longrightarrow> extends \<sigma> \<beta>' \<Longrightarrow> map (dinst \<sigma>) ts = fs"
proof (induction ts fs \<beta> rule: match_args.induct)
  case (3 x ts w fs \<beta>)
  show ?case
  proof (cases "\<beta> x")
    case None
    then have m: "match_args ts fs (\<beta>(x \<mapsto> w)) = Some \<beta>'" using 3 by simp
    have "\<beta>' x = Some w" using match_args_grows [OF m] by (auto simp: map_le_def)
    then show ?thesis using 3(1) [OF None m 3(4)] 3(4) by (simp add: extends_def)
  next
    case (Some v)
    then have m: "v = w" "match_args ts fs \<beta> = Some \<beta>'" using 3 by (simp_all split: if_splits)
    have "\<beta>' x = Some w" using match_args_grows [OF m(2)] Some m(1) by (metis domI map_le_def)
    then show ?thesis using 3(2) [OF Some m 3(4)] 3(4) m(1) by (simp add: extends_def)
  qed
qed (auto split: if_splits)

lemma match_args_complete:
  assumes "list_all (term_in U) ts" and "extends \<sigma> \<beta>"
  shows "\<exists>\<beta>'. match_args ts (map (dinst \<sigma>) ts) \<beta> = Some \<beta>' \<and> extends \<sigma> \<beta>' \<and> dom \<beta>' = dom \<beta> \<union> vars_list ts"
  using assms
proof (induction ts arbitrary: \<beta>)
  case Nil
  then show ?case by (simp add: vars_list_def)
next
  case (Cons t ts)
  show ?case
  proof (cases t)
    case (Element x)
    show ?thesis
    proof (cases "\<beta> x")
      case None
      have "extends \<sigma> (\<beta>(x \<mapsto> \<sigma> x))" using Cons.prems(2) by (auto simp: extends_def)
      then show ?thesis using Cons.IH [of "\<beta>(x \<mapsto> \<sigma> x)"] Cons.prems(1) None Element
        by (auto simp: vars_list_def simp del: fun_upd_apply)
    next
      case (Some v)
      then have "\<sigma> x = v" "x \<in> dom \<beta>" using Cons.prems(2) by (auto simp: extends_def)
      then show ?thesis using Cons.IH [of \<beta>] Cons.prems Some Element by (auto simp: vars_list_def)
    qed
  next
    case (Scalar v)
    then show ?thesis using Cons.IH [of \<beta>] Cons.prems by (auto simp: vars_list_def)
  qed (use Cons.prems in auto)
qed

lemma match_args_ran:
  "match_args ts fs \<beta> = Some \<beta>' \<Longrightarrow> fact_in U fs \<Longrightarrow> ran \<beta> \<subseteq> U \<Longrightarrow> ran \<beta>' \<subseteq> U"
proof (induction ts fs \<beta> rule: match_args.induct)
  case (3 x ts w fs \<beta>)
  show ?case
  proof (cases "\<beta> x")
    case None
    have "ran (\<beta>(x \<mapsto> w)) \<subseteq> U" using 3(4,5) None by (auto simp: fact_in_def)
    moreover have "fact_in U fs" using 3(4) by (simp add: fact_in_def)
    ultimately show ?thesis using 3(1) [OF None] 3(3) None by (simp del: fun_upd_apply)
  next
    case (Some v)
    then show ?thesis using 3 by (auto simp: fact_in_def split: if_splits)
  qed
qed (auto simp: fact_in_def split: if_splits)

section \<open>The resolver\<close>

lemma premises_induct [case_names Nil Pred NegFact Or And Atom]:
  assumes "P []"
    and "\<And>t p rest. P rest \<Longrightarrow> P (Pred t p # rest)"
    and "\<And>ts rest. P rest \<Longrightarrow> P (NegFact ts # rest)"
    and "\<And>bs rest. (\<And>b. b \<in> set bs \<Longrightarrow> P (b @ rest)) \<Longrightarrow> P (Or bs # rest)"
    and "\<And>as rest. P (as @ rest) \<Longrightarrow> P (And as # rest)"
    and "\<And>a rest. P rest \<Longrightarrow> P (Atom a # rest)"
  shows "P ps"
proof (induction ps rule: measure_induct_rule [of "size_list size"])
  case (less ps)
  show ?case
  proof (cases ps)
    case (Cons a rest)
    have IH: "P q" if "size_list size q < size_list size (a # rest)" for q using less [of q] that Cons by simp
    show ?thesis
    proof (cases a)
      case (Pred u p)
      show ?thesis unfolding Cons Pred by (rule assms(2), rule IH) (simp add: Pred)
    next
      case (NegFact ts)
      show ?thesis unfolding Cons NegFact by (rule assms(3), rule IH) (simp add: NegFact)
    next
      case (Or bs)
      show ?thesis unfolding Cons Or by (rule assms(4), rule IH) (auto simp: Or size_list_append dest: branch_smaller)
    next
      case (And as)
      show ?thesis unfolding Cons And by (rule assms(5), rule IH) (simp add: And size_list_append)
    next
      case (Atom ts)
      show ?thesis unfolding Cons Atom by (rule assms(6), rule IH) (simp add: Atom)
    qed
  qed (simp add: assms(1))
qed

context flat_matching
begin

lemma subst_ground:
  assumes "term_in U t" and "extends \<sigma> (look d)" and "vars t \<subseteq> dom (look d) \<or> is_ground (match_dict_substitute M d t)"
  shows "match_dict_substitute M d t = dinst \<sigma> t \<and> is_ground (match_dict_substitute M d t)"
  using assms by (cases t) (auto simp: subst_scalar subst_element extends_def split: option.splits)

lemma subst_bound:
  assumes "term_in U t"
  shows "is_ground (match_dict_substitute M d t) \<longleftrightarrow> vars t \<subseteq> dom (look d)"
    and "is_match_element (match_dict_substitute M d t) \<or> is_match_segment (match_dict_substitute M d t) \<longleftrightarrow> \<not> vars t \<subseteq> dom (look d)"
  using assms by (cases t; auto simp: subst_scalar subst_element split: option.splits)+

lemma subst_list_ground:
  assumes "list_all (term_in U) ts" and "extends \<sigma> (look d)"
  shows "is_ground (match_dict_substitute M d (Items ts)) \<longleftrightarrow> vars_list ts \<subseteq> dom (look d)"
    and "vars_list ts \<subseteq> dom (look d) \<Longrightarrow> items (match_dict_substitute M d (Items ts)) = map (dinst \<sigma>) ts"
proof -
  show g: "is_ground (match_dict_substitute M d (Items ts)) \<longleftrightarrow> vars_list ts \<subseteq> dom (look d)"
    using assms(1) by (induction ts) (auto simp: subst_items vars_list_def subst_bound(1))
  assume "vars_list ts \<subseteq> dom (look d)"
  have "match_dict_substitute M d t = dinst \<sigma> t" if "t \<in> set ts" for t
  proof -
    have "vars t \<subseteq> dom (look d)" using \<open>vars_list ts \<subseteq> dom (look d)\<close> that by (auto simp: vars_list_def)
    moreover have "term_in U t" using assms(1) that by (simp add: list_all_iff)
    ultimately show ?thesis using subst_ground [OF _ assms(2)] by blast
  qed
  then show "items (match_dict_substitute M d (Items ts)) = map (dinst \<sigma>) ts" by (simp add: subst_items)
qed

text \<open>What an equation of two substituted sides does.\<close>

lemma eq_step:
  assumes "U \<subseteq> Collect good_scalar" and "term_in U s" and "term_in U t"
    and "(case s of Scalar _ \<Rightarrow> True | _ \<Rightarrow> False) \<or> (case t of Scalar _ \<Rightarrow> True | _ \<Rightarrow> False)" and "ran (look d) \<subseteq> U"
  shows "\<exists>s' v. term_in U s' \<and> v \<in> U \<and> vars s' \<inter> dom (look d) = {} \<and> vars s' \<subseteq> vars s \<union> vars t
    \<and> vars s \<union> vars t \<subseteq> vars s' \<union> dom (look d)
    \<and> agrees look (unify_internal M (match_dict_substitute M d s) (match_dict_substitute M d t) d) (match_args [s'] [Scalar v] (look d))
    \<and> (\<forall>\<sigma>. extends \<sigma> (look d) \<longrightarrow> (dinst \<sigma> s = dinst \<sigma> t \<longleftrightarrow> dinst \<sigma> s' = Scalar v))"
proof -
  have sub: "(\<exists>v. match_dict_substitute M d u = Scalar v \<and> v \<in> U \<and> vars u \<subseteq> dom (look d) \<and> (\<forall>\<sigma>. extends \<sigma> (look d) \<longrightarrow> dinst \<sigma> u = Scalar v))
      \<or> (\<exists>x. u = Element x \<and> match_dict_substitute M d u = Element x \<and> look d x = None)" if "term_in U u" for u
  proof (cases u)
    case (Element x)
    show ?thesis
    proof (cases "look d x")
      case (Some v)
      then have "v \<in> U" using assms(5) by (auto intro: ranI)
      then show ?thesis using Element Some by (auto simp: subst_element extends_def)
    qed (simp add: Element subst_element)
  next
    case (Scalar v)
    then show ?thesis using that by (simp add: subst_scalar)
  qed (use that in simp_all)
  have const: "match_dict_substitute M d u = u" if "case u of Scalar _ \<Rightarrow> True | _ \<Rightarrow> False" for u
    using that by (cases u) (simp_all add: subst_scalar)
  have good: "term_in (Collect good_scalar) u" if "term_in U u" for u
    using that assms(1) by (cases u) auto
  show ?thesis
  proof (cases "\<exists>v. match_dict_substitute M d t = Scalar v")
    case True
    then obtain v where v: "match_dict_substitute M d t = Scalar v" "v \<in> U" "vars t \<subseteq> dom (look d)"
      "\<And>\<sigma>. extends \<sigma> (look d) \<Longrightarrow> dinst \<sigma> t = Scalar v" using sub [OF assms(3)] by auto
    have gv: "good_scalar v" using v(2) assms(1) by auto
    from sub [OF assms(2)] show ?thesis
    proof (elim disjE exE conjE)
      fix w assume w: "match_dict_substitute M d s = Scalar w" "w \<in> U" "vars s \<subseteq> dom (look d)"
        "\<forall>\<sigma>. extends \<sigma> (look d) \<longrightarrow> dinst \<sigma> s = Scalar w"
      then show ?thesis
        using v gv unify_right [of "Scalar w" v d] good [of "Scalar w"] by (intro exI [of _ "Scalar w"] exI [of _ v]) auto
    next
      fix x assume "s = Element x" "match_dict_substitute M d s = Element x" "look d x = None"
      then show ?thesis
        using v gv unify_right [of "Element x" v d] by (intro exI [of _ "Element x"] exI [of _ v]) auto
    qed
  next
    case False
    then obtain x where x: "t = Element x" "match_dict_substitute M d t = Element x" "look d x = None"
      using sub [OF assms(3)] by auto
    then obtain v where v: "s = Scalar v" using assms(4) by (cases s) auto
    then have "v \<in> U" "good_scalar v" using assms(1,2) by auto
    then show ?thesis
      using x v unify_left [of "Element x" v d] by (intro exI [of _ "Element x"] exI [of _ v]) (auto simp: subst_scalar)
  qed
qed

lemma premise_step:
  assumes "U \<subseteq> Collect good_scalar" and "list_all (term_in U) a" and "fact_in U g"
  shows "case unify_premise M a g d of
      Some d' \<Rightarrow> match_args a g (look d) = Some (look d') | None \<Rightarrow> match_args a g (look d) = None"
proof -
  have "list_all (term_in (Collect good_scalar)) a"
    using assms(1,2) by (auto simp: list_all_iff) (metis mem_Collect_eq subsetD term_in.elims(2) term_in.simps(1,2))
  moreover have "fact_in (Collect good_scalar) g" using assms(1,3) unfolding fact_in_def by (meson image_mono subset_trans)
  ultimately show ?thesis
    using unify_items [of a g d] by (auto simp: unify_premise_def agrees_def split: unified.splits)
qed

lemma extends_le: "extends \<sigma> \<beta>' \<Longrightarrow> \<beta> \<subseteq>\<^sub>m \<beta>' \<Longrightarrow> extends \<sigma> \<beta>"
  by (auto simp: extends_def map_le_def) (metis domI)

lemma dinst_in: "range \<sigma> \<subseteq> U \<Longrightarrow> list_all (term_in U) ts \<Longrightarrow> fact_in U (map (dinst \<sigma>) ts)"
proof (induction ts)
  case (Cons t ts)
  then have "\<sigma> x \<in> U" for x by blast
  with Cons show ?case by (cases t) (simp_all add: fact_in_def)
qed (simp add: fact_in_def)

lemma known_iff:
  assumes "U \<subseteq> Collect good_scalar" and "fact_in U f" and "\<forall>g \<in> set facts. fact_in U g"
  shows "list_ex (\<lambda>g. fact_equal same g f) facts \<longleftrightarrow> f \<in> set facts"
  using assms(2,3) by (auto simp: list_ex_iff fact_equal_iff [OF assms(1)])

lemma resolve_sound:
  assumes U: "U \<subseteq> Collect good_scalar" "u0 \<in> U" and "list_all (term_in U) head" and facts: "\<forall>g \<in> set facts. fact_in U g"
    and "list_all (atom_in U) ps" and "ran (look d) \<subseteq> U" and "f \<in> set (resolve_extended M same head ps facts d)"
  shows "\<exists>\<sigma>. range \<sigma> \<subseteq> U \<and> extends \<sigma> (look d) \<and> list_all (holds (set facts) \<sigma>) ps \<and> f = map (dinst \<sigma>) head"
  using assms(5-7)
proof (induction ps arbitrary: d rule: premises_induct)
  case Nil
  define \<sigma> where "\<sigma> = (\<lambda>x. case look d x of Some v \<Rightarrow> v | None \<Rightarrow> u0)"
  have \<sigma>: "extends \<sigma> (look d)" by (simp add: \<sigma>_def extends_def)
  have "\<sigma> x \<in> U" for x using Nil(2) U(2) by (auto simp: \<sigma>_def intro: ranI split: option.split)
  moreover have "f = map (dinst \<sigma>) head"
    using Nil(3) subst_list_ground [OF assms(3) \<sigma>] by (auto simp: ground_fact_def Let_def split: if_splits)
  ultimately show ?case using \<sigma> by auto
next
  case (Pred t p rest)
  let ?v = "match_dict_substitute M d t"
  have t: "term_in U t" using Pred.prems by simp
  have run: "vars t \<subseteq> dom (look d)" "p ?v" "f \<in> set (resolve_extended M same head rest facts d)"
    using Pred.prems(3) subst_bound(2) [OF t, of d] by (auto simp: Let_def split: if_splits)
  from Pred.IH [OF _ Pred.prems(2) run(3)] Pred.prems(1) obtain \<sigma> where \<sigma>: "range \<sigma> \<subseteq> U" "extends \<sigma> (look d)"
    "list_all (holds (set facts) \<sigma>) rest" "f = map (dinst \<sigma>) head" by auto
  then show ?case using run subst_ground [OF t \<sigma>(2)] by auto
next
  case (NegFact ts rest)
  have ts: "list_all (term_in U) ts" using NegFact.prems by simp
  have run: "is_ground (match_dict_substitute M d (Items ts))" "f \<in> set (resolve_extended M same head rest facts d)"
    "\<not> list_ex (\<lambda>g. fact_equal same g (items (match_dict_substitute M d (Items ts)))) facts"
    using NegFact.prems(3) by (auto simp: Let_def split: if_splits)
  from NegFact.IH [OF _ NegFact.prems(2) run(2)] NegFact.prems(1) obtain \<sigma> where \<sigma>: "range \<sigma> \<subseteq> U" "extends \<sigma> (look d)"
    "list_all (holds (set facts) \<sigma>) rest" "f = map (dinst \<sigma>) head" by auto
  have "items (match_dict_substitute M d (Items ts)) = map (dinst \<sigma>) ts"
    using subst_list_ground [OF ts \<sigma>(2)] run(1) by simp
  then have "map (dinst \<sigma>) ts \<notin> set facts" using run(3) known_iff [OF U(1) dinst_in [OF \<sigma>(1) ts] facts] by simp
  then show ?case using \<sigma> by auto
next
  case (Or bs rest)
  then obtain b where b: "b \<in> set bs" "f \<in> set (resolve_extended M same head (b @ rest) facts d)"
    using or_results_subset [of same "\<lambda>b. resolve_extended M same head (b @ rest) facts d" bs "[]"] by auto
  have "list_all (atom_in U) (b @ rest)" using Or.prems(1) b(1) by (auto simp: list_all_iff)
  from Or.IH [OF b(1) this Or.prems(2) b(2)] show ?case using b(1) by (auto simp: list_ex_iff)
next
  case (And as rest)
  from And.IH [OF _ And.prems(2)] And.prems(1,3) show ?case by auto
next
  case (Atom a rest)
  have a: "list_all (term_in U) a" "eq_ok a" "list_all (atom_in U) rest" using Atom.prems(1) by simp_all
  show ?case
  proof (cases "is_eq a")
    case True
    then obtain s t where st: "a ! 1 = s" "a ! 2 = t" "term_in U s" "term_in U t"
      using a(1) by (auto simp: is_eq_def list_all_length)
    have c: "(case s of Scalar _ \<Rightarrow> True | _ \<Rightarrow> False) \<or> (case t of Scalar _ \<Rightarrow> True | _ \<Rightarrow> False)"
      using a(2) True st by (simp add: eq_ok_def)
    from eq_step [OF U(1) st(3,4) c Atom.prems(2)] obtain s' v where e: "v \<in> U"
      "agrees look (unify_internal M (match_dict_substitute M d s) (match_dict_substitute M d t) d) (match_args [s'] [Scalar v] (look d))"
      "\<And>\<sigma>. extends \<sigma> (look d) \<Longrightarrow> dinst \<sigma> s = dinst \<sigma> t \<longleftrightarrow> dinst \<sigma> s' = Scalar v" by blast
    from Atom.prems(3) True obtain d' where d': "unify_internal M (match_dict_substitute M d s) (match_dict_substitute M d t) d = Unified d'"
      "f \<in> set (resolve_extended M same head rest facts d')"
      by (cases "unify_internal M (match_dict_substitute M d s) (match_dict_substitute M d t) d") (auto simp: st simp del: One_nat_def)
    have m: "match_args [s'] [Scalar v] (look d) = Some (look d')" using e(2) d'(1) by (simp add: agrees_def)
    have "ran (look d') \<subseteq> U" by (rule match_args_ran [OF m _ Atom.prems(2)]) (use e(1) in \<open>simp add: fact_in_def\<close>)
    from Atom.IH [OF a(3) this d'(2)] obtain \<sigma> where \<sigma>: "range \<sigma> \<subseteq> U" "extends \<sigma> (look d')"
      "list_all (holds (set facts) \<sigma>) rest" "f = map (dinst \<sigma>) head" by blast
    have ext: "extends \<sigma> (look d)" by (rule extends_le [OF \<sigma>(2) match_args_grows [OF m]])
    have "dinst \<sigma> s = dinst \<sigma> t" using match_args_sound [OF m \<sigma>(2)] e(3) [OF ext] by simp
    then show ?thesis using \<sigma> ext True st by (auto simp del: One_nat_def)
  next
    case noteq: False
    show ?thesis
    proof (cases "is_neq a")
      case True
      then obtain s t where st: "a ! 1 = s" "a ! 2 = t" "term_in U s" "term_in U t"
        using a(1) by (auto simp: is_neq_def list_all_length)
      let ?s = "match_dict_substitute M d s" and ?t = "match_dict_substitute M d t"
      have run: "is_ground ?s" "is_ground ?t" "unify_internal M ?s ?t (empty_dict M) = UnifyFalse"
        "f \<in> set (resolve_extended M same head rest facts d)"
        using Atom.prems(3) noteq True by (auto simp: st Let_def simp del: One_nat_def split: if_splits)
      from Atom.IH [OF a(3) Atom.prems(2) run(4)] obtain \<sigma> where \<sigma>: "range \<sigma> \<subseteq> U" "extends \<sigma> (look d)"
        "list_all (holds (set facts) \<sigma>) rest" "f = map (dinst \<sigma>) head" by blast
      have g: "?s = dinst \<sigma> s" "?t = dinst \<sigma> t" using subst_ground [OF st(3) \<sigma>(2)] subst_ground [OF st(4) \<sigma>(2)] run by auto
      have "fact_in U [dinst \<sigma> s]" "fact_in U [dinst \<sigma> t]"
        using dinst_in [OF \<sigma>(1), of "[s]"] dinst_in [OF \<sigma>(1), of "[t]"] st by simp_all
      then obtain v w where vw: "dinst \<sigma> s = Scalar v" "dinst \<sigma> t = Scalar w" "v \<in> U" "w \<in> U" by (auto simp: fact_in_def)
      have "v \<noteq> w" using unify_clash [of v w "empty_dict M"] vw run(3) U(1) by (auto simp: g)
      then have "holds (set facts) \<sigma> (Atom a)" using noteq True st vw by (simp del: One_nat_def)
      then show ?thesis using \<sigma> by (intro exI [of _ \<sigma>]) simp
    next
      case False
      then obtain g where g0: "g \<in> set facts"
        "f \<in> set (case unify_premise M a g d of Some d' \<Rightarrow> resolve_extended M same head rest facts d' | None \<Rightarrow> [])"
        using Atom.prems(3) noteq by auto
      then obtain d' where gd: "g \<in> set facts" "unify_premise M a g d = Some d'" "f \<in> set (resolve_extended M same head rest facts d')"
        by (cases "unify_premise M a g d") auto
      have g: "fact_in U g" using facts gd(1) by blast
      have m: "match_args a g (look d) = Some (look d')" using premise_step [OF U(1) a(1) g, of d] gd(2) by simp
      from Atom.IH [OF a(3) match_args_ran [OF m g Atom.prems(2)] gd(3)] obtain \<sigma> where \<sigma>: "range \<sigma> \<subseteq> U" "extends \<sigma> (look d')"
        "list_all (holds (set facts) \<sigma>) rest" "f = map (dinst \<sigma>) head" by blast
      have "extends \<sigma> (look d)" by (rule extends_le [OF \<sigma>(2) match_args_grows [OF m]])
      moreover have "map (dinst \<sigma>) a = g" by (rule match_args_sound [OF m \<sigma>(2)])
      ultimately show ?thesis using \<sigma> noteq False gd(1) by auto
    qed
  qed
qed

lemma resolve_in:
  assumes "U \<subseteq> Collect good_scalar" and "u0 \<in> U" and "list_all (term_in U) head" and "\<forall>g \<in> set facts. fact_in U g"
    and "list_all (atom_in U) ps" and "ran (look d) \<subseteq> U" and "f \<in> set (resolve_extended M same head ps facts d)"
  shows "fact_in U f"
  using resolve_sound [OF assms] dinst_in [OF _ assms(3)] by blast

lemma dinst_bound:
  assumes "term_in U t" and "vars t \<subseteq> dom (look d)" and "extends \<sigma> (look d)" and "ran (look d) \<subseteq> U"
  shows "\<exists>v \<in> U. dinst \<sigma> t = Scalar v"
  using assms by (cases t) (auto simp: extends_def intro: ranI)

lemma dinst_list_bound:
  assumes "list_all (term_in U) ts" and "vars_list ts \<subseteq> dom (look d)" and "extends \<sigma> (look d)" and "ran (look d) \<subseteq> U"
  shows "fact_in U (map (dinst \<sigma>) ts)"
proof -
  have "dinst \<sigma> t \<in> Scalar ` U" if "t \<in> set ts" for t
  proof -
    have "term_in U t" "vars t \<subseteq> dom (look d)" using assms(1,2) that by (auto simp: list_all_iff vars_list_def)
    from dinst_bound [OF this assms(3,4)] show ?thesis by auto
  qed
  then show ?thesis by (auto simp: fact_in_def)
qed

lemma resolve_complete:
  assumes U: "U \<subseteq> Collect good_scalar" "u0 \<in> U" and head: "list_all (term_in U) head" and facts: "\<forall>g \<in> set facts. fact_in U g"
    and "list_all (atom_in U) ps" and "ran (look d) \<subseteq> U" and "safe (dom (look d)) ps head" and "extends \<sigma> (look d)"
    and "list_all (holds (set facts) \<sigma>) ps"
  shows "map (dinst \<sigma>) head \<in> set (resolve_extended M same head ps facts d)"
  using assms(5-9)
proof (induction ps arbitrary: d rule: premises_induct)
  case Nil
  then show ?case using subst_list_ground [OF head Nil(4)] by (simp add: ground_fact_def Let_def)
next
  case (Pred t p rest)
  have t: "term_in U t" "vars t \<subseteq> dom (look d)" using Pred.prems by simp_all
  have "map (dinst \<sigma>) head \<in> set (resolve_extended M same head rest facts d)" by (rule Pred.IH) (use Pred.prems in simp_all)
  moreover have "p (match_dict_substitute M d t)" using subst_ground [OF t(1) Pred.prems(4)] t(2) Pred.prems(5) by simp
  ultimately show ?case using subst_bound(2) [OF t(1), of d] t(2) by (auto simp: Let_def)
next
  case (NegFact ts rest)
  have ts: "list_all (term_in U) ts" "vars_list ts \<subseteq> dom (look d)" using NegFact.prems by simp_all
  have "map (dinst \<sigma>) head \<in> set (resolve_extended M same head rest facts d)" by (rule NegFact.IH) (use NegFact.prems in simp_all)
  moreover have "map (dinst \<sigma>) ts \<notin> set facts" using NegFact.prems(5) by simp
  ultimately show ?case
    using subst_list_ground [OF ts(1) NegFact.prems(4)] ts(2)
      known_iff [OF U(1) dinst_list_bound [OF ts NegFact.prems(4,2)] facts] by (simp add: Let_def)
next
  case (Or bs rest)
  obtain b where b: "b \<in> set bs" "list_all (holds (set facts) \<sigma>) b" using Or.prems(5) by (auto simp: list_ex_iff)
  have in_b: "list_all (atom_in U) (b' @ rest)" if "b' \<in> set bs" for b' using Or.prems(1) that by (auto simp: list_all_iff)
  have "map (dinst \<sigma>) head \<in> set (resolve_extended M same head (b @ rest) facts d)"
    by (rule Or.IH [OF b(1) in_b [OF b(1)] Or.prems(2)]) (use Or.prems b in auto)
  moreover have "\<forall>b' \<in> set bs. \<forall>f \<in> set (resolve_extended M same head (b' @ rest) facts d). fact_in U f"
    using resolve_in [OF U head facts in_b Or.prems(2)] by blast
  ultimately show ?case
    using b(1) or_results_flat [OF U(1), of bs "\<lambda>b. resolve_extended M same head (b @ rest) facts d" "[]" same] by auto
next
  case (And as rest)
  have "map (dinst \<sigma>) head \<in> set (resolve_extended M same head (as @ rest) facts d)"
    by (rule And.IH) (use And.prems in simp_all)
  then show ?case by simp
next
  case (Atom a rest)
  have a: "list_all (term_in U) a" "eq_ok a" "list_all (atom_in U) rest" and rest: "list_all (holds (set facts) \<sigma>) rest"
    using Atom.prems by simp_all
  note ext = Atom.prems(4)
  show ?case
  proof (cases "is_eq a")
    case True
    then obtain s t where st: "a ! 1 = s" "a ! 2 = t" "term_in U s" "term_in U t"
      using a(1) by (auto simp: is_eq_def list_all_length)
    have c: "(case s of Scalar _ \<Rightarrow> True | _ \<Rightarrow> False) \<or> (case t of Scalar _ \<Rightarrow> True | _ \<Rightarrow> False)"
      using a(2) True st by (simp add: eq_ok_def)
    from eq_step [OF U(1) st(3,4) c Atom.prems(2)] obtain s' v where e: "term_in U s'" "v \<in> U"
      "vars s' \<subseteq> vars s \<union> vars t" "vars s \<union> vars t \<subseteq> vars s' \<union> dom (look d)"
      "agrees look (unify_internal M (match_dict_substitute M d s) (match_dict_substitute M d t) d) (match_args [s'] [Scalar v] (look d))"
      "dinst \<sigma> s = dinst \<sigma> t \<longleftrightarrow> dinst \<sigma> s' = Scalar v" using ext by blast
    have "dinst \<sigma> s' = Scalar v" using Atom.prems(5) True st e(6) by (simp del: One_nat_def)
    then obtain \<beta> where \<beta>: "match_args [s'] [Scalar v] (look d) = Some \<beta>" "extends \<sigma> \<beta>" "dom \<beta> = dom (look d) \<union> vars_list [s']"
      using match_args_complete [of U "[s']" \<sigma> "look d"] e(1) ext by auto
    then obtain d' where d': "unify_internal M (match_dict_substitute M d s) (match_dict_substitute M d t) d = Unified d'" "look d' = \<beta>"
      using e(5) by (auto simp: agrees_def split: unified.splits)
    have "dom (look d') = dom (look d) \<union> vars s \<union> vars t" using \<beta>(3) d'(2) e(3,4) by (auto simp: vars_list_def)
    then have "safe (dom (look d')) rest head" using Atom.prems(3) True st by (simp del: One_nat_def)
    moreover have "ran (look d') \<subseteq> U" unfolding d'(2)
      by (rule match_args_ran [OF \<beta>(1) _ Atom.prems(2)]) (use e(2) in \<open>simp add: fact_in_def\<close>)
    ultimately have "map (dinst \<sigma>) head \<in> set (resolve_extended M same head rest facts d')"
      using Atom.IH [OF a(3) _ _ _ rest] \<beta>(2) d'(2) by simp
    then show ?thesis using True d'(1) st by (simp del: One_nat_def)
  next
    case noteq: False
    show ?thesis
    proof (cases "is_neq a")
      case True
      then obtain s t where st: "a ! 1 = s" "a ! 2 = t" "term_in U s" "term_in U t"
        using a(1) by (auto simp: is_neq_def list_all_length)
      have b: "vars s \<subseteq> dom (look d)" "vars t \<subseteq> dom (look d)" "safe (dom (look d)) rest head"
        using Atom.prems(3) noteq True st by (simp_all del: One_nat_def)
      obtain v w where vw: "dinst \<sigma> s = Scalar v" "v \<in> U" "dinst \<sigma> t = Scalar w" "w \<in> U"
        using dinst_bound [OF st(3) b(1) ext Atom.prems(2)] dinst_bound [OF st(4) b(2) ext Atom.prems(2)] by auto
      have g: "match_dict_substitute M d s = Scalar v" "match_dict_substitute M d t = Scalar w"
        using subst_ground [OF st(3) ext] subst_ground [OF st(4) ext] b vw by auto
      have "v \<noteq> w" using Atom.prems(5) noteq True st vw by (auto simp del: One_nat_def)
      then have "unify_internal M (Scalar v) (Scalar w) (empty_dict M) = UnifyFalse" using unify_clash vw U(1) by auto
      moreover have "map (dinst \<sigma>) head \<in> set (resolve_extended M same head rest facts d)"
        by (rule Atom.IH [OF a(3) Atom.prems(2) b(3) ext rest])
      ultimately show ?thesis using noteq True st g by (simp add: Let_def del: One_nat_def)
    next
      case False
      let ?g = "map (dinst \<sigma>) a"
      have mem: "?g \<in> set facts" using Atom.prems(5) noteq False by simp
      then have g: "fact_in U ?g" using facts by blast
      obtain \<beta> where \<beta>: "match_args a ?g (look d) = Some \<beta>" "extends \<sigma> \<beta>" "dom \<beta> = dom (look d) \<union> vars_list a"
        using match_args_complete [OF a(1) ext] by blast
      then obtain d' where d': "unify_premise M a ?g d = Some d'" "look d' = \<beta>"
        using premise_step [OF U(1) a(1) g, of d] by (auto split: option.splits)
      have "safe (dom (look d')) rest head" using Atom.prems(3) noteq False \<beta>(3) d'(2) by simp
      moreover have "ran (look d') \<subseteq> U" unfolding d'(2) by (rule match_args_ran [OF \<beta>(1) g Atom.prems(2)])
      ultimately have "map (dinst \<sigma>) head \<in> set (resolve_extended M same head rest facts d')"
        using Atom.IH [OF a(3) _ _ _ rest] \<beta>(2) d'(2) by simp
      then show ?thesis using noteq False mem d'(1) by (auto intro!: bexI [of _ ?g])
    qed
  qed
qed

end

section \<open>The fixpoint\<close>

text \<open>The facts a program can ever derive over a set of values.\<close>

definition fact_space :: "jsval set \<Rightarrow> extended_rule list \<Rightarrow> fact list \<Rightarrow> fact set" where
  "fact_space U rules edb = {f. set f \<subseteq> Scalar ` U \<and> length f \<in> length ` (set edb \<union> rule_head ` set rules)}"

lemma finite_fact_space: "finite U \<Longrightarrow> finite (fact_space U rules edb)"
proof -
  assume "finite U"
  let ?n = "Max (length ` (set edb \<union> rule_head ` set rules))"
  have "length f \<le> ?n" if "f \<in> fact_space U rules edb" for f
    using that by (intro Max_ge) (auto simp: fact_space_def)
  then have "fact_space U rules edb \<subseteq> {f. set f \<subseteq> Scalar ` U \<and> length f \<le> ?n}" by (auto simp: fact_space_def)
  then show ?thesis using finite_lists_length_le [of "Scalar ` U" ?n] \<open>finite U\<close> by (auto intro: finite_subset)
qed

lemma add_all_flat:
  assumes "U \<subseteq> Collect good_scalar" and "\<forall>f \<in> set derived. fact_in U f" and "\<forall>f \<in> set fs. fact_in U f"
  shows "\<exists>new. snd (add_all same derived (c, fs)) = fs @ new \<and> set new = set derived - set fs
    \<and> (fst (add_all same derived (c, fs)) \<longleftrightarrow> c \<or> new \<noteq> [])"
  using assms(2,3)
proof (induction derived arbitrary: c fs)
  case Nil
  then show ?case by (simp add: add_all_def)
next
  case (Cons f derived)
  have f: "fact_in U f" "\<forall>f \<in> set derived. fact_in U f" using Cons.prems(1) by simp_all
  show ?case
  proof (cases "f \<in> set fs")
    case True
    then have "add_all same (f # derived) (c, fs) = add_all same derived (c, fs)"
      by (simp add: add_all_def add_if_new_flat [OF assms(1) f(1) Cons.prems(2)])
    then show ?thesis using Cons.IH [OF f(2) Cons.prems(2), of c] True by auto
  next
    case False
    have run: "add_all same (f # derived) (c, fs) = add_all same derived (True, fs @ [f])"
      using False by (simp add: add_all_def add_if_new_flat [OF assms(1) f(1) Cons.prems(2)])
    have "\<forall>g \<in> set (fs @ [f]). fact_in U g" using Cons.prems(2) f(1) by auto
    from Cons.IH [OF f(2) this, of True] obtain new where
      "snd (add_all same derived (True, fs @ [f])) = (fs @ [f]) @ new" "set new = set derived - set (fs @ [f])"
      "fst (add_all same derived (True, fs @ [f]))" by auto
    then show ?thesis using False run by (intro exI [of _ "f # new"]) auto
  qed
qed

text \<open>One rule after the other on the growing list of facts.\<close>

definition rule_facts :: "'d matcher \<Rightarrow> (dterm \<Rightarrow> dterm \<Rightarrow> bool) \<Rightarrow> extended_rule \<Rightarrow> fact list \<Rightarrow> fact list" where
  "rule_facts M same r fs = resolve_extended M same (rule_head r) (rule_body r) fs (empty_dict M)"

lemma rules_fold:
  assumes "U \<subseteq> Collect good_scalar"
    and "\<forall>r \<in> set rules. \<forall>fs. set fs \<subseteq> W \<longrightarrow> set (rule_facts M same r fs) \<subseteq> W"
    and "\<And>f. f \<in> W \<Longrightarrow> fact_in U f" and "set fs \<subseteq> W"
  shows "\<exists>new. snd (fold (\<lambda>r (changed, fs). add_all same (rule_facts M same r fs) (changed, fs)) rules (c, fs)) = fs @ new
    \<and> set new \<subseteq> W - set fs
    \<and> (fst (fold (\<lambda>r (changed, fs). add_all same (rule_facts M same r fs) (changed, fs)) rules (c, fs)) \<longleftrightarrow> c \<or> new \<noteq> [])
    \<and> (new = [] \<longrightarrow> (\<forall>r \<in> set rules. set (rule_facts M same r fs) \<subseteq> set fs))
    \<and> (\<forall>F. set fs \<subseteq> F \<and> (\<forall>r \<in> set rules. \<forall>gs. set gs \<subseteq> F \<inter> W \<longrightarrow> set (rule_facts M same r gs) \<subseteq> F) \<longrightarrow> set new \<subseteq> F)"
  using assms(2,4)
proof (induction rules arbitrary: c fs)
  case Nil
  then show ?case by simp
next
  case (Cons r rules)
  let ?fold = "fold (\<lambda>r (changed, fs). add_all same (rule_facts M same r fs) (changed, fs))"
  let ?d = "rule_facts M same r fs"
  have d: "set ?d \<subseteq> W" using Cons.prems by simp
  obtain new where new: "snd (add_all same ?d (c, fs)) = fs @ new" "set new = set ?d - set fs"
    "fst (add_all same ?d (c, fs)) \<longleftrightarrow> c \<or> new \<noteq> []"
    using add_all_flat [OF assms(1), of ?d fs same c] d Cons.prems(2) assms(3) by blast
  have W: "set (fs @ new) \<subseteq> W" using Cons.prems(2) d new(2) by auto
  obtain new' where new': "snd (?fold rules (c \<or> new \<noteq> [], fs @ new)) = (fs @ new) @ new'" "set new' \<subseteq> W - set (fs @ new)"
    "fst (?fold rules (c \<or> new \<noteq> [], fs @ new)) \<longleftrightarrow> (c \<or> new \<noteq> []) \<or> new' \<noteq> []"
    "new' = [] \<longrightarrow> (\<forall>r \<in> set rules. set (rule_facts M same r (fs @ new)) \<subseteq> set (fs @ new))"
    "\<And>F. set (fs @ new) \<subseteq> F \<Longrightarrow> (\<forall>r \<in> set rules. \<forall>gs. set gs \<subseteq> F \<inter> W \<longrightarrow> set (rule_facts M same r gs) \<subseteq> F) \<Longrightarrow> set new' \<subseteq> F"
    using Cons.IH [OF _ W, where c = "c \<or> new \<noteq> []"] Cons.prems(1) by (elim exE conjE meta_impE) auto
  have run: "?fold (r # rules) (c, fs) = ?fold rules (c \<or> new \<noteq> [], fs @ new)"
    using new(1,3) by (cases "add_all same ?d (c, fs)") simp
  show ?case
  proof (intro exI [of _ "new @ new'"] conjI allI impI)
    fix F assume F: "set fs \<subseteq> F \<and> (\<forall>r \<in> set (r # rules). \<forall>gs. set gs \<subseteq> F \<inter> W \<longrightarrow> set (rule_facts M same r gs) \<subseteq> F)"
    then have "set ?d \<subseteq> F" using Cons.prems(2) by auto
    then have "set (fs @ new) \<subseteq> F" using F new(2) by auto
    then show "set (new @ new') \<subseteq> F" using new'(5) [of F] F by auto
  qed (use new' new d in \<open>auto simp: run simp del: fold.simps\<close>)
qed

definition derivable_rule :: "extended_rule \<Rightarrow> bool" where
  "derivable_rule r \<longleftrightarrow> list_all positive (rule_body r) \<and> safe {} (rule_body r) (rule_head r)"

definition space_inv :: "jsval set \<Rightarrow> extended_rule list \<Rightarrow> fact list \<Rightarrow> fact list \<Rightarrow> bool" where
  "space_inv U rules edb fs \<longleftrightarrow> set edb \<subseteq> set fs \<and> set fs \<subseteq> fact_space U rules edb
     \<and> (list_all derivable_rule rules \<longrightarrow> (\<forall>F. model_of rules edb F \<longrightarrow> set fs \<subseteq> F))"

lemma naive_step_rule_facts:
  "naive_step M same rules fs = fold (\<lambda>r (changed, fs). add_all same (rule_facts M same r fs) (changed, fs)) rules (False, fs)"
  by (simp add: naive_step_def rule_facts_def)

context flat_matching
begin

lemma rule_facts_space:
  assumes "U \<subseteq> Collect good_scalar" and "u0 \<in> U" and "list_all (rule_in U) rules" and "r \<in> set rules"
    and "set gs \<subseteq> fact_space U rules edb"
  shows "set (rule_facts M same r gs) \<subseteq> fact_space U rules edb"
proof
  fix f assume f: "f \<in> set (rule_facts M same r gs)"
  have r: "list_all (term_in U) (rule_head r)" "list_all (atom_in U) (rule_body r)"
    using assms(3,4) by (auto simp: list_all_iff rule_in_def)
  have gs: "\<forall>g \<in> set gs. fact_in U g" using assms(5) by (auto simp: fact_space_def fact_in_def)
  from resolve_sound [OF assms(1,2) r(1) gs r(2) _ f [unfolded rule_facts_def]] obtain \<sigma> where
    \<sigma>: "range \<sigma> \<subseteq> U" "f = map (dinst \<sigma>) (rule_head r)" by (auto simp: look_empty)
  then have "fact_in U f" "length f = length (rule_head r)" using dinst_in [OF \<sigma>(1) r(1)] by simp_all
  then show "f \<in> fact_space U rules edb" using assms(4) by (auto simp: fact_space_def fact_in_def)
qed

lemma rule_facts_model:
  assumes "U \<subseteq> Collect good_scalar" and "u0 \<in> U" and "list_all (rule_in U) rules" and "r \<in> set rules"
    and "model_of rules edb F" and "derivable_rule r" and "set gs \<subseteq> F \<inter> fact_space U rules edb"
  shows "set (rule_facts M same r gs) \<subseteq> F"
proof
  fix f assume f: "f \<in> set (rule_facts M same r gs)"
  have r: "list_all (term_in U) (rule_head r)" "list_all (atom_in U) (rule_body r)"
    using assms(3,4) by (auto simp: list_all_iff rule_in_def)
  have gs: "\<forall>g \<in> set gs. fact_in U g" using assms(7) by (auto simp: fact_space_def fact_in_def)
  from resolve_sound [OF assms(1,2) r(1) gs r(2) _ f [unfolded rule_facts_def]] obtain \<sigma> where
    \<sigma>: "list_all (holds (set gs) \<sigma>) (rule_body r)" "f = map (dinst \<sigma>) (rule_head r)" by (auto simp: look_empty)
  have "list_all (holds F \<sigma>) (rule_body r)"
    using \<sigma>(1) assms(6,7) holds_mono [of "set gs" F] by (auto simp: list_all_iff derivable_rule_def)
  then show "f \<in> F" using assms(4,5) \<sigma>(2) by (auto simp: model_of_def)
qed

lemma fixpoint_model:
  assumes "U \<subseteq> Collect good_scalar" and "u0 \<in> U" and "list_all (rule_in U) rules" and "list_all derivable_rule rules"
    and "space_inv U rules edb fs" and "\<forall>r \<in> set rules. set (rule_facts M same r fs) \<subseteq> set fs"
  shows "set fs = least_model rules edb"
proof -
  have "model_of rules edb (set fs)"
    unfolding model_of_def
  proof (intro conjI ballI allI impI)
    show "set edb \<subseteq> set fs" using assms(5) by (simp add: space_inv_def)
    fix r \<sigma> assume r: "r \<in> set rules" "list_all (holds (set fs) \<sigma>) (rule_body r)"
    have ok: "list_all (term_in U) (rule_head r)" "list_all (atom_in U) (rule_body r)" "safe {} (rule_body r) (rule_head r)"
      using assms(3,4) r(1) by (auto simp: list_all_iff rule_in_def derivable_rule_def)
    have fs: "\<forall>g \<in> set fs. fact_in U g" using assms(5) by (auto simp: space_inv_def fact_space_def fact_in_def)
    have "map (dinst \<sigma>) (rule_head r) \<in> set (rule_facts M same r fs)"
      unfolding rule_facts_def
      by (rule resolve_complete [OF assms(1,2) ok(1) fs ok(2) _ _ _ r(2)]) (simp_all add: look_empty ok(3) extends_def)
    then show "map (dinst \<sigma>) (rule_head r) \<in> set fs" using assms(6) r(1) by blast
  qed
  moreover have "set fs \<subseteq> F" if "model_of rules edb F" for F using assms(4,5) that by (simp add: space_inv_def)
  ultimately show ?thesis unfolding least_model_def by blast
qed

lemma naive_loop_ends:
  assumes U: "U \<subseteq> Collect good_scalar" "u0 \<in> U" "finite U" and rules: "list_all (rule_in U) rules"
    and "space_inv U rules edb fs" and "card (fact_space U rules edb - set fs) < fuel"
  shows "\<exists>gs. naive_loop fuel M same rules fs = Some gs \<and> space_inv U rules edb gs
    \<and> (\<forall>r \<in> set rules. set (rule_facts M same r gs) \<subseteq> set gs)"
  using assms(5,6)
proof (induction fuel arbitrary: fs)
  case 0
  then show ?case by simp
next
  case (Suc fuel)
  let ?W = "fact_space U rules edb"
  have W: "set fs \<subseteq> ?W" using Suc.prems(1) by (simp add: space_inv_def)
  have in_W: "\<forall>r \<in> set rules. \<forall>gs. set gs \<subseteq> ?W \<longrightarrow> set (rule_facts M same r gs) \<subseteq> ?W"
    using rule_facts_space [OF U(1,2) rules] by blast
  have flat: "fact_in U f" if "f \<in> ?W" for f using that by (simp add: fact_space_def fact_in_def)
  obtain new where new: "snd (naive_step M same rules fs) = fs @ new" "set new \<subseteq> ?W - set fs"
    "fst (naive_step M same rules fs) \<longleftrightarrow> new \<noteq> []"
    "new = [] \<Longrightarrow> \<forall>r \<in> set rules. set (rule_facts M same r fs) \<subseteq> set fs"
    "\<And>F. set fs \<subseteq> F \<Longrightarrow> \<forall>r \<in> set rules. \<forall>gs. set gs \<subseteq> F \<inter> ?W \<longrightarrow> set (rule_facts M same r gs) \<subseteq> F \<Longrightarrow> set new \<subseteq> F"
    using rules_fold [OF U(1) in_W flat W, of False] unfolding naive_step_rule_facts by auto
  show ?case
  proof (cases "new = []")
    case True
    then show ?thesis using new Suc.prems(1) by (cases "naive_step M same rules fs") simp
  next
    case False
    have "set new \<subseteq> F" if "list_all derivable_rule rules" "model_of rules edb F" for F
    proof (rule new(5))
      show "set fs \<subseteq> F" using Suc.prems(1) that by (simp add: space_inv_def)
      show "\<forall>r \<in> set rules. \<forall>gs. set gs \<subseteq> F \<inter> ?W \<longrightarrow> set (rule_facts M same r gs) \<subseteq> F"
        using rule_facts_model [OF U(1,2) rules _ that(2)] that(1) by (auto simp: list_all_iff)
    qed
    then have inv: "space_inv U rules edb (fs @ new)" using Suc.prems(1) new(2) by (auto simp: space_inv_def)
    have "?W - set (fs @ new) \<subset> ?W - set fs" using new(2) False by (cases new) auto
    then have "card (?W - set (fs @ new)) < card (?W - set fs)"
      using finite_fact_space [OF U(3), of rules edb] by (intro psubset_card_mono) auto
    then have "card (?W - set (fs @ new)) < fuel" using Suc.prems(2) by simp
    from Suc.IH [OF inv this] show ?thesis using new(1,3) False by (cases "naive_step M same rules fs") simp
  qed
qed

lemma evaluate_ends:
  assumes "U \<subseteq> Collect good_scalar" and "U \<noteq> {}" and "finite U" and "list_all (rule_in U) rules" and "list_all (fact_in U) edb"
    and "card (fact_space U rules edb) < fuel"
  shows "\<exists>fs. evaluate_extended_naive fuel M same rules edb = Some fs \<and> set edb \<subseteq> set fs \<and> set fs \<subseteq> fact_space U rules edb
    \<and> (\<forall>r \<in> set rules. set (resolve_extended M same (rule_head r) (rule_body r) fs (empty_dict M)) \<subseteq> set fs)
    \<and> (list_all derivable_rule rules \<longrightarrow> set fs = least_model rules edb)"
proof -
  obtain u0 where u0: "u0 \<in> U" using assms(2) by blast
  have "space_inv U rules edb edb"
    using assms(5) by (auto simp: space_inv_def model_of_def fact_space_def fact_in_def list_all_iff)
  moreover have "card (fact_space U rules edb - set edb) < fuel"
    using assms(6) card_mono [OF finite_fact_space [OF assms(3)], of "fact_space U rules edb - set edb" rules edb] by auto
  ultimately obtain fs where "naive_loop fuel M same rules edb = Some fs" "space_inv U rules edb fs"
    "\<forall>r \<in> set rules. set (rule_facts M same r fs) \<subseteq> set fs"
    using naive_loop_ends [OF assms(1) u0 assms(3,4)] by blast
  then show ?thesis
    using fixpoint_model [OF assms(1) u0 assms(4)] by (auto simp: evaluate_extended_naive_def space_inv_def rule_facts_def)
qed

end

section \<open>A matcher\<close>

text \<open>Dictionaries as association lists.\<close>

fun list_substitute :: "(jstring \<times> jsval) list \<Rightarrow> dterm \<Rightarrow> dterm" where
  "list_substitute d (Element x) = (case map_of d x of None \<Rightarrow> Element x | Some v \<Rightarrow> Scalar v)"
| "list_substitute d (Items ts) = Items (map (list_substitute d) ts)"
| "list_substitute d t = t"

fun list_match :: "dterm list \<Rightarrow> dterm list \<Rightarrow> (jstring \<times> jsval) list \<Rightarrow> (jstring \<times> jsval) list option" where
  "list_match [] [] d = Some d"
| "list_match (Scalar v # ts) (Scalar w # fs) d = (if v = w then list_match ts fs d else None)"
| "list_match (Element x # ts) (Scalar w # fs) d =
     (case map_of d x of
        None \<Rightarrow> list_match ts fs ((x, w) # d)
      | Some v \<Rightarrow> if v = w then list_match ts fs d else None)"
| "list_match _ _ d = None"

definition to_unified :: "'d option \<Rightarrow> 'd unified" where
  "to_unified r = (case r of None \<Rightarrow> UnifyFalse | Some d \<Rightarrow> Unified d)"

fun list_unify :: "dterm \<Rightarrow> dterm \<Rightarrow> (jstring \<times> jsval) list \<Rightarrow> (jstring \<times> jsval) list unified" where
  "list_unify (Items ts) (Items fs) d = to_unified (list_match ts fs d)"
| "list_unify t (Scalar v) d = to_unified (list_match [t] [Scalar v] d)"
| "list_unify (Scalar v) t d = to_unified (list_match [t] [Scalar v] d)"
| "list_unify _ _ d = UnifyUndefined"

definition list_matcher :: "(jstring \<times> jsval) list matcher" where
  "list_matcher = \<lparr>match_dict_substitute = list_substitute, unify_internal = list_unify, empty_dict = []\<rparr>"

lemma list_match_maps: "map_option map_of (list_match ts fs d) = match_args ts fs (map_of d)"
  by (induction ts fs d rule: list_match.induct) (auto simp: fun_upd_def split: option.split)

lemma to_unified_agrees: "agrees map_of (to_unified (list_match ts fs d)) (match_args ts fs (map_of d))"
  unfolding list_match_maps [symmetric] by (auto simp: agrees_def to_unified_def split: option.split)

interpretation list_matching: flat_matching list_matcher map_of
proof
  fix t v d assume t: "term_in (Collect good_scalar) t" "good_scalar v"
  show "agrees map_of (unify_internal list_matcher t (Scalar v) d) (match_args [t] [Scalar v] (map_of d))"
    using t to_unified_agrees [of "[t]" "[Scalar v]" d] by (cases t) (simp_all add: list_matcher_def)
  show "agrees map_of (unify_internal list_matcher (Scalar v) t d) (match_args [t] [Scalar v] (map_of d))"
  proof (cases t)
    case (Scalar w)
    then show ?thesis by (auto simp: list_matcher_def agrees_def to_unified_def)
  qed (use t to_unified_agrees [of "[t]" "[Scalar v]" d] in \<open>simp_all add: list_matcher_def\<close>)
qed (simp_all add: list_matcher_def to_unified_agrees, simp add: to_unified_def)

section \<open>Properties\<close>

text \<open>
  C34: On a finite set of values the naive fixpoint ends, with negated facts and predicates as well:
  within as many rounds as there are facts over these values it returns a list that holds the
  given facts and to which no rule adds anything.
\<close>

theorem naive_fixpoint_ends:
  assumes "flat_matching M look" and "U \<subseteq> Collect good_scalar" and "U \<noteq> {}" and "finite U"
    and "list_all (rule_in U) rules" and "list_all (fact_in U) edb" and "card (fact_space U rules edb) < fuel"
  shows "\<exists>fs. evaluate_extended_naive fuel M same rules edb = Some fs \<and> set edb \<subseteq> set fs \<and> set fs \<subseteq> fact_space U rules edb
    \<and> (\<forall>r \<in> set rules. set (resolve_extended M same (rule_head r) (rule_body r) fs (empty_dict M)) \<subseteq> set fs)"
  using flat_matching.evaluate_ends [OF assms, of same] by blast

definition js :: "jstring \<Rightarrow> dterm" where
  "js s = Scalar (JStr s)"

text \<open>Nodes that no edge enters, with a negated fact, and the closure of the edges.\<close>

definition root_rule :: extended_rule where
  "root_rule = make_rule (atom ''root'' [Element ''x'']) [Atom (atom ''edge'' [Element ''x'', Element ''y'']),
     NegFact (atom ''target'' [Element ''x''])]"

definition path_rules :: "extended_rule list" where
  "path_rules = [make_rule (atom ''path'' [Element ''x'', Element ''y'']) [Atom (atom ''edge'' [Element ''x'', Element ''y''])],
     make_rule (atom ''path'' [Element ''x'', Element ''z''])
       [Atom (atom ''edge'' [Element ''x'', Element ''y'']), Atom (atom ''path'' [Element ''y'', Element ''z''])]]"

definition edge_facts :: "fact list" where
  "edge_facts = [[js ''edge'', js ''a'', js ''b''], [js ''edge'', js ''b'', js ''c'']]"

definition graph_values :: "jsval set" where
  "graph_values = JStr ` {''edge'', ''path'', ''root'', ''target'', ''a'', ''b'', ''c''}"

lemma graph_values_ok: "graph_values \<subseteq> Collect good_scalar" "graph_values \<noteq> {}" "finite graph_values"
  by (auto simp: graph_values_def good_scalar_def)

lemma graph_rules_ok: "list_all (rule_in graph_values) [root_rule]" "list_all (rule_in graph_values) path_rules"
  "list_all (fact_in graph_values) edge_facts" "list_all derivable_rule path_rules"
  by (simp_all add: root_rule_def path_rules_def edge_facts_def make_rule_def atom_def rule_in_def fact_in_def js_def graph_values_def
      eq_ok_def is_eq_def is_neq_def derivable_rule_def vars_list_def)

theorem naive_fixpoint_ends_witness:
  "\<exists>fuel fs. evaluate_extended_naive fuel list_matcher (\<lambda>_ _. False) [root_rule] edge_facts = Some fs
     \<and> set edge_facts \<subseteq> set fs"
  using naive_fixpoint_ends [OF list_matching.flat_matching_axioms graph_values_ok graph_rules_ok(1,3) lessI] by blast

text \<open>
  C5: For programs without negation whose rules bind their variables before they test or use
  them, evaluation returns the least model whatever the strategy: predicates and disjunctions
  included, and the plain engines of the package when they compute it. The strategy is a hint.
\<close>

theorem evaluate_program_least_model:
  assumes "flat_matching M look" and "U \<subseteq> Collect good_scalar" and "U \<noteq> {}" and "finite U"
    and "list_all (rule_in U) (prog_rules prog)" and "list_all (fact_in U) edb"
    and "card (fact_space U (prog_rules prog) edb) < fuel"
    and "list_all derivable_rule (prog_rules prog)"
    and "\<not> has_extended_atoms (prog_rules prog) \<longrightarrow>
        set (semi_naive_datalog (prog_rules prog) edb) = least_model (prog_rules prog) edb
        \<and> set (naive_datalog (prog_rules prog) edb) = least_model (prog_rules prog) edb"
  shows "\<exists>fs. evaluate_program fuel M same semi_naive_datalog naive_datalog prog edb = Some fs
    \<and> set fs = least_model (prog_rules prog) edb"
  using flat_matching.evaluate_ends [OF assms(1-7), of same] assms(8,9) by (auto simp: evaluate_program_def Let_def)

theorem evaluate_program_least_model_witness:
  "\<exists>fuel fs. evaluate_program fuel list_matcher (\<lambda>_ _. False) (\<lambda>_ _. [[js ''path'', js ''a'', js ''c'']]) (\<lambda>_ _. [])
       (make_program (Some Incremental) (make_rule [js ''path'', js ''a'', Element ''x'']
          [Atom [js ''edge'', js ''b'', Element ''x''], StartsWith (Element ''x'') ''c''] # [])) edge_facts = Some fs
     \<and> [js ''path'', js ''a'', js ''c''] \<in> set fs"
proof -
  let ?r = "make_rule [js ''path'', js ''a'', Element ''x''] [Atom [js ''edge'', js ''b'', Element ''x''], StartsWith (Element ''x'') ''c'']"
  let ?prog = "make_program (Some Incremental) [?r]"
  have r: "list_all (rule_in graph_values) (prog_rules ?prog)" "list_all derivable_rule (prog_rules ?prog)"
    by (simp_all add: make_program_def make_rule_def StartsWith_def rule_in_def js_def graph_values_def eq_ok_def is_eq_def is_neq_def
        derivable_rule_def vars_list_def)
  have ext: "has_extended_atoms (prog_rules ?prog)" by (simp add: has_extended_atoms_def make_program_def make_rule_def StartsWith_def)
  have "[js ''path'', js ''a'', js ''c''] \<in> F" if F: "model_of (prog_rules ?prog) edge_facts F" for F
  proof -
    have "[js ''edge'', js ''b'', js ''c''] \<in> F" using F by (simp add: model_of_def edge_facts_def)
    then have "list_all (holds F (\<lambda>_. JStr ''c'')) (rule_body ?r)"
      by (simp add: make_rule_def StartsWith_def js_def is_eq_def is_neq_def starts_with_def)
    moreover have "map (dinst (\<lambda>_. JStr ''c'')) (rule_head ?r) = [js ''path'', js ''a'', js ''c'']" by (simp add: make_rule_def js_def)
    moreover have "?r \<in> set (prog_rules ?prog)" by (simp add: make_program_def)
    ultimately show ?thesis using F unfolding model_of_def by metis
  qed
  then have "[js ''path'', js ''a'', js ''c''] \<in> least_model (prog_rules ?prog) edge_facts" by (auto simp: least_model_def)
  then show ?thesis
    using evaluate_program_least_model [OF list_matching.flat_matching_axioms graph_values_ok r(1) graph_rules_ok(3) lessI r(2),
        of "\<lambda>_ _. [[js ''path'', js ''a'', js ''c'']]" "\<lambda>_ _. []" "\<lambda>_ _. False"] ext by metis
qed

text \<open>
  A derived fact that holds \<open>NaN\<close> is never equal to itself, so that it is added again in every
  round: with the rule \<open>p(x) <- q(x)\<close> and the fact \<open>q(NaN)\<close> the evaluation does not end. Of the
  matcher this uses that the body matches \<open>q(NaN)\<close> and not \<open>p(NaN)\<close> and that the head becomes \<open>p(NaN)\<close>.
\<close>

lemma nan_evaluation_diverges:
  assumes "unify_internal M (Items [js ''q'', Element ''x'']) (Items [js ''q'', Scalar (JNum NaN)]) (empty_dict M) = Unified d"
    and "unify_internal M (Items [js ''q'', Element ''x'']) (Items [js ''p'', Scalar (JNum NaN)]) (empty_dict M) = UnifyFalse"
    and "match_dict_substitute M d (Items [js ''p'', Element ''x'']) = Items [js ''p'', Scalar (JNum NaN)]"
  shows "evaluate_extended_naive fuel M same [make_rule [js ''p'', Element ''x''] [Atom [js ''q'', Element ''x'']]]
    [[js ''q'', Scalar (JNum NaN)]] = None"
proof -
  let ?q = "[js ''q'', Scalar (JNum NaN)]" and ?p = "[js ''p'', Scalar (JNum NaN)]"
  let ?r = "make_rule [js ''p'', Element ''x''] [Atom [js ''q'', Element ''x'']]"
  have gp: "ground_fact M [js ''p'', Element ''x''] d = Some ?p" unfolding ground_fact_def assms(3) Let_def by (simp add: js_def)
  have "resolve_extended M same (rule_head ?r) (rule_body ?r) (?q # replicate n ?p) (empty_dict M) = [?p]" for n
    using assms by (simp add: make_rule_def unify_premise_def is_eq_def is_neq_def gp map_replicate_const)
  moreover have "\<not> list_ex (\<lambda>f. fact_equal same f ?p) (?q # replicate n ?p)" for n
    by (auto simp: list_ex_iff fact_equal_def js_def strict_eq.simps(1) num_strict_eq_def)
  ultimately have step: "naive_step M same [?r] (?q # replicate n ?p) = (True, ?q # replicate (Suc n) ?p)" for n
    by (simp add: naive_step_def add_all_def add_if_new_def replicate_append_same)
  have "naive_loop fuel M same [?r] (?q # replicate n ?p) = None" for n
    by (induction fuel arbitrary: n) (simp_all add: step del: replicate.simps)
  from this [of 0] show ?thesis by (simp add: evaluate_extended_naive_def)
qed

end
