(* ===== verification/Topology_Facts.thy ===== *)
theory Topology_Facts
  imports Logic_Semantics Graphology
begin

text \<open>
  Datalog over the propagator network: the snapshot of the network as facts and the programs of
  \<open>src/compiler/datalog/TopologyFacts.ts\<close>, \<open>TopologyPathPrograms.ts\<close> and
  \<open>TopologyOrientationPrograms.ts\<close>, the fact sets of \<open>DatalogPropagator.ts\<close>, the facts of a traced
  graph of \<open>TracedGraphDatalog.ts\<close>, the rows of \<open>NetworkDatalogPipeline.ts\<close> and the way back to a
  graph of \<open>NetworkTopologyGraphology.ts\<close>.

  Cells and propagators belong to the library: a snapshot is the list of what the library says of
  each. The functions the propagators run are modelled, not the scheduling of the propagators.
  \<open>to_string\<close> of a value is a generic procedure of the library that may throw.
\<close>

section \<open>The snapshot\<close>

record topo_cell =
  tc_id :: jstring
  tc_name :: jstring
  tc_level :: jsnum
  tc_value :: jsval

record topo_propagator =
  tp_id :: jstring
  tp_name :: jstring
  tp_level :: jsnum
  tp_inputs :: "topo_cell list"
  tp_outputs :: "topo_cell list"

definition label_to_namespace :: "jstring \<Rightarrow> jstring" where
  "label_to_namespace label = (case split_on ''|'' label of [] \<Rightarrow> [] | s # _ \<Rightarrow> s)"

definition strs :: "jstring list \<Rightarrow> fact" where
  "strs ss = map js ss"

definition value_facts :: "(jsval \<Rightarrow> jstring option) \<Rightarrow> topo_cell \<Rightarrow> fact list" where
  "value_facts to_string cell =
     (let val = tc_value cell
      in if val = JUndef \<or> val = JNull then []
         else (case to_string val of None \<Rightarrow> [] | Some s \<Rightarrow> [strs [''value'', tc_id cell, s]]))"

definition cell_facts :: "(jsval \<Rightarrow> jstring option) \<Rightarrow> topo_cell \<Rightarrow> fact list" where
  "cell_facts to_string cell =
     (let name = tc_name cell; ns = label_to_namespace name; lvl = num_to_string (tc_level cell)
      in [strs [''cell'', tc_id cell, name],
          strs [''kind'', tc_id cell, ''cell''],
          strs [''namespace'', tc_id cell, ns],
          strs [''level'', tc_id cell, lvl],
          strs [''label'', tc_id cell, name]]
         @ value_facts to_string cell)"

definition propagator_facts :: "topo_propagator \<Rightarrow> fact list" where
  "propagator_facts prop =
     (let pid = tp_id prop; name = tp_name prop; ns = label_to_namespace name; lvl = num_to_string (tp_level prop)
      in [strs [''propagator'', pid, name],
          strs [''kind'', pid, ''prop''],
          strs [''namespace'', pid, ns],
          strs [''level'', pid, lvl],
          strs [''label'', pid, name]]
         @ map (\<lambda>input. strs [''reads'', pid, tc_id input]) (tp_inputs prop)
         @ map (\<lambda>output. strs [''writes'', pid, tc_id output]) (tp_outputs prop))"

definition snapshot_topology_facts :: "(jsval \<Rightarrow> jstring option) \<Rightarrow> topo_cell list \<Rightarrow> topo_propagator list \<Rightarrow> fact list" where
  "snapshot_topology_facts to_string cells props =
     concat (map (cell_facts to_string) cells) @ concat (map propagator_facts props)"

section \<open>Fact sets\<close>

text \<open>
  The value of a cell: a fact set or anything else. \<open>unifies\<close> is the test \<open>unify(f, target) !== false\<close>
  of the package.
\<close>

datatype cell_content = FactSet "fact list" | OtherContent

fun is_fact_set :: "cell_content \<Rightarrow> bool" where
  "is_fact_set (FactSet _) = True"
| "is_fact_set OtherContent = False"

definition facts_contains :: "(fact \<Rightarrow> fact \<Rightarrow> bool) \<Rightarrow> fact list \<Rightarrow> fact \<Rightarrow> bool" where
  "facts_contains unifies facts target \<longleftrightarrow> list_ex (\<lambda>f. unifies f target) facts"

definition merge_fact_sets :: "(fact \<Rightarrow> fact \<Rightarrow> bool) \<Rightarrow> fact list \<Rightarrow> fact list \<Rightarrow> fact list" where
  "merge_fact_sets unifies a b = a @ filter (\<lambda>f. \<not> facts_contains unifies a f) b"

definition fact_sets_equal :: "(fact \<Rightarrow> fact \<Rightarrow> bool) \<Rightarrow> fact list \<Rightarrow> fact list \<Rightarrow> bool" where
  "fact_sets_equal unifies a b \<longleftrightarrow> length a = length b \<and> list_all (facts_contains unifies b) a"

text \<open>The facts a propagator collects from its cells, and what the two propagators write.\<close>

fun collect_edb :: "cell_content list \<Rightarrow> fact list" where
  "collect_edb [] = []"
| "collect_edb (FactSet facts # cells) = facts @ collect_edb cells"
| "collect_edb (OtherContent # cells) = collect_edb cells"

definition datalog_propagator :: "engine \<Rightarrow> extended_rule list \<Rightarrow> cell_content list \<Rightarrow> cell_content" where
  "datalog_propagator semi_naive_datalog rules edb_cells = FactSet (semi_naive_datalog rules (collect_edb edb_cells))"

definition run_program :: "(logic_program \<Rightarrow> fact list \<Rightarrow> fact list option) \<Rightarrow> logic_program \<Rightarrow> cell_content list \<Rightarrow> cell_content option" where
  "run_program evaluate prog edb_cells = map_option FactSet (evaluate prog (collect_edb edb_cells))"

definition query_fact_cell :: "(dterm list \<Rightarrow> fact list \<Rightarrow> 'd list) \<Rightarrow> cell_content \<Rightarrow> dterm list \<Rightarrow> 'd list" where
  "query_fact_cell query cell pattern = (case cell of FactSet facts \<Rightarrow> query pattern facts | OtherContent \<Rightarrow> [])"

section \<open>Programs over the snapshot\<close>

definition or_semi_naive :: "execution_strategy option \<Rightarrow> execution_strategy" where
  "or_semi_naive strategy = (case strategy of None \<Rightarrow> SemiNaive | Some s \<Rightarrow> s)"

definition flow_rule :: extended_rule where
  "flow_rule = make_rule (atom ''flows_to'' [Element ''A'', Element ''B''])
     [Atom (atom ''reads'' [Element ''P'', Element ''A'']), Atom (atom ''writes'' [Element ''P'', Element ''B''])]"

definition reach_rules :: "extended_rule list" where
  "reach_rules =
     [make_rule (atom ''reachable'' [Element ''A'', Element ''B'']) [Atom (atom ''flows_to'' [Element ''A'', Element ''B''])],
      make_rule (atom ''reachable'' [Element ''A'', Element ''C''])
        [Atom (atom ''reachable'' [Element ''A'', Element ''B'']), Atom (atom ''flows_to'' [Element ''B'', Element ''C''])]]"

definition topology_reachability_program :: "execution_strategy option \<Rightarrow> logic_program" where
  "topology_reachability_program strategy = make_program strategy (flow_rule # reach_rules)"

definition cell_namespace_program :: "jstring \<Rightarrow> execution_strategy option \<Rightarrow> logic_program" where
  "cell_namespace_program prefix strategy = make_program strategy
     [make_rule (atom ''ns_match'' [Element ''X''])
        [Atom (atom ''kind'' [Element ''X'', Element ''_K'']), Atom (atom ''namespace'' [Element ''X'', Element ''NS'']),
         StartsWith (Element ''NS'') prefix]]"

definition cell_kind_program :: "jstring \<Rightarrow> execution_strategy option \<Rightarrow> logic_program" where
  "cell_kind_program kind strategy = make_program strategy
     [make_rule (atom ''kind_match'' [Element ''X'']) [Atom (atom ''kind'' [Element ''X'', js kind])]]"

definition cell_level_program :: "jsnum \<Rightarrow> execution_strategy option \<Rightarrow> logic_program" where
  "cell_level_program level strategy = make_program strategy
     [make_rule (atom ''level_match'' [Element ''X'']) [Atom (atom ''level'' [Element ''X'', js (num_to_string level)])]]"

definition connected_to_program :: "jstring \<Rightarrow> execution_strategy option \<Rightarrow> logic_program" where
  "connected_to_program source_id strategy = make_program strategy
     (flow_rule # reach_rules @
      [make_rule (atom ''reachable_from'' [Element ''B'']) [Atom (atom ''reachable'' [js source_id, Element ''B''])]])"

definition compose_programs :: "logic_program \<Rightarrow> logic_program \<Rightarrow> execution_strategy option \<Rightarrow> logic_program" where
  "compose_programs a b strategy =
     \<lparr>prog_rules = prog_rules a @ prog_rules b,
      prog_strategy = (case strategy of None \<Rightarrow> prog_strategy a | Some s \<Rightarrow> s)\<rparr>"

subsection \<open>Paths\<close>

definition hop_atom :: "jstring \<Rightarrow> jstring \<Rightarrow> jstring \<Rightarrow> dterm list" where
  "hop_atom a p b = atom ''hop'' [Element a, Element p, Element b]"

definition topology_hop_program :: logic_program where
  "topology_hop_program = make_program (Some SemiNaive)
     [make_rule (hop_atom ''From'' ''P'' ''To'')
        [Atom (atom ''reads'' [Element ''P'', Element ''From'']), Atom (atom ''writes'' [Element ''P'', Element ''To''])]]"

definition topology_path2_program :: logic_program where
  "topology_path2_program = compose_programs topology_hop_program
     (make_program (Some SemiNaive)
        [make_rule (atom ''path2'' [Element ''S'', Element ''P1'', Element ''M'', Element ''P2'', Element ''T''])
           [Atom (hop_atom ''S'' ''P1'' ''M''), Atom (hop_atom ''M'' ''P2'' ''T'')]]) None"

definition topology_path3_program :: logic_program where
  "topology_path3_program = compose_programs topology_path2_program
     (make_program (Some SemiNaive)
        [make_rule (atom ''path3'' [Element ''S'', Element ''P1'', Element ''M1'', Element ''P2'', Element ''M2'', Element ''P3'', Element ''T''])
           [Atom (hop_atom ''S'' ''P1'' ''M1''), Atom (hop_atom ''M1'' ''P2'' ''M2''), Atom (hop_atom ''M2'' ''P3'' ''T'')]]) None"

subsection \<open>Orientation\<close>

definition topology_mutual_reach_program :: "execution_strategy option \<Rightarrow> logic_program" where
  "topology_mutual_reach_program strategy =
     (let strategy = Some (or_semi_naive strategy)
      in compose_programs (topology_reachability_program strategy)
           (make_program strategy
              [make_rule (atom ''mutual_reach'' [Element ''X'', Element ''Y''])
                 [Atom (atom ''reachable'' [Element ''X'', Element ''Y'']), Atom (atom ''reachable'' [Element ''Y'', Element ''X''])]])
           strategy)"

definition directed_pairs :: "jstring \<Rightarrow> jstring \<Rightarrow> jstring \<Rightarrow> (jstring \<times> jstring) list" where
  "directed_pairs a b c = [(a, b), (b, a), (a, c), (c, a), (b, c), (c, b)]"

definition undirected_pairs :: "jstring \<Rightarrow> jstring \<Rightarrow> jstring \<Rightarrow> (jstring \<times> jstring) list" where
  "undirected_pairs a b c = [(a, b), (a, c), (b, c)]"

definition topology_triad_surface_program :: "jstring \<Rightarrow> jstring \<Rightarrow> jstring \<Rightarrow> execution_strategy option \<Rightarrow> logic_program" where
  "topology_triad_surface_program a b c strategy =
     (let strategy = Some (or_semi_naive strategy);
          dir_rules = map (\<lambda>(x, y). make_rule (atom ''surface_dir'' [js x, js y]) [Atom (atom ''reachable'' [js x, js y])])
            (directed_pairs a b c);
          mut_rules = concat (map (\<lambda>(x, y).
            [make_rule (atom ''surface_mutual'' [js x, js y]) [Atom (atom ''mutual_reach'' [js x, js y])],
             make_rule (atom ''surface_mutual'' [js y, js x]) [Atom (atom ''mutual_reach'' [js x, js y])]]) (undirected_pairs a b c))
      in compose_programs (topology_mutual_reach_program strategy) (make_program strategy (dir_rules @ mut_rules)) strategy)"

definition topology_triad_one_way_surface_program ::
    "jstring \<Rightarrow> jstring \<Rightarrow> jstring \<Rightarrow> execution_strategy option \<Rightarrow> logic_program" where
  "topology_triad_one_way_surface_program a b c strategy = make_program strategy
     (map (\<lambda>(x, y). make_rule (atom ''surface_one_way'' [js x, js y])
         [Atom (atom ''reachable'' [js x, js y]), NegFact (atom ''reachable'' [js y, js x])])
       (directed_pairs a b c))"

end
