(* ===== verification/Topology_Graph.thy ===== *)
theory Topology_Graph
  imports Topology_Facts
begin

text \<open>
  From graphs to facts and back. \<open>TracedGraphDatalog.ts\<close> reads a traced graph as facts and has its
  own programs; \<open>NetworkDatalogPipeline.ts\<close> turns query answers into rows;
  \<open>NetworkTopologyGraphology.ts\<close> takes the ids of such rows, finds the live cells and propagators
  and builds a graph from the snapshot facts of the kept ids. A set of ids is a list without
  repetition, in the order of insertion.
\<close>

section \<open>Traced graphs\<close>

text \<open>\<open>String(v)\<close>; on an object it runs the object's own conversion.\<close>

definition js_String :: "(jsval \<Rightarrow> jstring) \<Rightarrow> jsval \<Rightarrow> jstring" where
  "js_String object_text v = (case v of JArr _ \<Rightarrow> object_text v | JObj _ \<Rightarrow> object_text v | _ \<Rightarrow> prim_to_string v)"

definition traced_node_facts :: "(jsval \<Rightarrow> jstring) \<Rightarrow> jstring \<Rightarrow> attributes \<Rightarrow> fact list" where
  "traced_node_facts object_text nid attrs =
     (let a = js_prop (JObj attrs); label = a ''label''; val = a ''value''
      in [strs [''g_node'', nid]]
         @ (case a ''kind'' of JStr k \<Rightarrow> if k = ''cell'' \<or> k = ''propagator'' then [strs [''g_kind'', nid, k]] else [] | _ \<Rightarrow> [])
         @ (case a ''namespace'' of JStr ns \<Rightarrow> [strs [''g_namespace'', nid, ns]] | _ \<Rightarrow> [])
         @ (case a ''relationLevel'' of JNum n \<Rightarrow> [strs [''g_level'', nid, num_to_string n]] | _ \<Rightarrow> [])
         @ (if label \<noteq> JUndef \<and> label \<noteq> JNull then [strs [''g_label'', nid, js_String object_text label]] else [])
         @ (if val \<noteq> JUndef \<and> val \<noteq> JNull then [strs [''g_value'', nid, js_String object_text val]] else []))"

definition traced_graph_to_facts :: "(jsval \<Rightarrow> jstring) \<Rightarrow> ('g, 'z) graphology_scheme \<Rightarrow> 'g \<Rightarrow> fact list" where
  "traced_graph_to_facts object_text G graph =
     concat (map (\<lambda>(nid, attrs). traced_node_facts object_text nid attrs) (for_each_node G graph))
     @ map (\<lambda>(_, source, target). strs [''g_edge'', source, target]) (for_each_edge G graph)"

definition trace_pair_membership_facts :: "('g, 'z) graphology_scheme \<Rightarrow> 'g \<Rightarrow> 'g \<Rightarrow> fact list" where
  "trace_pair_membership_facts G up down =
     map (\<lambda>(nid, _). strs [''trace_mem'', ''up'', nid]) (for_each_node G up)
     @ map (\<lambda>(nid, _). strs [''trace_mem'', ''down'', nid]) (for_each_node G down)"

definition traced_namespace_program :: "jstring \<Rightarrow> execution_strategy option \<Rightarrow> logic_program" where
  "traced_namespace_program prefix strategy = make_program strategy
     [make_rule (atom ''ns_match'' [Element ''N''])
        [Atom (atom ''g_namespace'' [Element ''N'', Element ''NS'']), StartsWith (Element ''NS'') prefix]]"

definition traced_card_slot_cell_program :: "execution_strategy option \<Rightarrow> logic_program" where
  "traced_card_slot_cell_program strategy = make_program strategy
     [make_rule (atom ''card_cell'' [Element ''N''])
        [Atom (atom ''g_kind'' [Element ''N'', js ''cell'']), Atom (atom ''g_namespace'' [Element ''N'', Element ''NS'']),
         StartsWith (Element ''NS'') ''::'']]"

definition traced_kind_program :: "jstring \<Rightarrow> execution_strategy option \<Rightarrow> logic_program" where
  "traced_kind_program kind strategy = make_program strategy
     [make_rule (atom ''kind_match'' [Element ''N'']) [Atom (atom ''g_kind'' [Element ''N'', js kind])]]"

definition traced_level_program :: "jsnum \<Rightarrow> execution_strategy option \<Rightarrow> logic_program" where
  "traced_level_program level strategy = make_program strategy
     [make_rule (atom ''level_match'' [Element ''N'']) [Atom (atom ''g_level'' [Element ''N'', js (num_to_string level)])]]"

definition traced_cell_at_level_program :: "jsnum \<Rightarrow> execution_strategy option \<Rightarrow> logic_program" where
  "traced_cell_at_level_program level strategy = make_program strategy
     [make_rule (atom ''level_cell'' [Element ''N''])
        [Atom (atom ''g_kind'' [Element ''N'', js ''cell'']), Atom (atom ''g_level'' [Element ''N'', js (num_to_string level)])]]"

definition traced_trace_pair_program :: "execution_strategy option \<Rightarrow> logic_program" where
  "traced_trace_pair_program strategy = make_program strategy
     [make_rule (atom ''union_node'' [Element ''N'']) [Atom (atom ''trace_mem'' [js ''up'', Element ''N''])],
      make_rule (atom ''union_node'' [Element ''N'']) [Atom (atom ''trace_mem'' [js ''down'', Element ''N''])],
      make_rule (atom ''both_node'' [Element ''N''])
        [Atom (atom ''trace_mem'' [js ''up'', Element ''N'']), Atom (atom ''trace_mem'' [js ''down'', Element ''N''])]]"

text \<open>The string at a position of a fact.\<close>

definition str_at :: "fact \<Rightarrow> nat \<Rightarrow> jstring option" where
  "str_at f i = (if i < length f then (case f ! i of Scalar (JStr s) \<Rightarrow> Some s | _ \<Rightarrow> None) else None)"

definition node_ids_from_facts :: "fact list \<Rightarrow> jstring \<Rightarrow> jstring list" where
  "node_ids_from_facts facts predicate =
     fold (\<lambda>f out. case str_at f 1 of Some nid \<Rightarrow> if str_at f 0 = Some predicate then set_add nid out else out | None \<Rightarrow> out)
       facts []"

definition traced_subgraph_from_ids :: "('g, 'z) graphology_scheme \<Rightarrow> 'g \<Rightarrow> jstring list \<Rightarrow> 'g" where
  "traced_subgraph_from_ids G graph keep = subgraph G graph (\<lambda>nid _. nid \<in> set keep)"

definition evaluate_traced_program ::
    "(logic_program \<Rightarrow> fact list \<Rightarrow> fact list option) \<Rightarrow> (jsval \<Rightarrow> jstring) \<Rightarrow> ('g, 'z) graphology_scheme \<Rightarrow> 'g \<Rightarrow> logic_program \<Rightarrow> fact list option" where
  "evaluate_traced_program evaluate object_text G graph prog = evaluate prog (traced_graph_to_facts object_text G graph)"

definition evaluate_trace_pair_program ::
    "(logic_program \<Rightarrow> fact list \<Rightarrow> fact list option) \<Rightarrow> ('g, 'z) graphology_scheme \<Rightarrow> 'g \<Rightarrow> 'g \<Rightarrow> logic_program \<Rightarrow> fact list option" where
  "evaluate_trace_pair_program evaluate G up down prog = evaluate prog (trace_pair_membership_facts G up down)"

section \<open>Rows of a query\<close>

text \<open>\<open>query\<close> and \<open>ground\<close> are functions of the package; \<open>ground\<close> gives \<open>None\<close> for a falsy answer.\<close>

definition grounded_rows :: "(dterm list \<Rightarrow> fact list \<Rightarrow> 'd list) \<Rightarrow> (dterm list \<Rightarrow> 'd \<Rightarrow> fact option) \<Rightarrow> dterm list \<Rightarrow> fact list \<Rightarrow> fact list" where
  "grounded_rows query ground pattern facts =
     fold (\<lambda>dict rows. case ground pattern dict of Some g \<Rightarrow> rows @ [js ''q_row'' # g] | None \<Rightarrow> rows) (query pattern facts) []"

definition grounded_query_propagator ::
    "(dterm list \<Rightarrow> fact list \<Rightarrow> 'd list) \<Rightarrow> (dterm list \<Rightarrow> 'd \<Rightarrow> fact option) \<Rightarrow> dterm list \<Rightarrow> cell_content \<Rightarrow> cell_content option" where
  "grounded_query_propagator query ground pattern source =
     (case source of OtherContent \<Rightarrow> None | FactSet facts \<Rightarrow> Some (FactSet (grounded_rows query ground pattern facts)))"

definition decode_q_row :: "fact \<Rightarrow> (jstring \<times> jstring list) option" where
  "decode_q_row f =
     (if length f < 2 \<or> str_at f 0 \<noteq> Some ''q_row'' then None
      else (case str_at f 1 of None \<Rightarrow> None
            | Some pred \<Rightarrow> Some (pred, List.map_filter (\<lambda>i. str_at f i) [2..<length f])))"

definition entity_ids_from_q_row_facts :: "fact list \<Rightarrow> jstring list" where
  "entity_ids_from_q_row_facts facts =
     fold (\<lambda>f out. case decode_q_row f of None \<Rightarrow> out | Some (pred, args) \<Rightarrow> fold set_add args out) facts []"

definition entity_ids_from_q_rows_matching :: "fact list \<Rightarrow> jstring \<Rightarrow> jstring list" where
  "entity_ids_from_q_rows_matching facts p =
     fold (\<lambda>f out. case decode_q_row f of None \<Rightarrow> out | Some (pred, args) \<Rightarrow> if pred = p then fold set_add args out else out)
       facts []"

record ('c, 'p) resolved_entities =
  re_cells :: "'c list"
  re_propagators :: "'p list"
  re_unresolved :: "jstring list"

definition resolve_network_ids ::
    "(jstring \<Rightarrow> 'c option) \<Rightarrow> (jstring \<Rightarrow> 'p option) \<Rightarrow> jstring list \<Rightarrow> ('c, 'p) resolved_entities" where
  "resolve_network_ids find_cell_by_id find_propagator_by_id ids =
     fold (\<lambda>nid r. case find_cell_by_id nid of
         Some c \<Rightarrow> r\<lparr>re_cells := re_cells r @ [c]\<rparr>
       | None \<Rightarrow> (case find_propagator_by_id nid of
             Some p \<Rightarrow> r\<lparr>re_propagators := re_propagators r @ [p]\<rparr>
           | None \<Rightarrow> r\<lparr>re_unresolved := re_unresolved r @ [nid]\<rparr>))
       ids \<lparr>re_cells = [], re_propagators = [], re_unresolved = []\<rparr>"

section \<open>A graph from facts\<close>

record node_attr_acc =
  na_label :: jstring
  na_kind :: jstring
  na_namespace :: jstring
  na_level :: jsnum
  na_value :: "jstring option"

definition parse_level :: "jstring \<Rightarrow> jsnum" where
  "parse_level s = (case js_Number s of NaN \<Rightarrow> Dec 0 0 | PosInf \<Rightarrow> Dec 0 0 | NegInf \<Rightarrow> Dec 0 0 | n \<Rightarrow> n)"

definition new_acc :: "jstring \<Rightarrow> node_attr_acc" where
  "new_acc nid = \<lparr>na_label = nid, na_kind = ''cell'', na_namespace = ''unknown'', na_level = Dec 0 0, na_value = None\<rparr>"

definition ensure_acc :: "jstring \<Rightarrow> (jstring, node_attr_acc) jmap \<Rightarrow> (jstring, node_attr_acc) jmap" where
  "ensure_acc nid m = (case map_of m nid of None \<Rightarrow> AList.update nid (new_acc nid) m | Some _ \<Rightarrow> m)"

definition update_acc :: "jstring option \<Rightarrow> jstring option \<Rightarrow> node_attr_acc \<Rightarrow> node_attr_acc" where
  "update_acc tag arg acc =
     (case (tag, arg) of
        (Some t, Some v) \<Rightarrow>
          if t = ''cell'' \<or> t = ''propagator'' \<or> t = ''label'' then acc\<lparr>na_label := v\<rparr>
          else if t = ''namespace'' then acc\<lparr>na_namespace := v\<rparr>
          else if t = ''level'' then acc\<lparr>na_level := parse_level v\<rparr>
          else if t = ''kind'' \<and> v = ''cell'' then acc\<lparr>na_kind := ''cell''\<rparr>
          else if t = ''kind'' \<and> v = ''prop'' then acc\<lparr>na_kind := ''propagator''\<rparr>
          else if t = ''value'' then acc\<lparr>na_value := Some v\<rparr>
          else acc
      | _ \<Rightarrow> acc)"

definition note_fact :: "jstring list \<Rightarrow> fact \<Rightarrow> (jstring, node_attr_acc) jmap \<Rightarrow> (jstring, node_attr_acc) jmap" where
  "note_fact keep f m =
     (case str_at f 1 of
        None \<Rightarrow> m
      | Some nid \<Rightarrow>
          if nid \<notin> set keep then m
          else (let m = ensure_acc nid m
                in case map_of m nid of None \<Rightarrow> m | Some acc \<Rightarrow> AList.update nid (update_acc (str_at f 0) (str_at f 2) acc) m))"

definition acc_attributes :: "node_attr_acc \<Rightarrow> attributes" where
  "acc_attributes a =
     [(''label'', JStr (na_label a)), (''kind'', JStr (na_kind a)), (''namespace'', JStr (na_namespace a)),
      (''relationLevel'', JNum (na_level a))]
     @ (case na_value a of None \<Rightarrow> [] | Some v \<Rightarrow> [(''value'', JStr v)])"

definition add_fact_edge ::
    "('g, 'z) graphology_scheme \<Rightarrow> jstring list \<Rightarrow> jstring \<Rightarrow> jstring \<Rightarrow> jstring \<Rightarrow> jstring \<Rightarrow> 'g \<Rightarrow> 'g" where
  "add_fact_edge G keep prop_id cell_id source target graph =
     (if prop_id \<in> set keep \<and> cell_id \<in> set keep \<and> has_node G graph cell_id \<and> has_node G graph prop_id
         \<and> \<not> has_edge G graph source target
      then merge_edge G source target [] graph else graph)"

definition edge_fact :: "('g, 'z) graphology_scheme \<Rightarrow> jstring list \<Rightarrow> fact \<Rightarrow> 'g \<Rightarrow> 'g" where
  "edge_fact G keep f graph =
     (case (str_at f 1, str_at f 2) of
        (Some prop_id, Some cell_id) \<Rightarrow>
          if str_at f 0 = Some ''reads'' then add_fact_edge G keep prop_id cell_id cell_id prop_id graph
          else if str_at f 0 = Some ''writes'' then add_fact_edge G keep prop_id cell_id prop_id cell_id graph
          else graph
      | _ \<Rightarrow> graph)"

definition graphology_from_topology_facts :: "('g, 'z) graphology_scheme \<Rightarrow> fact list \<Rightarrow> jstring list \<Rightarrow> 'g" where
  "graphology_from_topology_facts G facts keep =
     (let by_id = fold (note_fact keep) facts [];
          graph = fold (\<lambda>nid graph. merge_node G nid
              (acc_attributes (case map_of (ensure_acc nid by_id) nid of Some a \<Rightarrow> a | None \<Rightarrow> new_acc nid)) graph)
            keep (new_graph G)
      in fold (edge_fact G keep) facts graph)"

definition topology_filtered_graph :: "('g, 'z) graphology_scheme \<Rightarrow> cell_content \<Rightarrow> cell_content \<Rightarrow> 'g option" where
  "topology_filtered_graph G topo answers =
     (case (topo, answers) of
        (FactSet t, FactSet a) \<Rightarrow>
          (let keep = entity_ids_from_q_row_facts a
           in Some (if keep = [] then new_graph G else graphology_from_topology_facts G t keep))
      | _ \<Rightarrow> None)"

end
