(* ===== verification/Topology_Semantics.thy ===== *)
theory Topology_Semantics
  imports Topology_Graph
begin

text \<open>
  What the topology programs derive. Programs over strings have a finite universe, so their
  evaluation ends with the least model (\<open>evaluate_string_program\<close>); a layer of rules that no rule
  reads adds its direct consequences (\<open>least_model_layer\<close>). The programs of \<open>Topology_Facts\<close> are
  such layers on top of the transitive closure, and their meaning on a snapshot is stated over
  the network itself.
\<close>

section \<open>Programs over strings\<close>

fun string_term :: "dterm \<Rightarrow> bool" where
  "string_term (Element _) = True"
| "string_term (Scalar (JStr _)) = True"
| "string_term _ = False"

definition string_fact :: "fact \<Rightarrow> bool" where
  "string_fact f \<longleftrightarrow> (\<exists>ss. f = strs ss)"

fun body_terms :: "body_atom \<Rightarrow> dterm list" where
  "body_terms (Pred t _) = [t]"
| "body_terms (NegFact ts) = ts"
| "body_terms (Atom ts) = ts"
| "body_terms _ = []"

text \<open>Atoms and negated facts name their predicate; there are no equations and no branches.\<close>

fun flat_body :: "body_atom \<Rightarrow> bool" where
  "flat_body (Pred _ _) = True"
| "flat_body (NegFact (Scalar (JStr p) # ts)) = True"
| "flat_body (Atom (Scalar (JStr p) # ts)) = (length ts = 2 \<longrightarrow> p \<noteq> ''='' \<and> p \<noteq> ''!='')"
| "flat_body _ = False"

fun body_pred :: "body_atom \<Rightarrow> jstring option" where
  "body_pred (NegFact (Scalar (JStr p) # ts)) = Some p"
| "body_pred (Atom (Scalar (JStr p) # ts)) = Some p"
| "body_pred _ = None"

fun pred_of :: "dterm list \<Rightarrow> jstring option" where
  "pred_of (Scalar (JStr p) # ts) = Some p"
| "pred_of _ = None"

definition rule_terms :: "extended_rule \<Rightarrow> dterm list" where
  "rule_terms r = rule_head r @ concat (map body_terms (rule_body r))"

definition string_rule :: "extended_rule \<Rightarrow> bool" where
  "string_rule r \<longleftrightarrow> list_all string_term (rule_terms r) \<and> list_all flat_body (rule_body r)
     \<and> pred_of (rule_head r) \<noteq> None"

definition string_universe :: "extended_rule list \<Rightarrow> fact list \<Rightarrow> jsval set" where
  "string_universe rules edb =
     insert (JStr []) {v. Scalar v \<in> set (concat (map rule_terms rules) @ concat edb)}"

lemma string_universe_finite: "finite (string_universe rules edb)"
proof -
  have "{v. Scalar v \<in> set ts} \<subseteq> (\<lambda>t. case t of Scalar v \<Rightarrow> v | _ \<Rightarrow> JUndef) ` set ts" for ts
    by (force split: dterm.split)
  then have "finite {v. Scalar v \<in> set ts}" for ts by (rule finite_subset) simp
  then show ?thesis unfolding string_universe_def by simp
qed

lemma string_fact_scalars: "string_fact f \<Longrightarrow> t \<in> set f \<Longrightarrow> \<exists>s. t = js s"
  by (auto simp: string_fact_def strs_def)

lemma string_universe_good:
  assumes "list_all string_rule rules" and "list_all string_fact edb"
  shows "string_universe rules edb \<subseteq> Collect good_scalar"
proof
  fix v assume "v \<in> string_universe rules edb"
  then consider "v = JStr []" | r where "r \<in> set rules" "Scalar v \<in> set (rule_terms r)" | f where "f \<in> set edb" "Scalar v \<in> set f"
    by (auto simp: string_universe_def)
  then have "\<exists>s. v = JStr s"
  proof cases
    case 2
    then have "string_term (Scalar v)" using assms(1) by (auto simp: list_all_iff string_rule_def)
    then show ?thesis by (cases v) simp_all
  next
    case 3
    then show ?thesis using assms(2) string_fact_scalars [of f] by (auto simp: list_all_iff js_def)
  qed simp
  then show "v \<in> Collect good_scalar" by (auto simp: good_scalar_def)
qed

lemma term_in_universe: "string_term t \<Longrightarrow> (\<And>v. t = Scalar v \<Longrightarrow> v \<in> U) \<Longrightarrow> term_in U t"
  by (cases t) auto

lemma string_universe_rules:
  assumes "list_all string_rule rules"
  shows "list_all (rule_in (string_universe rules edb)) rules"
  unfolding list_all_iff
proof
  let ?U = "string_universe rules edb"
  fix r assume r: "r \<in> set rules"
  then have s: "string_rule r" using assms by (simp add: list_all_iff)
  have t: "term_in ?U t" if "t \<in> set (rule_terms r)" for t
    using that r s by (intro term_in_universe) (auto simp: string_rule_def list_all_iff string_universe_def)
  have "atom_in ?U a" if a: "a \<in> set (rule_body r)" for a
  proof -
    have ts: "term_in ?U t" if "t \<in> set (body_terms a)" for t using t [of t] that a by (auto simp: rule_terms_def)
    have "flat_body a" using s a by (simp add: string_rule_def list_all_iff)
    then show ?thesis using ts by (cases a rule: flat_body.cases) (auto simp: list_all_iff eq_ok_def is_eq_def)
  qed
  moreover have "list_all (term_in ?U) (rule_head r)" using t by (auto simp: rule_terms_def list_all_iff)
  ultimately show "rule_in ?U r" by (simp add: rule_in_def list_all_iff)
qed

lemma string_universe_facts:
  assumes "list_all string_fact edb"
  shows "list_all (fact_in (string_universe rules edb)) edb"
  using assms string_fact_scalars by (fastforce simp: list_all_iff fact_in_def string_universe_def js_def)

text \<open>
  What the code relies on in the package \<open>pmatcher\<close>: matching of flat terms, and that the two
  engines compute the least fixpoint of plain programs.
\<close>

definition datalog_package :: "'d matcher \<Rightarrow> ('d \<Rightarrow> jstring \<rightharpoonup> jsval) \<Rightarrow> engine \<Rightarrow> engine \<Rightarrow> bool" where
  "datalog_package M look semi_naive_datalog naive_datalog \<longleftrightarrow> flat_matching M look
     \<and> (\<forall>rules edb. list_all string_rule rules \<longrightarrow> list_all derivable_rule rules \<longrightarrow> list_all string_fact edb \<longrightarrow>
          set (semi_naive_datalog rules edb) = least_model rules edb
          \<and> set (naive_datalog rules edb) = least_model rules edb)"

lemma evaluate_string_program:
  assumes "datalog_package M look semi_naive_datalog naive_datalog"
    and "list_all string_rule (prog_rules prog)" and "list_all derivable_rule (prog_rules prog)" and "list_all string_fact edb"
  shows "\<exists>n. \<forall>fuel > n. \<exists>fs. evaluate_program fuel M same semi_naive_datalog naive_datalog prog edb = Some fs
    \<and> set fs = least_model (prog_rules prog) edb"
proof (rule exI, intro allI impI)
  let ?U = "string_universe (prog_rules prog) edb"
  fix fuel assume "card (fact_space ?U (prog_rules prog) edb) < fuel"
  moreover have "flat_matching M look" "?U \<noteq> {}" using assms(1) by (auto simp: datalog_package_def string_universe_def)
  ultimately show "\<exists>fs. evaluate_program fuel M same semi_naive_datalog naive_datalog prog edb = Some fs
      \<and> set fs = least_model (prog_rules prog) edb"
    using flat_matching.evaluate_ends [of M look ?U "prog_rules prog" edb fuel same] assms
      string_universe_good string_universe_finite string_universe_rules string_universe_facts
    by (auto simp: evaluate_program_def Let_def datalog_package_def)
qed

section \<open>Layers of rules\<close>

definition consequences :: "extended_rule list \<Rightarrow> fact set \<Rightarrow> fact set" where
  "consequences rules F = {map (dinst \<sigma>) (rule_head r) | r \<sigma>. r \<in> set rules \<and> list_all (holds F \<sigma>) (rule_body r)}"

lemma least_model_modelI:
  assumes "list_all derivable_rule rules"
  shows "model_of rules edb (least_model rules edb)"
proof -
  have "map (dinst \<sigma>) (rule_head r) \<in> F"
    if "r \<in> set rules" "list_all (holds (least_model rules edb) \<sigma>) (rule_body r)" "model_of rules edb F" for r \<sigma> F
  proof -
    have "least_model rules edb \<subseteq> F" using that(3) by (auto simp: least_model_def)
    then have "list_all (holds F \<sigma>) (rule_body r)"
      using that(1,2) assms holds_mono by (fastforce simp: list_all_iff derivable_rule_def)
    then show ?thesis using that(1,3) by (simp add: model_of_def)
  qed
  then show ?thesis by (auto simp: model_of_def least_model_def)
qed

lemma least_model_eqI:
  "model_of rules edb W \<Longrightarrow> (\<And>F. model_of rules edb F \<Longrightarrow> W \<subseteq> F) \<Longrightarrow> least_model rules edb = W"
  by (auto simp: least_model_def)

lemma holds_agree:
  assumes "flat_body a" and "\<And>f p. pred_of f = Some p \<Longrightarrow> body_pred a = Some p \<Longrightarrow> f \<in> F \<longleftrightarrow> f \<in> G"
  shows "holds F \<sigma> a \<longleftrightarrow> holds G \<sigma> a"
  using assms by (cases a rule: flat_body.cases) (auto simp: is_eq_def is_neq_def)

definition head_preds :: "extended_rule list \<Rightarrow> jstring option set" where
  "head_preds rules = (\<lambda>r. pred_of (rule_head r)) ` set rules"

definition body_preds :: "extended_rule list \<Rightarrow> jstring option set" where
  "body_preds rules = (\<Union>r \<in> set rules. body_pred ` set (rule_body r)) - {None}"

lemma pred_of_dinst: "pred_of ts = Some p \<Longrightarrow> pred_of (map (dinst \<sigma>) ts) = Some p"
  by (cases ts rule: pred_of.cases) auto

lemma consequences_pred: "list_all string_rule rules \<Longrightarrow> f \<in> consequences rules F \<Longrightarrow> pred_of f \<in> head_preds rules"
proof -
  assume "list_all string_rule rules" "f \<in> consequences rules F"
  then obtain r \<sigma> p where r: "r \<in> set rules" "f = map (dinst \<sigma>) (rule_head r)" "pred_of (rule_head r) = Some p"
    unfolding consequences_def list_all_iff string_rule_def by blast
  then have "pred_of f = pred_of (rule_head r)" by (simp add: pred_of_dinst)
  then show ?thesis using r(1) by (simp add: head_preds_def)
qed

lemma holds_layer:
  assumes "list_all string_rule rules" and "list_all string_rule new" and "body_preds rules \<inter> head_preds new = {}"
    and "r \<in> set rules" and "L \<subseteq> G" and "G \<subseteq> L \<union> {f. pred_of f \<in> head_preds new}"
  shows "list_all (holds G \<sigma>) (rule_body r) \<longleftrightarrow> list_all (holds L \<sigma>) (rule_body r)"
proof -
  have "holds G \<sigma> a \<longleftrightarrow> holds L \<sigma> a" if a: "a \<in> set (rule_body r)" for a
  proof (rule holds_agree)
    show "flat_body a" using assms(1,4) a by (auto simp: list_all_iff string_rule_def)
    fix f p assume "pred_of f = Some p" "body_pred a = Some p"
    then have "pred_of f \<in> body_preds rules" using assms(4) a by (force simp: body_preds_def)
    then show "f \<in> G \<longleftrightarrow> f \<in> L" using assms(3,5,6) by auto
  qed
  then show ?thesis by (simp add: list_all_iff)
qed

lemma least_model_layer:
  assumes "list_all string_rule (old @ new)" and "list_all derivable_rule (old @ new)"
    and "body_preds (old @ new) \<inter> head_preds new = {}"
  shows "least_model (old @ new) edb = least_model old edb \<union> consequences new (least_model old edb)"
proof (rule least_model_eqI)
  let ?L = "least_model old edb"
  let ?W = "?L \<union> consequences new ?L"
  have L: "model_of old edb ?L" using assms(2) by (simp add: least_model_modelI)
  have same: "list_all (holds ?W \<sigma>) (rule_body r) \<longleftrightarrow> list_all (holds ?L \<sigma>) (rule_body r)" if "r \<in> set (old @ new)" for r \<sigma>
    using that assms(1) consequences_pred [of new _ ?L] by (intro holds_layer [OF assms(1) _ assms(3)]) auto
  have "map (dinst \<sigma>) (rule_head r) \<in> ?W" if "r \<in> set (old @ new)" "list_all (holds ?L \<sigma>) (rule_body r)" for r \<sigma>
    using that L by (auto simp: model_of_def consequences_def)
  then have "map (dinst \<sigma>) (rule_head r) \<in> ?W" if "r \<in> set (old @ new)" "list_all (holds ?W \<sigma>) (rule_body r)" for r \<sigma>
    using that same by blast
  then show "model_of (old @ new) edb ?W"
    using L unfolding model_of_def by blast
  fix F assume F: "model_of (old @ new) edb F"
  then have "model_of old edb F" by (simp add: model_of_def)
  then have "?L \<subseteq> F" by (auto simp: least_model_def)
  moreover have "consequences new ?L \<subseteq> F"
  proof
    fix f assume "f \<in> consequences new ?L"
    then obtain r \<sigma> where r: "r \<in> set new" "f = map (dinst \<sigma>) (rule_head r)" "list_all (holds ?L \<sigma>) (rule_body r)"
      by (auto simp: consequences_def)
    then have "list_all (holds F \<sigma>) (rule_body r)"
      using \<open>?L \<subseteq> F\<close> assms(2) holds_mono [of ?L F] by (fastforce simp: list_all_iff derivable_rule_def)
    then show "f \<in> F" using F r by (auto simp: model_of_def)
  qed
  ultimately show "?W \<subseteq> F" by simp
qed

lemma least_model_nil [simp]: "least_model [] edb = set edb"
  by (rule least_model_eqI) (auto simp: model_of_def)

text \<open>A single layer may negate: nothing it derives is read by it.\<close>

lemma add_all_within:
  "set fs \<subseteq> W \<Longrightarrow> set derived \<subseteq> W \<Longrightarrow> set fs \<subseteq> set (snd (add_all same derived (c, fs))) \<and> set (snd (add_all same derived (c, fs))) \<subseteq> W"
proof (induction derived arbitrary: c fs)
  case (Cons f derived)
  obtain b gs where add: "add_if_new same f fs = (b, gs)" by force
  then have "set gs \<subseteq> W" "set fs \<subseteq> set gs" using Cons.prems by (auto simp: add_if_new_def split: if_splits)
  then show ?case using Cons.IH [of gs "c \<or> b"] Cons.prems(2) add by (auto simp: add_all_def)
qed (simp add: add_all_def)

lemma naive_loop_within:
  assumes "\<And>r gs. r \<in> set rules \<Longrightarrow> set edb \<subseteq> set gs \<Longrightarrow> set gs \<subseteq> W \<Longrightarrow> set (rule_facts M same r gs) \<subseteq> W"
    and "naive_loop fuel M same rules fs = Some gs" and "set edb \<subseteq> set fs" and "set fs \<subseteq> W"
  shows "set edb \<subseteq> set gs \<and> set gs \<subseteq> W"
proof -
  have step: "set edb \<subseteq> set (snd (fold (\<lambda>r (changed, fs). add_all same (rule_facts M same r fs) (changed, fs)) rs (c, fs)))
      \<and> set (snd (fold (\<lambda>r (changed, fs). add_all same (rule_facts M same r fs) (changed, fs)) rs (c, fs))) \<subseteq> W"
    if "set rs \<subseteq> set rules" "set edb \<subseteq> set fs" "set fs \<subseteq> W" for rs c fs
    using that
  proof (induction rs arbitrary: c fs)
    case (Cons r rs)
    obtain c' fs' where add: "add_all same (rule_facts M same r fs) (c, fs) = (c', fs')" by force
    have "set fs \<subseteq> set fs' \<and> set fs' \<subseteq> W"
      using add_all_within [of fs W "rule_facts M same r fs" same c] assms(1) [of r fs] Cons.prems add by auto
    then show ?case using Cons.IH [of fs' c'] Cons.prems add by auto
  qed simp
  show ?thesis
    using assms(2-4)
  proof (induction fuel arbitrary: fs)
    case (Suc fuel)
    obtain c fs' where s: "naive_step M same rules fs = (c, fs')" by force
    then have "set edb \<subseteq> set fs' \<and> set fs' \<subseteq> W"
      using step [of rules fs False] Suc.prems by (simp add: naive_step_rule_facts)
    then show ?case using Suc.IH [of fs'] Suc.prems s by (auto split: if_splits)
  qed simp
qed

lemma evaluate_layer:
  assumes M: "flat_matching M look" and rules: "list_all string_rule rules" "list_all (\<lambda>r. safe {} (rule_body r) (rule_head r)) rules"
    and edb: "list_all string_fact edb" and layer: "body_preds rules \<inter> head_preds rules = {}"
  shows "\<exists>n. \<forall>fuel > n. \<exists>fs. evaluate_extended_naive fuel M same rules edb = Some fs \<and> set fs = set edb \<union> consequences rules (set edb)"
proof (rule exI, intro allI impI)
  let ?U = "string_universe rules edb"
  let ?W = "set edb \<union> consequences rules (set edb)"
  note U = string_universe_good [OF rules(1) edb] and facts = string_universe_facts [OF edb, of rules]
    and in_U = string_universe_rules [OF rules(1), of edb]
  fix fuel assume "card (fact_space ?U rules edb) < fuel"
  moreover have ne: "?U \<noteq> {}" "JStr [] \<in> ?U" by (auto simp: string_universe_def)
  ultimately obtain fs where fs: "evaluate_extended_naive fuel M same rules edb = Some fs" "set edb \<subseteq> set fs"
      "set fs \<subseteq> fact_space ?U rules edb" "\<forall>r \<in> set rules. set (rule_facts M same r fs) \<subseteq> set fs"
    using flat_matching.evaluate_ends [OF M U ne(1) string_universe_finite in_U facts, of fuel same]
    by (auto simp: rule_facts_def)
  have within: "fact_in ?U f" if "set gs \<subseteq> fact_space ?U rules edb" "f \<in> set gs" for f gs
    using that by (auto simp: fact_space_def fact_in_def)
  have "list_all (holds gs \<sigma>) (rule_body r) \<longleftrightarrow> list_all (holds (set edb) \<sigma>) (rule_body r)"
    if "r \<in> set rules" "set edb \<subseteq> gs" "gs \<subseteq> ?W" for r \<sigma> gs
    using that consequences_pred [OF rules(1)] by (intro holds_layer [OF rules(1) rules(1) layer]) auto
  note same_body = this
  have r_in: "list_all (term_in ?U) (rule_head r)" "list_all (atom_in ?U) (rule_body r)" if "r \<in> set rules" for r
    using in_U that by (auto simp: list_all_iff rule_in_def)
  have empty: "ran (look (empty_dict M)) \<subseteq> ?U" "dom (look (empty_dict M)) = {}"
    using flat_matching.look_empty [OF M] by auto
  let ?V = "{f \<in> ?W. fact_in ?U f}"
  have edb_V: "set edb \<subseteq> ?V" using facts by (auto simp: list_all_iff)
  have "set (rule_facts M same r gs) \<subseteq> ?V" if r: "r \<in> set rules" and gs: "set edb \<subseteq> set gs" "set gs \<subseteq> ?V" for r gs
  proof
    fix f assume "f \<in> set (rule_facts M same r gs)"
    then have f: "f \<in> set (resolve_extended M same (rule_head r) (rule_body r) gs (empty_dict M))" by (simp add: rule_facts_def)
    have g: "\<forall>g \<in> set gs. fact_in ?U g" using gs(2) by auto
    obtain \<sigma> where "list_all (holds (set gs) \<sigma>) (rule_body r)" "f = map (dinst \<sigma>) (rule_head r)"
      using flat_matching.resolve_sound [OF M U ne(2) r_in(1) [OF r] g r_in(2) [OF r] empty(1) f] by blast
    moreover have "set gs \<subseteq> ?W" using gs(2) by blast
    ultimately have "f \<in> consequences rules (set edb)" using same_body [OF r gs(1)] r by (auto simp: consequences_def)
    then show "f \<in> ?V" using flat_matching.resolve_in [OF M U ne(2) r_in(1) [OF r] g r_in(2) [OF r] empty(1) f] by simp
  qed
  then have upper: "set fs \<subseteq> ?V"
    using naive_loop_within [of rules edb ?V M same fuel edb fs] fs(1) edb_V by (auto simp: evaluate_extended_naive_def)
  have "f \<in> set fs" if f: "f \<in> consequences rules (set edb)" for f
  proof -
    obtain r \<sigma> where r: "r \<in> set rules" "f = map (dinst \<sigma>) (rule_head r)" "list_all (holds (set edb) \<sigma>) (rule_body r)"
      using f by (auto simp: consequences_def)
    have body: "list_all (holds (set fs) \<sigma>) (rule_body r)" using same_body [OF r(1) fs(2)] upper r(3) by blast
    have safe: "safe (dom (look (empty_dict M))) (rule_body r) (rule_head r)" using rules(2) r(1) empty(2) by (simp add: list_all_iff)
    have ext: "extends \<sigma> (look (empty_dict M))" using flat_matching.look_empty [OF M] by (simp add: extends_def)
    have g: "\<forall>g \<in> set fs. fact_in ?U g" using upper by auto
    have "f \<in> set (rule_facts M same r fs)"
      unfolding r(2) rule_facts_def
      by (rule flat_matching.resolve_complete [OF M U ne(2) r_in(1) [OF r(1)] g r_in(2) [OF r(1)] empty(1) safe ext body])
    then show ?thesis using fs(4) r(1) by blast
  qed
  then have "set fs = ?W" using upper fs(2) by blast
  then show "\<exists>fs. evaluate_extended_naive fuel M same rules edb = Some fs \<and> set fs = ?W" using fs(1) by blast
qed

section \<open>Reachability\<close>

definition pair_facts :: "jstring \<Rightarrow> (jsval \<times> jsval) set \<Rightarrow> fact set" where
  "pair_facts p R = (\<lambda>(a, b). [js p, Scalar a, Scalar b]) ` R"

definition pairs_in :: "jstring \<Rightarrow> fact set \<Rightarrow> (jsval \<times> jsval) set" where
  "pairs_in p F = {(a, b). [js p, Scalar a, Scalar b] \<in> F}"

lemma pair_facts_pred: "f \<in> pair_facts p R \<Longrightarrow> pred_of f = Some p"
  by (auto simp: pair_facts_def js_def)

lemma in_pair_facts [simp]: "[js q, Scalar a, Scalar b] \<in> pair_facts p R \<longleftrightarrow> q = p \<and> (a, b) \<in> R"
  by (auto simp: pair_facts_def js_def)

lemma in_pairs_in [simp]: "(a, b) \<in> pairs_in p F \<longleftrightarrow> [js p, Scalar a, Scalar b] \<in> F"
  by (simp add: pairs_in_def)

definition flow :: "fact set \<Rightarrow> (jsval \<times> jsval) set" where
  "flow F = (pairs_in ''reads'' F)\<inverse> O pairs_in ''writes'' F"

lemma js_scalar: "Scalar (JStr p) = js p"
  by (simp add: js_def)

lemmas rule_simps = make_rule_def atom_def is_eq_def is_neq_def js_scalar

lemma dinst_js [simp]: "dinst \<sigma> (js p) = js p"
  by (simp add: js_def)

lemma js_eq [simp]: "js a = js b \<longleftrightarrow> a = b" "js a = Scalar v \<longleftrightarrow> v = JStr a" "Scalar v = js a \<longleftrightarrow> v = JStr a"
  by (auto simp: js_def)

lemma valuation2: "x \<noteq> y \<Longrightarrow> \<exists>\<sigma> :: jstring \<Rightarrow> jsval. \<sigma> x = a \<and> \<sigma> y = b"
  by (rule exI [of _ "(\<lambda>_. a)(y := b)"]) simp

lemma reachability_model:
  assumes "\<And>a b. [js ''flows_to'', Scalar a, Scalar b] \<notin> set edb" and "\<And>a b. [js ''reachable'', Scalar a, Scalar b] \<notin> set edb"
  shows "least_model (flow_rule # reach_rules) edb =
    set edb \<union> pair_facts ''flows_to'' (flow (set edb)) \<union> pair_facts ''reachable'' ((flow (set edb))\<^sup>+)"
    (is "least_model ?rules edb = ?W")
proof (rule least_model_eqI)
  let ?R = "flow (set edb)"
  show "model_of ?rules edb ?W"
    unfolding model_of_def
  proof (intro conjI ballI allI impI)
    fix r \<sigma> assume r: "r \<in> set ?rules" and body: "list_all (holds ?W \<sigma>) (rule_body r)"
    have "(\<sigma> ''A'', \<sigma> ''B'') \<in> ?R" if "r = flow_rule"
      using body that assms by (auto simp: flow_rule_def rule_simps flow_def)
    moreover have "(\<sigma> ''A'', \<sigma> ''B'') \<in> ?R\<^sup>+" if "r = reach_rules ! 0"
      using body that assms by (auto simp: reach_rules_def rule_simps)
    moreover have "(\<sigma> ''A'', \<sigma> ''C'') \<in> ?R\<^sup>+" if "r = reach_rules ! 1"
      using body that assms by (auto simp: reach_rules_def rule_simps intro: trancl_into_trancl)
    ultimately show "map (dinst \<sigma>) (rule_head r) \<in> ?W"
      using r by (auto simp: flow_rule_def reach_rules_def rule_simps)
  qed auto
  fix F assume F: "model_of ?rules edb F"
  have rule: "map (dinst \<sigma>) (rule_head r) \<in> F" if "r \<in> set ?rules" "list_all (holds F \<sigma>) (rule_body r)" for r \<sigma>
    using F that unfolding model_of_def by blast
  have edb: "set edb \<subseteq> F" using F by (simp add: model_of_def)
  have flows: "[js ''flows_to'', Scalar a, Scalar b] \<in> F" if "(a, b) \<in> ?R" for a b
  proof -
    from that obtain p where p: "[js ''reads'', Scalar p, Scalar a] \<in> F" "[js ''writes'', Scalar p, Scalar b] \<in> F"
      using edb by (force simp: flow_def)
    then show ?thesis
      using rule [of flow_rule "(\<lambda>_. p)(''A'' := a, ''B'' := b)"] by (simp add: flow_rule_def rule_simps)
  qed
  have "[js ''reachable'', Scalar a, Scalar b] \<in> F" if "(a, b) \<in> ?R\<^sup>+" for a b
    using that
  proof induction
    case (base b)
    then show ?case
      using rule [of "reach_rules ! 0" "(\<lambda>_. a)(''B'' := b)"] flows by (simp add: reach_rules_def rule_simps)
  next
    case (step b c)
    then show ?case
      using rule [of "reach_rules ! 1" "(\<lambda>_. a)(''B'' := b, ''C'' := c)"] flows [of b c]
      by (simp add: reach_rules_def rule_simps)
  qed
  with flows edb show "?W \<subseteq> F" by (auto simp: pair_facts_def)
qed

section \<open>The snapshot\<close>

text \<open>The cells a cell flows to in one step, by id.\<close>

definition network_flow :: "topo_propagator list \<Rightarrow> (jstring \<times> jstring) set" where
  "network_flow props = {(tc_id a, tc_id b) | a b p. p \<in> set props \<and> a \<in> set (tp_inputs p) \<and> b \<in> set (tp_outputs p)}"

lemma strs_eq [simp]: "strs ss = strs ts \<longleftrightarrow> ss = ts"
  by (simp add: strs_def inj_map_eq_map inj_on_def js_def)

lemma strs_simps [simp]: "strs [] = []" "strs (s # ss) = js s # strs ss"
  by (simp_all add: strs_def)

lemma value_facts_mem: "f \<in> set (value_facts to_string c) \<longleftrightarrow>
    (\<exists>s. tc_value c \<noteq> JUndef \<and> tc_value c \<noteq> JNull \<and> to_string (tc_value c) = Some s \<and> f = strs [''value'', tc_id c, s])"
  by (cases "to_string (tc_value c)") (simp_all add: value_facts_def Let_def)

lemma snapshot_mem: "f \<in> set (snapshot_topology_facts to_string cells props) \<longleftrightarrow>
    (\<exists>c \<in> set cells. f \<in> set (cell_facts to_string c)) \<or> (\<exists>p \<in> set props. f \<in> set (propagator_facts p))"
  by (simp add: snapshot_topology_facts_def)

lemmas snapshot_simps = snapshot_mem cell_facts_def propagator_facts_def value_facts_mem Let_def

lemma snapshot_strings: "list_all string_fact (snapshot_topology_facts to_string cells props)"
  unfolding list_all_iff string_fact_def by (auto simp: snapshot_simps simp del: strs_simps)

lemma arcs_of_propagator:
  "[js ''reads'', Scalar p, Scalar c] \<in> set (propagator_facts prop)
     \<longleftrightarrow> p = JStr (tp_id prop) \<and> (\<exists>a \<in> set (tp_inputs prop). c = JStr (tc_id a))"
  "[js ''writes'', Scalar p, Scalar c] \<in> set (propagator_facts prop)
     \<longleftrightarrow> p = JStr (tp_id prop) \<and> (\<exists>a \<in> set (tp_outputs prop). c = JStr (tc_id a))"
  by (auto simp: propagator_facts_def Let_def image_iff)

lemma arcs_of_cell: "[js ''reads'', Scalar p, Scalar c] \<notin> set (cell_facts to_string x)"
  "[js ''writes'', Scalar p, Scalar c] \<notin> set (cell_facts to_string x)"
  by (auto simp: cell_facts_def value_facts_mem Let_def)

lemma snapshot_reads:
  "[js ''reads'', Scalar p, Scalar c] \<in> set (snapshot_topology_facts to_string cells props)
     \<longleftrightarrow> (\<exists>prop \<in> set props. p = JStr (tp_id prop) \<and> (\<exists>a \<in> set (tp_inputs prop). c = JStr (tc_id a)))"
  by (simp add: snapshot_mem arcs_of_propagator arcs_of_cell)

lemma snapshot_writes:
  "[js ''writes'', Scalar p, Scalar c] \<in> set (snapshot_topology_facts to_string cells props)
     \<longleftrightarrow> (\<exists>prop \<in> set props. p = JStr (tp_id prop) \<and> (\<exists>a \<in> set (tp_outputs prop). c = JStr (tc_id a)))"
  by (simp add: snapshot_mem arcs_of_propagator arcs_of_cell)

text \<open>The predicates of the snapshot.\<close>

definition base_preds :: "jstring set" where
  "base_preds = {''cell'', ''propagator'', ''reads'', ''writes'', ''kind'', ''namespace'', ''level'', ''label'', ''value''}"

lemma snapshot_preds: "js p # ts \<in> set (snapshot_topology_facts to_string cells props) \<Longrightarrow> p \<in> base_preds"
  by (auto simp: snapshot_simps base_preds_def)

lemma snapshot_flow:
  assumes "distinct (map tp_id props)"
  shows "flow (set (snapshot_topology_facts to_string cells props)) = map_prod JStr JStr ` network_flow props"
proof -
  have same: "p = q" if "p \<in> set props" "q \<in> set props" "tp_id p = tp_id q" for p q
    using assms that by (auto simp: distinct_map inj_on_def)
  show ?thesis (is "?L = ?R")
  proof (intro equalityI subrelI)
    fix x y assume "(x, y) \<in> ?L"
    then obtain p q a b where "p \<in> set props" "q \<in> set props" "tp_id p = tp_id q" "a \<in> set (tp_inputs p)" "b \<in> set (tp_outputs q)"
        "x = JStr (tc_id a)" "y = JStr (tc_id b)"
      by (auto simp: flow_def snapshot_reads snapshot_writes)
    moreover from this have "(tc_id a, tc_id b) \<in> network_flow props" using same [of p q] by (auto simp: network_flow_def)
    ultimately show "(x, y) \<in> ?R" by force
  next
    fix x y assume "(x, y) \<in> ?R"
    then obtain p a b where "p \<in> set props" "a \<in> set (tp_inputs p)" "b \<in> set (tp_outputs p)" "x = JStr (tc_id a)" "y = JStr (tc_id b)"
      by (auto simp: network_flow_def)
    then show "(x, y) \<in> ?L" by (force simp: flow_def snapshot_reads snapshot_writes)
  qed
qed

lemma trancl_image: "inj f \<Longrightarrow> (map_prod f f ` R)\<^sup>+ = map_prod f f ` (R\<^sup>+)"
proof (intro equalityI subrelI)
  fix x y assume "inj f" "(x, y) \<in> (map_prod f f ` R)\<^sup>+"
  from this(2) show "(x, y) \<in> map_prod f f ` (R\<^sup>+)"
  proof induction
    case (step y z)
    then obtain a b c d where "x = f a" "y = f b" "(a, b) \<in> R\<^sup>+" "y = f c" "z = f d" "(c, d) \<in> R" by auto
    then show ?case using \<open>inj f\<close> by (force simp: inj_eq intro: trancl_into_trancl)
  qed auto
next
  fix x y assume "(x, y) \<in> map_prod f f ` (R\<^sup>+)"
  then obtain a b where "x = f a" "y = f b" "(a, b) \<in> R\<^sup>+" by auto
  moreover from this(3) have "(f a, f b) \<in> (map_prod f f ` R)\<^sup>+"
    by induction (force intro: trancl_into_trancl)+
  ultimately show "(x, y) \<in> (map_prod f f ` R)\<^sup>+" by simp
qed

lemma snapshot_closure:
  assumes "distinct (map tp_id props)"
  shows "(flow (set (snapshot_topology_facts to_string cells props)))\<^sup>+ = map_prod JStr JStr ` ((network_flow props)\<^sup>+)"
  by (simp add: snapshot_flow [OF assms] trancl_image inj_def)

lemma reachability_snapshot:
  assumes "distinct (map tp_id props)"
  shows "least_model (flow_rule # reach_rules) (snapshot_topology_facts to_string cells props) =
    set (snapshot_topology_facts to_string cells props)
    \<union> (\<lambda>(a, b). strs [''flows_to'', a, b]) ` network_flow props
    \<union> (\<lambda>(a, b). strs [''reachable'', a, b]) ` ((network_flow props)\<^sup>+)"
proof -
  have "pair_facts p (map_prod JStr JStr ` R) = (\<lambda>(a, b). strs [p, a, b]) ` R" for p R
    by (force simp: pair_facts_def js_def)
  moreover have "[js ''flows_to'', Scalar a, Scalar b] \<notin> set (snapshot_topology_facts to_string cells props)"
    "[js ''reachable'', Scalar a, Scalar b] \<notin> set (snapshot_topology_facts to_string cells props)" for a b
    using snapshot_preds [of "''flows_to''"] snapshot_preds [of "''reachable''"] by (auto simp: base_preds_def)
  ultimately show ?thesis
    using reachability_model [of "snapshot_topology_facts to_string cells props"]
    by (simp add: snapshot_closure [OF assms] del: js_eq) (simp add: snapshot_flow [OF assms] del: js_eq)
qed

lemma reach_rules_ok: "list_all string_rule (flow_rule # reach_rules)" "list_all derivable_rule (flow_rule # reach_rules)"
  by (simp_all add: flow_rule_def reach_rules_def make_rule_def atom_def string_rule_def rule_terms_def derivable_rule_def vars_list_def
      is_eq_def is_neq_def)

text \<open>Programs that put one layer of rules on the closure.\<close>

definition topology_model :: "(jsval \<Rightarrow> jstring option) \<Rightarrow> topo_cell list \<Rightarrow> topo_propagator list \<Rightarrow> fact set" where
  "topology_model to_string cells props =
    set (snapshot_topology_facts to_string cells props)
    \<union> (\<lambda>(a, b). strs [''flows_to'', a, b]) ` network_flow props
    \<union> (\<lambda>(a, b). strs [''reachable'', a, b]) ` ((network_flow props)\<^sup>+)"

lemma topology_model_reachable:
  "[js ''reachable'', Scalar a, Scalar b] \<in> topology_model to_string cells props
    \<longleftrightarrow> (\<exists>x y. a = JStr x \<and> b = JStr y \<and> (x, y) \<in> (network_flow props)\<^sup>+)"
proof -
  have "[js ''reachable'', Scalar a, Scalar b] \<notin> set (snapshot_topology_facts to_string cells props)"
    using snapshot_preds [of "''reachable''"] by (auto simp: base_preds_def)
  moreover have "[js ''reachable'', Scalar a, Scalar b] \<in> (\<lambda>(a, b). strs [p, a, b]) ` R
      \<longleftrightarrow> p = ''reachable'' \<and> (\<exists>x y. a = JStr x \<and> b = JStr y \<and> (x, y) \<in> R)" for p R
    by (force simp: image_iff)
  ultimately show ?thesis by (simp add: topology_model_def del: strs_simps)
qed

lemma topology_model_reachable_js:
  "[js ''reachable'', js x, js y] \<in> topology_model to_string cells props \<longleftrightarrow> (x, y) \<in> (network_flow props)\<^sup>+"
  using topology_model_reachable [of "JStr x" "JStr y"] by (simp add: js_scalar)

text \<open>What an evaluation of a program returns when it is given enough fuel.\<close>

definition evaluates_to ::
    "'d matcher \<Rightarrow> (dterm \<Rightarrow> dterm \<Rightarrow> bool) \<Rightarrow> engine \<Rightarrow> engine \<Rightarrow> logic_program \<Rightarrow> fact list \<Rightarrow> fact set \<Rightarrow> bool" where
  "evaluates_to M same semi_naive_datalog naive_datalog prog edb F \<longleftrightarrow>
     (\<exists>n. \<forall>fuel > n. \<exists>fs. evaluate_program fuel M same semi_naive_datalog naive_datalog prog edb = Some fs \<and> set fs = F)"

lemma evaluates_toI:
  assumes "datalog_package M look semi_naive_datalog naive_datalog"
    and "list_all string_rule (prog_rules prog)" and "list_all derivable_rule (prog_rules prog)" and "list_all string_fact edb"
    and "least_model (prog_rules prog) edb = F"
  shows "evaluates_to M same semi_naive_datalog naive_datalog prog edb F"
  using evaluate_string_program [OF assms(1-4), of same] unfolding evaluates_to_def assms(5) .

text \<open>
  C7: The reachability program, run on the snapshot of a network with any strategy, returns
  the snapshot, one \<open>flows_to\<close> fact for each pair of cells some propagator reads and writes,
  and one \<open>reachable\<close> fact for each pair of cells joined by a path of propagators: the
  transitive closure of the network, cycles included.
\<close>

theorem reachability_program_exact:
  assumes "datalog_package M look semi_naive_datalog naive_datalog" and "distinct (map tp_id props)"
  shows "evaluates_to M same semi_naive_datalog naive_datalog (topology_reachability_program strategy)
    (snapshot_topology_facts to_string cells props)
    (set (snapshot_topology_facts to_string cells props)
     \<union> (\<lambda>(a, b). strs [''flows_to'', a, b]) ` network_flow props
     \<union> (\<lambda>(a, b). strs [''reachable'', a, b]) ` ((network_flow props)\<^sup>+))"
  by (rule evaluates_toI [OF assms(1) _ _ snapshot_strings])
    (use reach_rules_ok in \<open>simp_all add: topology_reachability_program_def make_program_def reachability_snapshot [OF assms(2)]\<close>)

section \<open>Orientation\<close>

lemma topology_layer:
  assumes "distinct (map tp_id props)" and "list_all string_rule new" and "list_all derivable_rule new"
    and "body_preds (flow_rule # reach_rules @ new) \<inter> head_preds new = {}"
  shows "least_model (flow_rule # reach_rules @ new) (snapshot_topology_facts to_string cells props) =
    topology_model to_string cells props \<union> consequences new (topology_model to_string cells props)"
  using least_model_layer [of "flow_rule # reach_rules" new "snapshot_topology_facts to_string cells props"] assms reach_rules_ok
  by (simp add: reachability_snapshot topology_model_def)

definition mutual_rule :: extended_rule where
  "mutual_rule = make_rule (atom ''mutual_reach'' [Element ''X'', Element ''Y''])
     [Atom (atom ''reachable'' [Element ''X'', Element ''Y'']), Atom (atom ''reachable'' [Element ''Y'', Element ''X''])]"

definition mutual_facts :: "topo_propagator list \<Rightarrow> fact set" where
  "mutual_facts props = {strs [''mutual_reach'', x, y] | x y. (x, y) \<in> (network_flow props)\<^sup>+ \<and> (y, x) \<in> (network_flow props)\<^sup>+}"

lemma consequences_Nil [simp]: "consequences [] F = {}"
  by (simp add: consequences_def)

lemma consequences_Cons:
  "consequences (r # rs) F = {map (dinst \<sigma>) (rule_head r) | \<sigma>. list_all (holds F \<sigma>) (rule_body r)} \<union> consequences rs F"
  by (auto simp: consequences_def)

lemma mutual_consequences: "consequences [mutual_rule] (topology_model to_string cells props) = mutual_facts props"
proof -
  have "f \<in> consequences [mutual_rule] (topology_model to_string cells props)" if f: "f \<in> mutual_facts props" for f
  proof -
    from f obtain x y where "f = strs [''mutual_reach'', x, y]" "(x, y) \<in> (network_flow props)\<^sup>+" "(y, x) \<in> (network_flow props)\<^sup>+"
      by (auto simp: mutual_facts_def)
    then show ?thesis
      unfolding consequences_Cons
      by (intro UnI1 CollectI exI [of _ "(\<lambda>_. JStr x)(''Y'' := JStr y)"])
        (simp add: mutual_rule_def rule_simps topology_model_reachable_js)
  qed
  moreover have "f \<in> mutual_facts props" if f: "f \<in> consequences [mutual_rule] (topology_model to_string cells props)" for f
    using f by (auto simp: consequences_Cons mutual_rule_def rule_simps topology_model_reachable mutual_facts_def)
  ultimately show ?thesis by blast
qed

lemma mutual_rule_ok: "string_rule mutual_rule" "derivable_rule mutual_rule"
  by (simp_all add: mutual_rule_def make_rule_def atom_def string_rule_def rule_terms_def derivable_rule_def vars_list_def is_eq_def is_neq_def)

lemma mutual_layer:
  assumes "distinct (map tp_id props)"
  shows "least_model (flow_rule # reach_rules @ [mutual_rule]) (snapshot_topology_facts to_string cells props) =
    topology_model to_string cells props \<union> mutual_facts props"
proof -
  have "body_preds (flow_rule # reach_rules @ [mutual_rule]) \<inter> head_preds [mutual_rule] = {}"
    by (simp add: body_preds_def head_preds_def flow_rule_def reach_rules_def mutual_rule_def make_rule_def atom_def)
  then show ?thesis
    using topology_layer [OF assms, of "[mutual_rule]"] mutual_rule_ok by (simp add: mutual_consequences)
qed

lemma mutual_program_rules: "prog_rules (topology_mutual_reach_program strategy) = flow_rule # reach_rules @ [mutual_rule]"
  by (simp add: topology_mutual_reach_program_def compose_programs_def topology_reachability_program_def make_program_def Let_def mutual_rule_def)

text \<open>Ground rules with one atom.\<close>

definition copy_rule :: "jstring \<Rightarrow> jstring \<Rightarrow> jstring \<times> jstring \<Rightarrow> jstring \<times> jstring \<Rightarrow> extended_rule" where
  "copy_rule p q xy uv = make_rule (atom p [js (fst xy), js (snd xy)]) [Atom (atom q [js (fst uv), js (snd uv)])]"

lemma copy_rule_ok:
  "q \<noteq> ''='' \<Longrightarrow> q \<noteq> ''!='' \<Longrightarrow> string_rule (copy_rule p q xy uv)" "derivable_rule (copy_rule p q xy uv)"
  by (simp_all add: copy_rule_def make_rule_def atom_def string_rule_def rule_terms_def derivable_rule_def vars_list_def is_eq_def is_neq_def js_def)

lemma copy_consequences:
  assumes "q \<noteq> ''=''" and "q \<noteq> ''!=''"
  shows "{map (dinst \<sigma>) (rule_head (copy_rule p q xy uv)) | \<sigma>. list_all (holds F \<sigma>) (rule_body (copy_rule p q xy uv))} =
    (if strs [q, fst uv, snd uv] \<in> F then {strs [p, fst xy, snd xy]} else {})"
  using assms by (auto simp: copy_rule_def rule_simps)

lemma consequences_append: "consequences (rs @ qs) F = consequences rs F \<union> consequences qs F"
  by (auto simp: consequences_def)

lemma copy_consequences_map:
  assumes "q \<noteq> ''=''" and "q \<noteq> ''!=''"
  shows "consequences (map (\<lambda>xy. copy_rule p q xy (g xy)) ps) F =
    {strs [p, x, y] | x y. (x, y) \<in> set ps \<and> strs [q, fst (g (x, y)), snd (g (x, y))] \<in> F}"
proof (induction ps)
  case (Cons xy ps)
  show ?case
    unfolding list.map consequences_Cons copy_consequences [OF assms] Cons.IH by (cases xy) (auto simp del: strs_simps)
qed simp

definition surface_rules :: "jstring \<Rightarrow> jstring \<Rightarrow> jstring \<Rightarrow> extended_rule list" where
  "surface_rules a b c =
     map (\<lambda>xy. copy_rule ''surface_dir'' ''reachable'' xy xy) (directed_pairs a b c)
     @ concat (map (\<lambda>(x, y). [copy_rule ''surface_mutual'' ''mutual_reach'' (x, y) (x, y),
         copy_rule ''surface_mutual'' ''mutual_reach'' (y, x) (x, y)]) (undirected_pairs a b c))"

lemma triad_program_rules:
  "prog_rules (topology_triad_surface_program a b c strategy) = (flow_rule # reach_rules @ [mutual_rule]) @ surface_rules a b c"
  by (simp add: topology_triad_surface_program_def compose_programs_def Let_def mutual_program_rules make_program_def
      surface_rules_def copy_rule_def case_prod_unfold directed_pairs_def undirected_pairs_def)

text \<open>The pairs of a triad, in either order.\<close>

definition triad_facts :: "jstring \<Rightarrow> jstring \<Rightarrow> jstring \<Rightarrow> topo_propagator list \<Rightarrow> fact set" where
  "triad_facts a b c props =
     {strs [''surface_dir'', x, y] | x y. (x, y) \<in> set (directed_pairs a b c) \<and> (x, y) \<in> (network_flow props)\<^sup>+}
     \<union> {strs [''surface_mutual'', x, y] | x y. (x, y) \<in> set (directed_pairs a b c)
         \<and> (x, y) \<in> (network_flow props)\<^sup>+ \<and> (y, x) \<in> (network_flow props)\<^sup>+}"

lemma surface_consequences:
  "consequences (surface_rules a b c) (topology_model to_string cells props \<union> mutual_facts props) = triad_facts a b c props"
proof -
  let ?F = "topology_model to_string cells props \<union> mutual_facts props"
  have not_mutual: "[js ''reachable'', js x, js y] \<notin> mutual_facts props" for x y by (auto simp: mutual_facts_def)
  have reach: "strs [''reachable'', x, y] \<in> ?F \<longleftrightarrow> (x, y) \<in> (network_flow props)\<^sup>+" for x y
    by (simp add: topology_model_reachable_js not_mutual)
  have no_base: "strs [''mutual_reach'', x, y] \<notin> topology_model to_string cells props" for x y
    using snapshot_preds [of "''mutual_reach''" "[js x, js y]"] by (auto simp: topology_model_def base_preds_def)
  have mutual: "strs [''mutual_reach'', x, y] \<in> ?F \<longleftrightarrow> (x, y) \<in> (network_flow props)\<^sup>+ \<and> (y, x) \<in> (network_flow props)\<^sup>+" for x y
    using no_base [of x y] by (auto simp: mutual_facts_def)
  have "consequences (concat (map (\<lambda>(x, y). [copy_rule ''surface_mutual'' ''mutual_reach'' (x, y) (x, y),
         copy_rule ''surface_mutual'' ''mutual_reach'' (y, x) (x, y)]) ps)) ?F =
      {strs [''surface_mutual'', x, y] | x y. ((x, y) \<in> set ps \<or> (y, x) \<in> set ps)
         \<and> (x, y) \<in> (network_flow props)\<^sup>+ \<and> (y, x) \<in> (network_flow props)\<^sup>+}" for ps
  proof (induction ps)
    case (Cons xy ps)
    obtain x y where xy: "xy = (x, y)" by force
    have q: "''mutual_reach'' \<noteq> ''=''" "''mutual_reach'' \<noteq> ''!=''" by simp_all
    show ?case
      unfolding xy list.map concat.simps case_prod_conv append_Cons append_Nil consequences_Cons copy_consequences [OF q]
        Cons.IH fst_conv snd_conv mutual
      by (auto simp del: strs_simps)
  qed simp
  moreover have "((x, y) \<in> set (undirected_pairs a b c) \<or> (y, x) \<in> set (undirected_pairs a b c)) \<longleftrightarrow> (x, y) \<in> set (directed_pairs a b c)" for x y
    by (auto simp: undirected_pairs_def directed_pairs_def)
  moreover have "consequences (map (\<lambda>xy. copy_rule ''surface_dir'' ''reachable'' xy xy) ps) ?F =
      {strs [''surface_dir'', x, y] | x y. (x, y) \<in> set ps \<and> (x, y) \<in> (network_flow props)\<^sup>+}" for ps
    using copy_consequences_map [of "''reachable''" "''surface_dir''" "\<lambda>xy. xy" ps ?F] reach by (simp del: strs_simps)
  ultimately show ?thesis
    by (simp only: surface_rules_def consequences_append triad_facts_def)
qed

lemma surface_rules_ok: "list_all string_rule (surface_rules a b c)" "list_all derivable_rule (surface_rules a b c)"
  by (simp_all add: surface_rules_def directed_pairs_def undirected_pairs_def copy_rule_ok)

text \<open>
  For three cells, the orientation program adds to the closure exactly the pairs of cells
  that reach each other, and among the three the directed surface edges (one for every ordered
  pair joined by a path) and the mutual ones (in both orders, where paths lead both ways).
\<close>

lemma triad_surface_exact:
  assumes "datalog_package M look semi_naive_datalog naive_datalog" and "distinct (map tp_id props)"
  shows "evaluates_to M same semi_naive_datalog naive_datalog (topology_triad_surface_program a b c strategy)
    (snapshot_topology_facts to_string cells props)
    (topology_model to_string cells props \<union> mutual_facts props \<union> triad_facts a b c props)"
proof -
  let ?old = "flow_rule # reach_rules @ [mutual_rule]" and ?snap = "snapshot_topology_facts to_string cells props"
  have "body_preds (?old @ surface_rules a b c) \<inter> head_preds (surface_rules a b c) = {}"
    by (simp add: body_preds_def head_preds_def flow_rule_def reach_rules_def mutual_rule_def make_rule_def atom_def
        surface_rules_def copy_rule_def directed_pairs_def undirected_pairs_def js_def)
  moreover have ok: "list_all string_rule (?old @ surface_rules a b c)" "list_all derivable_rule (?old @ surface_rules a b c)"
    using reach_rules_ok mutual_rule_ok surface_rules_ok by simp_all
  ultimately have "least_model (?old @ surface_rules a b c) ?snap =
      topology_model to_string cells props \<union> mutual_facts props \<union> triad_facts a b c props"
    using least_model_layer [of ?old "surface_rules a b c" ?snap] mutual_layer [OF assms(2)] by (simp add: surface_consequences)
  then show ?thesis
    using evaluates_toI [OF assms(1) _ _ snapshot_strings] ok unfolding triad_program_rules [where strategy = strategy, symmetric] by blast
qed

subsection \<open>One-way pairs\<close>

definition one_way_rule :: "jstring \<times> jstring \<Rightarrow> extended_rule" where
  "one_way_rule xy = make_rule (atom ''surface_one_way'' [js (fst xy), js (snd xy)])
     [Atom (atom ''reachable'' [js (fst xy), js (snd xy)]), NegFact (atom ''reachable'' [js (snd xy), js (fst xy)])]"

lemma one_way_program_rules:
  "prog_rules (topology_triad_one_way_surface_program a b c strategy) = map one_way_rule (directed_pairs a b c)"
  by (simp add: topology_triad_one_way_surface_program_def make_program_def one_way_rule_def case_prod_unfold)

lemma one_way_consequences:
  "consequences (map one_way_rule ps) F =
    {strs [''surface_one_way'', x, y] | x y. (x, y) \<in> set ps \<and> strs [''reachable'', x, y] \<in> F \<and> strs [''reachable'', y, x] \<notin> F}"
proof (induction ps)
  case (Cons xy ps)
  have "{map (dinst \<sigma>) (rule_head (one_way_rule xy)) | \<sigma>. list_all (holds F \<sigma>) (rule_body (one_way_rule xy))} =
      (if strs [''reachable'', fst xy, snd xy] \<in> F \<and> strs [''reachable'', snd xy, fst xy] \<notin> F
       then {strs [''surface_one_way'', fst xy, snd xy]} else {})"
    by (simp add: one_way_rule_def rule_simps)
  then show ?case
    unfolding list.map consequences_Cons Cons.IH by (cases xy) (auto simp del: strs_simps)
qed simp

lemma one_way_rules_ok: "list_all string_rule (map one_way_rule ps)"
  "list_all (\<lambda>r. safe {} (rule_body r) (rule_head r)) (map one_way_rule ps)"
  "body_preds (map one_way_rule ps) \<inter> head_preds (map one_way_rule ps) = {}"
  by (auto simp: list_all_iff one_way_rule_def make_rule_def atom_def string_rule_def rule_terms_def vars_list_def is_eq_def is_neq_def
      js_def body_preds_def head_preds_def)

lemma one_way_extended: "ps \<noteq> [] \<Longrightarrow> has_extended_atoms (map one_way_rule ps)"
  by (cases ps) (simp_all add: has_extended_atoms_def one_way_rule_def make_rule_def)

lemma one_way_evaluates:
  assumes "flat_matching M look" and "list_all string_fact edb"
  shows "evaluates_to M same semi_naive_datalog naive_datalog (topology_triad_one_way_surface_program a b c strategy) edb
    (set edb \<union> {strs [''surface_one_way'', x, y] | x y. (x, y) \<in> set (directed_pairs a b c)
       \<and> strs [''reachable'', x, y] \<in> set edb \<and> strs [''reachable'', y, x] \<notin> set edb})"
  using evaluate_layer [OF assms(1) one_way_rules_ok(1,2) assms(2) one_way_rules_ok(3), where same = same, of "directed_pairs a b c"]
    one_way_extended [of "directed_pairs a b c"]
  unfolding evaluates_to_def one_way_consequences evaluate_program_def one_way_program_rules
  by (simp add: directed_pairs_def Let_def del: strs_simps)

text \<open>
  C8: The two stages of the one-way program: the first returns the closure with the mutual
  pairs, and the second, run on whatever list of these facts the first returned, adds exactly
  the pairs of the triad with a path one way and none back; its negation reads the finished
  closure.
\<close>

theorem one_way_stages_exact:
  assumes "datalog_package M look semi_naive_datalog naive_datalog" and "distinct (map tp_id props)"
  shows "evaluates_to M same semi_naive_datalog naive_datalog (topology_mutual_reach_program strategy)
      (snapshot_topology_facts to_string cells props) (topology_model to_string cells props \<union> mutual_facts props)
    \<and> (\<forall>edb. set edb = topology_model to_string cells props \<union> mutual_facts props \<longrightarrow>
        evaluates_to M same semi_naive_datalog naive_datalog (topology_triad_one_way_surface_program a b c strategy) edb
          (set edb \<union> {strs [''surface_one_way'', x, y] | x y. (x, y) \<in> set (directed_pairs a b c)
             \<and> (x, y) \<in> (network_flow props)\<^sup>+ \<and> (y, x) \<notin> (network_flow props)\<^sup>+}))"
proof (intro conjI allI impI)
  have ok: "list_all string_rule (prog_rules (topology_mutual_reach_program strategy))"
    "list_all derivable_rule (prog_rules (topology_mutual_reach_program strategy))"
    using reach_rules_ok mutual_rule_ok by (simp_all add: mutual_program_rules)
  show "evaluates_to M same semi_naive_datalog naive_datalog (topology_mutual_reach_program strategy)
      (snapshot_topology_facts to_string cells props) (topology_model to_string cells props \<union> mutual_facts props)"
    by (rule evaluates_toI [OF assms(1) ok snapshot_strings]) (simp add: mutual_program_rules mutual_layer [OF assms(2)])
  fix edb assume edb: "set edb = topology_model to_string cells props \<union> mutual_facts props"
  have "string_fact f" if "f \<in> set edb" for f
    using that snapshot_strings [of to_string cells props]
    by (auto simp: edb topology_model_def mutual_facts_def list_all_iff string_fact_def simp del: strs_simps)
  then have s: "list_all string_fact edb" by (simp add: list_all_iff)
  have "[js ''reachable'', js x, js y] \<notin> mutual_facts props" for x y by (auto simp: mutual_facts_def)
  then have "strs [''reachable'', x, y] \<in> set edb \<longleftrightarrow> (x, y) \<in> (network_flow props)\<^sup>+" for x y
    by (simp add: edb topology_model_reachable_js)
  then show "evaluates_to M same semi_naive_datalog naive_datalog (topology_triad_one_way_surface_program a b c strategy) edb
      (set edb \<union> {strs [''surface_one_way'', x, y] | x y. (x, y) \<in> set (directed_pairs a b c)
         \<and> (x, y) \<in> (network_flow props)\<^sup>+ \<and> (y, x) \<notin> (network_flow props)\<^sup>+})"
    using one_way_evaluates [OF _ s, of M look same semi_naive_datalog naive_datalog a b c strategy] assms(1)
    unfolding datalog_package_def by (simp del: strs_simps)
qed

section \<open>Paths\<close>

text \<open>The hops of a network: from a cell through a propagator to a cell.\<close>

definition network_hops :: "topo_propagator list \<Rightarrow> (jstring \<times> jstring \<times> jstring) set" where
  "network_hops props = {(tc_id a, tp_id p, tc_id b) | a p b. p \<in> set props \<and> a \<in> set (tp_inputs p) \<and> b \<in> set (tp_outputs p)}"

definition hop_facts :: "topo_propagator list \<Rightarrow> fact set" where
  "hop_facts props = {strs [''hop'', x, p, y] | x p y. (x, p, y) \<in> network_hops props}"

definition path2_facts :: "topo_propagator list \<Rightarrow> fact set" where
  "path2_facts props = {strs [''path2'', s, p1, m, p2, t] | s p1 m p2 t. (s, p1, m) \<in> network_hops props \<and> (m, p2, t) \<in> network_hops props}"

definition path3_facts :: "topo_propagator list \<Rightarrow> fact set" where
  "path3_facts props = {strs [''path3'', s, p1, m1, p2, m2, p3, t] | s p1 m1 p2 m2 p3 t.
     (s, p1, m1) \<in> network_hops props \<and> (m1, p2, m2) \<in> network_hops props \<and> (m2, p3, t) \<in> network_hops props}"

definition hop_rule :: extended_rule where
  "hop_rule = make_rule (hop_atom ''From'' ''P'' ''To'')
     [Atom (atom ''reads'' [Element ''P'', Element ''From'']), Atom (atom ''writes'' [Element ''P'', Element ''To''])]"

definition path2_rule :: extended_rule where
  "path2_rule = make_rule (atom ''path2'' [Element ''S'', Element ''P1'', Element ''M'', Element ''P2'', Element ''T''])
     [Atom (hop_atom ''S'' ''P1'' ''M''), Atom (hop_atom ''M'' ''P2'' ''T'')]"

definition path3_rule :: extended_rule where
  "path3_rule = make_rule (atom ''path3'' [Element ''S'', Element ''P1'', Element ''M1'', Element ''P2'', Element ''M2'', Element ''P3'', Element ''T''])
     [Atom (hop_atom ''S'' ''P1'' ''M1''), Atom (hop_atom ''M1'' ''P2'' ''M2''), Atom (hop_atom ''M2'' ''P3'' ''T'')]"

lemmas path_rule_defs = hop_rule_def path2_rule_def path3_rule_def hop_atom_def

lemma path3_program_rules: "prog_rules topology_path3_program = [hop_rule, path2_rule, path3_rule]"
  by (simp add: topology_path3_program_def topology_path2_program_def topology_hop_program_def compose_programs_def make_program_def
      path_rule_defs)

lemma path_rules_ok: "list_all string_rule [hop_rule, path2_rule, path3_rule]" "list_all derivable_rule [hop_rule, path2_rule, path3_rule]"
  by (simp_all add: path_rule_defs make_rule_def atom_def string_rule_def rule_terms_def derivable_rule_def vars_list_def
      is_eq_def is_neq_def) 

lemma hop_consequences:
  assumes "distinct (map tp_id props)"
  shows "consequences [hop_rule] (set (snapshot_topology_facts to_string cells props)) = hop_facts props"
proof -
  have same: "p = q" if "p \<in> set props" "q \<in> set props" "tp_id p = tp_id q" for p q
    using assms that by (auto simp: distinct_map inj_on_def)
  have "f \<in> consequences [hop_rule] (set (snapshot_topology_facts to_string cells props))" if f: "f \<in> hop_facts props" for f
  proof -
    from f obtain p a b where "f = strs [''hop'', tc_id a, tp_id p, tc_id b]" "p \<in> set props" "a \<in> set (tp_inputs p)" "b \<in> set (tp_outputs p)"
      by (auto simp: hop_facts_def network_hops_def)
    then show ?thesis
      unfolding consequences_Cons
      by (intro UnI1 CollectI exI [of _ "(\<lambda>_. JStr (tc_id a))(''P'' := JStr (tp_id p), ''To'' := JStr (tc_id b))"])
        (auto simp: path_rule_defs make_rule_def atom_def is_eq_def is_neq_def js_def snapshot_reads [unfolded js_def] snapshot_writes [unfolded js_def])
  qed
  moreover have "f \<in> hop_facts props" if "f \<in> consequences [hop_rule] (set (snapshot_topology_facts to_string cells props))" for f
  proof -
    from that obtain \<sigma> where "f = [js ''hop'', Scalar (\<sigma> ''From''), Scalar (\<sigma> ''P''), Scalar (\<sigma> ''To'')]"
        "[js ''reads'', Scalar (\<sigma> ''P''), Scalar (\<sigma> ''From'')] \<in> set (snapshot_topology_facts to_string cells props)"
        "[js ''writes'', Scalar (\<sigma> ''P''), Scalar (\<sigma> ''To'')] \<in> set (snapshot_topology_facts to_string cells props)"
      by (auto simp: consequences_Cons path_rule_defs rule_simps)
    then obtain p q a b where "f = strs [''hop'', tc_id a, tp_id p, tc_id b]" "p \<in> set props" "q \<in> set props" "tp_id p = tp_id q"
        "a \<in> set (tp_inputs p)" "b \<in> set (tp_outputs q)"
      by (auto simp: snapshot_reads snapshot_writes js_scalar) metis
    then show ?thesis using same [of p q] by (auto simp: hop_facts_def network_hops_def simp del: strs_simps)
  qed
  ultimately show ?thesis by blast
qed

lemma in_hop_facts: "[js ''hop'', Scalar x, Scalar p, Scalar y] \<in> hop_facts props
    \<longleftrightarrow> (\<exists>a q b. x = JStr a \<and> p = JStr q \<and> y = JStr b \<and> (a, q, b) \<in> network_hops props)"
  by (auto simp: hop_facts_def)

definition knows_hops :: "topo_propagator list \<Rightarrow> fact set \<Rightarrow> bool" where
  "knows_hops props F \<longleftrightarrow> (\<forall>x p y. [js ''hop'', Scalar x, Scalar p, Scalar y] \<in> F
     \<longleftrightarrow> [js ''hop'', Scalar x, Scalar p, Scalar y] \<in> hop_facts props)"

lemma knows_hops_js:
  assumes "knows_hops props F"
  shows "[js ''hop'', js x, js p, js y] \<in> F \<longleftrightarrow> (x, p, y) \<in> network_hops props"
proof -
  have "[js ''hop'', Scalar (JStr x), Scalar (JStr p), Scalar (JStr y)] \<in> F \<longleftrightarrow> (x, p, y) \<in> network_hops props"
    using assms unfolding knows_hops_def in_hop_facts by simp
  then show ?thesis by (simp only: js_def)
qed

lemma path2_consequences:
  assumes "knows_hops props F"
  shows "consequences [path2_rule] F = path2_facts props"
proof -
  have "f \<in> consequences [path2_rule] F" if f: "f \<in> path2_facts props" for f
  proof -
    from f obtain s p1 m p2 t where "f = strs [''path2'', s, p1, m, p2, t]" "(s, p1, m) \<in> network_hops props" "(m, p2, t) \<in> network_hops props"
      by (auto simp: path2_facts_def)
    then show ?thesis
      unfolding consequences_Cons
      by (intro UnI1 CollectI exI [of _ "(\<lambda>_. JStr s)(''P1'' := JStr p1, ''M'' := JStr m, ''P2'' := JStr p2, ''T'' := JStr t)"])
        (simp add: path_rule_defs rule_simps knows_hops_js [OF assms])
  qed
  moreover have "f \<in> path2_facts props" if "f \<in> consequences [path2_rule] F" for f
    using that assms
    by (auto simp: consequences_Cons path_rule_defs rule_simps knows_hops_def in_hop_facts path2_facts_def)
  ultimately show ?thesis by blast
qed

lemma path3_consequences:
  assumes "knows_hops props F"
  shows "consequences [path3_rule] F = path3_facts props"
proof -
  have "f \<in> consequences [path3_rule] F" if f: "f \<in> path3_facts props" for f
  proof -
    from f obtain s p1 m1 p2 m2 p3 t where "f = strs [''path3'', s, p1, m1, p2, m2, p3, t]" "(s, p1, m1) \<in> network_hops props"
        "(m1, p2, m2) \<in> network_hops props" "(m2, p3, t) \<in> network_hops props"
      by (auto simp: path3_facts_def)
    then show ?thesis
      unfolding consequences_Cons
      by (intro UnI1 CollectI exI [of _ "(\<lambda>_. JStr s)(''P1'' := JStr p1, ''M1'' := JStr m1, ''P2'' := JStr p2, ''M2'' := JStr m2,
            ''P3'' := JStr p3, ''T'' := JStr t)"])
        (simp add: path_rule_defs rule_simps knows_hops_js [OF assms])
  qed
  moreover have "f \<in> path3_facts props" if "f \<in> consequences [path3_rule] F" for f
    using that assms
    by (auto simp: consequences_Cons path_rule_defs rule_simps knows_hops_def in_hop_facts path3_facts_def)
  ultimately show ?thesis by blast
qed

text \<open>
  The path program lists every walk of two and of three steps of the network with all the
  cells and propagators on it, and nothing else: on the snapshot it returns the snapshot, the
  hops, and one fact for each such walk.
\<close>

lemma path3_program_exact:
  assumes "datalog_package M look semi_naive_datalog naive_datalog" and "distinct (map tp_id props)"
  shows "evaluates_to M same semi_naive_datalog naive_datalog topology_path3_program (snapshot_topology_facts to_string cells props)
    (set (snapshot_topology_facts to_string cells props) \<union> hop_facts props \<union> path2_facts props \<union> path3_facts props)"
proof -
  let ?snap = "snapshot_topology_facts to_string cells props"
  have preds: "body_preds [hop_rule] \<inter> head_preds [hop_rule] = {}"
    "body_preds [hop_rule, path2_rule] \<inter> head_preds [path2_rule] = {}"
    "body_preds [hop_rule, path2_rule, path3_rule] \<inter> head_preds [path3_rule] = {}"
    by (simp_all add: body_preds_def head_preds_def path_rule_defs make_rule_def atom_def)
  have no_hop: "[js ''hop'', Scalar x, Scalar p, Scalar y] \<notin> set ?snap" for x p y
    using snapshot_preds [of "''hop''"] by (auto simp: base_preds_def)
  have k1: "knows_hops props (set ?snap \<union> hop_facts props)" using no_hop by (auto simp: knows_hops_def)
  have k2: "knows_hops props (set ?snap \<union> hop_facts props \<union> path2_facts props)"
    using no_hop by (auto simp: knows_hops_def path2_facts_def)
  have l1: "least_model [hop_rule] ?snap = set ?snap \<union> hop_facts props"
    using least_model_layer [of "[]" "[hop_rule]" ?snap] path_rules_ok preds(1) by (simp add: hop_consequences [OF assms(2)])
  have l2: "least_model [hop_rule, path2_rule] ?snap = set ?snap \<union> hop_facts props \<union> path2_facts props"
    using least_model_layer [of "[hop_rule]" "[path2_rule]" ?snap] path_rules_ok preds(2) by (simp add: l1 path2_consequences [OF k1])
  have l3: "least_model [hop_rule, path2_rule, path3_rule] ?snap =
      set ?snap \<union> hop_facts props \<union> path2_facts props \<union> path3_facts props"
    using least_model_layer [of "[hop_rule, path2_rule]" "[path3_rule]" ?snap] path_rules_ok preds(3)
    by (simp add: l2 path3_consequences [OF k2])
  show ?thesis
    by (rule evaluates_toI [OF assms(1) _ _ snapshot_strings]) (use path_rules_ok in \<open>simp_all add: path3_program_rules l3\<close>)
qed

section \<open>A package and a network\<close>

definition list_terms :: "extended_rule list \<Rightarrow> fact list \<Rightarrow> dterm list" where
  "list_terms rules edb = concat (map rule_terms rules) @ concat edb"

definition list_fuel :: "extended_rule list \<Rightarrow> fact list \<Rightarrow> nat" where
  "list_fuel rules edb = Suc (sum_list (map (\<lambda>n. Suc (length (list_terms rules edb)) ^ n)
     (remdups (map length edb @ map (\<lambda>r. length (rule_head r)) rules))))"

definition list_engine :: engine where
  "list_engine rules edb =
     (case evaluate_extended_naive (list_fuel rules edb) list_matcher (\<lambda>_ _. False) rules edb of Some fs \<Rightarrow> fs | None \<Rightarrow> [])"

lemma string_universe_card: "card (string_universe rules edb) \<le> Suc (length (list_terms rules edb))"
proof -
  have "{v. Scalar v \<in> set ts} \<subseteq> set (map (\<lambda>t. case t of Scalar v \<Rightarrow> v | _ \<Rightarrow> JUndef) ts)" for ts
    by (force split: dterm.split)
  from this [of "list_terms rules edb"]
  have "string_universe rules edb \<subseteq> set (JStr [] # map (\<lambda>t. case t of Scalar v \<Rightarrow> v | _ \<Rightarrow> JUndef) (list_terms rules edb))"
    unfolding string_universe_def list_terms_def by (simp add: subset_insertI2)
  then have "card (string_universe rules edb) \<le> card (set (JStr [] # map (\<lambda>t. case t of Scalar v \<Rightarrow> v | _ \<Rightarrow> JUndef) (list_terms rules edb)))"
    by (intro card_mono) simp_all
  also have "\<dots> \<le> length (JStr [] # map (\<lambda>t. case t of Scalar v \<Rightarrow> v | _ \<Rightarrow> JUndef) (list_terms rules edb))" by (rule card_length)
  finally show ?thesis by simp
qed

lemma list_fuel_enough: "card (fact_space (string_universe rules edb) rules edb) < list_fuel rules edb"
proof -
  let ?U = "string_universe rules edb" and ?ns = "remdups (map length edb @ map (\<lambda>r. length (rule_head r)) rules)"
  let ?F = "\<lambda>n. {f. set f \<subseteq> Scalar ` ?U \<and> length f = n}"
  have "card (?F n) \<le> Suc (length (list_terms rules edb)) ^ n" for n
  proof -
    have "card (Scalar ` ?U) \<le> Suc (length (list_terms rules edb))"
      using card_image_le [OF string_universe_finite, of Scalar rules edb] string_universe_card [of rules edb] by simp
    then show ?thesis by (simp add: card_lists_length_eq string_universe_finite power_mono)
  qed
  moreover have "fact_space ?U rules edb = (\<Union>n \<in> set ?ns. ?F n)" by (auto simp: fact_space_def)
  ultimately have "card (fact_space ?U rules edb) \<le> (\<Sum>n \<in> set ?ns. Suc (length (list_terms rules edb)) ^ n)"
    by (metis (no_types, lifting) List.finite_set card_UN_le order_trans sum_mono)
  also have "\<dots> = sum_list (map (\<lambda>n. Suc (length (list_terms rules edb)) ^ n) ?ns)"
    by (rule sum_list_distinct_conv_sum_set [symmetric]) simp
  finally show ?thesis by (simp add: list_fuel_def)
qed

lemma list_package: "datalog_package list_matcher map_of list_engine list_engine"
proof -
  have "set (list_engine rules edb) = least_model rules edb"
    if "list_all string_rule rules" "list_all derivable_rule rules" "list_all string_fact edb" for rules edb
  proof -
    have ne: "string_universe rules edb \<noteq> {}" by (simp add: string_universe_def)
    show ?thesis
      using flat_matching.evaluate_ends [OF list_matching.flat_matching_axioms string_universe_good [OF that(1,3)] ne string_universe_finite
          string_universe_rules [OF that(1)] string_universe_facts [OF that(3)] list_fuel_enough, of "\<lambda>_ _. False"] that(2)
      by (auto simp: list_engine_def)
  qed
  then show ?thesis using list_matching.flat_matching_axioms by (simp add: datalog_package_def)
qed

text \<open>Three cells in a row.\<close>

definition sample_cell :: "jstring \<Rightarrow> topo_cell" where
  "sample_cell s = \<lparr>tc_id = s, tc_name = ''n|'' @ s, tc_level = Dec 0 0, tc_value = JUndef\<rparr>"

definition sample_props :: "topo_propagator list" where
  "sample_props =
     [\<lparr>tp_id = ''p'', tp_name = ''p'', tp_level = Dec 0 0, tp_inputs = [sample_cell ''a''], tp_outputs = [sample_cell ''b'']\<rparr>,
      \<lparr>tp_id = ''q'', tp_name = ''q'', tp_level = Dec 0 0, tp_inputs = [sample_cell ''b''], tp_outputs = [sample_cell ''c'']\<rparr>]"

definition sample_snapshot :: "fact list" where
  "sample_snapshot = snapshot_topology_facts (\<lambda>_. None) (map sample_cell [''a'', ''b'', ''c'']) sample_props"

lemma network_flow_Cons: "network_flow (p # ps) =
    (\<lambda>(a, b). (tc_id a, tc_id b)) ` (set (tp_inputs p) \<times> set (tp_outputs p)) \<union> network_flow ps"
  by (auto simp: network_flow_def)

lemma network_hops_Cons: "network_hops (p # ps) =
    (\<lambda>(a, b). (tc_id a, tp_id p, tc_id b)) ` (set (tp_inputs p) \<times> set (tp_outputs p)) \<union> network_hops ps"
  by (auto simp: network_hops_def)

lemma sample_flow: "network_flow sample_props = {(''a'', ''b''), (''b'', ''c'')}"
  by (simp add: network_flow_Cons sample_props_def sample_cell_def insert_commute) (auto simp: network_flow_def)

lemma sample_closure: "(''a'', ''c'') \<in> (network_flow sample_props)\<^sup>+" "(''c'', ''a'') \<notin> (network_flow sample_props)\<^sup>+"
proof -
  show "(''a'', ''c'') \<in> (network_flow sample_props)\<^sup>+" unfolding sample_flow
    by (rule trancl_into_trancl [OF r_into_trancl, of _ "''b''"]) simp_all
  have "x \<noteq> ''c''" if "(x, y) \<in> (network_flow sample_props)\<^sup>+" for x y
    using that unfolding sample_flow by (induction) auto
  then show "(''c'', ''a'') \<notin> (network_flow sample_props)\<^sup>+" by blast
qed

lemma sample_distinct: "distinct (map tp_id sample_props)"
  by (simp add: sample_props_def)

theorem reachability_program_exact_witness:
  "\<exists>n. \<forall>fuel > n. \<exists>fs. evaluate_program fuel list_matcher (\<lambda>_ _. False) list_engine list_engine (topology_reachability_program None)
     sample_snapshot = Some fs \<and> strs [''reachable'', ''a'', ''c''] \<in> set fs"
proof -
  have "strs [''reachable'', ''a'', ''c''] \<in> (\<lambda>(a, b). strs [''reachable'', a, b]) ` ((network_flow sample_props)\<^sup>+)"
    using sample_closure(1) by force
  then show ?thesis
    using reachability_program_exact [OF list_package sample_distinct, of "\<lambda>_ _. False" None "\<lambda>_. None" "map sample_cell [''a'', ''b'', ''c'']"]
    unfolding evaluates_to_def sample_snapshot_def by (metis (no_types, lifting) UnCI)
qed

theorem one_way_stages_exact_witness:
  "\<exists>edb. set edb = topology_model (\<lambda>_. None) (map sample_cell [''a'', ''b'', ''c'']) sample_props \<union> mutual_facts sample_props
     \<and> evaluates_to list_matcher (\<lambda>_ _. False) list_engine list_engine (topology_triad_one_way_surface_program ''a'' ''b'' ''c'' None) edb
          (set edb \<union> {strs [''surface_one_way'', x, y] | x y. (x, y) \<in> set (directed_pairs ''a'' ''b'' ''c'')
             \<and> (x, y) \<in> (network_flow sample_props)\<^sup>+ \<and> (y, x) \<notin> (network_flow sample_props)\<^sup>+})"
proof -
  note stages = one_way_stages_exact [OF list_package sample_distinct, of "\<lambda>_ _. False" None "\<lambda>_. None"
      "map sample_cell [''a'', ''b'', ''c'']" "''a''" "''b''" "''c''"]
  then obtain edb where "set edb = topology_model (\<lambda>_. None) (map sample_cell [''a'', ''b'', ''c'']) sample_props \<union> mutual_facts sample_props"
    unfolding evaluates_to_def by blast
  then show ?thesis using stages by blast
qed

end
