(* ===== verification/Topology_Graph_Spec.thy ===== *)
theory Topology_Graph_Spec
  imports Topology_Semantics
begin

text \<open>
  The graph built from a snapshot is the part of the network on the kept ids, with the attributes
  of its cells and propagators; merging fact sets is a union that keeps the order in which the
  facts became known.
\<close>

section \<open>Attributes\<close>

definition acc_step :: "fact \<Rightarrow> node_attr_acc \<Rightarrow> node_attr_acc" where
  "acc_step f acc = update_acc (str_at f 0) (str_at f 2) acc"

definition about :: "jstring \<Rightarrow> fact list \<Rightarrow> fact list" where
  "about nid facts = filter (\<lambda>f. str_at f 1 = Some nid) facts"

definition acc_of :: "jstring \<Rightarrow> fact list \<Rightarrow> node_attr_acc \<Rightarrow> node_attr_acc" where
  "acc_of nid facts acc = fold acc_step (about nid facts) acc"

definition or_new :: "jstring \<Rightarrow> node_attr_acc option \<Rightarrow> node_attr_acc" where
  "or_new nid a = (case a of None \<Rightarrow> new_acc nid | Some acc \<Rightarrow> acc)"

lemma or_new_None [simp]: "or_new nid None = new_acc nid"
  by (simp add: or_new_def)

lemma note_fact_lookup:
  assumes "nid \<in> set keep"
  shows "or_new nid (map_of (note_fact keep f m) nid) =
    (if str_at f 1 = Some nid then acc_step f (or_new nid (map_of m nid)) else or_new nid (map_of m nid))"
proof -
  have ensure: "map_of (ensure_acc n m) n' = (if n' = n then Some (or_new n (map_of m n)) else map_of m n')" for n n'
    by (auto simp: ensure_acc_def or_new_def update_conv' split: option.splits)
  show ?thesis
    using assms by (auto simp: note_fact_def ensure update_conv' acc_step_def or_new_def Let_def split: option.splits)
qed

lemma notes_lookup:
  assumes "nid \<in> set keep"
  shows "or_new nid (map_of (fold (note_fact keep) facts m) nid) = acc_of nid facts (or_new nid (map_of m nid))"
  by (induction facts arbitrary: m) (simp_all add: acc_of_def about_def note_fact_lookup [OF assms])

lemma ensure_lookup: "(case map_of (ensure_acc nid m) nid of Some a \<Rightarrow> a | None \<Rightarrow> new_acc nid) = or_new nid (map_of m nid)"
  by (simp add: ensure_acc_def or_new_def update_conv' split: option.split)

text \<open>What a snapshot says of one cell or propagator.\<close>

lemma about_append: "about nid (fs @ gs) = about nid fs @ about nid gs"
  by (simp add: about_def)

lemma about_all: "(\<And>f. f \<in> set fs \<Longrightarrow> str_at f 1 = Some x) \<Longrightarrow> about nid fs = (if nid = x then fs else [])"
  by (auto simp: about_def filter_empty_conv intro: filter_True)

lemma str_at_strs [simp]: "str_at (strs ss) i = (if i < length ss then Some (ss ! i) else None)"
  by (simp add: str_at_def strs_def js_def)

lemma str_at_js [simp]: "str_at (js s # f) 0 = Some s" "str_at (t # f) (Suc i) = str_at f i"
  by (simp_all add: str_at_def js_def)

lemma about_cell: "about nid (cell_facts to_string c) = (if nid = tc_id c then cell_facts to_string c else [])"
  by (rule about_all) (auto simp: cell_facts_def value_facts_mem Let_def)

lemma about_propagator: "about nid (propagator_facts p) = (if nid = tp_id p then propagator_facts p else [])"
  by (rule about_all) (auto simp: propagator_facts_def Let_def)

lemma about_concat:
  assumes "\<And>x. about nid (g x) = (if nid = k x then g x else [])" and "distinct (map k xs)"
  shows "about nid (concat (map g xs)) = (case find (\<lambda>x. k x = nid) xs of None \<Rightarrow> [] | Some x \<Rightarrow> g x)"
  using assms(2)
proof (induction xs)
  case (Cons x xs)
  have "find (\<lambda>y. k y = nid) xs = None" if "k x = nid" using that Cons.prems unfolding find_None_iff by (metis distinct.simps(2) image_eqI list.map(2) list.set_map)
  then show ?case using Cons by (auto simp: about_append assms(1))
qed (simp add: about_def)

lemma find_unique: "distinct (map k xs) \<Longrightarrow> x \<in> set xs \<Longrightarrow> find (\<lambda>y. k y = k x) xs = Some x"
  by (induction xs) (auto simp: rev_image_eqI)

definition cell_acc :: "(jsval \<Rightarrow> jstring option) \<Rightarrow> topo_cell \<Rightarrow> node_attr_acc" where
  "cell_acc to_string c = \<lparr>na_label = tc_name c, na_kind = ''cell'', na_namespace = label_to_namespace (tc_name c),
     na_level = parse_level (num_to_string (tc_level c)),
     na_value = (if tc_value c = JUndef \<or> tc_value c = JNull then None else to_string (tc_value c))\<rparr>"

definition propagator_acc :: "topo_propagator \<Rightarrow> node_attr_acc" where
  "propagator_acc p = \<lparr>na_label = tp_name p, na_kind = ''propagator'', na_namespace = label_to_namespace (tp_name p),
     na_level = parse_level (num_to_string (tp_level p)), na_value = None\<rparr>"

declare strs_simps [simp del]

lemma acc_step_strs [simp]: "acc_step (strs [tag, nid, arg]) acc = update_acc (Some tag) (Some arg) acc"
  by (simp add: acc_step_def)

lemma update_acc_tags [simp]:
  "update_acc (Some ''cell'') (Some v) acc = acc\<lparr>na_label := v\<rparr>"
  "update_acc (Some ''propagator'') (Some v) acc = acc\<lparr>na_label := v\<rparr>"
  "update_acc (Some ''label'') (Some v) acc = acc\<lparr>na_label := v\<rparr>"
  "update_acc (Some ''namespace'') (Some v) acc = acc\<lparr>na_namespace := v\<rparr>"
  "update_acc (Some ''level'') (Some v) acc = acc\<lparr>na_level := parse_level v\<rparr>"
  "update_acc (Some ''kind'') (Some ''cell'') acc = acc\<lparr>na_kind := ''cell''\<rparr>"
  "update_acc (Some ''kind'') (Some ''prop'') acc = acc\<lparr>na_kind := ''propagator''\<rparr>"
  "update_acc (Some ''value'') (Some v) acc = acc\<lparr>na_value := Some v\<rparr>"
  "update_acc (Some ''reads'') (Some v) acc = acc" "update_acc (Some ''writes'') (Some v) acc = acc"
  by (simp_all add: update_acc_def)

lemma fold_cell_facts: "fold acc_step (cell_facts to_string c) (new_acc (tc_id c)) = cell_acc to_string c"
  by (cases "to_string (tc_value c)")
    (simp_all add: cell_facts_def value_facts_def Let_def new_acc_def cell_acc_def)

lemma fold_arcs: "fold acc_step (map (\<lambda>x. strs [''reads'', pid, tc_id x]) xs) acc = acc"
  "fold acc_step (map (\<lambda>x. strs [''writes'', pid, tc_id x]) xs) acc = acc"
  by (induction xs) simp_all

lemma fold_propagator_facts: "fold acc_step (propagator_facts p) (new_acc (tp_id p)) = propagator_acc p"
  unfolding propagator_facts_def Let_def fold_append comp_apply fold_arcs
  by (simp add: new_acc_def propagator_acc_def)

lemma snapshot_acc:
  assumes "distinct (map tc_id cells @ map tp_id props)"
  shows "c \<in> set cells \<Longrightarrow> acc_of (tc_id c) (snapshot_topology_facts to_string cells props) (new_acc (tc_id c)) = cell_acc to_string c"
    and "p \<in> set props \<Longrightarrow> acc_of (tp_id p) (snapshot_topology_facts to_string cells props) (new_acc (tp_id p)) = propagator_acc p"
proof -
  have d: "distinct (map tc_id cells)" "distinct (map tp_id props)" using assms by simp_all
  have facts: "about nid (snapshot_topology_facts to_string cells props) =
      (case find (\<lambda>x. tc_id x = nid) cells of None \<Rightarrow> [] | Some x \<Rightarrow> cell_facts to_string x)
      @ (case find (\<lambda>x. tp_id x = nid) props of None \<Rightarrow> [] | Some x \<Rightarrow> propagator_facts x)" for nid
    using about_concat [of nid "cell_facts to_string" tc_id cells] about_concat [of nid propagator_facts tp_id props] d
    by (simp add: snapshot_topology_facts_def about_append about_cell about_propagator)
  show "acc_of (tc_id c) (snapshot_topology_facts to_string cells props) (new_acc (tc_id c)) = cell_acc to_string c" if "c \<in> set cells"
  proof -
    have "find (\<lambda>x. tp_id x = tc_id c) props = None" using assms that by (force simp: find_None_iff)
    then show ?thesis using that d by (simp add: acc_of_def facts find_unique fold_cell_facts)
  qed
  show "acc_of (tp_id p) (snapshot_topology_facts to_string cells props) (new_acc (tp_id p)) = propagator_acc p" if "p \<in> set props"
  proof -
    have "find (\<lambda>x. tc_id x = tp_id p) cells = None" using assms that by (force simp: find_None_iff)
    then show ?thesis using that d by (simp add: acc_of_def facts find_unique fold_propagator_facts)
  qed
qed

section \<open>Edges\<close>

definition arc_of :: "jstring set \<Rightarrow> fact \<Rightarrow> (jstring \<times> jstring) set" where
  "arc_of K f = {(c, p) | c p. str_at f 0 = Some ''reads'' \<and> str_at f 1 = Some p \<and> str_at f 2 = Some c \<and> c \<in> K \<and> p \<in> K}
     \<union> {(p, c) | c p. str_at f 0 = Some ''writes'' \<and> str_at f 1 = Some p \<and> str_at f 2 = Some c \<and> c \<in> K \<and> p \<in> K}"

context graphology_laws
begin

lemma add_fact_edge_maps:
  assumes "nodes_of G g = set keep" and "{source, target} = {prop_id, cell_id}"
  shows "node_map G (add_fact_edge G keep prop_id cell_id source target g) = node_map G g"
    and "edges_of_graph G (add_fact_edge G keep prop_id cell_id source target g) =
      edges_of_graph G g \<union> (if prop_id \<in> set keep \<and> cell_id \<in> set keep then {(source, target)} else {})"
proof -
  have "source \<in> nodes_of G g \<and> target \<in> nodes_of G g" if "prop_id \<in> set keep" "cell_id \<in> set keep"
    using that assms by (auto simp: doubleton_eq_iff)
  then show "node_map G (add_fact_edge G keep prop_id cell_id source target g) = node_map G g"
    "edges_of_graph G (add_fact_edge G keep prop_id cell_id source target g) =
      edges_of_graph G g \<union> (if prop_id \<in> set keep \<and> cell_id \<in> set keep then {(source, target)} else {})"
    using assms(1) by (auto simp: add_fact_edge_def has_node has_edge merge_edge)
qed

lemma edge_fact_maps:
  assumes "nodes_of G g = set keep"
  shows "node_map G (edge_fact G keep f g) = node_map G g \<and> edges_of_graph G (edge_fact G keep f g) = edges_of_graph G g \<union> arc_of (set keep) f"
proof (cases "\<exists>p c. str_at f 1 = Some p \<and> str_at f 2 = Some c")
  case True
  then obtain p c where f: "str_at f 1 = Some p" "str_at f 2 = Some c" by blast
  have "arc_of (set keep) f = (if str_at f 0 = Some ''reads'' \<and> p \<in> set keep \<and> c \<in> set keep then {(c, p)}
      else if str_at f 0 = Some ''writes'' \<and> p \<in> set keep \<and> c \<in> set keep then {(p, c)} else {})"
    using f by (auto simp: arc_of_def)
  then show ?thesis
    using f add_fact_edge_maps [OF assms, of c p p c] add_fact_edge_maps [OF assms, of p c p c]
    by (auto simp: edge_fact_def insert_commute)
next
  case False
  then show ?thesis by (auto simp: edge_fact_def arc_of_def split: option.splits)
qed

lemma edge_facts_maps:
  assumes "nodes_of G g = set keep"
  shows "node_map G (fold (edge_fact G keep) facts g) = node_map G g
    \<and> edges_of_graph G (fold (edge_fact G keep) facts g) = edges_of_graph G g \<union> (\<Union>f \<in> set facts. arc_of (set keep) f)"
  using assms
proof (induction facts arbitrary: g)
  case (Cons f facts)
  then show ?case using edge_fact_maps [OF Cons.prems, of f] Cons.IH [of "edge_fact G keep f g"] by auto
qed simp

lemma merge_nodes_maps:
  assumes "distinct keep"
  shows "node_map G (fold (\<lambda>nid g. merge_node G nid (a nid) g) keep g) =
      (\<lambda>x. if x \<in> set keep then Some (merge_attributes (node_map G g x) (a x)) else node_map G g x)
    \<and> edge_map G (fold (\<lambda>nid g. merge_node G nid (a nid) g) keep g) = edge_map G g"
  using assms by (induction keep arbitrary: g) (auto simp: merge_node fun_eq_iff)

lemma topology_graph_maps:
  assumes "distinct keep"
  shows "node_map G (graphology_from_topology_facts G facts keep) =
      (\<lambda>x. if x \<in> set keep then Some (acc_attributes (acc_of x facts (new_acc x))) else None)"
    and "edges_of_graph G (graphology_from_topology_facts G facts keep) = (\<Union>f \<in> set facts. arc_of (set keep) f)"
proof -
  let ?a = "\<lambda>nid. acc_attributes (or_new nid (map_of (fold (note_fact keep) facts []) nid))"
  let ?g = "fold (\<lambda>nid g. merge_node G nid (?a nid) g) keep (new_graph G)"
  have g: "node_map G ?g = (\<lambda>x. if x \<in> set keep then Some (?a x) else None)" "edge_map G ?g = Map.empty"
    using merge_nodes_maps [OF assms, of ?a "new_graph G"] by (simp_all add: merge_attributes_def fun_eq_iff)
  have graph: "graphology_from_topology_facts G facts keep = fold (edge_fact G keep) facts ?g"
    by (simp add: graphology_from_topology_facts_def Let_def ensure_lookup)
  have "nodes_of G ?g = set keep" by (auto simp: g split: if_splits)
  from edge_facts_maps [OF this, of facts]
  show "edges_of_graph G (graphology_from_topology_facts G facts keep) = (\<Union>f \<in> set facts. arc_of (set keep) f)"
    "node_map G (graphology_from_topology_facts G facts keep) =
      (\<lambda>x. if x \<in> set keep then Some (acc_attributes (acc_of x facts (new_acc x))) else None)"
    by (simp_all add: graph g fun_eq_iff notes_lookup)
qed

end

text \<open>The arcs of the network between kept ids.\<close>

definition network_arcs :: "topo_propagator list \<Rightarrow> (jstring \<times> jstring) set" where
  "network_arcs props = {(tc_id c, tp_id p) | c p. p \<in> set props \<and> c \<in> set (tp_inputs p)}
     \<union> {(tp_id p, tc_id c) | c p. p \<in> set props \<and> c \<in> set (tp_outputs p)}"

lemma network_arcs_Cons: "network_arcs (p # ps) =
    (\<lambda>c. (tc_id c, tp_id p)) ` set (tp_inputs p) \<union> (\<lambda>c. (tp_id p, tc_id c)) ` set (tp_outputs p) \<union> network_arcs ps"
  by (auto simp: network_arcs_def)

lemma snapshot_arcs: "(\<Union>f \<in> set (snapshot_topology_facts to_string cells props). arc_of K f) = network_arcs props \<inter> K \<times> K"
proof -
  have "arc_of K f = {}" if "f \<in> set (cell_facts to_string c)" for f c
    using that by (auto simp: cell_facts_def value_facts_mem Let_def arc_of_def)
  moreover have "(\<Union>f \<in> set (propagator_facts p). arc_of K f) = network_arcs [p] \<inter> K \<times> K" for p
    by (auto simp: propagator_facts_def Let_def arc_of_def network_arcs_def)
  moreover have "network_arcs props = (\<Union>p \<in> set props. network_arcs [p])" by (auto simp: network_arcs_def)
  ultimately show ?thesis by (auto simp: snapshot_topology_facts_def)
qed

text \<open>
  C9: The graph built from a snapshot and a set of kept ids has exactly the kept ids as nodes
  and exactly the arcs of the network between them, from cells to the propagators that read
  them and from propagators to the cells they write; a kept cell or propagator carries its
  name, kind, namespace, level and value as attributes.
\<close>

theorem graph_from_snapshot_exact:
  assumes "graphology_laws G" and "distinct keep" and "distinct (map tc_id cells @ map tp_id props)"
  shows "nodes_of G (graphology_from_topology_facts G (snapshot_topology_facts to_string cells props) keep) = set keep
    \<and> edges_of_graph G (graphology_from_topology_facts G (snapshot_topology_facts to_string cells props) keep)
        = network_arcs props \<inter> set keep \<times> set keep
    \<and> list_all (\<lambda>c. tc_id c \<in> set keep \<longrightarrow> node_map G (graphology_from_topology_facts G (snapshot_topology_facts to_string cells props) keep) (tc_id c)
          = Some (acc_attributes (cell_acc to_string c))) cells
    \<and> list_all (\<lambda>p. tp_id p \<in> set keep \<longrightarrow> node_map G (graphology_from_topology_facts G (snapshot_topology_facts to_string cells props) keep) (tp_id p)
          = Some (acc_attributes (propagator_acc p))) props"
  using graphology_laws.topology_graph_maps [OF assms(1,2), of "snapshot_topology_facts to_string cells props"] snapshot_acc [OF assms(3)]
  by (auto simp: snapshot_arcs list_all_iff split: if_splits)

theorem graph_from_snapshot_exact_witness:
  "edges_of_graph list_graphology (graphology_from_topology_facts list_graphology sample_snapshot [''a'', ''p'', ''c'', ''q''])
     = {(''a'', ''p''), (''q'', ''c'')}"
proof -
  have "distinct (map tc_id (map sample_cell [''a'', ''b'', ''c'']) @ map tp_id sample_props)"
    by (simp add: sample_cell_def sample_props_def)
  from graph_from_snapshot_exact [OF list_graph.graphology_laws_axioms _ this, of "[''a'', ''p'', ''c'', ''q'']" "\<lambda>_. None"]
  have "edges_of_graph list_graphology (graphology_from_topology_facts list_graphology sample_snapshot [''a'', ''p'', ''c'', ''q''])
      = network_arcs sample_props \<inter> {''a'', ''p'', ''c'', ''q''} \<times> {''a'', ''p'', ''c'', ''q''}"
    by (simp add: sample_snapshot_def)
  moreover have "network_arcs sample_props = {(''a'', ''p''), (''p'', ''b''), (''b'', ''q''), (''q'', ''c'')}"
    unfolding sample_props_def network_arcs_Cons by (auto simp: sample_cell_def network_arcs_def)
  ultimately show ?thesis by auto
qed

section \<open>Queries by namespace\<close>

text \<open>The ids of the network with their names.\<close>

definition network_names :: "topo_cell list \<Rightarrow> topo_propagator list \<Rightarrow> (jstring \<times> jstring) set" where
  "network_names cells props = (\<lambda>c. (tc_id c, tc_name c)) ` set cells \<union> (\<lambda>p. (tp_id p, tp_name p)) ` set props"

lemma snapshot_namespace: "[js ''namespace'', Scalar x, Scalar ns] \<in> set (snapshot_topology_facts to_string cells props)
    \<longleftrightarrow> (\<exists>i name. x = JStr i \<and> ns = JStr (label_to_namespace name) \<and> (i, name) \<in> network_names cells props)"
  by (fastforce simp: snapshot_simps network_names_def strs_simps)

lemma snapshot_kind: "(i, name) \<in> network_names cells props \<Longrightarrow>
    \<exists>k. [js ''kind'', js i, Scalar k] \<in> set (snapshot_topology_facts to_string cells props)"
  by (auto simp: snapshot_simps network_names_def strs_simps)

definition namespace_rule :: "jstring \<Rightarrow> extended_rule" where
  "namespace_rule prefix = make_rule (atom ''ns_match'' [Element ''X''])
     [Atom (atom ''kind'' [Element ''X'', Element ''_K'']), Atom (atom ''namespace'' [Element ''X'', Element ''NS'']),
      StartsWith (Element ''NS'') prefix]"

lemma namespace_consequences:
  "consequences [namespace_rule prefix] (set (snapshot_topology_facts to_string cells props)) =
    {strs [''ns_match'', i] | i name. (i, name) \<in> network_names cells props \<and> starts_with (label_to_namespace name) prefix}"
    (is "?C = ?N")
proof -
  have "f \<in> ?C" if f: "f \<in> ?N" for f
  proof -
    from f obtain i name where i: "f = strs [''ns_match'', i]" "(i, name) \<in> network_names cells props"
        "starts_with (label_to_namespace name) prefix" by blast
    obtain k where "[js ''kind'', js i, Scalar k] \<in> set (snapshot_topology_facts to_string cells props)"
      using snapshot_kind [OF i(2)] by blast
    moreover have "[js ''namespace'', js i, js (label_to_namespace name)] \<in> set (snapshot_topology_facts to_string cells props)"
      using snapshot_namespace [of "JStr i" "JStr (label_to_namespace name)"] i(2) by (auto simp: js_scalar)
    ultimately show ?thesis
      unfolding consequences_Cons using i(1,3)
      by (intro UnI1 CollectI exI [of _ "(\<lambda>_. JStr i)(''_K'' := k, ''NS'' := JStr (label_to_namespace name))"])
        (simp add: namespace_rule_def rule_simps StartsWith_def strs_simps, simp add: js_def)
  qed
  moreover have "f \<in> ?N" if "f \<in> ?C" for f
  proof -
    from that obtain \<sigma> where "f = [js ''ns_match'', Scalar (\<sigma> ''X'')]"
        "[js ''namespace'', Scalar (\<sigma> ''X''), Scalar (\<sigma> ''NS'')] \<in> set (snapshot_topology_facts to_string cells props)"
        "case \<sigma> ''NS'' of JStr t \<Rightarrow> starts_with t prefix | _ \<Rightarrow> False"
      by (auto simp: consequences_Cons namespace_rule_def rule_simps StartsWith_def)
    then show ?thesis unfolding snapshot_namespace by (auto simp: strs_simps js_scalar)
  qed
  ultimately show ?thesis by blast
qed

lemma namespace_program_exact:
  assumes "datalog_package M look semi_naive_datalog naive_datalog"
  shows "evaluates_to M same semi_naive_datalog naive_datalog (cell_namespace_program prefix strategy)
    (snapshot_topology_facts to_string cells props)
    (set (snapshot_topology_facts to_string cells props)
     \<union> {strs [''ns_match'', i] | i name. (i, name) \<in> network_names cells props \<and> starts_with (label_to_namespace name) prefix})"
proof -
  have rules: "prog_rules (cell_namespace_program prefix strategy) = [namespace_rule prefix]"
    by (simp add: cell_namespace_program_def make_program_def namespace_rule_def)
  have ok: "list_all string_rule [namespace_rule prefix]" "list_all derivable_rule [namespace_rule prefix]"
    "body_preds [namespace_rule prefix] \<inter> head_preds [namespace_rule prefix] = {}"
    by (simp_all add: namespace_rule_def make_rule_def atom_def StartsWith_def string_rule_def rule_terms_def derivable_rule_def
        vars_list_def is_eq_def is_neq_def body_preds_def head_preds_def)
  have "least_model [namespace_rule prefix] (snapshot_topology_facts to_string cells props) =
      set (snapshot_topology_facts to_string cells props)
      \<union> {strs [''ns_match'', i] | i name. (i, name) \<in> network_names cells props \<and> starts_with (label_to_namespace name) prefix}"
    using least_model_layer [of "[]" "[namespace_rule prefix]"] ok by (simp add: namespace_consequences)
  then show ?thesis using evaluates_toI [OF assms _ _ snapshot_strings, of "cell_namespace_program prefix strategy"] ok rules by simp
qed

section \<open>Fact sets\<close>

text \<open>
  On ground facts, where the package's test is equality, merging is a union: nothing is
  lost, known facts keep their places, and merging what is known changes nothing.
\<close>

lemma merge_fact_sets_union:
  "set (merge_fact_sets (=) a b) = set a \<union> set b" "take (length a) (merge_fact_sets (=) a b) = a"
  "set b \<subseteq> set a \<Longrightarrow> merge_fact_sets (=) a b = a"
  "distinct a \<Longrightarrow> distinct b \<Longrightarrow> distinct (merge_fact_sets (=) a b)"
  by (auto simp: merge_fact_sets_def facts_contains_def list_ex_iff filter_empty_conv)

lemma merge_fact_sets_assoc:
  "merge_fact_sets (=) (merge_fact_sets (=) a b) c = merge_fact_sets (=) a (merge_fact_sets (=) b c)"
  by (simp add: merge_fact_sets_def facts_contains_def list_ex_iff) (metis (mono_tags, lifting) filter_cong)

text \<open>
  Without repetitions the comparison of two sets is equality of sets. With a repetition it is not:
  a set that repeats a fact equals a larger one.
\<close>

lemma fact_sets_equal_sets:
  assumes "distinct a" and "distinct b"
  shows "fact_sets_equal (=) a b \<longleftrightarrow> set a = set b"
proof -
  have "set a \<subseteq> set b \<Longrightarrow> length a = length b \<Longrightarrow> set a = set b"
    using assms by (metis card_subset_eq distinct_card List.finite_set)
  moreover have "set a = set b \<Longrightarrow> length a = length b" using assms by (metis distinct_card)
  ultimately show ?thesis by (auto simp: fact_sets_equal_def facts_contains_def list_all_iff list_ex_iff)
qed

lemma repeated_fact_hides_new: "f \<noteq> g \<Longrightarrow> fact_sets_equal (=) [f, f] [f, g] \<and> \<not> fact_sets_equal (=) [f, g] [f, f]"
  by (simp add: fact_sets_equal_def facts_contains_def)

end
