(* ===== verification/Kiroshi.thy ===== *)
theory Kiroshi
  imports Topology_Graph_Spec "HOL-Library.Multiset"
begin

text \<open>
  The incremental engine's wiring of \<open>src/compiler/datalog/KiroshiPropagator.ts\<close>: the merge of fact
  arrays, the predicates a program derives and the bridge that gives new facts to the engine.
  The engine is a package; what the bridge asserts to it is a log. The bridge counts the facts
  it has seen of each cell and takes the rest for new, which is right because the merge of fact
  sets only appends: over every sequence of updates and runs each fact of each cell is asserted
  exactly once.
\<close>

section \<open>Merging and predicates\<close>

text \<open>\<open>key\<close> is \<open>JSON.stringify\<close> of a fact.\<close>

definition fact_array_merge :: "(fact \<Rightarrow> jstring) \<Rightarrow> fact list \<Rightarrow> fact list \<Rightarrow> fact list" where
  "fact_array_merge key content increment =
     fst (fold (\<lambda>item (result, seen). if key item \<in> set seen then (result, seen) else (result @ [item], seen @ [key item]))
       increment (content, map key content))"

definition is_fact_array :: "dterm \<Rightarrow> bool" where
  "is_fact_array x =
     (case x of Items [] \<Rightarrow> True | Items (Items (Scalar (JStr _) # _) # _) \<Rightarrow> True | _ \<Rightarrow> False)"

definition idb_predicates :: "extended_rule list \<Rightarrow> dterm list" where
  "idb_predicates rules = fold (\<lambda>r preds. set_add (hd (rule_head r)) preds) rules []"

lemma fact_array_merge_loop:
  assumes "inj key" and "seen = map key result"
  shows "\<exists>new. fold (\<lambda>item (result, seen). if key item \<in> set seen then (result, seen) else (result @ [item], seen @ [key item])) inc (result, seen)
      = (result @ new, map key (result @ new)) \<and> set (result @ new) = set result \<union> set inc \<and> (distinct result \<longrightarrow> distinct (result @ new))"
  using assms(2)
proof (induction inc arbitrary: result seen)
  case (Cons item inc)
  have known: "key item \<in> set seen \<longleftrightarrow> item \<in> set result" using assms(1) Cons.prems by (auto simp: inj_eq)
  show ?case
  proof (cases "item \<in> set result")
    case True
    then show ?thesis using Cons.IH [OF Cons.prems] known by (auto simp: insert_absorb)
  next
    case False
    have "seen @ [key item] = map key (result @ [item])" using Cons.prems by simp
    from Cons.IH [OF this] obtain new where new: "fold (\<lambda>item (result, seen). if key item \<in> set seen then (result, seen)
          else (result @ [item], seen @ [key item])) inc (result @ [item], seen @ [key item])
        = ((result @ [item]) @ new, map key ((result @ [item]) @ new))"
        "set ((result @ [item]) @ new) = set (result @ [item]) \<union> set inc" "distinct (result @ [item]) \<longrightarrow> distinct ((result @ [item]) @ new)"
      by blast
    then show ?thesis using False known by (intro exI [of _ "item # new"]) auto
  qed
qed simp

lemma fact_array_merge_union:
  assumes "inj key"
  shows "set (fact_array_merge key a b) = set a \<union> set b" and "take (length a) (fact_array_merge key a b) = a"
    and "distinct a \<Longrightarrow> distinct (fact_array_merge key a b)"
proof -
  obtain new where new: "fold (\<lambda>item (result, seen). if key item \<in> set seen then (result, seen) else (result @ [item], seen @ [key item])) b
        (a, map key a) = (a @ new, map key (a @ new))"
      "set (a @ new) = set a \<union> set b" "distinct a \<longrightarrow> distinct (a @ new)"
    using fact_array_merge_loop [OF assms refl] by blast
  have "fact_array_merge key a b = a @ new" unfolding fact_array_merge_def new(1) by simp
  with new(2,3) show "set (fact_array_merge key a b) = set a \<union> set b" "take (length a) (fact_array_merge key a b) = a"
    "distinct a \<Longrightarrow> distinct (fact_array_merge key a b)" by simp_all
qed

section \<open>The bridge\<close>

record bridge_state =
  kb_cells :: "cell_content list"
  kb_seen :: "nat list"
  kb_asserted :: "fact list"

definition new_bridge :: "nat \<Rightarrow> bridge_state" where
  "new_bridge n = \<lparr>kb_cells = replicate n OtherContent, kb_seen = replicate n 0, kb_asserted = []\<rparr>"

text \<open>One turn of the loop of the bridge, and the loop.\<close>

definition bridge_cell :: "nat \<Rightarrow> bridge_state \<Rightarrow> bridge_state" where
  "bridge_cell i st =
     (case kb_cells st ! i of
        OtherContent \<Rightarrow> st
      | FactSet facts \<Rightarrow>
          (let new_facts = drop (kb_seen st ! i) facts
           in st\<lparr>kb_seen := (kb_seen st)[i := length facts], kb_asserted := kb_asserted st @ new_facts\<rparr>))"

definition run_bridge :: "bridge_state \<Rightarrow> bridge_state" where
  "run_bridge st = fold bridge_cell [0..<length (kb_cells st)] st"

text \<open>The cells: an update of a cell with a fact set merges it into what the cell holds.\<close>

definition update_cell_facts :: "(fact \<Rightarrow> fact \<Rightarrow> bool) \<Rightarrow> nat \<Rightarrow> fact list \<Rightarrow> bridge_state \<Rightarrow> bridge_state" where
  "update_cell_facts unifies i facts st =
     st\<lparr>kb_cells := (kb_cells st)[i := (case kb_cells st ! i of
          OtherContent \<Rightarrow> FactSet facts | FactSet old \<Rightarrow> FactSet (merge_fact_sets unifies old facts))]\<rparr>"

datatype bridge_event = CellUpdate nat "fact list" | BridgeRun

definition bridge_step :: "(fact \<Rightarrow> fact \<Rightarrow> bool) \<Rightarrow> bridge_event \<Rightarrow> bridge_state \<Rightarrow> bridge_state" where
  "bridge_step unifies e st = (case e of CellUpdate i facts \<Rightarrow> update_cell_facts unifies i facts st | BridgeRun \<Rightarrow> run_bridge st)"

definition facts_of :: "cell_content \<Rightarrow> fact list" where
  "facts_of c = (case c of FactSet facts \<Rightarrow> facts | OtherContent \<Rightarrow> [])"

section \<open>Exactly once\<close>

definition seen_facts :: "bridge_state \<Rightarrow> fact multiset" where
  "seen_facts st = (\<Sum>i<length (kb_cells st). mset (take (kb_seen st ! i) (facts_of (kb_cells st ! i))))"

definition bridge_inv :: "bridge_state \<Rightarrow> bool" where
  "bridge_inv st \<longleftrightarrow> length (kb_seen st) = length (kb_cells st)
     \<and> (\<forall>i < length (kb_cells st). kb_seen st ! i \<le> length (facts_of (kb_cells st ! i)))
     \<and> mset (kb_asserted st) = seen_facts st"

lemma sum_change:
  fixes f :: "nat \<Rightarrow> 'a multiset"
  assumes "i < n" and "\<And>j. j < n \<Longrightarrow> j \<noteq> i \<Longrightarrow> g j = f j" and "g i = f i + d"
  shows "(\<Sum>j<n. g j) = (\<Sum>j<n. f j) + d"
proof -
  have "(\<Sum>j \<in> {..<n} - {i}. g j) = (\<Sum>j \<in> {..<n} - {i}. f j)" using assms(2) by (intro sum.cong) auto
  then show ?thesis using assms(1,3) by (simp add: sum.remove [of "{..<n}" i])
qed

lemma bridge_cell_inv:
  assumes "bridge_inv st" and "i < length (kb_cells st)"
  shows "bridge_inv (bridge_cell i st) \<and> kb_cells (bridge_cell i st) = kb_cells st
    \<and> kb_seen (bridge_cell i st) = (kb_seen st)[i := length (facts_of (kb_cells st ! i))]"
proof (cases "kb_cells st ! i")
  case (FactSet facts)
  let ?st = "bridge_cell i st"
  have st: "kb_cells ?st = kb_cells st" "kb_seen ?st = (kb_seen st)[i := length facts]"
    "kb_asserted ?st = kb_asserted st @ drop (kb_seen st ! i) facts"
    using FactSet by (simp_all add: bridge_cell_def Let_def)
  have len: "length (kb_seen st) = length (kb_cells st)" using assms(1) by (simp add: bridge_inv_def)
  have "seen_facts ?st = seen_facts st + mset (drop (kb_seen st ! i) facts)"
    unfolding seen_facts_def st
    using assms(2) FactSet len
    by (intro sum_change [where i = i]) (simp_all add: facts_of_def mset_append [symmetric])
  then have "mset (kb_asserted ?st) = seen_facts ?st" using assms(1) by (simp add: st bridge_inv_def)
  moreover have "kb_seen ?st ! j \<le> length (facts_of (kb_cells ?st ! j))" if "j < length (kb_cells st)" for j
    using that assms FactSet len by (cases "j = i") (simp_all add: st bridge_inv_def facts_of_def)
  ultimately show ?thesis using FactSet len st by (simp add: bridge_inv_def facts_of_def)
next
  case OtherContent
  then have "kb_seen st ! i = 0" using assms by (auto simp: bridge_inv_def facts_of_def)
  then have "(kb_seen st)[i := 0] = kb_seen st" by (metis list_update_id)
  then show ?thesis using OtherContent assms(1) by (simp add: bridge_cell_def facts_of_def)
qed

lemma bridge_loop_inv:
  assumes "bridge_inv st" and "n \<le> length (kb_cells st)"
  shows "bridge_inv (fold bridge_cell [0..<n] st) \<and> kb_cells (fold bridge_cell [0..<n] st) = kb_cells st
    \<and> (\<forall>i < n. kb_seen (fold bridge_cell [0..<n] st) ! i = length (facts_of (kb_cells st ! i)))"
  using assms(2)
proof (induction n)
  case (Suc n)
  let ?s = "fold bridge_cell [0..<n] st"
  have IH: "bridge_inv ?s" "kb_cells ?s = kb_cells st" "\<forall>i < n. kb_seen ?s ! i = length (facts_of (kb_cells st ! i))"
    using Suc by simp_all
  have "length (kb_seen ?s) = length (kb_cells st)" using IH(1,2) by (simp add: bridge_inv_def)
  then show ?case using bridge_cell_inv [of ?s n] IH Suc.prems by (auto simp: less_Suc_eq)
qed (use assms(1) in simp)

lemma merge_prefix: "take n (merge_fact_sets unifies a b) = take n a" if "n \<le> length a"
  using that by (simp add: merge_fact_sets_def)

lemma update_inv:
  assumes "bridge_inv st"
  shows "bridge_inv (update_cell_facts unifies i facts st)"
proof (cases "i < length (kb_cells st)")
  case True
  let ?c = "case kb_cells st ! i of OtherContent \<Rightarrow> FactSet facts | FactSet old \<Rightarrow> FactSet (merge_fact_sets unifies old facts)"
  let ?old = "facts_of (kb_cells st ! i)"
  have grows: "length ?old \<le> length (facts_of ?c)" "\<And>n. n \<le> length ?old \<Longrightarrow> take n (facts_of ?c) = take n ?old"
    by (cases "kb_cells st ! i"; simp add: facts_of_def merge_prefix; simp add: merge_fact_sets_def)+
  have seen: "kb_seen st ! i \<le> length ?old" using assms True by (simp add: bridge_inv_def)
  have cells: "kb_cells (update_cell_facts unifies i facts st) = (kb_cells st)[i := ?c]" by (simp add: update_cell_facts_def)
  have "seen_facts (update_cell_facts unifies i facts st) = seen_facts st"
    unfolding seen_facts_def cells using True grows(2) [OF seen]
    by (intro sum.cong) (auto simp: nth_list_update update_cell_facts_def)
  moreover have "kb_seen st ! i \<le> length (facts_of ?c)" using seen grows(1) by (rule le_trans)
  ultimately show ?thesis
    using assms True unfolding bridge_inv_def
    by (auto simp: cells nth_list_update) (simp_all add: update_cell_facts_def)
next
  case False
  then show ?thesis using assms by (simp add: update_cell_facts_def list_update_beyond)
qed

lemma bridge_step_inv: "bridge_inv st \<Longrightarrow> bridge_inv (bridge_step unifies e st)"
  using bridge_loop_inv [of st "length (kb_cells st)"] by (auto simp: bridge_step_def update_inv run_bridge_def split: bridge_event.split)

lemma bridge_events_inv: "bridge_inv st \<Longrightarrow> bridge_inv (fold (bridge_step unifies) es st)"
  by (induction es arbitrary: st) (auto simp: bridge_step_inv)

lemma new_bridge_inv: "bridge_inv (new_bridge n)"
  by (simp add: bridge_inv_def new_bridge_def seen_facts_def facts_of_def)

text \<open>
  C21: Whatever updates its cells received and however often it ran in between, when the bridge
  has run it has asserted to the engine every fact of every cell exactly once, counting
  repetitions: none is lost and none is given twice.
\<close>

theorem bridge_asserts_once:
  "let st = run_bridge (fold (bridge_step unifies) es (new_bridge n))
   in mset (kb_asserted st) = (\<Sum>i<length (kb_cells st). mset (facts_of (kb_cells st ! i)))"
proof -
  let ?s = "fold (bridge_step unifies) es (new_bridge n)"
  have inv: "bridge_inv ?s" by (simp add: bridge_events_inv new_bridge_inv)
  have run: "bridge_inv (run_bridge ?s)" "kb_cells (run_bridge ?s) = kb_cells ?s"
    "\<forall>i < length (kb_cells ?s). kb_seen (run_bridge ?s) ! i = length (facts_of (kb_cells ?s ! i))"
    using bridge_loop_inv [OF inv order_refl] by (simp_all add: run_bridge_def)
  then show ?thesis by (simp add: bridge_inv_def seen_facts_def)
qed

end
