(* ===== verification/Effect_Types.thy ===== *)
theory Effect_Types
  imports Card_Links
begin

text \<open>
  Types for the calls of the propagator library. Every handle is created once, as a cell, as a
  source cell or as a propagator; an effect is well typed when it uses handles that were
  created before it, in a role their kind can play: a cell may be a source, the link that is
  pointed must be a source, what is disposed must be a propagator. The judgement \<open>typed_act\<close> gives
  actions a type, from typing facts before to typing facts about the result; its rules are those
  of a type system, and every operation of the card runtime is typed with them.
\<close>

section \<open>Kinds and roles\<close>

datatype handle_kind = CellKind | SourceKind | PropagatorKind

datatype role = AnyCell | LinkSource | APropagator

fun plays :: "handle_kind \<Rightarrow> role \<Rightarrow> bool" where
  "plays CellKind r = (r = AnyCell)"
| "plays SourceKind r = (r = AnyCell \<or> r = LinkSource)"
| "plays PropagatorKind r = (r = APropagator)"

fun created :: "effect \<Rightarrow> (handle \<times> handle_kind) option" where
  "created (ConstructCell h _ _) = Some (h, CellKind)"
| "created (SourceCell h _) = Some (h, SourceKind)"
| "created (Unfold h _) = Some (h, PropagatorKind)"
| "created (CardIO h _ _ _) = Some (h, PropagatorKind)"
| "created (EmitToRuntime h _ _) = Some (h, PropagatorKind)"
| "created (DictAccessor h _ _) = Some (h, CellKind)"
| "created (ExtendEnv h _ _) = Some (h, CellKind)"
| "created (CompileNetwork h _ _ _ _) = Some (h, PropagatorKind)"
| "created (DictCarrier h _ _) = Some (h, PropagatorKind)"
| "created (Connector h _ _ _ _) = Some (h, PropagatorKind)"
| "created _ = None"

definition as_cells :: "handle list \<Rightarrow> (handle \<times> role) list" where
  "as_cells hs = map (\<lambda>h. (h, AnyCell)) hs"

fun uses :: "effect \<Rightarrow> (handle \<times> role) list" where
  "uses (ConstructCell _ _ _) = []"
| "uses (InitMap c) = as_cells [c]"
| "uses (SourceCell _ _) = []"
| "uses (Unfold _ cs) = as_cells cs"
| "uses (CardIO _ a b c) = as_cells [a, b, c]"
| "uses (EmitToRuntime _ _ c) = as_cells [c]"
| "uses (DictAccessor _ _ c) = as_cells [c]"
| "uses (ExtendEnv _ env pairs) = as_cells (env # map snd pairs)"
| "uses (SelectiveSync a b) = as_cells [a, b]"
| "uses (CompileNetwork _ this_cell env source _) = (source, LinkSource) # as_cells [this_cell, env]"
| "uses (SyncToLink c link) = (link, LinkSource) # as_cells [c]"
| "uses (PointLink link c) = (link, LinkSource) # as_cells [c]"
| "uses (Dispose p) = [(p, APropagator)]"
| "uses ExecuteAll = []"
| "uses (ReactiveUpdate c _ _ _) = as_cells [c]"
| "uses (DictCarrier _ cs c) = as_cells (c # map snd cs)"
| "uses (Connector _ a b c d) = as_cells [a, b, c, d]"

fun kind_of :: "effect list \<Rightarrow> handle \<Rightarrow> handle_kind option" where
  "kind_of [] h = None"
| "kind_of (e # log) h =
     (case created e of
        Some (h', k) \<Rightarrow> if h' = h then Some k else kind_of log h
      | None \<Rightarrow> kind_of log h)"

definition has_role :: "effect list \<Rightarrow> handle \<times> role \<Rightarrow> bool" where
  "has_role log p = (case kind_of log (fst p) of None \<Rightarrow> False | Some k \<Rightarrow> plays k (snd p))"

fun typed_log :: "effect list \<Rightarrow> bool" where
  "typed_log [] = True"
| "typed_log (e # log) =
     (typed_log log \<and> list_all (has_role log) (uses e)
      \<and> (case created e of None \<Rightarrow> True | Some (h, _) \<Rightarrow> kind_of log h = None))"

section \<open>Typed states\<close>

definition metadata_facts :: "card_metadata \<Rightarrow> (handle \<times> role) list" where
  "metadata_facts md =
     (md_card md, AnyCell) # (md_source md, LinkSource) # as_cells (map snd (md_cells md))
     @ map (\<lambda>(_, p). (p, APropagator)) (md_propagators md)
     @ concat (map (\<lambda>(_, links). map (\<lambda>l. (l, LinkSource)) links) (md_links md))
     @ (case md_local_env md of None \<Rightarrow> [] | Some env \<Rightarrow> [(env, AnyCell)])"

definition typed_in :: "card_world \<Rightarrow> (handle \<times> role) list \<Rightarrow> bool" where
  "typed_in w \<Gamma> \<longleftrightarrow> list_all (has_role (effects w)) \<Gamma>"

definition typed_world :: "card_world \<Rightarrow> bool" where
  "typed_world w \<longleftrightarrow> typed_log (effects w) \<and> (\<forall>h. next_handle w \<le> h \<longrightarrow> kind_of (effects w) h = None)
     \<and> (\<forall>(c, md) \<in> set (cards w). typed_in w (metadata_facts md))"

definition grows :: "card_world \<Rightarrow> card_world \<Rightarrow> bool" where
  "grows w w' \<longleftrightarrow> (\<forall>h k. kind_of (effects w) h = Some k \<longrightarrow> kind_of (effects w') h = Some k)"

lemma grows_refl: "grows w w" and grows_trans: "grows w w' \<Longrightarrow> grows w' w'' \<Longrightarrow> grows w w''"
  by (auto simp: grows_def)

lemma typed_in_grows: "grows w w' \<Longrightarrow> typed_in w \<Gamma> \<Longrightarrow> typed_in w' \<Gamma>"
  by (auto simp: grows_def typed_in_def has_role_def list_all_iff split: option.splits)

lemma typed_in_append [simp]: "typed_in w (\<Gamma> @ \<Delta>) \<longleftrightarrow> typed_in w \<Gamma> \<and> typed_in w \<Delta>"
  by (simp add: typed_in_def)

lemma typed_in_Nil [simp]: "typed_in w []"
  by (simp add: typed_in_def)

section \<open>The type system\<close>

definition typed_act :: "(handle \<times> role) list \<Rightarrow> 'a card_act \<Rightarrow> ('a \<Rightarrow> (handle \<times> role) list) \<Rightarrow> bool" where
  "typed_act \<Gamma> m \<tau> \<longleftrightarrow> (\<forall>w. typed_world w \<and> typed_in w \<Gamma> \<longrightarrow>
     (case m w of (r, w') \<Rightarrow> typed_world w' \<and> grows w w' \<and> (\<forall>x. r = Inr x \<longrightarrow> typed_in w' (\<tau> x))))"

text \<open>A source may be used where a cell is wanted.\<close>

definition covered :: "(handle \<times> role) list \<Rightarrow> (handle \<times> role) list \<Rightarrow> bool" where
  "covered \<Gamma> ps \<longleftrightarrow> (\<forall>(h, r) \<in> set ps. (h, r) \<in> set \<Gamma> \<or> r = AnyCell \<and> (h, LinkSource) \<in> set \<Gamma>)"

lemma covered_typed:
  assumes "covered \<Gamma> ps" and "typed_in w \<Gamma>"
  shows "typed_in w ps"
proof -
  have "has_role (effects w) (h, r)" if "(h, r) \<in> set ps" for h r
  proof -
    from assms(1) that consider "(h, r) \<in> set \<Gamma>" | "r = AnyCell" "(h, LinkSource) \<in> set \<Gamma>" by (auto simp: covered_def)
    then show ?thesis
    proof cases
      case 1
      then show ?thesis using assms(2) by (simp add: typed_in_def list_all_iff)
    next
      case 2
      then have "has_role (effects w) (h, LinkSource)" using assms(2) by (auto simp: typed_in_def list_all_iff)
      then obtain k where "kind_of (effects w) h = Some k" "plays k LinkSource" by (auto simp: has_role_def split: option.splits)
      then show ?thesis using 2(1) by (cases k) (simp_all add: has_role_def)
    qed
  qed
  then show ?thesis by (auto simp: typed_in_def list_all_iff)
qed

lemma typed_ret: "covered \<Gamma> (\<tau> x) \<Longrightarrow> typed_act \<Gamma> (ret x) \<tau>"
  by (auto simp: typed_act_def grows_refl intro: covered_typed)

lemma typed_throw: "typed_act \<Gamma> (throw e) \<tau>"
  by (simp add: typed_act_def grows_refl)

lemma typed_reads: "(\<And>w. typed_world w \<Longrightarrow> typed_in w \<Gamma> \<Longrightarrow> typed_in w (\<tau> (f w))) \<Longrightarrow> typed_act \<Gamma> (reads f) \<tau>"
  by (simp add: typed_act_def grows_refl)

lemma typed_bind:
  assumes "typed_act \<Gamma> m \<tau>" and "\<And>x. typed_act (\<tau> x @ \<Gamma>) (f x) \<upsilon>"
  shows "typed_act \<Gamma> (andthen m f) \<upsilon>"
  unfolding typed_act_def
proof (intro allI impI, elim conjE)
  fix w assume w: "typed_world w" "typed_in w \<Gamma>"
  obtain r w' where m: "m w = (r, w')" by force
  have w': "typed_world w'" "grows w w'" "\<And>x. r = Inr x \<Longrightarrow> typed_in w' (\<tau> x)" using assms(1) w m by (auto simp: typed_act_def)
  show "case andthen m f w of (r, w') \<Rightarrow> typed_world w' \<and> grows w w' \<and> (\<forall>x. r = Inr x \<longrightarrow> typed_in w' (\<upsilon> x))"
  proof (cases r)
    case (Inl e)
    then show ?thesis using w' by (simp add: andthen_run(2) [where m = m, OF m [unfolded Inl]])
  next
    case (Inr x)
    have "typed_in w' (\<tau> x @ \<Gamma>)" using w' typed_in_grows [OF w'(2) w(2)] Inr by simp
    moreover obtain r'' w'' where f: "f x w' = (r'', w'')" by force
    ultimately have "typed_world w''" "grows w' w''" "\<And>y. r'' = Inr y \<Longrightarrow> typed_in w'' (\<upsilon> y)"
      using assms(2) [of x] w'(1) by (auto simp: typed_act_def)
    then show ?thesis
      using f grows_trans [OF w'(2)] by (simp add: andthen_run(1) [where m = m, OF m [unfolded Inr]])
  qed
qed

lemma typed_weaken:
  assumes "typed_act \<Gamma> m \<tau>" and "covered \<Delta> \<Gamma>"
  shows "typed_act \<Delta> m \<tau>"
  using assms(1) covered_typed [OF assms(2)] by (simp add: typed_act_def)

lemma typed_forget: "typed_act \<Gamma> m \<tau> \<Longrightarrow> typed_act \<Gamma> m (\<lambda>_. [])"
  by (fastforce simp: typed_act_def)

lemma typed_if: "typed_act \<Gamma> m \<tau> \<Longrightarrow> typed_act \<Gamma> m' \<tau> \<Longrightarrow> typed_act \<Gamma> (if b then m else m') \<tau>"
  by simp

lemma typed_for_each: "(\<And>x. x \<in> set xs \<Longrightarrow> typed_act \<Gamma> (f x) (\<lambda>_. [])) \<Longrightarrow> typed_act \<Gamma> (for_each f xs) (\<lambda>_. [])"
  by (induction xs) (auto intro!: typed_ret typed_bind simp: covered_def)

text \<open>Effects.\<close>

lemma typed_effect:
  assumes "typed_world w" and "typed_in w (uses e)" and "next_handle w \<le> n"
    and "\<And>h k. created e = Some (h, k) \<Longrightarrow> next_handle w \<le> h \<and> h < n"
  shows "typed_world (w\<lparr>next_handle := n, effects := e # effects w\<rparr>) \<and> grows w (w\<lparr>next_handle := n, effects := e # effects w\<rparr>)"
proof -
  let ?w = "w\<lparr>next_handle := n, effects := e # effects w\<rparr>"
  have fresh: "kind_of (effects w) h = None" if "created e = Some (h, k)" for h k
    using assms(1,4) that by (auto simp: typed_world_def)
  then have g: "grows w ?w" by (auto simp: grows_def split: option.split)
  have "kind_of (e # effects w) h = None" if "n \<le> h" for h
    using assms(1,3,4) that by (fastforce simp: typed_world_def split: option.split)
  moreover have "typed_log (e # effects w)"
    using assms(1,2) fresh by (auto simp: typed_world_def typed_in_def split: option.split)
  moreover have "typed_in ?w (metadata_facts md)" if "(c, md) \<in> set (cards w)" for c md
    using assms(1) that typed_in_grows [OF g] by (auto simp: typed_world_def)
  ultimately show ?thesis using g by (auto simp: typed_world_def)
qed

lemma typed_emit:
  assumes "created e = None" and "covered \<Gamma> (uses e)"
  shows "typed_act \<Gamma> (emit e) (\<lambda>_. [])"
proof -
  have "typed_world (w\<lparr>effects := e # effects w\<rparr>) \<and> grows w (w\<lparr>effects := e # effects w\<rparr>)" if "typed_world w" "typed_in w \<Gamma>" for w
    using typed_effect [OF that(1) covered_typed [OF assms(2) that(2)], of "next_handle w"] assms(1) by simp
  then show ?thesis by (simp add: typed_act_def emit_def)
qed

fun kind_role :: "handle_kind \<Rightarrow> role" where
  "kind_role CellKind = AnyCell"
| "kind_role SourceKind = LinkSource"
| "kind_role PropagatorKind = APropagator"

lemma plays_role: "plays k (kind_role k)"
  by (cases k) simp_all

lemma typed_create:
  assumes "\<And>h. created (mk h) = Some (h, k)" and "\<And>h. covered \<Gamma> (uses (mk h))"
  shows "typed_act \<Gamma> (create mk) (\<lambda>h. [(h, kind_role k)])"
proof -
  have "typed_world (snd (create mk w)) \<and> grows w (snd (create mk w)) \<and> typed_in (snd (create mk w)) [(next_handle w, kind_role k)]"
    if "typed_world w" "typed_in w \<Gamma>" for w
  proof -
    let ?h = "next_handle w"
    have "typed_world (w\<lparr>next_handle := ?h + 1, effects := mk ?h # effects w\<rparr>)
        \<and> grows w (w\<lparr>next_handle := ?h + 1, effects := mk ?h # effects w\<rparr>)"
      by (rule typed_effect [OF that(1) covered_typed [OF assms(2) that(2)]]) (simp_all add: assms(1))
    then show ?thesis by (simp add: create_def typed_in_def has_role_def plays_role assms(1))
  qed
  then show ?thesis by (simp add: typed_act_def create_def)
qed

section \<open>Typing the storage\<close>

lemma metadata_facts_set:
  "set (metadata_facts md) = insert (md_card md, AnyCell) (insert (md_source md, LinkSource)
     ((\<lambda>(k, h). (h, AnyCell)) ` set (md_cells md) \<union> (\<lambda>(k, p). (p, APropagator)) ` set (md_propagators md)
      \<union> {(l, LinkSource) | l. \<exists>(k, links) \<in> set (md_links md). l \<in> set links}
      \<union> {(env, AnyCell) | env. md_local_env md = Some env}))"
proof -
  have "set (concat (map (\<lambda>(_, links). map (\<lambda>l. (l, LinkSource)) links) xs)) =
      {(l, LinkSource) | l. \<exists>(k, links) \<in> set xs. l \<in> set links}" for xs :: "(jstring, handle list) jmap"
    by (induction xs) auto
  moreover have "set (case e of None \<Rightarrow> [] | Some env \<Rightarrow> [(env, AnyCell)]) = {(env, AnyCell) | env. e = Some env}"
    for e :: "handle option"
    by (cases e) auto
  ultimately show ?thesis
    by (simp add: metadata_facts_def as_cells_def image_image case_prod_unfold Un_assoc)
qed

lemma covered_subset: "set ps \<subseteq> set \<Gamma> \<Longrightarrow> covered \<Gamma> ps"
  by (auto simp: covered_def)

lemma as_cells_set [simp]: "set (as_cells hs) = (\<lambda>h. (h, AnyCell)) ` set hs"
  by (simp add: as_cells_def)

lemma typed_in_member: "(c, md) \<in> set (cards w) \<Longrightarrow> typed_world w \<Longrightarrow> typed_in w (metadata_facts md)"
  by (auto simp: typed_world_def)

lemma typed_guarantee: "typed_act \<Gamma> (guarantee_get_card_metadata cid) metadata_facts"
  by (auto simp: typed_act_def guarantee_run grows_refl dest!: map_of_SomeD split: option.split intro: typed_in_member)

lemma typed_guarantee_get:
  assumes "(\<lambda>h. (h, AnyCell)) ` snd ` set tracker \<subseteq> set \<Gamma>"
  shows "typed_act \<Gamma> (guarantee_get tracker key) (\<lambda>h. [(h, AnyCell)])"
proof (cases "map_of tracker key")
  case None
  then show ?thesis by (simp add: guarantee_get_def typed_throw)
next
  case (Some h)
  then have "(h, AnyCell) \<in> set \<Gamma>" using assms by (force dest: map_of_SomeD)
  with Some show ?thesis by (simp add: guarantee_get_def typed_ret covered_subset)
qed

lemma typed_tracked: "typed_act \<Gamma> (tracked_cell cid key) (\<lambda>h. [(h, AnyCell)])"
  unfolding tracked_cell_def
  by (rule typed_bind [OF typed_guarantee typed_guarantee_get]) (auto simp: metadata_facts_set)

lemma alist_update_subset: "set (AList.update k v al) \<subseteq> insert (k, v) (set al)"
  by (induction al) auto

lemma alist_delete_subset: "set (AList.delete k al) \<subseteq> set al"
  by (auto simp: AList.delete_eq)

lemma typed_cards:
  assumes "typed_world w" and "\<And>c md. (c, md) \<in> set cs \<Longrightarrow> typed_in w (metadata_facts md)"
  shows "typed_world (w\<lparr>cards := cs\<rparr>) \<and> grows w (w\<lparr>cards := cs\<rparr>)"
  using assms by (auto simp: typed_world_def grows_def typed_in_def)

lemma typed_change:
  assumes "\<And>md. covered (metadata_facts md @ \<Gamma>) (metadata_facts (f md))"
  shows "typed_act \<Gamma> (change_metadata cid f) (\<lambda>_. [])"
proof -
  have "typed_world (change_stored cid f w) \<and> grows w (change_stored cid f w)" if w: "typed_world w" "typed_in w \<Gamma>" for w
  proof (cases "map_of (cards w) cid")
    case None
    then show ?thesis using w by (simp add: change_stored_def grows_refl)
  next
    case (Some md)
    then have "typed_in w (metadata_facts md @ \<Gamma>)" using w typed_in_member map_of_SomeD [OF Some] by simp
    then have "typed_in w (metadata_facts (f md))" by (rule covered_typed [OF assms])
    then show ?thesis
      using w typed_in_member [OF _ w(1)] alist_update_subset [of cid "f md" "cards w"] Some typed_cards [OF w(1)]
      by (fastforce simp: change_stored_def)
  qed
  then show ?thesis by (simp add: typed_act_def change_metadata_def)
qed

lemma typed_set_card:
  assumes "covered \<Gamma> (metadata_facts md)"
  shows "typed_act \<Gamma> (set_card_metadata cid md) (\<lambda>_. [])"
proof -
  have "typed_world (w\<lparr>cards := AList.update cid md (cards w)\<rparr>) \<and> grows w (w\<lparr>cards := AList.update cid md (cards w)\<rparr>)"
    if "typed_world w" "typed_in w \<Gamma>" for w
    using alist_update_subset [of cid md "cards w"] covered_typed [OF assms that(2)] typed_in_member [OF _ that(1)]
    by (intro typed_cards that) auto
  then show ?thesis by (simp add: typed_act_def set_card_metadata_def)
qed

lemma typed_remove_metadata: "typed_act \<Gamma> (remove_card_metadata cid) (\<lambda>_. [])"
proof -
  have "typed_world (w\<lparr>cards := AList.delete cid (cards w)\<rparr>) \<and> grows w (w\<lparr>cards := AList.delete cid (cards w)\<rparr>)"
    if "typed_world w" for w
    using alist_delete_subset [of cid "cards w"] typed_in_member [OF _ that] by (intro typed_cards that) auto
  then show ?thesis by (simp add: typed_act_def remove_card_metadata_def)
qed

section \<open>Typing the operations\<close>

lemma typed_option:
  "(x = None \<Longrightarrow> typed_act \<Gamma> m \<tau>) \<Longrightarrow> (\<And>y. x = Some y \<Longrightarrow> typed_act \<Gamma> (f y) \<tau>) \<Longrightarrow>
    typed_act \<Gamma> (case x of None \<Rightarrow> m | Some y \<Rightarrow> f y) \<tau>"
  by (cases x) auto

lemma typed_creates:
  "typed_act \<Gamma> (construct_cell name cid) (\<lambda>h. [(h, AnyCell)])"
  "typed_act \<Gamma> (create (\<lambda>h. SourceCell h name)) (\<lambda>h. [(h, LinkSource)])"
  "covered \<Gamma> (as_cells cs) \<Longrightarrow> typed_act \<Gamma> (create (\<lambda>h. Unfold h cs)) (\<lambda>h. [(h, APropagator)])"
  "covered \<Gamma> (as_cells [a, b, c]) \<Longrightarrow> typed_act \<Gamma> (create (\<lambda>h. CardIO h a b c)) (\<lambda>h. [(h, APropagator)])"
  "covered \<Gamma> (as_cells [c]) \<Longrightarrow> typed_act \<Gamma> (create (\<lambda>h. EmitToRuntime h i c)) (\<lambda>h. [(h, APropagator)])"
  "covered \<Gamma> (as_cells [c]) \<Longrightarrow> typed_act \<Gamma> (create (\<lambda>h. DictAccessor h key c)) (\<lambda>h. [(h, AnyCell)])"
  "covered \<Gamma> (as_cells (env # map snd pairs)) \<Longrightarrow> typed_act \<Gamma> (create (\<lambda>h. ExtendEnv h env pairs)) (\<lambda>h. [(h, AnyCell)])"
  "covered \<Gamma> ((source, LinkSource) # as_cells [a, env]) \<Longrightarrow>
    typed_act \<Gamma> (create (\<lambda>h. CompileNetwork h a env source ts)) (\<lambda>h. [(h, APropagator)])"
  unfolding construct_cell_def
  by (rule typed_create [where k = CellKind, simplified] typed_create [where k = SourceKind, simplified]
      typed_create [where k = PropagatorKind, simplified]; simp add: covered_def)+

lemmas typing_rules = typed_bind typed_creates typed_guarantee typed_tracked typed_guarantee_get typed_change
  typed_set_card typed_remove_metadata typed_emit typed_option typed_if typed_for_each typed_throw typed_ret

lemmas typing_simps = covered_def metadata_facts_set as_cells_def

lemma typed_construct: "typed_act [] (construct_card_metadata a) metadata_facts"
  unfolding construct_card_metadata_def execute_all_tasks_sequential_def Let_def
  by (rule typing_rules | simp add: typing_simps)+

lemma typed_add: "typed_act [] (add_card a) (\<lambda>_. [])"
  unfolding add_card_def by (rule typed_bind [OF typed_construct typed_ret]) (simp add: covered_def)

lemma typed_point_all:
  assumes "\<And>l. l \<in> set links \<Longrightarrow> (l, LinkSource) \<in> set \<Gamma>" and "(c, AnyCell) \<in> set \<Gamma>"
  shows "typed_act \<Gamma> (point_all links c) (\<lambda>_. [])"
  unfolding point_all_def by (rule typing_rules | simp add: typing_simps assms)+

lemma typed_link_source: "typed_act \<Gamma> (link_source key direction) (\<lambda>h. [(h, LinkSource)])"
  unfolding link_source_def by (rule typing_rules)

lemma typed_delete_link: "typed_act \<Gamma> (delete_link a key) (\<lambda>_. [])"
  unfolding delete_link_def
  by (rule typing_rules) (fastforce simp: typing_simps dest: subsetD [OF alist_delete_subset])

lemma typed_set_link:
  assumes "\<And>l. l \<in> set links \<Longrightarrow> (l, LinkSource) \<in> set \<Gamma>"
  shows "typed_act \<Gamma> (set_link a key links) (\<lambda>_. [])"
  unfolding set_link_def
  by (rule typing_rules) (fastforce simp: typing_simps assms dest: subsetD [OF alist_update_subset])

lemmas link_rules = typed_point_all typed_link_source typed_delete_link typed_set_link typing_rules

lemma typed_activate:
  assumes "\<And>h. h \<in> {kA, kB, At, Bt} \<Longrightarrow> (h, AnyCell) \<in> set \<Gamma>"
  shows "typed_act \<Gamma> (activate_links a b kA kB At Bt) (\<lambda>_. [])"
  unfolding activate_links_def Let_def
  by (rule link_rules | simp add: typing_simps assms | force)+

lemma typed_clear: "typed_act \<Gamma> (clear_previous a b) (\<lambda>_. [])"
  unfolding clear_previous_def
  by (rule link_rules | simp add: typing_simps | force dest: map_of_SomeD)+

lemma typed_connect: "typed_act \<Gamma> (connect_cards a b ka kb) (\<lambda>_. [])"
  unfolding connect_cards_def card_metadata_connect_def
  by (rule typed_bind typed_guarantee typed_clear typed_tracked typed_activate | simp)+ auto

lemma typed_detach: "typed_act \<Gamma> (detach_cards a b) (\<lambda>_. [])"
  unfolding detach_cards_def detach_cards_by_key_def card_metadata_detach_def
  by (rule link_rules | simp add: typing_simps | force dest: map_of_SomeD)+

lemma typed_remove: "typed_act \<Gamma> (remove_card a) (\<lambda>_. [])"
  unfolding remove_card_def card_metadata_remove_def dispose_propagator_def case_prod_unfold
  by (rule link_rules | simp add: typing_simps | force)+

lemma typed_update: "typed_act \<Gamma> (update_card L a v) (\<lambda>_. [])"
  unfolding update_card_def card_metadata_update_def update_specialized_reactive_value_def
  by (rule typing_rules typed_reads [where \<tau> = "\<lambda>_. []"] | simp add: typing_simps)+

text \<open>
  The propagators the library lists as the neighbours of a cell are propagators, as long as
  the calls made so far are well typed; a neighbour that was collected is missing.
\<close>

definition neighbors_are_propagators :: "library \<Rightarrow> bool" where
  "neighbors_are_propagators L \<longleftrightarrow> (\<forall>log c q. typed_log log \<longrightarrow> Some q \<in> set (lib_neighbors L log c) \<longrightarrow>
     kind_of log q = Some PropagatorKind)"

definition neighbor_facts :: "handle option list \<Rightarrow> (handle \<times> role) list" where
  "neighbor_facts ns = concat (map (\<lambda>p. case p of None \<Rightarrow> [] | Some q \<Rightarrow> [(q, APropagator)]) ns)"

lemma neighbor_facts_set: "(q, APropagator) \<in> set (neighbor_facts ns) \<longleftrightarrow> Some q \<in> set ns"
  by (induction ns) (auto simp: neighbor_facts_def split: option.splits)

lemma typed_neighbors:
  assumes "neighbors_are_propagators L"
  shows "typed_act \<Gamma> (reads (\<lambda>w. lib_neighbors L (effects w) c)) neighbor_facts"
proof (rule typed_reads)
  fix w assume "typed_world w"
  then have "typed_log (effects w)" by (simp add: typed_world_def)
  then have "\<forall>q. Some q \<in> set ns \<longrightarrow> has_role (effects w) (q, APropagator)" if "set ns \<subseteq> set (lib_neighbors L (effects w) c)" for ns
    using assms that by (auto simp: neighbors_are_propagators_def has_role_def subset_iff)
  moreover have "typed_in w (neighbor_facts ns)" if "\<forall>q. Some q \<in> set ns \<longrightarrow> has_role (effects w) (q, APropagator)" for ns
    using that by (induction ns) (auto simp: neighbor_facts_def typed_in_def split: option.split)
  ultimately show "typed_in w (neighbor_facts (lib_neighbors L (effects w) c))" by blast
qed

lemma typed_clear_env: "typed_act \<Gamma> (change_metadata a (\<lambda>md. md\<lparr>md_local_env := None\<rparr>)) (\<lambda>_. [])"
  by (rule typed_change) (auto simp: typing_simps)

lemma typed_dispose_compiled: "typed_act \<Gamma> (dispose_compiled a) (\<lambda>_. [])"
  unfolding dispose_compiled_def dispose_propagator_def execute_all_tasks_sequential_def
  by (rule typing_rules | simp add: typing_simps | force dest: map_of_SomeD)+

lemma typed_dispose_local_env:
  assumes "neighbors_are_propagators L"
  shows "typed_act \<Gamma> (dispose_local_env L a) (\<lambda>_. [])"
  unfolding dispose_local_env_def dispose_propagator_def
  by (rule typed_clear_env typing_rules typed_neighbors assms | simp add: typing_simps neighbor_facts_set)+

lemma typed_get_local_env:
  assumes "(env, AnyCell) \<in> set \<Gamma>" and "(c, AnyCell) \<in> set \<Gamma>"
  shows "typed_act \<Gamma> (get_local_env env c) (\<lambda>h. [(h, AnyCell)])"
  unfolding get_local_env_def internal_cell_getter_def extends_local_environment_def
  by (rule typing_rules | simp add: typing_simps assms)+

lemma typed_set_env:
  assumes "(env, AnyCell) \<in> set \<Gamma>"
  shows "typed_act \<Gamma> (change_metadata a (\<lambda>md. md\<lparr>md_local_env := Some env\<rparr>)) (\<lambda>_. [])"
  using assms by (intro typed_change) (auto simp: typing_simps)

lemma typed_set_network:
  assumes "(p, APropagator) \<in> set \<Gamma>"
  shows "typed_act \<Gamma> (change_metadata a (\<lambda>md. md\<lparr>
    md_propagators := AList.update key p (md_propagators md), md_timestamp := ts\<rparr>)) (\<lambda>_. [])"
proof (rule typed_change)
  fix md
  show "covered (metadata_facts md @ \<Gamma>) (metadata_facts (md\<lparr>md_propagators := AList.update key p (md_propagators md), md_timestamp := ts\<rparr>))"
    using assms alist_update_subset [of key p "md_propagators md"] by (intro covered_subset) (auto simp: metadata_facts_set)
qed

lemma typed_build:
  assumes "neighbors_are_propagators L" and "(env, AnyCell) \<in> set \<Gamma>"
  shows "typed_act \<Gamma> (build_card L env a) (\<lambda>_. [])"
  unfolding build_card_def card_metadata_build_def execute_all_tasks_sequential_def Let_def
  by (rule typed_bind typed_guarantee typed_dispose_compiled typed_dispose_local_env [OF assms(1)]
      typed_get_local_env typed_set_env typed_guarantee_get typed_creates(8) typed_set_network typed_emit typed_ret
    | simp add: typing_simps assms | force)+

section \<open>The runtime is well typed\<close>

text \<open>
  The states the operations reach, whether they return or throw, in any order and also when a
  card is added under an id that is in use. Clients construct cells of their own, such as the
  environment; a build is called with the handle of a cell.
\<close>

inductive typed_reach :: "library \<Rightarrow> card_world \<Rightarrow> bool" for L where
  typed_empty: "typed_reach L empty_world"
| typed_client: "typed_reach L w \<Longrightarrow> typed_reach L (snd (construct_cell name cid w))"
| typed_after_add: "typed_reach L w \<Longrightarrow> typed_reach L (snd (add_card a w))"
| typed_after_connect: "typed_reach L w \<Longrightarrow> typed_reach L (snd (connect_cards a b ka kb w))"
| typed_after_detach: "typed_reach L w \<Longrightarrow> typed_reach L (snd (detach_cards a b w))"
| typed_after_remove: "typed_reach L w \<Longrightarrow> typed_reach L (snd (remove_card a w))"
| typed_after_update: "typed_reach L w \<Longrightarrow> typed_reach L (snd (update_card L a v w))"
| typed_after_build: "typed_reach L w \<Longrightarrow> has_role (effects w) (env, AnyCell) \<Longrightarrow> typed_reach L (snd (build_card L env a w))"

lemma typed_act_world: "typed_act \<Gamma> m \<tau> \<Longrightarrow> typed_world w \<Longrightarrow> typed_in w \<Gamma> \<Longrightarrow> typed_world (snd (m w))"
  by (cases "m w") (auto simp: typed_act_def)

lemma typed_act_role:
  "typed_act \<Gamma> m \<tau> \<Longrightarrow> typed_world w \<Longrightarrow> typed_in w \<Gamma> \<Longrightarrow> has_role (effects w) p \<Longrightarrow> has_role (effects (snd (m w))) p"
  using typed_in_grows [of w "snd (m w)" "[p]"] by (cases "m w") (auto simp: typed_act_def typed_in_def)

lemma typed_reach_world:
  assumes "neighbors_are_propagators L" and "typed_reach L w"
  shows "typed_world w"
  using assms(2)
proof induction
  case typed_empty
  then show ?case by (simp add: typed_world_def empty_world_def)
next
  case (typed_after_build w env a)
  then show ?case
    using typed_act_world [OF typed_build [OF assms(1), of env "[(env, AnyCell)]" a]] by (simp add: typed_in_def)
qed (auto intro: typed_act_world [where \<Gamma> = "[]"] typed_creates typed_add typed_connect typed_detach typed_remove typed_update)

definition networks_of :: "effect list \<Rightarrow> handle \<Rightarrow> handle option list" where
  "networks_of log env = concat (map (\<lambda>e. case e of
     CompileNetwork h _ env' _ _ \<Rightarrow> if env' = env then [Some h] else [] | _ \<Rightarrow> []) log)"

definition network_library :: library where
  "network_library = sample_library\<lparr>lib_neighbors := networks_of\<rparr>"

lemma kind_of_created:
  "typed_log log \<Longrightarrow> e \<in> set log \<Longrightarrow> created e = Some (h, k) \<Longrightarrow> kind_of log h = Some k"
  by (induction log) (auto split: option.splits)

lemma network_library: "neighbors_are_propagators network_library"
proof -
  have "\<exists>c source ts. CompileNetwork q c env source ts \<in> set log" if "Some q \<in> set (networks_of log env)" for q log env
    using that by (auto simp: networks_of_def split: effect.splits if_splits)
  then show ?thesis
    unfolding neighbors_are_propagators_def using kind_of_created by (fastforce simp: network_library_def)
qed

definition typed_sample :: card_world where
  "typed_sample = snd (build_card network_library 0 ''a'' (snd (add_card ''a''
     (snd (construct_cell ''env'' None empty_world)))))"


lemma typed_sample_reach: "typed_reach network_library typed_sample" "has_role (effects typed_sample) (0, AnyCell)"
proof -
  let ?e = "snd (construct_cell ''env'' None empty_world)"
  let ?a = "snd (add_card ''a'' ?e)"
  have e: "typed_reach network_library ?e" "has_role (effects ?e) (0, AnyCell)"
    by (rule typed_client [OF typed_empty]) (simp add: construct_cell_def has_role_def empty_world_def)
  then have a: "typed_reach network_library ?a" "has_role (effects ?a) (0, AnyCell)"
    using typed_act_role [OF typed_add typed_reach_world [OF network_library]] by (auto intro: typed_after_add)
  then show "typed_reach network_library typed_sample"
    unfolding typed_sample_def by (intro typed_after_build)
  have b: "typed_act [(0, AnyCell)] (build_card network_library 0 ''a'') (\<lambda>_. [])"
    by (rule typed_build [OF network_library]) simp
  show "has_role (effects typed_sample) (0, AnyCell)"
    unfolding typed_sample_def
    by (rule typed_act_role [OF b typed_reach_world [OF network_library a(1)]]) (use a(2) in \<open>simp_all only: typed_in_def list.pred_inject simp_thms\<close>)
qed


end
