(* ===== verification/Hash_Store.thy ===== *)
theory Hash_Store
  imports Json_Text "HOL-Library.Word"
begin

text \<open>
  Hashes of closures, \<open>src/compiler/closure/hash.ts\<close>: the serialisation that does not depend on
  the order of keys, the 32-bit hash and the store of weak references with its finalizers.

  Numbers of the hash are integers; JavaScript computes them in doubles, which are exact up to
  \<open>2 ^ 53\<close>, and the bound proved here keeps strings of up to \<open>2 ^ 21\<close> characters below that.
  Objects of the store are a parameter type; collecting one and running its finalizer are
  steps of their own, which the run time takes when it likes.
\<close>

section \<open>Serialisation\<close>

text \<open>
  \<open>None\<close> is \<open>undefined\<close>, which \<open>join\<close> prints as nothing and a template as \<open>undefined\<close>.
\<close>

fun stable_stringify :: "jsval \<Rightarrow> jstring option"
  and stable_elems :: "jsval list \<Rightarrow> jstring list"
  and stable_members :: "(jstring \<times> jsval) list \<Rightarrow> (jstring \<times> jstring) list" where
  "stable_stringify (JArr vs) = Some (''['' @ join_with '','' (stable_elems vs) @ '']'')"
| "stable_stringify (JObj kvs) = Some (''{'' @ join_with '','' (map snd (sort_key fst (stable_members kvs))) @ ''}'')"
| "stable_stringify v = json_stringify v"
| "stable_elems [] = []"
| "stable_elems (v # vs) = (case stable_stringify v of None \<Rightarrow> [] | Some s \<Rightarrow> s) # stable_elems vs"
| "stable_members [] = []"
| "stable_members ((k, v) # kvs) =
     (k, json_quote k @ '':'' @ (case stable_stringify v of None \<Rightarrow> ''undefined'' | Some s \<Rightarrow> s)) # stable_members kvs"

text \<open>The same value with the keys of every object sorted.\<close>

fun canon :: "jsval \<Rightarrow> jsval"
  and canon_elems :: "jsval list \<Rightarrow> jsval list"
  and canon_members :: "(jstring \<times> jsval) list \<Rightarrow> (jstring \<times> jsval) list" where
  "canon (JArr vs) = JArr (canon_elems vs)"
| "canon (JObj kvs) = JObj (sort_key fst (canon_members kvs))"
| "canon v = v"
| "canon_elems [] = []"
| "canon_elems (v # vs) = canon v # canon_elems vs"
| "canon_members [] = []"
| "canon_members ((k, v) # kvs) = (k, canon v) # canon_members kvs"

text \<open>JSON values whose keys are distinct and no array indices.\<close>

fun plain :: "jsval \<Rightarrow> bool"
  and plain_elems :: "jsval list \<Rightarrow> bool"
  and plain_members :: "(jstring \<times> jsval) list \<Rightarrow> bool" where
  "plain JUndef = False"
| "plain (JNum n) = finite_num n"
| "plain (JArr vs) = plain_elems vs"
| "plain (JObj kvs) = (distinct (map fst kvs) \<and> plain_members kvs)"
| "plain v = True"
| "plain_elems [] = True"
| "plain_elems (v # vs) = (plain v \<and> plain_elems vs)"
| "plain_members [] = True"
| "plain_members ((k, v) # kvs) = (\<not> is_index_key k \<and> plain v \<and> plain_members kvs)"

lemma map_insort: "(\<And>y. g (h y) = f y) \<Longrightarrow> map h (insort_key f x xs) = insort_key g (h x) (map h xs)"
  by (induction xs) auto

lemma map_sort_key: "(\<And>y. g (h y) = f y) \<Longrightarrow> map h (sort_key f xs) = sort_key g (map h xs)"
  by (induction xs) (simp_all add: map_insort [where g = g and f = f])

definition member_text :: "jstring \<times> jsval \<Rightarrow> jstring \<times> jstring" where
  "member_text kv = (fst kv, json_quote (fst kv) @ '':'' @ (case json_stringify (snd kv) of None \<Rightarrow> ''undefined'' | Some s \<Rightarrow> s))"

lemma json_members_text:
  "(\<And>k v. (k, v) \<in> set kvs \<Longrightarrow> json_stringify v \<noteq> None) \<Longrightarrow> json_members kvs = map (snd \<circ> member_text) kvs"
  by (induction kvs) (fastforce simp: member_text_def split: option.splits)+

lemma stable_canon:
  "plain v \<Longrightarrow> stable_stringify v = json_stringify (canon v) \<and> json_stringify (canon v) \<noteq> None"
  "plain_elems vs \<Longrightarrow> stable_elems vs = json_elems (canon_elems vs)"
  "plain_members kvs \<Longrightarrow> stable_members kvs = map member_text (canon_members kvs)
     \<and> (\<forall>(k, v) \<in> set (canon_members kvs). json_stringify v \<noteq> None)"
proof (induction v and vs and kvs rule: stable_stringify_stable_elems_stable_members.induct)
  case (2 kvs)
  then have IH: "stable_members kvs = map member_text (canon_members kvs)"
    "\<And>k v. (k, v) \<in> set (canon_members kvs) \<Longrightarrow> json_stringify v \<noteq> None" by auto
  have "map snd (sort_key fst (stable_members kvs)) = map snd (map member_text (sort_key fst (canon_members kvs)))"
    using map_sort_key [of fst member_text fst "canon_members kvs"] by (simp add: IH(1) member_text_def)
  also have "\<dots> = json_members (sort_key fst (canon_members kvs))"
    using IH(2) by (subst json_members_text) auto
  finally show ?case by simp
qed (auto simp: member_text_def split: option.splits)

lemma canon_keys: "map fst (canon_members kvs) = map fst kvs"
  by (induction kvs) auto

lemma plain_keys: "plain_members kvs \<Longrightarrow> k \<in> fst ` set kvs \<Longrightarrow> \<not> is_index_key k"
  by (induction kvs) force+

lemma canon_wf:
  "plain v \<Longrightarrow> wf_json (canon v)" "plain_elems vs \<Longrightarrow> wf_elems (canon_elems vs)" "plain_members kvs \<Longrightarrow> wf_members (canon_members kvs)"
proof (induction v and vs and kvs rule: canon_canon_elems_canon_members.induct)
  case (2 kvs)
  let ?s = "sort_key fst (canon_members kvs)"
  have keys: "fst ` set ?s = fst ` set kvs" using canon_keys [of kvs] by (metis list.set_map set_sort)
  have "distinct (map fst (canon_members kvs))" using 2(2) by (simp add: canon_keys)
  then have "distinct (map fst ?s)" by (simp add: distinct_map distinct_sort)
  moreover have "\<forall>k \<in> fst ` set ?s. \<not> is_index_key k" unfolding keys using 2(2) plain_keys [of kvs] by simp
  ultimately have "json_object ?s = ?s" by (rule json_object_id)
  then show ?case using 2 by (simp add: wf_members_iff)
qed simp_all

text \<open>
  C19: The serialisation that is hashed is canonical: two values have the same text exactly
  when they differ in nothing but the order of the keys of their objects.
\<close>

theorem stable_stringify_canonical:
  assumes "plain v" and "plain w"
  shows "stable_stringify v = stable_stringify w \<longleftrightarrow> canon v = canon w"
  using stable_canon(1) [OF assms(1)] stable_canon(1) [OF assms(2)]
    json_stringify_inj [OF canon_wf(1) [OF assms(1)] canon_wf(1) [OF assms(2)]] by metis

theorem stable_stringify_canonical_witness:
  "stable_stringify (JObj [(''a'', JNull), (''b'', JArr [JBool True])]) = stable_stringify (JObj [(''b'', JArr [JBool True]), (''a'', JNull)])"
proof -
  have p: "plain (JObj [(''a'', JNull), (''b'', JArr [JBool True])])" "plain (JObj [(''b'', JArr [JBool True]), (''a'', JNull)])"
    by (simp_all add: is_index_key_def is_digit_def)
  then show ?thesis by (subst stable_stringify_canonical [OF p]) simp
qed

section \<open>The hash\<close>

text \<open>\<open>h << 5\<close> is computed on 32 bits and is a signed number; the sums are not cut.\<close>

definition shift_left5 :: "int \<Rightarrow> int" where
  "shift_left5 h = sint (push_bit 5 (word_of_int h :: 32 word))"

definition hash_step :: "char \<Rightarrow> int \<Rightarrow> int" where
  "hash_step c h = shift_left5 h + h + of_char c"

fun hex_of_nat :: "nat \<Rightarrow> jstring" where
  "hex_of_nat n = (if n < 16 then [hex_digit (int n)] else hex_of_nat (n div 16) @ [hex_digit (int (n mod 16))])"

declare hex_of_nat.simps [simp del]

definition hash_number :: "jstring \<Rightarrow> int" where
  "hash_number s = fold hash_step s 5381"

definition simple_hash :: "jstring \<Rightarrow> jstring" where
  "simple_hash s = hex_of_nat (unat (word_of_int (hash_number s) :: 32 word))"

definition djb2 :: "jstring \<Rightarrow> 32 word" where
  "djb2 s = fold (\<lambda>c h. h * 33 + of_char c) s 5381"

lemma hash_step_word: "(word_of_int (hash_step c h) :: 32 word) = word_of_int h * 33 + of_char c"
proof -
  have "(word_of_int (shift_left5 h) :: 32 word) = word_of_int h * 32"
    by (simp add: shift_left5_def push_bit_eq_mult)
  moreover have "(word_of_int (of_char c) :: 32 word) = of_char c" by (simp add: of_char_def)
  ultimately show ?thesis by (simp add: hash_step_def algebra_simps)
qed

lemma hash_number_word: "(word_of_int (hash_number s) :: 32 word) = djb2 s"
proof -
  have "(word_of_int (fold hash_step s h) :: 32 word) = fold (\<lambda>c h. h * 33 + of_char c) s (word_of_int h)" for h
    by (induction s arbitrary: h) (simp_all add: hash_step_word)
  then show ?thesis by (simp add: hash_number_def djb2_def)
qed

lemma hash_step_bound: "\<bar>hash_step c h\<bar> \<le> \<bar>h\<bar> + 2 ^ 31 + 255"
proof -
  have "- (2 ^ 31) \<le> shift_left5 h" "shift_left5 h \<le> 2 ^ 31"
    using sint_ge [of "push_bit 5 (word_of_int h :: 32 word)"] sint_lt [of "push_bit 5 (word_of_int h :: 32 word)"]
    by (simp_all add: shift_left5_def)
  moreover have "0 \<le> (of_char c :: int)" "(of_char c :: int) \<le> 255"
    using nat_of_char_less_256 [of c] of_nat_of_char [of c, where 'a = int] by linarith+
  ultimately show ?thesis by (simp add: hash_step_def)
qed

text \<open>
  C20: For strings of up to \<open>2 ^ 21\<close> characters every number the loop computes is a safe integer, so
  that the sums in doubles are exact, and the result is the 32-bit hash \<open>h * 33 + c\<close> with
  wrap-around, although only the shift is cut to 32 bits on the way.
\<close>

theorem simple_hash_is_djb2:
  assumes "length s \<le> 2 ^ 21"
  shows "simple_hash s = hex_of_nat (unat (djb2 s)) \<and> (\<forall>n. \<bar>hash_number (take n s)\<bar> < 2 ^ 53)"
proof (intro conjI allI)
  show "simple_hash s = hex_of_nat (unat (djb2 s))" by (simp add: simple_hash_def hash_number_word)
  fix n
  have bound: "\<bar>fold hash_step t h\<bar> \<le> \<bar>h\<bar> + int (length t) * (2 ^ 31 + 255)" for t h
  proof (induction t arbitrary: h)
    case (Cons c t)
    have "\<bar>fold hash_step (c # t) h\<bar> \<le> \<bar>hash_step c h\<bar> + int (length t) * (2 ^ 31 + 255)" using Cons by simp
    also have "\<dots> \<le> \<bar>h\<bar> + int (length (c # t)) * (2 ^ 31 + 255)" using hash_step_bound [of c h] by (simp add: algebra_simps)
    finally show ?case .
  qed simp
  have "int (length (take n s)) \<le> 2 ^ 21" using assms by simp
  then have "int (length (take n s)) * (2 ^ 31 + 255) \<le> 2 ^ 21 * (2 ^ 31 + 255)" by (rule mult_right_mono) simp
  then have "\<bar>hash_number (take n s)\<bar> \<le> 5381 + 2 ^ 21 * (2 ^ 31 + 255)" using bound [of "take n s" 5381] by (simp add: hash_number_def)
  then show "\<bar>hash_number (take n s)\<bar> < 2 ^ 53" by simp
qed

theorem simple_hash_is_djb2_witness: "simple_hash ''lain'' = hex_of_nat (unat (djb2 ''lain''))"
  using simple_hash_is_djb2 [of "''lain''"] by simp

section \<open>The store\<close>

text \<open>
  The maps, the registrations of the finalizers (an object, the held hash and the token, if one
  was given), the objects that were collected, and the finalizers that are due.
\<close>

record 'o hash_store =
  hash_to_ref :: "(jstring, 'o) jmap"
  object_to_hash :: "('o, jstring) jmap"
  registrations :: "('o \<times> jstring \<times> 'o option) list"
  collected :: "'o list"
  finalizers :: "jstring list"

text \<open>A value that is passed to the store: an object or a primitive.\<close>

datatype 'o datum = Ref 'o | Prim jsval

definition new_store :: "'o hash_store" where
  "new_store = \<lparr>hash_to_ref = [], object_to_hash = [], registrations = [], collected = [], finalizers = []\<rparr>"

definition deref :: "'o hash_store \<Rightarrow> 'o \<Rightarrow> 'o option" where
  "deref st obj = (if obj \<in> set (collected st) then None else Some obj)"

definition get_hash_for_object :: "'o hash_store \<Rightarrow> 'o \<Rightarrow> jstring option" where
  "get_hash_for_object st obj = map_of (object_to_hash st) obj"

definition store_get :: "jstring \<Rightarrow> 'o hash_store \<Rightarrow> 'o option \<times> 'o hash_store" where
  "store_get hash st =
     (case map_of (hash_to_ref st) hash of
        None \<Rightarrow> (None, st)
      | Some ref \<Rightarrow>
          (case deref st ref of
             None \<Rightarrow> (None, st\<lparr>hash_to_ref := AList.delete hash (hash_to_ref st)\<rparr>)
           | Some obj \<Rightarrow> (Some obj, st)))"

definition store_set :: "jstring \<Rightarrow> 'o datum \<Rightarrow> 'o hash_store \<Rightarrow> 'o hash_store" where
  "store_set hash d st =
     (case d of
        Prim _ \<Rightarrow> st
      | Ref obj \<Rightarrow> st\<lparr>hash_to_ref := AList.update hash obj (hash_to_ref st),
          object_to_hash := AList.update obj hash (object_to_hash st),
          registrations := registrations st @ [(obj, hash, None)]\<rparr>)"

definition store_has :: "jstring \<Rightarrow> 'o hash_store \<Rightarrow> bool \<times> 'o hash_store" where
  "store_has hash st =
     (case map_of (hash_to_ref st) hash of
        None \<Rightarrow> (False, st)
      | Some ref \<Rightarrow>
          (case deref st ref of
             None \<Rightarrow> (False, st\<lparr>hash_to_ref := AList.delete hash (hash_to_ref st)\<rparr>)
           | Some obj \<Rightarrow> (True, st)))"

definition get_or_set :: "jstring \<Rightarrow> 'o datum \<Rightarrow> 'o hash_store \<Rightarrow> 'o datum \<times> 'o hash_store" where
  "get_or_set hash created st =
     (let (existing, st) = store_get hash st
      in case existing of Some obj \<Rightarrow> (Ref obj, st) | None \<Rightarrow> (created, store_set hash created st))"

text \<open>\<open>unregister\<close> removes the registrations made with the token.\<close>

definition unregister :: "'o \<Rightarrow> 'o hash_store \<Rightarrow> 'o hash_store" where
  "unregister token st = st\<lparr>registrations := filter (\<lambda>(_, _, t). t \<noteq> Some token) (registrations st)\<rparr>"

definition store_delete :: "'o \<Rightarrow> 'o hash_store \<Rightarrow> 'o hash_store" where
  "store_delete obj st =
     (case map_of (object_to_hash st) obj of
        None \<Rightarrow> st
      | Some hash \<Rightarrow>
          if hash = [] then st
          else unregister obj (st\<lparr>hash_to_ref := AList.delete hash (hash_to_ref st),
                 object_to_hash := AList.delete obj (object_to_hash st)\<rparr>))"

definition delete_by_hash :: "jstring \<Rightarrow> 'o hash_store \<Rightarrow> 'o hash_store" where
  "delete_by_hash hash st =
     (case map_of (hash_to_ref st) hash of
        None \<Rightarrow> st
      | Some ref \<Rightarrow>
          (let st = (case deref st ref of
                       None \<Rightarrow> st
                     | Some obj \<Rightarrow> unregister obj (st\<lparr>object_to_hash := AList.delete obj (object_to_hash st)\<rparr>))
           in st\<lparr>hash_to_ref := AList.delete hash (hash_to_ref st)\<rparr>))"

definition store_clear :: "'o hash_store \<Rightarrow> 'o hash_store" where
  "store_clear st = st\<lparr>hash_to_ref := []\<rparr>"

text \<open>The run time collects an object, and later runs a finalizer: the callback of the constructor.\<close>

definition collect :: "'o \<Rightarrow> 'o hash_store \<Rightarrow> 'o hash_store" where
  "collect obj st =
     (if obj \<in> set (collected st) then st
      else st\<lparr>collected := obj # collected st, object_to_hash := AList.delete obj (object_to_hash st),
             finalizers := finalizers st @ map (\<lambda>(_, hash, _). hash) (filter (\<lambda>(target, _, _). target = obj) (registrations st)),
             registrations := filter (\<lambda>(target, _, _). target \<noteq> obj) (registrations st)\<rparr>)"

definition run_finalizer :: "'o hash_store \<Rightarrow> 'o hash_store" where
  "run_finalizer st =
     (case finalizers st of
        [] \<Rightarrow> st
      | hash # rest \<Rightarrow> st\<lparr>finalizers := rest, hash_to_ref := AList.delete hash (hash_to_ref st)\<rparr>)"

section \<open>The functions of the module\<close>

text \<open>\<open>content\<close> gives what an object serialises as; \<open>None\<close> is the exception on \<open>undefined\<close>.\<close>

definition datum_value :: "('o \<Rightarrow> jsval) \<Rightarrow> 'o datum \<Rightarrow> jsval" where
  "datum_value content d = (case d of Ref obj \<Rightarrow> content obj | Prim v \<Rightarrow> v)"

definition calculate_hash :: "('o \<Rightarrow> jsval) \<Rightarrow> 'o datum \<Rightarrow> 'o hash_store \<Rightarrow> (jstring \<times> 'o hash_store) option" where
  "calculate_hash content d st =
     (case stable_stringify (datum_value content d) of
        None \<Rightarrow> None
      | Some serialized \<Rightarrow>
          (let hash = simple_hash serialized; (known, st) = store_has hash st
           in Some (hash, if known then st else store_set hash d st)))"

definition get_hash :: "('o \<Rightarrow> jsval) \<Rightarrow> 'o datum \<Rightarrow> 'o hash_store \<Rightarrow> (jstring \<times> 'o hash_store) option" where
  "get_hash content x st =
     (case (case x of Ref obj \<Rightarrow> get_hash_for_object st obj | Prim _ \<Rightarrow> None) of
        Some existing_hash \<Rightarrow>
          if existing_hash \<noteq> [] then Some (existing_hash, st)
          else map_option (\<lambda>(hash, st). (hash, store_set hash x st)) (calculate_hash content x st)
      | None \<Rightarrow> map_option (\<lambda>(hash, st). (hash, store_set hash x st)) (calculate_hash content x st))"

definition remove_hash_from_store :: "'o datum \<Rightarrow> 'o hash_store \<Rightarrow> 'o hash_store" where
  "remove_hash_from_store d st = (case d of Ref obj \<Rightarrow> store_delete obj st | Prim _ \<Rightarrow> st)"

text \<open>The hash of a closure is that of one object made of its three parts.\<close>

definition closure_hash :: "jsval list \<Rightarrow> jsval list \<Rightarrow> jsval list \<Rightarrow> jstring option" where
  "closure_hash inputs outputs body =
     map_option simple_hash (stable_stringify (JObj [(''inputs'', JArr inputs), (''outputs'', JArr outputs), (''body'', JArr body)]))"

section \<open>What the store finds\<close>

datatype 'o store_op = OpSet jstring 'o | OpGet jstring | OpHas jstring | OpCollect 'o | OpFinalize

text \<open>A collected object cannot be passed to the store any more.\<close>

definition run_op :: "'o store_op \<Rightarrow> 'o hash_store \<Rightarrow> 'o hash_store" where
  "run_op op st =
     (case op of
        OpSet hash obj \<Rightarrow> if obj \<in> set (collected st) then st else store_set hash (Ref obj) st
      | OpGet hash \<Rightarrow> snd (store_get hash st)
      | OpHas hash \<Rightarrow> snd (store_has hash st)
      | OpCollect obj \<Rightarrow> collect obj st
      | OpFinalize \<Rightarrow> run_finalizer st)"

definition hashes_by :: "('o \<Rightarrow> jstring) \<Rightarrow> 'o store_op list \<Rightarrow> bool" where
  "hashes_by hash_of ops \<longleftrightarrow> (\<forall>hash obj. OpSet hash obj \<in> set ops \<longrightarrow> hash = hash_of obj)"

definition store_inv :: "('o \<Rightarrow> jstring) \<Rightarrow> 'o set \<Rightarrow> 'o hash_store \<Rightarrow> bool" where
  "store_inv hash_of stored st \<longleftrightarrow>
     set (finalizers st) \<subseteq> hash_of ` set (collected st)
     \<and> (\<forall>(obj, hash, token) \<in> set (registrations st). hash = hash_of obj)
     \<and> (\<forall>hash obj. map_of (hash_to_ref st) hash = Some obj \<longrightarrow> hash = hash_of obj)
     \<and> (\<forall>obj \<in> stored - set (collected st). map_of (hash_to_ref st) (hash_of obj) = Some obj)"

lemma store_inv_delete:
  assumes "inj hash_of" and "store_inv hash_of stored st" and "hash \<in> hash_of ` set (collected st)"
  shows "store_inv hash_of stored (st\<lparr>hash_to_ref := AList.delete hash (hash_to_ref st)\<rparr>)"
  using assms by (auto simp: store_inv_def delete_conv' inj_eq)

lemma store_get_inv:
  assumes "inj hash_of" and "store_inv hash_of stored st"
  shows "store_inv hash_of stored (snd (store_get hash st))"
proof (cases "map_of (hash_to_ref st) hash")
  case (Some obj)
  show ?thesis
  proof (cases "obj \<in> set (collected st)")
    case True
    moreover have "hash = hash_of obj" using Some assms(2) unfolding store_inv_def by blast
    ultimately have "hash \<in> hash_of ` set (collected st)" by simp
    then show ?thesis using store_inv_delete [OF assms] Some True by (simp add: store_get_def deref_def)
  qed (use assms(2) Some in \<open>simp add: store_get_def deref_def\<close>)
qed (use assms(2) in \<open>simp add: store_get_def\<close>)

lemma store_has_get: "snd (store_has hash st) = snd (store_get hash st)" "fst (store_has hash st) \<longleftrightarrow> fst (store_get hash st) \<noteq> None"
  by (simp_all add: store_has_def store_get_def split: option.splits)

lemma run_op_inv:
  assumes "inj hash_of" and "hashes_by hash_of [op]" and "store_inv hash_of stored st"
  shows "store_inv hash_of (stored \<union> {obj. \<exists>hash. op = OpSet hash obj}) (run_op op st)"
proof (cases op)
  case (OpSet hash obj)
  then have "hash = hash_of obj" using assms(2) by (simp add: hashes_by_def)
  then show ?thesis
    using assms(1,3) OpSet by (auto simp: run_op_def store_inv_def store_set_def update_conv' inj_eq)
next
  case (OpGet hash)
  then show ?thesis using store_get_inv [OF assms(1,3)] by (simp add: run_op_def)
next
  case (OpHas hash)
  then show ?thesis using store_get_inv [OF assms(1,3)] by (simp add: run_op_def store_has_get)
next
  case (OpCollect obj)
  then show ?thesis using assms(3) by (auto simp: run_op_def store_inv_def collect_def)
next
  case OpFinalize
  show ?thesis
  proof (cases "finalizers st")
    case (Cons hash rest)
    then have "hash \<in> hash_of ` set (collected (st\<lparr>finalizers := rest\<rparr>))" "store_inv hash_of stored (st\<lparr>finalizers := rest\<rparr>)"
      using assms(3) by (simp_all add: store_inv_def)
    then show ?thesis
      using store_inv_delete [OF assms(1), of stored "st\<lparr>finalizers := rest\<rparr>" hash] OpFinalize Cons
      by (simp add: run_op_def run_finalizer_def)
  qed (use assms(3) OpFinalize in \<open>simp add: run_op_def run_finalizer_def\<close>)
qed

lemma run_ops_inv:
  assumes "inj hash_of" and "hashes_by hash_of ops" and "store_inv hash_of stored st"
  shows "store_inv hash_of (stored \<union> {obj. \<exists>hash. OpSet hash obj \<in> set ops}) (fold run_op ops st)"
  using assms(2,3)
proof (induction ops arbitrary: stored st)
  case (Cons op ops)
  have "hashes_by hash_of [op]" "hashes_by hash_of ops" using Cons.prems(1) by (auto simp: hashes_by_def)
  then have "store_inv hash_of ((stored \<union> {obj. \<exists>hash. op = OpSet hash obj}) \<union> {obj. \<exists>hash. OpSet hash obj \<in> set ops})
      (fold run_op ops (run_op op st))"
    using Cons.IH run_op_inv [OF assms(1) _ Cons.prems(2)] by blast
  moreover have "(stored \<union> {obj. \<exists>hash. op = OpSet hash obj}) \<union> {obj. \<exists>hash. OpSet hash obj \<in> set ops}
      = stored \<union> {obj. \<exists>hash. OpSet hash obj \<in> set (op # ops)}" by auto
  ultimately show ?case by simp
qed simp

text \<open>
  C18: While different objects have different hashes, the store never loses a live object:
  however its operations, the collection of objects and the late finalizers are interleaved,
  every object that was stored and is not collected is found under its hash.
\<close>

theorem store_finds_live:
  assumes "inj hash_of" and "hashes_by hash_of ops" and "OpSet hash obj \<in> set ops"
    and "obj \<notin> set (collected (fold run_op ops new_store))"
  shows "fst (store_get hash (fold run_op ops new_store)) = Some obj"
proof -
  have "store_inv hash_of {} new_store" by (simp add: store_inv_def new_store_def)
  from run_ops_inv [OF assms(1,2) this]
  have "map_of (hash_to_ref (fold run_op ops new_store)) (hash_of obj) = Some obj"
    using assms(3,4) by (auto simp: store_inv_def)
  moreover have "hash = hash_of obj" using assms(2,3) by (simp add: hashes_by_def)
  ultimately show ?thesis using assms(4) by (simp add: store_get_def deref_def)
qed

theorem store_finds_live_witness:
  "fst (store_get ''y'' (fold run_op [OpSet ''x'' ''x'', OpSet ''y'' ''y'', OpCollect ''x'', OpFinalize] new_store)) = Some ''y''"
  by (rule store_finds_live [of id])
    (auto simp: hashes_by_def run_op_def store_set_def collect_def run_finalizer_def new_store_def)

text \<open>
  Equal contents have equal hashes, and then it does lose them: the finalizer of a collected
  object, and the deletion of an object, remove the entry of the other object with that hash.
\<close>

lemma finalizer_removes_live:
  assumes "a \<noteq> b"
  shows "let st = fold run_op [OpSet h a, OpSet h b, OpCollect a, OpFinalize] new_store
    in b \<notin> set (collected st) \<and> get_hash_for_object st b = Some h \<and> fst (store_get h st) = None"
  using assms by (simp add: run_op_def store_set_def collect_def run_finalizer_def new_store_def store_get_def get_hash_for_object_def)

lemma delete_removes_other:
  assumes "a \<noteq> b" and "h \<noteq> []"
  shows "fst (store_get h (store_delete a (fold run_op [OpSet h a, OpSet h b] new_store))) = None"
  using assms by (simp add: run_op_def store_set_def new_store_def store_get_def store_delete_def unregister_def)

text \<open>No registration carries a token, so that unregistering does nothing.\<close>

definition no_tokens :: "'o hash_store \<Rightarrow> bool" where
  "no_tokens st \<longleftrightarrow> (\<forall>(obj, hash, token) \<in> set (registrations st). token = None)"

lemma tokens_none: "no_tokens st \<Longrightarrow> no_tokens (run_op op st)"
  by (cases op) (auto simp: no_tokens_def run_op_def store_set_def store_get_def store_has_def collect_def run_finalizer_def
      split: option.splits list.splits)

lemma unregister_nothing: "unregister obj (fold run_op ops new_store) = fold run_op ops new_store"
proof -
  have "no_tokens st \<Longrightarrow> no_tokens (fold run_op ops st)" for st
    by (induction ops arbitrary: st) (simp_all add: tokens_none)
  moreover have "no_tokens new_store" by (simp add: no_tokens_def new_store_def)
  ultimately have "no_tokens (fold run_op ops new_store)" by blast
  then have "filter (\<lambda>(_, _, t). t \<noteq> Some obj) (registrations (fold run_op ops new_store))
      = registrations (fold run_op ops new_store)"
    by (intro filter_True) (auto simp: no_tokens_def)
  then show ?thesis by (simp add: unregister_def)
qed

end
