(* ===== verification/Core_Nodes.thy ===== *)
theory Core_Nodes
  imports Exec "HOL-Library.Multiset"
begin

text \<open>
  The nodes of the core language, \<open>src/core-02/nodes.ts\<close>, and their contents,
  \<open>src/core-02/nodes_content.ts\<close>. A node is an object that other nodes point to, so that the
  nodes live in a heap and the store maps ids to addresses; creating an id again leaves the old
  object where its neighbours still refer to it. The merge, the strongest value, equality and the
  test for a contradiction are the library's and a record of parameters.
\<close>

section \<open>Nodes\<close>

type_synonym addr = nat

record graph_node =
  inbounds :: "addr list"
  outbounds :: "addr list"

record node_world =
  node_store :: "(jstring, addr) jmap"
  heap :: "addr \<Rightarrow> graph_node"
  next_addr :: addr

datatype node_error = NodeNotFound jstring jstring | CellNotFound jstring | PropagatorNotFound jstring

type_synonym 'a node_act = "(node_world, node_error, 'a) act"

definition empty_nodes :: node_world where
  "empty_nodes = \<lparr>node_store = [], heap = (\<lambda>_. \<lparr>inbounds = [], outbounds = []\<rparr>), next_addr = 0\<rparr>"

definition get_node :: "node_world \<Rightarrow> jstring \<Rightarrow> addr option" where
  "get_node w nid = map_of (node_store w) nid"

definition create_node :: "jstring \<Rightarrow> addr node_act" where
  "create_node nid w = (Inr (next_addr w),
     w\<lparr>node_store := AList.update nid (next_addr w) (node_store w),
       heap := (heap w)(next_addr w := \<lparr>inbounds = [], outbounds = []\<rparr>), next_addr := next_addr w + 1\<rparr>)"

definition change_node :: "addr \<Rightarrow> (graph_node \<Rightarrow> graph_node) \<Rightarrow> node_world \<Rightarrow> node_world" where
  "change_node a f w = w\<lparr>heap := (heap w)(a := f (heap w a))\<rparr>"

definition with_nodes :: "jstring \<Rightarrow> jstring \<Rightarrow> (addr \<Rightarrow> addr \<Rightarrow> node_world \<Rightarrow> node_world) \<Rightarrow> unit node_act" where
  "with_nodes nodeA nodeB f w =
     (case (get_node w nodeA, get_node w nodeB) of
        (Some a, Some b) \<Rightarrow> (Inr (), f a b w)
      | _ \<Rightarrow> (Inl (NodeNotFound nodeA nodeB), w))"

definition connect_nodes_inbound_outbound :: "jstring \<Rightarrow> jstring \<Rightarrow> unit node_act" where
  "connect_nodes_inbound_outbound nodeA nodeB = with_nodes nodeA nodeB (\<lambda>a b w.
     let w = change_node a (\<lambda>n. n\<lparr>outbounds := outbounds n @ [b]\<rparr>) w
     in change_node b (\<lambda>n. n\<lparr>inbounds := inbounds n @ [a]\<rparr>) w)"

definition connect_nodes_both_directions :: "jstring \<Rightarrow> jstring \<Rightarrow> unit node_act" where
  "connect_nodes_both_directions nodeA nodeB =
     andthen (connect_nodes_inbound_outbound nodeA nodeB) (\<lambda>_. connect_nodes_inbound_outbound nodeB nodeA)"

definition disconnect_nodes :: "jstring \<Rightarrow> jstring \<Rightarrow> unit node_act" where
  "disconnect_nodes nodeA nodeB = with_nodes nodeA nodeB (\<lambda>a b w.
     let w = change_node a (\<lambda>n. n\<lparr>outbounds := filter (\<lambda>x. x \<noteq> b) (outbounds n)\<rparr>) w;
         w = change_node a (\<lambda>n. n\<lparr>inbounds := filter (\<lambda>x. x \<noteq> b) (inbounds n)\<rparr>) w;
         w = change_node b (\<lambda>n. n\<lparr>inbounds := filter (\<lambda>x. x \<noteq> a) (inbounds n)\<rparr>) w
     in change_node b (\<lambda>n. n\<lparr>outbounds := filter (\<lambda>x. x \<noteq> a) (outbounds n)\<rparr>) w)"

definition node_outbounds :: "node_world \<Rightarrow> jstring \<Rightarrow> addr list" where
  "node_outbounds w nid = (case get_node w nid of None \<Rightarrow> [] | Some a \<Rightarrow> outbounds (heap w a))"

definition node_inbounds :: "node_world \<Rightarrow> jstring \<Rightarrow> addr list" where
  "node_inbounds w nid = (case get_node w nid of None \<Rightarrow> [] | Some a \<Rightarrow> inbounds (heap w a))"

text \<open>Every edge is recorded at both ends, as often at one as at the other.\<close>

definition mirrored :: "node_world \<Rightarrow> bool" where
  "mirrored w \<longleftrightarrow> (\<forall>a b. count_list (outbounds (heap w a)) b = count_list (inbounds (heap w b)) a)
     \<and> (\<forall>a. next_addr w \<le> a \<longrightarrow> heap w a = \<lparr>inbounds = [], outbounds = []\<rparr>)
     \<and> (\<forall>nid a. get_node w nid = Some a \<longrightarrow> a < next_addr w)"

lemma count_list_filter: "count_list (filter P xs) y = (if P y then count_list xs y else 0)"
  by (induction xs) auto

definition apart :: "addr \<Rightarrow> addr \<Rightarrow> addr \<Rightarrow> addr \<Rightarrow> bool" where
  "apart a b x y \<longleftrightarrow> \<not> (x = a \<and> y = b \<or> x = b \<and> y = a)"

definition cut :: "addr \<Rightarrow> addr \<Rightarrow> node_world \<Rightarrow> node_world" where
  "cut a b w = w\<lparr>heap := (\<lambda>x. (heap w x)\<lparr>inbounds := filter (apart a b x) (inbounds (heap w x)),
     outbounds := filter (apart a b x) (outbounds (heap w x))\<rparr>)\<rparr>"

lemma filter_apart: "x \<noteq> a \<Longrightarrow> x \<noteq> b \<Longrightarrow> filter (apart a b x) xs = xs"
  "filter (apart a b a) xs = filter (\<lambda>y. y \<noteq> b) (filter (\<lambda>y. b = a \<longrightarrow> y \<noteq> a) xs)"
  "filter (apart a b b) xs = filter (\<lambda>y. y \<noteq> a) (filter (\<lambda>y. b = a \<longrightarrow> y \<noteq> a) xs)"
  by (auto simp: apart_def intro!: filter_True filter_cong)

lemma disconnect_cut: "disconnect_nodes nodeA nodeB = with_nodes nodeA nodeB cut"
proof -
  have "change_node b (\<lambda>n. n\<lparr>outbounds := filter (\<lambda>x. x \<noteq> a) (outbounds n)\<rparr>)
      (change_node b (\<lambda>n. n\<lparr>inbounds := filter (\<lambda>x. x \<noteq> a) (inbounds n)\<rparr>)
      (change_node a (\<lambda>n. n\<lparr>inbounds := filter (\<lambda>x. x \<noteq> b) (inbounds n)\<rparr>)
      (change_node a (\<lambda>n. n\<lparr>outbounds := filter (\<lambda>x. x \<noteq> b) (outbounds n)\<rparr>) w))) = cut a b w" for a b w
    by (cases "a = b") (auto simp: change_node_def cut_def fun_eq_iff filter_apart)
  then show ?thesis by (simp add: disconnect_nodes_def Let_def)
qed

lemma keeps_with_nodes:
  assumes "\<And>a b w. mirrored w \<Longrightarrow> a < next_addr w \<Longrightarrow> b < next_addr w \<Longrightarrow> mirrored (f a b w)"
  shows "keeps mirrored (with_nodes nodeA nodeB f)"
  using assms by (intro keepsI) (auto simp: with_nodes_def mirrored_def split: option.split)

lemma keeps_create: "keeps mirrored (create_node nid)"
proof (rule keepsI)
  fix w assume m: "mirrored w"
  let ?n = "next_addr w"
  have "heap w ?n = \<lparr>inbounds = [], outbounds = []\<rparr>" using m by (simp add: mirrored_def)
  then have h: "(heap w)(?n := \<lparr>inbounds = [], outbounds = []\<rparr>) = heap w" by auto
  show "mirrored (snd (create_node nid w))"
    using m by (auto simp: create_node_def h mirrored_def get_node_def update_conv' less_Suc_eq)
qed

lemma keeps_connect: "keeps mirrored (connect_nodes_inbound_outbound nodeA nodeB)"
  unfolding connect_nodes_inbound_outbound_def
  by (rule keeps_with_nodes) (auto simp: mirrored_def change_node_def get_node_def Let_def)

lemma keeps_disconnect: "keeps mirrored (disconnect_nodes nodeA nodeB)"
proof -
  have "apart a b y x = apart a b x y" for a b x y by (auto simp: apart_def)
  then show ?thesis
    unfolding disconnect_cut by (intro keeps_with_nodes) (simp add: mirrored_def cut_def get_node_def count_list_filter)
qed

datatype node_op = Create jstring | Connect jstring jstring | ConnectBoth jstring jstring | Disconnect jstring jstring

definition run_node_op :: "node_op \<Rightarrow> node_world \<Rightarrow> node_world" where
  "run_node_op op w =
     (case op of
        Create nid \<Rightarrow> snd (create_node nid w)
      | Connect a b \<Rightarrow> snd (connect_nodes_inbound_outbound a b w)
      | ConnectBoth a b \<Rightarrow> snd (connect_nodes_both_directions a b w)
      | Disconnect a b \<Rightarrow> snd (disconnect_nodes a b w))"

lemma run_node_ops_mirrored: "mirrored w \<Longrightarrow> mirrored (fold run_node_op ops w)"
proof (induction ops arbitrary: w)
  case (Cons op ops)
  have "keeps mirrored (connect_nodes_both_directions a b)" for a b
    unfolding connect_nodes_both_directions_def by (intro keeps_andthen keeps_connect)
  then have "mirrored (run_node_op op w)"
    using Cons.prems by (cases op) (simp_all add: run_node_op_def keepsD keeps_create keeps_connect keeps_disconnect)
  then show ?case using Cons.IH by simp
qed simp

lemma empty_mirrored: "mirrored empty_nodes"
  by (simp add: mirrored_def empty_nodes_def get_node_def)

text \<open>
  C17: Whatever was created, connected and disconnected, every edge of the node graph is recorded
  at both of its ends with the same multiplicity, also when an id was created again and its old
  object is still a neighbour of others, and a disconnection that does not throw leaves no edge
  between its two nodes in either direction.
\<close>

theorem node_edges_mirrored:
  "let w = fold run_node_op ops empty_nodes
   in count_list (outbounds (heap w a)) b = count_list (inbounds (heap w b)) a
     \<and> (case disconnect_nodes x y w of
          (Inr _, w') \<Rightarrow> (case (get_node w x, get_node w y) of
              (Some n, Some m) \<Rightarrow> m \<notin> set (node_outbounds w' x) \<and> m \<notin> set (node_inbounds w' x)
                \<and> n \<notin> set (node_outbounds w' y) \<and> n \<notin> set (node_inbounds w' y)
            | _ \<Rightarrow> False)
        | (Inl e, w') \<Rightarrow> e = NodeNotFound x y \<and> w' = w)"
proof -
  let ?w = "fold run_node_op ops empty_nodes"
  have "mirrored ?w" by (rule run_node_ops_mirrored [OF empty_mirrored])
  then have "count_list (outbounds (heap ?w a)) b = count_list (inbounds (heap ?w b)) a" by (simp add: mirrored_def)
  moreover have "case disconnect_nodes x y ?w of
      (Inr _, w') \<Rightarrow> (case (get_node ?w x, get_node ?w y) of
          (Some n, Some m) \<Rightarrow> m \<notin> set (node_outbounds w' x) \<and> m \<notin> set (node_inbounds w' x)
            \<and> n \<notin> set (node_outbounds w' y) \<and> n \<notin> set (node_inbounds w' y)
        | _ \<Rightarrow> False)
    | (Inl e, w') \<Rightarrow> e = NodeNotFound x y \<and> w' = ?w"
    by (auto simp: disconnect_cut with_nodes_def cut_def apart_def node_outbounds_def node_inbounds_def get_node_def Let_def
        split: option.splits)
  ultimately show ?thesis by (simp add: Let_def)
qed

section \<open>Contents\<close>

datatype 'v node_content = CellConstruct jstring 'v 'v | PropagatorConstruct jstring 'v

record 'v value_library =
  cell_merge :: "'v \<Rightarrow> 'v \<Rightarrow> 'v"
  strongest_value :: "'v \<Rightarrow> 'v"
  is_equal :: "'v \<Rightarrow> 'v \<Rightarrow> bool"
  is_contradiction :: "'v \<Rightarrow> bool"

text \<open>The store, the nodes whose propagators were alerted and the names reported as contradictions.\<close>

record 'v content_world =
  contents :: "(jstring, 'v node_content) jmap"
  alerts :: "jstring list"
  reports :: "jstring list"

type_synonym ('v, 'a) content_act = "('v content_world, node_error, 'a) act"

definition create_cell_construct :: "jstring \<Rightarrow> jstring \<Rightarrow> 'v \<Rightarrow> 'v \<Rightarrow> ('v, unit) content_act" where
  "create_cell_construct nid name content strongest =
     changes (\<lambda>w. w\<lparr>contents := AList.update nid (CellConstruct name content strongest) (contents w)\<rparr>)"

text \<open>
  The guard of the two getters is \<open>is_cell_construct(node_id)\<close>, a function that is made and not
  applied, and so true for every content. A content of the other kind is returned as it is: its
  name and content are read, and its strongest value is \<open>undefined\<close>, the value \<open>undef\<close>.
\<close>

definition get_node_content :: "jstring \<Rightarrow> ('v, 'v node_content option) content_act" where
  "get_node_content nid = reads (\<lambda>w. map_of (contents w) nid)"

definition get_cell_construct :: "'v \<Rightarrow> jstring \<Rightarrow> ('v, jstring \<times> 'v \<times> 'v) content_act" where
  "get_cell_construct undef nid =
     andthen (get_node_content nid) (\<lambda>c. case c of
       None \<Rightarrow> throw (CellNotFound nid)
     | Some (CellConstruct name content strongest) \<Rightarrow> ret (name, content, strongest)
     | Some (PropagatorConstruct name content) \<Rightarrow> ret (name, content, undef))"

definition get_propagator_construct :: "jstring \<Rightarrow> ('v, jstring \<times> 'v) content_act" where
  "get_propagator_construct nid =
     andthen (get_node_content nid) (\<lambda>c. case c of
       None \<Rightarrow> throw (PropagatorNotFound nid)
     | Some (CellConstruct name content strongest) \<Rightarrow> ret (name, content)
     | Some (PropagatorConstruct name content) \<Rightarrow> ret (name, content))"

definition core_cell_content :: "'v \<Rightarrow> jstring \<Rightarrow> ('v, 'v) content_act" where
  "core_cell_content undef nid = andthen (get_cell_construct undef nid) (\<lambda>(_, content, _). ret content)"

definition core_cell_strongest :: "'v \<Rightarrow> jstring \<Rightarrow> ('v, 'v) content_act" where
  "core_cell_strongest undef nid = andthen (get_cell_construct undef nid) (\<lambda>(_, _, strongest). ret strongest)"

definition set_cell_content :: "'v \<Rightarrow> jstring \<Rightarrow> 'v \<Rightarrow> ('v, unit) content_act" where
  "set_cell_content undef nid content =
     andthen (get_cell_construct undef nid) (\<lambda>(name, _, strongest). create_cell_construct nid name content strongest)"

definition set_cell_strongest :: "'v \<Rightarrow> jstring \<Rightarrow> 'v \<Rightarrow> ('v, unit) content_act" where
  "set_cell_strongest undef nid strongest =
     andthen (get_cell_construct undef nid) (\<lambda>(name, content, _). create_cell_construct nid name content strongest)"

definition handle_cell_contradiction :: "'v \<Rightarrow> jstring \<Rightarrow> ('v, unit) content_act" where
  "handle_cell_contradiction undef nid =
     andthen (get_cell_construct undef nid) (\<lambda>(name, _, _). changes (\<lambda>w. w\<lparr>reports := reports w @ [name]\<rparr>))"

definition alert_propagators :: "jstring \<Rightarrow> ('v, unit) content_act" where
  "alert_propagators nid = changes (\<lambda>w. w\<lparr>alerts := alerts w @ [nid]\<rparr>)"

definition cell_update :: "'v value_library \<Rightarrow> 'v \<Rightarrow> jstring \<Rightarrow> 'v \<Rightarrow> ('v, unit) content_act" where
  "cell_update L undef nid update =
     andthen (core_cell_content undef nid) (\<lambda>content.
     let new_content = cell_merge L content update in
     andthen (set_cell_content undef nid new_content) (\<lambda>_.
     let new_strongest = strongest_value L new_content in
     andthen (core_cell_strongest undef nid) (\<lambda>old_strongest.
     if is_equal L new_strongest old_strongest then ret ()
     else if is_contradiction L new_strongest then
       andthen (set_cell_strongest undef nid new_strongest) (\<lambda>_.
       andthen (handle_cell_contradiction undef nid) (\<lambda>_. alert_propagators nid))
     else
       andthen (set_cell_strongest undef nid new_strongest) (\<lambda>_.
       andthen (set_cell_content undef nid new_content) (\<lambda>_. alert_propagators nid)))))"

lemma andthen_get_cell:
  "andthen (get_cell_construct undef nid) f w =
    (case map_of (contents w) nid of
       None \<Rightarrow> (Inl (CellNotFound nid), w)
     | Some (CellConstruct name content strongest) \<Rightarrow> f (name, content, strongest) w
     | Some (PropagatorConstruct name content) \<Rightarrow> f (name, content, undef) w)"
  by (simp add: get_cell_construct_def get_node_content_def split: option.split node_content.split)

lemmas content_simps = core_cell_content_def core_cell_strongest_def set_cell_content_def set_cell_strongest_def
  create_cell_construct_def handle_cell_contradiction_def alert_propagators_def andthen_get_cell

lemma update_twice [simp]: "AList.update k w (AList.update k v m) = AList.update k w m"
  by (induction m) auto

text \<open>
  An update merges the content; the propagators are alerted exactly when the strongest value
  changed, which is then stored; an unknown cell throws and changes nothing.
\<close>

lemma cell_update_run:
  assumes "map_of (contents w) nid = Some (CellConstruct name content strongest)"
    and "new_content = cell_merge L content update" and "same = is_equal L (strongest_value L new_content) strongest"
  shows "cell_update L undef nid update w =
    (Inr (), w\<lparr>contents := AList.update nid (CellConstruct name new_content (if same then strongest else strongest_value L new_content)) (contents w),
       alerts := alerts w @ (if same then [] else [nid]),
       reports := reports w @ (if \<not> same \<and> is_contradiction L (strongest_value L new_content) then [name] else [])\<rparr>)"
proof (cases same)
  case True
  then show ?thesis using assms by (simp add: cell_update_def content_simps Let_def update_conv')
next
  case False
  then show ?thesis
    using assms by (cases "is_contradiction L (strongest_value L new_content)") (simp_all add: cell_update_def content_simps Let_def update_conv')
qed

lemma cell_update_unknown:
  "map_of (contents w) nid = None \<Longrightarrow> cell_update L undef nid update w = (Inl (CellNotFound nid), w)"
  by (simp add: cell_update_def content_simps)

text \<open>Because the guard is always true, updating a propagator as a cell turns it into one.\<close>

lemma propagator_becomes_cell:
  assumes "map_of (contents w) nid = Some (PropagatorConstruct name content)"
  shows "\<exists>c s. map_of (contents (snd (cell_update L undef nid update w))) nid = Some (CellConstruct name c s)"
  using assms by (cases "is_equal L (strongest_value L (cell_merge L content update)) undef";
      cases "is_contradiction L (strongest_value L (cell_merge L content update))";
      simp add: cell_update_def content_simps Let_def update_conv')

end
