(* ===== verification/Gun_Resolve.thy ===== *)
theory Gun_Resolve
  imports Js_Value
begin

text \<open>
  The resolution of references of the database, \<open>src/DB/serialize/gun_resolve.ts\<close>. A value is
  walked without interruption as far as its references; every reference that was not seen before
  is a read that is answered later, in any order, and the walk goes on from the answer. The set of
  seen nodes is shared by all parts of the walk. What is walked is a tree of promises: the parts
  of an array or an object are joined by \<open>Promise.all\<close>, which rejects as soon as one part does
  while the other parts still run, and a reference turns a rejection into \<open>null\<close>. The database is
  a parameter, its answer to the read of each node.
\<close>

section \<open>The walk\<close>

definition is_gun_reference :: "(jstring \<times> jsval) list \<Rightarrow> bool" where
  "is_gun_reference m \<longleftrightarrow>
     (case map_of m ''#'' of Some (JStr _) \<Rightarrow> filter (\<lambda>k. k \<noteq> ''#'' \<and> k \<noteq> ''_'') (map fst m) = [] | _ \<Rightarrow> False)"

definition reference_id :: "(jstring \<times> jsval) list \<Rightarrow> jstring" where
  "reference_id m = (case map_of m ''#'' of Some (JStr s) \<Rightarrow> s | _ \<Rightarrow> [])"

definition is_graph_node :: "jstring \<Rightarrow> jsval \<Rightarrow> bool" where
  "is_graph_node key node \<longleftrightarrow>
     (case node of
        JObj m \<Rightarrow> (case map_of m ''_'' of Some (JObj meta) \<Rightarrow> map_of meta ''#'' = Some (JStr key) | _ \<Rightarrow> False)
      | _ \<Rightarrow> False)"

definition is_gun_graph :: "(jstring \<times> jsval) list \<Rightarrow> bool" where
  "is_gun_graph m \<longleftrightarrow> length m \<noteq> 0 \<and> length m \<noteq> 1 \<and> list_all (\<lambda>(key, node). is_graph_node key node) m"

datatype resolve_error = DepthExceeded

datatype pending =
    Done jsval
  | Failed
  | Reading jstring
  | Caught pending
  | AllArr "pending list"
  | AllObj "(jstring \<times> pending) list"

definition max_depth :: nat where
  "max_depth = 100"

definition resolve_gun_reference :: "jstring \<Rightarrow> jstring list \<Rightarrow> pending \<times> jstring list" where
  "resolve_gun_reference node_id visited =
     (if node_id \<in> set visited then (Done JNull, visited) else (Reading node_id, set_add node_id visited))"

text \<open>The members of a graph start again at depth 0, those of an object without its \<open>_\<close> one deeper.\<close>

fun resolve_gun_object :: "nat \<Rightarrow> jsval \<Rightarrow> jstring list \<Rightarrow> pending \<times> jstring list"
  and resolve_items :: "nat \<Rightarrow> jsval list \<Rightarrow> jstring list \<Rightarrow> pending list \<times> jstring list"
  and resolve_entries :: "nat \<Rightarrow> bool \<Rightarrow> (jstring \<times> jsval) list \<Rightarrow> jstring list \<Rightarrow> (jstring \<times> pending) list \<times> jstring list" where
  "resolve_gun_object depth obj visited =
     (if depth > max_depth then (Failed, visited)
      else case obj of
        JArr xs \<Rightarrow> (case resolve_items (depth + 1) xs visited of (ts, visited') \<Rightarrow> (AllArr ts, visited'))
      | JObj m \<Rightarrow>
          if is_gun_reference m then resolve_gun_reference (reference_id m) visited
          else if is_gun_graph m then
            (case resolve_entries 0 True m visited of (ts, visited') \<Rightarrow> (AllObj ts, visited'))
          else (case resolve_entries (depth + 1) False m visited of (ts, visited') \<Rightarrow> (AllObj ts, visited'))
      | _ \<Rightarrow> (Done obj, visited))"
| "resolve_items depth [] visited = ([], visited)"
| "resolve_items depth (x # xs) visited =
     (case resolve_gun_object depth x visited of (t, visited') \<Rightarrow>
      case resolve_items depth xs visited' of (ts, visited'') \<Rightarrow> (t # ts, visited''))"
| "resolve_entries depth graph [] visited = ([], visited)"
| "resolve_entries depth graph ((k, x) # m) visited =
     (if \<not> graph \<and> k = ''_'' then resolve_entries depth graph m visited
      else case resolve_gun_object depth x visited of (t, visited') \<Rightarrow>
      case resolve_entries depth graph m visited' of (ts, visited'') \<Rightarrow> ((k, t) # ts, visited''))"

text \<open>\<open>Promise.all\<close> and the result of a tree, once it has one.\<close>

definition promise_all :: "(resolve_error + jsval) option list \<Rightarrow> (resolve_error + jsval list) option" where
  "promise_all rs =
     (if Some (Inl DepthExceeded) \<in> set rs then Some (Inl DepthExceeded)
      else if None \<in> set rs then None
      else Some (Inr (map (projr \<circ> the) rs)))"

definition caught :: "(resolve_error + jsval) option \<Rightarrow> (resolve_error + jsval) option" where
  "caught r = (case r of Some (Inl e) \<Rightarrow> Some (Inr JNull) | _ \<Rightarrow> r)"

definition join_array :: "(resolve_error + jsval) option list \<Rightarrow> (resolve_error + jsval) option" where
  "join_array rs = map_option (map_sum id JArr) (promise_all rs)"

definition join_object :: "(jstring \<times> (resolve_error + jsval) option) list \<Rightarrow> (resolve_error + jsval) option" where
  "join_object m = map_option (map_sum id (\<lambda>vs. JObj (fold (\<lambda>(k, v). obj_set k v) (zip (map fst m) vs) [])))
     (promise_all (map snd m))"

primrec outcome :: "(jstring \<Rightarrow> (resolve_error + jsval) option) \<Rightarrow> pending \<Rightarrow> (resolve_error + jsval) option" where
  "outcome f (Done v) = Some (Inr v)"
| "outcome f Failed = Some (Inl DepthExceeded)"
| "outcome f (Reading i) = f i"
| "outcome f (Caught t) = caught (outcome f t)"
| "outcome f (AllArr ts) = join_array (map (outcome f) ts)"
| "outcome f (AllObj m) = join_object (map (map_prod id (outcome f)) m)"

definition resolved :: "pending \<Rightarrow> (resolve_error + jsval) option" where
  "resolved = outcome (\<lambda>_. None)"

primrec holes :: "pending \<Rightarrow> jstring list" where
  "holes (Done v) = []"
| "holes Failed = []"
| "holes (Reading i) = [i]"
| "holes (Caught t) = holes t"
| "holes (AllArr ts) = concat (map holes ts)"
| "holes (AllObj m) = concat (map snd (map (map_prod id holes) m))"

primrec fill :: "jstring \<Rightarrow> pending \<Rightarrow> pending \<Rightarrow> pending" where
  "fill i u (Done v) = Done v"
| "fill i u Failed = Failed"
| "fill i u (Reading j) = (if j = i then u else Reading j)"
| "fill i u (Caught t) = Caught (fill i u t)"
| "fill i u (AllArr ts) = AllArr (map (fill i u) ts)"
| "fill i u (AllObj m) = AllObj (map (map_prod id (fill i u)) m)"

text \<open>The answer to a read: data, the timer of 500 ms, or an exception.\<close>

datatype gun_answer = Answered jsval | TimedOut | ReadThrew

definition read_gun_node_once :: "gun_answer \<Rightarrow> jsval option" where
  "read_gun_node_once a =
     (case a of
        Answered JUndef \<Rightarrow> None
      | Answered JNull \<Rightarrow> None
      | Answered (JArr []) \<Rightarrow> None
      | Answered (JObj []) \<Rightarrow> None
      | Answered v \<Rightarrow> Some v
      | _ \<Rightarrow> None)"

definition reference_read :: "gun_answer \<Rightarrow> jstring list \<Rightarrow> pending \<times> jstring list" where
  "reference_read a visited =
     (case read_gun_node_once a of
        None \<Rightarrow> (Done JNull, visited)
      | Some data \<Rightarrow> (case resolve_gun_object 0 data visited of (t, visited') \<Rightarrow> (Caught t, visited')))"

definition deliver :: "jstring \<Rightarrow> gun_answer \<Rightarrow> pending \<times> jstring list \<Rightarrow> pending \<times> jstring list" where
  "deliver i a s = (case reference_read a (snd s) of (u, visited) \<Rightarrow> (fill i u (fst s), visited))"

definition gun_resolve :: "jsval \<Rightarrow> pending \<times> jstring list" where
  "gun_resolve obj = resolve_gun_object 0 obj []"

text \<open>Any open read may be answered next.\<close>

inductive resolve_step :: "(jstring \<Rightarrow> gun_answer) \<Rightarrow> pending \<times> jstring list \<Rightarrow> pending \<times> jstring list \<Rightarrow> bool" for db where
  answer: "i \<in> set (holes (fst s)) \<Longrightarrow> resolve_step db s (deliver i (db i) s)"

inductive_cases resolve_stepE: "resolve_step db s s'"

section \<open>References and reads\<close>

text \<open>The references the walk meets in a value, in its order and with repetitions.\<close>

fun refs :: "nat \<Rightarrow> jsval \<Rightarrow> jstring list"
  and refs_entries :: "nat \<Rightarrow> bool \<Rightarrow> (jstring \<times> jsval) list \<Rightarrow> jstring list"
  and refs_items :: "nat \<Rightarrow> jsval list \<Rightarrow> jstring list" where
  "refs depth obj =
     (if depth > max_depth then []
      else case obj of
        JArr xs \<Rightarrow> refs_items (depth + 1) xs
      | JObj m \<Rightarrow>
          if is_gun_reference m then [reference_id m]
          else if is_gun_graph m then refs_entries 0 True m
          else refs_entries (depth + 1) False m
      | _ \<Rightarrow> [])"
| "refs_items depth [] = []"
| "refs_items depth (x # xs) = refs depth x @ refs_items depth xs"
| "refs_entries depth graph [] = []"
| "refs_entries depth graph ((k, x) # m) =
     (if \<not> graph \<and> k = ''_'' then refs_entries depth graph m else refs depth x @ refs_entries depth graph m)"

declare resolve_gun_object.simps [simp del] refs.simps(1) [simp del]

lemma holes_object [simp]: "holes (AllObj m) = concat (map (\<lambda>kt. holes (snd kt)) m)"
  by (simp add: comp_def)

declare holes.simps(6) [simp del]

lemma walk_reads:
  "resolve_gun_object depth obj visited = (t, visited') \<Longrightarrow>
     set visited' = set visited \<union> set (refs depth obj) \<and> set (holes t) = set (refs depth obj) - set visited \<and> distinct (holes t)"
  "resolve_items depth xs visited = (ts, visited') \<Longrightarrow>
     set visited' = set visited \<union> set (refs_items depth xs) \<and> set (concat (map holes ts)) = set (refs_items depth xs) - set visited
     \<and> distinct (concat (map holes ts))"
  "resolve_entries depth graph m visited = (ms, visited') \<Longrightarrow>
     set visited' = set visited \<union> set (refs_entries depth graph m)
     \<and> set (concat (map (\<lambda>kt. holes (snd kt)) ms)) = set (refs_entries depth graph m) - set visited
     \<and> distinct (concat (map (\<lambda>kt. holes (snd kt)) ms))"
proof (induction depth obj visited and depth xs visited and depth graph m visited
    arbitrary: t visited' and ts visited' and ms visited'
    rule: resolve_gun_object_resolve_items_resolve_entries.induct)
  case (1 depth obj visited)
  show ?case
    using "1.prems" "1.IH"
    by (cases "depth > max_depth"; cases obj)
      (force simp: resolve_gun_object.simps refs.simps(1) resolve_gun_reference_def split: if_splits prod.splits)+
next
  case (3 depth x xs visited)
  obtain a b where w: "resolve_gun_object depth x visited = (a, b)" by force
  obtain c where r: "resolve_items depth xs b = (c, visited')" and ts: "ts = a # c"
    using "3.prems" w by (auto split: prod.splits)
  show ?case
    using "3.IH"(1) [OF w] "3.IH"(2) [OF w [symmetric] r] by (auto simp: ts)
next
  case (5 depth graph k x m visited)
  show ?case
  proof (cases "\<not> graph \<and> k = ''_''")
    case True
    then show ?thesis using "5.prems" "5.IH"(1) by auto
  next
    case False
    obtain a b where w: "resolve_gun_object depth x visited = (a, b)" by force
    obtain c where r: "resolve_entries depth graph m b = (c, visited')" and ms: "ms = (k, a) # c"
      using "5.prems" w False by (auto split: prod.splits)
    show ?thesis
      using False "5.IH"(2) [OF False w] "5.IH"(3) [OF False w [symmetric] r] by (auto simp: ms)
  qed
qed auto

definition answer_refs :: "gun_answer \<Rightarrow> jstring list" where
  "answer_refs a = (case read_gun_node_once a of None \<Rightarrow> [] | Some data \<Rightarrow> refs 0 data)"

lemma reference_read_reads:
  "reference_read a visited = (u, visited') \<Longrightarrow>
     set visited' = set visited \<union> set (answer_refs a) \<and> set (holes u) = set (answer_refs a) - set visited \<and> distinct (holes u)"
  by (auto simp: reference_read_def answer_refs_def split: option.splits prod.splits dest!: walk_reads(1))

lemma concat_map_concat: "concat (map g (concat xss)) = concat (map (\<lambda>xs. concat (map g xs)) xss)"
  by (induction xss) auto

lemma holes_fill: "holes (fill i u t) = concat (map (\<lambda>j. if j = i then holes u else [j]) (holes t))"
proof (induction t)
  case (AllArr ts)
  then have "map holes (map (fill i u) ts) = map (\<lambda>t. concat (map (\<lambda>j. if j = i then holes u else [j]) (holes t))) ts" by simp
  then show ?case by (simp add: concat_map_concat comp_def del: map_eq_conv)
next
  case (AllObj m)
  then have "map (\<lambda>kt. holes (fill i u (snd kt))) m = map (\<lambda>kt. concat (map (\<lambda>j. if j = i then holes u else [j]) (holes (snd kt)))) m"
    by (fastforce simp: snds.simps)
  then show ?case by (simp add: concat_map_concat comp_def del: map_eq_conv)
qed auto

lemma concat_map_other: "i \<notin> set xs \<Longrightarrow> concat (map (\<lambda>j. if j = i then us else [j]) xs) = xs"
  by (induction xs) auto

lemma holes_fill_split:
  assumes "i \<in> set (holes t)" and "distinct (holes t)"
  obtains xs ys where "holes t = xs @ i # ys" "holes (fill i u t) = xs @ holes u @ ys" "i \<notin> set xs" "i \<notin> set ys"
proof -
  obtain xs ys where s: "holes t = xs @ i # ys" using assms(1) by (metis split_list)
  then show thesis using assms(2) by (intro that [OF s]) (simp_all add: holes_fill concat_map_other)
qed

definition reach :: "(jstring \<Rightarrow> gun_answer) \<Rightarrow> jsval \<Rightarrow> jstring set" where
  "reach db obj = {(i, j). j \<in> set (answer_refs (db i))}\<^sup>* `` set (refs 0 obj)"

definition reads_inv :: "(jstring \<Rightarrow> gun_answer) \<Rightarrow> jsval \<Rightarrow> nat \<Rightarrow> pending \<times> jstring list \<Rightarrow> bool" where
  "reads_inv db obj n s \<longleftrightarrow>
     distinct (holes (fst s)) \<and> set (holes (fst s)) \<subseteq> set (snd s) \<and> set (snd s) \<subseteq> reach db obj
     \<and> card (set (snd s)) = n + length (holes (fst s)) \<and> set (refs 0 obj) \<subseteq> set (snd s)
     \<and> (\<forall>i \<in> set (snd s) - set (holes (fst s)). set (answer_refs (db i)) \<subseteq> set (snd s))"

lemma reads_inv_start: "reads_inv db obj 0 (gun_resolve obj)"
proof -
  obtain t visited where g: "gun_resolve obj = (t, visited)" by force
  have w: "set visited = set (refs 0 obj)" "set (holes t) = set (refs 0 obj)" "distinct (holes t)"
    using walk_reads(1) [OF g [unfolded gun_resolve_def]] by auto
  then show ?thesis
    using distinct_card [OF w(3)] by (auto simp: reads_inv_def g reach_def)
qed

lemma reads_inv_step:
  assumes "resolve_step db s s'" and inv: "reads_inv db obj n s"
  shows "reads_inv db obj (Suc n) s'"
  using assms(1)
proof (rule resolve_stepE)
  fix i assume s': "s' = deliver i (db i) s" and i: "i \<in> set (holes (fst s))"
  obtain t visited where s: "s = (t, visited)" by force
  obtain u visited' where r: "reference_read (db i) visited = (u, visited')" by force
  note w = reference_read_reads [OF r]
  obtain xs ys where xs: "holes t = xs @ i # ys" "holes (fill i u t) = xs @ holes u @ ys" "i \<notin> set xs" "i \<notin> set ys"
    using holes_fill_split i inv by (metis fst_conv reads_inv_def s)
  have sub: "set (holes t) \<subseteq> set visited" and d: "distinct (holes t)" and ir: "i \<in> reach db obj"
    and c: "card (set visited) = n + length (holes t)" using inv i by (auto simp: reads_inv_def s)
  have "set (holes u) \<inter> set visited = {}" using w by auto
  then have "distinct (xs @ holes u @ ys)" using sub d xs(1) w by auto
  moreover have "card (set visited') = Suc n + length (xs @ holes u @ ys)"
  proof -
    have "card (set visited') = card (set visited) + card (set (holes u))"
      using w by (subst card_Un_disjoint [symmetric]) (auto intro: arg_cong [where f = card])
    then show ?thesis using c xs(1) distinct_card w by fastforce
  qed
  moreover have "set (answer_refs (db i)) \<subseteq> reach db obj"
    using ir by (auto simp: reach_def intro: rtrancl_into_rtrancl)
  ultimately show ?thesis
    using inv w xs by (auto simp: reads_inv_def s s' deliver_def r)
qed

lemma reads_inv_reach: "(resolve_step db ^^ n) (gun_resolve obj) s \<Longrightarrow> reads_inv db obj n s"
proof (induction n arbitrary: s)
  case 0
  then show ?case using reads_inv_start by fastforce
next
  case (Suc n)
  then show ?case by (auto intro: reads_inv_step)
qed

lemma promise_all_settled: "(\<And>r. r \<in> set rs \<Longrightarrow> r \<noteq> None) \<Longrightarrow> promise_all rs \<noteq> None"
  by (auto simp: promise_all_def)

lemma no_holes_resolved: "holes t = [] \<Longrightarrow> outcome f t \<noteq> None"
proof (induction t)
  case (Caught t)
  then show ?case by (auto simp: caught_def split: sum.split)
next
  case (AllArr ts)
  then have "promise_all (map (outcome f) ts) \<noteq> None" by (intro promise_all_settled) auto
  then show ?case by (simp add: join_array_def)
next
  case (AllObj m)
  then have "promise_all (map snd (map (map_prod id (outcome f)) m)) \<noteq> None"
    by (intro promise_all_settled) (fastforce simp: snds.simps)
  then show ?case by (simp add: join_object_def)
qed auto

section \<open>A shared node\<close>

definition gun_ref :: "jstring \<Rightarrow> jsval" where
  "gun_ref i = JObj [(''#'', JStr i)]"

definition gun_node :: "jstring \<Rightarrow> (jstring \<times> jsval) list \<Rightarrow> gun_answer" where
  "gun_node i m = Answered (JObj ((''_'', gun_ref i) # m))"

definition shared_db :: "jstring \<Rightarrow> gun_answer" where
  "shared_db i =
     (if i = ''a'' then gun_node i [(''x'', gun_ref ''b'')]
      else if i = ''c'' then gun_node i [(''y'', gun_ref ''b'')]
      else if i = ''b'' then gun_node i [(''z'', JBool True)]
      else TimedOut)"

definition two_refs :: jsval where
  "two_refs = JArr [gun_ref ''a'', gun_ref ''c'']"

definition answer_all :: "(jstring \<Rightarrow> gun_answer) \<Rightarrow> jstring list \<Rightarrow> jsval \<Rightarrow> pending \<times> jstring list" where
  "answer_all db is obj = fold (\<lambda>i. deliver i (db i)) is (gun_resolve obj)"

lemma answer_all_steps:
  "(\<And>n. n < length is \<Longrightarrow> is ! n \<in> set (holes (fst (answer_all db (take n is) obj)))) \<Longrightarrow>
     (resolve_step db ^^ length is) (gun_resolve obj) (answer_all db is obj)"
proof (induction "is" rule: rev_induct)
  case Nil
  then show ?case by (simp add: answer_all_def)
next
  case (snoc i "is")
  have "(is @ [i]) ! n = is ! n" "take n (is @ [i]) = take n is" if "n < length is" for n
    using that by (simp_all add: nth_append)
  then have "(resolve_step db ^^ length is) (gun_resolve obj) (answer_all db is obj)"
    using snoc.prems by (intro snoc.IH) (metis length_append_singleton less_SucI)
  moreover have "resolve_step db (answer_all db is obj) (answer_all db (is @ [i]) obj)"
    using snoc.prems [of "length is"] by (auto simp: answer_all_def intro: resolve_step.answer)
  ultimately show ?case by auto
qed

lemma reach_within:
  assumes "set (refs 0 obj) \<subseteq> S" and "\<And>i. i \<in> S \<Longrightarrow> set (answer_refs (db i)) \<subseteq> S"
  shows "reach db obj \<subseteq> S"
proof
  fix j assume "j \<in> reach db obj"
  then obtain i where "i \<in> set (refs 0 obj)" "(i, j) \<in> {(i, j). j \<in> set (answer_refs (db i))}\<^sup>*"
    by (auto simp: reach_def)
  from this(2, 1) show "j \<in> S" by (induction rule: rtrancl_induct) (use assms in auto)
qed

text \<open>
  The set of seen nodes is shared by the whole walk and not by one path of it, so a node that two
  others refer to is resolved for one of them only and null for the other, although there is no
  cycle; which of the two gets it is up to the order of the answers.
\<close>

lemma shared_reference_lost:
  "resolved (fst (answer_all shared_db [''a'', ''c'', ''b''] two_refs)) =
     Some (Inr (JArr [JObj [(''x'', JObj [(''z'', JBool True)])], JObj [(''y'', JNull)]]))"
  "resolved (fst (answer_all shared_db [''c'', ''a'', ''b''] two_refs)) =
     Some (Inr (JArr [JObj [(''x'', JNull)], JObj [(''y'', JObj [(''z'', JBool True)])]]))"
  by code_simp+

text \<open>
  C10: However the reads are answered, a resolution of a value whose reachable nodes are finitely
  many ends: it can always go on while a read is open, no run has more answers than there are
  reachable nodes, and when no read is open it has a result, every reachable node was read exactly
  once and no other node was read.
\<close>

theorem gun_resolve_reads_exact:
  assumes "finite (reach db obj)" and "(resolve_step db ^^ n) (gun_resolve obj) s"
  shows "n + length (holes (fst s)) \<le> card (reach db obj) \<and> distinct (holes (fst s))
    \<and> (holes (fst s) \<noteq> [] \<longrightarrow> Ex (resolve_step db s))
    \<and> (holes (fst s) = [] \<longrightarrow> resolved (fst s) \<noteq> None \<and> set (snd s) = reach db obj \<and> n = card (reach db obj))"
proof (intro conjI impI)
  have inv: "reads_inv db obj n s" using assms(2) by (rule reads_inv_reach)
  then have sub: "set (snd s) \<subseteq> reach db obj" and c: "card (set (snd s)) = n + length (holes (fst s))"
    by (auto simp: reads_inv_def)
  show "n + length (holes (fst s)) \<le> card (reach db obj)" using card_mono [OF assms(1) sub] c by simp
  show "distinct (holes (fst s))" using inv by (simp add: reads_inv_def)
  show "Ex (resolve_step db s)" if "holes (fst s) \<noteq> []"
    by (metis list.set_sel(1) resolve_step.answer that)
  assume h: "holes (fst s) = []"
  show "resolved (fst s) \<noteq> None" using no_holes_resolved [OF h] by (simp add: resolved_def)
  have closed: "set (answer_refs (db i)) \<subseteq> set (snd s)" if "i \<in> set (snd s)" for i
    using inv h that by (auto simp: reads_inv_def)
  have "reach db obj \<subseteq> set (snd s)"
  proof
    fix j assume "j \<in> reach db obj"
    then obtain i where "i \<in> set (refs 0 obj)" "(i, j) \<in> {(i, j). j \<in> set (answer_refs (db i))}\<^sup>*"
      by (auto simp: reach_def)
    from this(2, 1) show "j \<in> set (snd s)"
    proof (induction rule: rtrancl_induct)
      case base
      then show ?case using inv by (auto simp: reads_inv_def)
    next
      case (step y z)
      then show ?case using closed by auto
    qed
  qed
  then show "set (snd s) = reach db obj" using sub by auto
  then show "n = card (reach db obj)" using c h by simp
qed

lemma shared_reach: "reach shared_db two_refs \<subseteq> {''a'', ''b'', ''c''}"
proof (rule reach_within)
  show "set (refs 0 two_refs) \<subseteq> {''a'', ''b'', ''c''}" by code_simp
  have "set (answer_refs (shared_db ''a'')) \<subseteq> {''a'', ''b'', ''c''}" "set (answer_refs (shared_db ''b'')) \<subseteq> {''a'', ''b'', ''c''}"
    "set (answer_refs (shared_db ''c'')) \<subseteq> {''a'', ''b'', ''c''}" by code_simp+
  then show "i \<in> {''a'', ''b'', ''c''} \<Longrightarrow> set (answer_refs (shared_db i)) \<subseteq> {''a'', ''b'', ''c''}" for i by auto
qed

lemma shared_steps:
  "(resolve_step shared_db ^^ 3) (gun_resolve two_refs) (answer_all shared_db [''a'', ''c'', ''b''] two_refs)"
proof -
  have "\<forall>n < 3. [''a'', ''c'', ''b''] ! n \<in> set (holes (fst (answer_all shared_db (take n [''a'', ''c'', ''b'']) two_refs)))"
    by code_simp
  then show ?thesis using answer_all_steps [of "[''a'', ''c'', ''b'']" shared_db two_refs] by (simp add: numeral_3_eq_3)
qed

theorem gun_resolve_reads_exact_witness:
  "reach shared_db two_refs = {''a'', ''b'', ''c''} \<and> card (reach shared_db two_refs) = 3"
proof -
  have "holes (fst (answer_all shared_db [''a'', ''c'', ''b''] two_refs)) = []"
    "set (snd (answer_all shared_db [''a'', ''c'', ''b''] two_refs)) = {''a'', ''b'', ''c''}" by code_simp+
  then show ?thesis
    using gun_resolve_reads_exact [OF finite_subset [OF shared_reach] shared_steps] by auto
qed

section \<open>Values\<close>

text \<open>
  The value a read stands for when nothing was seen before: the data of the node with all its
  references replaced. The fuel bounds the depth of references; a shared or a cyclic node has no
  place in \<open>node_tree\<close>, the list of all nodes below, and \<open>None\<close> is that the fuel did not suffice.
\<close>

fun expand :: "(jstring \<Rightarrow> (resolve_error + jsval) option) \<Rightarrow> nat \<Rightarrow> jsval \<Rightarrow> (resolve_error + jsval) option"
  and expand_items :: "(jstring \<Rightarrow> (resolve_error + jsval) option) \<Rightarrow> nat \<Rightarrow> jsval list \<Rightarrow> (resolve_error + jsval) option list"
  and expand_entries :: "(jstring \<Rightarrow> (resolve_error + jsval) option) \<Rightarrow> nat \<Rightarrow> bool \<Rightarrow> (jstring \<times> jsval) list
    \<Rightarrow> (jstring \<times> (resolve_error + jsval) option) list" where
  "expand f depth obj =
     (if depth > max_depth then Some (Inl DepthExceeded)
      else case obj of
        JArr xs \<Rightarrow> join_array (expand_items f (depth + 1) xs)
      | JObj m \<Rightarrow>
          if is_gun_reference m then f (reference_id m)
          else if is_gun_graph m then join_object (expand_entries f 0 True m)
          else join_object (expand_entries f (depth + 1) False m)
      | _ \<Rightarrow> Some (Inr obj))"
| "expand_items f depth [] = []"
| "expand_items f depth (x # xs) = expand f depth x # expand_items f depth xs"
| "expand_entries f depth graph [] = []"
| "expand_entries f depth graph ((k, x) # m) =
     (if \<not> graph \<and> k = ''_'' then expand_entries f depth graph m
      else (k, expand f depth x) # expand_entries f depth graph m)"

declare expand.simps(1) [simp del]

fun expand_node :: "(jstring \<Rightarrow> gun_answer) \<Rightarrow> nat \<Rightarrow> jstring \<Rightarrow> (resolve_error + jsval) option" where
  "expand_node db 0 i = None"
| "expand_node db (Suc n) i =
     (case read_gun_node_once (db i) of
        None \<Rightarrow> Some (Inr JNull)
      | Some data \<Rightarrow> caught (expand (expand_node db n) 0 data))"

fun node_tree :: "(jstring \<Rightarrow> gun_answer) \<Rightarrow> nat \<Rightarrow> jstring \<Rightarrow> jstring list option" where
  "node_tree db 0 i = None"
| "node_tree db (Suc n) i =
     (let subs = map (node_tree db n) (answer_refs (db i))
      in if None \<in> set subs then None else Some (i # concat (map the subs)))"

lemma walk_expands:
  "resolve_gun_object depth obj visited = (t, visited') \<Longrightarrow> distinct (refs depth obj) \<Longrightarrow> set (refs depth obj) \<inter> set visited = {} \<Longrightarrow>
     outcome f t = expand f depth obj \<and> holes t = refs depth obj"
  "resolve_items depth xs visited = (ts, visited') \<Longrightarrow> distinct (refs_items depth xs) \<Longrightarrow> set (refs_items depth xs) \<inter> set visited = {} \<Longrightarrow>
     map (outcome f) ts = expand_items f depth xs \<and> concat (map holes ts) = refs_items depth xs"
  "resolve_entries depth graph m visited = (ms, visited') \<Longrightarrow> distinct (refs_entries depth graph m) \<Longrightarrow>
     set (refs_entries depth graph m) \<inter> set visited = {} \<Longrightarrow>
     map (map_prod id (outcome f)) ms = expand_entries f depth graph m
     \<and> concat (map (\<lambda>kt. holes (snd kt)) ms) = refs_entries depth graph m"
proof (induction depth obj visited and depth xs visited and depth graph m visited
    arbitrary: t visited' and ts visited' and ms visited'
    rule: resolve_gun_object_resolve_items_resolve_entries.induct)
  case (1 depth obj visited)
  note defs = resolve_gun_object.simps refs.simps(1) expand.simps(1)
  show ?case
  proof (cases "depth > max_depth")
    case True
    then show ?thesis using "1.prems" by (auto simp: defs)
  next
    case ok: False
    show ?thesis
    proof (cases obj)
      case (JArr xs)
      then obtain ts where "resolve_items (depth + 1) xs visited = (ts, visited')" "t = AllArr ts"
        using "1.prems"(1) ok by (auto simp: defs split: prod.splits)
      then show ?thesis using "1.IH"(1) [OF ok JArr] "1.prems"(2,3) ok JArr by (simp add: defs)
    next
      case (JObj m)
      show ?thesis
      proof (cases "is_gun_reference m")
        case True
        then show ?thesis using "1.prems" ok JObj by (auto simp: defs resolve_gun_reference_def)
      next
        case r: False
        show ?thesis
        proof (cases "is_gun_graph m")
          case True
          then obtain ts where "resolve_entries 0 True m visited = (ts, visited')" "t = AllObj ts"
            using "1.prems"(1) ok r JObj by (auto simp: defs split: prod.splits)
          then show ?thesis using "1.IH"(2) [OF ok JObj r True] "1.prems"(2,3) ok r True JObj by (simp add: defs id_def)
        next
          case False
          then obtain ts where "resolve_entries (depth + 1) False m visited = (ts, visited')" "t = AllObj ts"
            using "1.prems"(1) ok r JObj by (auto simp: defs split: prod.splits)
          then show ?thesis using "1.IH"(3) [OF ok JObj r False] "1.prems"(2,3) ok r False JObj by (simp add: defs id_def)
        qed
      qed
    qed (use "1.prems" ok in \<open>auto simp: defs\<close>)
  qed
next
  case (3 depth x xs visited)
  obtain a b where w: "resolve_gun_object depth x visited = (a, b)" by force
  obtain c where r: "resolve_items depth xs b = (c, visited')" and ts: "ts = a # c"
    using "3.prems" w by (auto split: prod.splits)
  have d: "distinct (refs depth x)" "set (refs depth x) \<inter> set visited = {}"
    "distinct (refs_items depth xs)" "set (refs_items depth xs) \<inter> set b = {}"
    using "3.prems"(2,3) walk_reads(1) [OF w] by auto
  show ?case
    using "3.IH"(1) [OF w d(1,2)] "3.IH"(2) [OF w [symmetric] r d(3,4)] by (auto simp: ts)
next
  case (5 depth graph k x m visited)
  show ?case
  proof (cases "\<not> graph \<and> k = ''_''")
    case True
    then show ?thesis using "5.prems" "5.IH"(1) by auto
  next
    case False
    obtain a b where w: "resolve_gun_object depth x visited = (a, b)" by force
    obtain c where r: "resolve_entries depth graph m b = (c, visited')" and ms: "ms = (k, a) # c"
      using "5.prems" w False by (auto split: prod.splits)
    have d: "distinct (refs depth x)" "set (refs depth x) \<inter> set visited = {}"
      "distinct (refs_entries depth graph m)" "set (refs_entries depth graph m) \<inter> set b = {}"
      using "5.prems"(2,3) False walk_reads(1) [OF w] by auto
    show ?thesis
      using False "5.IH"(2) [OF False w d(1,2)] "5.IH"(3) [OF False w [symmetric] r d(3,4)] by (auto simp: ms)
  qed
qed auto

lemma expand_cong:
  "(\<And>j. j \<in> set (refs depth obj) \<Longrightarrow> f j = g j) \<Longrightarrow> expand f depth obj = expand g depth obj"
  "(\<And>j. j \<in> set (refs_items depth xs) \<Longrightarrow> f j = g j) \<Longrightarrow> expand_items f depth xs = expand_items g depth xs"
  "(\<And>j. j \<in> set (refs_entries depth graph m) \<Longrightarrow> f j = g j) \<Longrightarrow> expand_entries f depth graph m = expand_entries g depth graph m"
proof (induction f depth obj and f depth xs and f depth graph m rule: expand_expand_items_expand_entries.induct)
  case (1 f depth obj)
  then show ?case by (cases obj) (auto simp: refs.simps(1) expand.simps(1))
qed auto

definition trees :: "(jstring \<Rightarrow> gun_answer) \<Rightarrow> nat \<Rightarrow> jstring list \<Rightarrow> jstring list option" where
  "trees db n is = (let subs = map (node_tree db n) is in if None \<in> set subs then None else Some (concat (map the subs)))"

lemma trees_Some:
  "trees db n is = Some ns \<longleftrightarrow> (\<forall>i \<in> set is. node_tree db n i \<noteq> None) \<and> ns = concat (map (\<lambda>i. the (node_tree db n i)) is)"
proof -
  have "None \<notin> set (map (node_tree db n) is) \<longleftrightarrow> (\<forall>i \<in> set is. node_tree db n i \<noteq> None)" by force
  then show ?thesis by (auto simp: trees_def Let_def comp_def simp del: set_map)
qed

lemma node_tree_Suc: "node_tree db (Suc n) i = map_option (\<lambda>ns. i # ns) (trees db n (answer_refs (db i)))"
  by (simp add: trees_def Let_def)

declare node_tree.simps(2) [simp del]

lemma node_tree_mono: "node_tree db n i = Some ns \<Longrightarrow> node_tree db (Suc n) i = Some ns"
proof (induction n arbitrary: i ns)
  case (Suc n)
  then obtain ms where ns: "ns = i # ms" and ms: "trees db n (answer_refs (db i)) = Some ms"
    by (auto simp: node_tree_Suc)
  have "node_tree db (Suc n) j = node_tree db n j" if "j \<in> set (answer_refs (db i))" for j
  proof -
    have "node_tree db n j \<noteq> None" using ms that unfolding trees_Some by simp
    then obtain xs where "node_tree db n j = Some xs" by auto
    then show ?thesis using Suc.IH by simp
  qed
  then have "trees db (Suc n) (answer_refs (db i)) = Some ms"
    using ms by (auto simp: trees_Some intro!: arg_cong [where f = concat])
  then show ?case by (simp add: node_tree_Suc [of db "Suc n"] ns)
qed simp

lemma node_tree_unfold:
  assumes "node_tree db n i = Some ns"
  shows "\<exists>ms. ns = i # ms \<and> trees db n (answer_refs (db i)) = Some ms"
  using node_tree_mono [OF assms] by (auto simp: node_tree_Suc)

lemma expand_node_mono: "node_tree db n i \<noteq> None \<Longrightarrow> expand_node db (Suc n) i = expand_node db n i"
proof (induction n arbitrary: i)
  case (Suc n)
  then obtain ms where ms: "trees db n (answer_refs (db i)) = Some ms" by (auto simp: node_tree_Suc)
  show ?case
  proof (cases "read_gun_node_once (db i)")
    case (Some data)
    have "expand (expand_node db (Suc n)) 0 data = expand (expand_node db n) 0 data"
      using Suc.IH ms Some by (intro expand_cong(1)) (auto simp: trees_Some answer_refs_def)
    then show ?thesis by (simp only: expand_node.simps(2) Some option.case)
  qed simp
qed simp

lemma expand_node_unfold:
  "node_tree db n i \<noteq> None \<Longrightarrow> expand_node db n i =
     (case read_gun_node_once (db i) of
        None \<Rightarrow> Some (Inr JNull)
      | Some data \<Rightarrow> caught (expand (expand_node db n) 0 data))"
  using expand_node_mono by (metis expand_node.simps(2))

lemma outcome_fill: "outcome f (fill i u t) = outcome (\<lambda>j. if j = i then outcome f u else f j) t"
proof (induction t)
  case (AllArr ts)
  then show ?case by (auto simp: comp_def intro!: arg_cong [where f = join_array])
next
  case (AllObj m)
  then show ?case by (force simp: snds.simps intro!: arg_cong [where f = join_object])
qed auto

lemma outcome_cong: "(\<And>j. j \<in> set (holes t) \<Longrightarrow> f j = g j) \<Longrightarrow> outcome f t = outcome g t"
proof (induction t)
  case (AllArr ts)
  have "outcome f x = outcome g x" if "x \<in> set ts" for x
    using that by (intro AllArr.IH AllArr.prems) auto
  then show ?case by (auto intro!: arg_cong [where f = join_array])
next
  case (AllObj m)
  have "outcome f (snd kt) = outcome g (snd kt)" if "kt \<in> set m" for kt
    using that by (intro AllObj.IH [of kt] AllObj.prems) (auto simp: snds.simps)
  then show ?case by (force intro!: arg_cong [where f = join_object])
qed auto

lemma distinct_heads: "distinct (concat (map f is)) \<Longrightarrow> (\<And>i. i \<in> set is \<Longrightarrow> i \<in> set (f i)) \<Longrightarrow> distinct is"
  by (induction "is") fastforce+

section \<open>Trees are resolved in full\<close>

definition tree_inv :: "(jstring \<Rightarrow> gun_answer) \<Rightarrow> nat \<Rightarrow> pending \<times> jstring list \<Rightarrow> bool" where
  "tree_inv db n s \<longleftrightarrow>
     (\<exists>ns. trees db n (holes (fst s)) = Some ns \<and> distinct ns)
     \<and> (\<forall>i \<in> set (holes (fst s)). set (tl (the (node_tree db n i))) \<inter> set (snd s) = {})"

lemma trees_append:
  "trees db n (xs @ ys) = (case (trees db n xs, trees db n ys) of (Some as, Some bs) \<Rightarrow> Some (as @ bs) | _ \<Rightarrow> None)"
  by (auto simp: trees_def Let_def)

lemma trees_Cons:
  "trees db n (x # xs) = (case (node_tree db n x, trees db n xs) of (Some as, Some bs) \<Rightarrow> Some (as @ bs) | _ \<Rightarrow> None)"
  by (auto simp: trees_def Let_def split: option.split)

lemma trees_heads:
  assumes "trees db n is = Some ns"
  shows "set is \<subseteq> set ns" and "distinct ns \<Longrightarrow> distinct is"
    and "distinct ns \<Longrightarrow> i \<in> set is \<Longrightarrow> set (tl (the (node_tree db n i))) \<inter> set is = {}"
    and "i \<in> set is \<Longrightarrow> set (the (node_tree db n i)) \<subseteq> set ns"
proof -
  have "(set is \<subseteq> set ns) \<and> (distinct ns \<longrightarrow> distinct is)
    \<and> (distinct ns \<longrightarrow> (\<forall>i \<in> set is. set (tl (the (node_tree db n i))) \<inter> set is = {}))
    \<and> (\<forall>i \<in> set is. set (the (node_tree db n i)) \<subseteq> set ns)"
    using assms
  proof (induction "is" arbitrary: ns)
    case (Cons x xs)
    then obtain as bs where as: "node_tree db n x = Some as" and bs: "trees db n xs = Some bs" and ns: "ns = as @ bs"
      by (auto simp: trees_Cons split: option.splits)
    obtain cs where cs: "as = x # cs" using node_tree_unfold [OF as] by auto
    have "set (tl (the (node_tree db n i))) \<subseteq> set bs" if "i \<in> set xs" for i
      using Cons.IH [OF bs] that by (metis list.set_sel(2) subset_iff tl_Nil)
    then show ?case using Cons.IH [OF bs] by (auto simp: as ns cs)
  qed (simp add: trees_def)
  then show "set is \<subseteq> set ns" and "distinct ns \<Longrightarrow> distinct is"
    and "distinct ns \<Longrightarrow> i \<in> set is \<Longrightarrow> set (tl (the (node_tree db n i))) \<inter> set is = {}"
    and "i \<in> set is \<Longrightarrow> set (the (node_tree db n i)) \<subseteq> set ns" by blast+
qed

lemma reference_read_tree:
  assumes i: "node_tree db n i = Some (i # ms)" and "distinct ms" and "set ms \<inter> set visited = {}"
    and r: "reference_read (db i) visited = (u, visited')"
  shows "holes u = answer_refs (db i) \<and> outcome (expand_node db n) u = expand_node db n i"
proof -
  have ms: "trees db n (answer_refs (db i)) = Some ms" using node_tree_unfold [OF i] by simp
  have d: "distinct (answer_refs (db i))" "set (answer_refs (db i)) \<inter> set visited = {}"
    using trees_heads(1,2) [OF ms] assms(2,3) by auto
  show ?thesis
  proof (cases "read_gun_node_once (db i)")
    case None
    then show ?thesis using r i by (auto simp: reference_read_def answer_refs_def expand_node_unfold)
  next
    case (Some data)
    obtain t v where w: "resolve_gun_object 0 data visited = (t, v)" by force
    show ?thesis
      using walk_expands(1) [OF w, of "expand_node db n"] d r i
      by (auto simp: reference_read_def answer_refs_def expand_node_unfold Some w)
  qed
qed

lemma tree_inv_step:
  assumes "resolve_step db s s'" and inv: "tree_inv db n s"
  shows "tree_inv db n s' \<and> outcome (expand_node db n) (fst s') = outcome (expand_node db n) (fst s)"
  using assms(1)
proof (rule resolve_stepE)
  fix i assume s': "s' = deliver i (db i) s" and i: "i \<in> set (holes (fst s))"
  obtain t visited where s: "s = (t, visited)" by force
  obtain u visited' where r: "reference_read (db i) visited = (u, visited')" by force
  obtain ns where ns: "trees db n (holes t) = Some ns" "distinct ns"
    and tl: "\<And>i. i \<in> set (holes t) \<Longrightarrow> set (tl (the (node_tree db n i))) \<inter> set visited = {}"
    using inv by (auto simp: tree_inv_def s)
  obtain xs ys where xs: "holes t = xs @ i # ys" "holes (fill i u t) = xs @ holes u @ ys"
    using holes_fill_split trees_heads(2) [OF ns(1,2)] i by (metis fst_conv s)
  obtain as is' bs where as: "trees db n xs = Some as" "node_tree db n i = Some is'" "trees db n ys = Some bs" "ns = as @ is' @ bs"
    using ns(1) by (auto simp: xs(1) trees_append trees_Cons split: option.splits)
  obtain ms where ms: "is' = i # ms" "trees db n (answer_refs (db i)) = Some ms"
    using node_tree_unfold [OF as(2)] by auto
  have disj: "set ms \<inter> set visited = {}" using tl [of i] i as(2) ms(1) by (simp add: s)
  have u: "holes u = answer_refs (db i)" "outcome (expand_node db n) u = expand_node db n i"
    using reference_read_tree [OF as(2) [unfolded ms(1)] _ disj r] ns(2) as(4) ms(1) by auto
  have vis: "set visited' = set visited \<union> set (answer_refs (db i))" using reference_read_reads [OF r] by simp
  have "trees db n (holes (fill i u t)) = Some (as @ ms @ bs)"
    by (simp add: xs(2) u(1) trees_append as ms)
  moreover have "distinct (as @ ms @ bs)" using ns(2) by (auto simp: as(4) ms(1))
  moreover have "set (tl (the (node_tree db n k))) \<inter> set visited' = {}" if k: "k \<in> set (holes (fill i u t))" for k
  proof -
    have sub: "set (answer_refs (db i)) \<subseteq> set ms" using trees_heads(1) [OF ms(2)] .
    have tail: "set (tl l) \<subseteq> set l" for l :: "jstring list" by (cases l) auto
    consider "k \<in> set xs" | "k \<in> set ys" | "k \<in> set (answer_refs (db i))" using k by (auto simp: xs(2) u(1))
    then show ?thesis
    proof cases
      case 1
      then have "set (tl (the (node_tree db n k))) \<subseteq> set as" using trees_heads(4) [OF as(1)] tail by blast
      then show ?thesis using tl [of k] 1 sub ns(2) by (auto simp: vis xs(1) as(4) ms(1))
    next
      case 2
      then have "set (tl (the (node_tree db n k))) \<subseteq> set bs" using trees_heads(4) [OF as(3)] tail by blast
      then show ?thesis using tl [of k] 2 sub ns(2) by (auto simp: vis xs(1) as(4) ms(1))
    next
      case 3
      then have "set (tl (the (node_tree db n k))) \<subseteq> set ms" using trees_heads(4) [OF ms(2)] tail by blast
      then show ?thesis using trees_heads(3) [OF ms(2) _ 3] disj ns(2) by (auto simp: vis as(4) ms(1))
    qed
  qed
  ultimately have "tree_inv db n s'" by (simp add: tree_inv_def s' s deliver_def r)
  moreover have "(\<lambda>j. if j = i then outcome (expand_node db n) u else expand_node db n j) = expand_node db n"
    by (auto simp: u(2))
  ultimately show ?thesis by (simp add: s' s deliver_def r outcome_fill)
qed

text \<open>
  C11: If no node is referred to twice below a value, so that its references form a tree, then in
  whatever order the reads are answered the finished resolution is the value with every reference
  replaced by the data of its node, missing nodes and nodes nested too deeply by null.
\<close>

theorem gun_resolve_tree_exact:
  assumes "trees db n (refs 0 obj) = Some nodes" and "distinct nodes"
    and "(resolve_step db)\<^sup>*\<^sup>* (gun_resolve obj) s" and "holes (fst s) = []"
  shows "resolved (fst s) = expand (expand_node db n) 0 obj"
proof -
  obtain t visited where g: "gun_resolve obj = (t, visited)" by force
  have w: "outcome (expand_node db n) t = expand (expand_node db n) 0 obj" "holes t = refs 0 obj"
    "set visited = set (refs 0 obj)"
    using walk_expands(1) [OF g [unfolded gun_resolve_def]] walk_reads(1) [OF g [unfolded gun_resolve_def]]
      trees_heads(2) [OF assms(1,2)] by auto
  have "tree_inv db n (gun_resolve obj)"
    using assms(1,2) trees_heads(3) [OF assms(1,2)] by (auto simp: tree_inv_def g w)
  from assms(3) this have "outcome (expand_node db n) (fst s) = outcome (expand_node db n) (fst (gun_resolve obj))"
  proof (induction rule: converse_rtranclp_induct)
    case (step y z)
    then show ?case using tree_inv_step by metis
  qed simp
  then show ?thesis
    using outcome_cong [of "fst s" "expand_node db n" "\<lambda>_. None"] assms(4) w by (simp add: g resolved_def)
qed

definition tree_db :: "jstring \<Rightarrow> gun_answer" where
  "tree_db i =
     (if i = ''a'' then gun_node i [(''x'', gun_ref ''b''), (''w'', gun_ref ''gone'')]
      else if i = ''b'' then gun_node i [(''z'', JBool True)]
      else if i = ''c'' then Answered (JArr [JNull, JStr ''end''])
      else TimedOut)"

theorem gun_resolve_tree_exact_witness:
  "resolved (fst (answer_all tree_db [''c'', ''a'', ''gone'', ''b''] two_refs)) =
     Some (Inr (JArr [JObj [(''x'', JObj [(''z'', JBool True)]), (''w'', JNull)], JArr [JNull, JStr ''end'']]))"
proof -
  have t: "trees tree_db 3 (refs 0 two_refs) = Some [''a'', ''b'', ''gone'', ''c'']" by code_simp
  have "\<forall>n < 4. [''c'', ''a'', ''gone'', ''b''] ! n \<in> set (holes (fst (answer_all tree_db (take n [''c'', ''a'', ''gone'', ''b'']) two_refs)))"
    by code_simp
  then have s: "(resolve_step tree_db)\<^sup>*\<^sup>* (gun_resolve two_refs) (answer_all tree_db [''c'', ''a'', ''gone'', ''b''] two_refs)"
    using answer_all_steps [of "[''c'', ''a'', ''gone'', ''b'']" tree_db two_refs] by (auto intro: relpowp_imp_rtranclp)
  have h: "holes (fst (answer_all tree_db [''c'', ''a'', ''gone'', ''b''] two_refs)) = []" by code_simp
  have "expand (expand_node tree_db 3) 0 two_refs =
     Some (Inr (JArr [JObj [(''x'', JObj [(''z'', JBool True)]), (''w'', JNull)], JArr [JNull, JStr ''end'']]))" by code_simp
  then show ?thesis using gun_resolve_tree_exact [OF t _ s h] by simp
qed

end
