(* ===== verification/Peer_Cli.thy ===== *)
theory Peer_Cli
  imports Exec Js_Value
begin

text \<open>
  The peer manager of the command line, \<open>src/cli/peer.ts\<close>, \<open>src/cli/peer_command_handlers.ts\<close>,
  \<open>src/cli/peer_commands.ts\<close>, and \<open>src/p2p/verification.ts\<close>. Lines of input arrive at any time.
  Creating a peer asks three questions and then waits several seconds for its set-up, and the
  manager goes on reading lines meanwhile, so a creation is a task of its own that stands at one of
  its \<open>await\<close>s. The reader has room for one question: while one is pending the next line is its
  answer, and a question asked then is dropped. The set-up itself (server, database, timers) is the
  host's: a task ends with a handle and the environment, or with an error. Numerals are exact
  integers, which JavaScript's are up to $2^{53}$.
\<close>

section \<open>State\<close>

record peer_instance =
  peer_id :: int
  http_port :: int
  multicast_port :: int
  host_peer :: jstring
  peer_setup :: nat
  peer_active :: bool

record verification =
  total_bindings :: nat
  primitive_operators :: nat
  user_defined :: nat
  user_keys :: "jstring list"

datatype cli_event =
    Menu "(bool \<times> peer_instance) list" "int option"
  | SetPrompt jstring
  | Prompt
  | Question jstring
  | Verified verification
  | NotYetSynced
  | PeerCreated int
  | FirstPeerCreated
  | CreationFailed
  | SwitchedTo int
  | ShuttingDown int
  | NotFound "int option"
  | EnvironmentState nat
  | NoActivePeer
  | ShuttingDownAll
  | Execute nat jstring
  | Cleanup nat

text \<open>Where a creation stands: about to ask, waiting for an answer or for its set-up, or at its end.\<close>

datatype creation_stage = AskHttp | AskMulticast | AskHost | Answering | SettingUp | Ended

record creation =
  cr_first :: bool
  cr_id :: int
  cr_http :: int
  cr_multicast :: int
  cr_host :: jstring
  cr_next :: creation_stage
  cr_stage :: creation_stage

record manager =
  peers :: "peer_instance list"
  current_peer :: "int option"
  pending_question :: "nat option"
  creations :: "creation list"
  executions :: nat
  setups :: nat
  exited :: bool
  log :: "cli_event list"

type_synonym 'a cli = "(manager, unit, 'a) act"

definition say :: "cli_event list \<Rightarrow> manager \<Rightarrow> manager" where
  "say es s = s\<lparr>log := log s @ es\<rparr>"

definition is_peer :: "int option \<Rightarrow> peer_instance \<Rightarrow> bool" where
  "is_peer i p \<longleftrightarrow> i = Some (peer_id p) \<and> peer_active p"

definition get_current_peer :: "manager \<Rightarrow> peer_instance option" where
  "get_current_peer s = (if current_peer s = None then None else find (is_peer (current_peer s)) (peers s))"

definition show_menu :: "manager \<Rightarrow> manager" where
  "show_menu s = say [Menu (map (\<lambda>p. (current_peer s = Some (peer_id p), p)) (filter peer_active (peers s))) (current_peer s)] s"

definition int_text :: "int \<Rightarrow> jstring" where
  "int_text i = num_to_string (num_of_int i)"

definition update_prompt :: "manager \<Rightarrow> manager" where
  "update_prompt s =
     (case get_current_peer s of
        Some p \<Rightarrow> say [SetPrompt (''peer-'' @ int_text (peer_id p) @ ''('' @ int_text (http_port p) @ '')> '')] s
      | None \<Rightarrow> say [SetPrompt ''peer-manager> ''] s)"

section \<open>Input\<close>

text \<open>\<open>parseInt(s, 10)\<close>, where \<open>None\<close> is \<open>NaN\<close>, and \<open>split(/\s+/)\<close>.\<close>

definition parse_int :: "jstring \<Rightarrow> int option" where
  "parse_int s =
     (let r = dropWhile is_space s;
          neg = (r \<noteq> [] \<and> hd r = CHR ''-'');
          r' = (if r \<noteq> [] \<and> (hd r = CHR ''-'' \<or> hd r = CHR ''+'') then tl r else r);
          ds = takeWhile is_digit r'
      in if ds = [] then None else Some (if neg then - int_of_digits ds else int_of_digits ds))"

function split_spaces :: "jstring \<Rightarrow> jstring list" where
  "split_spaces s =
     (let w = takeWhile (\<lambda>c. \<not> is_space c) s; r = dropWhile (\<lambda>c. \<not> is_space c) s
      in if r = [] then [w] else w # split_spaces (dropWhile is_space r))"
  by pat_completeness auto
termination
proof (relation "measure length")
  fix w s r :: jstring
  assume r: "r = dropWhile (\<lambda>c. \<not> is_space c) s" and "r \<noteq> []"
  obtain c cs where c: "r = c # cs" using \<open>r \<noteq> []\<close> by (meson neq_Nil_conv)
  then have "is_space c" using r by (metis dropWhile_eq_Cons_conv)
  then have "length (dropWhile is_space r) \<le> length cs" by (simp add: c length_dropWhile_le)
  moreover have "length r \<le> length s" by (simp add: r length_dropWhile_le)
  ultimately show "(dropWhile is_space r, s) \<in> measure length" by (simp add: c)
qed simp

definition lower_char :: "char \<Rightarrow> char" where
  "lower_char c =
     (let n = of_char c :: nat
      in if 65 \<le> n \<and> n \<le> 90 \<or> 192 \<le> n \<and> n \<le> 222 \<and> n \<noteq> 215 then char_of (n + 32) else c)"

definition to_lower :: "jstring \<Rightarrow> jstring" where
  "to_lower s = map lower_char s"

section \<open>Verification of an environment\<close>

text \<open>The keys of the environment's map, or \<open>None\<close> when its value is no map.\<close>

definition verify_environment :: "jstring list \<Rightarrow> jstring list option \<Rightarrow> verification" where
  "verify_environment primitive_keys env =
     (case env of
        None \<Rightarrow> \<lparr>total_bindings = 0, primitive_operators = 0, user_defined = 0, user_keys = []\<rparr>
      | Some keys \<Rightarrow>
          let system_keys = primitive_keys @ [''parent''];
              users = filter (\<lambda>k. k \<notin> set system_keys) keys;
              primitives = length (filter (\<lambda>k. k \<in> set keys) primitive_keys)
          in \<lparr>total_bindings = length keys, primitive_operators = primitives, user_defined = length users, user_keys = users\<rparr>)"

definition verify_peer_environment :: "jstring list \<Rightarrow> jstring list option \<Rightarrow> manager \<Rightarrow> manager" where
  "verify_peer_environment primitive_keys env s =
     (let v = verify_environment primitive_keys env
      in if total_bindings v > 0 then say [Verified v] s else say [NotYetSynced] s)"

section \<open>Creating a peer\<close>

definition default_http_port :: int where "default_http_port = 8766"
definition default_multicast_port :: int where "default_multicast_port = 8765"
definition default_host_peer :: jstring where "default_host_peer = ''http://localhost:8765/gun''"

definition change_creation :: "nat \<Rightarrow> (creation \<Rightarrow> creation) \<Rightarrow> manager \<Rightarrow> manager" where
  "change_creation c f s = s\<lparr>creations := (creations s)[c := f (creations s ! c)]\<rparr>"

text \<open>A question is dropped while another one is pending: its creation then waits for ever.\<close>

definition ask :: "nat \<Rightarrow> creation_stage \<Rightarrow> manager \<Rightarrow> manager" where
  "ask c stage s =
     (let s = change_creation c (\<lambda>cr. cr\<lparr>cr_stage := Answering, cr_next := stage\<rparr>) s;
          cr = creations s ! c;
          text = (case stage of
              AskMulticast \<Rightarrow> ''   Multicast Port ['' @ int_text (cr_multicast cr) @ '']: ''
            | AskHost \<Rightarrow> ''   Host Peer URL ['' @ cr_host cr @ '']: ''
            | _ \<Rightarrow> ''   HTTP Port ['' @ int_text (cr_http cr) @ '']: '')
      in case pending_question s of
           None \<Rightarrow> say [Question text, Prompt] (s\<lparr>pending_question := Some c\<rparr>)
         | Some _ \<Rightarrow> say [Prompt] s)"

definition prompt_number :: "jstring \<Rightarrow> int \<Rightarrow> int" where
  "prompt_number answer fallback =
     (let a = js_trim answer in if a = [] then fallback else case parse_int a of None \<Rightarrow> fallback | Some n \<Rightarrow> n)"

definition create_peer :: "bool \<Rightarrow> int \<Rightarrow> int \<Rightarrow> manager \<Rightarrow> manager" where
  "create_peer first i port s =
     ask (length (creations s)) AskHttp
       (s\<lparr>creations := creations s @
          [\<lparr>cr_first = first, cr_id = i, cr_http = port, cr_multicast = default_multicast_port,
            cr_host = default_host_peer, cr_next = AskHttp, cr_stage = AskHttp\<rparr>]\<rparr>)"

text \<open>The answer resolves the question's promise; the creation goes on in a later step.\<close>

definition question_answered :: "nat \<Rightarrow> jstring \<Rightarrow> manager \<Rightarrow> manager" where
  "question_answered c line s =
     (let s = s\<lparr>pending_question := None\<rparr>
      in change_creation c (\<lambda>cr.
           case cr_next cr of
             AskHttp \<Rightarrow> cr\<lparr>cr_http := prompt_number line (cr_http cr), cr_stage := AskMulticast\<rparr>
           | AskMulticast \<Rightarrow> cr\<lparr>cr_multicast := prompt_number line (cr_multicast cr), cr_stage := AskHost\<rparr>
           | _ \<Rightarrow> cr\<lparr>cr_host := (if js_trim line = [] then cr_host cr else js_trim line), cr_stage := SettingUp\<rparr>) s)"

definition continue_creation :: "nat \<Rightarrow> manager \<Rightarrow> manager" where
  "continue_creation c s =
     (case cr_stage (creations s ! c) of
        AskMulticast \<Rightarrow> ask c AskMulticast s
      | AskHost \<Rightarrow> ask c AskHost s
      | _ \<Rightarrow> s)"

definition end_creation :: "nat \<Rightarrow> manager \<Rightarrow> manager" where
  "end_creation c s = change_creation c (\<lambda>cr. cr\<lparr>cr_stage := Answering\<rparr>) s"

definition created :: "creation \<Rightarrow> nat \<Rightarrow> peer_instance" where
  "created cr setup = \<lparr>peer_id = cr_id cr, http_port = cr_http cr, multicast_port = cr_multicast cr,
     host_peer = cr_host cr, peer_setup = setup, peer_active = True\<rparr>"

text \<open>The rest of \<open>create_peer\<close> and of the handler that awaits it.\<close>

definition setup_done :: "jstring list \<Rightarrow> jstring list option \<Rightarrow> nat \<Rightarrow> manager \<Rightarrow> manager" where
  "setup_done primitive_keys env c s =
     (let cr = creations s ! c;
          setup = setups s;
          s = verify_peer_environment primitive_keys env (end_creation c (s\<lparr>setups := setups s + 1\<rparr>));
          s = s\<lparr>peers := peers s @ [created cr setup], current_peer := Some (cr_id cr)\<rparr>
      in if cr_first cr then update_prompt (say [FirstPeerCreated] s)
         else say [Prompt] (update_prompt (show_menu (say [PeerCreated (cr_id cr), SwitchedTo (cr_id cr)] s))))"

definition setup_failed :: "nat \<Rightarrow> manager \<Rightarrow> manager" where
  "setup_failed c s =
     (let cr = creations s ! c; s = say [CreationFailed] (end_creation c s)
      in if cr_first cr then s else say [Prompt] (update_prompt (show_menu s)))"

definition handle_new_command :: "jstring list \<Rightarrow> manager \<Rightarrow> manager" where
  "handle_new_command parts s =
     (let i = int (length (peers s)) + 1;
          port = (if peers s \<noteq> [] then http_port (last (peers s)) + 1 else default_http_port);
          port = (if length parts > 1 then (case parse_int (parts ! 1) of None \<Rightarrow> port | Some p \<Rightarrow> p) else port)
      in create_peer False i port s)"

section \<open>The other commands\<close>

definition handle_use_command :: "jstring list \<Rightarrow> manager \<Rightarrow> manager" where
  "handle_use_command parts s =
     (let i = parse_int (parts ! 1);
          s = (case find (is_peer i) (peers s) of
                 Some p \<Rightarrow> say [SwitchedTo (peer_id p)] (s\<lparr>current_peer := Some (peer_id p)\<rparr>)
               | None \<Rightarrow> say [NotFound i] s)
      in say [Prompt] (update_prompt s))"

text \<open>Marking the first peer that a test finds as closed.\<close>

fun deactivate_first :: "(peer_instance \<Rightarrow> bool) \<Rightarrow> peer_instance list \<Rightarrow> peer_instance list" where
  "deactivate_first P [] = []"
| "deactivate_first P (p # ps) = (if P p then p\<lparr>peer_active := False\<rparr> # ps else p # deactivate_first P ps)"

definition handle_close_command :: "jstring list \<Rightarrow> manager \<Rightarrow> manager" where
  "handle_close_command parts s =
     (let i = parse_int (parts ! 1);
          s = (case find (is_peer i) (peers s) of
                 Some p \<Rightarrow>
                   let s = say [ShuttingDown (peer_id p), Cleanup (peer_setup p)] (s\<lparr>peers := deactivate_first (is_peer i) (peers s)\<rparr>)
                   in if current_peer s = i then
                        (case filter peer_active (peers s) of
                           [] \<Rightarrow> s\<lparr>current_peer := None\<rparr>
                         | q # _ \<Rightarrow> say [SwitchedTo (peer_id q)] (s\<lparr>current_peer := Some (peer_id q)\<rparr>))
                      else s
               | None \<Rightarrow> say [NotFound i] s)
      in say [Prompt] (update_prompt (show_menu s)))"

definition handle_env_command :: "manager \<Rightarrow> manager" where
  "handle_env_command s =
     say [Prompt] (case get_current_peer s of Some p \<Rightarrow> say [EnvironmentState (peer_setup p)] s | None \<Rightarrow> say [NoActivePeer] s)"

definition cleanup_active :: "manager \<Rightarrow> manager" where
  "cleanup_active s = say (map (\<lambda>p. Cleanup (peer_setup p)) (filter peer_active (peers s))) s"

text \<open>Closing the reader emits its \<open>close\<close> event, whose listener ends the process.\<close>

definition on_close :: "manager \<Rightarrow> manager" where
  "on_close s = (cleanup_active (say [ShuttingDownAll] s))\<lparr>exited := True\<rparr>"

definition handle_exit_command :: "manager \<Rightarrow> manager" where
  "handle_exit_command s = on_close (cleanup_active (say [ShuttingDownAll] s))"

definition handle_code_execution :: "jstring \<Rightarrow> manager \<Rightarrow> manager" where
  "handle_code_execution input s =
     (case get_current_peer s of
        Some p \<Rightarrow> say [Execute (peer_setup p) input] (s\<lparr>executions := executions s + 1\<rparr>)
      | None \<Rightarrow> say [NoActivePeer, Prompt] s)"

definition execution_done :: "manager \<Rightarrow> manager" where
  "execution_done s = say [Prompt] (s\<lparr>executions := executions s - 1\<rparr>)"

definition on_line :: "jstring \<Rightarrow> manager \<Rightarrow> manager" where
  "on_line line s =
     (let input = js_trim line
      in if input = [] then say [Prompt] s
         else let parts = split_spaces input; command = to_lower (parts ! 0)
         in if command = ''new'' \<or> command = ''n'' then handle_new_command parts s
            else if command = ''use'' \<and> length parts > 1 then handle_use_command parts s
            else if command = ''list'' \<or> command = ''l'' then say [Prompt] (update_prompt (show_menu s))
            else if command = ''close'' \<and> length parts > 1 then handle_close_command parts s
            else if command = ''/env'' \<or> command = ''env'' then handle_env_command s
            else if command = ''exit'' \<or> command = ''quit'' \<or> command = ''q'' then handle_exit_command s
            else handle_code_execution input s)"

definition read_line :: "jstring \<Rightarrow> manager \<Rightarrow> manager" where
  "read_line line s =
     (case pending_question s of Some c \<Rightarrow> question_answered c line s | None \<Rightarrow> on_line line s)"

definition initialize_first_peer :: "manager \<Rightarrow> manager" where
  "initialize_first_peer s = create_peer True 1 default_http_port s"

definition run_client :: manager where
  "run_client = initialize_first_peer (say [Prompt] (update_prompt (show_menu
     \<lparr>peers = [], current_peer = None, pending_question = None, creations = [], executions = 0, setups = 0, exited = False, log = []\<rparr>)))"

datatype cli_input =
    Line jstring
  | Continue nat
  | SetupDone nat "jstring list option"
  | SetupFailed nat
  | ExecutionDone
  | InputClosed

text \<open>The events a state admits and what they do. An exited process does nothing.\<close>

definition admits :: "manager \<Rightarrow> cli_input \<Rightarrow> bool" where
  "admits s e \<longleftrightarrow> \<not> exited s \<and>
     (case e of
        Continue c \<Rightarrow> c < length (creations s) \<and> cr_stage (creations s ! c) \<in> {AskMulticast, AskHost}
      | SetupDone c _ \<Rightarrow> c < length (creations s) \<and> cr_stage (creations s ! c) = SettingUp
      | SetupFailed c \<Rightarrow> c < length (creations s) \<and> cr_stage (creations s ! c) = SettingUp
      | ExecutionDone \<Rightarrow> executions s > 0
      | _ \<Rightarrow> True)"

definition handle :: "jstring list \<Rightarrow> cli_input \<Rightarrow> manager \<Rightarrow> manager" where
  "handle primitive_keys e s =
     (case e of
        Line l \<Rightarrow> read_line l s
      | Continue c \<Rightarrow> continue_creation c s
      | SetupDone c env \<Rightarrow> setup_done primitive_keys env c s
      | SetupFailed c \<Rightarrow> setup_failed c s
      | ExecutionDone \<Rightarrow> execution_done s
      | InputClosed \<Rightarrow> on_close s)"

inductive cli_step :: "jstring list \<Rightarrow> manager \<Rightarrow> manager \<Rightarrow> bool" for keys where
  event: "admits s e \<Longrightarrow> cli_step keys s (handle keys e s)"

inductive_cases cli_stepE: "cli_step keys s s'"

section \<open>Consistency\<close>

definition cleanups :: "cli_event list \<Rightarrow> nat list" where
  "cleanups es = concat (map (\<lambda>e. case e of Cleanup k \<Rightarrow> [k] | _ \<Rightarrow> []) es)"

text \<open>No code is executed on a set-up that was cleaned up before.\<close>

fun uses_live :: "nat set \<Rightarrow> cli_event list \<Rightarrow> bool" where
  "uses_live dead [] = True"
| "uses_live dead (e # es) =
     (case e of Execute k _ \<Rightarrow> k \<notin> dead \<and> uses_live dead es | Cleanup k \<Rightarrow> uses_live (insert k dead) es | _ \<Rightarrow> uses_live dead es)"

definition quiet :: "cli_event \<Rightarrow> bool" where
  "quiet e \<longleftrightarrow> (case e of Execute _ _ \<Rightarrow> False | Cleanup _ \<Rightarrow> False | _ \<Rightarrow> True)"

lemma cleanups_Nil [simp]: "cleanups [] = []"
  and cleanups_Cons [simp]: "cleanups (e # es) = (case e of Cleanup k \<Rightarrow> [k] | _ \<Rightarrow> []) @ cleanups es"
  by (simp_all add: cleanups_def)

lemma cleanups_append [simp]: "cleanups (es @ fs) = cleanups es @ cleanups fs"
  by (simp add: cleanups_def)

lemma uses_live_append [simp]: "uses_live dead (es @ fs) \<longleftrightarrow> uses_live dead es \<and> uses_live (dead \<union> set (cleanups es)) fs"
  by (induction es arbitrary: dead) (auto simp: cleanups_def split: cli_event.splits)

lemma quiet_events: "list_all quiet es \<Longrightarrow> cleanups es = [] \<and> uses_live dead es"
  by (induction es) (auto simp: quiet_def cleanups_def split: cli_event.splits)

definition manager_inv :: "manager \<Rightarrow> bool" where
  "manager_inv s \<longleftrightarrow>
     (current_peer s = None \<longleftrightarrow> filter peer_active (peers s) = [])
     \<and> (\<forall>i. current_peer s = Some i \<longrightarrow> (\<exists>p \<in> set (peers s). is_peer (Some i) p))
     \<and> distinct (map peer_setup (peers s)) \<and> (\<forall>p \<in> set (peers s). peer_setup p < setups s)
     \<and> uses_live {} (log s)
     \<and> (if exited s then peer_setup ` set (peers s) \<subseteq> set (cleanups (log s))
        else distinct (cleanups (log s)) \<and> set (cleanups (log s)) = peer_setup ` {p \<in> set (peers s). \<not> peer_active p})"

named_theorems inv_rules \<open>operations that keep the invariant of the manager\<close>

lemma inv_say [inv_rules]: "list_all quiet es \<Longrightarrow> manager_inv s \<Longrightarrow> manager_inv (say es s)"
  using quiet_events by (simp add: manager_inv_def say_def)

lemma inv_prompt [inv_rules]: "manager_inv s \<Longrightarrow> manager_inv (update_prompt s)"
  and inv_menu [inv_rules]: "manager_inv s \<Longrightarrow> manager_inv (show_menu s)"
  and inv_change [inv_rules]: "manager_inv s \<Longrightarrow> manager_inv (change_creation c f s)"
  by (auto simp: update_prompt_def show_menu_def quiet_def change_creation_def intro!: inv_say split: option.split)
    (simp add: manager_inv_def)

lemma inv_other [inv_rules]:
  "manager_inv s \<Longrightarrow> manager_inv (s\<lparr>pending_question := q\<rparr>)" "manager_inv s \<Longrightarrow> manager_inv (s\<lparr>creations := cs\<rparr>)"
  "manager_inv s \<Longrightarrow> manager_inv (s\<lparr>executions := n\<rparr>)" "manager_inv s \<Longrightarrow> setups s \<le> k \<Longrightarrow> manager_inv (s\<lparr>setups := k\<rparr>)"
  by (fastforce simp: manager_inv_def)+

lemma quiet_simps [simp]:
  "quiet (Menu a b)" "quiet (SetPrompt a')" "quiet Prompt" "quiet (Question a')" "quiet (Verified v)" "quiet NotYetSynced"
  "quiet (PeerCreated i)" "quiet FirstPeerCreated" "quiet CreationFailed" "quiet (SwitchedTo i)" "quiet (ShuttingDown i)"
  "quiet (NotFound j)" "quiet (EnvironmentState k)" "quiet NoActivePeer" "quiet ShuttingDownAll"
  by (simp_all add: quiet_def)

lemma inv_ask [inv_rules]: "manager_inv s \<Longrightarrow> manager_inv (ask c stage s)"
  by (auto simp: ask_def Let_def intro!: inv_rules split: option.split)

lemma inv_use:
  assumes "manager_inv s" and "find (is_peer i) (peers s) = Some p"
  shows "manager_inv (s\<lparr>current_peer := Some (peer_id p)\<rparr>)"
proof -
  have "p \<in> set (peers s)" "peer_active p" "is_peer (Some (peer_id p)) p"
    using assms(2) by (auto simp: find_Some_iff is_peer_def)
  then show ?thesis using assms(1) by (auto simp: manager_inv_def filter_empty_conv)
qed

lemma inv_push:
  assumes "manager_inv s" and "\<not> exited s" and "k < setups s" and "k \<notin> peer_setup ` set (peers s)"
  shows "manager_inv (s\<lparr>peers := peers s @ [created cr k], current_peer := Some (cr_id cr)\<rparr>)"
proof -
  have "{p \<in> set (peers s @ [created cr k]). \<not> peer_active p} = {p \<in> set (peers s). \<not> peer_active p}"
    by (auto simp: created_def)
  then show ?thesis
    using assms by (auto simp: manager_inv_def created_def is_peer_def)
qed

lemma say_simps [simp]:
  "peers (say es s) = peers s" "current_peer (say es s) = current_peer s" "setups (say es s) = setups s" "exited (say es s) = exited s"
  "(say es s)\<lparr>current_peer := c\<rparr> = say es (s\<lparr>current_peer := c\<rparr>)" "(say es s)\<lparr>executions := n\<rparr> = say es (s\<lparr>executions := n\<rparr>)"
  by (simp_all add: say_def)

lemma end_simps [simp]:
  "peers (end_creation c s) = peers s" "setups (end_creation c s) = setups s" "exited (end_creation c s) = exited s"
  by (simp_all add: end_creation_def change_creation_def)

lemma deactivate_split:
  assumes "find P ps = Some p"
  obtains xs ys where "ps = xs @ p # ys" "deactivate_first P ps = xs @ p\<lparr>peer_active := False\<rparr> # ys" "P p"
proof -
  have "\<exists>xs ys. ps = xs @ p # ys \<and> deactivate_first P ps = xs @ p\<lparr>peer_active := False\<rparr> # ys \<and> P p"
    using assms
  proof (induction ps)
    case (Cons q ps)
    show ?case
    proof (cases "P q")
      case True
      then show ?thesis using Cons.prems by (intro exI [of _ "[]"] exI [of _ ps]) simp
    next
      case False
      then obtain xs ys where "ps = xs @ p # ys" "deactivate_first P ps = xs @ p\<lparr>peer_active := False\<rparr> # ys" "P p"
        using Cons by auto
      then show ?thesis using False by (intro exI [of _ "q # xs"] exI [of _ ys]) simp
    qed
  qed simp
  then show thesis using that by blast
qed

text \<open>The state after the peer is marked: only its current peer is not yet right.\<close>

lemma inv_deactivate:
  assumes inv: "manager_inv s" and "\<not> exited s" and p: "find (is_peer i) (peers s) = Some p"
    and c: "c = (if current_peer s = i
      then (case filter peer_active (deactivate_first (is_peer i) (peers s)) of [] \<Rightarrow> None | q # _ \<Rightarrow> Some (peer_id q))
      else current_peer s)"
  shows "manager_inv (say [ShuttingDown (peer_id p), Cleanup (peer_setup p)]
    (s\<lparr>peers := deactivate_first (is_peer i) (peers s), current_peer := c\<rparr>))"
proof -
  obtain xs ys where xs: "peers s = xs @ p # ys" and d: "deactivate_first (is_peer i) (peers s) = xs @ p\<lparr>peer_active := False\<rparr> # ys"
    and pi: "is_peer i p" using deactivate_split [OF p] .
  let ?ps = "xs @ p\<lparr>peer_active := False\<rparr> # ys"
  have i: "i = Some (peer_id p)" "peer_active p" using pi by (auto simp: is_peer_def)
  have new: "(c = None \<longleftrightarrow> filter peer_active ?ps = []) \<and> (\<forall>j. c = Some j \<longrightarrow> (\<exists>q \<in> set ?ps. is_peer (Some j) q))"
  proof (cases "current_peer s = i")
    case True
    show ?thesis
    proof (cases "filter peer_active ?ps")
      case (Cons q qs)
      then have "q \<in> set ?ps \<and> peer_active q" by (metis filter_eq_ConsD in_set_conv_decomp)
      then show ?thesis using True Cons c by (auto simp: d is_peer_def)
    qed (use True c in \<open>simp add: d\<close>)
  next
    case False
    then have cc: "c = current_peer s" using c by simp
    have "current_peer s \<noteq> None" using inv i(2) by (auto simp: manager_inv_def xs filter_empty_conv)
    then obtain j where j: "current_peer s = Some j" by auto
    then obtain q where q: "q \<in> set (peers s)" "is_peer (Some j) q" using inv by (auto simp: manager_inv_def)
    then have "q \<in> set ?ps" "peer_active q" using j False i by (auto simp: xs is_peer_def)
    then show ?thesis using q(2) by (auto simp: cc j filter_empty_conv)
  qed
  have "distinct (map peer_setup (peers s))" and cl: "set (cleanups (log s)) = peer_setup ` {p \<in> set (peers s). \<not> peer_active p}"
    and rest: "uses_live {} (log s)" "distinct (cleanups (log s))" "\<forall>p \<in> set (peers s). peer_setup p < setups s"
    using inv assms(2) by (auto simp: manager_inv_def)
  then have "peer_setup p \<notin> set (cleanups (log s))" "distinct (map peer_setup ?ps)" using i(2) by (auto simp: xs)
  moreover have "{p \<in> set ?ps. \<not> peer_active p} = insert (p\<lparr>peer_active := False\<rparr>) {p \<in> set (peers s). \<not> peer_active p}"
    using i(2) by (auto simp: xs)
  then have "peer_setup ` {p \<in> set ?ps. \<not> peer_active p} = insert (peer_setup p) (set (cleanups (log s)))"
    unfolding cl by simp
  moreover have "\<forall>q \<in> set ?ps. peer_setup q < setups s" using rest(3) by (auto simp: xs)
  ultimately show ?thesis using new rest(1,2) assms(2) by (simp add: manager_inv_def say_def d)
qed

lemma inv_close:
  assumes "manager_inv s" and "\<not> exited s"
  shows "manager_inv (handle_close_command parts s)"
proof (cases "find (is_peer (parse_int (parts ! 1))) (peers s)")
  case None
  then show ?thesis using assms by (auto simp: handle_close_command_def Let_def intro!: inv_rules)
next
  case (Some p)
  let ?i = "parse_int (parts ! 1)"
  let ?es = "[ShuttingDown (peer_id p), Cleanup (peer_setup p)]"
  note inv = inv_deactivate [OF assms Some refl]
  have same: "s\<lparr>peers := ps, current_peer := current_peer s\<rparr> = s\<lparr>peers := ps\<rparr>" for ps by (cases s) simp
  show ?thesis
  proof (cases "current_peer s = ?i")
    case False
    then show ?thesis using inv by (auto simp: handle_close_command_def Let_def Some same simp del: One_nat_def intro!: inv_rules)
  next
    case True
    then show ?thesis
      using inv by (cases "filter peer_active (deactivate_first (is_peer ?i) (peers s))")
        (auto simp: handle_close_command_def Let_def Some simp del: One_nat_def intro!: inv_prompt inv_menu inv_say [of "[Prompt]"] inv_say [of "[SwitchedTo z]" for z])
  qed
qed

lemma inv_on_close:
  assumes "manager_inv s" and "\<not> exited s"
  shows "manager_inv (on_close s)" and "manager_inv (handle_exit_command s)"
proof -
  have c: "cleanups (map (\<lambda>p. Cleanup (peer_setup p)) ps) = map peer_setup ps" for ps :: "peer_instance list"
    by (induction ps) (auto simp: cleanups_def)
  have u: "uses_live dead (map (\<lambda>p. Cleanup (peer_setup p)) ps)" for ps :: "peer_instance list" and dead
    by (induction ps arbitrary: dead) auto
  have q: "cleanups [ShuttingDownAll] = []" by (simp add: cleanups_def)
  show "manager_inv (on_close s)" "manager_inv (handle_exit_command s)"
    using assms by (auto simp: manager_inv_def on_close_def handle_exit_command_def cleanup_active_def say_def c u q)
qed

lemma inv_handle:
  assumes inv: "manager_inv s" and e: "admits s e"
  shows "manager_inv (handle keys e s)"
proof -
  have x: "\<not> exited s" using e by (simp add: admits_def)
  have line: "manager_inv (on_line l s)" for l
  proof -
    have "manager_inv (handle_code_execution i s)" for i
    proof (cases "get_current_peer s")
      case (Some p)
      then have p: "p \<in> set (peers s)" "peer_active p"
        by (auto simp: get_current_peer_def find_Some_iff is_peer_def split: if_splits)
      then have "peer_setup p \<notin> set (cleanups (log s))"
        using inv x by (auto simp: manager_inv_def distinct_map inj_on_def)
      then have "manager_inv (say [Execute (peer_setup p) i] s)"
        using inv x by (simp add: manager_inv_def say_def)
      then have "manager_inv ((say [Execute (peer_setup p) i] s)\<lparr>executions := executions s + 1\<rparr>)"
        by (rule inv_other(3))
      then show ?thesis by (simp add: handle_code_execution_def Some)
    qed (simp add: handle_code_execution_def inv_rules inv)
    moreover have "manager_inv (handle_new_command parts s)" "manager_inv (handle_env_command s)" for parts
      using inv by (auto simp: handle_new_command_def create_peer_def handle_env_command_def Let_def intro!: inv_rules split: option.split)
    moreover have "manager_inv (handle_use_command parts s)" for parts
      using inv inv_use [OF inv] by (auto simp: handle_use_command_def Let_def intro!: inv_prompt inv_say split: option.split)
    moreover have "manager_inv (say [Prompt] s)" "manager_inv (say [Prompt] (update_prompt (show_menu s)))"
      using inv by (simp_all add: inv_rules)
    moreover note inv_close [OF inv x] inv_on_close(2) [OF inv x]
    moreover have "manager_inv a \<Longrightarrow> manager_inv b \<Longrightarrow> manager_inv (if c then a else b)" for a b c by simp
    ultimately show ?thesis unfolding on_line_def Let_def by metis
  qed
  show ?thesis
  proof (cases e)
    case (Line l)
    then show ?thesis
      using inv line by (auto simp: handle_def read_line_def question_answered_def Let_def intro!: inv_rules split: option.split)
  next
    case (Continue c)
    then show ?thesis using inv by (auto simp: handle_def continue_creation_def intro!: inv_rules split: creation_stage.split)
  next
    case (SetupDone c env)
    let ?s = "verify_peer_environment keys env (end_creation c (s\<lparr>setups := setups s + 1\<rparr>))"
    have "manager_inv ?s"
      unfolding verify_peer_environment_def end_creation_def Let_def using inv by (auto intro!: inv_rules)
    moreover have "peers ?s = peers s" "setups ?s = Suc (setups s)" "\<not> exited ?s"
      using x by (auto simp: verify_peer_environment_def Let_def)
    ultimately have "manager_inv (?s\<lparr>peers := peers ?s @ [created cr (setups s)], current_peer := Some (cr_id cr)\<rparr>)" for cr
      using inv by (intro inv_push) (auto simp: manager_inv_def)
    then show ?thesis by (auto simp: SetupDone handle_def setup_done_def Let_def simp del: say_simps intro!: inv_rules)
  next
    case (SetupFailed c)
    then show ?thesis using inv by (auto simp: handle_def setup_failed_def end_creation_def Let_def intro!: inv_rules)
  next
    case ExecutionDone
    then show ?thesis using inv by (auto simp: handle_def execution_done_def intro!: inv_rules)
  next
    case InputClosed
    then show ?thesis using inv_on_close(1) [OF inv x] by (simp add: handle_def)
  qed
qed

lemma inv_run_client: "manager_inv run_client"
proof -
  have "manager_inv \<lparr>peers = [], current_peer = None, pending_question = None, creations = [], executions = 0, setups = 0, exited = False, log = []\<rparr>"
    by (simp add: manager_inv_def)
  then show ?thesis
    by (auto simp: run_client_def initialize_first_peer_def create_peer_def intro!: inv_rules)
qed

lemma manager_inv_reach: "(cli_step keys)\<^sup>*\<^sup>* run_client s \<Longrightarrow> manager_inv s"
proof (induction rule: rtranclp_induct)
  case base
  show ?case by (rule inv_run_client)
next
  case (step y z)
  then show ?case by (auto elim!: cli_stepE intro: inv_handle)
qed

text \<open>A run of given events, those that are not admitted left out.\<close>

definition run_events :: "jstring list \<Rightarrow> cli_input list \<Rightarrow> manager" where
  "run_events keys es = fold (\<lambda>e s. if admits s e then handle keys e s else s) es run_client"

lemma run_events_reach: "(cli_step keys)\<^sup>*\<^sup>* run_client (run_events keys es)"
proof (induction es rule: rev_induct)
  case (snoc e es)
  then show ?case
    by (auto simp: run_events_def intro: rtranclp.rtrancl_into_rtrancl cli_step.event)
qed (simp add: run_events_def)


definition answers :: "nat \<Rightarrow> cli_input list" where
  "answers c = [Line [], Continue c, Line [], Continue c, Line []]"


text \<open>
  The id of a new peer is the number of peers before its set-up, so two set-ups that overlap make
  two peers with one id and one port, and the second cannot be chosen while the first is active.
\<close>

lemma overlapping_creations_share_id:
  "map (\<lambda>p. (peer_id p, http_port p, peer_active p, peer_setup p)) (peers (run_events [] (answers 0 @ Line ''new'' # answers 1 @ [SetupDone 0 None, SetupDone 1 None])))
     = [(1, 8766, True, 0), (1, 8766, True, 1)]"
  by code_simp

text \<open>The command \<open>exit\<close> shuts every peer down twice, once itself and once as the reader closes.\<close>

lemma exit_cleans_twice:
  "cleanups (log (run_events [] (answers 0 @ [SetupDone 0 None, Line ''exit'']))) = [0, 0]"
  by code_simp

text \<open>A command read between two questions of a creation takes the reader's place for a question.\<close>

lemma creation_stuck:
  "let s = run_events [] [Line [], Line ''new'', Continue 0]
   in pending_question s = Some 1 \<and> map cr_stage (creations s) = [Answering, Answering]"
  by code_simp

end
