(* ===== verification/Ascii_Graph.thy ===== *)
theory Ascii_Graph
  imports General_Trace Complex_Main
begin

text \<open>
  The text picture of a network: \<open>src/compiler/graph_renderer.ts\<close> walks the network below a cell
  and turns it into nodes and links, \<open>src/compiler/ascii-force/\<close> lays them out, draws them on a
  canvas and writes the labels over the drawing. The network, the force simulation and the canvas
  are packages: their answers, the positions of the simulation and the drawn text are parameters,
  and the calls of the canvas are a list. Coordinates are exact rationals where the code has
  binary64. The characters of a frame may be any type with a line break, for they are not all
  8 bits wide.
\<close>

section \<open>The walk\<close>

record 'x trace_result =
  tr_cells :: "(jstring, 'x) jmap"
  tr_propagators :: "(jstring, 'x) jmap"

definition visit_item :: "'x items \<Rightarrow> 'x \<Rightarrow> jstring list \<times> 'x trace_result \<Rightarrow> jstring list \<times> 'x trace_result" where
  "visit_item I x vr =
     (case vr of (visited, r) \<Rightarrow>
       (visited @ [get_id I x],
        if is_cell I x then r\<lparr>tr_cells := AList.update (get_id I x) x (tr_cells r)\<rparr>
        else if is_propagator I x then r\<lparr>tr_propagators := AList.update (get_id I x) x (tr_propagators r)\<rparr>
        else r))"

partial_function (option) trace_loop ::
    "'x items \<Rightarrow> ('x \<Rightarrow> 'x list) \<Rightarrow> 'x list \<Rightarrow> jstring list \<times> 'x trace_result \<Rightarrow> (jstring list \<times> 'x trace_result) option" where
  "trace_loop I downstream queue st =
     (case queue of
        [] \<Rightarrow> Some st
      | x # rest \<Rightarrow>
          if get_id I x \<in> set (fst st) then trace_loop I downstream rest st
          else let st' = visit_item I x st
               in trace_loop I downstream (rest @ filter (\<lambda>c. get_id I c \<notin> set (fst st')) (downstream x)) st')"

lemma trace_loop_simps [simp, code]:
  "trace_loop I downstream [] st = Some st"
  "trace_loop I downstream (x # rest) st =
     (if get_id I x \<in> set (fst st) then trace_loop I downstream rest st
      else trace_loop I downstream (rest @ filter (\<lambda>c. get_id I c \<notin> set (fst (visit_item I x st))) (downstream x)) (visit_item I x st))"
  by (subst trace_loop.simps, simp add: Let_def)+

definition trace_start :: "jstring list \<times> 'x trace_result" where
  "trace_start = ([], \<lparr>tr_cells = [], tr_propagators = []\<rparr>)"

definition trace_cell_safe :: "'x items \<Rightarrow> ('x \<Rightarrow> 'x list) \<Rightarrow> 'x \<Rightarrow> 'x trace_result option" where
  "trace_cell_safe I downstream cell = map_option snd (trace_loop I downstream [cell] trace_start)"

section \<open>Nodes and links\<close>

type_synonym link = "jstring \<times> jstring"
type_synonym ascii_node = "jstring \<times> jstring"

definition propagator_to_links :: "'x items \<Rightarrow> ('x \<Rightarrow> 'x list) \<Rightarrow> ('x \<Rightarrow> 'x list) \<Rightarrow> 'x \<Rightarrow> link list" where
  "propagator_to_links I inputs outputs p =
     map (\<lambda>c. (get_id I c, get_id I p)) (inputs p) @ map (\<lambda>c. (get_id I p, get_id I c)) (outputs p)"

definition traced_result_to_graph ::
    "'x items \<Rightarrow> ('x \<Rightarrow> 'x list) \<Rightarrow> ('x \<Rightarrow> 'x list) \<Rightarrow> ('x \<Rightarrow> ascii_node) \<Rightarrow> ('x \<Rightarrow> ascii_node) \<Rightarrow> 'x trace_result
       \<Rightarrow> ascii_node list \<times> link list" where
  "traced_result_to_graph I inputs outputs cell_convertor propagator_convertor r =
     (let cells = map snd (tr_cells r);
          propagators_list = map snd (tr_propagators r);
          nodes = map cell_convertor cells @ map propagator_convertor propagators_list;
          node_ids = fold set_add (map fst nodes) []
      in (nodes, concat (map (\<lambda>p. filter (\<lambda>(s, t). s \<in> set node_ids \<and> t \<in> set node_ids)
                                   (propagator_to_links I inputs outputs p)) propagators_list)))"

definition name_node :: "'x items \<Rightarrow> 'x \<Rightarrow> ascii_node" where
  "name_node I x = (get_id I x, if item_name I x = [] then get_id I x else item_name I x)"

definition name_tracer :: "'x items \<Rightarrow> ('x \<Rightarrow> 'x list) \<Rightarrow> ('x \<Rightarrow> 'x list) \<Rightarrow> 'x trace_result \<Rightarrow> ascii_node list \<times> link list" where
  "name_tracer I inputs outputs = traced_result_to_graph I inputs outputs (name_node I) (name_node I)"

section \<open>Layout\<close>

record 'c rendered_node =
  rn_id :: jstring
  rn_label :: "'c list"
  screen_x :: rat
  screen_y :: rat

record render_options =
  opt_width :: rat
  opt_height :: rat
  padding :: rat
  node_radius :: rat

text \<open>The positions are finite numbers.\<close>

definition project_value :: "rat \<Rightarrow> rat \<Rightarrow> rat \<Rightarrow> rat \<Rightarrow> rat \<Rightarrow> rat" where
  "project_value v lo hi extent pad =
     (if hi - lo < 1 / 1000000 then pad + extent / 2 else pad + (v - lo) / (hi - lo) * extent)"

definition compute_bounds :: "rat list \<Rightarrow> rat \<times> rat" where
  "compute_bounds xs = (foldr min (tl xs) (hd xs), foldr max (tl xs) (hd xs))"

text \<open>The nodes with the positions the simulation gave them, projected to the canvas.\<close>

definition layout_force_graph ::
    "render_options \<Rightarrow> (jstring \<Rightarrow> rat \<times> rat) \<Rightarrow> (jstring \<times> 'c list) list \<Rightarrow> 'c rendered_node list" where
  "layout_force_graph opts pos nodes =
     (let (min_x, max_x) = compute_bounds (map (\<lambda>n. fst (pos (fst n))) nodes);
          (min_y, max_y) = compute_bounds (map (\<lambda>n. snd (pos (fst n))) nodes);
          inner_width = max 2 (opt_width opts - padding opts * 2);
          inner_height = max 2 (opt_height opts - padding opts * 2)
      in map (\<lambda>n. \<lparr>rn_id = fst n, rn_label = snd n,
             screen_x = project_value (fst (pos (fst n))) min_x max_x inner_width (padding opts),
             screen_y = project_value (snd (pos (fst n))) min_y max_y inner_height (padding opts)\<rparr>) nodes)"

section \<open>Drawing\<close>

text \<open>
  The link force of the simulation replaces the ids of a link by the nodes and throws when there
  is none, as \<open>ensureNode\<close> does for an id; here the links keep their ids.
\<close>

datatype canvas_call = Stroke rat rat rat rat | FillRect rat rat rat rat

datatype draw_error = UnableToResolve jstring

definition ensure_node :: "jstring \<Rightarrow> 'c rendered_node list \<Rightarrow> draw_error + 'c rendered_node" where
  "ensure_node i nodes = (case find (\<lambda>n. rn_id n = i) nodes of None \<Rightarrow> Inl (UnableToResolve i) | Some n \<Rightarrow> Inr n)"

definition draw_link :: "'c rendered_node list \<Rightarrow> link \<Rightarrow> draw_error + canvas_call list" where
  "draw_link nodes link =
     (case ensure_node (fst link) nodes of
        Inl e \<Rightarrow> Inl e
      | Inr source \<Rightarrow>
          (case ensure_node (snd link) nodes of
             Inl e \<Rightarrow> Inl e
           | Inr target \<Rightarrow>
               (case (find (\<lambda>n. rn_id n = rn_id source) nodes, find (\<lambda>n. rn_id n = rn_id target) nodes) of
                  (Some a, Some b) \<Rightarrow> Inr [Stroke (screen_x a) (screen_y a) (screen_x b) (screen_y b)]
                | _ \<Rightarrow> Inr [])))"

fun draw_links :: "'c rendered_node list \<Rightarrow> link list \<Rightarrow> draw_error + canvas_call list" where
  "draw_links nodes [] = Inr []"
| "draw_links nodes (l # ls) =
     (case draw_link nodes l of
        Inl e \<Rightarrow> Inl e
      | Inr calls \<Rightarrow> (case draw_links nodes ls of Inl e \<Rightarrow> Inl e | Inr calls' \<Rightarrow> Inr (calls @ calls')))"

definition fill_node :: "rat \<Rightarrow> 'c rendered_node \<Rightarrow> canvas_call" where
  "fill_node radius n = FillRect (screen_x n - radius) (screen_y n - radius) (radius * 2 + 1) (radius * 2 + 1)"

section \<open>Labels\<close>

text \<open>A line is an array of one-character strings; writing past its end leaves empty strings.\<close>

definition array_set :: "nat \<Rightarrow> 'c list \<Rightarrow> 'c list list \<Rightarrow> 'c list list" where
  "array_set j s row = (if j < length row then row[j := s] else row @ replicate (j - length row) [] @ [s])"

fun split_lines :: "'c \<Rightarrow> 'c list \<Rightarrow> 'c list list" where
  "split_lines nl [] = [[]]"
| "split_lines nl (c # cs) = (if c = nl then [] # split_lines nl cs
     else (case split_lines nl cs of l # ls \<Rightarrow> (c # l) # ls | [] \<Rightarrow> [[c]]))"

fun join_lines :: "'c \<Rightarrow> 'c list list \<Rightarrow> 'c list" where
  "join_lines nl [] = []"
| "join_lines nl [l] = l"
| "join_lines nl (l # ls) = l @ nl # join_lines nl ls"

definition js_round :: "rat \<Rightarrow> int" where
  "js_round x = \<lfloor>x + 1 / 2\<rfloor>"

definition label_text :: "'c rendered_node \<Rightarrow> 'c list" where
  "label_text n = take 40 (rn_label n)"

definition label_col :: "nat \<Rightarrow> 'c rendered_node \<Rightarrow> nat" where
  "label_col char_width n = nat (max 0 (min (int char_width - int (length (label_text n))) (js_round (screen_x n / 2) + 2)))"

definition label_row :: "nat \<Rightarrow> 'c rendered_node \<Rightarrow> nat" where
  "label_row char_height n = nat (max 0 (min (int char_height - 1) (js_round (screen_y n / 4) + 1)))"

fun write_label :: "nat \<Rightarrow> nat \<Rightarrow> 'c list \<Rightarrow> 'c list list \<Rightarrow> 'c list list" where
  "write_label char_width col [] row = row"
| "write_label char_width col (c # cs) row =
     write_label char_width (Suc col) cs (if col < char_width then array_set col [c] row else row)"

definition overlay_label :: "nat \<Rightarrow> nat \<Rightarrow> 'c rendered_node \<Rightarrow> 'c list list list \<Rightarrow> 'c list list list" where
  "overlay_label char_width char_height n grid =
     (if label_text n = [] then grid
      else let row = label_row char_height n
           in grid[row := write_label char_width (label_col char_width n) (label_text n) (grid ! row)])"

definition overlay_labels :: "'c \<Rightarrow> 'c list \<Rightarrow> 'c rendered_node list \<Rightarrow> 'c list" where
  "overlay_labels nl frame nodes =
     (let lines = split_lines nl frame;
          lines = (if last lines = [] then butlast lines else lines);
          grid = map (map (\<lambda>c. [c])) lines;
          char_width = (case grid of [] \<Rightarrow> 0 | l # _ \<Rightarrow> length l);
          char_height = length grid
      in if char_width = 0 \<or> char_height = 0 then frame
         else join_lines nl (map concat (fold (overlay_label char_width char_height) nodes grid)))"

definition draw_ascii_force_graph ::
    "'c \<Rightarrow> (canvas_call list \<Rightarrow> 'c list) \<Rightarrow> render_options \<Rightarrow> 'c rendered_node list \<Rightarrow> link list \<Rightarrow> draw_error + 'c list" where
  "draw_ascii_force_graph nl canvas opts nodes links =
     (case draw_links nodes links of
        Inl e \<Rightarrow> Inl e
      | Inr calls \<Rightarrow> Inr (overlay_labels nl (canvas (calls @ map (fill_node (node_radius opts)) nodes)) nodes))"

text \<open>The renderer: \<open>None\<close> is a walk that does not end, an error becomes a line of text.\<close>

definition render_cell_graph ::
    "(char \<Rightarrow> 'c) \<Rightarrow> 'c \<Rightarrow> (canvas_call list \<Rightarrow> 'c list) \<Rightarrow> (jstring \<Rightarrow> rat \<times> rat) \<Rightarrow> 'x items \<Rightarrow> ('x \<Rightarrow> 'x list) \<Rightarrow> ('x \<Rightarrow> 'x list)
       \<Rightarrow> ('x \<Rightarrow> 'x list) \<Rightarrow> render_options \<Rightarrow> 'x \<Rightarrow> (draw_error + 'c list) option" where
  "render_cell_graph emb nl canvas pos I downstream inputs outputs opts cell =
     (case trace_cell_safe I downstream cell of
        None \<Rightarrow> None
      | Some r \<Rightarrow>
          let (nodes, links) = name_tracer I inputs outputs r;
              layout = layout_force_graph opts pos (map (\<lambda>(i, l). (i, map emb l)) nodes)
          in Some (draw_ascii_force_graph nl canvas opts layout links))"

section \<open>The frame\<close>

lemma split_lines_no_nl: "nl \<notin> set l \<Longrightarrow> split_lines nl l = [l]"
  by (induction l) auto

lemma split_lines_append: "nl \<notin> set l \<Longrightarrow> split_lines nl (l @ nl # cs) = l # split_lines nl cs"
  by (induction l) auto

lemma split_join_lines: "ls \<noteq> [] \<Longrightarrow> \<forall>l \<in> set ls. nl \<notin> set l \<Longrightarrow> split_lines nl (join_lines nl ls) = ls"
  by (induction nl ls rule: join_lines.induct) (auto simp: split_lines_no_nl split_lines_append)

lemma write_label_row:
  "length row = w \<Longrightarrow> write_label w col cs row =
     map (\<lambda>j. if col \<le> j \<and> j < col + length cs then [cs ! (j - col)] else row ! j) [0..<w]"
proof (induction cs arbitrary: col row)
  case Nil
  then show ?case by (intro nth_equalityI) auto
next
  case (Cons c cs)
  let ?row = "if col < w then array_set col [c] row else row"
  have l: "length ?row = w" using Cons.prems by (simp add: array_set_def)
  have "(if Suc col \<le> j \<and> j < Suc col + length cs then [cs ! (j - Suc col)] else ?row ! j)
    = (if col \<le> j \<and> j < col + length (c # cs) then [(c # cs) ! (j - col)] else row ! j)" if "j < w" for j
    using that Cons.prems by (auto simp: array_set_def nth_Cons' nth_list_update)
  then show ?case using Cons.IH [OF l] by simp
qed

text \<open>The character of a cell: of the last node whose label covers it, or of the drawing.\<close>

definition covers :: "nat \<Rightarrow> nat \<Rightarrow> nat \<Rightarrow> nat \<Rightarrow> 'c rendered_node \<Rightarrow> bool" where
  "covers w h r c n \<longleftrightarrow> label_text n \<noteq> [] \<and> r = label_row h n \<and> label_col w n \<le> c \<and> c < label_col w n + length (label_text n)"

definition cell_char :: "'c rendered_node list \<Rightarrow> 'c list list \<Rightarrow> nat \<Rightarrow> nat \<Rightarrow> nat \<Rightarrow> nat \<Rightarrow> 'c" where
  "cell_char nodes rows w h r c =
     (case find (covers w h r c) (rev nodes) of
        None \<Rightarrow> rows ! r ! c
      | Some n \<Rightarrow> label_text n ! (c - label_col w n))"

definition char_grid :: "'c rendered_node list \<Rightarrow> 'c list list \<Rightarrow> nat \<Rightarrow> nat \<Rightarrow> 'c list list" where
  "char_grid nodes rows w h = map (\<lambda>r. map (cell_char nodes rows w h r) [0..<w]) [0..<h]"

lemma overlay_grid:
  assumes "length rows = h" and "\<forall>l \<in> set rows. length l = w" and "0 < h"
  shows "fold (overlay_label w h) nodes (map (map (\<lambda>c. [c])) rows) = map (map (\<lambda>c. [c])) (char_grid nodes rows w h)"
proof (induction nodes rule: rev_induct)
  case Nil
  have "char_grid [] rows w h = rows"
    using assms by (auto simp: char_grid_def cell_char_def intro!: nth_equalityI)
  then show ?case by simp
next
  case (snoc n nodes)
  let ?g = "map (map (\<lambda>c. [c])) (char_grid nodes rows w h)"
  have row: "label_row h n < h" using assms(3) by (auto simp: label_row_def nat_less_iff)
  have "overlay_label w h n ?g = map (map (\<lambda>c. [c])) (char_grid (nodes @ [n]) rows w h)"
  proof (cases "label_text n = []")
    case True
    then have "cell_char (nodes @ [n]) rows w h r c = cell_char nodes rows w h r c" for r c
      by (simp add: cell_char_def covers_def)
    then have "cell_char (nodes @ [n]) rows w h r = cell_char nodes rows w h r" for r by (simp add: fun_eq_iff)
    then show ?thesis using True by (simp add: overlay_label_def char_grid_def)
  next
    case False
    have c: "cell_char (nodes @ [n]) rows w h r c =
        (if r = label_row h n \<and> label_col w n \<le> c \<and> c < label_col w n + length (label_text n)
         then label_text n ! (c - label_col w n) else cell_char nodes rows w h r c)" for r c
      using False by (simp add: cell_char_def covers_def)
    show ?thesis
    proof (rule nth_equalityI)
      fix r assume "r < length (overlay_label w h n ?g)"
      then have r: "r < h" using False by (simp add: overlay_label_def char_grid_def Let_def)
      show "overlay_label w h n ?g ! r = map (map (\<lambda>c. [c])) (char_grid (nodes @ [n]) rows w h) ! r"
        using r row False by (auto simp: overlay_label_def Let_def char_grid_def write_label_row nth_list_update c)
    qed (use False in \<open>simp add: overlay_label_def char_grid_def Let_def\<close>)
  qed
  then show ?case by (simp add: snoc.IH)
qed

text \<open>
  C16: Writing the labels over a rectangular frame, with or without a line break at its end, leaves
  a frame of the same size: each of its characters is that of the last node whose label covers it
  and else that of the drawing. A label starts and ends inside the frame when it is not longer
  than a line, however far outside the node lies.
\<close>

theorem overlay_labels_exact:
  assumes "rows \<noteq> []" and "\<forall>l \<in> set rows. length l = w \<and> nl \<notin> set l" and "0 < w"
    and "frame = join_lines nl rows \<or> frame = join_lines nl (rows @ [[]])"
  shows "overlay_labels nl frame nodes = join_lines nl (char_grid nodes rows w (length rows))
    \<and> (\<forall>n \<in> set nodes. label_row (length rows) n < length rows
         \<and> (length (label_text n) \<le> w \<longrightarrow> label_col w n + length (label_text n) \<le> w))"
proof
  have "last rows \<noteq> []" using assms(1-3) last_in_set by fastforce
  then have lines: "(if last (split_lines nl frame) = [] then butlast (split_lines nl frame) else split_lines nl frame) = rows"
    using assms(4) split_join_lines [of rows nl] split_join_lines [of "rows @ [[]]" nl] assms(1,2) by auto
  obtain l ls where rows: "rows = l # ls" using assms(1) by (cases rows) auto
  have "map concat (map (map (\<lambda>c. [c])) (char_grid nodes rows w (length rows))) = char_grid nodes rows w (length rows)"
    by (simp add: char_grid_def comp_def)
  then show "overlay_labels nl frame nodes = join_lines nl (char_grid nodes rows w (length rows))"
    using overlay_grid [of rows "length rows" w nodes] assms(1-3) rows
    by (simp add: overlay_labels_def lines Let_def del: map_map)
  show "\<forall>n \<in> set nodes. label_row (length rows) n < length rows
         \<and> (length (label_text n) \<le> w \<longrightarrow> label_col w n + length (label_text n) \<le> w)"
    using rows by (auto simp: label_row_def label_col_def nat_less_iff)
qed

lemma sample_frame_witness_rows: "\<forall>l \<in> set [''.....'', ''.....'']. length l = 5 \<and> CHR ''~'' \<notin> set l"
  by simp

theorem overlay_labels_exact_witness:
  "overlay_labels CHR ''~'' ''.....~.....~'' [\<lparr>rn_id = ''a'', rn_label = ''abc'', screen_x = 0, screen_y = 0\<rparr>,
     \<lparr>rn_id = ''b'', rn_label = ''xy'', screen_x = 500, screen_y = -3\<rparr>] = ''...xy~..abc''"
proof -
  have f: "''.....~.....~'' = join_lines CHR ''~'' [''.....'', ''.....''] \<or> ''.....~.....~'' = join_lines CHR ''~'' ([''.....'', ''.....''] @ [[]])"
    by simp
  have "join_lines CHR ''~'' (char_grid [\<lparr>rn_id = ''a'', rn_label = ''abc'', screen_x = 0, screen_y = 0\<rparr>,
     \<lparr>rn_id = ''b'', rn_label = ''xy'', screen_x = 500, screen_y = -3\<rparr>] [''.....'', ''.....''] 5 (length [''.....'', ''.....''])) = ''...xy~..abc''"
    by code_simp
  then show ?thesis
    using overlay_labels_exact [OF _ sample_frame_witness_rows _ f] by simp
qed

section \<open>The picture of a network\<close>

definition collected :: "'x items \<Rightarrow> 'x list \<Rightarrow> jstring list \<times> 'x trace_result" where
  "collected I xs =
     (map (get_id I) xs, \<lparr>tr_cells = map (\<lambda>x. (get_id I x, x)) (filter (is_cell I) xs),
        tr_propagators = map (\<lambda>x. (get_id I x, x)) (filter (\<lambda>x. \<not> is_cell I x \<and> is_propagator I x) xs)\<rparr>)"

lemma update_new: "k \<notin> fst ` set m \<Longrightarrow> AList.update k v m = m @ [(k, v)]"
  by (induction m) auto

lemma visit_collected:
  "get_id I x \<notin> get_id I ` set xs \<Longrightarrow> visit_item I x (collected I xs) = collected I (xs @ [x])"
  by (subgoal_tac "get_id I x \<notin> fst ` set (map (\<lambda>x. (get_id I x, x)) (filter P xs))" for P)
    (auto simp: visit_item_def collected_def update_new image_iff)

lemma trace_loop_visits:
  assumes fin: "finite N" and closed: "\<And>x. x \<in> N \<Longrightarrow> set (downstream x) \<subseteq> N" and inj: "inj_on (get_id I) N"
  shows "set queue \<subseteq> N \<Longrightarrow> set xs \<subseteq> N \<Longrightarrow> distinct xs \<Longrightarrow> (\<forall>x \<in> set xs. set (downstream x) \<subseteq> set xs \<union> set queue)
    \<Longrightarrow> \<exists>ys. trace_loop I downstream queue (collected I xs) = Some (collected I ys) \<and> distinct ys \<and> set ys \<subseteq> N
         \<and> set xs \<union> set queue \<subseteq> set ys \<and> (\<forall>y \<in> set ys. set (downstream y) \<subseteq> set ys)
         \<and> set ys \<subseteq> set xs \<union> (walk_rel downstream)\<^sup>* `` set queue"
proof (induction "card (N - set xs)" arbitrary: xs queue rule: less_induct)
  case less
  show ?case using less.prems
  proof (induction queue)
    case Nil
    then show ?case by auto
  next
    case (Cons x q)
    have iff: "get_id I y \<in> get_id I ` set xs \<longleftrightarrow> y \<in> set xs" if "y \<in> N" for y
      using that inj Cons.prems(2) by (auto dest: inj_onD)
    show ?case
    proof (cases "x \<in> set xs")
      case True
      then have "\<forall>y \<in> set xs. set (downstream y) \<subseteq> set xs \<union> set q" using Cons.prems(4) by auto
      then obtain ys where "trace_loop I downstream q (collected I xs) = Some (collected I ys) \<and> distinct ys \<and> set ys \<subseteq> N
         \<and> set xs \<union> set q \<subseteq> set ys \<and> (\<forall>y \<in> set ys. set (downstream y) \<subseteq> set ys)
         \<and> set ys \<subseteq> set xs \<union> (walk_rel downstream)\<^sup>* `` set q"
        using Cons.IH Cons.prems by auto
      then show ?thesis using True by (intro exI [of _ ys]) (auto simp: collected_def)
    next
      case False
      let ?xs = "xs @ [x]"
      let ?new = "filter (\<lambda>c. get_id I c \<notin> set (fst (collected I ?xs))) (downstream x)"
      have x: "x \<in> N" using Cons.prems by simp
      have new: "set ?new = set (downstream x) - set ?xs"
        using closed [OF x] inj Cons.prems(2) x by (auto simp: collected_def dest: inj_onD)
      have "card (N - set ?xs) < card (N - set xs)"
        using fin x False by (intro psubset_card_mono) auto
      moreover have "set (q @ ?new) \<subseteq> N" using closed [OF x] Cons.prems by auto
      moreover have "\<forall>y \<in> set ?xs. set (downstream y) \<subseteq> set ?xs \<union> set (q @ ?new)"
        using Cons.prems(4) new by auto
      ultimately obtain ys where ys: "trace_loop I downstream (q @ ?new) (collected I ?xs) = Some (collected I ys)" "distinct ys" "set ys \<subseteq> N"
         "set ?xs \<union> set (q @ ?new) \<subseteq> set ys" "\<forall>y \<in> set ys. set (downstream y) \<subseteq> set ys"
         "set ys \<subseteq> set ?xs \<union> (walk_rel downstream)\<^sup>* `` set (q @ ?new)"
        using less.hyps [of ?xs "q @ ?new"] Cons.prems False x by auto
      have "trace_loop I downstream (x # q) (collected I xs) = Some (collected I ys)"
        using ys(1) visit_collected [of I x xs] iff [OF x] False by (simp add: collected_def [of I xs])
      moreover have "set ys \<subseteq> set xs \<union> (walk_rel downstream)\<^sup>* `` set (x # q)"
      proof -
        have "(walk_rel downstream)\<^sup>* `` set ?new \<subseteq> (walk_rel downstream)\<^sup>* `` {x}"
          by (auto simp: walk_rel_def intro: converse_rtrancl_into_rtrancl)
        moreover have "Y \<subseteq> (X \<union> {x}) \<union> C \<Longrightarrow> C = D \<union> E \<Longrightarrow> E \<subseteq> F \<Longrightarrow> x \<in> F \<Longrightarrow> Y \<subseteq> X \<union> (F \<union> D)" for Y X C D E F by blast
        moreover have "(walk_rel downstream)\<^sup>* `` set (q @ ?new) = (walk_rel downstream)\<^sup>* `` set q \<union> (walk_rel downstream)\<^sup>* `` set ?new"
          by (simp only: set_append Image_Un)
        moreover have "(walk_rel downstream)\<^sup>* `` set (x # q) = (walk_rel downstream)\<^sup>* `` {x} \<union> (walk_rel downstream)\<^sup>* `` set q" by auto
        moreover have "x \<in> (walk_rel downstream)\<^sup>* `` {x}" by auto
        moreover have "set ?xs = set xs \<union> {x}" by simp
        ultimately show ?thesis using ys(6) by metis
      qed
      moreover have "set xs \<union> set (x # q) \<subseteq> set ys" using ys(4) by simp
      ultimately show ?thesis using ys(2,3,5) by blast
    qed
  qed
qed

lemma trace_cell_exact:
  assumes "finite N" and "cell \<in> N" and "\<And>x. x \<in> N \<Longrightarrow> set (downstream x) \<subseteq> N" and "inj_on (get_id I) N"
  obtains ys where "trace_cell_safe I downstream cell = Some (snd (collected I ys))" "distinct ys"
    "set ys = (walk_rel downstream)\<^sup>* `` {cell}" "set ys \<subseteq> N"
proof -
  obtain ys where ys: "trace_loop I downstream [cell] (collected I []) = Some (collected I ys)" "distinct ys" "set ys \<subseteq> N"
    "cell \<in> set ys" "\<forall>y \<in> set ys. set (downstream y) \<subseteq> set ys" "set ys \<subseteq> (walk_rel downstream)\<^sup>* `` {cell}"
    using trace_loop_visits [of N downstream I "[cell]" "[]"] assms by auto
  have "y \<in> set ys" if "(cell, y) \<in> (walk_rel downstream)\<^sup>*" for y
    using that by (induction rule: rtrancl_induct) (use ys(4,5) in \<open>auto simp: walk_rel_def\<close>)
  then have "set ys = (walk_rel downstream)\<^sup>* `` {cell}" using ys(6) by auto
  then show thesis
    using that ys(1-3) by (simp add: trace_cell_safe_def trace_start_def collected_def)
qed

definition shown :: "'x items \<Rightarrow> 'x \<Rightarrow> bool" where
  "shown I x \<longleftrightarrow> is_cell I x \<or> is_propagator I x"

lemma name_tracer_collected:
  assumes "name_tracer I inputs outputs (snd (collected I ys)) = (nodes, links)"
  shows "map fst nodes = map (get_id I) (filter (is_cell I) ys @ filter (\<lambda>x. \<not> is_cell I x \<and> is_propagator I x) ys)"
    and "set links = {(s, t). (\<exists>p \<in> set ys. \<not> is_cell I p \<and> is_propagator I p \<and> (s, t) \<in> set (propagator_to_links I inputs outputs p))
           \<and> s \<in> get_id I ` {x \<in> set ys. shown I x} \<and> t \<in> get_id I ` {x \<in> set ys. shown I x}}"
proof -
  have ids: "fst ` set (map (name_node I) (filter (is_cell I) ys) @ map (name_node I) (filter (\<lambda>x. \<not> is_cell I x \<and> is_propagator I x) ys))
      = get_id I ` {x \<in> set ys. shown I x}"
    by (auto simp: name_node_def shown_def image_Un image_image)
  show "map fst nodes = map (get_id I) (filter (is_cell I) ys @ filter (\<lambda>x. \<not> is_cell I x \<and> is_propagator I x) ys)"
    using assms by (auto simp: name_tracer_def traced_result_to_graph_def collected_def name_node_def Let_def comp_def)
  show "set links = {(s, t). (\<exists>p \<in> set ys. \<not> is_cell I p \<and> is_propagator I p \<and> (s, t) \<in> set (propagator_to_links I inputs outputs p))
           \<and> s \<in> get_id I ` {x \<in> set ys. shown I x} \<and> t \<in> get_id I ` {x \<in> set ys. shown I x}}"
    using assms ids by (fastforce simp: name_tracer_def traced_result_to_graph_def collected_def Let_def comp_def)
qed

lemma draw_links_found:
  "\<forall>(s, t) \<in> set links. s \<in> rn_id ` set nodes \<and> t \<in> rn_id ` set nodes \<Longrightarrow> \<exists>calls. draw_links nodes links = Inr calls \<and> length calls = length links"
proof (induction links)
  case (Cons l ls)
  have found: "\<exists>n. find (\<lambda>n. rn_id n = i) nodes = Some n \<and> rn_id n = i" if "i \<in> rn_id ` set nodes" for i
    using that by (induction nodes) auto
  have "fst l \<in> rn_id ` set nodes" "snd l \<in> rn_id ` set nodes" using Cons.prems by (auto simp: case_prod_unfold)
  then obtain a b where "find (\<lambda>n. rn_id n = fst l) nodes = Some a" "rn_id a = fst l" "find (\<lambda>n. rn_id n = snd l) nodes = Some b" "rn_id b = snd l"
    using found by blast
  then have "draw_link nodes l = Inr [Stroke (screen_x a) (screen_y a) (screen_x b) (screen_y b)]"
    by (simp add: draw_link_def ensure_node_def)
  moreover obtain calls where "draw_links nodes ls = Inr calls" "length calls = length ls" using Cons by auto
  ultimately show ?case by simp
qed simp

definition reached_items :: "'x items \<Rightarrow> ('x \<Rightarrow> 'x list) \<Rightarrow> 'x \<Rightarrow> 'x set" where
  "reached_items I downstream cell = {x \<in> (walk_rel downstream)\<^sup>* `` {cell}. shown I x}"

lemma propagator_links_iff:
  "(s, t) \<in> set (propagator_to_links I inputs outputs p) \<longleftrightarrow>
     (\<exists>c \<in> set (inputs p). s = get_id I c \<and> t = get_id I p) \<or> (\<exists>c \<in> set (outputs p). s = get_id I p \<and> t = get_id I c)"
  by (auto simp: propagator_to_links_def)

lemma render_cell_graph_links:
  assumes "finite N" and "cell \<in> N" and "\<And>x. x \<in> N \<Longrightarrow> set (downstream x) \<subseteq> N" and "inj_on (get_id I) N"
  shows "\<exists>r nodes links. trace_cell_safe I downstream cell = Some r \<and> name_tracer I inputs outputs r = (nodes, links)
    \<and> distinct (map fst nodes) \<and> fst ` set nodes = get_id I ` reached_items I downstream cell
    \<and> set links = {(s, t). (\<exists>p \<in> reached_items I downstream cell. \<not> is_cell I p \<and> (s, t) \<in> set (propagator_to_links I inputs outputs p))
         \<and> s \<in> get_id I ` reached_items I downstream cell \<and> t \<in> get_id I ` reached_items I downstream cell}
    \<and> (\<exists>frame. render_cell_graph emb nl canvas pos I downstream inputs outputs opts cell = Some (Inr frame))"
proof -
  let ?R = "reached_items I downstream cell"
  obtain ys where ys: "trace_cell_safe I downstream cell = Some (snd (collected I ys))" "distinct ys"
    "set ys = (walk_rel downstream)\<^sup>* `` {cell}" "set ys \<subseteq> N" by (rule trace_cell_exact [OF assms])
  have R: "?R = {x \<in> set ys. shown I x}" by (simp add: reached_items_def ys(3))
  obtain nodes links where g: "name_tracer I inputs outputs (snd (collected I ys)) = (nodes, links)" by force
  note ids = name_tracer_collected(1) [OF g]
  have "distinct (map fst nodes)"
    unfolding ids distinct_map using ys(2,4) assms(4) by (auto intro: inj_on_subset)
  moreover have nodes: "fst ` set nodes = get_id I ` ?R"
    using arg_cong [OF ids, of set] by (auto simp: R shown_def)
  moreover have links: "set links = {(s, t). (\<exists>p \<in> ?R. \<not> is_cell I p \<and> (s, t) \<in> set (propagator_to_links I inputs outputs p))
         \<and> s \<in> get_id I ` ?R \<and> t \<in> get_id I ` ?R}"
    using name_tracer_collected(2) [OF g] by (auto simp: R shown_def)
  moreover have "\<exists>frame. render_cell_graph emb nl canvas pos I downstream inputs outputs opts cell = Some (Inr frame)"
  proof -
    let ?layout = "layout_force_graph opts pos (map (\<lambda>(i, l). (i, map emb l)) nodes)"
    have "rn_id ` set ?layout = fst ` set nodes"
      by (force simp: layout_force_graph_def Let_def case_prod_unfold)
    then have "\<exists>calls. draw_links ?layout links = Inr calls \<and> length calls = length links"
      by (intro draw_links_found) (auto simp: links nodes)
    then show ?thesis using ys(1) g by (auto simp: render_cell_graph_def draw_ascii_force_graph_def Let_def)
  qed
  ultimately show ?thesis using ys(1) g by blast
qed

text \<open>
  C15: On a finite network whose items have different ids, the walk from a cell ends, the picture
  has one node for every cell and propagator reachable from it and exactly the links of the reached
  propagators whose other end was reached, and drawing it finds the ends of every link, so that the
  rendering returns a frame and not an error.
\<close>

theorem render_cell_graph_exact:
  assumes "finite N" and "cell \<in> N" and "\<And>x. x \<in> N \<Longrightarrow> set (downstream x) \<subseteq> N" and "inj_on (get_id I) N"
  shows "\<exists>r nodes links. trace_cell_safe I downstream cell = Some r \<and> name_tracer I inputs outputs r = (nodes, links)
    \<and> distinct (map fst nodes) \<and> fst ` set nodes = get_id I ` reached_items I downstream cell
    \<and> set links = {(s, t). (\<exists>p \<in> reached_items I downstream cell. \<not> is_cell I p \<and> ((\<exists>c \<in> set (inputs p). s = get_id I c \<and> t = get_id I p) \<or> (\<exists>c \<in> set (outputs p). s = get_id I p \<and> t = get_id I c)))
         \<and> s \<in> get_id I ` reached_items I downstream cell \<and> t \<in> get_id I ` reached_items I downstream cell}
    \<and> (\<exists>frame. render_cell_graph emb nl canvas pos I downstream inputs outputs opts cell = Some (Inr frame))"
  using render_cell_graph_links [OF assms] unfolding propagator_links_iff .

definition sample_inputs :: "nat \<Rightarrow> nat list" where
  "sample_inputs p = [p - 1, p + 3]"

definition sample_outputs :: "nat \<Rightarrow> nat list" where
  "sample_outputs p = [p + 1]"

theorem render_cell_graph_exact_witness:
  "\<exists>r nodes links. trace_cell_safe sample_items sample_walk 0 = Some r \<and> name_tracer sample_items sample_inputs sample_outputs r = (nodes, links)
     \<and> fst ` set nodes = {[], ''i'', ''ii''} \<and> (''i'', ''ii'') \<in> set links \<and> (''iiii'', ''i'') \<notin> set links"
proof -
  have d: "\<And>x. x \<in> {0, 1, 2} \<Longrightarrow> set (sample_walk x) \<subseteq> {0, 1, 2}" by (auto simp: sample_walk_def)
  have inj: "inj_on (get_id sample_items) {0, 1, 2}" by (simp add: inj_on_def sample_items_def numeral_2_eq_2)
  have R: "reached_items sample_items sample_walk 0 = {0, 1, 2}"
    unfolding reached_items_def sample_reachable by (auto simp: shown_def sample_items_def)
  obtain r nodes links where g: "trace_cell_safe sample_items sample_walk 0 = Some r"
      "name_tracer sample_items sample_inputs sample_outputs r = (nodes, links)" "fst ` set nodes = get_id sample_items ` {0, 1, 2}"
    and l: "set links = {(s, t). (\<exists>p \<in> {0, 1, 2}. \<not> is_cell sample_items p
         \<and> ((\<exists>c \<in> set (sample_inputs p). s = get_id sample_items c \<and> t = get_id sample_items p)
           \<or> (\<exists>c \<in> set (sample_outputs p). s = get_id sample_items p \<and> t = get_id sample_items c)))
         \<and> s \<in> get_id sample_items ` {0, 1, 2} \<and> t \<in> get_id sample_items ` {0, 1, 2}}"
    using render_cell_graph_exact [where ?N = "{0, 1, 2}" and I = sample_items and downstream = sample_walk and cell = 0 and inputs = sample_inputs and outputs = sample_outputs
        and emb = id and nl = "CHR ''~''" and canvas = "\<lambda>_. []" and pos = "\<lambda>_. (0, 0)"
        and opts = "\<lparr>opt_width = 200, opt_height = 400, padding = 6, node_radius = 1\<rparr>", OF _ insertI1 d inj, unfolded R]
    by (elim exE conjE meta_impE) simp_all
  have ids: "get_id sample_items ` {0, 1, 2} = {[], ''i'', ''ii''}" by (simp add: sample_items_def numeral_2_eq_2)
  have "(''i'', ''ii'') \<in> set links"
    unfolding l ids mem_Collect_eq prod.case
    by (intro conjI bexI [of _ 1]) (simp_all add: sample_items_def sample_outputs_def numeral_eq_Suc)
  moreover have "(''iiii'', ''i'') \<notin> set links" unfolding l ids by simp
  ultimately show ?thesis using g unfolding ids by blast
qed

text \<open>The projected nodes lie within the padded canvas.\<close>

lemma project_value_bounds:
  assumes "lo \<le> v" and "v \<le> hi" and "0 \<le> extent"
  shows "pad \<le> project_value v lo hi extent pad \<and> project_value v lo hi extent pad \<le> pad + extent"
proof (cases "hi - lo < 1 / 1000000")
  case True
  then show ?thesis using assms by (simp add: project_value_def)
next
  case False
  then have "0 < hi - lo" by linarith
  then have q: "0 \<le> (v - lo) / (hi - lo)" "(v - lo) / (hi - lo) \<le> 1" using assms by auto
  then have "0 \<le> (v - lo) / (hi - lo) * extent" "(v - lo) / (hi - lo) * extent \<le> extent"
    using assms(3) mult_left_le_one_le [OF assms(3) q] by (simp_all only: mult_nonneg_nonneg mult.commute)
  then show ?thesis using False unfolding project_value_def by simp
qed

end
