(* ===== verification/Gun_Cell.thy ===== *)
theory Gun_Cell
  imports Js_Value "HOL-Library.Multiset"
begin

text \<open>
  Cells kept in the GUN database: \<open>src/DB/serialize/gun_cell.ts\<close>, and the states of
  \<open>src/DB/serialize/gun_state.ts\<close>.
  A cell holds snapshots of its nodes. Its listeners get data of the database and wait for the
  decoding, so that every delivery is a task per listener, and tasks end in any order, also after
  the cell was disposed. The database, the decoding and the propagator library are packages: a
  record of their answers, and a log of what is written. Neighbours are kinds of interest with a
  propagator.
\<close>

section \<open>States of the database\<close>

text \<open>A state is the root or a state below another one; a node is a path of keys.\<close>

datatype gun_state = RootState | StateNode gun_state jstring "jstring list"

definition root_name :: jstring where
  "root_name = ''root''"

fun state_name :: "gun_state \<Rightarrow> jstring" where
  "state_name RootState = root_name"
| "state_name (StateNode parent name path) = name"

fun state_node :: "gun_state \<Rightarrow> jstring list" where
  "state_node RootState = []"
| "state_node (StateNode parent name path) = path"

fun state_parent :: "gun_state \<Rightarrow> gun_state option" where
  "state_parent RootState = None"
| "state_parent (StateNode parent name path) = Some parent"

definition initialized_marker :: jsval where
  "initialized_marker = JObj [(''_gun_state_initialized'', JBool True)]"

type_synonym puts = "(jstring list \<times> jsval) list"

text \<open>The loop over the ancestors, from the parent of the parent upwards.\<close>

fun put_ancestors :: "gun_state \<Rightarrow> puts" where
  "put_ancestors RootState = []"
| "put_ancestors (StateNode parent name path) =
     (if name = root_name then [] else (path, initialized_marker) # put_ancestors parent)"

definition make_gun_state :: "gun_state \<Rightarrow> jstring \<Rightarrow> jsval option \<Rightarrow> gun_state \<times> puts" where
  "make_gun_state parent name initial =
     (let init = (\<lambda>path. case initial of None \<Rightarrow> [] | Some v \<Rightarrow> [(path, v)])
      in if state_name parent = root_name then (StateNode parent name [name], init [name])
         else
           let path = state_node parent @ [name];
               ancestors = (case state_parent parent of None \<Rightarrow> [] | Some p \<Rightarrow> put_ancestors p)
           in (StateNode parent name path, (state_node parent, initialized_marker) # ancestors @ init path))"

text \<open>The test for a state asks for a member \<open>put\<close>, which no state has.\<close>

definition state_members :: "jstring list" where
  "state_members = [''gun'', ''parent'', ''name'', ''update'', ''on'', ''set'', ''getNode'']"

definition is_gun_state :: "jstring list \<Rightarrow> bool" where
  "is_gun_state members \<longleftrightarrow> set [''gun'', ''parent'', ''name'', ''update'', ''on'', ''put'', ''set'', ''getNode''] \<subseteq> set members"

lemma no_state_passes: "\<not> is_gun_state state_members"
  by (simp add: is_gun_state_def state_members_def)

fun chain_state :: "jstring list \<Rightarrow> gun_state" where
  "chain_state [] = RootState"
| "chain_state (name # upper) = fst (make_gun_state (chain_state upper) name None)"

lemma chain_state_name: "state_name (chain_state ns) = (case ns of [] \<Rightarrow> root_name | n # _ \<Rightarrow> n)"
  by (cases ns) (auto simp: make_gun_state_def Let_def)

text \<open>
  A state below others has the path of their names, and making one writes a marker to every node
  above it before its own node is taken; a state with the name of the root breaks the path.
\<close>

lemma chain_state_path:
  "root_name \<notin> set upper \<Longrightarrow> state_node (chain_state upper) = rev upper
     \<and> put_ancestors (chain_state upper) = map (\<lambda>k. (rev (drop k upper), initialized_marker)) [0..<length upper]"
proof (induction upper)
  case (Cons n upper)
  have s: "chain_state (n # upper) = StateNode (chain_state upper) n (rev (n # upper))"
    using Cons by (cases upper) (auto simp: make_gun_state_def Let_def chain_state_name)
  have "put_ancestors (chain_state (n # upper)) = (rev (n # upper), initialized_marker) # put_ancestors (chain_state upper)"
    unfolding s using Cons.prems by auto
  also have "\<dots> = map (\<lambda>k. (rev (drop k (n # upper)), initialized_marker)) [0..<length (n # upper)]"
    using Cons by (simp add: upt_rec [of 0 "Suc (length upper)"] map_Suc_upt [symmetric] comp_def del: upt_Suc)
  finally show ?case using s by simp
qed simp

lemma make_state_puts:
  assumes "root_name \<notin> set upper" and "upper \<noteq> []"
  shows "make_gun_state (chain_state upper) name initial =
    (StateNode (chain_state upper) name (rev upper @ [name]),
     map (\<lambda>k. (rev (drop k upper), initialized_marker)) [0..<length upper]
       @ (case initial of None \<Rightarrow> [] | Some v \<Rightarrow> [(rev upper @ [name], v)]))"
proof -
  obtain n ns where upper: "upper = n # ns" using assms(2) by (cases upper) auto
  have "state_parent (chain_state upper) = Some (chain_state ns)" by (simp add: upper make_gun_state_def Let_def)
  moreover have "(rev upper, initialized_marker) # put_ancestors (chain_state ns)
      = map (\<lambda>k. (rev (drop k upper), initialized_marker)) [0..<length upper]"
    using chain_state_path [of ns] assms
    by (simp add: upper upt_rec [of 0 "Suc (length ns)"] map_Suc_upt [symmetric] comp_def del: upt_Suc)
  moreover have "state_name (chain_state upper) \<noteq> root_name" using assms unfolding chain_state_name by (auto simp: upper)
  ultimately show ?thesis
    using chain_state_path [OF assms(1)] by (simp add: make_gun_state_def Let_def flip: append_Cons)
qed

lemma root_named_state: "state_node (chain_state [''content'', ''root'', ''c1'']) = [''content'']"
  by code_simp

section \<open>The cell\<close>

type_synonym 'p neighbor = "jstring list \<times> 'p"

record ('v, 'p) gun_library =
  the_nothing :: 'v
  is_nothing :: "'v \<Rightarrow> bool"
  strongest_value :: "'v list \<Rightarrow> 'v"
  is_equal :: "'v \<Rightarrow> 'v \<Rightarrow> bool"
  is_contradiction :: "'v \<Rightarrow> bool"
  encode :: "'v \<Rightarrow> jsval"
  decode :: "jsval \<Rightarrow> 'v option"
  encode_neighbor :: "'p neighbor \<Rightarrow> jsval"
  decode_neighbor :: "jsval \<Rightarrow> 'p neighbor option option"
  propagator_id :: "'p \<Rightarrow> jstring"

text \<open>
  \<open>decode\<close> may throw (\<open>None\<close>), and a decoded neighbour may be nothing (\<open>Some None\<close>). What the cell
  does outside: writes to its nodes, alerts of propagators, the report of a contradiction.
\<close>

datatype 'p effect =
    PutStrongest jsval
  | SetContent jsval
  | SetNeighbor jsval
  | Alert 'p
  | HandleContradiction
  | LogError

text \<open>The listeners of the cell, and the tasks that wait for a decoding.\<close>

datatype listener = StrongestListener bool | ContentListener | NeighborsListener | ComputationListener

datatype ('v, 'p) task =
    StrongestTask "'v option"
  | ContentTask "'v option"
  | ComputationTask "'v option"
  | NeighborTask "'p neighbor option option"
  | InitialNeighbors "(jstring, 'p neighbor) jmap"

record ('v, 'p) gun_cell =
  strongest :: 'v
  content :: "'v list option"
  neighbors :: "(jstring, 'p neighbor) jmap"
  local_neighbors :: "(jstring, 'p neighbor) jmap"
  use_local :: bool
  active :: bool
  listeners :: "listener list"
  tasks :: "('v, 'p) task list"
  effects :: "'p effect list"

definition updated_kind :: jstring where
  "updated_kind = ''updated''"

definition resolve_and_alert_interested_propagators :: "jstring \<Rightarrow> (jstring, 'p neighbor) jmap \<Rightarrow> 'p effect list" where
  "resolve_and_alert_interested_propagators kind ns =
     map (\<lambda>n. Alert (snd (snd n))) (filter (\<lambda>n. kind \<in> set (fst (snd n))) ns)"

definition emit :: "'p effect list \<Rightarrow> ('v, 'p) gun_cell \<Rightarrow> ('v, 'p) gun_cell" where
  "emit es c = c\<lparr>effects := effects c @ es\<rparr>"

definition set_strongest :: "('v, 'p) gun_library \<Rightarrow> 'v \<Rightarrow> ('v, 'p) gun_cell \<Rightarrow> ('v, 'p) gun_cell" where
  "set_strongest L v c =
     emit (PutStrongest (encode L v) # resolve_and_alert_interested_propagators updated_kind (neighbors c)) (c\<lparr>strongest := v\<rparr>)"

definition js_truthy :: "jsval \<Rightarrow> bool" where
  "js_truthy v = (case v of JUndef \<Rightarrow> False | JNull \<Rightarrow> False | JBool b \<Rightarrow> b | JNum n \<Rightarrow> n \<noteq> NaN \<and> n \<noteq> NegZero \<and> n \<noteq> Dec 0 0
     | JStr s \<Rightarrow> s \<noteq> [] | _ \<Rightarrow> True)"

definition is_marker :: "jsval \<Rightarrow> bool" where
  "is_marker data = (case data of JObj m \<Rightarrow> (case map_of m ''_gun_state_initialized'' of Some v \<Rightarrow> js_truthy v | None \<Rightarrow> False) | _ \<Rightarrow> False)"

text \<open>The nodes of a cell the database delivers data of.\<close>

datatype node = StrongestNode | ContentNode | NeighborsNode

text \<open>What a listener does up to its first \<open>await\<close>: the task it becomes, or an error that is logged.\<close>

definition start_listener :: "('v, 'p) gun_library \<Rightarrow> node \<Rightarrow> jsval \<Rightarrow> listener \<Rightarrow> ('v, 'p) task list \<times> 'p effect list" where
  "start_listener L node data l =
     (case (l, node) of
        (StrongestListener log_errors, StrongestNode) \<Rightarrow>
          if data = JUndef \<or> data = JNull then ([], if log_errors then [LogError] else [])
          else if is_marker data then ([], [])
          else ([StrongestTask (decode L data)], [])
      | (ContentListener, ContentNode) \<Rightarrow>
          if data = JNull \<or> is_marker data then ([], []) else ([ContentTask (decode L data)], [])
      | (ComputationListener, ContentNode) \<Rightarrow>
          if data = JNull \<or> is_marker data then ([], []) else ([ComputationTask (decode L data)], [])
      | (NeighborsListener, NeighborsNode) \<Rightarrow> ([NeighborTask (decode_neighbor L data)], [])
      | _ \<Rightarrow> ([], []))"

definition deliver :: "('v, 'p) gun_library \<Rightarrow> node \<Rightarrow> jsval \<Rightarrow> ('v, 'p) gun_cell \<Rightarrow> ('v, 'p) gun_cell" where
  "deliver L node data c =
     (let started = map (start_listener L node data) (listeners c)
      in emit (concat (map snd started)) (c\<lparr>tasks := tasks c @ concat (map fst started)\<rparr>))"

definition push_content :: "'v \<Rightarrow> ('v, 'p) gun_cell \<Rightarrow> ('v, 'p) gun_cell" where
  "push_content v c = c\<lparr>content := Some (case content c of None \<Rightarrow> [v] | Some vs \<Rightarrow> vs @ [v])\<rparr>"

definition compute_strongest :: "('v, 'p) gun_library \<Rightarrow> ('v, 'p) gun_cell \<Rightarrow> ('v, 'p) gun_cell" where
  "compute_strongest L c =
     (let new = strongest_value L (case content c of None \<Rightarrow> [] | Some vs \<Rightarrow> vs)
      in if is_equal L new (strongest c) then c
         else if is_contradiction L new then emit [HandleContradiction] (set_strongest L new c)
         else set_strongest L new c)"

text \<open>The rest of a listener, when its decoding is there.\<close>

definition run_task :: "('v, 'p) gun_library \<Rightarrow> ('v, 'p) task \<Rightarrow> ('v, 'p) gun_cell \<Rightarrow> ('v, 'p) gun_cell" where
  "run_task L t c =
     (case t of
        StrongestTask None \<Rightarrow> emit [LogError] c
      | StrongestTask (Some v) \<Rightarrow>
          if is_nothing L v then c
          else emit (resolve_and_alert_interested_propagators updated_kind (neighbors c)) (c\<lparr>strongest := v\<rparr>)
      | ContentTask (Some v) \<Rightarrow> if is_nothing L v then c else push_content v c
      | ComputationTask (Some v) \<Rightarrow> if is_nothing L v then c else compute_strongest L (push_content v c)
      | NeighborTask (Some (Some n)) \<Rightarrow> c\<lparr>neighbors := AList.update (propagator_id L (snd n)) n (neighbors c)\<rparr>
      | InitialNeighbors m \<Rightarrow> c\<lparr>neighbors := m\<rparr>
      | _ \<Rightarrow> c)"

definition finish_task :: "('v, 'p) gun_library \<Rightarrow> nat \<Rightarrow> ('v, 'p) gun_cell \<Rightarrow> ('v, 'p) gun_cell" where
  "finish_task L i c = run_task L (tasks c ! i) (c\<lparr>tasks := take i (tasks c) @ drop (Suc i) (tasks c)\<rparr>)"

definition cell_get_neighbors :: "('v, 'p) gun_cell \<Rightarrow> (jstring, 'p neighbor) jmap" where
  "cell_get_neighbors c = (if use_local c then local_neighbors c else neighbors c)"

definition cell_update :: "('v, 'p) gun_library \<Rightarrow> 'v \<Rightarrow> ('v, 'p) gun_cell \<Rightarrow> ('v, 'p) gun_cell" where
  "cell_update L v = emit [SetContent (encode L v)]"

definition cell_add_neighbor :: "('v, 'p) gun_library \<Rightarrow> 'p neighbor \<Rightarrow> ('v, 'p) gun_cell \<Rightarrow> ('v, 'p) gun_cell" where
  "cell_add_neighbor L n c =
     emit [SetNeighbor (encode_neighbor L n)]
       (if use_local c then c\<lparr>local_neighbors := AList.update (propagator_id L (snd n)) n (local_neighbors c)\<rparr> else c)"

definition cell_dispose :: "('v, 'p) gun_cell \<Rightarrow> ('v, 'p) gun_cell" where
  "cell_dispose c = c\<lparr>active := False, listeners := []\<rparr>"

text \<open>Both kinds of cell, with the map of neighbours that their first decoding will give.\<close>

definition create_cell :: "('v, 'p) gun_library \<Rightarrow> bool \<Rightarrow> listener list \<Rightarrow> (jstring, 'p neighbor) jmap \<Rightarrow> ('v, 'p) gun_cell" where
  "create_cell L local ls initial =
     \<lparr>strongest = the_nothing L, content = None, neighbors = [], local_neighbors = [], use_local = local, active = True,
      listeners = ls, tasks = [InitialNeighbors initial], effects = []\<rparr>"

definition create_gun_cell :: "('v, 'p) gun_library \<Rightarrow> (jstring, 'p neighbor) jmap \<Rightarrow> ('v, 'p) gun_cell" where
  "create_gun_cell L = create_cell L False [StrongestListener True, ContentListener, NeighborsListener, ComputationListener]"

definition gun_cell_receiver :: "('v, 'p) gun_library \<Rightarrow> (jstring, 'p neighbor) jmap \<Rightarrow> ('v, 'p) gun_cell" where
  "gun_cell_receiver L = create_cell L True [StrongestListener False, ContentListener, NeighborsListener]"

datatype ('v, 'p) cell_event =
    Deliver node jsval
  | Finish nat
  | Update 'v
  | AddNeighbor "'p neighbor"
  | Dispose

definition run_event :: "('v, 'p) gun_library \<Rightarrow> ('v, 'p) cell_event \<Rightarrow> ('v, 'p) gun_cell \<Rightarrow> ('v, 'p) gun_cell" where
  "run_event L e c =
     (case e of
        Deliver node data \<Rightarrow> deliver L node data c
      | Finish i \<Rightarrow> if i < length (tasks c) then finish_task L i c else c
      | Update v \<Rightarrow> cell_update L v c
      | AddNeighbor n \<Rightarrow> cell_add_neighbor L n c
      | Dispose \<Rightarrow> cell_dispose c)"

definition run_events :: "('v, 'p) gun_library \<Rightarrow> ('v, 'p) cell_event list \<Rightarrow> ('v, 'p) gun_cell \<Rightarrow> ('v, 'p) gun_cell" where
  "run_events L es c = fold (run_event L) es c"

section \<open>Content and strongest value\<close>

definition content_value :: "('v, 'p) gun_library \<Rightarrow> 'v option \<Rightarrow> 'v list" where
  "content_value L d = (case d of Some v \<Rightarrow> if is_nothing L v then [] else [v] | None \<Rightarrow> [])"

definition data_value :: "('v, 'p) gun_library \<Rightarrow> jsval \<Rightarrow> 'v list" where
  "data_value L data = (if data = JNull \<or> is_marker data then [] else content_value L (decode L data))"

text \<open>The values of the content node delivered before the cell was disposed.\<close>

definition delivered :: "('v, 'p) gun_library \<Rightarrow> ('v, 'p) cell_event list \<Rightarrow> 'v list" where
  "delivered L es = concat (map (\<lambda>e. case e of Deliver ContentNode data \<Rightarrow> data_value L data | _ \<Rightarrow> []) (takeWhile (\<lambda>e. e \<noteq> Dispose) es))"

definition waiting_content :: "('v, 'p) gun_library \<Rightarrow> ('v, 'p) task \<Rightarrow> 'v list" where
  "waiting_content L t = (case t of ContentTask d \<Rightarrow> content_value L d | _ \<Rightarrow> [])"

definition waiting_computation :: "('v, 'p) gun_library \<Rightarrow> ('v, 'p) task \<Rightarrow> 'v list" where
  "waiting_computation L t = (case t of ComputationTask d \<Rightarrow> content_value L d | _ \<Rightarrow> [])"

definition contents :: "('v, 'p) gun_cell \<Rightarrow> 'v list" where
  "contents c = (case content c of None \<Rightarrow> [] | Some vs \<Rightarrow> vs)"

abbreviation waits :: "(('v, 'p) task \<Rightarrow> 'v list) \<Rightarrow> ('v, 'p) gun_cell \<Rightarrow> 'v multiset" where
  "waits f c \<equiv> mset (concat (map f (tasks c)))"

definition settled :: "('v, 'p) gun_library \<Rightarrow> ('v, 'p) gun_cell \<Rightarrow> bool" where
  "settled L c \<longleftrightarrow> waits (waiting_content L) c = {#} \<and> waits (waiting_computation L) c = {#}"

definition strongest_laws :: "('v, 'p) gun_library \<Rightarrow> bool" where
  "strongest_laws L \<longleftrightarrow> (\<forall>xs ys. set xs = set ys \<longrightarrow> strongest_value L xs = strongest_value L ys) \<and> (\<forall>v. is_equal L v v)"

lemma contents_simps [simp]:
  "contents (c\<lparr>strongest := v\<rparr>) = contents c" "contents (c\<lparr>neighbors := ns\<rparr>) = contents c" "contents (c\<lparr>tasks := ts\<rparr>) = contents c"
  by (simp_all add: contents_def)

lemma emit_simps [simp]:
  "strongest (emit es c) = strongest c" "content (emit es c) = content c" "tasks (emit es c) = tasks c"
  "listeners (emit es c) = listeners c" "contents (emit es c) = contents c" "neighbors (emit es c) = neighbors c"
  "local_neighbors (emit es c) = local_neighbors c" "use_local (emit es c) = use_local c"
  by (simp_all add: emit_def contents_def)

lemma set_strongest_simps [simp]:
  "strongest (set_strongest L v c) = v" "contents (set_strongest L v c) = contents c" "tasks (set_strongest L v c) = tasks c"
  "listeners (set_strongest L v c) = listeners c"
  by (simp_all add: set_strongest_def contents_def)

lemma push_simps [simp]:
  "contents (push_content v c) = contents c @ [v]" "strongest (push_content v c) = strongest c" "tasks (push_content v c) = tasks c"
  "listeners (push_content v c) = listeners c"
  by (simp_all add: push_content_def contents_def split: option.split)

lemma compute_simps [simp]:
  "contents (compute_strongest L c) = contents c" "tasks (compute_strongest L c) = tasks c" "listeners (compute_strongest L c) = listeners c"
  by (simp_all add: compute_strongest_def Let_def)

lemma compute_agrees: "strongest_laws L \<Longrightarrow> is_equal L (strongest_value L (contents c)) (strongest (compute_strongest L c))"
  by (auto simp: compute_strongest_def Let_def strongest_laws_def contents_def)

lemma run_task_frame [simp]: "tasks (run_task L t c) = tasks c" "listeners (run_task L t c) = listeners c"
  by (auto simp: run_task_def Let_def split: task.split option.split)

lemma run_task_contents:
  "contents (run_task L t c) = contents c @ waiting_content L t @ waiting_computation L t"
  by (auto simp: run_task_def waiting_content_def waiting_computation_def content_value_def
      split: task.split option.split)

lemma finish_tasks:
  assumes "i < length (tasks c)"
  shows "waits f c = mset (f (tasks c ! i)) + waits f (finish_task L i c)"
proof -
  have "tasks c = take i (tasks c) @ tasks c ! i # drop (Suc i) (tasks c)" using assms by (rule id_take_nth_drop)
  then have "waits f c = mset (concat (map f (take i (tasks c) @ tasks c ! i # drop (Suc i) (tasks c))))" by metis
  then show ?thesis by (simp add: finish_task_def)
qed

definition cell_inv :: "('v, 'p) gun_library \<Rightarrow> 'v list \<Rightarrow> ('v, 'p) gun_cell \<Rightarrow> bool" where
  "cell_inv L ds c \<longleftrightarrow>
     (\<exists>X Y K. mset (contents c) = X + Y \<and> X + waits (waiting_content L) c = mset ds \<and> Y + waits (waiting_computation L) c = mset ds
        \<and> set_mset Y \<subseteq> set K \<and> set K \<subseteq> set ds \<and> (K \<noteq> [] \<longrightarrow> is_equal L (strongest_value L K) (strongest c)))
     \<and> (\<forall>d. StrongestTask d \<notin> set (tasks c))"

lemma cell_inv_frame:
  "cell_inv L ds c \<Longrightarrow> contents c' = contents c \<Longrightarrow> tasks c' = tasks c \<Longrightarrow> strongest c' = strongest c \<Longrightarrow> cell_inv L ds c'"
  by (simp add: cell_inv_def)

lemma cell_inv_finish:
  assumes laws: "strongest_laws L" and i: "i < length (tasks c)" and inv: "cell_inv L ds c"
  shows "cell_inv L ds (finish_task L i c)"
proof -
  let ?t = "tasks c ! i" and ?c = "finish_task L i c"
  obtain X Y K where X: "mset (contents c) = X + Y" "X + waits (waiting_content L) c = mset ds" "Y + waits (waiting_computation L) c = mset ds"
    and K: "set_mset Y \<subseteq> set K" "set K \<subseteq> set ds" "K \<noteq> [] \<longrightarrow> is_equal L (strongest_value L K) (strongest c)"
    and no: "\<forall>d. StrongestTask d \<notin> set (tasks c)" using inv by (auto simp: cell_inv_def)
  have cont: "contents ?c = contents c @ waiting_content L ?t @ waiting_computation L ?t"
    by (simp add: finish_task_def run_task_contents)
  let ?X = "X + mset (waiting_content L ?t)" and ?Y = "Y + mset (waiting_computation L ?t)"
  have new: "mset (contents ?c) = ?X + ?Y" "?X + waits (waiting_content L) ?c = mset ds" "?Y + waits (waiting_computation L) ?c = mset ds"
    using X finish_tasks [OF i, of "waiting_content L" L] finish_tasks [OF i, of "waiting_computation L" L] by (simp_all add: cont ac_simps)
  have no': "\<forall>d. StrongestTask d \<notin> set (tasks ?c)"
    using no by (auto simp: finish_task_def dest: in_set_takeD in_set_dropD)
  have "\<exists>K. set_mset ?Y \<subseteq> set K \<and> set K \<subseteq> set ds \<and> (K \<noteq> [] \<longrightarrow> is_equal L (strongest_value L K) (strongest ?c))"
  proof (cases "waiting_computation L ?t")
    case Nil
    have "strongest ?c = strongest c"
      using Nil no nth_mem [OF i] by (auto simp: finish_task_def run_task_def waiting_computation_def content_value_def
          split: task.splits option.splits if_splits)
    then show ?thesis using K Nil by (intro exI [of _ K]) simp
  next
    case (Cons v vs)
    then obtain v' where t: "?t = ComputationTask (Some v')" "\<not> is_nothing L v'"
      by (auto simp: waiting_computation_def content_value_def split: task.splits option.splits if_splits)
    have "strongest ?c = strongest (compute_strongest L (push_content v' (c\<lparr>tasks := take i (tasks c) @ drop (Suc i) (tasks c)\<rparr>)))"
      using t by (simp add: finish_task_def run_task_def)
    moreover have "contents (push_content v' (c\<lparr>tasks := take i (tasks c) @ drop (Suc i) (tasks c)\<rparr>)) = contents ?c"
      using t by (simp add: cont waiting_content_def waiting_computation_def content_value_def)
    ultimately have "is_equal L (strongest_value L (contents ?c)) (strongest ?c)" using compute_agrees [OF laws] by metis
    moreover have "set (contents ?c) = set_mset ?X \<union> set_mset ?Y" using arg_cong [OF new(1), of set_mset] by simp
    moreover have "set_mset ?X \<union> set_mset ?Y \<subseteq> set ds"
      using arg_cong [OF new(2), of set_mset] arg_cong [OF new(3), of set_mset] by auto
    ultimately show ?thesis by (intro exI [of _ "contents ?c"]) auto
  qed
  then show ?thesis using new no' unfolding cell_inv_def by blast
qed

lemma cell_inv_deliver:
  assumes inv: "cell_inv L ds c" and node: "node \<noteq> StrongestNode" and ls: "listeners c \<in> {[], [StrongestListener True, ContentListener, NeighborsListener, ComputationListener]}"
  shows "cell_inv L (ds @ (if listeners c = [] \<or> node \<noteq> ContentNode then [] else data_value L data)) (deliver L node data c)"
proof (cases "listeners c = [] \<or> node \<noteq> ContentNode \<or> data = JNull \<or> is_marker data")
  case True
  have "waits (waiting_content L) (deliver L node data c) = waits (waiting_content L) c"
    "waits (waiting_computation L) (deliver L node data c) = waits (waiting_computation L) c"
    "\<forall>d. StrongestTask d \<notin> set (tasks c) \<longrightarrow> StrongestTask d \<notin> set (tasks (deliver L node data c))"
    "strongest (deliver L node data c) = strongest c" "contents (deliver L node data c) = contents c"
    using True ls node by (cases node; auto simp: deliver_def start_listener_def waiting_content_def waiting_computation_def Let_def contents_def)+
  then show ?thesis using inv True by (auto simp: cell_inv_def data_value_def)
next
  case False
  let ?d = "content_value L (decode L data)" and ?c = "deliver L node data c"
  have t: "tasks ?c = tasks c @ [ContentTask (decode L data), ComputationTask (decode L data)]"
    using False ls by (auto simp: deliver_def start_listener_def Let_def)
  have s: "strongest ?c = strongest c" "contents ?c = contents c" by (simp_all add: deliver_def Let_def contents_def)
  obtain X Y K where X: "mset (contents c) = X + Y" "X + waits (waiting_content L) c = mset ds" "Y + waits (waiting_computation L) c = mset ds"
    "set_mset Y \<subseteq> set K" "set K \<subseteq> set ds" "K \<noteq> [] \<longrightarrow> is_equal L (strongest_value L K) (strongest c)"
    and no: "\<forall>d. StrongestTask d \<notin> set (tasks c)" using inv by (auto simp: cell_inv_def)
  have "waits (waiting_content L) ?c = waits (waiting_content L) c + mset ?d" "waits (waiting_computation L) ?c = waits (waiting_computation L) c + mset ?d"
    by (simp_all add: t waiting_content_def waiting_computation_def)
  then have "mset (contents ?c) = X + Y \<and> X + waits (waiting_content L) ?c = mset (ds @ ?d) \<and> Y + waits (waiting_computation L) ?c = mset (ds @ ?d)
      \<and> set_mset Y \<subseteq> set K \<and> set K \<subseteq> set (ds @ ?d) \<and> (K \<noteq> [] \<longrightarrow> is_equal L (strongest_value L K) (strongest ?c))"
    using X by (auto simp: s ac_simps)
  moreover have "\<forall>d. StrongestTask d \<notin> set (tasks ?c)" using no by (simp add: t)
  ultimately have "cell_inv L (ds @ ?d) ?c" unfolding cell_inv_def by blast
  then show ?thesis using False by (simp add: data_value_def)
qed

lemma delivered_snoc:
  "delivered L (es @ [e]) = delivered L es @
     (if Dispose \<in> set es then [] else (case e of Deliver ContentNode data \<Rightarrow> data_value L data | _ \<Rightarrow> []))"
proof (cases "Dispose \<in> set es")
  case True
  then have "takeWhile (\<lambda>e. e \<noteq> Dispose) (es @ [e]) = takeWhile (\<lambda>e. e \<noteq> Dispose) es" by (simp add: takeWhile_append1)
  then show ?thesis using True by (simp add: delivered_def)
next
  case False
  then have all: "\<And>e. e \<in> set es \<Longrightarrow> e \<noteq> Dispose" by auto
  have "takeWhile (\<lambda>e. e \<noteq> Dispose) (es @ [e]) = es @ takeWhile (\<lambda>e. e \<noteq> Dispose) [e]"
    using all by (rule takeWhile_append2)
  moreover have "takeWhile (\<lambda>e. e \<noteq> Dispose) es = es" using all by (simp add: takeWhile_eq_all_conv)
  moreover note False
  ultimately show ?thesis unfolding delivered_def by (simp del: takeWhile_eq_all_conv)
qed

definition no_strongest :: "('v, 'p) cell_event list \<Rightarrow> bool" where
  "no_strongest es \<longleftrightarrow> (\<forall>data. Deliver StrongestNode data \<notin> set es)"

lemma event_listeners [simp]: "listeners (run_event L e c) = (if e = Dispose then [] else listeners c)"
  by (auto simp: run_event_def deliver_def Let_def finish_task_def cell_update_def cell_add_neighbor_def cell_dispose_def split: cell_event.split)

lemma instance_inv:
  assumes "strongest_laws L"
  shows "no_strongest es \<Longrightarrow> cell_inv L (delivered L es) (run_events L es (create_gun_cell L m))
    \<and> listeners (run_events L es (create_gun_cell L m)) =
        (if Dispose \<in> set es then [] else [StrongestListener True, ContentListener, NeighborsListener, ComputationListener])"
proof (induction es rule: rev_induct)
  case Nil
  show ?case
    by (auto simp: cell_inv_def run_events_def create_gun_cell_def create_cell_def delivered_def contents_def waiting_content_def
        waiting_computation_def intro!: exI [of _ "[]"])
next
  case (snoc e es)
  let ?c = "run_events L es (create_gun_cell L m)"
  have ns: "no_strongest es" "\<forall>data. e \<noteq> Deliver StrongestNode data" using snoc.prems by (auto simp: no_strongest_def)
  have inv: "cell_inv L (delivered L es) ?c"
    and ls: "listeners ?c = (if Dispose \<in> set es then [] else [StrongestListener True, ContentListener, NeighborsListener, ComputationListener])"
    using snoc.IH [OF ns(1)] by auto
  have run: "run_events L (es @ [e]) (create_gun_cell L m) = run_event L e ?c" by (simp add: run_events_def)
  have "cell_inv L (delivered L (es @ [e])) (run_event L e ?c)"
  proof (cases e)
    case (Deliver node data)
    then show ?thesis
      using cell_inv_deliver [OF inv, of node data] ns(2) ls by (cases node) (auto simp: run_event_def delivered_snoc)
  next
    case (Finish i)
    then show ?thesis using cell_inv_finish [OF assms _ inv] inv by (simp add: run_event_def delivered_snoc)
  next
    case (Update v)
    then show ?thesis using inv by (auto simp: run_event_def delivered_snoc cell_update_def intro: cell_inv_frame)
  next
    case (AddNeighbor n)
    then show ?thesis using inv
      by (auto simp: run_event_def delivered_snoc cell_add_neighbor_def contents_def intro: cell_inv_frame)
  next
    case Dispose
    then show ?thesis using inv by (auto simp: run_event_def delivered_snoc cell_dispose_def contents_def intro: cell_inv_frame)
  qed
  then show ?case using ls by (auto simp: run)
qed


text \<open>A library of numbers, the greatest being the strongest; numbers are their own data.\<close>

definition number_lib :: "(nat, nat) gun_library" where
  "number_lib = \<lparr>the_nothing = 0, is_nothing = (\<lambda>v. v = 0), strongest_value = (\<lambda>vs. fold max vs 0), is_equal = (=),
     is_contradiction = (\<lambda>_. False), encode = (\<lambda>n. JStr (replicate n CHR ''I'')),
     decode = (\<lambda>d. case d of JStr s \<Rightarrow> Some (length s) | _ \<Rightarrow> None), encode_neighbor = (\<lambda>_. JNull),
     decode_neighbor = (\<lambda>d. case d of JStr s \<Rightarrow> Some (Some ([updated_kind], length s)) | _ \<Rightarrow> None), propagator_id = (\<lambda>p. replicate p CHR ''p'')\<rparr>"

lemma fold_max_set: "fold max vs (a::nat) = Max (insert a (set vs))"
  using Max.set_eq_fold [of a vs] by simp

lemma number_laws: "strongest_laws number_lib"
  by (auto simp: strongest_laws_def number_lib_def fold_max_set)

definition sample_events :: "(nat, nat) cell_event list" where
  "sample_events = [Deliver ContentNode (JStr ''III''), Deliver ContentNode (JStr ''II''), Finish 3, Finish 1, Finish 2, Finish 1]"


text \<open>
  Two listeners of a cell add the value, one to keep the content and one to compute, so a
  single delivery is held twice. A late echo of an old strongest value replaces a newer one. A
  decoding that ends after the disposal still writes to the database.
\<close>

lemma content_held_twice:
  "content (run_events number_lib [Deliver ContentNode (JStr ''III''), Finish 1, Finish 1] (create_gun_cell number_lib [])) = Some [3, 3]"
  by code_simp

lemma late_echo_wins:
  "strongest (run_events number_lib [Deliver ContentNode (JStr ''I''), Finish 2, Deliver ContentNode (JStr ''II''), Finish 3,
     Deliver StrongestNode (JStr ''I''), Finish 3] (create_gun_cell number_lib [])) = 1"
  by code_simp

lemma writes_after_dispose:
  "effects (run_events number_lib [Deliver ContentNode (JStr ''I''), Dispose, Finish 2] (create_gun_cell number_lib [])) = [PutStrongest (JStr ''I'')]"
  by code_simp

text \<open>The first decoding of the neighbours replaces those that arrived before it.\<close>

lemma initial_neighbors_replace:
  "neighbors (run_events number_lib [Deliver NeighborsNode (JStr ''II''), Finish 1, Finish 0] (create_gun_cell number_lib [])) = []"
  by code_simp

text \<open>A receiver shows the neighbours it added itself and none that the database delivers.\<close>

lemma receiver_neighbors:
  "cell_get_neighbors (run_events L es (gun_cell_receiver L m)) =
     fold (\<lambda>e ns. case e of AddNeighbor n \<Rightarrow> AList.update (propagator_id L (snd n)) n ns | _ \<Rightarrow> ns) es []"
proof -
  have "use_local (run_events L es c) = use_local c \<and> (use_local c \<longrightarrow> local_neighbors (run_events L es c) =
      fold (\<lambda>e ns. case e of AddNeighbor n \<Rightarrow> AList.update (propagator_id L (snd n)) n ns | _ \<Rightarrow> ns) es (local_neighbors c))" for c
  proof (induction es arbitrary: c)
    case (Cons e es)
    have "use_local (run_event L e c) = use_local c \<and> (use_local c \<longrightarrow> local_neighbors (run_event L e c) =
        (case e of AddNeighbor n \<Rightarrow> AList.update (propagator_id L (snd n)) n (local_neighbors c) | _ \<Rightarrow> local_neighbors c))"
      by (auto simp: run_event_def deliver_def Let_def finish_task_def cell_update_def cell_add_neighbor_def cell_dispose_def run_task_def
          compute_strongest_def set_strongest_def push_content_def split: cell_event.split task.split option.split)
    then show ?case using Cons.IH [of "run_event L e c"] by (simp add: run_events_def)
  qed (simp add: run_events_def)
  then show ?thesis by (simp add: cell_get_neighbors_def gun_cell_receiver_def create_cell_def)
qed

end
