(* ===== verification/Gun_Sync.thy ===== *)
theory Gun_Sync
  imports Gun_Cell
begin

text \<open>
  The mirror of the runtime in the database, \<open>src/compiler/sync_to_gun.ts\<close>, with the set of stored
  cells of \<open>src/DB/serialize/gun_cell.ts\<close>. Every cell of the runtime gets a representation once,
  and a propagator that writes the strongest value and the new neighbours of the cell whenever it
  runs. When the propagators run is the library's, so a run is an event with what the cell holds.
  A neighbour is a value of any type under the id of its propagator.
\<close>

section \<open>Neighbours\<close>

text \<open>The neighbours not seen before, and all seen so far.\<close>

fun cell_neighbor_delta :: "(jstring, 'n) jmap \<Rightarrow> (jstring, 'n) jmap \<Rightarrow> (jstring, 'n) jmap \<times> (jstring, 'n) jmap" where
  "cell_neighbor_delta [] seen = ([], seen)"
| "cell_neighbor_delta ((i, n) # current) seen =
     (if map_of seen i \<noteq> None then cell_neighbor_delta current seen
      else case cell_neighbor_delta current (AList.update i n seen) of (diff, seen') \<Rightarrow> ((i, n) # diff, seen'))"

lemma delta_spec:
  "cell_neighbor_delta current seen = (diff, seen') \<Longrightarrow>
     dom (map_of seen') = dom (map_of seen) \<union> fst ` set current \<and> fst ` set diff = fst ` set current - dom (map_of seen)
     \<and> distinct (map fst diff) \<and> set diff \<subseteq> set current"
proof (induction current seen arbitrary: diff rule: cell_neighbor_delta.induct)
  case (2 i n current seen)
  show ?case
  proof (cases "map_of seen i = None")
    case True
    obtain d s where d: "cell_neighbor_delta current (AList.update i n seen) = (d, s)" by force
    then have s: "diff = (i, n) # d" "s = seen'" using "2.prems" True by auto
    have dom: "dom (map_of (AList.update i n seen)) = insert i (dom (map_of seen))" by (simp add: update_conv')
    have i: "i \<notin> dom (map_of seen)" using True by (simp add: domIff)
    have ih: "dom (map_of seen') = insert i (dom (map_of seen)) \<union> fst ` set current"
      "fst ` set d = fst ` set current - insert i (dom (map_of seen))" "distinct (map fst d)" "set d \<subseteq> set current"
      using "2.IH"(2) [OF _ d [unfolded s(2)]] True unfolding dom by auto
    have "i \<notin> fst ` set d" using ih(2) by blast
    then have "distinct (map fst diff)" using ih(3) by (simp add: s(1))
    moreover have "fst ` set diff = fst ` set ((i, n) # current) - dom (map_of seen)" using ih(2) i by (auto simp only: s(1) list.set image_insert fst_conv)
    moreover have "dom (map_of seen') = dom (map_of seen) \<union> fst ` set ((i, n) # current)" using ih(1) by simp
    moreover have "set diff \<subseteq> set ((i, n) # current)" using ih(4) by (auto simp only: s(1) list.set)
    ultimately show ?thesis by blast
  next
    case False
    then have i: "i \<in> dom (map_of seen)" by (simp add: domIff)
    have "cell_neighbor_delta current seen = (diff, seen')" using "2.prems" False by simp
    note ih = "2.IH"(1) [OF False this]
    then show ?thesis using i by (auto simp only: list.set image_insert fst_conv)
  qed
qed auto

section \<open>The mirror\<close>

datatype 'n sync_effect =
    PutName jstring jstring
  | ListenContent jstring
  | ListenNeighbors jstring
  | PutStrongest jstring jsval
  | SetNeighbor jstring 'n
  | UpdateCell jstring jsval
  | AddRemoteNeighbor jstring jstring

record 'n sync_world =
  gun_cells :: "jstring list"
  last_neighbors :: "(jstring, 'n) jmap"
  sync_effects :: "'n sync_effect list"

definition store_gun_cell :: "jstring \<Rightarrow> 'n sync_world \<Rightarrow> 'n sync_world" where
  "store_gun_cell i w = w\<lparr>gun_cells := set_add i (gun_cells w)\<rparr>"

definition is_gun_cell_stored :: "'n sync_world \<Rightarrow> jstring \<Rightarrow> bool" where
  "is_gun_cell_stored w i \<longleftrightarrow> i \<in> set (gun_cells w)"

definition write_all :: "'n sync_effect list \<Rightarrow> 'n sync_world \<Rightarrow> 'n sync_world" where
  "write_all es w = w\<lparr>sync_effects := sync_effects w @ es\<rparr>"

definition cell_to_gun_cell :: "jstring \<times> jstring \<Rightarrow> 'n sync_world \<Rightarrow> 'n sync_world" where
  "cell_to_gun_cell cell w =
     write_all [ListenContent (fst cell), PutName (fst cell) (snd cell), ListenNeighbors (fst cell)] (store_gun_cell (fst cell) w)"

text \<open>The propagator of a cell; \<open>None\<close> is a strongest value that cannot be used.\<close>

definition cell_to_gun_representation ::
    "jstring \<Rightarrow> jsval option \<Rightarrow> (jstring, 'n) jmap \<Rightarrow> 'n sync_world \<Rightarrow> 'n sync_world" where
  "cell_to_gun_representation i val current w =
     (let w = (case val of None \<Rightarrow> w | Some v \<Rightarrow> write_all [PutStrongest i v] w);
          (diff, seen) = cell_neighbor_delta current (last_neighbors w)
      in write_all (map (\<lambda>n. SetNeighbor i (snd n)) diff) (w\<lparr>last_neighbors := seen\<rparr>))"

definition mirror_cell :: "jstring \<times> jstring \<Rightarrow> 'n sync_world \<Rightarrow> 'n sync_world" where
  "mirror_cell cell w = (if is_gun_cell_stored w (fst cell) then w else cell_to_gun_cell cell w)"

definition sync_runtime_to_gun :: "(jstring \<times> jstring) list \<Rightarrow> 'n sync_world \<Rightarrow> 'n sync_world" where
  "sync_runtime_to_gun snapshot w = fold mirror_cell snapshot w"

text \<open>Arrivals: content is given to the cell, a neighbour only if the cell does not have it.\<close>

definition content_arrives :: "jstring \<Rightarrow> jsval \<Rightarrow> 'n sync_world \<Rightarrow> 'n sync_world" where
  "content_arrives i data w = (if data = JNull \<or> is_marker data then w else write_all [UpdateCell i data] w)"

definition neighbor_arrives :: "jstring \<Rightarrow> jsval \<Rightarrow> jstring \<Rightarrow> (jstring, 'n) jmap \<Rightarrow> 'n sync_world \<Rightarrow> 'n sync_world" where
  "neighbor_arrives i data p current w =
     (if data = JNull \<or> is_marker data \<or> map_of current p \<noteq> None then w else write_all [AddRemoteNeighbor i p] w)"

datatype 'n sync_event =
    CellUpdated "jstring \<times> jstring"
  | Activated jstring "jsval option" "(jstring, 'n) jmap"
  | ContentArrived jstring jsval
  | NeighborArrived jstring jsval jstring "(jstring, 'n) jmap"

definition sync_event :: "'n sync_event \<Rightarrow> 'n sync_world \<Rightarrow> 'n sync_world" where
  "sync_event e w =
     (case e of
        CellUpdated cell \<Rightarrow> mirror_cell cell w
      | Activated i val current \<Rightarrow> cell_to_gun_representation i val current w
      | ContentArrived i data \<Rightarrow> content_arrives i data w
      | NeighborArrived i data p current \<Rightarrow> neighbor_arrives i data p current w)"

definition empty_world :: "'n sync_world" where
  "empty_world = \<lparr>gun_cells = [], last_neighbors = [], sync_effects = []\<rparr>"

definition run_sync :: "(jstring \<times> jstring) list \<Rightarrow> 'n sync_event list \<Rightarrow> 'n sync_world" where
  "run_sync snapshot es = fold sync_event es (sync_runtime_to_gun snapshot empty_world)"

section \<open>One representation, one write\<close>

definition represented :: "'n sync_effect list \<Rightarrow> jstring list" where
  "represented es = concat (map (\<lambda>e. case e of PutName i _ \<Rightarrow> [i] | _ \<Rightarrow> []) es)"

lemma represented_Cons [simp]: "represented (e # es) = (case e of PutName i _ \<Rightarrow> [i] | _ \<Rightarrow> []) @ represented es"
  and represented_Nil [simp]: "represented [] = []"
  by (simp_all add: represented_def)

lemma represented_append [simp]: "represented (es @ fs) = represented es @ represented fs"
  by (simp add: represented_def)

definition sync_inv :: "jstring set \<Rightarrow> 'n sync_world \<Rightarrow> bool" where
  "sync_inv S w \<longleftrightarrow> set (gun_cells w) = S \<and> set (represented (sync_effects w)) = S \<and> distinct (represented (sync_effects w))"

lemma empty_inv: "sync_inv {} empty_world"
  by (simp add: sync_inv_def empty_world_def)

lemma sync_inv_mirror: "sync_inv S w \<Longrightarrow> sync_inv (insert (fst cell) S) (mirror_cell cell w)"
  by (auto simp: sync_inv_def mirror_cell_def is_gun_cell_stored_def cell_to_gun_cell_def write_all_def store_gun_cell_def represented_def)

lemma sync_inv_event:
  assumes "sync_inv S w"
  shows "sync_inv (S \<union> (case e of CellUpdated cell \<Rightarrow> {fst cell} | _ \<Rightarrow> {})) (sync_event e w)"
proof (cases e)
  case (CellUpdated cell)
  then show ?thesis using sync_inv_mirror [OF assms, of cell] by (simp add: sync_event_def)
next
  case (Activated i val current)
  have "represented (map (\<lambda>n. SetNeighbor i (snd n)) d) = []" for d :: "(jstring \<times> 'a) list"
    by (simp add: represented_def)
  then show ?thesis using assms
    by (auto simp: Activated sync_event_def cell_to_gun_representation_def write_all_def sync_inv_def Let_def
        split: option.split prod.split)
qed (use assms in \<open>auto simp: sync_event_def content_arrives_def neighbor_arrives_def write_all_def sync_inv_def represented_def\<close>)

text \<open>Every cell that the snapshot holds or that is updated later gets exactly one representation.\<close>

lemma represented_once:
  "distinct (represented (sync_effects (run_sync snapshot es)))
   \<and> set (represented (sync_effects (run_sync snapshot es))) = fst ` set snapshot \<union> {fst cell | cell. CellUpdated cell \<in> set es}"
proof -
  have "sync_inv (S \<union> fst ` set snapshot) (sync_runtime_to_gun snapshot w)" if "sync_inv S w" for S and w :: "'a sync_world"
    using that
  proof (induction snapshot arbitrary: S w)
    case (Cons cell snapshot)
    then show ?case using Cons.IH [OF sync_inv_mirror [OF Cons.prems, of cell]] by (simp add: sync_runtime_to_gun_def)
  qed (simp add: sync_runtime_to_gun_def)
  then have start: "sync_inv (fst ` set snapshot) (sync_runtime_to_gun snapshot (empty_world :: 'a sync_world))"
    by (metis Un_empty_left empty_inv)
  have "sync_inv (S \<union> {fst cell | cell. CellUpdated cell \<in> set es}) (fold sync_event es w)" if "sync_inv S w" for S and w :: "'a sync_world"
    using that
  proof (induction es arbitrary: S w)
    case (Cons e es)
    have "(S \<union> (case e of CellUpdated cell \<Rightarrow> {fst cell} | _ \<Rightarrow> {})) \<union> {fst cell | cell. CellUpdated cell \<in> set es}
        = S \<union> {fst cell | cell. CellUpdated cell \<in> set (e # es)}"
      by (cases e) auto
    then show ?case using Cons.IH [OF sync_inv_event [OF Cons.prems, of e]] by simp
  qed simp
  from this [OF start] show ?thesis by (simp add: run_sync_def sync_inv_def)
qed

text \<open>
  The neighbours seen are kept in one map for all cells, so a propagator between two cells is
  written for the first of them that runs and never for the other.
\<close>

lemma shared_neighbor_lost:
  "sync_effects (run_sync [(''a'', ''A''), (''b'', ''B'')] [Activated ''a'' None [(''p'', True)], Activated ''b'' None [(''p'', True)]])
     = [ListenContent ''a'', PutName ''a'' ''A'', ListenNeighbors ''a'', ListenContent ''b'', PutName ''b'' ''B'', ListenNeighbors ''b'',
        SetNeighbor ''a'' True]"
  by code_simp

text \<open>One activation: how often the neighbour \<open>p\<close> was written so far, and the neighbours seen.\<close>

definition count_writes :: "jstring \<Rightarrow> 'n sync_event \<Rightarrow> nat \<times> (jstring, 'n) jmap \<Rightarrow> nat \<times> (jstring, 'n) jmap" where
  "count_writes p e s =
     (case e of
        Activated i val current \<Rightarrow>
          (case cell_neighbor_delta current (snd s) of (diff, seen') \<Rightarrow> (fst s + length (filter (\<lambda>n. fst n = p) diff), seen'))
      | _ \<Rightarrow> s)"

definition neighbor_writes :: "jstring \<Rightarrow> 'n sync_event list \<Rightarrow> (jstring, 'n) jmap \<Rightarrow> nat" where
  "neighbor_writes p es seen = fst (fold (count_writes p) es (0, seen))"

definition writes_left :: "jstring \<Rightarrow> nat \<times> (jstring, 'n) jmap \<Rightarrow> nat" where
  "writes_left p s = (if map_of (snd s) p = None then 1 else 0)"

lemma count_writes_step: "fst (count_writes p e s) + writes_left p (count_writes p e s) \<le> fst s + writes_left p s"
proof (cases e)
  case (Activated i val current)
  obtain diff t where d: "cell_neighbor_delta current (snd s) = (diff, t)" by force
  note spec = delta_spec [OF d]
  have "length (filter (\<lambda>n. fst n = p) diff) = length (filter (\<lambda>q. q = p) (map fst diff))" by (simp add: filter_map comp_def)
  moreover have "length (filter (\<lambda>q. q = p) (map fst diff)) \<le> (if p \<in> fst ` set diff then 1 else 0)"
    using spec distinct_length_filter [of "map fst diff" "\<lambda>q. q = p"] by (auto simp: Int_def conj_commute intro: le_trans [OF eq_refl card_mono [of "{p}", simplified]])
  moreover have "count_writes p e s = (fst s + length (filter (\<lambda>n. fst n = p) diff), t)" by (simp add: count_writes_def Activated d)
  moreover have "p \<in> fst ` set diff \<longrightarrow> map_of (snd s) p = None \<and> map_of t p \<noteq> None" "map_of t p = None \<longrightarrow> map_of (snd s) p = None"
    using spec unfolding domIff [symmetric] by blast+
  ultimately show ?thesis by (auto simp: writes_left_def split: if_splits)
qed (simp_all add: count_writes_def)

text \<open>Over all cells and runs the neighbour with one id is written at most once.\<close>

lemma neighbor_written_once: "neighbor_writes p es [] \<le> 1"
proof -
  have "fst (fold (count_writes p) es s) + writes_left p (fold (count_writes p) es s) \<le> fst s + writes_left p s" for s :: "nat \<times> (jstring, 'a) jmap"
  proof (induction es arbitrary: s)
    case (Cons e es)
    show ?case using Cons.IH [of "count_writes p e s"] count_writes_step [of p e s] by simp
  qed simp
  from this [of "(0, [])"] show ?thesis unfolding neighbor_writes_def by (simp add: writes_left_def)
qed

end
