(* ===== verification/Gun_Schemas.thy ===== *)
theory Gun_Schemas
  imports Json_Text Exec
begin

text \<open>
  The form in which values of the language are stored in the database: \<open>src/DB/serialize/encode.ts\<close>,
  \<open>decode.ts\<close> and the schemas of \<open>src/DB/serialize/schemas\<close>. Both directions are generic
  procedures whose handlers are chosen by predicates that exclude each other, so they are a case
  distinction here; an object that matches no handler falls to the default. Cells and propagators
  are objects of the library: a cell is its id and its name, and the library answers what a cell
  holds and which cells and propagators exist, and registers new ones. Values refer to others
  without bound, so both directions have fuel; running out of it is an error of its own, which is
  never caught.
\<close>

section \<open>Values\<close>

type_synonym cell = "jsval \<times> jsval"

record propagator_ref =
  pr_id :: jsval
  pr_name :: jsval
  pr_inputs :: "cell list"
  pr_outputs :: "cell list"

text \<open>
  \<open>Atom\<close> holds strings, numbers, booleans, the special values of the library and plain objects;
  \<open>ListV\<close> is an array, as the parser makes it of an expression.
\<close>

datatype lv =
    Atom jsval
  | CellV cell
  | MapV "(jstring \<times> lv) list"
  | SetV "lv list"
  | LayeredV lv "(jstring \<times> lv) list"
  | ElementV jsval lv
  | ListV "lv list"
  | ClosureV lv lv "lv list" "lv list" "lv list"
  | PrimitiveV jsval jsval jsval jstring
  | NeighborV propagator_ref jsval
  | PropagatorV propagator_ref

datatype schema_error = NotImplemented | TypeError | BadJson | UnknownPrimitive jsval | InvalidReference | OutOfFuel

record 'w schema_library =
  special :: "jsval \<Rightarrow> bool"
  nothing :: jsval
  cell_content :: "cell \<Rightarrow> lv"
  cell_strongest :: "cell \<Rightarrow> lv"
  cell_neighbor_set :: "cell \<Rightarrow> lv"
  identify_by :: "lv \<Rightarrow> jstring"
  better_set :: "lv list \<Rightarrow> lv list"
  raw_array :: "lv list \<Rightarrow> jsval list"
  raw_propagator :: "propagator_ref \<Rightarrow> jsval"
  cell_snapshot :: "'w \<Rightarrow> cell list"
  add_cell :: "cell \<Rightarrow> 'w \<Rightarrow> 'w"
  propagator_snapshot :: "'w \<Rightarrow> propagator_ref list"
  construct_propagator :: "propagator_ref \<Rightarrow> 'w \<Rightarrow> 'w"
  fresh_id :: "'w \<Rightarrow> jsval"

definition is_self_evaluating :: "'w schema_library \<Rightarrow> jsval \<Rightarrow> bool" where
  "is_self_evaluating L v = (case v of JStr _ \<Rightarrow> True | JNum _ \<Rightarrow> True | JBool _ \<Rightarrow> True | _ \<Rightarrow> special L v)"

fun each :: "('a \<Rightarrow> 'e + 'b) \<Rightarrow> 'a list \<Rightarrow> 'e + 'b list" where
  "each f [] = Inr []"
| "each f (x # xs) = (case f x of Inl e \<Rightarrow> Inl e | Inr y \<Rightarrow> map_sum id ((#) y) (each f xs))"

fun each_in :: "('a \<Rightarrow> ('w, 'e, 'b) act) \<Rightarrow> 'a list \<Rightarrow> ('w, 'e, 'b list) act" where
  "each_in f [] = ret []"
| "each_in f (x # xs) = andthen (f x) (\<lambda>y. andthen (each_in f xs) (\<lambda>ys. ret (y # ys)))"

definition chain :: "'e + 'a \<Rightarrow> ('a \<Rightarrow> 'e + 'b) \<Rightarrow> 'e + 'b" where
  "chain m f = (case m of Inl e \<Rightarrow> Inl e | Inr x \<Rightarrow> f x)"

definition put_all :: "(jstring \<times> jsval) list \<Rightarrow> (jstring, jsval) jmap \<Rightarrow> (jstring, jsval) jmap" where
  "put_all kvs m = fold (\<lambda>(k, v). obj_set k v) kvs m"

definition tag :: "jstring \<Rightarrow> jstring \<times> jsval" where
  "tag t = (''type'', JStr t)"

definition json_text :: "jsval \<Rightarrow> jsval" where
  "json_text j = (case json_stringify j of Some s \<Rightarrow> JStr s | None \<Rightarrow> JUndef)"

section \<open>Encoding\<close>

definition make_reference :: "jstring \<Rightarrow> jsval \<Rightarrow> jsval \<Rightarrow> jsval" where
  "make_reference ref_type i name = JObj [tag ''reference'', (''ref_type'', JStr ref_type), (''id'', i), (''name'', name)]"

definition encode_cell_reference :: "cell \<Rightarrow> jsval" where
  "encode_cell_reference c = make_reference ''cell'' (fst c) (snd c)"

definition make_propagator_reference :: "propagator_ref \<Rightarrow> jsval" where
  "make_propagator_reference p =
     JObj [tag ''propagator'', (''id'', pr_id p), (''name'', pr_name p),
       (''inputs'', JArr (map encode_cell_reference (pr_inputs p))), (''outputs'', JArr (map encode_cell_reference (pr_outputs p)))]"

definition plain_value_schema_encode :: "jsval \<Rightarrow> jsval" where
  "plain_value_schema_encode v = JObj [(''value'', v)]"

definition encode_default :: "'w schema_library \<Rightarrow> jsval \<Rightarrow> schema_error + jsval" where
  "encode_default L v =
     (if is_self_evaluating L v then Inr (plain_value_schema_encode v)
      else case v of
        JArr _ \<Rightarrow> Inr (plain_value_schema_encode v)
      | JObj _ \<Rightarrow> Inr (plain_value_schema_encode v)
      | _ \<Rightarrow> Inl NotImplemented)"

definition cell_schema_encode :: "'w schema_library \<Rightarrow> (lv \<Rightarrow> schema_error + jsval) \<Rightarrow> cell \<Rightarrow> schema_error + jsval" where
  "cell_schema_encode L enc c =
     chain (enc (cell_content L c)) (\<lambda>content.
     chain (enc (cell_strongest L c)) (\<lambda>strongest.
     chain (enc (cell_neighbor_set L c)) (\<lambda>neighbors.
       Inr (JObj [tag ''cell'', (''id'', fst c), (''name'', snd c), (''content'', content), (''strongest'', strongest),
         (''neighbors'', neighbors)]))))"

definition reference_or :: "(lv \<Rightarrow> schema_error + jsval) \<Rightarrow> lv \<Rightarrow> schema_error + jsval" where
  "reference_or enc v = (case v of CellV c \<Rightarrow> Inr (encode_cell_reference c) | _ \<Rightarrow> enc v)"

definition map_schema :: "(lv \<Rightarrow> schema_error + jsval) \<Rightarrow> (jstring \<times> lv) list \<Rightarrow> schema_error + jsval" where
  "map_schema enc m =
     chain (each (\<lambda>kv. reference_or enc (snd kv)) m) (\<lambda>js. Inr (JObj (put_all (zip (map fst m) js) [tag ''MAP''])))"

definition set_schema_encode :: "'w schema_library \<Rightarrow> (lv \<Rightarrow> schema_error + jsval) \<Rightarrow> lv list \<Rightarrow> schema_error + jsval" where
  "set_schema_encode L enc s =
     chain (each enc s) (\<lambda>js. Inr (JObj (put_all (zip (map (identify_by L) s) js) [tag ''set''])))"

definition layered_object_schema ::
    "(lv \<Rightarrow> schema_error + jsval) \<Rightarrow> lv \<Rightarrow> (jstring \<times> lv) list \<Rightarrow> schema_error + jsval" where
  "layered_object_schema enc base ls =
     chain (enc base) (\<lambda>b. chain (each (\<lambda>kv. enc (snd kv)) ls) (\<lambda>js.
       Inr (JObj (put_all (zip (map fst ls) js) [tag ''layered_object'', (''base'', b)]))))"

text \<open>A value that is no element has no member \<open>value\<close>, and \<open>null\<close> has no members.\<close>

definition lain_element_schema :: "(lv \<Rightarrow> schema_error + jsval) \<Rightarrow> lv \<Rightarrow> schema_error + jsval" where
  "lain_element_schema enc v =
     (case v of
        ElementV t x \<Rightarrow> chain (enc x) (\<lambda>j. Inr (JObj [tag ''lain_element'', (''element_type'', t), (''value'', j)]))
      | _ \<Rightarrow> if v = Atom JNull \<or> v = Atom JUndef then Inl TypeError
           else chain (enc (Atom JUndef)) (\<lambda>j. Inr (JObj [tag ''lain_element'', (''element_type'', JUndef), (''value'', j)])))"

text \<open>Only the first expression of the body is written.\<close>

definition body_encoded :: "(lv \<Rightarrow> schema_error + jsval) \<Rightarrow> lv list \<Rightarrow> schema_error + jsval" where
  "body_encoded enc body =
     (case body of
        ListV xs # _ \<Rightarrow> chain (each (lain_element_schema enc) xs) (\<lambda>js. Inr (json_text (JArr js)))
      | _ \<Rightarrow> Inl TypeError)"

definition closure_schema ::
    "(lv \<Rightarrow> schema_error + jsval) \<Rightarrow> lv \<Rightarrow> lv \<Rightarrow> lv list \<Rightarrow> lv list \<Rightarrow> lv list \<Rightarrow> schema_error + jsval" where
  "closure_schema enc env name inputs outputs body =
     chain (reference_or enc env) (\<lambda>e.
     chain (lain_element_schema enc name) (\<lambda>nm.
     chain (each (lain_element_schema enc) inputs) (\<lambda>is.
     chain (each (lain_element_schema enc) outputs) (\<lambda>os.
     chain (body_encoded enc body) (\<lambda>b.
       Inr (JObj [tag ''closure'', (''env'', e), (''name'', nm), (''inputs'', JArr is), (''outputs'', JArr os), (''body'', b)]))))))"

definition primitive_schema :: "jsval \<Rightarrow> jsval \<Rightarrow> jsval \<Rightarrow> jsval" where
  "primitive_schema name ins outs = JObj [tag ''primitive'', (''name'', name), (''inputs_count'', ins), (''output_count'', outs)]"

definition interested_neighbor_schema :: "propagator_ref \<Rightarrow> jsval \<Rightarrow> jsval" where
  "interested_neighbor_schema p types =
     JObj [tag ''interested_neighbor'', (''propagator'', make_propagator_reference p), (''neighbor_type'', types)]"

primrec gun_db_schema_encode :: "'w schema_library \<Rightarrow> nat \<Rightarrow> lv \<Rightarrow> schema_error + jsval" where
  "gun_db_schema_encode L 0 v = Inl OutOfFuel"
| "gun_db_schema_encode L (Suc n) v =
     (case v of
        Atom a \<Rightarrow> encode_default L a
      | ListV xs \<Rightarrow> Inr (plain_value_schema_encode (JArr (raw_array L xs)))
      | CellV c \<Rightarrow> cell_schema_encode L (gun_db_schema_encode L n) c
      | MapV m \<Rightarrow> map_schema (gun_db_schema_encode L n) m
      | SetV s \<Rightarrow> set_schema_encode L (gun_db_schema_encode L n) s
      | LayeredV base ls \<Rightarrow> chain (layered_object_schema (gun_db_schema_encode L n) base ls) (\<lambda>j. Inr (json_text j))
      | ElementV t x \<Rightarrow> lain_element_schema (gun_db_schema_encode L n) v
      | ClosureV env name inputs outputs body \<Rightarrow>
          chain (closure_schema (gun_db_schema_encode L n) env name inputs outputs body) (\<lambda>j. Inr (json_text j))
      | PrimitiveV name ins outs c \<Rightarrow> Inr (primitive_schema name ins outs)
      | NeighborV p types \<Rightarrow> Inr (json_text (interested_neighbor_schema p types))
      | PropagatorV p \<Rightarrow> Inr (plain_value_schema_encode (raw_propagator L p)))"

section \<open>Decoding\<close>

definition member :: "(jstring \<times> jsval) list \<Rightarrow> jstring \<Rightarrow> jsval" where
  "member m k = (case map_of m k of None \<Rightarrow> JUndef | Some v \<Rightarrow> v)"

definition defined :: "jsval \<Rightarrow> bool" where
  "defined v \<longleftrightarrow> v \<noteq> JUndef \<and> v \<noteq> JNull"

definition members_of :: "jsval \<Rightarrow> ('w, schema_error, (jstring \<times> jsval) list) act" where
  "members_of v = (case v of JObj m \<Rightarrow> ret m | JNull \<Rightarrow> throw TypeError | JUndef \<Rightarrow> throw TypeError | _ \<Rightarrow> ret [])"

definition elements_of :: "jsval \<Rightarrow> ('w, schema_error, jsval list) act" where
  "elements_of v = (case v of JArr xs \<Rightarrow> ret xs | _ \<Rightarrow> throw TypeError)"

text \<open>A receiver takes a new id when it is given none, and registers itself.\<close>

definition make_receiver :: "'w schema_library \<Rightarrow> jsval \<Rightarrow> jsval \<Rightarrow> ('w, schema_error, cell) act" where
  "make_receiver L name i =
     andthen (reads (fresh_id L)) (\<lambda>fresh.
       let c = (if i = JUndef then fresh else i, name) in andthen (changes (add_cell L c)) (\<lambda>_. ret c))"

definition lazied_decode_cell_reference :: "'w schema_library \<Rightarrow> jsval \<Rightarrow> ('w, schema_error, cell) act" where
  "lazied_decode_cell_reference L reference =
     andthen (members_of reference) (\<lambda>m.
     andthen (reads (cell_snapshot L)) (\<lambda>cells.
       case find (\<lambda>c. fst c = member m ''id'') cells of
         Some c \<Rightarrow> ret c
       | None \<Rightarrow> make_receiver L (member m ''name'') (member m ''id'')))"

definition is_propagator_reference_schema :: "jsval \<Rightarrow> bool" where
  "is_propagator_reference_schema v =
     (case v of JObj m \<Rightarrow> member m ''type'' = JStr ''propagator'' \<and> defined (member m ''id'') \<and> defined (member m ''name'')
        \<and> defined (member m ''inputs'') \<and> defined (member m ''outputs'') | _ \<Rightarrow> False)"

definition decode_propagator_reference :: "'w schema_library \<Rightarrow> jsval \<Rightarrow> ('w, schema_error, propagator_ref) act" where
  "decode_propagator_reference L reference =
     (if is_propagator_reference_schema reference then
        andthen (members_of reference) (\<lambda>m.
        andthen (reads (propagator_snapshot L)) (\<lambda>ps.
          case find (\<lambda>p. pr_id p = member m ''id'') ps of
            Some p \<Rightarrow> ret p
          | None \<Rightarrow>
              andthen (elements_of (member m ''inputs'')) (\<lambda>is.
              andthen (each_in (lazied_decode_cell_reference L) is) (\<lambda>inputs.
              andthen (elements_of (member m ''outputs'')) (\<lambda>os.
              andthen (each_in (lazied_decode_cell_reference L) os) (\<lambda>outputs.
                let p = \<lparr>pr_id = member m ''id'', pr_name = member m ''name'', pr_inputs = inputs, pr_outputs = outputs\<rparr>
                in andthen (changes (construct_propagator L p)) (\<lambda>_. ret p)))))))
      else throw InvalidReference)"

type_synonym 'w decoder = "jsval \<Rightarrow> ('w, schema_error, lv) act"

definition map_schema_decode :: "'w decoder \<Rightarrow> (jstring \<times> jsval) list \<Rightarrow> ('w, schema_error, lv) act" where
  "map_schema_decode dec m =
     (let entries = filter (\<lambda>kv. fst kv \<noteq> ''type'') m
      in andthen (each_in (\<lambda>kv. dec (snd kv)) entries) (\<lambda>vs. ret (MapV (zip (map fst entries) vs))))"

definition set_schema_decode :: "'w schema_library \<Rightarrow> 'w decoder \<Rightarrow> (jstring \<times> jsval) list \<Rightarrow> ('w, schema_error, lv) act" where
  "set_schema_decode L dec m =
     andthen (each_in (\<lambda>kv. dec (snd kv)) (filter (\<lambda>kv. fst kv \<noteq> ''type'') m)) (\<lambda>vs. ret (SetV (better_set L vs)))"

definition known_layers :: "jstring list" where
  "known_layers = [''vector_clock'', ''support'']"

definition layered_object_schema_decode :: "'w decoder \<Rightarrow> (jstring \<times> jsval) list \<Rightarrow> ('w, schema_error, lv) act" where
  "layered_object_schema_decode dec m =
     andthen (dec (member m ''base'')) (\<lambda>b.
       let entries = filter (\<lambda>kv. fst kv \<in> set known_layers) (filter (\<lambda>kv. fst kv \<notin> {''type'', ''base_value'', ''base''}) m)
       in andthen (each_in (\<lambda>kv. dec (snd kv)) entries) (\<lambda>vs. ret (LayeredV b (zip (map fst entries) vs))))"

definition lain_element_schema_decode :: "'w decoder \<Rightarrow> (jstring \<times> jsval) list \<Rightarrow> ('w, schema_error, lv) act" where
  "lain_element_schema_decode dec m = andthen (dec (member m ''value'')) (\<lambda>v. ret (ElementV (member m ''element_type'') v))"

definition body_decoded :: "'w decoder \<Rightarrow> jsval \<Rightarrow> ('w, schema_error, lv list) act" where
  "body_decoded dec body =
     (case body of
        JStr s \<Rightarrow>
          (case json_parse s of
             None \<Rightarrow> throw BadJson
           | Some parsed \<Rightarrow> andthen (elements_of parsed) (\<lambda>xs. andthen (each_in dec xs) (\<lambda>vs. ret [ListV vs])))
      | _ \<Rightarrow> throw BadJson)"

definition closure_schema_decode :: "'w decoder \<Rightarrow> (jstring \<times> jsval) list \<Rightarrow> ('w, schema_error, lv) act" where
  "closure_schema_decode dec m =
     andthen (dec (member m ''env'')) (\<lambda>env.
     andthen (dec (member m ''name'')) (\<lambda>name.
     andthen (elements_of (member m ''inputs'')) (\<lambda>is.
     andthen (each_in dec is) (\<lambda>inputs.
     andthen (elements_of (member m ''outputs'')) (\<lambda>os.
     andthen (each_in dec os) (\<lambda>outputs.
     andthen (body_decoded dec (member m ''body'')) (\<lambda>body.
       ret (ClosureV env name inputs outputs body))))))))"

definition primitive_registry :: "(jstring \<times> jstring) list" where
  "primitive_registry =
     [(''+'', ''p_add''), (''-'', ''p_subtract''), (''*'', ''p_multiply''), (''/'', ''p_divide''), (''>'', ''p_greater_than''),
      (''<'', ''p_less_than''), (''>='', ''p_greater_than_or_equal''), (''<='', ''p_less_than_or_equal''), (''=='', ''p_equal''),
      (''not'', ''p_not''), (''bi_sync'', ''bi_sync''), (''socket-client'', ''p_socket_client''), (''socket-server'', ''p_socket_server'')]"

text \<open>The registry is an object, so the names of the members every object has are found in it.\<close>

definition inherited_members :: "jstring list" where
  "inherited_members = [''constructor'', ''hasOwnProperty'', ''isPrototypeOf'', ''propertyIsEnumerable'', ''toLocaleString'',
     ''toString'', ''valueOf'', ''__defineGetter__'', ''__defineSetter__'', ''__lookupGetter__'', ''__lookupSetter__'', ''__proto__'']"

definition registered_constructor :: "jsval \<Rightarrow> jstring option" where
  "registered_constructor name =
     (case name of
        JStr s \<Rightarrow> (case map_of primitive_registry s of
                    Some c \<Rightarrow> Some c
                  | None \<Rightarrow> if s \<in> set inherited_members then Some s else None)
      | _ \<Rightarrow> None)"

definition primitive_schema_decode :: "(jstring \<times> jsval) list \<Rightarrow> ('w, schema_error, lv) act" where
  "primitive_schema_decode m =
     (case registered_constructor (member m ''name'') of
        None \<Rightarrow> throw (UnknownPrimitive (member m ''name''))
      | Some c \<Rightarrow> ret (PrimitiveV (member m ''name'') (member m ''inputs_count'') (member m ''output_count'') c))"

definition interested_neighbor_schema_decode :: "'w schema_library \<Rightarrow> (jstring \<times> jsval) list \<Rightarrow> ('w, schema_error, lv) act" where
  "interested_neighbor_schema_decode L m =
     andthen (decode_propagator_reference L (member m ''propagator'')) (\<lambda>p. ret (NeighborV p (member m ''neighbor_type'')))"

definition decode_default :: "'w schema_library \<Rightarrow> jsval \<Rightarrow> lv" where
  "decode_default L x =
     (let v = (case x of JObj m \<Rightarrow> member m ''value'' | _ \<Rightarrow> JUndef)
      in if v \<noteq> JUndef \<and> is_self_evaluating L v then Atom v
         else if is_self_evaluating L x then Atom x
         else Atom (nothing L))"

definition is_json_string :: "jstring \<Rightarrow> bool" where
  "is_json_string a = (let s = js_trim a in starts_with s ''{'' \<and> ends_with s ''}'')"

definition or_nothing :: "'w schema_library \<Rightarrow> ('w, schema_error, lv) act \<Rightarrow> ('w, schema_error, lv) act" where
  "or_nothing L m w =
     (case m w of
        (Inl OutOfFuel, w') \<Rightarrow> (Inl OutOfFuel, w')
      | (Inl e, w') \<Rightarrow> (Inr (Atom (nothing L)), w')
      | r \<Rightarrow> r)"

definition decode_object :: "'w schema_library \<Rightarrow> 'w decoder \<Rightarrow> (jstring \<times> jsval) list \<Rightarrow> ('w, schema_error, lv) act" where
  "decode_object L dec m =
     (let t = member m ''type'' in
      if t = JStr ''cell'' then andthen (make_receiver L (member m ''name'') (member m ''id'')) (\<lambda>c. ret (CellV c))
      else if t = JStr ''MAP'' then map_schema_decode dec m
      else if t = JStr ''set'' then set_schema_decode L dec m
      else if t = JStr ''layered_object'' then layered_object_schema_decode dec m
      else if t = JStr ''lain_element'' then lain_element_schema_decode dec m
      else if t = JStr ''closure'' then closure_schema_decode dec m
      else if t = JStr ''primitive'' then primitive_schema_decode m
      else if t = JStr ''interested_neighbor'' then interested_neighbor_schema_decode L m
      else if t = JStr ''reference'' \<and> member m ''ref_type'' = JStr ''cell'' then
        andthen (lazied_decode_cell_reference L (JObj m)) (\<lambda>c. ret (CellV c))
      else if is_propagator_reference_schema (JObj m) then
        andthen (decode_propagator_reference L (JObj m)) (\<lambda>p. ret (PropagatorV p))
      else ret (decode_default L (JObj m)))"

primrec gun_db_schema_decode :: "'w schema_library \<Rightarrow> nat \<Rightarrow> 'w decoder" where
  "gun_db_schema_decode L 0 x = throw OutOfFuel"
| "gun_db_schema_decode L (Suc n) x =
     (case x of
        JStr s \<Rightarrow>
          if is_json_string s then
            (case json_parse s of
               None \<Rightarrow> ret (Atom (nothing L))
             | Some j \<Rightarrow> or_nothing L (gun_db_schema_decode L n j))
          else ret (decode_default L x)
      | JObj m \<Rightarrow> decode_object L (gun_db_schema_decode L n) m
      | _ \<Rightarrow> ret (decode_default L x))"

section \<open>The round trip\<close>

text \<open>
  The values that are read back as they were, with the cells and propagators known here. A
  reference to a cell is read back where the encoding writes one: as a value of a map or as the
  environment of a closure.
\<close>

definition known_cell :: "'w schema_library \<Rightarrow> 'w \<Rightarrow> cell \<Rightarrow> bool" where
  "known_cell L w c \<longleftrightarrow> find (\<lambda>d. fst d = fst c) (cell_snapshot L w) = Some c \<and> wf_json (fst c) \<and> wf_json (snd c)"

definition known_propagator :: "'w schema_library \<Rightarrow> 'w \<Rightarrow> propagator_ref \<Rightarrow> bool" where
  "known_propagator L w p \<longleftrightarrow>
     find (\<lambda>q. pr_id q = pr_id p) (propagator_snapshot L w) = Some p \<and> defined (pr_id p) \<and> defined (pr_name p)
     \<and> wf_json (pr_id p) \<and> wf_json (pr_name p) \<and> list_all (\<lambda>c. wf_json (fst c) \<and> wf_json (snd c)) (pr_inputs p @ pr_outputs p)"

definition plain_keys_of :: "jstring list \<Rightarrow> jstring list \<Rightarrow> bool" where
  "plain_keys_of reserved ks \<longleftrightarrow> distinct ks \<and> list_all (\<lambda>k. \<not> is_index_key k \<and> k \<noteq> proto_key \<and> k \<notin> set reserved) ks"

definition is_element_value :: "lv \<Rightarrow> bool" where
  "is_element_value v = (case v of ElementV _ _ \<Rightarrow> True | _ \<Rightarrow> False)"

definition reference_ok :: "'w schema_library \<Rightarrow> 'w \<Rightarrow> (lv \<Rightarrow> bool) \<Rightarrow> lv \<Rightarrow> bool" where
  "reference_ok L w ok v = (case v of CellV c \<Rightarrow> known_cell L w c | _ \<Rightarrow> ok v)"

primrec sendable :: "'w schema_library \<Rightarrow> 'w \<Rightarrow> nat \<Rightarrow> lv \<Rightarrow> bool" where
  "sendable L w 0 v = False"
| "sendable L w (Suc n) v =
     (case v of
        Atom a \<Rightarrow> is_self_evaluating L a \<and> a \<noteq> JUndef \<and> wf_json a
      | CellV c \<Rightarrow> False
      | MapV m \<Rightarrow> plain_keys_of [''type''] (map fst m) \<and> list_all (reference_ok L w (sendable L w n)) (map snd m)
      | SetV s \<Rightarrow> plain_keys_of [''type''] (map (identify_by L) s) \<and> better_set L s = s \<and> list_all (sendable L w n) s
      | LayeredV base ls \<Rightarrow>
          distinct (map fst ls) \<and> set (map fst ls) \<subseteq> set known_layers \<and> sendable L w n base \<and> list_all (sendable L w n) (map snd ls)
      | ElementV t x \<Rightarrow> wf_json t \<and> sendable L w n x
      | ListV xs \<Rightarrow> False
      | ClosureV env name inputs outputs body \<Rightarrow>
          reference_ok L w (sendable L w n) env \<and> list_all is_element_value (name # inputs @ outputs)
          \<and> list_all (sendable L w n) (name # inputs @ outputs)
          \<and> (case body of [ListV xs] \<Rightarrow> list_all is_element_value xs \<and> list_all (sendable L w n) xs | _ \<Rightarrow> False)
      | PrimitiveV name ins outs c \<Rightarrow> registered_constructor name = Some c \<and> wf_json ins \<and> wf_json outs
      | NeighborV p types \<Rightarrow> known_propagator L w p \<and> wf_json types
      | PropagatorV p \<Rightarrow> False)"

text \<open>What a value and its stored form have to do with each other.\<close>

definition reads_back :: "'w schema_library \<Rightarrow> 'w \<Rightarrow> nat \<Rightarrow> lv \<Rightarrow> jsval \<Rightarrow> bool" where
  "reads_back L w n v j \<longleftrightarrow> wf_json j \<and> (\<forall>k. 2 * n \<le> k \<and> 0 < k \<longrightarrow> gun_db_schema_decode L k j w = (Inr v, w))"

definition carries :: "'w schema_library \<Rightarrow> 'w \<Rightarrow> nat \<Rightarrow> lv \<Rightarrow> jsval \<Rightarrow> bool" where
  "carries L w n v j \<longleftrightarrow> (\<forall>k. n \<le> k \<longrightarrow> gun_db_schema_encode L k v = Inr j) \<and> reads_back L w n v j"

definition refers :: "'w schema_library \<Rightarrow> 'w \<Rightarrow> nat \<Rightarrow> lv \<Rightarrow> jsval \<Rightarrow> bool" where
  "refers L w n v j \<longleftrightarrow> (\<forall>k. n \<le> k \<longrightarrow> reference_or (gun_db_schema_encode L k) v = Inr j) \<and> reads_back L w n v j"

lemma refers_wf: "refers L w n v j \<Longrightarrow> wf_json j" and carries_wf: "carries L w n v j \<Longrightarrow> wf_json j"
  by (simp_all add: refers_def carries_def reads_back_def)

lemma refers_read: "refers L w n v j \<Longrightarrow> 2 * n \<le> k \<Longrightarrow> 0 < k \<Longrightarrow> gun_db_schema_decode L k j w = (Inr v, w)"
  and carries_read: "carries L w n v j \<Longrightarrow> 2 * n \<le> k \<Longrightarrow> 0 < k \<Longrightarrow> gun_db_schema_decode L k j w = (Inr v, w)"
  by (simp_all add: refers_def carries_def reads_back_def)

lemma refers_write: "refers L w n v j \<Longrightarrow> n \<le> k \<Longrightarrow> reference_or (gun_db_schema_encode L k) v = Inr j"
  and carries_write: "carries L w n v j \<Longrightarrow> n \<le> k \<Longrightarrow> gun_db_schema_encode L k v = Inr j"
  by (simp_all add: refers_def carries_def)

lemma carriesI:
  assumes "\<And>k. n \<le> k \<Longrightarrow> gun_db_schema_encode L (Suc k) v = Inr j" and "reads_back L w (Suc n) v j"
  shows "carries L w (Suc n) v j"
proof -
  have "gun_db_schema_encode L k v = Inr j" if "Suc n \<le> k" for k using that assms(1) by (cases k) auto
  then show ?thesis using assms(2) by (simp add: carries_def)
qed

lemma each_map: "(\<And>x. x \<in> set xs \<Longrightarrow> f x = Inr (g x)) \<Longrightarrow> each f xs = Inr (map g xs)"
  by (induction xs) auto

lemma each_in_map: "(\<And>x. x \<in> set xs \<Longrightarrow> f (h x) w = (Inr (g x), w)) \<Longrightarrow> each_in f (map h xs) w = (Inr (map g xs), w)"
  by (induction xs) (auto simp: andthen_run)

lemma put_all_append:
  "distinct (map fst (m @ kvs)) \<Longrightarrow> (\<And>k. k \<in> fst ` set kvs \<Longrightarrow> \<not> is_index_key k \<and> k \<noteq> proto_key) \<Longrightarrow> put_all kvs m = m @ kvs"
proof (induction kvs arbitrary: m)
  case (Cons kv kvs)
  obtain k v where kv: "kv = (k, v)" by force
  have "map_of m k = None" using Cons.prems(1) by (auto simp: kv map_of_eq_None_iff)
  then have "obj_set k v m = m @ [(k, v)]" using Cons.prems(2) [of k] by (simp add: kv obj_set_def)
  then show ?case using Cons.IH [of "m @ [(k, v)]"] Cons.prems by (simp add: kv put_all_def)
qed (simp add: put_all_def)

lemma put_all_plain:
  assumes "plain_keys_of (map fst m) ks" and "length vs = length ks" and "distinct (map fst m)"
  shows "put_all (zip ks vs) m = m @ zip ks vs"
proof (rule put_all_append)
  have keys: "map fst (zip ks vs) = ks" using assms(2) by (simp add: map_fst_zip)
  show "distinct (map fst (m @ zip ks vs))" using assms keys by (auto simp: plain_keys_of_def list_all_iff)
  fix k assume "k \<in> fst ` set (zip ks vs)"
  then have "k \<in> set ks" using keys by (metis list.set_map)
  then show "\<not> is_index_key k \<and> k \<noteq> proto_key" using assms(1) by (auto simp: plain_keys_of_def list_all_iff)
qed

lemma wf_plain_object:
  "distinct (map fst m) \<Longrightarrow> (\<And>k. k \<in> fst ` set m \<Longrightarrow> \<not> is_index_key k) \<Longrightarrow> (\<And>k v. (k, v) \<in> set m \<Longrightarrow> wf_json v) \<Longrightarrow> wf_json (JObj m)"
  using json_object_id [of m] by (auto simp: wf_members_iff)

lemma wf_elems_iff: "wf_elems vs \<longleftrightarrow> (\<forall>v \<in> set vs. wf_json v)"
  by (induction vs) auto

lemma is_json_string_braces: "is_json_string (CHR 0x7B # s @ [CHR 0x7D])"
proof -
  have "js_trim (CHR 0x7B # s @ [CHR 0x7D]) = CHR 0x7B # s @ [CHR 0x7D]" by (simp add: js_trim_def is_space_def)
  moreover have "ends_with (CHR 0x7B # s @ [CHR 0x7D]) [CHR 0x7D]" using ends_with_append [of "CHR 0x7B # s" "[CHR 0x7D]"] by simp
  ultimately show ?thesis by (simp add: is_json_string_def starts_with_def del: ends_with_append)
qed

lemma json_text_object:
  assumes "wf_json (JObj m)"
  obtains s where "json_text (JObj m) = JStr s" and "is_json_string s" and "json_parse s = Some (JObj m)"
proof -
  obtain s where s: "json_stringify (JObj m) = Some s" "json_parse s = Some (JObj m)" using json_parse_stringify [OF assms] .
  have "s = CHR 0x7B # join_with '','' (json_members m) @ [CHR 0x7D]" using s(1) unfolding json_stringify.simps by (simp only: option.inject append_Cons append_Nil)
  then have "is_json_string s" by (simp only: is_json_string_braces)
  moreover have "json_text (JObj m) = JStr s" unfolding json_text_def s(1) option.case by (rule refl)
  ultimately show thesis using s(2) by (intro that)
qed

lemma decode_text_twice:
  "is_json_string s \<Longrightarrow> json_parse s = Some (JObj m) \<Longrightarrow> decode_object L (gun_db_schema_decode L k) m w = (Inr v, w)
     \<Longrightarrow> gun_db_schema_decode L (Suc (Suc k)) (JStr s) w = (Inr v, w)"
  by (simp add: or_nothing_def)

lemma text_reads_back:
  assumes wf: "wf_json (JObj m)" and dec: "\<And>k. 2 * n \<le> k \<Longrightarrow> decode_object L (gun_db_schema_decode L k) m w = (Inr v, w)"
  shows "reads_back L w (Suc n) v (json_text (JObj m))"
proof -
  obtain s where s: "json_text (JObj m) = JStr s" "is_json_string s" "json_parse s = Some (JObj m)" using json_text_object [OF wf] .
  have "gun_db_schema_decode L k (JStr s) w = (Inr v, w)" if k: "2 * Suc n \<le> k" for k
  proof -
    have "k = Suc (Suc (k - 2))" using k by arith
    moreover have "2 * n \<le> k - 2" using k by arith
    ultimately show ?thesis using s(1) decode_text_twice [OF s(2,3) dec] by metis
  qed
  then show ?thesis by (simp add: reads_back_def s)
qed

lemma object_reads_back:
  assumes wf: "wf_json (JObj m)" and dec: "\<And>k. 2 * n < k \<Longrightarrow> decode_object L (gun_db_schema_decode L k) m w = (Inr v, w)"
  shows "reads_back L w (Suc n) v (JObj m)"
proof -
  have "gun_db_schema_decode L k (JObj m) w = (Inr v, w)" if "2 * Suc n \<le> k" for k
    using that dec [of "k - 1"] by (cases k) auto
  then show ?thesis using wf by (simp add: reads_back_def)
qed

definition carried :: "'w schema_library \<Rightarrow> 'w \<Rightarrow> nat \<Rightarrow> bool" where
  "carried L w n \<longleftrightarrow> (\<forall>v. sendable L w n v \<longrightarrow> (\<exists>j. carries L w n v j))"

lemma carried_list:
  assumes "carried L w n" and "list_all (sendable L w n) xs"
  obtains g where "\<And>x. x \<in> set xs \<Longrightarrow> carries L w n x (g x)"
proof -
  have "\<forall>x \<in> set xs. \<exists>j. carries L w n x j" using assms by (auto simp: carried_def list_all_iff)
  then show thesis using that bchoice [of "set xs" "carries L w n"] by blast
qed

lemma known_cell_read:
  "known_cell L w c \<Longrightarrow> lazied_decode_cell_reference L (encode_cell_reference c) w = (Inr c, w)"
  by (simp add: known_cell_def lazied_decode_cell_reference_def encode_cell_reference_def make_reference_def members_of_def member_def tag_def)

lemma wf_cell_reference: "wf_json (fst c) \<Longrightarrow> wf_json (snd c) \<Longrightarrow> wf_json (encode_cell_reference c)"
  unfolding encode_cell_reference_def make_reference_def
  by (rule wf_plain_object) (auto simp: tag_def is_index_key_def is_digit_def)

lemma known_cell_refers:
  assumes "known_cell L w c" shows "refers L w n (CellV c) (encode_cell_reference c)"
proof -
  have "gun_db_schema_decode L k (encode_cell_reference c) w = (Inr (CellV c), w)" if "0 < k" for k
  proof -
    have m: "encode_cell_reference c = JObj [tag ''reference'', (''ref_type'', JStr ''cell''), (''id'', fst c), (''name'', snd c)]"
      by (simp add: encode_cell_reference_def make_reference_def)
    show ?thesis using that known_cell_read [OF assms] by (cases k) (simp_all add: m decode_object_def member_def tag_def andthen_run)
  qed
  then show ?thesis using assms by (simp add: refers_def reads_back_def reference_or_def wf_cell_reference known_cell_def)
qed

lemma reference_refers:
  assumes "carried L w n" and "reference_ok L w (sendable L w n) v" shows "\<exists>j. refers L w n v j"
proof (cases v)
  case (CellV c)
  then show ?thesis using assms(2) known_cell_refers [of L w c n] by (auto simp: reference_ok_def)
qed (use assms in \<open>auto simp: reference_ok_def carried_def carries_def refers_def reference_or_def\<close>)

lemma zip_fst_map: "zip (map fst m) (map (\<lambda>kv. g (snd kv)) m) = map (\<lambda>kv. (fst kv, g (snd kv))) m"
  by (induction m) auto

lemma wf_tagged:
  assumes "plain_keys_of [''type''] (map fst m)" and "\<And>v. v \<in> snd ` set m \<Longrightarrow> wf_json v"
  shows "wf_json (JObj (tag t # m))"
proof (rule wf_plain_object)
  have t: "\<not> is_index_key ''type''" by (simp add: is_index_key_def is_digit_def)
  have keys: "distinct (map fst m)" "\<And>k. k \<in> fst ` set m \<Longrightarrow> \<not> is_index_key k \<and> k \<noteq> ''type''"
    using assms(1) by (auto simp: plain_keys_of_def list_all_iff)
  show "distinct (map fst (tag t # m))" using keys by (auto simp: tag_def)
  show "\<not> is_index_key k" if "k \<in> fst ` set (tag t # m)" for k using that keys t by (auto simp: tag_def)
  show "wf_json v" if "(k, v) \<in> set (tag t # m)" for k v using that assms(2) by (force simp: tag_def)
qed

lemma map_carries:
  assumes keys: "plain_keys_of [''type''] (map fst m)" and g: "\<And>kv. kv \<in> set m \<Longrightarrow> refers L w n (snd kv) (g (snd kv))"
  shows "carries L w (Suc n) (MapV m) (JObj (tag ''MAP'' # map (\<lambda>kv. (fst kv, g (snd kv))) m))"
proof -
  let ?kvs = "map (\<lambda>kv. (fst kv, g (snd kv))) m"
  have enc: "gun_db_schema_encode L (Suc k) (MapV m) = Inr (JObj (tag ''MAP'' # ?kvs))" if "n \<le> k" for k
  proof -
    have "each (\<lambda>kv. reference_or (gun_db_schema_encode L k) (snd kv)) m = Inr (map (\<lambda>kv. g (snd kv)) m)"
      using refers_write [OF g] that by (intro each_map) auto
    moreover have "put_all (zip (map fst m) (map (\<lambda>kv. g (snd kv)) m)) [tag ''MAP''] = [tag ''MAP''] @ zip (map fst m) (map (\<lambda>kv. g (snd kv)) m)"
      using keys by (intro put_all_plain) (auto simp: tag_def)
    ultimately show ?thesis by (simp add: map_schema_def chain_def zip_fst_map)
  qed
  have wf: "wf_json (JObj (tag ''MAP'' # ?kvs))"
  proof (rule wf_tagged)
    show "plain_keys_of [''type''] (map fst ?kvs)" using keys by (simp add: comp_def)
    show "wf_json v" if "v \<in> snd ` set ?kvs" for v using that refers_wf [OF g] by auto
  qed
  have f: "filter (\<lambda>kv. fst kv \<noteq> ''type'') (tag ''MAP'' # ?kvs) = ?kvs"
    using keys by (auto simp: tag_def plain_keys_of_def list_all_iff filter_id_conv)
  have "decode_object L (gun_db_schema_decode L k) (tag ''MAP'' # ?kvs) w = (Inr (MapV m), w)" if "2 * n < k" for k
  proof -
    have "each_in (\<lambda>kv. gun_db_schema_decode L k (snd kv)) ?kvs w = (Inr (map snd m), w)"
      using refers_read [OF g] that by (intro each_in_map) auto
    then have "map_schema_decode (gun_db_schema_decode L k) (tag ''MAP'' # ?kvs) w = (Inr (MapV m), w)"
      unfolding map_schema_decode_def f Let_def by (simp add: andthen_run comp_def zip_map_fst_snd)
    then show ?thesis by (simp add: decode_object_def member_def tag_def)
  qed
  then have "reads_back L w (Suc n) (MapV m) (JObj (tag ''MAP'' # ?kvs))" using wf by (intro object_reads_back)
  then show ?thesis using enc by (intro carriesI)
qed

lemma set_carries:
  assumes keys: "plain_keys_of [''type''] (map (identify_by L) s)" and set: "better_set L s = s"
    and g: "\<And>v. v \<in> set s \<Longrightarrow> carries L w n v (g v)"
  shows "carries L w (Suc n) (SetV s) (JObj (tag ''set'' # map (\<lambda>v. (identify_by L v, g v)) s))"
proof -
  let ?kvs = "map (\<lambda>v. (identify_by L v, g v)) s"
  have zip: "zip (map (identify_by L) s) (map g s) = ?kvs" by (induction s) auto
  have enc: "gun_db_schema_encode L (Suc k) (SetV s) = Inr (JObj (tag ''set'' # ?kvs))" if "n \<le> k" for k
  proof -
    have "each (gun_db_schema_encode L k) s = Inr (map g s)" using carries_write [OF g] that by (intro each_map) auto
    moreover have "put_all (zip (map (identify_by L) s) (map g s)) [tag ''set''] = [tag ''set''] @ zip (map (identify_by L) s) (map g s)"
      using keys by (intro put_all_plain) (auto simp: tag_def)
    ultimately show ?thesis by (simp add: set_schema_encode_def chain_def zip)
  qed
  have wf: "wf_json (JObj (tag ''set'' # ?kvs))"
  proof (rule wf_tagged)
    show "plain_keys_of [''type''] (map fst ?kvs)" using keys by (simp add: comp_def)
    show "wf_json v" if "v \<in> snd ` set ?kvs" for v using that carries_wf [OF g] by auto
  qed
  have f: "filter (\<lambda>kv. fst kv \<noteq> ''type'') (tag ''set'' # ?kvs) = ?kvs"
    using keys by (auto simp: tag_def plain_keys_of_def list_all_iff filter_id_conv)
  have "decode_object L (gun_db_schema_decode L k) (tag ''set'' # ?kvs) w = (Inr (SetV s), w)" if "2 * n < k" for k
  proof -
    have "each_in (\<lambda>kv. gun_db_schema_decode L k (snd kv)) ?kvs w = (Inr (map (\<lambda>v. v) s), w)"
      using carries_read [OF g] that by (intro each_in_map) auto
    then have "set_schema_decode L (gun_db_schema_decode L k) (tag ''set'' # ?kvs) w = (Inr (SetV s), w)"
      unfolding set_schema_decode_def f by (simp add: andthen_run set)
    then show ?thesis by (simp add: decode_object_def member_def tag_def)
  qed
  then have "reads_back L w (Suc n) (SetV s) (JObj (tag ''set'' # ?kvs))" using wf by (intro object_reads_back)
  then show ?thesis using enc by (intro carriesI)
qed

lemma known_layers_plain:
  assumes "distinct ks" and "set ks \<subseteq> set known_layers"
  shows "plain_keys_of [''type'', ''base''] ks"
proof -
  have "\<not> is_index_key k \<and> k \<noteq> proto_key \<and> k \<notin> set [''type'', ''base'']" if "k \<in> set known_layers" for k
    using that by (auto simp: known_layers_def proto_key_def is_index_key_def is_digit_def)
  then show ?thesis using assms by (auto simp: plain_keys_of_def list_all_iff)
qed

lemma layered_carries:
  assumes keys: "distinct (map fst ls)" "set (map fst ls) \<subseteq> set known_layers"
    and b: "carries L w n base b" and g: "\<And>kv. kv \<in> set ls \<Longrightarrow> carries L w n (snd kv) (g (snd kv))" and n: "0 < n"
  shows "carries L w (Suc n) (LayeredV base ls) (json_text (JObj (tag ''layered_object'' # (''base'', b) # map (\<lambda>kv. (fst kv, g (snd kv))) ls)))"
proof -
  let ?kvs = "map (\<lambda>kv. (fst kv, g (snd kv))) ls" let ?m = "tag ''layered_object'' # (''base'', b) # ?kvs"
  note plain = known_layers_plain [OF keys]
  have enc: "gun_db_schema_encode L (Suc k) (LayeredV base ls) = Inr (json_text (JObj ?m))" if "n \<le> k" for k
  proof -
    have "each (\<lambda>kv. gun_db_schema_encode L k (snd kv)) ls = Inr (map (\<lambda>kv. g (snd kv)) ls)"
      using carries_write [OF g] that by (intro each_map) auto
    moreover have "put_all (zip (map fst ls) (map (\<lambda>kv. g (snd kv)) ls)) [tag ''layered_object'', (''base'', b)]
        = [tag ''layered_object'', (''base'', b)] @ zip (map fst ls) (map (\<lambda>kv. g (snd kv)) ls)"
      using plain by (intro put_all_plain) (auto simp: tag_def)
    ultimately show ?thesis using carries_write [OF b that] by (simp add: layered_object_schema_def chain_def zip_fst_map)
  qed
  have wf: "wf_json (JObj ?m)"
  proof (rule wf_tagged)
    have "\<not> is_index_key ''base''" by (simp add: is_index_key_def is_digit_def)
    then show "plain_keys_of [''type''] (map fst ((''base'', b) # ?kvs))"
      using plain by (auto simp: plain_keys_of_def list_all_iff comp_def proto_key_def)
    show "wf_json v" if "v \<in> snd ` set ((''base'', b) # ?kvs)" for v using that carries_wf [OF g] carries_wf [OF b] by auto
  qed
  have "filter (\<lambda>kv. fst kv \<notin> {''type'', ''base_value'', ''base''}) ?m = ?kvs"
    using keys(2) by (auto simp: tag_def filter_id_conv known_layers_def)
  moreover have "filter (\<lambda>kv. fst kv \<in> set known_layers) ?kvs = ?kvs" using keys(2) by (auto simp: filter_id_conv)
  ultimately have f: "filter (\<lambda>kv. fst kv \<in> set known_layers) (filter (\<lambda>kv. fst kv \<notin> {''type'', ''base_value'', ''base''}) ?m) = ?kvs" by metis
  have "decode_object L (gun_db_schema_decode L k) ?m w = (Inr (LayeredV base ls), w)" if "2 * n \<le> k" for k
  proof -
    have k: "0 < k" using that n by linarith
    have "each_in (\<lambda>kv. gun_db_schema_decode L k (snd kv)) ?kvs w = (Inr (map snd ls), w)"
      using carries_read [OF g] that k by (intro each_in_map) auto
    moreover have "gun_db_schema_decode L k (member ?m ''base'') w = (Inr base, w)" using carries_read [OF b that k] by (simp add: member_def tag_def)
    ultimately have "layered_object_schema_decode (gun_db_schema_decode L k) ?m w = (Inr (LayeredV base ls), w)"
      unfolding layered_object_schema_decode_def f Let_def by (simp add: andthen_run comp_def zip_map_fst_snd)
    then show ?thesis by (simp add: decode_object_def member_def tag_def)
  qed
  then have "reads_back L w (Suc n) (LayeredV base ls) (json_text (JObj ?m))" using wf by (intro text_reads_back)
  then show ?thesis using enc by (intro carriesI)
qed

lemma carries_pos: "carries L w n v j \<Longrightarrow> 0 < n"
  using carries_write [of L w n v j 0] by (cases n) auto

lemma members_plain [simp]: "\<not> is_index_key ''value''" "\<not> is_index_key ''element_type''" "\<not> is_index_key ''env''" "\<not> is_index_key ''name''"
  "\<not> is_index_key ''inputs''" "\<not> is_index_key ''outputs''" "\<not> is_index_key ''body''" "\<not> is_index_key ''inputs_count''"
  "\<not> is_index_key ''output_count''" "\<not> is_index_key ''id''" "\<not> is_index_key ''propagator''" "\<not> is_index_key ''neighbor_type''" "\<not> is_index_key ''type''"
  by (simp_all add: is_index_key_def is_digit_def)

lemma atom_carries:
  assumes "is_self_evaluating L a" and "a \<noteq> JUndef" and "wf_json a"
  shows "carries L w (Suc n) (Atom a) (plain_value_schema_encode a)"
proof (rule carriesI)
  show "gun_db_schema_encode L (Suc k) (Atom a) = Inr (plain_value_schema_encode a)" for k
    using assms by (simp add: encode_default_def)
  have "wf_json (plain_value_schema_encode a)"
    unfolding plain_value_schema_encode_def using assms by (intro wf_plain_object) auto
  then show "reads_back L w (Suc n) (Atom a) (plain_value_schema_encode a)"
    unfolding plain_value_schema_encode_def
    by (rule object_reads_back)
      (simp add: decode_object_def member_def decode_default_def is_propagator_reference_schema_def assms(1,2))
qed

lemma element_carries:
  assumes "wf_json t" and x: "carries L w n x j"
  shows "carries L w (Suc n) (ElementV t x) (JObj [tag ''lain_element'', (''element_type'', t), (''value'', j)])"
proof (rule carriesI)
  show "gun_db_schema_encode L (Suc k) (ElementV t x) = Inr (JObj [tag ''lain_element'', (''element_type'', t), (''value'', j)])" if "n \<le> k" for k
    using carries_write [OF x that] by (simp add: lain_element_schema_def chain_def)
  have "wf_json (JObj [tag ''lain_element'', (''element_type'', t), (''value'', j)])"
    using assms(1) carries_wf [OF x] by (intro wf_plain_object) (auto simp: tag_def)
  then show "reads_back L w (Suc n) (ElementV t x) (JObj [tag ''lain_element'', (''element_type'', t), (''value'', j)])"
  proof (rule object_reads_back)
    fix k assume k: "2 * n < k"
    then have "gun_db_schema_decode L k j w = (Inr x, w)" using carries_read [OF x] by simp
    then show "decode_object L (gun_db_schema_decode L k) [tag ''lain_element'', (''element_type'', t), (''value'', j)] w = (Inr (ElementV t x), w)"
      by (simp add: decode_object_def lain_element_schema_decode_def member_def tag_def andthen_run)
  qed
qed

lemma element_schema:
  assumes "is_element_value v" and "carries L w n v j" and "n \<le> k"
  shows "lain_element_schema (gun_db_schema_encode L k) v = Inr j"
proof -
  obtain t x where v: "v = ElementV t x" using assms(1) by (cases v) (auto simp: is_element_value_def)
  have "gun_db_schema_encode L (Suc k) v = Inr j" using assms(2,3) carries_write le_SucI by metis
  then show ?thesis by (simp add: v)
qed

lemma primitive_carries:
  assumes "registered_constructor name = Some c" and "wf_json ins" and "wf_json outs"
  shows "carries L w (Suc n) (PrimitiveV name ins outs c) (primitive_schema name ins outs)"
proof (rule carriesI)
  show "gun_db_schema_encode L (Suc k) (PrimitiveV name ins outs c) = Inr (primitive_schema name ins outs)" for k by simp
  have "wf_json name" using assms(1) by (auto simp: registered_constructor_def split: jsval.splits)
  then have "wf_json (primitive_schema name ins outs)"
    unfolding primitive_schema_def using assms(2,3) by (intro wf_plain_object) (auto simp: tag_def)
  then show "reads_back L w (Suc n) (PrimitiveV name ins outs c) (primitive_schema name ins outs)"
    unfolding primitive_schema_def
    by (rule object_reads_back) (simp add: decode_object_def primitive_schema_decode_def member_def tag_def assms(1))
qed

lemma wf_propagator_reference:
  "known_propagator L w p \<Longrightarrow> wf_json (make_propagator_reference p)"
  unfolding make_propagator_reference_def known_propagator_def
  by (intro wf_plain_object) (auto simp: tag_def wf_elems_iff list_all_iff wf_cell_reference)

lemma known_propagator_read:
  "known_propagator L w p \<Longrightarrow> decode_propagator_reference L (make_propagator_reference p) w = (Inr p, w)"
  by (simp add: known_propagator_def decode_propagator_reference_def is_propagator_reference_schema_def make_propagator_reference_def
      member_def tag_def defined_def members_of_def)

lemma neighbor_carries:
  assumes "known_propagator L w p" and "wf_json types"
  shows "carries L w (Suc n) (NeighborV p types) (json_text (interested_neighbor_schema p types))"
proof (rule carriesI)
  show "gun_db_schema_encode L (Suc k) (NeighborV p types) = Inr (json_text (interested_neighbor_schema p types))" for k by simp
  have "wf_json (interested_neighbor_schema p types)"
    unfolding interested_neighbor_schema_def using assms(2) wf_propagator_reference [OF assms(1)]
    by (intro wf_plain_object) (auto simp: tag_def)
  then show "reads_back L w (Suc n) (NeighborV p types) (json_text (interested_neighbor_schema p types))"
    unfolding interested_neighbor_schema_def
    by (rule text_reads_back)
      (simp add: decode_object_def interested_neighbor_schema_decode_def member_def tag_def known_propagator_read [OF assms(1)] andthen_run)
qed

lemma element_list:
  assumes "list_all is_element_value xs" and "\<And>x. x \<in> set xs \<Longrightarrow> carries L w n x (g x)"
  shows "n \<le> k \<Longrightarrow> each (lain_element_schema (gun_db_schema_encode L k)) xs = Inr (map g xs)"
    and "2 * n \<le> k \<Longrightarrow> 0 < k \<Longrightarrow> each_in (gun_db_schema_decode L k) (map g xs) w = (Inr xs, w)"
proof -
  show "each (lain_element_schema (gun_db_schema_encode L k)) xs = Inr (map g xs)" if "n \<le> k"
    using assms that by (intro each_map element_schema) (auto simp: list_all_iff)
  have "each_in (gun_db_schema_decode L k) (map g xs) w = (Inr (map (\<lambda>x. x) xs), w)" if "2 * n \<le> k" "0 < k"
    using carries_read [OF assms(2)] that by (intro each_in_map) auto
  then show "each_in (gun_db_schema_decode L k) (map g xs) w = (Inr xs, w)" if "2 * n \<le> k" "0 < k"
    using that by simp
qed

lemma closure_carries:
  assumes env: "refers L w n env e" and elems: "list_all is_element_value (name # inputs @ outputs @ xs)"
    and g: "\<And>x. x \<in> set (name # inputs @ outputs @ xs) \<Longrightarrow> carries L w n x (g x)"
  shows "\<exists>j. carries L w (Suc n) (ClosureV env name inputs outputs [ListV xs]) j"
proof -
  have el: "list_all is_element_value [name]" "list_all is_element_value inputs" "list_all is_element_value outputs" "list_all is_element_value xs"
    using elems by auto
  have gl: "\<And>x. x \<in> set [name] \<Longrightarrow> carries L w n x (g x)" "\<And>x. x \<in> set inputs \<Longrightarrow> carries L w n x (g x)"
    "\<And>x. x \<in> set outputs \<Longrightarrow> carries L w n x (g x)" "\<And>x. x \<in> set xs \<Longrightarrow> carries L w n x (g x)"
    using g by auto
  have n: "0 < n" using g [of name] carries_pos by auto
  have "wf_json (JArr (map g xs))" using carries_wf [OF gl(4)] by (simp add: wf_elems_iff)
  then obtain s where s: "json_stringify (JArr (map g xs)) = Some s" "json_parse s = Some (JArr (map g xs))" using json_parse_stringify by metis
  have body: "json_text (JArr (map g xs)) = JStr s" unfolding json_text_def s(1) option.case by (rule refl)
  let ?m = "[tag ''closure'', (''env'', e), (''name'', g name), (''inputs'', JArr (map g inputs)), (''outputs'', JArr (map g outputs)), (''body'', JStr s)]"
  have enc: "gun_db_schema_encode L (Suc k) (ClosureV env name inputs outputs [ListV xs]) = Inr (json_text (JObj ?m))" if "n \<le> k" for k
  proof -
    have nm: "lain_element_schema (gun_db_schema_encode L k) name = Inr (g name)" using element_schema [OF _ g that, of name] el(1) by simp
    have b: "body_encoded (gun_db_schema_encode L k) [ListV xs] = Inr (JStr s)"
      unfolding body_encoded_def using element_list(1) [OF el(4) gl(4) that] body by (simp add: chain_def)
    show ?thesis unfolding gun_db_schema_encode.simps lv.case closure_schema_def
      using refers_write [OF env that] nm b element_list(1) [OF el(2) gl(2) that] element_list(1) [OF el(3) gl(3) that] by (simp add: chain_def)
  qed
  have wf: "wf_json (JObj ?m)"
    using refers_wf [OF env] carries_wf [OF g] by (intro wf_plain_object) (auto simp: tag_def wf_elems_iff)
  have "decode_object L (gun_db_schema_decode L k) ?m w = (Inr (ClosureV env name inputs outputs [ListV xs]), w)" if k: "2 * n \<le> k" for k
  proof -
    have k0: "0 < k" using k n by linarith
    have nm: "gun_db_schema_decode L k (g name) w = (Inr name, w)" using carries_read [OF g k k0, of name] by simp
    have b: "body_decoded (gun_db_schema_decode L k) (JStr s) w = (Inr [ListV xs], w)"
      using element_list(2) [OF el(4) gl(4) k k0] by (simp add: body_decoded_def s(2) elements_of_def andthen_run)
    have "closure_schema_decode (gun_db_schema_decode L k) ?m w = (Inr (ClosureV env name inputs outputs [ListV xs]), w)"
      using refers_read [OF env k k0] nm b element_list(2) [OF el(2) gl(2) k k0] element_list(2) [OF el(3) gl(3) k k0]
      by (simp add: closure_schema_decode_def member_def tag_def elements_of_def andthen_run)
    then show ?thesis by (simp add: decode_object_def member_def tag_def)
  qed
  then have "reads_back L w (Suc n) (ClosureV env name inputs outputs [ListV xs]) (json_text (JObj ?m))" using wf by (intro text_reads_back)
  then show ?thesis using enc by (intro exI carriesI)
qed

lemma all_carried: "carried L w n"
proof (induction n)
  case (Suc n)
  have "\<exists>j. carries L w (Suc n) v j" if ok: "sendable L w (Suc n) v" for v
  proof (cases v)
    case (Atom a)
    then show ?thesis using ok atom_carries [of L a w n] by auto
  next
    case (MapV m)
    then have keys: "plain_keys_of [''type''] (map fst m)" and "\<forall>x \<in> snd ` set m. \<exists>j. refers L w n x j"
      using ok reference_refers [OF Suc.IH] by (auto simp: list_all_iff)
    then obtain g where "\<forall>x \<in> snd ` set m. refers L w n x (g x)" using bchoice [of "snd ` set m" "refers L w n"] by blast
    then show ?thesis using map_carries [OF keys, of L w n g] MapV by auto
  next
    case (SetV s)
    then have s: "plain_keys_of [''type''] (map (identify_by L) s)" "better_set L s = s" "list_all (sendable L w n) s" using ok by auto
    obtain g where "\<And>x. x \<in> set s \<Longrightarrow> carries L w n x (g x)" using carried_list [OF Suc.IH s(3)] by blast
    then show ?thesis using set_carries [OF s(1,2)] SetV by blast
  next
    case (LayeredV base ls)
    then have ls: "distinct (map fst ls)" "set (map fst ls) \<subseteq> set known_layers" "list_all (sendable L w n) (base # map snd ls)" using ok by auto
    obtain g where g: "\<And>x. x \<in> set (base # map snd ls) \<Longrightarrow> carries L w n x (g x)" using carried_list [OF Suc.IH ls(3)] by blast
    have b: "carries L w n base (g base)" using g by simp
    have l: "carries L w n (snd kv) (g (snd kv))" if "kv \<in> set ls" for kv using g that by simp
    show ?thesis unfolding LayeredV by (rule exI) (rule layered_carries [OF ls(1,2) b l carries_pos [OF b]])
  next
    case (ElementV t x)
    then obtain j where j: "carries L w n x j" and t: "wf_json t" using ok Suc.IH by (auto simp: carried_def)
    show ?thesis unfolding ElementV by (rule exI) (rule element_carries [OF t j])
  next
    case (ClosureV env name inputs outputs body)
    then obtain xs where body: "body = [ListV xs]" using ok by (cases body rule: remdups_adj.cases) (auto split: lv.splits)
    have c: "list_all is_element_value (name # inputs @ outputs @ xs)" "list_all (sendable L w n) (name # inputs @ outputs @ xs)"
      "reference_ok L w (sendable L w n) env" using ok by (simp_all add: ClosureV body)
    obtain g where g: "\<And>x. x \<in> set (name # inputs @ outputs @ xs) \<Longrightarrow> carries L w n x (g x)" using carried_list [OF Suc.IH c(2)] by blast
    obtain e where e: "refers L w n env e" using reference_refers [OF Suc.IH c(3)] by blast
    show ?thesis unfolding ClosureV body by (rule closure_carries [OF e c(1) g])
  next
    case (PrimitiveV name ins outs c)
    then show ?thesis using ok primitive_carries [of name c ins outs L w n] by auto
  next
    case (NeighborV p types)
    then show ?thesis using ok neighbor_carries [of L w p types n] by auto
  qed (use ok in simp_all)
  then show ?case by (simp add: carried_def)
qed (simp add: carried_def)


lemma finite_num_code [code]: "finite_num n = (case n of Dec m e \<Rightarrow> wf_num n | _ \<Rightarrow> False)"
  by (cases n) (auto simp: finite_num_def)

text \<open>A library with one cell and one propagator; sets are lists and the identity of a number is its text.\<close>

definition small_library :: "(cell list \<times> propagator_ref list) schema_library" where
  "small_library = \<lparr>special = (\<lambda>v. v = JNull), nothing = JNull, cell_content = (\<lambda>_. Atom JNull), cell_strongest = (\<lambda>_. Atom JNull),
     cell_neighbor_set = (\<lambda>_. SetV []), identify_by = (\<lambda>v. case v of Atom (JStr s) \<Rightarrow> s | _ \<Rightarrow> ''other''), better_set = (\<lambda>xs. xs),
     raw_array = (\<lambda>_. []), raw_propagator = (\<lambda>_. JNull), cell_snapshot = fst, add_cell = (\<lambda>c. apfst (\<lambda>cs. cs @ [c])),
     propagator_snapshot = snd, construct_propagator = (\<lambda>p. apsnd (\<lambda>ps. ps @ [p])), fresh_id = (\<lambda>_. JStr ''fresh'')\<rparr>"

definition word :: "jstring \<Rightarrow> lv" where
  "word s = ElementV (JStr ''Symbol'') (Atom (JStr s))"

definition adder :: lv where
  "adder = ClosureV (CellV (JStr ''e'', JStr ''env'')) (word ''add'') [word ''a'', word ''b''] [word ''c'']
     [ListV [word ''+'', word ''a'', word ''b'', word ''c'']]"

definition stored_value :: lv where
  "stored_value = LayeredV (MapV [(''f'', adder), (''e'', CellV (JStr ''e'', JStr ''env''))]) [(''support'', SetV [Atom (JStr ''me'')])]"

definition small_world :: "cell list \<times> propagator_ref list" where
  "small_world = ([(JStr ''e'', JStr ''env'')], [])"


section \<open>What is not read back\<close>

text \<open>Only the first expression of a body is stored, and an expression with a nested list is not encoded at all.\<close>

lemma later_body_lost:
  "gun_db_schema_encode L n (ClosureV env name inputs outputs (ListV xs # rest))
     = gun_db_schema_encode L n (ClosureV env name inputs outputs [ListV xs])"
  by (cases n) (simp_all add: closure_schema_def body_encoded_def)

lemma nested_body_fails:
  "gun_db_schema_encode small_library 9 (ClosureV (Atom JNull) (word ''f'') [] [] [ListV [word ''+'', ListV [word ''a'']]]) = Inl NotImplemented"
  by code_simp

lemma atomic_body_fails:
  "gun_db_schema_encode small_library 9 (ClosureV (Atom JNull) (word ''f'') [] [] [word ''a'']) = Inl TypeError"
  by code_simp

text \<open>Arrays and plain objects are stored but read as nothing.\<close>

lemma array_becomes_nothing:
  assumes "\<not> is_self_evaluating L (JArr (raw_array L xs))" and "\<not> is_self_evaluating L (JObj [(''value'', JArr (raw_array L xs))])"
  shows "\<exists>j. gun_db_schema_encode L (Suc n) (ListV xs) = Inr j \<and> gun_db_schema_decode L (Suc n) j w = (Inr (Atom (nothing L)), w)"
  using assms by (simp add: plain_value_schema_encode_def decode_object_def member_def decode_default_def is_propagator_reference_schema_def)

text \<open>A map with the key \<open>type\<close> loses its tag, and so everything it holds.\<close>

lemma map_key_type_lost:
  "case gun_db_schema_encode small_library 3 (MapV [(''x'', Atom (JStr ''1'')), (''type'', Atom (JStr ''t''))]) of
     Inl e \<Rightarrow> False | Inr j \<Rightarrow> gun_db_schema_decode small_library 6 j small_world = (Inr (Atom JNull), small_world)"
  by code_simp

text \<open>A reference to a known cell gives that cell; the stored cell itself gives a second one with the same id.\<close>

lemma stored_cell_duplicated:
  "case gun_db_schema_encode small_library 3 (CellV (JStr ''e'', JStr ''env'')) of
     Inl e \<Rightarrow> False | Inr j \<Rightarrow> snd (gun_db_schema_decode small_library 6 j small_world) = ([(JStr ''e'', JStr ''env''), (JStr ''e'', JStr ''env'')], [])"
  by code_simp

text \<open>A reference makes a receiver once; decoding it again gives the same cell and makes none.\<close>

definition adds_cells :: "'w schema_library \<Rightarrow> bool" where
  "adds_cells L \<longleftrightarrow> (\<forall>c w. cell_snapshot L (add_cell L c w) = cell_snapshot L w @ [c])"

lemma find_append: "find P (xs @ ys) = (case find P xs of Some x \<Rightarrow> Some x | None \<Rightarrow> find P ys)"
  by (induction xs) auto

lemma reference_made_once:
  assumes "adds_cells L" and "member m ''id'' \<noteq> JUndef" and "lazied_decode_cell_reference L (JObj m) w = (r, w')"
  shows "\<exists>c. r = Inr c \<and> fst c = member m ''id'' \<and> lazied_decode_cell_reference L (JObj m) w' = (Inr c, w')"
proof (cases "find (\<lambda>c. fst c = member m ''id'') (cell_snapshot L w)")
  case None
  let ?c = "(member m ''id'', member m ''name'')"
  have "r = Inr ?c" "w' = add_cell L ?c w" using assms(2,3) None
    by (auto simp: lazied_decode_cell_reference_def members_of_def make_receiver_def Let_def)
  then show ?thesis using assms(1) None
    by (simp add: lazied_decode_cell_reference_def members_of_def adds_cells_def find_append)
next
  case (Some c)
  then have "fst c = member m ''id''" by (auto simp: find_Some_iff)
  then show ?thesis using assms(3) Some by (intro exI [of _ c]) (auto simp: lazied_decode_cell_reference_def members_of_def)
qed

text \<open>A name that every object has is no unknown primitive.\<close>

lemma inherited_primitive:
  "primitive_schema_decode [(''name'', JStr ''toString'')] w = (Inr (PrimitiveV (JStr ''toString'') JUndef JUndef ''toString''), w)"
  by (simp add: primitive_schema_decode_def member_def registered_constructor_def primitive_registry_def inherited_members_def)

end
