(* ===== verification/Gun_History.thy ===== *)
theory Gun_History
  imports Json_Text "HOL-Library.Multiset" "HOL-Library.Sublist"
begin

text \<open>
  Old values of the database: \<open>src/DB/serialize/gun_access_old_values.ts\<close>. The storage of a browser
  is a list of keys and texts, and the database a sequence of deliveries, what it hands over before
  the 200 ms are over. Members that every object inherits, such as \<open>constructor\<close>, and the length of
  an array are no entries of data here, so a path is one of data names.
\<close>

section \<open>Searching stored data\<close>

text \<open>The entries a loop over an object or an array visits.\<close>

definition entries :: "jsval \<Rightarrow> (jstring \<times> jsval) list" where
  "entries v = (case v of
     JObj m \<Rightarrow> m
   | JArr xs \<Rightarrow> zip (map (\<lambda>i. digits_of_int (int i)) [0..<length xs]) xs
   | _ \<Rightarrow> [])"

definition is_object :: "jsval \<Rightarrow> bool" where
  "is_object v = (case v of JObj _ \<Rightarrow> True | JArr _ \<Rightarrow> True | _ \<Rightarrow> False)"

definition absent :: "jsval \<Rightarrow> bool" where
  "absent v \<longleftrightarrow> v = JNull \<or> v = JUndef"

definition falsy :: "jsval \<Rightarrow> bool" where
  "falsy v \<longleftrightarrow> v \<in> {JUndef, JNull, JBool False, JStr [], JNum NaN, JNum NegZero, JNum (Dec 0 0)}"

definition local_storage_data :: "(jstring \<times> jstring) list \<Rightarrow> (jstring, jsval) jmap" where
  "local_storage_data items =
     fold (\<lambda>(k, text) data.
        if starts_with k ''gun:'' \<and> text \<noteq> [] then
          (case json_parse text of Some v \<Rightarrow> obj_set k v data | None \<Rightarrow> data)
        else data) items []"

fun search_in_data :: "jstring list \<Rightarrow> jsval \<Rightarrow> jsval list" where
  "search_in_data [] data = (if absent data then [] else [data])"
| "search_in_data (n # rest) data =
     (case map_of (entries data) n of
        None \<Rightarrow> []
      | Some v \<Rightarrow> if v = JUndef then [] else search_in_data rest v)
     @ concat (map (\<lambda>kv. if str_includes (fst kv) n \<or> str_includes n (fst kv) then search_in_data rest (snd kv) else []) (entries data))"

definition find_old_values :: "jstring \<Rightarrow> (jstring \<times> jsval) list \<Rightarrow> jsval list" where
  "find_old_values path storage = concat (map (\<lambda>kv. search_in_data (split_on ''/'' path) (snd kv)) storage)"

text \<open>A value lies on a path whose names contain the given ones or are contained in them.\<close>

fun lies_on :: "jstring list \<Rightarrow> jsval \<Rightarrow> jsval \<Rightarrow> bool" where
  "lies_on [] data v \<longleftrightarrow> v = data \<and> \<not> absent v"
| "lies_on (n # rest) data v \<longleftrightarrow>
     (\<exists>kv \<in> set (entries data). (str_includes (fst kv) n \<or> str_includes n (fst kv)) \<and> lies_on rest (snd kv) v)"

fun at_path :: "jstring list \<Rightarrow> jsval \<Rightarrow> jsval option" where
  "at_path [] data = Some data"
| "at_path (n # rest) data = (case map_of (entries data) n of None \<Rightarrow> None | Some v \<Rightarrow> at_path rest v)"

lemma str_includes_self: "str_includes s s"
  using index_of_append_Some [of s "[]" "[]"] by (auto simp: str_includes_def)

lemma search_set: "set (search_in_data path data) = {v. lies_on path data v}"
proof (induction path arbitrary: data)
  case (Cons n rest)
  have "v \<in> set (search_in_data (n # rest) data)" if "lies_on (n # rest) data v" for v
    using that Cons.IH by auto
  moreover have "lies_on (n # rest) data v" if in_result: "v \<in> set (search_in_data (n # rest) data)" for v
  proof -
    from in_result consider x where "map_of (entries data) n = Some x" "v \<in> set (search_in_data rest x)"
      | kv where "kv \<in> set (entries data)" "str_includes (fst kv) n \<or> str_includes n (fst kv)" "v \<in> set (search_in_data rest (snd kv))"
      by (cases "map_of (entries data) n") (auto split: if_splits)
    then show ?thesis
    proof cases
      case 1
      then have "(n, x) \<in> set (entries data)" by (simp add: map_of_SomeD)
      then show ?thesis using 1(2) Cons.IH str_includes_self [of n] by force
    next
      case 2
      then show ?thesis using Cons.IH by auto
    qed
  qed
  ultimately show ?case by blast
qed auto

text \<open>The result holds exactly the values on such paths below the entries of the storage.\<close>

lemma find_old_values_exact:
  "set (find_old_values path storage) = {v. \<exists>kv \<in> set storage. lies_on (split_on ''/'' path) (snd kv) v}"
  by (auto simp: find_old_values_def search_set)

text \<open>
  Every name that is matched exactly is followed twice, as a member and in the loop over all
  members, so the value at the path itself is found \<open>2 ^ n\<close> times.
\<close>

lemma count_concat_member: "x \<in> set xs \<Longrightarrow> count (mset (f x)) v \<le> count (mset (concat (map f xs))) v"
  by (induction xs) auto

lemma exact_path_doubled:
  "at_path path data = Some v \<Longrightarrow> \<not> absent v \<Longrightarrow> 2 ^ length path \<le> count (mset (search_in_data path data)) v"
proof (induction path arbitrary: data)
  case (Cons n rest)
  obtain x where x: "map_of (entries data) n = Some x" "at_path rest x = Some v" using Cons.prems(1) by (auto split: option.splits)
  have "x \<noteq> JUndef"
  proof
    assume "x = JUndef"
    then show False using x(2) Cons.prems(2) by (cases rest) (auto simp: absent_def entries_def)
  qed
  moreover have "2 ^ length rest \<le> count (mset (search_in_data rest x)) v" using Cons.IH [OF x(2) Cons.prems(2)] .
  moreover have "count (mset (search_in_data rest x)) v
      \<le> count (mset (concat (map (\<lambda>kv. if str_includes (fst kv) n \<or> str_includes n (fst kv) then search_in_data rest (snd kv) else []) (entries data)))) v"
    using count_concat_member [OF map_of_SomeD [OF x(1)],
      of "\<lambda>kv. if str_includes (fst kv) n \<or> str_includes n (fst kv) then search_in_data rest (snd kv) else []" v]
    by (simp add: str_includes_self)
  ultimately show ?case by (simp add: x(1))
qed simp

section \<open>The graph in memory\<close>

lemma entries_smaller: "kv \<in> set (entries data) \<Longrightarrow> size (snd kv) < size data"
proof (cases data)
  case (JArr xs)
  assume "kv \<in> set (entries data)"
  moreover obtain k x where kv: "kv = (k, x)" by force
  ultimately have "snd kv \<in> set xs" by (auto simp: entries_def JArr dest: set_zip_rightD)
  then show ?thesis using size_list_estimation' [of "snd kv" xs "size (snd kv)" size] by (simp add: JArr less_Suc_eq_le)
next
  case (JObj m)
  assume "kv \<in> set (entries data)"
  then have "kv \<in> set m" by (simp add: entries_def JObj)
  then have "size_prod (\<lambda>_. 0) size kv \<le> size_list (size_prod (\<lambda>_. 0) size) m"
    by (intro size_list_estimation') auto
  then show ?thesis by (cases kv) (simp add: JObj)
qed (simp_all add: entries_def)

lemma member_smaller: "map_of (entries data) n = Some v \<Longrightarrow> size v < size data"
  using entries_smaller [of "(n, v)" data] by (simp add: map_of_SomeD)

function search_graph :: "jsval \<Rightarrow> jstring list \<Rightarrow> jsval list" where
  "search_graph node path =
     (if \<not> is_object node then []
      else case path of
        [] \<Rightarrow> [node]
      | n # rest \<Rightarrow>
          (case map_of (entries node) n of None \<Rightarrow> [] | Some v \<Rightarrow> if v = JUndef then [] else search_graph v rest)
          @ concat (map (\<lambda>kv. if fst kv \<noteq> ''_'' \<and> is_object (snd kv) then search_graph (snd kv) path else []) (entries node)))"
  by pat_completeness auto
termination
  by (relation "measure (size \<circ> fst)") (auto dest: member_smaller entries_smaller)

declare search_graph.simps [simp del]

definition find_nodes_with_path :: "(jstring \<times> jsval) list option \<Rightarrow> jstring \<Rightarrow> jsval list" where
  "find_nodes_with_path graph path =
     (case graph of None \<Rightarrow> [] | Some g \<Rightarrow> concat (map (\<lambda>kv. search_graph (snd kv) (split_on ''/'' path)) g))"

function collect_states :: "jsval \<Rightarrow> jstring \<Rightarrow> (jstring \<times> jsval \<times> jsval) list" where
  "collect_states obj path =
     (if \<not> is_object obj then []
      else
        (case map_of (entries obj) ''_'' of
           None \<Rightarrow> []
         | Some meta \<Rightarrow>
             (case map_of (entries meta) ''state'' of
                None \<Rightarrow> []
              | Some st \<Rightarrow> if falsy st then [] else [(path, st, obj)]))
        @ concat (map (\<lambda>kv. if fst kv \<noteq> ''_'' \<and> is_object (snd kv)
                            then collect_states (snd kv) (if path = [] then fst kv else path @ ''/'' @ fst kv) else []) (entries obj)))"
  by pat_completeness auto
termination
  by (relation "measure (size \<circ> fst)") (auto dest: entries_smaller)

declare collect_states.simps [simp del]

text \<open>What is found is an object of the graph with the last name of the path as its own; other names may lie between.\<close>

inductive below :: "jsval \<Rightarrow> jstring list \<Rightarrow> jsval \<Rightarrow> bool" where
  below_here: "is_object node \<Longrightarrow> below node [] node"
| below_in: "kv \<in> set (entries node) \<Longrightarrow> is_object (snd kv) \<Longrightarrow> below (snd kv) ks v \<Longrightarrow> below node (fst kv # ks) v"

lemma search_graph_sound:
  "v \<in> set (search_graph node path) \<Longrightarrow> \<exists>ks. below node ks v \<and> subseq path ks \<and> (path \<noteq> [] \<longrightarrow> last ks = last path)"
proof (induction node path rule: search_graph.induct)
  case (1 node path)
  have obj: "is_object node" using "1.prems" by (auto simp: search_graph.simps [of node path] split: if_splits)
  show ?case
  proof (cases path)
    case Nil
    then have "v = node" using "1.prems" obj by (simp add: search_graph.simps [of node "[]"])
    then show ?thesis using obj Nil by (auto intro: below_here)
  next
    case (Cons n rest)
    from "1.prems" obj consider x where "map_of (entries node) n = Some x" "x \<noteq> JUndef" "v \<in> set (search_graph x rest)"
      | kv where "kv \<in> set (entries node)" "fst kv \<noteq> ''_''" "is_object (snd kv)" "v \<in> set (search_graph (snd kv) path)"
      unfolding search_graph.simps [of node path] by (cases "map_of (entries node) n") (auto simp: Cons split: if_splits)
    then show ?thesis
    proof cases
      case 1
      have "is_object x" using 1(3) by (auto simp: search_graph.simps [of x rest] split: if_splits)
      moreover obtain ks where "below x ks v" "subseq rest ks" "rest \<noteq> [] \<longrightarrow> last ks = last rest" "rest = [] \<longrightarrow> ks = []"
        using "1.IH"(1) [OF _ Cons 1(1)] obj 1 \<open>is_object x\<close>
        by (cases rest) (auto simp: search_graph.simps [of x "[]"] intro: below_here)
      ultimately show ?thesis using below_in [of "(n, x)" node ks v] map_of_SomeD [OF 1(1)]
        by (intro exI [of _ "n # ks"]) (auto simp: Cons)
    next
      case 2
      obtain ks where "below (snd kv) ks v" "subseq path ks" "last ks = last path"
        using "1.IH"(2) [OF _ Cons 2(1)] obj 2 Cons by auto
      moreover have "subseq path (fst kv # ks)" using \<open>subseq path ks\<close> by (rule list_emb_Cons)
      moreover have "last (fst kv # ks) = last path" using \<open>subseq path ks\<close> \<open>last ks = last path\<close> Cons by auto
      ultimately show ?thesis using below_in [OF 2(1,3)] by blast
    qed
  qed
qed

lemma graph_path_found:
  "search_graph (JObj [(''a'', JObj [(''x'', JObj [(''b'', JObj [])])])]) [''a'', ''b''] = [JObj []]"
  by (simp add: search_graph.simps entries_def is_object_def)

section \<open>Stored versions\<close>

text \<open>
  A version is written under its key and under the key \<open>latest\<close>. What the database delivers may be
  anything; a delivery without a value is left out, and the result is sorted with the newest first.
\<close>

record version =
  ver_value :: jsval
  ver_timestamp :: int
  ver_source :: jstring
  ver_key :: jstring

definition store_version :: "int \<Rightarrow> jsval \<Rightarrow> int option \<Rightarrow> jstring option \<Rightarrow> version" where
  "store_version now val timestamp source =
     (let t = (case timestamp of None \<Rightarrow> now | Some t \<Rightarrow> if t = 0 then now else t);
          s = (case source of None \<Rightarrow> ''unknown'' | Some s \<Rightarrow> if s = [] then ''unknown'' else s)
      in \<lparr>ver_value = val, ver_timestamp = t, ver_source = s,
          ver_key = (if t < 0 then CHR ''-'' # digits_of_int (- t) else digits_of_int t) @ ''_'' @ s\<rparr>)"

definition get_all_versions :: "version option list \<Rightarrow> version list" where
  "get_all_versions deliveries =
     sort_key (\<lambda>v. - ver_timestamp v)
       (concat (map (\<lambda>d. case d of None \<Rightarrow> [] | Some v \<Rightarrow> if ver_value v = JUndef then [] else [v]) deliveries))"

definition get_latest :: "version option \<Rightarrow> jsval" where
  "get_latest data = (case data of None \<Rightarrow> JNull | Some v \<Rightarrow> if falsy (ver_value v) then JNull else ver_value v)"

definition closer :: "int \<Rightarrow> version \<Rightarrow> version \<Rightarrow> version" where
  "closer t old cur = (if \<bar>ver_timestamp cur - t\<bar> < \<bar>ver_timestamp old - t\<bar> then cur else old)"

text \<open>\<open>None\<close>: the reduction of no versions throws inside the callback, and the promise never settles.\<close>

definition get_version_at :: "int \<Rightarrow> version option list \<Rightarrow> version option" where
  "get_version_at t deliveries =
     (case get_all_versions deliveries of [] \<Rightarrow> None | v # vs \<Rightarrow> Some (foldl (closer t) v vs))"

definition get_old_versions :: "int \<Rightarrow> version option list \<Rightarrow> version list" where
  "get_old_versions before deliveries = filter (\<lambda>v. ver_timestamp v < before) (get_all_versions deliveries)"

definition get_all_from_set :: "jsval list \<Rightarrow> jsval list" where
  "get_all_from_set deliveries = filter (\<lambda>v. \<not> absent v) deliveries"

definition usable :: "version option list \<Rightarrow> version set" where
  "usable deliveries = {v. Some v \<in> set deliveries \<and> ver_value v \<noteq> JUndef}"

lemma all_versions_set: "set (get_all_versions deliveries) = usable deliveries"
proof -
  have "set (concat (map (\<lambda>d. case d of None \<Rightarrow> [] | Some v \<Rightarrow> if ver_value v = JUndef then [] else [v]) deliveries)) = usable deliveries"
    by (induction deliveries) (auto simp: usable_def split: option.splits)
  then show ?thesis by (simp add: get_all_versions_def)
qed

lemma closer_fold:
  assumes "sorted (map (\<lambda>v. - ver_timestamp v) (v # vs))"
  shows "foldl (closer t) v vs \<in> set (v # vs) \<and>
    (\<forall>u \<in> set (v # vs). let d = \<lambda>x. \<bar>ver_timestamp x - t\<bar>; r = foldl (closer t) v vs
       in d r < d u \<or> d r = d u \<and> ver_timestamp u \<le> ver_timestamp r)"
  using assms
proof (induction vs rule: rev_induct)
  case (snoc u vs)
  let ?r = "foldl (closer t) v vs"
  have ih: "?r \<in> set (v # vs)"
    "\<And>x. x \<in> set (v # vs) \<Longrightarrow> \<bar>ver_timestamp ?r - t\<bar> < \<bar>ver_timestamp x - t\<bar>
       \<or> \<bar>ver_timestamp ?r - t\<bar> = \<bar>ver_timestamp x - t\<bar> \<and> ver_timestamp x \<le> ver_timestamp ?r"
    using snoc.IH snoc.prems by (auto simp: sorted_append Let_def)
  have newer: "\<And>x. x \<in> set (v # vs) \<Longrightarrow> ver_timestamp u \<le> ver_timestamp x" using snoc.prems by (auto simp: sorted_append)
  have r: "foldl (closer t) v (vs @ [u]) = closer t ?r u" by simp
  show ?case
  proof (cases "\<bar>ver_timestamp u - t\<bar> < \<bar>ver_timestamp ?r - t\<bar>")
    case True
    then have "closer t ?r u = u" by (simp add: closer_def)
    moreover have "\<bar>ver_timestamp u - t\<bar> < \<bar>ver_timestamp x - t\<bar>" if "x \<in> set (v # vs)" for x using ih(2) [OF that] True by linarith
    ultimately show ?thesis unfolding r Let_def by auto
  next
    case False
    then have c: "closer t ?r u = ?r" by (simp add: closer_def)
    show ?thesis unfolding r c Let_def using ih newer [OF ih(1)] False by auto
  qed
qed simp

text \<open>
  The version at a time is one of the delivered versions that are nearest to it, the newest of
  them where two are equally near; without a delivered version there is no answer at all.
\<close>

lemma version_at_nearest:
  "case get_version_at t deliveries of
     None \<Rightarrow> usable deliveries = {}
   | Some r \<Rightarrow> r \<in> usable deliveries
       \<and> (\<forall>u \<in> usable deliveries. \<bar>ver_timestamp r - t\<bar> < \<bar>ver_timestamp u - t\<bar>
            \<or> \<bar>ver_timestamp r - t\<bar> = \<bar>ver_timestamp u - t\<bar> \<and> ver_timestamp u \<le> ver_timestamp r)"
proof (cases "get_all_versions deliveries")
  case Nil
  then show ?thesis using all_versions_set [of deliveries] by (simp add: get_version_at_def)
next
  case (Cons v vs)
  have "sorted (map (\<lambda>v. - ver_timestamp v) (get_all_versions deliveries))" unfolding get_all_versions_def by (rule sorted_sort_key)
  then have "sorted (map (\<lambda>v. - ver_timestamp v) (v # vs))" by (simp only: Cons)
  from closer_fold [OF this, of t] show ?thesis
    using all_versions_set [of deliveries] by (simp only: get_version_at_def Cons list.case option.case Let_def) simp
qed

lemma old_versions_exact: "set (get_old_versions before deliveries) = {v \<in> usable deliveries. ver_timestamp v < before}"
  by (auto simp: get_old_versions_def all_versions_set)

text \<open>A latest value of 0, false or the empty string is given as null, and the time 0 is replaced by now.\<close>

lemma falsy_latest_lost: "get_latest (Some (store_version now (JNum (Dec 0 0)) (Some 5) None)) = JNull"
  by (simp add: get_latest_def store_version_def falsy_def Let_def)

lemma time_zero_replaced: "ver_timestamp (store_version 7 v (Some 0) s) = 7"
  by (simp add: store_version_def Let_def)

end
